(* ===== verification/Prelude.thy ===== *)
theory Prelude
  imports "HOL-Library.Word" "HOL-Library.More_List"
begin

text \<open>
  Shared vocabulary of the development.

  Fallible operations return \<open>'e + 'a\<close> with \<^term>\<open>Inl\<close> for the thrown error, and are
  sequenced with \<open>rbind\<close>. Byte buffers (\<open>Uint8Array\<close>) are lists of 8-bit words;
  reading past the end of one yields \<open>undefined\<close>, which every bitwise operator of the
  source turns into 0, so reads are written with \<^const>\<open>nth_default\<close> \<open>0\<close>.
  \<open>buffer_set\<close> is \<open>TypedArray.prototype.set\<close>.

  Three interfaces are stated here and interpreted in the components:
  \<open>incremental\<close> (feeding a stream piecewise is feeding it whole; interpreted by the
  SHA-256 stream and the CRC-32 register) and \<open>resumable\<close> (a state that is saved,
  reloaded and stepped behaves as the state that never stopped), and
  \<open>guarded_system\<close> (what every transaction keeps, every interleaving keeps; interpreted by
  the acquisition ledger).
\<close>

unbundle bit_operations_syntax

type_synonym u8 = "8 word"
type_synonym u32 = "32 word"
type_synonym bytes = "u8 list"

named_theorems errs \<open>unfolding and inversion of error-returning sequences\<close>
named_theorems bounds \<open>size and range facts about the byte-level components\<close>

subsection \<open>Errors as values\<close>

fun rbind :: "'e + 'a \<Rightarrow> ('a \<Rightarrow> 'e + 'b) \<Rightarrow> 'e + 'b" where
  "rbind (Inl e) f = Inl e"
| "rbind (Inr x) f = f x"

definition guard_or :: "bool \<Rightarrow> 'e \<Rightarrow> 'e + unit" where
  "guard_or ok e = (if ok then Inr () else Inl e)"

lemma rbind_eq_Inr [errs]:
  "rbind m f = Inr y \<longleftrightarrow> (\<exists>x. m = Inr x \<and> f x = Inr y)"
  by (cases m) auto

lemma rbind_eq_Inl [errs]:
  "rbind m f = Inl e \<longleftrightarrow> m = Inl e \<or> (\<exists>x. m = Inr x \<and> f x = Inl e)"
  by (cases m) auto

lemma guard_or_eq_Inr [simp]: "guard_or b e = Inr u \<longleftrightarrow> b"
  by (simp add: guard_or_def)

lemma guard_or_eq_Inl [simp]: "guard_or b e = Inl e' \<longleftrightarrow> \<not> b \<and> e' = e"
  by (auto simp: guard_or_def)

lemma guard_or_simps [simp]:
  "guard_or True e = Inr ()" "guard_or False e = Inl e"
  by (simp_all add: guard_or_def)

lemma rbind_assoc: "rbind (rbind m f) g = rbind m (\<lambda>x. rbind (f x) g)"
  by (cases m) auto

lemma rbind_cong [fundef_cong]:
  "m = m' \<Longrightarrow> (\<And>x. m' = Inr x \<Longrightarrow> f x = f' x) \<Longrightarrow> rbind m f = rbind m' f'"
  by (cases m') auto

text \<open>Left-to-right traversal that stops at the first error.\<close>

fun rfold :: "('a \<Rightarrow> 's \<Rightarrow> 'e + 's) \<Rightarrow> 'a list \<Rightarrow> 's \<Rightarrow> 'e + 's" where
  "rfold f [] s = Inr s"
| "rfold f (x # xs) s = rbind (f x s) (rfold f xs)"

lemma rfold_append: "rfold f (xs @ ys) s = rbind (rfold f xs s) (rfold f ys)"
proof (induction xs arbitrary: s)
  case (Cons x xs)
  then show ?case by (cases "f x s") simp_all
qed simp

lemma rfold_invariant:
  assumes "rfold f xs s = Inr t" and "P s"
    and "\<And>x s t. x \<in> set xs \<Longrightarrow> P s \<Longrightarrow> f x s = Inr t \<Longrightarrow> P t"
  shows "P t"
  using assms
proof (induction xs arbitrary: s)
  case (Cons x xs)
  from Cons.prems(1) obtain u where u: "f x s = Inr u" and rest: "rfold f xs u = Inr t"
    by (auto simp: errs)
  have "P u" by (rule Cons.prems(3) [OF _ Cons.prems(2) u]) simp
  with rest show ?case using Cons.prems(3) by (intro Cons.IH) auto
qed simp

subsection \<open>Byte buffers\<close>

definition buffer_set :: "'a list \<Rightarrow> 'a list \<Rightarrow> nat \<Rightarrow> 'a list" where
  "buffer_set buf xs at = take at buf @ xs @ drop (at + length xs) buf"

lemma length_buffer_set [bounds]:
  "at + length xs \<le> length buf \<Longrightarrow> length (buffer_set buf xs at) = length buf"
  by (simp add: buffer_set_def)

lemma take_buffer_set:
  "at + length xs \<le> length buf \<Longrightarrow> take (at + length xs) (buffer_set buf xs at) = take at buf @ xs"
  by (simp add: buffer_set_def)

lemma buffer_set_append:
  "length p = at \<Longrightarrow> buffer_set (p @ q) xs at = (p @ xs) @ drop (length xs) q"
  by (simp add: buffer_set_def)

lemma nth_default_take:
  "i < n \<Longrightarrow> nth_default d (take n xs) i = nth_default d xs i"
  by (simp add: nth_default_def)

lemma nth_default_drop: "nth_default d (drop k xs) i = nth_default d xs (k + i)"
  by (auto simp: nth_default_def add.commute)

lemma take_drop_split:
  "take (m + n) xs = take m xs @ take n (drop m xs)"
  by (simp add: take_add)

text \<open>Four bytes joined big-endian by shifts are their concatenation.\<close>

lemma or_bytes_word_rcat:
  fixes a b c d :: u8
  shows "push_bit 24 (ucast a) OR push_bit 16 (ucast b) OR push_bit 8 (ucast c) OR ucast d = (word_rcat [a, b, c, d] :: u32)"
proof (rule bit_word_eqI)
  fix n assume "n < LENGTH(32)"
  then have n: "n < 32" by simp
  have R: "bit (word_rcat [a, b, c, d] :: u32) n = (n div 8 < length [d, c, b, a] \<and> bit ([d, c, b, a] ! (n div 8)) (n mod 8))"
    unfolding word_rcat_def comp_def bit_word_of_int_iff rev.simps append.simps bit_horner_sum_uint_exp_iff using n by simp
  consider "n < 8" | "8 \<le> n" "n < 16" | "16 \<le> n" "n < 24" | "24 \<le> n" "n < 32" using n by linarith
  then show "bit (push_bit 24 (ucast a) OR push_bit 16 (ucast b) OR push_bit 8 (ucast c) OR ucast d :: u32) n = bit (word_rcat [a, b, c, d] :: u32) n"
  proof cases
    case 1
    then show ?thesis unfolding R by (simp add: bit_simps)
  next
    case 2
    then have "n div 8 = 1" "n mod 8 = n - 8" by (auto simp: div_if mod_if)
    with 2 show ?thesis unfolding R by (auto simp: bit_simps dest: bit_imp_le_length)
  next
    case 3
    then have "n div 8 = 2" "n mod 8 = n - 16" by (auto simp: div_if mod_if)
    with 3 show ?thesis unfolding R by (auto simp: bit_simps dest: bit_imp_le_length)
  next
    case 4
    then have "n div 8 = 3" "n mod 8 = n - 24" by (auto simp: div_if mod_if)
    with 4 show ?thesis unfolding R by (auto simp: bit_simps dest: bit_imp_le_length)
  qed
qed
subsection \<open>Feeding a stream piecewise\<close>

locale incremental =
  fixes feed :: "'s \<Rightarrow> 'a list \<Rightarrow> 's"
    and ok :: "'s \<Rightarrow> bool"
    and view :: "'s \<Rightarrow> 'o"
  assumes ok_feed: "ok s \<Longrightarrow> ok (feed s xs)"
    and feed_nil: "ok s \<Longrightarrow> view (feed s []) = view s"
    and feed_append: "ok s \<Longrightarrow> view (feed (feed s xs) ys) = view (feed s (xs @ ys))"
    and feed_cong: "ok s \<Longrightarrow> ok t \<Longrightarrow> view s = view t \<Longrightarrow> view (feed s xs) = view (feed t xs)"
begin

lemma ok_foldl: "ok s \<Longrightarrow> ok (foldl feed s xss)"
  by (induction xss arbitrary: s) (simp_all add: ok_feed)

text \<open>However the input is cut into pieces, the result is that of feeding it at once.\<close>

lemma view_foldl: "ok s \<Longrightarrow> view (foldl feed s xss) = view (feed s (concat xss))"
proof (induction xss arbitrary: s)
  case Nil
  then show ?case by (simp add: feed_nil)
next
  case (Cons xs xss)
  then show ?case by (simp add: ok_feed feed_append)
qed

corollary view_pieces:
  "ok s \<Longrightarrow> concat xss = concat yss \<Longrightarrow> view (foldl feed s xss) = view (foldl feed s yss)"
  by (simp add: view_foldl)

end

subsection \<open>Suspending and resuming a computation\<close>

text \<open>
  A run over inputs in which every step may be followed by a suspension: the state is saved, and
  the run goes on from what the loader makes of the saved form.
\<close>

definition suspend :: "('s \<Rightarrow> 'e + 'c) \<Rightarrow> ('c \<Rightarrow> 'e + 's) \<Rightarrow> bool \<Rightarrow> 's \<Rightarrow> 'e + 's" where
  "suspend save load stop s = (if stop then rbind (save s) load else Inr s)"

definition interrupted ::
  "('i \<Rightarrow> 's \<Rightarrow> 'e + 's) \<Rightarrow> ('s \<Rightarrow> 'e + 'c) \<Rightarrow> ('c \<Rightarrow> 'e + 's) \<Rightarrow> ('i \<times> bool) list \<Rightarrow> 's \<Rightarrow> 'e + 's" where
  "interrupted step save load = rfold (\<lambda>(i, stop) s. rbind (step i s) (suspend save load stop))"

locale resumable =
  fixes step :: "'i \<Rightarrow> 's \<Rightarrow> 'e + 's"
    and save :: "'s \<Rightarrow> 'e + 'c"
    and load :: "'c \<Rightarrow> 'e + 's"
    and ok :: "'s \<Rightarrow> bool"
    and view :: "'s \<Rightarrow> 'o"
  assumes step_ok: "ok s \<Longrightarrow> step i s = Inr t \<Longrightarrow> ok t"
    and step_cong: "ok s \<Longrightarrow> ok t \<Longrightarrow> view s = view t \<Longrightarrow>
      map_sum id view (step i s) = map_sum id view (step i t)"
    and save_load: "ok s \<Longrightarrow> \<exists>c t. save s = Inr c \<and> load c = Inr t \<and> ok t \<and> view t = view s"
begin

lemma suspend_ok: "ok s \<Longrightarrow> \<exists>t. suspend save load stop s = Inr t \<and> ok t \<and> view t = view s"
  using save_load [of s] by (auto simp: suspend_def)

lemma rfold_ok: "ok s \<Longrightarrow> rfold step is s = Inr t \<Longrightarrow> ok t"
  by (rule rfold_invariant [where P = ok]) (auto intro: step_ok)

text \<open>Suspensions are invisible: errors and final views are those of the uninterrupted run.\<close>

lemma interrupted_view:
  "ok s \<Longrightarrow> ok s' \<Longrightarrow> view s = view s' \<Longrightarrow>
    map_sum id view (interrupted step save load steps s) = map_sum id view (rfold step (map fst steps) s')"
proof (induction steps arbitrary: s s')
  case Nil
  then show ?case by (simp add: interrupted_def)
next
  case (Cons a steps)
  obtain i stop where a: "a = (i, stop)" by force
  show ?case
  proof (cases "step i s'")
    case (Inl e)
    then show ?thesis
      using step_cong [OF Cons.prems, of i] by (cases "step i s") (simp_all add: interrupted_def a)
  next
    case (Inr t')
    with step_cong [OF Cons.prems, of i] obtain t where t: "step i s = Inr t" "view t = view t'"
      by (cases "step i s") simp_all
    have "ok t" "ok t'" using Cons.prems t(1) Inr by (auto intro: step_ok)
    moreover obtain u where "suspend save load stop t = Inr u" "ok u" "view u = view t"
      using suspend_ok [OF \<open>ok t\<close>] by blast
    ultimately show ?thesis
      using Cons.IH [of u t'] t Inr by (simp add: interrupted_def a)
  qed
qed

lemma interrupted_success:
  assumes "ok s" and "rfold step (map fst steps) s = Inr t"
  shows "\<exists>u. interrupted step save load steps s = Inr u \<and> view u = view t"
  using interrupted_view [OF assms(1) assms(1) refl, of steps] assms(2)
  by (cases "interrupted step save load steps s") simp_all

end

subsection \<open>Interleaved transactions\<close>

text \<open>
  A relation whose steps keep an invariant and only ever extend some observation of the state.
\<close>

locale guarded_system =
  fixes step :: "'s \<Rightarrow> 's \<Rightarrow> bool" and inv :: "'s \<Rightarrow> bool" and extends :: "'s \<Rightarrow> 's \<Rightarrow> bool"
  assumes step_keeps: "step s t \<Longrightarrow> inv s \<Longrightarrow> inv t"
    and step_extends: "step s t \<Longrightarrow> extends s t"
    and extends_refl: "extends s s"
    and extends_trans: "extends s t \<Longrightarrow> extends t u \<Longrightarrow> extends s u"
begin

lemma steps_keep: "step\<^sup>*\<^sup>* s t \<Longrightarrow> inv s \<Longrightarrow> inv t"
  by (induction rule: rtranclp_induct) (auto intro: step_keeps)

lemma steps_extend: "step\<^sup>*\<^sup>* s t \<Longrightarrow> extends s t"
  by (induction rule: rtranclp_induct) (auto intro: step_extends extends_refl extends_trans)

end

end
