(* ===== verification/Streaming_Sha256.thy ===== *)
theory Streaming_Sha256
  imports Prelude
begin

text \<open>
  The class \<open>StreamingSha256\<close> of \<open>src/src/catalogue/shared/streaming-sha256.ts\<close>: a SHA-256
  stream whose state can be saved between chunks. The object is a record with the 64-byte block
  buffer kept whole, stale bytes behind the fill mark included. All sums of the source are reduced
  by \<open>>>> 0\<close>, that is modulo \<open>2 ^ 32\<close>, so they are sums of 32-bit words.

  The theorems relate the class to the padding-and-blocks description of the standard, show that
  the result does not depend on how the message is cut into chunks, and that a checkpoint is
  always accepted by the constructor and continues the same stream.
\<close>

subsection \<open>The compression function\<close>

text \<open>The constants of the source in decimal (there in hexadecimal, from \<open>0x428a2f98\<close> to \<open>0xc67178f2\<close>).\<close>

definition roundConstants :: "u32 list" where
  "roundConstants =
    [1116352408, 1899447441, 3049323471, 3921009573, 961987163, 1508970993, 2453635748, 2870763221,
     3624381080, 310598401, 607225278, 1426881987, 1925078388, 2162078206, 2614888103, 3248222580,
     3835390401, 4022224774, 264347078, 604807628, 770255983, 1249150122, 1555081692, 1996064986,
     2554220882, 2821834349, 2952996808, 3210313671, 3336571891, 3584528711, 113926993, 338241895,
     666307205, 773529912, 1294757372, 1396182291, 1695183700, 1986661051, 2177026350, 2456956037,
     2730485921, 2820302411, 3259730800, 3345764771, 3516065817, 3600352804, 4094571909, 275423344,
     430227734, 506948616, 659060556, 883997877, 958139571, 1322822218, 1537002063, 1747873779,
     1955562222, 2024104815, 2227730452, 2361852424, 2428436474, 2756734187, 3204031479, 3329325298]"

definition initialState :: "u32 list" where
  "initialState =
    [1779033703, 3144134277, 1013904242, 2773480762,
     1359893119, 2600822924, 528734635, 1541459225]"

definition rotateRight :: "u32 \<Rightarrow> nat \<Rightarrow> u32" where
  "rotateRight v places = drop_bit places v OR push_bit (32 - places) v"

text \<open>The sixteen big-endian words of the block at \<open>offset\<close>.\<close>

definition block_word :: "bytes \<Rightarrow> nat \<Rightarrow> nat \<Rightarrow> u32" where
  "block_word block offset index = (let at = offset + index * 4 in
     push_bit 24 (ucast (nth_default 0 block at)) OR
     push_bit 16 (ucast (nth_default 0 block (at + 1))) OR
     push_bit 8 (ucast (nth_default 0 block (at + 2))) OR
     ucast (nth_default 0 block (at + 3)))"

definition sigma0 :: "u32 \<Rightarrow> u32" where
  "sigma0 first = rotateRight first 7 XOR rotateRight first 18 XOR drop_bit 3 first"

definition sigma1 :: "u32 \<Rightarrow> u32" where
  "sigma1 second = rotateRight second 17 XOR rotateRight second 19 XOR drop_bit 10 second"

text \<open>One iteration of the loop that fills \<open>#words\<close> from index 16 on.\<close>

definition extend_words :: "nat \<Rightarrow> u32 list \<Rightarrow> u32 list" where
  "extend_words index ws =
     ws @ [ws ! (index - 16) + sigma0 (ws ! (index - 15)) + ws ! (index - 7) + sigma1 (ws ! (index - 2))]"

definition schedule :: "bytes \<Rightarrow> nat \<Rightarrow> u32 list" where
  "schedule block offset = fold extend_words [16..<64] (map (block_word block offset) [0..<16])"

type_synonym working = "u32 \<times> u32 \<times> u32 \<times> u32 \<times> u32 \<times> u32 \<times> u32 \<times> u32"

fun sha_round :: "working \<Rightarrow> u32 \<times> u32 \<Rightarrow> working" where
  "sha_round (a, b, c, d, e, f, g, h) (k, w) =
     (let upper = rotateRight e 6 XOR rotateRight e 11 XOR rotateRight e 25;
          chosen = (e AND f) XOR (NOT e AND g);
          temporary1 = h + upper + chosen + k + w;
          lower = rotateRight a 2 XOR rotateRight a 13 XOR rotateRight a 22;
          majority = (a AND b) XOR (a AND c) XOR (b AND c);
          temporary2 = lower + majority
      in (temporary1 + temporary2, a, b, c, d + temporary1, e, f, g))"

definition compress :: "u32 list \<Rightarrow> bytes \<Rightarrow> nat \<Rightarrow> u32 list" where
  "compress st block offset =
     (let (a, b, c, d, e, f, g, h) =
        foldl sha_round (st ! 0, st ! 1, st ! 2, st ! 3, st ! 4, st ! 5, st ! 6, st ! 7)
          (zip roundConstants (schedule block offset))
      in [st ! 0 + a, st ! 1 + b, st ! 2 + c, st ! 3 + d, st ! 4 + e, st ! 5 + f, st ! 6 + g, st ! 7 + h])"

subsection \<open>The stream object\<close>

datatype sha_error =
    Invalid_sha_continuation  \<comment> \<open>Invalid SHA-256 continuation state.\<close>
  | Completed_sha_stream      \<comment> \<open>A completed SHA-256 stream cannot be resumed.\<close>
  | Sha_stream_complete       \<comment> \<open>SHA-256 stream is already complete.\<close>

record sha256 =
  state :: "u32 list"
  buffer :: bytes
  buffered :: nat
  byte_count :: nat
  finished :: bool

text \<open>
  \<open>StreamingSha256State\<close>, the serialized form. Words and pending bytes are JSON numbers there,
  hence integers that the constructor has to range-check; \<open>bytes\<close> is a decimal string, read
  back by \<open>BigInt\<close>.
\<close>

record sha256_checkpoint =
  cp_words :: "int list"
  cp_pending :: "int list"
  cp_bytes :: string

definition new_sha256 :: sha256 where
  "new_sha256 = \<lparr>state = initialState, buffer = replicate 64 0, buffered = 0, byte_count = 0, finished = False\<rparr>"

text \<open>\<open>String(n)\<close> for a \<open>BigInt\<close>, the test \<open>/^(0|[1-9][0-9]*)$/\<close>, and \<open>BigInt(text)\<close>.\<close>

definition digit_char :: "nat \<Rightarrow> char" where
  "digit_char d = char_of (48 + d)"

fun decimal :: "nat \<Rightarrow> string" where
  "decimal n = (if n < 10 then [digit_char n] else decimal (n div 10) @ [digit_char (n mod 10)])"

declare decimal.simps [simp del]

definition is_digit :: "char \<Rightarrow> bool" where
  "is_digit c \<longleftrightarrow> 48 \<le> (of_char c :: nat) \<and> (of_char c :: nat) \<le> 57"

definition canonical_decimal :: "string \<Rightarrow> bool" where
  "canonical_decimal s \<longleftrightarrow> s = ''0'' \<or> (s \<noteq> [] \<and> hd s \<noteq> CHR ''0'' \<and> list_all is_digit s)"

definition parse_decimal :: "string \<Rightarrow> nat" where
  "parse_decimal s = foldl (\<lambda>n c. 10 * n + (of_char c - 48)) 0 s"

definition resume_sha256 :: "sha256_checkpoint \<Rightarrow> sha_error + sha256" where
  "resume_sha256 cp =
     (if length (cp_words cp) \<noteq> 8 \<or>
         list_ex (\<lambda>w. w < 0 \<or> w > 0xffffffff) (cp_words cp) \<or>
         length (cp_pending cp) \<ge> 64 \<or>
         list_ex (\<lambda>b. b < 0 \<or> b > 255) (cp_pending cp) \<or>
         \<not> canonical_decimal (cp_bytes cp) \<or>
         parse_decimal (cp_bytes cp) mod 64 \<noteq> length (cp_pending cp)
      then Inl Invalid_sha_continuation
      else Inr (new_sha256\<lparr>
         state := map word_of_int (cp_words cp),
         buffer := buffer_set (replicate 64 0) (map word_of_int (cp_pending cp)) 0,
         buffered := length (cp_pending cp),
         byte_count := parse_decimal (cp_bytes cp)\<rparr>))"

definition checkpoint_sha256 :: "sha256 \<Rightarrow> sha_error + sha256_checkpoint" where
  "checkpoint_sha256 s =
     (if finished s then Inl Completed_sha_stream
      else Inr \<lparr>cp_words = map uint (state s),
                cp_pending = map uint (take (buffered s) (buffer s)),
                cp_bytes = decimal (byte_count s)\<rparr>)"

text \<open>The partial-block branch of the loop of \<open>update\<close>: copy, and compress a full buffer.\<close>

definition fill_buffer :: "sha256 \<Rightarrow> bytes \<Rightarrow> sha256" where
  "fill_buffer s chunk =
     (let s1 = s\<lparr>buffer := buffer_set (buffer s) chunk (buffered s), buffered := buffered s + length chunk\<rparr>
      in if buffered s1 = 64
         then s1\<lparr>state := compress (state s1) (buffer s1) 0, buffered := 0\<rparr>
         else s1)"

text \<open>
  The \<open>while\<close> loop of \<open>update\<close>. Between iterations the buffer is never full; the guard
  \<open>buffered s < 64\<close> records that class invariant (kept by every operation, see
  \<open>sha_inv\<close>), without which the loop would not advance.
\<close>

function update_loop :: "sha256 \<Rightarrow> bytes \<Rightarrow> nat \<Rightarrow> sha256" where
  "update_loop s xs offset =
     (if offset < length xs \<and> buffered s < 64 then
        (if buffered s = 0 \<and> 64 \<le> length xs - offset
         then update_loop (s\<lparr>state := compress (state s) xs offset\<rparr>) xs (offset + 64)
         else
           (let len = min (64 - buffered s) (length xs - offset)
            in update_loop (fill_buffer s (take len (drop offset xs))) xs (offset + len)))
      else s)"
  by pat_completeness auto
termination
  by (relation "measure (\<lambda>(s, xs, offset). length xs - offset)") auto

declare update_loop.simps [simp del]

definition update_sha256 :: "sha256 \<Rightarrow> bytes \<Rightarrow> sha_error + sha256" where
  "update_sha256 s xs =
     (if finished s then Inl Sha_stream_complete
      else Inr (update_loop (s\<lparr>byte_count := byte_count s + length xs\<rparr>) xs 0))"

text \<open>\<open>DataView.setUint32\<close>, big-endian.\<close>

definition uint32_bytes :: "u32 \<Rightarrow> bytes" where
  "uint32_bytes w = [ucast (drop_bit 24 w), ucast (drop_bit 16 w), ucast (drop_bit 8 w), ucast w]"

definition hex_digit :: "nat \<Rightarrow> char" where
  "hex_digit n = ''0123456789abcdef'' ! n"

definition hex_word :: "u32 \<Rightarrow> string" where
  "hex_word w = map (\<lambda>k. hex_digit (unat (drop_bit (4 * k) w AND 15))) [7, 6, 5, 4, 3, 2, 1, 0]"

text \<open>The completing branch of \<open>digestHex\<close>; \<open>Array.fill\<close> is \<open>buffer_set\<close> of zeros.\<close>

definition finish_sha256 :: "sha256 \<Rightarrow> sha256" where
  "finish_sha256 s =
     (let bitLength = int (byte_count s) * 8;
          b1 = (buffer s)[buffered s := 0x80];
          n1 = buffered s + 1;
          (st2, b2, n2) =
            (if n1 > 56
             then (let b = buffer_set b1 (replicate (64 - n1) 0) n1 in (compress (state s) b 0, b, 0))
             else (state s, b1, n1));
          b3 = buffer_set b2 (replicate (56 - n2) 0) n2;
          b4 = buffer_set b3 (uint32_bytes (word_of_int (bitLength div 2 ^ 32))) 56;
          b5 = buffer_set b4 (uint32_bytes (word_of_int bitLength)) 60
      in s\<lparr>state := compress st2 b5 0, buffer := b5, buffered := n2, finished := True\<rparr>)"

definition digestHex :: "sha256 \<Rightarrow> string \<times> sha256" where
  "digestHex s =
     (let s' = (if finished s then s else finish_sha256 s)
      in (concat (map hex_word (state s')), s'))"


subsection \<open>The standard's description\<close>

text \<open>
  FIPS 180-4, written independently of the class: message schedule and working variables as
  recurrences over the round number, rotations by \<^const>\<open>word_rotr\<close>, and a digest that pads
  the whole message before it is cut into blocks.
\<close>

definition std_word :: "bytes \<Rightarrow> nat \<Rightarrow> u32" where
  "std_word block t = word_rcat [block ! (4 * t), block ! (4 * t + 1), block ! (4 * t + 2), block ! (4 * t + 3)]"

definition std_sigma0 :: "u32 \<Rightarrow> u32" where
  "std_sigma0 x = word_rotr 7 x XOR word_rotr 18 x XOR drop_bit 3 x"

definition std_sigma1 :: "u32 \<Rightarrow> u32" where
  "std_sigma1 x = word_rotr 17 x XOR word_rotr 19 x XOR drop_bit 10 x"

fun std_schedule :: "bytes \<Rightarrow> nat \<Rightarrow> u32" where
  "std_schedule block t =
     (if t < 16 then std_word block t
      else std_sigma1 (std_schedule block (t - 2)) + std_schedule block (t - 7) +
           std_sigma0 (std_schedule block (t - 15)) + std_schedule block (t - 16))"

declare std_schedule.simps [simp del]

definition Ch :: "u32 \<Rightarrow> u32 \<Rightarrow> u32 \<Rightarrow> u32" where
  "Ch x y z = (x AND y) XOR (NOT x AND z)"

definition Maj :: "u32 \<Rightarrow> u32 \<Rightarrow> u32 \<Rightarrow> u32" where
  "Maj x y z = (x AND y) XOR (x AND z) XOR (y AND z)"

definition Sum0 :: "u32 \<Rightarrow> u32" where
  "Sum0 x = word_rotr 2 x XOR word_rotr 13 x XOR word_rotr 22 x"

definition Sum1 :: "u32 \<Rightarrow> u32" where
  "Sum1 x = word_rotr 6 x XOR word_rotr 11 x XOR word_rotr 25 x"

primrec std_rounds :: "u32 list \<Rightarrow> bytes \<Rightarrow> nat \<Rightarrow> working" where
  "std_rounds H block 0 = (H ! 0, H ! 1, H ! 2, H ! 3, H ! 4, H ! 5, H ! 6, H ! 7)"
| "std_rounds H block (Suc t) =
     (case std_rounds H block t of (a, b, c, d, e, f, g, h) \<Rightarrow>
        let T1 = h + Sum1 e + Ch e f g + roundConstants ! t + std_schedule block t;
            T2 = Sum0 a + Maj a b c
        in (T1 + T2, a, b, c, d + T1, e, f, g))"

definition std_block :: "u32 list \<Rightarrow> bytes \<Rightarrow> u32 list" where
  "std_block H block =
     (case std_rounds H block 64 of (a, b, c, d, e, f, g, h) \<Rightarrow>
        map2 (+) H [a, b, c, d, e, f, g, h])"

definition std_length :: "nat \<Rightarrow> bytes" where
  "std_length n = map (\<lambda>k. of_nat (8 * n div 256 ^ k)) [7, 6, 5, 4, 3, 2, 1, 0]"

definition std_padding :: "nat \<Rightarrow> bytes" where
  "std_padding n = [0x80] @ replicate ((119 - n mod 64) mod 64) 0 @ std_length n"

function std_blocks :: "u32 list \<Rightarrow> bytes \<Rightarrow> u32 list" where
  "std_blocks H data = (if length data < 64 then H else std_blocks (std_block H (take 64 data)) (drop 64 data))"
  by pat_completeness auto
termination
  by (relation "measure (\<lambda>(H, data). length data)") auto

declare std_blocks.simps [simp del]

definition sha256_standard :: "bytes \<Rightarrow> string" where
  "sha256_standard m = concat (map hex_word (std_blocks initialState (m @ std_padding (length m))))"

subsection \<open>The compression function is the standard's\<close>

lemma length_roundConstants [simp]: "length roundConstants = 64"
  by (simp add: roundConstants_def)

lemma length_initialState [simp]: "length initialState = 8"
  by (simp add: initialState_def)

lemma rotateRight_rotr: "0 < n \<Longrightarrow> n < 32 \<Longrightarrow> rotateRight v n = word_rotr n v"
proof (rule bit_word_eqI)
  fix i assume n: "0 < n" "n < 32" and "i < LENGTH(32)"
  then have i: "i < 32" by simp
  show "bit (rotateRight v n) i = bit (word_rotr n v) i"
  proof (cases "i + n < 32")
    case True
    then show ?thesis using n i
      by (auto simp: rotateRight_def bit_word_rotr_iff bit_simps add.commute)
  next
    case False
    then have "(i + n) mod 32 = i + n - 32" using n i by (simp add: mod_if)
    then show ?thesis using n i False
      by (auto simp: rotateRight_def bit_word_rotr_iff bit_simps add.commute dest: bit_imp_le_length)
  qed
qed

lemma sigma0_std: "sigma0 = std_sigma0"
  by (rule ext) (simp add: sigma0_def std_sigma0_def rotateRight_rotr)

lemma sigma1_std: "sigma1 = std_sigma1"
  by (rule ext) (simp add: sigma1_def std_sigma1_def rotateRight_rotr)

lemma length_fold_extend: "length (fold extend_words ns ws) = length ws + length ns"
  by (induction ns arbitrary: ws) (auto simp: extend_words_def)

lemma length_schedule [simp]: "length (schedule block offset) = 64"
  unfolding schedule_def length_fold_extend by simp


lemma nth_fold_extend_old:
  "i < length ws \<Longrightarrow> fold extend_words ns ws ! i = ws ! i"
  by (induction ns arbitrary: ws) (auto simp: extend_words_def nth_append)

lemma block_word_std:
  assumes "64 \<le> length block" and "t < 16"
  shows "block_word block 0 t = std_word block t"
proof -
  have "4 * t + 3 < length block" using assms by simp
  then have "nth_default 0 block (0 + t * 4 + k) = block ! (4 * t + k)" if "k \<le> 3" for k
    using that by (simp add: nth_default_def mult.commute)
  from this [of 0] this [of 1] this [of 2] this [of 3] show ?thesis
    by (simp add: block_word_def std_word_def or_bytes_word_rcat)
qed

lemma fold_extend_std:
  assumes "64 \<le> length block" and "n \<le> 48"
  shows "fold extend_words [16..<16 + n] (map (block_word block 0) [0..<16]) = map (std_schedule block) [0..<16 + n]"
  using assms(2)
proof (induction n)
  case 0
  show ?case
    using assms(1) by (simp add: block_word_std std_schedule.simps)
next
  case (Suc n)
  let ?ws = "map (std_schedule block) [0..<16 + n]"
  have "[16..<16 + Suc n] = [16..<16 + n] @ [16 + n]"
    by (simp only: add_Suc_right upt_Suc_append [OF le_add1])
  then have "fold extend_words [16..<16 + Suc n] (map (block_word block 0) [0..<16]) = extend_words (16 + n) ?ws"
    using Suc by simp
  also have "\<dots> = ?ws @ [std_schedule block (16 + n)]"
    using std_schedule.simps [of block "16 + n"]
    by (simp add: extend_words_def sigma0_std sigma1_std ac_simps)
  also have "\<dots> = map (std_schedule block) [0..<16 + Suc n]"
    by (simp only: add_Suc_right upt_Suc_append [OF le0] map_append list.map)
  finally show ?case .
qed

lemma schedule_std: "64 \<le> length block \<Longrightarrow> schedule block 0 = map (std_schedule block) [0..<64]"
  using fold_extend_std [of block 48] unfolding schedule_def by (simp only: numeral_plus_numeral semiring_norm order.refl)

lemma sha_round_std:
  "sha_round (a, b, c, d, e, f, g, h) (k, w) =
     (h + Sum1 e + Ch e f g + k + w + (Sum0 a + Maj a b c), a, b, c,
      d + (h + Sum1 e + Ch e f g + k + w), e, f, g)"
  by (simp add: Let_def Sum0_def Sum1_def Ch_def Maj_def rotateRight_rotr)

declare sha_round.simps [simp del]

lemma foldl_rounds_std:
  assumes "64 \<le> length block" and "n \<le> 64"
  shows "foldl sha_round (std_rounds H block 0) (zip (take n roundConstants) (take n (schedule block 0))) =
    std_rounds H block n"
  using assms(2)
proof (induction n)
  case 0
  show ?case by simp
next
  case (Suc n)
  have "zip (take (Suc n) roundConstants) (take (Suc n) (schedule block 0)) =
     zip (take n roundConstants) (take n (schedule block 0)) @ [(roundConstants ! n, std_schedule block n)]"
    using Suc.prems assms(1) by (simp add: take_Suc_conv_app_nth schedule_std)
  with Suc show ?case
    by (simp add: sha_round_std Let_def split: prod.split)
qed

lemma compress_std:
  assumes "length H = 8" and "64 \<le> length block"
  shows "compress H block 0 = std_block H block"
proof -
  obtain h0 h1 h2 h3 h4 h5 h6 h7 where H: "H = [h0, h1, h2, h3, h4, h5, h6, h7]"
    using assms(1) by (auto simp: numeral_eq_Suc length_Suc_conv)
  show ?thesis
    using foldl_rounds_std [OF assms(2), of 64 H]
    by (simp add: compress_def std_block_def H split: prod.split)
qed


text \<open>Only the 64 bytes at the given offset matter.\<close>

lemma block_word_window:
  "t < 16 \<Longrightarrow> block_word block offset t = block_word (take 64 (drop offset block)) 0 t"
  by (simp add: block_word_def Let_def nth_default_take nth_default_drop add.assoc)

lemma compress_window:
  "compress st block offset = compress st (take 64 (drop offset block)) 0"
proof -
  have "map (block_word block offset) [0..<16] = map (block_word (take 64 (drop offset block)) 0) [0..<16]"
    by (intro map_cong refl block_word_window) (simp only: set_upt atLeastLessThan_iff)
  then have "schedule block offset = schedule (take 64 (drop offset block)) 0"
    unfolding schedule_def by (simp only:)
  then show ?thesis by (simp only: compress_def)
qed

lemma compress_prefix: "length z = 64 \<Longrightarrow> compress st (z @ rest) 0 = compress st z 0"
  by (subst (1 2) compress_window) simp

lemma length_compress [simp]: "length (compress st block offset) = 8"
  by (simp only: compress_def Let_def case_prod_unfold list.size)


subsection \<open>The class invariant and its abstract view\<close>

definition sha_inv :: "sha256 \<Rightarrow> bool" where
  "sha_inv s \<longleftrightarrow> length (state s) = 8 \<and> length (buffer s) = 64 \<and> buffered s < 64 \<and>
     byte_count s mod 64 = buffered s \<and> \<not> finished s"

definition pending :: "sha256 \<Rightarrow> bytes" where
  "pending s = take (buffered s) (buffer s)"

text \<open>What a client can observe: everything but the stale part of the buffer.\<close>

definition sha_view :: "sha256 \<Rightarrow> u32 list \<times> bytes \<times> nat \<times> bool" where
  "sha_view s = (state s, pending s, byte_count s, finished s)"

text \<open>Absorbing data into a chaining value, one whole block at a time.\<close>

function absorb :: "u32 list \<Rightarrow> bytes \<Rightarrow> u32 list \<times> bytes" where
  "absorb st xs = (if length xs < 64 then (st, xs) else absorb (compress st xs 0) (drop 64 xs))"
  by pat_completeness auto
termination
  by (relation "measure (\<lambda>(st, xs). length xs)") auto

declare absorb.simps [simp del]

lemma absorb_short: "length xs < 64 \<Longrightarrow> absorb st xs = (st, xs)"
  by (simp add: absorb.simps)

lemma absorb_block:
  "64 \<le> length xs \<Longrightarrow> absorb st xs = absorb (compress st xs 0) (drop 64 xs)"
  by (subst absorb.simps) simp

lemma absorb_one_block: "length z = 64 \<Longrightarrow> absorb st z = (compress st z 0, [])"
  by (simp add: absorb_block absorb_short)

lemma absorb_two_blocks:
  "length z = 64 \<Longrightarrow> length q = 64 \<Longrightarrow> absorb st (z @ q) = (compress (compress st z 0) q 0, [])"
  by (simp add: absorb_block absorb_short compress_prefix)

lemma absorb_append:
  "absorb st (xs @ ys) = (case absorb st xs of (st', rest) \<Rightarrow> absorb st' (rest @ ys))"
proof (induction st xs rule: absorb.induct)
  case (1 st xs)
  show ?case
  proof (cases "length xs < 64")
    case True
    then show ?thesis by (simp add: absorb_short)
  next
    case False
    have "compress st (xs @ ys) 0 = compress st xs 0"
      using False compress_window [of st "xs @ ys" 0] compress_window [of st xs 0] by simp
    then show ?thesis
      using 1 [OF False] False by (simp add: absorb_block)
  qed
qed

lemma length_absorb:
  "length (snd (absorb st xs)) = length xs mod 64 \<and> (length st = 8 \<longrightarrow> length (fst (absorb st xs)) = 8)"
proof (induction st xs rule: absorb.induct)
  case (1 st xs)
  then show ?case
    by (cases "length xs < 64") (auto simp: absorb_short absorb_block le_mod_geq)
qed

lemmas length_absorb_rest [bounds] = length_absorb [THEN conjunct1]

lemma length_absorb_state [bounds]: "length st = 8 \<Longrightarrow> length (fst (absorb st xs)) = 8"
  using length_absorb by blast


lemma sha_inv_new [simp]: "sha_inv new_sha256"
  by (simp add: sha_inv_def new_sha256_def)

text \<open>The shape shared by the branches of the loop: the fill mark is below 64.\<close>

definition loop_ok :: "sha256 \<Rightarrow> bool" where
  "loop_ok s \<longleftrightarrow> length (state s) = 8 \<and> length (buffer s) = 64 \<and> buffered s < 64"

lemma sha_inv_loop_ok: "sha_inv s \<longleftrightarrow> loop_ok s \<and> byte_count s mod 64 = buffered s \<and> \<not> finished s"
  by (auto simp: sha_inv_def loop_ok_def)

lemma fill_buffer_absorb:
  assumes "loop_ok s" and "buffered s + length chunk \<le> 64"
  shows "(state (fill_buffer s chunk), pending (fill_buffer s chunk)) = absorb (state s) (pending s @ chunk)"
    and "loop_ok (fill_buffer s chunk)"
    and "byte_count (fill_buffer s chunk) = byte_count s"
    and "finished (fill_buffer s chunk) = finished s"
proof -
  let ?b = "buffer_set (buffer s) chunk (buffered s)"
  have len: "length ?b = 64" and tk: "take (buffered s + length chunk) ?b = pending s @ chunk"
    using assms by (simp_all add: loop_ok_def length_buffer_set take_buffer_set pending_def)
  have lp: "length (pending s) = buffered s"
    using assms by (simp add: pending_def loop_ok_def)
  show "(state (fill_buffer s chunk), pending (fill_buffer s chunk)) = absorb (state s) (pending s @ chunk)"
  proof (cases "buffered s + length chunk = 64")
    case True
    then have "?b = pending s @ chunk" using len tk by simp
    then show ?thesis using True lp
      by (simp add: fill_buffer_def Let_def pending_def [of "s\<lparr>buffer := _, buffered := _, state := _\<rparr>"]
          absorb_block absorb_short) (simp add: pending_def)
  next
    case False
    then show ?thesis using assms lp tk
      by (simp add: fill_buffer_def Let_def absorb_short) (simp add: pending_def)
  qed
  show "loop_ok (fill_buffer s chunk)" "byte_count (fill_buffer s chunk) = byte_count s"
    "finished (fill_buffer s chunk) = finished s"
    using assms len by (simp_all add: fill_buffer_def Let_def loop_ok_def)
qed

lemma update_loop_absorb:
  assumes "loop_ok s"
  shows "(state (update_loop s xs offset), pending (update_loop s xs offset)) =
      absorb (state s) (pending s @ drop offset xs) \<and>
    loop_ok (update_loop s xs offset) \<and>
    byte_count (update_loop s xs offset) = byte_count s \<and>
    finished (update_loop s xs offset) = finished s"
  using assms
proof (induction s xs offset rule: update_loop.induct)
  case (1 s xs offset)
  have lt: "buffered s < 64" using 1(3) by (simp add: loop_ok_def)
  consider (stop) "length xs \<le> offset"
    | (whole) "offset < length xs" "buffered s = 0" "64 \<le> length xs - offset"
    | (part) "offset < length xs" "\<not> (buffered s = 0 \<and> 64 \<le> length xs - offset)"
    by linarith
  then show ?case
  proof cases
    case stop
    then show ?thesis using 1(3)
      by (simp add: update_loop.simps absorb_short pending_def loop_ok_def)
  next
    case whole
    let ?s = "s\<lparr>state := compress (state s) xs offset\<rparr>"
    have ok: "loop_ok ?s" using 1(3) by (simp add: loop_ok_def)
    have eq: "update_loop s xs offset = update_loop ?s xs (offset + 64)"
      using whole lt by (subst update_loop.simps) simp
    have "absorb (state s) (pending s @ drop offset xs) =
        absorb (compress (state s) xs offset) (pending ?s @ drop (offset + 64) xs)"
      using whole compress_window [of "state s" xs offset] compress_window [of "state s" "drop offset xs" 0]
      by (simp add: pending_def absorb_block add.commute)
    then show ?thesis
      using 1(1) [OF _ _ ok] whole lt by (simp add: eq)
  next
    case part
    let ?len = "min (64 - buffered s) (length xs - offset)"
    let ?chunk = "take ?len (drop offset xs)"
    let ?s = "fill_buffer s ?chunk"
    have fit: "buffered s + length ?chunk \<le> 64" using lt by simp
    have eq: "update_loop s xs offset = update_loop ?s xs (offset + ?len)"
      unfolding update_loop.simps [of s xs offset] Let_def if_not_P [OF part(2)]
      by (simp only: part(1) lt simp_thms if_True)
    note fb = fill_buffer_absorb [OF 1(3) fit]
    have IH: "(state (update_loop ?s xs (offset + ?len)), pending (update_loop ?s xs (offset + ?len))) =
        absorb (state ?s) (pending ?s @ drop (offset + ?len) xs) \<and>
      loop_ok (update_loop ?s xs (offset + ?len)) \<and>
      byte_count (update_loop ?s xs (offset + ?len)) = byte_count ?s \<and>
      finished (update_loop ?s xs (offset + ?len)) = finished ?s"
      using 1(2) [OF _ part(2) refl fb(2)] part(1) lt by simp
    have d: "drop offset xs = ?chunk @ drop (offset + ?len) xs"
      using append_take_drop_id [of ?len "drop offset xs"]
      by (simp add: add.commute del: append_take_drop_id)
    have "absorb (state s) (pending s @ drop offset xs) =
        absorb (state s) ((pending s @ ?chunk) @ drop (offset + ?len) xs)"
      by (subst d) simp
    also have "\<dots> = absorb (state ?s) (pending ?s @ drop (offset + ?len) xs)"
      by (subst absorb_append) (simp flip: fb(1))
    finally show ?thesis using IH fb(3,4) by (simp add: eq)
  qed
qed


text \<open>Updating, on states that satisfy the invariant, as a total function.\<close>

definition sha_feed :: "sha256 \<Rightarrow> bytes \<Rightarrow> sha256" where
  "sha_feed s xs = update_loop (s\<lparr>byte_count := byte_count s + length xs\<rparr>) xs 0"

lemma update_sha256_feed: "\<not> finished s \<Longrightarrow> update_sha256 s xs = Inr (sha_feed s xs)"
  by (simp add: update_sha256_def sha_feed_def)

lemma sha_feed_absorb:
  assumes "sha_inv s"
  shows "(state (sha_feed s xs), pending (sha_feed s xs)) = absorb (state s) (pending s @ xs)"
    and "byte_count (sha_feed s xs) = byte_count s + length xs"
    and "\<not> finished (sha_feed s xs)"
    and "loop_ok (sha_feed s xs)"
proof -
  let ?s = "s\<lparr>byte_count := byte_count s + length xs\<rparr>"
  have "loop_ok ?s" "pending ?s = pending s" using assms by (simp_all add: sha_inv_def loop_ok_def pending_def)
  with update_loop_absorb [of ?s xs 0] assms
  show "(state (sha_feed s xs), pending (sha_feed s xs)) = absorb (state s) (pending s @ xs)"
    "byte_count (sha_feed s xs) = byte_count s + length xs"
    "\<not> finished (sha_feed s xs)" "loop_ok (sha_feed s xs)"
    by (simp_all add: sha_feed_def sha_inv_def)
qed

lemma length_pending: "loop_ok s \<Longrightarrow> length (pending s) = buffered s"
  by (simp add: pending_def loop_ok_def)

lemma sha_inv_feed: assumes "sha_inv s" shows "sha_inv (sha_feed s xs)"
proof -
  note fa = sha_feed_absorb [OF assms, of xs]
  have "length (pending (sha_feed s xs)) = length (pending s @ xs) mod 64"
    using fa(1) length_absorb_rest [of "state s" "pending s @ xs"] by (metis snd_conv)
  then have "buffered (sha_feed s xs) = (buffered s + length xs) mod 64"
    using fa(4) assms by (simp add: length_pending sha_inv_loop_ok)
  moreover have "buffered s = byte_count s mod 64"
    using assms by (simp add: sha_inv_def)
  ultimately have "buffered (sha_feed s xs) = (byte_count s + length xs) mod 64"
    by (simp only: mod_add_left_eq)
  then show ?thesis using fa by (simp add: sha_inv_loop_ok)
qed

lemma sha_view_feed:
  assumes "sha_inv s"
  shows "sha_view (sha_feed s xs) =
    (fst (absorb (state s) (pending s @ xs)), snd (absorb (state s) (pending s @ xs)), byte_count s + length xs, False)"
  using sha_feed_absorb [OF assms, of xs] by (simp add: sha_view_def prod_eq_iff)

interpretation sha: incremental sha_feed sha_inv sha_view
proof
  fix s t :: sha256 and xs ys :: bytes
  assume s: "sha_inv s"
  show "sha_inv (sha_feed s xs)" using s by (rule sha_inv_feed)
  show "sha_view (sha_feed s []) = sha_view s"
    using s by (simp add: sha_view_feed absorb_short length_pending sha_inv_loop_ok loop_ok_def)
      (simp add: sha_view_def)
  show "sha_view (sha_feed (sha_feed s xs) ys) = sha_view (sha_feed s (xs @ ys))"
    using sha_feed_absorb [OF s, of xs]
    by (simp add: sha_view_feed [OF sha_inv_feed [OF s]] sha_view_feed [OF s] absorb_append [of "state s" "pending s @ xs" ys, simplified]
        prod_eq_iff split: prod.split)
  assume "sha_inv t" "sha_view s = sha_view t"
  then show "sha_view (sha_feed s xs) = sha_view (sha_feed t xs)"
    using s by (simp add: sha_view_feed) (simp add: sha_view_def)
qed


subsection \<open>Completion: padding and the digest\<close>

lemma ucast_drop_word_of_int:
  "k + 8 \<le> 32 \<Longrightarrow> ucast (drop_bit k (word_of_int x :: u32)) = (word_of_int (drop_bit k x) :: u8)"
  by (rule bit_word_eqI) (simp add: bit_simps)

lemma of_nat_div_256: "(of_nat (n div 256 ^ k) :: u8) = word_of_int (drop_bit (8 * k) (int n))"
proof -
  have "drop_bit (8 * k) (int n) = int (n div 256 ^ k)"
    by (simp add: drop_bit_eq_div power_mult zdiv_int)
  then show ?thesis by (metis of_int_of_nat_eq)
qed

lemma uint32_bytes_pair:
  "uint32_bytes (word_of_int (drop_bit 32 x)) @ uint32_bytes (word_of_int x) =
    map (\<lambda>k. word_of_int (drop_bit (8 * k) x)) [7, 6, 5, 4, 3, 2, 1, 0]"
proof -
  have z: "ucast (word_of_int y :: u32) = (word_of_int y :: u8)" for y
    using ucast_drop_word_of_int [of 0 y] by simp
  show ?thesis
    by (simp add: uint32_bytes_def z ucast_drop_word_of_int)
qed

lemma length_field:
  "uint32_bytes (word_of_int (int n * 8 div 2 ^ 32)) @ uint32_bytes (word_of_int (int n * 8)) =
    std_length n"
proof -
  have hi: "int (8 * n) div 2 ^ 32 = drop_bit 32 (int (8 * n))"
    by (simp only: drop_bit_eq_div)
  have lo: "int n * 8 = int (8 * n)" by simp
  show ?thesis
    unfolding lo hi std_length_def of_nat_div_256 by (rule uint32_bytes_pair)
qed

lemma length_std_length [simp]: "length (std_length n) = 8"
  by (simp add: std_length_def)

lemma length_uint32_bytes [simp]: "length (uint32_bytes w) = 4"
  by (simp add: uint32_bytes_def)

text \<open>The last block: 56 bytes of data, then the bit length.\<close>

lemma last_block:
  assumes "length q = 56" and "length rest = 8"
  shows "buffer_set (buffer_set (q @ rest) (uint32_bytes (word_of_int (int n * 8 div 2 ^ 32))) 56)
      (uint32_bytes (word_of_int (int n * 8))) 60 =
    q @ std_length n"
proof -
  let ?hi = "uint32_bytes (word_of_int (int n * 8 div 2 ^ 32))"
  let ?lo = "uint32_bytes (word_of_int (int n * 8))"
  have "buffer_set (buffer_set (q @ rest) ?hi 56) ?lo 60 = ((q @ ?hi) @ ?lo) @ drop 4 (drop 4 rest)"
    using assms by (simp only: buffer_set_append length_uint32_bytes length_append)
  moreover have "drop 4 (drop 4 rest) = []" using assms by simp
  ultimately show ?thesis by (simp only: append_assoc append_Nil2 length_field)
qed

lemma padding_zeros:
  "n \<le> 55 \<Longrightarrow> (119 - n) mod 64 = 55 - n"
  "55 < n \<Longrightarrow> n < 64 \<Longrightarrow> (119 - n) mod 64 = (63 - n) + 56"
  for n :: nat
  by (simp_all add: le_mod_geq)

lemma finish_sha256_state:
  assumes "sha_inv s"
  shows "absorb (state s) (pending s @ std_padding (byte_count s)) = (state (finish_sha256 s), [])"
proof -
  let ?n = "buffered s" and ?b1 = "(buffer s)[buffered s := 0x80]"
  let ?L = "std_length (byte_count s)"
  let ?p = "pending s @ [0x80]" and ?r = "drop (?n + 1) (buffer s)"
  have n: "?n < 64" "length (buffer s) = 64" and bc: "byte_count s mod 64 = ?n" and lp: "length (pending s) = ?n"
    using assms by (simp_all add: sha_inv_def pending_def)
  have b1: "?b1 = ?p @ ?r"
    using n by (simp add: upd_conv_take_nth_drop pending_def)
  show ?thesis
  proof (cases "?n + 1 > 56")
    case False
    let ?q = "?p @ replicate (55 - ?n) 0"
    have pad: "std_padding (byte_count s) = [0x80] @ replicate (55 - ?n) 0 @ ?L"
      using False padding_zeros(1) [of ?n] by (simp add: std_padding_def bc)
    have b3: "buffer_set ?b1 (replicate (56 - (?n + 1)) 0) (?n + 1) = ?q @ drop (55 - ?n) ?r"
      unfolding b1 using lp by (subst buffer_set_append) simp_all
    have "state (finish_sha256 s) = compress (state s) (?q @ ?L) 0"
      using False n lp last_block [of ?q "drop (55 - ?n) ?r" "byte_count s"]
      by (simp only: finish_sha256_def Let_def prod.case if_False b3) simp
    then show ?thesis
      using False lp by (simp add: pad absorb_block absorb_short)
  next
    case True
    let ?z = "?p @ replicate (63 - ?n) 0"
    have pad: "std_padding (byte_count s) = [0x80] @ replicate (63 - ?n) 0 @ replicate 56 0 @ ?L"
      using True n padding_zeros(2) [of ?n] by (simp only: std_padding_def bc replicate_add append_assoc)
    have b2: "buffer_set ?b1 (replicate (64 - (?n + 1)) 0) (?n + 1) = ?z"
      unfolding b1 using lp n by (subst buffer_set_append) simp_all
    have b3: "buffer_set ?z (replicate (56 - 0) 0) 0 = replicate 56 0 @ drop 56 ?z"
      using buffer_set_append [of "[]" 0 ?z "replicate 56 0"] by simp
    have "state (finish_sha256 s) = compress (compress (state s) ?z 0) (replicate 56 0 @ ?L) 0"
      using True n lp last_block [of "replicate 56 0" "drop 56 ?z" "byte_count s"]
      by (simp only: finish_sha256_def Let_def prod.case if_True b2 b3) simp
    moreover have "absorb (state s) (?z @ (replicate 56 0 @ ?L)) =
        (compress (compress (state s) ?z 0) (replicate 56 0 @ ?L) 0, [])"
      using n lp by (intro absorb_two_blocks) simp_all
    ultimately show ?thesis
      by (simp only: pad append_assoc)
  qed
qed


lemma absorb_blocks_std:
  assumes "length st = 8"
  shows "fst (absorb st xs) = std_blocks st xs"
  using assms
proof (induction st xs rule: absorb.induct)
  case (1 st xs)
  show ?case
  proof (cases "length xs < 64")
    case True
    then show ?thesis by (simp add: absorb_short std_blocks.simps)
  next
    case False
    have "std_block st (take 64 xs) = compress st xs 0"
      using False 1(2) compress_window [of st xs 0] by (simp add: compress_std)
    then show ?thesis
      using 1(1) [OF False] False by (simp add: absorb_block std_blocks.simps [of st xs])
  qed
qed

lemma digest_of_view:
  assumes "sha_inv s" and "sha_view s = sha_view (sha_feed new_sha256 m)"
  shows "fst (digestHex s) = sha256_standard m"
proof -
  have nv: "state new_sha256 = initialState" "pending new_sha256 = []" "byte_count new_sha256 = 0"
    by (simp_all add: new_sha256_def pending_def)
  have st: "(state s, pending s) = absorb initialState m" and bc: "byte_count s = length m"
    using assms(2) sha_view_feed [OF sha_inv_new, of m] by (simp_all add: sha_view_def nv prod_eq_iff)
  have "std_blocks initialState (m @ std_padding (length m)) =
      fst (case absorb initialState m of (st', rest) \<Rightarrow> absorb st' (rest @ std_padding (length m)))"
    by (simp only: absorb_blocks_std [OF length_initialState, symmetric]
        absorb_append [of initialState m])
  also have "\<dots> = fst (absorb (state s) (pending s @ std_padding (byte_count s)))"
    unfolding st [symmetric] by (simp add: bc)
  also have "\<dots> = state (finish_sha256 s)"
    by (simp add: finish_sha256_state [OF assms(1)])
  finally show ?thesis
    using assms(1) by (simp add: digestHex_def sha256_standard_def sha_inv_def Let_def)
qed

text \<open>Feeding chunks one after another, as the callers of \<open>update\<close> do.\<close>

abbreviation sha_run :: "bytes list \<Rightarrow> sha256 \<Rightarrow> sha_error + sha256" where
  "sha_run chunks s \<equiv> rfold (\<lambda>chunk s. update_sha256 s chunk) chunks s"

lemma sha_run_foldl: "sha_inv s \<Longrightarrow> sha_run chunks s = Inr (foldl sha_feed s chunks)"
proof (induction chunks arbitrary: s)
  case (Cons c cs)
  then have "\<not> finished s" by (simp add: sha_inv_def)
  with Cons show ?case by (simp add: update_sha256_feed sha_inv_feed)
qed simp

subsection \<open>Checkpoints\<close>

lemma of_char_digit: "d < 10 \<Longrightarrow> (of_char (digit_char d) :: nat) = 48 + d"
  by (simp add: digit_char_def)

lemma parse_decimal_snoc: "parse_decimal (s @ [c]) = 10 * parse_decimal s + (of_char c - 48)"
  by (simp add: parse_decimal_def)

lemma parse_decimal_decimal: "parse_decimal (decimal n) = n"
proof (induction n rule: decimal.induct)
  case (1 n)
  show ?case
  proof (cases "n < 10")
    case True
    then show ?thesis by (subst decimal.simps) (simp add: parse_decimal_def of_char_digit)
  next
    case False
    then show ?thesis using 1 by (subst decimal.simps) (simp add: parse_decimal_snoc of_char_digit)
  qed
qed

lemma is_digit_digit_char: "d < 10 \<Longrightarrow> is_digit (digit_char d)"
  by (simp add: is_digit_def of_char_digit)

lemma decimal_digits: "decimal n \<noteq> [] \<and> list_all is_digit (decimal n) \<and> (0 < n \<longrightarrow> hd (decimal n) \<noteq> CHR ''0'')"
proof (induction n rule: decimal.induct)
  case (1 n)
  show ?case
  proof (cases "n < 10")
    case True
    have "digit_char n \<noteq> CHR ''0''" if "0 < n"
    proof
      assume "digit_char n = CHR ''0''"
      then have "(of_char (digit_char n) :: nat) = of_char (CHR ''0'')" by simp
      with True that show False by (simp add: of_char_digit)
    qed
    with True show ?thesis by (subst (1 2 3) decimal.simps) (simp add: is_digit_digit_char)
  next
    case False
    with 1 [OF False] show ?thesis
      by (subst (1 2 3) decimal.simps) (simp add: is_digit_digit_char)
  qed
qed

lemma canonical_decimal_decimal: "canonical_decimal (decimal n)"
proof (cases "n = 0")
  case True
  have "digit_char 0 = CHR ''0''" by code_simp
  with True show ?thesis by (simp add: canonical_decimal_def decimal.simps)
next
  case False
  then show ?thesis using decimal_digits [of n] by (simp add: canonical_decimal_def)
qed

lemma map_uint_range:
  fixes ws :: "'a::len word list"
  assumes "m = 2 ^ LENGTH('a) - 1"
  shows "\<not> list_ex (\<lambda>w. w < 0 \<or> w > m) (map uint ws)"
  using assms by (auto simp: list_ex_iff) (smt (verit) uint_lt2p)

lemma pending_fields:
  "pending \<lparr>state = st, buffer = b, buffered = n, byte_count = c, finished = f\<rparr> = take n b"
  by (simp add: pending_def)

lemma checkpoint_resume:
  assumes "sha_inv s"
  shows "\<exists>cp s'. checkpoint_sha256 s = Inr cp \<and> resume_sha256 cp = Inr s' \<and> sha_inv s' \<and> sha_view s' = sha_view s"
proof -
  let ?cp = "\<lparr>cp_words = map uint (state s), cp_pending = map uint (pending s), cp_bytes = decimal (byte_count s)\<rparr>"
  let ?s = "new_sha256\<lparr>state := state s, buffer := buffer_set (replicate 64 0) (pending s) 0,
    buffered := length (pending s), byte_count := byte_count s\<rparr>"
  have lp: "length (pending s) = buffered s" "buffered s < 64"
    using assms by (simp_all add: pending_def sha_inv_def)
  have w: "\<not> list_ex (\<lambda>w. w < 0 \<or> w > 0xffffffff) (map uint (state s))"
    by (rule map_uint_range) simp
  have b: "\<not> list_ex (\<lambda>b. b < 0 \<or> b > 255) (map uint (pending s))"
    by (rule map_uint_range) simp
  have "checkpoint_sha256 s = Inr ?cp"
    using assms by (simp add: checkpoint_sha256_def sha_inv_def pending_def)
  moreover have "resume_sha256 ?cp = Inr ?s"
    using assms w b lp
    by (simp add: resume_sha256_def sha_inv_def canonical_decimal_decimal parse_decimal_decimal comp_def)
  moreover have "pending ?s = pending s" "sha_inv ?s"
    using assms lp by (simp_all add: pending_fields sha_inv_def new_sha256_def buffer_set_def)
  moreover from this have "sha_view ?s = sha_view s"
    using assms by (simp add: sha_view_def new_sha256_def sha_inv_def)
  ultimately show ?thesis by blast
qed


text \<open>The observable part of a state, with the fact that it is well-formed.\<close>

definition ok_view :: "sha256 \<Rightarrow> bool \<times> u32 list \<times> bytes \<times> nat \<times> bool" where
  "ok_view s = (sha_inv s, sha_view s)"

interpretation sha_stop: resumable "\<lambda>chunk s. update_sha256 s chunk" checkpoint_sha256 resume_sha256 sha_inv ok_view
proof
  fix s t :: sha256 and chunk :: bytes
  assume s: "sha_inv s"
  then have up: "update_sha256 s chunk = Inr (sha_feed s chunk)"
    by (simp add: update_sha256_feed sha_inv_def)
  show "sha_inv t" if "update_sha256 s chunk = Inr t"
    using that up sha_inv_feed [OF s, of chunk] by simp
  show "\<exists>c t. checkpoint_sha256 s = Inr c \<and> resume_sha256 c = Inr t \<and> sha_inv t \<and> ok_view t = ok_view s"
    using checkpoint_resume [OF s] s by (auto simp: ok_view_def)
  assume t: "sha_inv t" and "ok_view s = ok_view t"
  then have "sha_view (sha_feed s chunk) = sha_view (sha_feed t chunk)"
    using s by (intro sha.feed_cong) (simp_all add: ok_view_def)
  moreover have "update_sha256 t chunk = Inr (sha_feed t chunk)"
    using t by (simp add: update_sha256_feed sha_inv_def)
  ultimately show "map_sum id ok_view (update_sha256 s chunk) = map_sum id ok_view (update_sha256 t chunk)"
    using up s t by (simp add: ok_view_def sha_inv_feed)
qed

subsection \<open>Properties\<close>

text \<open>
  C5. However a message is cut into chunks, feeding them to a fresh stream succeeds and
  \<open>digestHex\<close> returns the SHA-256 digest of the whole message, as the standard defines it.
\<close>

theorem streaming_digest_is_sha256:
  "\<exists>s. sha_run chunks new_sha256 = Inr s \<and> fst (digestHex s) = sha256_standard (concat chunks)"
  using digest_of_view [OF sha.ok_foldl [OF sha_inv_new]] sha.view_foldl [OF sha_inv_new]
  by (simp add: sha_run_foldl)

text \<open>
  C23. Interruptions are invisible: a stream may be checkpointed and rebuilt by the constructor after
  any of its updates; every checkpoint is accepted, no update fails, and the final digest is that of
  the whole message.
\<close>

theorem streaming_checkpoint_transparent:
  "\<exists>t. interrupted (\<lambda>chunk s. update_sha256 s chunk) checkpoint_sha256 resume_sha256 steps new_sha256 = Inr t \<and>
     fst (digestHex t) = sha256_standard (concat (map fst steps))"
proof -
  let ?t = "foldl sha_feed new_sha256 (map fst steps)"
  obtain u where u: "interrupted (\<lambda>chunk s. update_sha256 s chunk) checkpoint_sha256 resume_sha256 steps new_sha256 = Inr u"
      "ok_view u = ok_view ?t"
    using sha_stop.interrupted_success [of new_sha256 steps ?t] by (auto simp: sha_run_foldl ok_view_def)
  then have "sha_inv u" "sha_view u = sha_view ?t"
    by (auto simp: ok_view_def sha.ok_foldl)
  with u(1) show ?thesis
    by (auto intro: digest_of_view simp: sha.view_foldl)
qed

text \<open>
  The constructor admits exactly well-formed continuations: whatever checkpoint it accepts
  yields a stream that satisfies the class invariant, so every later operation is defined on it.
\<close>

theorem resume_establishes_invariant:
  assumes "resume_sha256 cp = Inr s"
  shows "sha_inv s \<and> byte_count s = parse_decimal (cp_bytes cp)"
  using assms by (auto simp: resume_sha256_def sha_inv_def new_sha256_def buffer_set_def split: if_splits)

theorem resume_establishes_invariant_witness:
  "sha_inv (sha256.make (replicate 8 1) (replicate 64 0) 0 64 False)"
proof -
  let ?cp = "\<lparr>cp_words = replicate 8 1, cp_pending = [], cp_bytes = ''64''\<rparr>"
  have "resume_sha256 ?cp = Inr (sha256.make (replicate 8 1) (replicate 64 0) 0 64 False)"
    by code_simp
  from resume_establishes_invariant [OF this] show ?thesis by blast
qed

end
