(* ===== verification/Jsonl_Blocks.thy ===== *)
theory Jsonl_Blocks
  imports Prelude
begin

text \<open>
  Cutting a decompressed JSONL stream into derived blocks.

  \<open>src/src/catalogue/shared/resumable-jsonl-blocks.ts\<close>: the class \<open>JsonlBlockAssembler\<close>, with
  its byte array \<open>#pending\<close> kept whole (complete records of the open block, then one partial
  record, then stale bytes), and its serializable cursor.
  \<open>src/src/catalogue/shared/gzip-jsonl.ts\<close>: the generators \<open>gzipJsonlRecords\<close> and
  \<open>gzipJsonlBlocks\<close>, from the point where the platform's decompressor has produced its chunks.

  The theorems show that both implement one specification (split at newlines, then group), hence
  produce the same blocks and the same errors, whatever the chunk boundaries; that no byte is
  lost or reordered and every block respects its bounds; and that a cursor resumes the stream.
\<close>

subsection \<open>Limits and errors\<close>

record SourceArchiveLimits =
  compressedBytes :: nat
  decompressedBytes :: nat
  recordBytes :: nat
  records_limit :: nat

datatype archive_error =
    Limits_not_positive        \<comment> \<open>SourceArchiveFailure: Archive limits must be positive safe integers.\<close>
  | Block_limits_invalid       \<comment> \<open>SourceArchiveFailure: Archive block limits must admit one bounded record.\<close>
  | Invalid_block_continuation \<comment> \<open>Error: Invalid archive block continuation state.\<close>
  | Record_limit               \<comment> \<open>SourceArchiveFailure: Archive record exceeds its byte limit.\<close>
  | Record_count_limit         \<comment> \<open>SourceArchiveFailure: Archive exceeds its record limit.\<close>
  | Decompressed_limit         \<comment> \<open>SourceArchiveFailure: Decompressed archive exceeds its byte limit.\<close>

definition MAX_SAFE_INTEGER :: int where
  "MAX_SAFE_INTEGER = 2 ^ 53 - 1"

record JsonlBlock =
  b_ordinal :: nat
  b_offset :: nat
  b_firstRecord :: nat
  b_recordCount :: nat
  b_bytes :: bytes

record JsonlBlockCursor =
  c_ordinal :: int
  c_offset :: int
  c_first_record :: int
  c_records :: int
  c_block_records :: int
  c_block_length :: int
  c_partial_length :: int

record assembler =
  limits :: SourceArchiveLimits
  blockBytes :: nat
  blockRecords :: nat
  pending_bytes :: bytes
  ordinal :: nat
  offset :: nat
  firstRecord :: nat
  records :: nat
  blockRecordCount :: nat
  blockLength :: nat
  partialLength :: nat

subsection \<open>The assembler\<close>

text \<open>\<open>cursorNumber\<close>: a JSON number becomes a counter only within \<open>0..maximum\<close>.\<close>

definition cursorNumber :: "int \<Rightarrow> int \<Rightarrow> archive_error + nat" where
  "cursorNumber v maximum =
     (if v < 0 \<or> v > MAX_SAFE_INTEGER \<or> v > maximum then Inl Invalid_block_continuation else Inr (nat v))"

definition new_assembler :: "SourceArchiveLimits \<Rightarrow> nat \<Rightarrow> nat \<Rightarrow> archive_error + assembler" where
  "new_assembler lim bb br =
     (if int bb > MAX_SAFE_INTEGER \<or> bb < recordBytes lim \<or> int br > MAX_SAFE_INTEGER \<or> br < 1
      then Inl Block_limits_invalid
      else Inr \<lparr>limits = lim, blockBytes = bb, blockRecords = br,
                pending_bytes = replicate (bb + recordBytes lim) 0,
                ordinal = 0, offset = 0, firstRecord = 0, records = 0,
                blockRecordCount = 0, blockLength = 0, partialLength = 0\<rparr>)"

text \<open>The constructor given a cursor and the pending bytes of the continuation.\<close>

definition resume_assembler ::
  "SourceArchiveLimits \<Rightarrow> nat \<Rightarrow> nat \<Rightarrow> JsonlBlockCursor \<Rightarrow> bytes option \<Rightarrow> archive_error + assembler" where
  "resume_assembler lim bb br c pend =
     rbind (new_assembler lim bb br) (\<lambda>s0.
     rbind (cursorNumber (c_ordinal c) MAX_SAFE_INTEGER) (\<lambda>o1.
     rbind (cursorNumber (c_offset c) (int (decompressedBytes lim))) (\<lambda>o2.
     rbind (cursorNumber (c_first_record c) (int (records_limit lim))) (\<lambda>fr.
     rbind (cursorNumber (c_records c) (int (records_limit lim))) (\<lambda>rs.
     rbind (cursorNumber (c_block_records c) (int br)) (\<lambda>brc.
     rbind (cursorNumber (c_block_length c) (int bb)) (\<lambda>bl.
     rbind (cursorNumber (c_partial_length c) (int (recordBytes lim))) (\<lambda>pl.
     (case pend of
        None \<Rightarrow> Inl Invalid_block_continuation
      | Some p \<Rightarrow>
          if length p \<noteq> bl + pl \<or> rs \<noteq> fr + brc \<or> (brc = 0) \<noteq> (bl = 0)
          then Inl Invalid_block_continuation
          else Inr (s0\<lparr>ordinal := o1, offset := o2, firstRecord := fr, records := rs,
                       blockRecordCount := brc, blockLength := bl, partialLength := pl,
                       pending_bytes := buffer_set (pending_bytes s0) p 0\<rparr>))))))))))"

definition cursor :: "assembler \<Rightarrow> JsonlBlockCursor \<times> bytes" where
  "cursor s =
     (\<lparr>c_ordinal = int (ordinal s), c_offset = int (offset s), c_first_record = int (firstRecord s),
       c_records = int (records s), c_block_records = int (blockRecordCount s),
       c_block_length = int (blockLength s), c_partial_length = int (partialLength s)\<rparr>,
      take (blockLength s + partialLength s) (pending_bytes s))"

definition close :: "assembler \<Rightarrow> assembler \<times> JsonlBlock" where
  "close s =
     (s\<lparr>ordinal := ordinal s + 1, offset := offset s + blockLength s,
        firstRecord := firstRecord s + blockRecordCount s, blockLength := 0, blockRecordCount := 0\<rparr>,
      \<lparr>b_ordinal = ordinal s, b_offset = offset s, b_firstRecord = firstRecord s,
       b_recordCount = blockRecordCount s, b_bytes = take (blockLength s) (pending_bytes s)\<rparr>)"

text \<open>\<open>copyWithin(0, from, to)\<close>.\<close>

definition copy_to_front :: "bytes \<Rightarrow> nat \<Rightarrow> nat \<Rightarrow> bytes" where
  "copy_to_front buf from til = buffer_set buf (take (til - from) (drop from buf)) 0"

definition completeRecord :: "assembler \<Rightarrow> archive_error + assembler \<times> JsonlBlock option" where
  "completeRecord s =
     (if records s \<ge> records_limit (limits s) then Inl Record_count_limit
      else
        let len = partialLength s;
            (s1, closed) =
              (if blockRecordCount s \<noteq> 0 \<and>
                  (blockLength s + len > blockBytes s \<or> blockRecordCount s = blockRecords s)
               then (let (s', blk) = close s; n = length (b_bytes blk)
                     in (s'\<lparr>pending_bytes := copy_to_front (pending_bytes s') n (n + len)\<rparr>, Some blk))
               else (s, None))
        in Inr (s1\<lparr>blockLength := blockLength s1 + len, partialLength := 0,
                   blockRecordCount := blockRecordCount s1 + 1, records := records s1 + 1\<rparr>, closed))"

text \<open>\<open>Uint8Array.prototype.indexOf(10, start)\<close>.\<close>

fun index_of :: "'a \<Rightarrow> 'a list \<Rightarrow> nat option" where
  "index_of x [] = None"
| "index_of x (y # ys) = (if x = y then Some 0 else map_option Suc (index_of x ys))"

definition newline_from :: "bytes \<Rightarrow> nat \<Rightarrow> nat option" where
  "newline_from xs start = map_option ((+) start) (index_of 10 (drop start xs))"

definition line_end :: "bytes \<Rightarrow> nat \<Rightarrow> nat" where
  "line_end xs start = (case newline_from xs start of None \<Rightarrow> length xs | Some n \<Rightarrow> n + 1)"

text \<open>Append \<open>part\<close> to the partial record, refusing one that is too long.\<close>

definition append_part :: "bytes \<Rightarrow> assembler \<Rightarrow> archive_error + assembler" where
  "append_part part s =
     (if partialLength s + length part > recordBytes (limits s) then Inl Record_limit
      else Inr (s\<lparr>pending_bytes := buffer_set (pending_bytes s) part (blockLength s + partialLength s),
                  partialLength := partialLength s + length part\<rparr>))"

lemma index_of_bound: "index_of x ys = Some n \<Longrightarrow> n < length ys"
  by (induction ys arbitrary: n) (auto split: if_splits)

lemma line_end_bounds: "start < length xs \<Longrightarrow> start < line_end xs start \<and> line_end xs start \<le> length xs"
  by (auto simp: line_end_def newline_from_def split: option.splits dest: index_of_bound)

function push_loop ::
  "assembler \<Rightarrow> bytes \<Rightarrow> nat \<Rightarrow> JsonlBlock list \<Rightarrow> nat \<Rightarrow> archive_error + assembler \<times> JsonlBlock list \<times> nat" where
  "push_loop s xs start blocks maximumBlocks =
     (if start < length xs \<and> length blocks < maximumBlocks then
        rbind (append_part (take (line_end xs start - start) (drop start xs)) s) (\<lambda>s1.
          if newline_from xs start = None
          then push_loop s1 xs (line_end xs start) blocks maximumBlocks
          else rbind (completeRecord s1) (\<lambda>r.
            push_loop (fst r) xs (line_end xs start) (blocks @ (case snd r of None \<Rightarrow> [] | Some b \<Rightarrow> [b])) maximumBlocks))
      else Inr (s, blocks, start))"
  by pat_completeness auto
termination
  using line_end_bounds
  by (relation "measure (\<lambda>(s, xs, start, blocks, m). length xs - start)") (auto intro: diff_less_mono2)

declare push_loop.simps [simp del]

definition push :: "assembler \<Rightarrow> bytes \<Rightarrow> nat \<Rightarrow> archive_error + assembler \<times> JsonlBlock list \<times> nat" where
  "push s xs maximumBlocks = push_loop s xs 0 [] maximumBlocks"

definition finish_blocks :: "assembler \<Rightarrow> archive_error + assembler \<times> JsonlBlock list" where
  "finish_blocks s =
     rbind (if partialLength s \<noteq> 0
            then rbind (completeRecord s) (\<lambda>(s1, b). Inr (s1, case b of None \<Rightarrow> [] | Some b \<Rightarrow> [b]))
            else Inr (s, [])) (\<lambda>(s1, blocks).
     if blockRecordCount s1 \<noteq> 0 then (let (s2, b) = close s1 in Inr (s2, blocks @ [b]))
     else Inr (s1, blocks))"

subsection \<open>The generators of gzip-jsonl.ts\<close>

text \<open>
  A generator is the list of what it yields, or the error that ends it. The decompressor is outside
  the program: its output chunks are the argument.
\<close>

record jsonl_record =
  r_ordinal :: nat
  r_offset :: nat
  r_bytes :: bytes

record reader =
  rd_pending :: bytes   \<comment> \<open>the first \<open>length\<close> bytes of \<open>pending\<close>\<close>
  rd_decoded :: nat
  rd_ordinal :: nat
  rd_offset :: nat
  rd_yielded :: "jsonl_record list"

text \<open>The inner \<open>while\<close> loop over one decompressed chunk.\<close>

function read_chunk :: "SourceArchiveLimits \<Rightarrow> bytes \<Rightarrow> nat \<Rightarrow> reader \<Rightarrow> archive_error + reader" where
  "read_chunk lim xs start r =
     (if start < length xs then
        (let part = take (line_end xs start - start) (drop start xs);
             r1 = r\<lparr>rd_pending := rd_pending r @ part\<rparr>
         in if length (rd_pending r) + length part > recordBytes lim then Inl Record_limit
            else if newline_from xs start = None then read_chunk lim xs (line_end xs start) r1
            else if rd_ordinal r1 \<ge> records_limit lim then Inl Record_count_limit
            else read_chunk lim xs (line_end xs start)
                   (r1\<lparr>rd_yielded := rd_yielded r1 @ [\<lparr>r_ordinal = rd_ordinal r1, r_offset = rd_offset r1, r_bytes = rd_pending r1\<rparr>],
                       rd_ordinal := rd_ordinal r1 + 1, rd_offset := rd_offset r1 + length (rd_pending r1),
                       rd_pending := []\<rparr>))
      else Inr r)"
  by pat_completeness auto
termination
  using line_end_bounds
  by (relation "measure (\<lambda>(lim, xs, start, r). length xs - start)") (auto intro: diff_less_mono2)

declare read_chunk.simps [simp del]

definition read_decoded :: "SourceArchiveLimits \<Rightarrow> bytes \<Rightarrow> reader \<Rightarrow> archive_error + reader" where
  "read_decoded lim xs r =
     (let r1 = r\<lparr>rd_decoded := rd_decoded r + length xs\<rparr>
      in if rd_decoded r1 > decompressedBytes lim then Inl Decompressed_limit else read_chunk lim xs 0 r1)"

definition gzipJsonlRecords :: "SourceArchiveLimits \<Rightarrow> bytes list \<Rightarrow> archive_error + jsonl_record list" where
  "gzipJsonlRecords lim chunks =
     (if list_ex (\<lambda>n. n < 1 \<or> int n > MAX_SAFE_INTEGER)
           [compressedBytes lim, decompressedBytes lim, recordBytes lim, records_limit lim]
      then Inl Limits_not_positive
      else rbind (rfold (read_decoded lim) chunks
             \<lparr>rd_pending = [], rd_decoded = 0, rd_ordinal = 0, rd_offset = 0, rd_yielded = []\<rparr>) (\<lambda>r.
           if rd_pending r \<noteq> [] then
             (if rd_ordinal r \<ge> records_limit lim then Inl Record_count_limit
              else Inr (rd_yielded r @ [\<lparr>r_ordinal = rd_ordinal r, r_offset = rd_offset r, r_bytes = rd_pending r\<rparr>]))
           else Inr (rd_yielded r)))"

record grouper =
  g_pending :: bytes
  g_count :: nat
  g_ordinal :: nat
  g_offset :: nat
  g_firstRecord :: nat
  g_yielded :: "JsonlBlock list"

definition g_block :: "grouper \<Rightarrow> JsonlBlock" where
  "g_block g = \<lparr>b_ordinal = g_ordinal g, b_offset = g_offset g, b_firstRecord = g_firstRecord g,
     b_recordCount = g_count g, b_bytes = g_pending g\<rparr>"

definition group_record :: "nat \<Rightarrow> nat \<Rightarrow> bytes \<Rightarrow> grouper \<Rightarrow> grouper" where
  "group_record bb br r g =
     (let g1 = (if g_count g \<noteq> 0 \<and> (length (g_pending g) + length r > bb \<or> g_count g = br)
                then g\<lparr>g_yielded := g_yielded g @ [g_block g], g_ordinal := g_ordinal g + 1,
                       g_offset := g_offset g + length (g_pending g),
                       g_firstRecord := g_firstRecord g + g_count g, g_pending := [], g_count := 0\<rparr>
                else g)
      in g1\<lparr>g_pending := g_pending g1 @ r, g_count := g_count g1 + 1\<rparr>)"

definition new_grouper :: grouper where
  "new_grouper = \<lparr>g_pending = [], g_count = 0, g_ordinal = 0, g_offset = 0, g_firstRecord = 0, g_yielded = []\<rparr>"

definition group_blocks :: "nat \<Rightarrow> nat \<Rightarrow> bytes list \<Rightarrow> JsonlBlock list" where
  "group_blocks bb br rs =
     (let g = fold (group_record bb br) rs new_grouper
      in if g_count g \<noteq> 0 then g_yielded g @ [g_block g] else g_yielded g)"

definition gzipJsonlBlocks :: "SourceArchiveLimits \<Rightarrow> nat \<Rightarrow> nat \<Rightarrow> bytes list \<Rightarrow> archive_error + JsonlBlock list" where
  "gzipJsonlBlocks lim bb br chunks =
     (if int bb > MAX_SAFE_INTEGER \<or> bb < recordBytes lim \<or> int br > MAX_SAFE_INTEGER \<or> br < 1
      then Inl Block_limits_invalid
      else rbind (gzipJsonlRecords lim chunks) (\<lambda>rs. Inr (group_blocks bb br (map r_bytes rs))))"

subsection \<open>Specification: split at newlines, then group\<close>

text \<open>One byte of the stream, on (complete records, partial record).\<close>

fun rec_step :: "SourceArchiveLimits \<Rightarrow> u8 \<Rightarrow> bytes list \<times> bytes \<Rightarrow> archive_error + bytes list \<times> bytes" where
  "rec_step lim b (recs, p) =
     (if length p + 1 > recordBytes lim then Inl Record_limit
      else if b \<noteq> 10 then Inr (recs, p @ [b])
      else if length recs \<ge> records_limit lim then Inl Record_count_limit
      else Inr (recs @ [p @ [b]], []))"

fun rec_end :: "SourceArchiveLimits \<Rightarrow> bytes list \<times> bytes \<Rightarrow> archive_error + bytes list" where
  "rec_end lim (recs, p) =
     (if p = [] then Inr recs
      else if length recs \<ge> records_limit lim then Inl Record_count_limit
      else Inr (recs @ [p]))"

definition split_records :: "SourceArchiveLimits \<Rightarrow> bytes \<Rightarrow> archive_error + bytes list" where
  "split_records lim xs = rbind (rfold (rec_step lim) xs ([], [])) (rec_end lim)"

definition jsonl_blocks :: "SourceArchiveLimits \<Rightarrow> nat \<Rightarrow> nat \<Rightarrow> bytes \<Rightarrow> archive_error + JsonlBlock list" where
  "jsonl_blocks lim bb br xs = rbind (split_records lim xs) (\<lambda>rs. Inr (group_blocks bb br rs))"

subsection \<open>Lines\<close>

lemma index_of_None: "index_of x ys = None \<longleftrightarrow> x \<notin> set ys"
  by (induction ys) auto

lemma index_of_Some:
  "index_of x ys = Some n \<Longrightarrow> take (Suc n) ys = take n ys @ [x] \<and> x \<notin> set (take n ys)"
  by (induction ys arbitrary: n) (auto split: if_splits)

lemma line_cases:
  assumes "start < length xs"
  obtains (last) "newline_from xs start = None" "line_end xs start = length xs" "10 \<notin> set (drop start xs)"
    | (line) q where "newline_from xs start \<noteq> None" "10 \<notin> set q"
        "take (line_end xs start - start) (drop start xs) = q @ [10]"
proof (cases "index_of 10 (drop start xs)")
  case None
  then show ?thesis
    using last by (simp add: newline_from_def line_end_def index_of_None [THEN iffD1, OF None])
next
  case (Some n)
  then show ?thesis
    using line [of "take n (drop start xs)"] index_of_Some [OF Some]
    by (simp add: newline_from_def line_end_def)
qed

lemma drop_line:
  assumes "start < length xs"
  shows "drop start xs = take (line_end xs start - start) (drop start xs) @ drop (line_end xs start) xs"
proof -
  have "drop (line_end xs start - start) (drop start xs) = drop (line_end xs start) xs"
    using line_end_bounds [OF assms] by simp
  then show ?thesis by (metis append_take_drop_id)
qed

lemma rfold_line:
  assumes "start < length xs"
  shows "rfold f (drop start xs) v =
    rbind (rfold f (take (line_end xs start - start) (drop start xs)) v) (rfold f (drop (line_end xs start) xs))"
  by (subst drop_line [OF assms]) (rule rfold_append)

text \<open>A whole part at once: what the byte-wise reading makes of it.\<close>

lemma rec_step_part:
  "10 \<notin> set q \<Longrightarrow> length p \<le> recordBytes lim \<Longrightarrow>
    rfold (rec_step lim) q (recs, p) =
      (if length p + length q > recordBytes lim then Inl Record_limit else Inr (recs, p @ q))"
  by (induction q arbitrary: p) auto

lemma rec_step_line:
  assumes "10 \<notin> set q" and "length p \<le> recordBytes lim"
  shows "rfold (rec_step lim) (q @ [10]) (recs, p) =
      (if length p + length (q @ [10]) > recordBytes lim then Inl Record_limit
       else if length recs \<ge> records_limit lim then Inl Record_count_limit
       else Inr (recs @ [p @ q @ [10]], []))"
  using assms by (auto simp: rfold_append rec_step_part)

subsection \<open>The generators implement the specification\<close>

definition rd_view :: "reader \<Rightarrow> bytes list \<times> bytes" where
  "rd_view r = (map r_bytes (rd_yielded r), rd_pending r)"

definition rd_ok :: "SourceArchiveLimits \<Rightarrow> reader \<Rightarrow> bool" where
  "rd_ok lim r \<longleftrightarrow> rd_ordinal r = length (rd_yielded r) \<and> length (rd_pending r) \<le> recordBytes lim"

lemma read_chunk_spec:
  assumes "rd_ok lim r"
  shows "map_sum id rd_view (read_chunk lim xs start r) = rfold (rec_step lim) (drop start xs) (rd_view r)"
    and "read_chunk lim xs start r = Inr r' \<Longrightarrow> rd_ok lim r' \<and> rd_decoded r' = rd_decoded r"
proof -
  have "map_sum id rd_view (read_chunk lim xs start r) = rfold (rec_step lim) (drop start xs) (rd_view r) \<and>
    (\<forall>r'. read_chunk lim xs start r = Inr r' \<longrightarrow> rd_ok lim r' \<and> rd_decoded r' = rd_decoded r)"
    using assms
  proof (induction lim xs start r rule: read_chunk.induct)
    case (1 lim xs start r)
    show ?case
    proof (cases "start < length xs")
      case False
      then show ?thesis using 1(3) by (simp add: read_chunk.simps)
    next
      case True
      let ?part = "take (line_end xs start - start) (drop start xs)"
      have fits: "length (rd_pending r) \<le> recordBytes lim" using 1(3) by (simp add: rd_ok_def)
      let ?r = "r\<lparr>rd_pending := rd_pending r @ ?part\<rparr>"
      show ?thesis
        using True
      proof (cases rule: line_cases)
        case last
        have "read_chunk lim xs start r =
          (if length (rd_pending r) + length (drop start xs) > recordBytes lim then Inl Record_limit
           else Inr (r\<lparr>rd_pending := rd_pending r @ drop start xs\<rparr>))"
          using True last(1,2)
          by (simp add: read_chunk.simps [of lim xs start] read_chunk.simps [of lim xs "length xs"] Let_def)
        then show ?thesis
          using 1(3) fits last(3) by (auto simp: rd_view_def rd_ok_def rec_step_part)
      next
        case (line q)
        let ?r' = "?r\<lparr>rd_yielded := rd_yielded ?r @ [\<lparr>r_ordinal = rd_ordinal ?r, r_offset = rd_offset ?r, r_bytes = rd_pending ?r\<rparr>],
          rd_ordinal := rd_ordinal ?r + 1, rd_offset := rd_offset ?r + length (rd_pending ?r), rd_pending := []\<rparr>"
        have eq: "read_chunk lim xs start r =
          (if length (rd_pending r) + length ?part > recordBytes lim then Inl Record_limit
           else if length (rd_yielded r) \<ge> records_limit lim then Inl Record_count_limit
           else read_chunk lim xs (line_end xs start) ?r')"
          using True line(1) 1(3) by (subst read_chunk.simps) (auto simp: Let_def rd_ok_def)
        have step: "rfold (rec_step lim) (drop start xs) (rd_view r) =
          rbind (if length (rd_pending r) + length ?part > recordBytes lim then Inl Record_limit
             else if length (rd_yielded r) \<ge> records_limit lim then Inl Record_count_limit
             else Inr (rd_view ?r')) (rfold (rec_step lim) (drop (line_end xs start) xs))"
          using rec_step_line [OF line(2) fits, of "map r_bytes (rd_yielded r)"]
          unfolding rfold_line [OF True] line(3) by (simp add: rd_view_def)
        have ok': "rd_ok lim ?r'" using 1(3) by (simp add: rd_ok_def)
        show ?thesis
        proof (cases "length (rd_pending r) + length ?part > recordBytes lim \<or> length (rd_yielded r) \<ge> records_limit lim")
          case True
          then show ?thesis unfolding eq step by auto
        next
          case False
          then show ?thesis
            using 1(2) [OF True refl refl _ line(1) _ ok'] 1(3) unfolding eq step by (simp add: rd_ok_def)
        qed
      qed
    qed
  qed
  then show "map_sum id rd_view (read_chunk lim xs start r) = rfold (rec_step lim) (drop start xs) (rd_view r)"
    "read_chunk lim xs start r = Inr r' \<Longrightarrow> rd_ok lim r' \<and> rd_decoded r' = rd_decoded r"
    by auto
qed


lemma read_decoded_spec:
  assumes "rfold (read_decoded lim) chunks r = res" and "rd_ok lim r"
    and "rd_decoded r + length (concat chunks) \<le> decompressedBytes lim"
  shows "map_sum id rd_view res = rfold (rec_step lim) (concat chunks) (rd_view r)"
    and "\<And>r'. res = Inr r' \<Longrightarrow> rd_ok lim r'"
proof -
  have "map_sum id rd_view (rfold (read_decoded lim) chunks r) = rfold (rec_step lim) (concat chunks) (rd_view r) \<and>
    (\<forall>r'. rfold (read_decoded lim) chunks r = Inr r' \<longrightarrow> rd_ok lim r')"
    using assms(2,3)
  proof (induction chunks arbitrary: r)
    case Nil
    then show ?case by simp
  next
    case (Cons xs chunks)
    let ?r = "r\<lparr>rd_decoded := rd_decoded r + length xs\<rparr>"
    have ok: "rd_ok lim ?r" "rd_view ?r = rd_view r"
      using Cons.prems by (simp_all add: rd_ok_def rd_view_def)
    have eq: "read_decoded lim xs r = read_chunk lim xs 0 ?r"
      using Cons.prems by (simp add: read_decoded_def Let_def)
    note spec = read_chunk_spec(1) [OF ok(1), of xs 0, symmetric] read_chunk_spec(2) [OF ok(1), of xs 0]
    show ?case
    proof (cases "read_chunk lim xs 0 ?r")
      case (Inl e)
      then show ?thesis using spec ok by (simp add: eq rfold_append)
    next
      case (Inr r1)
      then show ?thesis using spec ok Cons.IH [of r1] Cons.prems by (simp add: eq rfold_append)
    qed
  qed
  then show "map_sum id rd_view res = rfold (rec_step lim) (concat chunks) (rd_view r)"
    "\<And>r'. res = Inr r' \<Longrightarrow> rd_ok lim r'"
    using assms(1) by auto
qed

definition limits_positive :: "SourceArchiveLimits \<Rightarrow> bool" where
  "limits_positive lim \<longleftrightarrow> list_all (\<lambda>n. 1 \<le> n \<and> int n \<le> MAX_SAFE_INTEGER)
     [compressedBytes lim, decompressedBytes lim, recordBytes lim, records_limit lim]"

lemma gzipJsonlRecords_spec:
  assumes "limits_positive lim" and "length (concat chunks) \<le> decompressedBytes lim"
  shows "map_sum id (map r_bytes) (gzipJsonlRecords lim chunks) = split_records lim (concat chunks)"
proof -
  let ?r0 = "\<lparr>rd_pending = [], rd_decoded = 0, rd_ordinal = 0, rd_offset = 0, rd_yielded = []\<rparr>"
  have ok: "rd_ok lim ?r0" "rd_view ?r0 = ([], [])" by (simp_all add: rd_ok_def rd_view_def)
  have pos: "\<not> list_ex (\<lambda>n. n < 1 \<or> int n > MAX_SAFE_INTEGER)
      [compressedBytes lim, decompressedBytes lim, recordBytes lim, records_limit lim]"
    using assms(1) by (auto simp: limits_positive_def)
  note spec = read_decoded_spec(1) [OF refl ok(1), of chunks, symmetric] read_decoded_spec(2) [OF refl ok(1), of chunks]
  show ?thesis
  proof (cases "rfold (read_decoded lim) chunks ?r0")
    case (Inl e)
    then show ?thesis using spec assms ok pos by (simp add: gzipJsonlRecords_def split_records_def)
  next
    case (Inr r)
    then show ?thesis
      using spec assms ok pos by (auto simp: gzipJsonlRecords_def split_records_def rd_view_def rd_ok_def)
  qed
qed

lemma gzipJsonlBlocks_spec:
  assumes "limits_positive lim" and "length (concat chunks) \<le> decompressedBytes lim"
    and "recordBytes lim \<le> bb" and "int bb \<le> MAX_SAFE_INTEGER" and "1 \<le> br" and "int br \<le> MAX_SAFE_INTEGER"
  shows "gzipJsonlBlocks lim bb br chunks = jsonl_blocks lim bb br (concat chunks)"
  using gzipJsonlRecords_spec [OF assms(1,2), symmetric] assms(3-)
  by (cases "gzipJsonlRecords lim chunks") (auto simp: gzipJsonlBlocks_def jsonl_blocks_def)


subsection \<open>The assembler implements the specification\<close>

definition open_bytes :: "assembler \<Rightarrow> bytes" where
  "open_bytes s = take (blockLength s) (pending_bytes s)"

definition partial_bytes :: "assembler \<Rightarrow> bytes" where
  "partial_bytes s = take (partialLength s) (drop (blockLength s) (pending_bytes s))"

definition to_grouper :: "assembler \<Rightarrow> JsonlBlock list \<Rightarrow> grouper" where
  "to_grouper s blocks = \<lparr>g_pending = open_bytes s, g_count = blockRecordCount s, g_ordinal = ordinal s,
     g_offset = offset s, g_firstRecord = firstRecord s, g_yielded = blocks\<rparr>"

text \<open>The parameters fixed at construction.\<close>

definition asm_params :: "assembler \<Rightarrow> SourceArchiveLimits \<times> nat \<times> nat" where
  "asm_params s = (limits s, blockBytes s, blockRecords s)"

definition asm_inv :: "assembler \<Rightarrow> bool" where
  "asm_inv s \<longleftrightarrow>
     length (pending_bytes s) = blockBytes s + recordBytes (limits s) \<and>
     recordBytes (limits s) \<le> blockBytes s \<and> 1 \<le> blockRecords s \<and>
     blockLength s \<le> blockBytes s \<and> partialLength s \<le> recordBytes (limits s) \<and>
     blockRecordCount s \<le> blockRecords s \<and> records s \<le> records_limit (limits s) \<and>
     records s = firstRecord s + blockRecordCount s \<and> (blockRecordCount s = 0 \<longleftrightarrow> blockLength s = 0)"

lemma length_open_partial:
  assumes "asm_inv s"
  shows "length (open_bytes s) = blockLength s" "length (partial_bytes s) = partialLength s"
  using assms by (auto simp: asm_inv_def open_bytes_def partial_bytes_def min_def)

lemma pending_split:
  assumes "asm_inv s"
  shows "take (blockLength s + partialLength s) (pending_bytes s) = open_bytes s @ partial_bytes s"
  by (simp add: open_bytes_def partial_bytes_def take_drop_split)

lemma append_part_spec:
  assumes "asm_inv s" and "append_part part s = Inr s'"
  shows "asm_inv s'" "open_bytes s' = open_bytes s" "partial_bytes s' = partial_bytes s @ part"
    "\<And>blocks. to_grouper s' blocks = to_grouper s blocks" "records s' = records s" "asm_params s' = asm_params s"
    "partialLength s' = partialLength s + length part"
proof -
  let ?at = "blockLength s + partialLength s"
  have fit: "partialLength s + length part \<le> recordBytes (limits s)"
    and s': "s' = s\<lparr>pending_bytes := buffer_set (pending_bytes s) part ?at, partialLength := partialLength s + length part\<rparr>"
    using assms(2) by (auto simp: append_part_def split: if_splits)
  have room: "?at + length part \<le> length (pending_bytes s)"
    using assms(1) fit by (simp add: asm_inv_def)
  have "take (?at + length part) (buffer_set (pending_bytes s) part ?at) = open_bytes s @ partial_bytes s @ part"
    using take_buffer_set [OF room] pending_split [OF assms(1)] by simp
  then have split: "take (blockLength s) (buffer_set (pending_bytes s) part ?at) @
      take (partialLength s + length part) (drop (blockLength s) (buffer_set (pending_bytes s) part ?at)) =
      open_bytes s @ partial_bytes s @ part"
    by (simp add: take_drop_split [symmetric] add.assoc)
  have "length (take (blockLength s) (buffer_set (pending_bytes s) part ?at)) = length (open_bytes s)"
    using room by (simp add: length_buffer_set open_bytes_def)
  moreover have "open_bytes s' = take (blockLength s) (buffer_set (pending_bytes s) part ?at)"
    "partial_bytes s' = take (partialLength s + length part) (drop (blockLength s) (buffer_set (pending_bytes s) part ?at))"
    by (simp_all add: open_bytes_def partial_bytes_def s')
  ultimately have parts: "open_bytes s' = open_bytes s" "partial_bytes s' = partial_bytes s @ part"
    using split by (simp_all add: append_eq_append_conv)
  then show "open_bytes s' = open_bytes s" "partial_bytes s' = partial_bytes s @ part" .
  show "asm_inv s'" using assms(1) fit room by (simp add: asm_inv_def s' length_buffer_set)
  show "\<And>blocks. to_grouper s' blocks = to_grouper s blocks" using parts(1) by (simp add: to_grouper_def s')
  show "records s' = records s" "asm_params s' = asm_params s" "partialLength s' = partialLength s + length part"
    by (simp_all add: s' asm_params_def)
qed

lemma completeRecord_spec:
  assumes "asm_inv s" and "partialLength s \<noteq> 0" and "completeRecord s = Inr (s', closed)"
  shows "asm_inv s'" "partial_bytes s' = []" "asm_params s' = asm_params s" "records s' = records s + 1"
    "to_grouper s' (blocks @ (case closed of None \<Rightarrow> [] | Some b \<Rightarrow> [b])) =
      group_record (blockBytes s) (blockRecords s) (partial_bytes s) (to_grouper s blocks)"
proof -
  let ?full = "blockRecordCount s \<noteq> 0 \<and> (blockLength s + partialLength s > blockBytes s \<or> blockRecordCount s = blockRecords s)"
  note lens = length_open_partial [OF assms(1)]
  have lim: "records s < records_limit (limits s)"
    using assms(3) by (auto simp: completeRecord_def split: if_splits)
  have all: "asm_inv s' \<and> partial_bytes s' = [] \<and> asm_params s' = asm_params s \<and> records s' = records s + 1 \<and>
    to_grouper s' (blocks @ (case closed of None \<Rightarrow> [] | Some b \<Rightarrow> [b])) =
      group_record (blockBytes s) (blockRecords s) (partial_bytes s) (to_grouper s blocks)"
  proof (cases ?full)
    case True
    let ?pb = "copy_to_front (pending_bytes s) (blockLength s) (blockLength s + partialLength s)"
    have bl: "length (take (blockLength s) (pending_bytes s)) = blockLength s"
      using assms(1) by (simp add: asm_inv_def)
    have pb: "?pb = partial_bytes s @ drop (partialLength s) (pending_bytes s)"
      using lens by (simp add: copy_to_front_def buffer_set_def partial_bytes_def)
    have s': "s' = s\<lparr>ordinal := ordinal s + 1, offset := offset s + blockLength s,
        firstRecord := firstRecord s + blockRecordCount s, pending_bytes := ?pb,
        blockLength := partialLength s, partialLength := 0, blockRecordCount := 1, records := records s + 1\<rparr>"
      and cl: "closed = Some (g_block (to_grouper s blocks))"
      using assms(3) True lim bl
      by (auto simp: completeRecord_def Let_def close_def g_block_def to_grouper_def open_bytes_def)
    have "open_bytes s' = partial_bytes s"
      using lens(2) by (simp add: open_bytes_def s' pb)
    then have "to_grouper s' (blocks @ [g_block (to_grouper s blocks)]) =
        group_record (blockBytes s) (blockRecords s) (partial_bytes s) (to_grouper s blocks)"
      using True lens by (auto simp: group_record_def to_grouper_def Let_def s')
    moreover have "length ?pb = length (pending_bytes s)"
      using assms(1) lens(2) by (simp add: pb asm_inv_def)
    ultimately show ?thesis
      using assms(1,2) lim cl by (auto simp: asm_inv_def s' partial_bytes_def asm_params_def)
  next
    case False
    have s': "s' = s\<lparr>blockLength := blockLength s + partialLength s, partialLength := 0,
        blockRecordCount := blockRecordCount s + 1, records := records s + 1\<rparr>" and cl: "closed = None"
      using assms(3) False lim by (auto simp: completeRecord_def Let_def)
    have "open_bytes s' = open_bytes s @ partial_bytes s"
      using pending_split [OF assms(1)] by (simp add: open_bytes_def [of "s\<lparr>blockLength := _, partialLength := _, blockRecordCount := _, records := _\<rparr>"] s')
    then have "to_grouper s' blocks =
        group_record (blockBytes s) (blockRecords s) (partial_bytes s) (to_grouper s blocks)"
      using False lens by (auto simp: group_record_def to_grouper_def Let_def s')
    moreover have "blockLength s + partialLength s \<le> blockBytes s" "blockRecordCount s + 1 \<le> blockRecords s"
      using False assms(1) by (auto simp: asm_inv_def)
    ultimately show ?thesis
      using assms(1,2) lim cl by (auto simp: asm_inv_def s' partial_bytes_def asm_params_def)
  qed
  then show "asm_inv s'" "partial_bytes s' = []" "asm_params s' = asm_params s" "records s' = records s + 1"
    "to_grouper s' (blocks @ (case closed of None \<Rightarrow> [] | Some b \<Rightarrow> [b])) =
      group_record (blockBytes s) (blockRecords s) (partial_bytes s) (to_grouper s blocks)"
    by auto
qed


text \<open>The assembler with the blocks it closed so far, against (complete records, partial record).\<close>

definition asm_rel :: "assembler \<Rightarrow> JsonlBlock list \<Rightarrow> bytes list \<times> bytes \<Rightarrow> bool" where
  "asm_rel s blocks v \<longleftrightarrow> asm_inv s \<and> partial_bytes s = snd v \<and> records s = length (fst v) \<and>
     to_grouper s blocks = fold (group_record (blockBytes s) (blockRecords s)) (fst v) new_grouper"

lemma asm_rel_fits: "asm_rel s blocks (recs, p) \<Longrightarrow> length p \<le> recordBytes (limits s)"
  using length_open_partial(2) [of s] by (auto simp: asm_rel_def asm_inv_def)

lemma append_part_rel:
  assumes "asm_rel s blocks (recs, p)"
  shows "append_part part s = (if length p + length part > recordBytes (limits s) then Inl Record_limit
      else Inr (s\<lparr>pending_bytes := buffer_set (pending_bytes s) part (blockLength s + partialLength s),
                  partialLength := partialLength s + length part\<rparr>))"
    and "append_part part s = Inr s' \<Longrightarrow> asm_rel s' blocks (recs, p @ part) \<and> asm_params s' = asm_params s"
proof -
  have inv: "asm_inv s" and p: "partial_bytes s = p" using assms by (simp_all add: asm_rel_def)
  then have "partialLength s = length p" using length_open_partial by auto
  then show "append_part part s = (if length p + length part > recordBytes (limits s) then Inl Record_limit
      else Inr (s\<lparr>pending_bytes := buffer_set (pending_bytes s) part (blockLength s + partialLength s),
                  partialLength := partialLength s + length part\<rparr>))"
    by (simp add: append_part_def)
  assume "append_part part s = Inr s'"
  from append_part_spec [OF inv this] show "asm_rel s' blocks (recs, p @ part) \<and> asm_params s' = asm_params s"
    using assms by (auto simp: asm_rel_def asm_params_def)
qed

lemma completeRecord_rel:
  assumes "asm_rel s blocks (recs, p)" and "p \<noteq> []"
  shows "completeRecord s = Inl e \<longleftrightarrow> length recs \<ge> records_limit (limits s) \<and> e = Record_count_limit"
    and "completeRecord s = Inr r \<Longrightarrow> length recs < records_limit (limits s) \<and> asm_params (fst r) = asm_params s \<and>
      asm_rel (fst r) (blocks @ (case snd r of None \<Rightarrow> [] | Some b \<Rightarrow> [b])) (recs @ [p], [])"
proof -
  have inv: "asm_inv s" and p: "partial_bytes s = p" and rc: "records s = length recs"
    using assms by (simp_all add: asm_rel_def)
  have pl: "partialLength s \<noteq> 0" using length_open_partial(2) [OF inv] p assms(2) by (metis length_0_conv)
  show "completeRecord s = Inl e \<longleftrightarrow> length recs \<ge> records_limit (limits s) \<and> e = Record_count_limit"
    by (auto simp: completeRecord_def rc Let_def split: prod.split)
  assume r: "completeRecord s = Inr r"
  then have "length recs < records_limit (limits s)"
    by (auto simp: completeRecord_def rc split: if_splits)
  with completeRecord_spec [OF inv pl, of "fst r" "snd r"] r
  show "length recs < records_limit (limits s) \<and> asm_params (fst r) = asm_params s \<and>
      asm_rel (fst r) (blocks @ (case snd r of None \<Rightarrow> [] | Some b \<Rightarrow> [b])) (recs @ [p], [])"
    using assms by (auto simp: asm_rel_def asm_params_def)
qed

lemma take_line:
  assumes "start < length xs" and "line_end xs start \<le> c"
  shows "take (c - start) (drop start xs) =
    take (line_end xs start - start) (drop start xs) @ take (c - line_end xs start) (drop (line_end xs start) xs)"
proof -
  have "c - start = (line_end xs start - start) + (c - line_end xs start)"
    using line_end_bounds [OF assms(1)] assms(2) by simp
  moreover have "drop (line_end xs start - start) (drop start xs) = drop (line_end xs start) xs"
    using line_end_bounds [OF assms(1)] by simp
  ultimately show ?thesis by (simp only: take_drop_split)
qed

definition push_ok ::
  "assembler \<Rightarrow> bytes \<Rightarrow> nat \<Rightarrow> JsonlBlock list \<Rightarrow> nat \<Rightarrow> bytes list \<times> bytes \<Rightarrow>
    archive_error + assembler \<times> JsonlBlock list \<times> nat \<Rightarrow> bool" where
  "push_ok s xs start blocks m v res \<longleftrightarrow>
     (case res of
        Inl e \<Rightarrow> rfold (rec_step (limits s)) (drop start xs) v = Inl e
      | Inr (s', blocks', c) \<Rightarrow>
          start \<le> c \<and> c \<le> length xs \<and> (c < length xs \<longrightarrow> m \<le> length blocks') \<and>
          (start < length xs \<and> length blocks < m \<longrightarrow> start < c) \<and> asm_params s' = asm_params s \<and>
          (\<exists>w. rfold (rec_step (limits s)) (take (c - start) (drop start xs)) v = Inr w \<and> asm_rel s' blocks' w))"

lemma push_loop_rel:
  assumes "asm_rel s blocks (recs, p)" and "start \<le> length xs"
  shows "push_ok s xs start blocks m (recs, p) (push_loop s xs start blocks m)"
  using assms
proof (induction s xs start blocks m arbitrary: recs p rule: push_loop.induct)
  case (1 s xs start blocks m)
  show ?case
  proof (cases "start < length xs \<and> length blocks < m")
    case False
    then have "push_loop s xs start blocks m = Inr (s, blocks, start)"
      by (subst push_loop.simps) auto
    then show ?thesis using 1(3,4) False by (auto simp: push_ok_def)
  next
    case True
    then have st: "start < length xs" by simp
    note lb = line_end_bounds [OF st]
    let ?part = "take (line_end xs start - start) (drop start xs)"
    note fits = asm_rel_fits [OF 1(3)]
    show ?thesis
    proof (cases "append_part ?part s")
      case (Inl e)
      then have e: "e = Record_limit" "length p + length ?part > recordBytes (limits s)"
        using append_part_rel(1) [OF 1(3), of ?part] by (auto split: if_splits)
      have "rfold (rec_step (limits s)) ?part (recs, p) = Inl Record_limit"
        using st
      proof (cases rule: line_cases)
        case last
        then show ?thesis using e fits by (simp add: rec_step_part)
      next
        case (line q)
        then show ?thesis using e fits rec_step_line [OF line(2) fits] by simp
      qed
      moreover have "push_loop s xs start blocks m = Inl e"
        using True Inl by (subst push_loop.simps) simp
      ultimately show ?thesis by (simp add: push_ok_def rfold_line [OF st] e)
    next
      case (Inr s1)
      then have fit: "length p + length ?part \<le> recordBytes (limits s)"
        using append_part_rel(1) [OF 1(3), of ?part] by (auto split: if_splits)
      from append_part_rel(2) [OF 1(3) Inr]
      have s1: "asm_rel s1 blocks (recs, p @ ?part)" "limits s1 = limits s" "asm_params s1 = asm_params s"
        by (auto simp: asm_params_def)
      show ?thesis
        using st
      proof (cases rule: line_cases)
        case last
        have "push_loop s xs start blocks m = Inr (s1, blocks, length xs)"
          using True Inr last(1,2) by (simp add: push_loop.simps [of s xs start] push_loop.simps [of s1 xs "length xs"])
        then show ?thesis
          using st s1 last fits fit by (auto simp: push_ok_def rec_step_part)
      next
        case (line q)
        have ne: "p @ ?part \<noteq> []" using line(3) by simp
        note step = rec_step_line [OF line(2) fits, of recs, folded line(3)]
        have eq: "push_loop s xs start blocks m = rbind (completeRecord s1) (\<lambda>r.
            push_loop (fst r) xs (line_end xs start) (blocks @ (case snd r of None \<Rightarrow> [] | Some b \<Rightarrow> [b])) m)"
          using True Inr line(1) by (subst push_loop.simps) auto
        show ?thesis
        proof (cases "completeRecord s1")
          case (Inl e)
          then have "length recs \<ge> records_limit (limits s)" "e = Record_count_limit"
            using completeRecord_rel(1) [OF s1(1) ne] s1(2) by auto
          then show ?thesis
            using Inl fit by (simp add: eq push_ok_def rfold_line [OF st] step)
        next
          case r: (Inr r)
          let ?blocks = "blocks @ (case snd r of None \<Rightarrow> [] | Some b \<Rightarrow> [b])"
          from completeRecord_rel(2) [OF s1(1) ne r] s1(2,3)
          have r': "length recs < records_limit (limits s)" "asm_params (fst r) = asm_params s" "limits (fst r) = limits s"
            "asm_rel (fst r) ?blocks (recs @ [p @ ?part], [])"
            by (auto simp: asm_params_def)
          have go: "rfold (rec_step (limits s)) ?part (recs, p) = Inr (recs @ [p @ ?part], [])"
            using fit r'(1) by (simp add: step)
          have IH: "push_ok (fst r) xs (line_end xs start) ?blocks m (recs @ [p @ ?part], [])
              (push_loop (fst r) xs (line_end xs start) ?blocks m)"
            using 1(2) [OF True Inr _ r r'(4)] line(1) lb by simp
          show ?thesis
          proof (cases "push_loop (fst r) xs (line_end xs start) ?blocks m")
            case (Inl e)
            then show ?thesis using IH r r' by (simp add: push_ok_def eq rfold_line [OF st] go)
          next
            case (Inr res)
            obtain s2 bs2 c where res: "res = (s2, bs2, c)" by (cases res)
            from IH Inr res r' obtain w where w: "line_end xs start \<le> c" "c \<le> length xs" "c < length xs \<longrightarrow> m \<le> length bs2"
              "asm_params s2 = asm_params s"
              "rfold (rec_step (limits s)) (take (c - line_end xs start) (drop (line_end xs start) xs)) (recs @ [p @ ?part], []) = Inr w"
              "asm_rel s2 bs2 w"
              by (auto simp: push_ok_def)
            have "rfold (rec_step (limits s)) (take (c - start) (drop start xs)) (recs, p) = Inr w"
              using w(5) go by (simp only: take_line [OF st w(1)] rfold_append rbind.simps)
            with w Inr res r lb show ?thesis by (cases w) (auto simp: push_ok_def eq)
          qed
        qed
      qed
    qed
  qed
qed


lemma new_assembler_rel:
  assumes "new_assembler lim bb br = Inr s"
  shows "asm_rel s [] ([], [])" "asm_params s = (lim, bb, br)" "offset s = 0"
    "recordBytes lim \<le> bb" "int bb \<le> MAX_SAFE_INTEGER" "1 \<le> br" "int br \<le> MAX_SAFE_INTEGER"
  using assms
  by (auto simp: new_assembler_def asm_rel_def asm_inv_def partial_bytes_def to_grouper_def open_bytes_def
      new_grouper_def asm_params_def split: if_splits)

lemma close_grouper:
  "close s = (s', b) \<Longrightarrow> b = g_block (to_grouper s blocks) \<and> asm_params s' = asm_params s"
  by (auto simp: close_def g_block_def to_grouper_def open_bytes_def asm_params_def)

lemma finish_blocks_rel:
  assumes "asm_rel s blocks v"
  shows "map_sum id (\<lambda>r. blocks @ snd r) (finish_blocks s) =
    rbind (rec_end (limits s) v) (\<lambda>rs. Inr (group_blocks (blockBytes s) (blockRecords s) rs))"
proof -
  obtain recs p where v: "v = (recs, p)" by force
  have inv: "asm_inv s" using assms by (simp add: asm_rel_def)
  have pl: "partialLength s = length p"
    using length_open_partial(2) [OF inv] assms by (simp add: asm_rel_def v)
  have fin: "map_sum id (\<lambda>r. blocks' @ snd r)
        (if blockRecordCount t \<noteq> 0 then (let (s2, b) = close t in Inr (s2, bs @ [b])) else Inr (t, bs)) =
      Inr (group_blocks (blockBytes t) (blockRecords t) rs)"
    if "asm_rel t (blocks' @ bs) (rs, q)" for t blocks' bs rs q
  proof -
    have g: "fold (group_record (blockBytes t) (blockRecords t)) rs new_grouper = to_grouper t (blocks' @ bs)"
      using that by (simp add: asm_rel_def)
    show ?thesis
      by (auto simp: group_blocks_def g Let_def to_grouper_def split: prod.split dest: close_grouper)
  qed
  show ?thesis
  proof (cases "p = []")
    case True
    then show ?thesis using pl fin [of s blocks "[]" recs p] assms v by (simp add: finish_blocks_def)
  next
    case False
    note cr = completeRecord_rel [OF assms [unfolded v] False]
    show ?thesis
    proof (cases "completeRecord s")
      case (Inl e)
      with cr(1) [of e] have "records_limit (limits s) \<le> length recs" "e = Record_count_limit" by simp_all
      with Inl show ?thesis using pl False by (simp add: finish_blocks_def v)
    next
      case (Inr r)
      let ?bs = "case snd r of None \<Rightarrow> [] | Some b \<Rightarrow> [b]"
      have "asm_params (fst r) = asm_params s" "length recs < records_limit (limits s)"
        "asm_rel (fst r) (blocks @ ?bs) (recs @ [p], [])"
        using cr(2) [OF Inr] by blast+
      with fin [of "fst r" blocks ?bs "recs @ [p]" "[]"] show ?thesis
        using Inr pl False by (simp add: finish_blocks_def v asm_params_def case_prod_unfold Let_def split: if_splits)
    qed
  qed
qed

subsection \<open>Cursors\<close>

lemma cursorNumber_int: "int n \<le> maximum \<Longrightarrow> int n \<le> MAX_SAFE_INTEGER \<Longrightarrow> cursorNumber (int n) maximum = Inr n"
  by (simp add: cursorNumber_def)

lemma cursorNumber_Inr: "cursorNumber (int n) maximum = Inr m \<longleftrightarrow> int n \<le> maximum \<and> int n \<le> MAX_SAFE_INTEGER \<and> m = n"
  by (auto simp: cursorNumber_def)

lemma resume_cursor_fields:
  assumes "resume_assembler (limits s) (blockBytes s) (blockRecords s) (fst (cursor s)) (Some (snd (cursor s))) = Inr s'"
  shows "s' = s\<lparr>pending_bytes := buffer_set (replicate (blockBytes s + recordBytes (limits s)) 0)
    (take (blockLength s + partialLength s) (pending_bytes s)) 0\<rparr>"
  using assms
  by (cases s) (auto simp: resume_assembler_def cursor_def rbind_eq_Inr cursorNumber_Inr new_assembler_def split: if_splits)

lemma resume_cursor_rel:
  assumes "resume_assembler (limits s) (blockBytes s) (blockRecords s) (fst (cursor s)) (Some (snd (cursor s))) = Inr s'"
    and "asm_rel s blocks v"
  shows "asm_rel s' blocks v \<and> asm_params s' = asm_params s"
proof -
  have inv: "asm_inv s" using assms(2) by (simp add: asm_rel_def)
  note s' = resume_cursor_fields [OF assms(1)]
  let ?kept = "open_bytes s @ partial_bytes s"
  have len: "length ?kept = blockLength s + partialLength s"
    using length_open_partial [OF inv] by simp
  have pb: "pending_bytes s' = ?kept @ replicate (blockBytes s + recordBytes (limits s) - length ?kept) 0"
    using pending_split [OF inv] by (simp add: s' buffer_set_def)
  have "blockLength s' = blockLength s" "partialLength s' = partialLength s"
    by (simp_all add: s')
  then have "open_bytes s' = open_bytes s" "partial_bytes s' = partial_bytes s"
    using length_open_partial [OF inv] unfolding open_bytes_def [of s'] partial_bytes_def [of s'] pb by simp_all
  moreover have "length (pending_bytes s') = length (pending_bytes s)"
    using len inv by (simp add: pb asm_inv_def)
  ultimately show ?thesis
    using assms(2) inv by (simp add: asm_rel_def asm_inv_def to_grouper_def asm_params_def s')
qed

subsection \<open>Every way of pushing a stream\<close>

text \<open>
  The caller pushes whatever is at hand with some budget of blocks, and presents what was not
  consumed again. \<open>pushes s xs bs s'\<close>: some sequence of successful pushes takes the stream \<open>xs\<close>
  from \<open>s\<close> to \<open>s'\<close> and closes the blocks \<open>bs\<close>. Between pushes the assembler may be replaced by
  the one that the constructor rebuilds from its cursor.
\<close>

inductive pushes :: "assembler \<Rightarrow> bytes \<Rightarrow> JsonlBlock list \<Rightarrow> assembler \<Rightarrow> bool" where
  pushes_done: "pushes s [] [] s"
| pushes_step: "push s chunk m = Inr (s1, bs, c) \<Longrightarrow> pushes s1 (drop c chunk @ rest) bs' s2 \<Longrightarrow>
    pushes s (chunk @ rest) (bs @ bs') s2"
| pushes_resume: "resume_assembler (limits s) (blockBytes s) (blockRecords s) (fst (cursor s)) (Some (snd (cursor s))) = Inr s1 \<Longrightarrow>
    pushes s1 xs bs s2 \<Longrightarrow> pushes s xs bs s2"

text \<open>A push starts with no closed block; the blocks closed before only accumulate.\<close>

definition shift_blocks :: "JsonlBlock list \<Rightarrow> assembler \<times> JsonlBlock list \<times> nat \<Rightarrow> assembler \<times> JsonlBlock list \<times> nat" where
  "shift_blocks bs r = (case r of (s, bs', c) \<Rightarrow> (s, bs @ bs', c))"

lemma push_loop_shift:
  "push_loop s xs start (bs @ blocks) (length bs + m) = map_sum id (shift_blocks bs) (push_loop s xs start blocks m)"
proof (induction s xs start blocks m rule: push_loop.induct)
  case (1 s xs start blocks m)
  show ?case
  proof (cases "start < length xs \<and> length blocks < m")
    case False
    then show ?thesis by (subst (1 2) push_loop.simps) (auto simp: shift_blocks_def)
  next
    case True
    show ?thesis
    proof (cases "append_part (take (line_end xs start - start) (drop start xs)) s")
      case (Inl e)
      then show ?thesis using True by (subst (1 2) push_loop.simps) simp
    next
      case (Inr s1)
      show ?thesis
      proof (cases "newline_from xs start = None")
        case n: True
        then show ?thesis using 1(1) [OF True Inr n] True Inr by (subst (1 2) push_loop.simps) (simp add: id_def)
      next
        case n: False
        show ?thesis
        proof (cases "completeRecord s1")
          case (Inl e)
          then show ?thesis using True Inr n by (subst (1 2) push_loop.simps) auto
        next
          case r: (Inr r)
          then show ?thesis using 1(2) [OF True Inr n r] True Inr n by (subst (1 2) push_loop.simps) (auto simp: id_def)
        qed
      qed
    qed
  qed
qed

lemma push_rel:
  assumes "asm_rel s blocks v" and "push s xs m = res"
  shows "push_ok s xs 0 blocks (length blocks + m) v (map_sum id (shift_blocks blocks) res)"
  using push_loop_rel [of s blocks "fst v" "snd v" 0 xs "length blocks + m"] assms
    push_loop_shift [of s xs 0 blocks "[]" m]
  by (simp add: push_def)

lemma pushes_rel:
  assumes "pushes s xs bs s'" and "asm_rel s blocks v"
  shows "asm_params s' = asm_params s \<and> (\<exists>w. rfold (rec_step (limits s)) xs v = Inr w \<and> asm_rel s' (blocks @ bs) w)"
  using assms
proof (induction arbitrary: blocks v rule: pushes.induct)
  case (pushes_done s)
  then show ?case by auto
next
  case (pushes_step s chunk m s1 bs c rest bs' s2)
  from push_rel [OF pushes_step.prems pushes_step.hyps(1)]
  obtain w where w: "asm_params s1 = asm_params s" "rfold (rec_step (limits s)) (take c chunk) v = Inr w"
    "asm_rel s1 (blocks @ bs) w"
    by (auto simp: push_ok_def shift_blocks_def)
  have "rfold (rec_step (limits s)) (take c chunk @ (drop c chunk @ rest)) v =
      rfold (rec_step (limits s)) (drop c chunk @ rest) w"
    by (subst rfold_append) (simp add: w(2))
  then have "rfold (rec_step (limits s)) (chunk @ rest) v = rfold (rec_step (limits s)) (drop c chunk @ rest) w"
    by (simp only: append_assoc [symmetric] append_take_drop_id)
  then show ?case
    using pushes_step.IH [OF w(3)] w(1) by (auto simp: asm_params_def)
next
  case (pushes_resume s s1 xs bs s2)
  note r = resume_cursor_rel [OF pushes_resume.hyps(1) pushes_resume.prems]
  then show ?case using pushes_resume.IH [of blocks v] by (simp add: asm_params_def)
qed

subsection \<open>What grouping guarantees\<close>

fun blocks_chain :: "nat \<Rightarrow> nat \<Rightarrow> nat \<Rightarrow> JsonlBlock list \<Rightarrow> bool" where
  "blocks_chain n off fr [] = True"
| "blocks_chain n off fr (b # bs) =
     (b_ordinal b = n \<and> b_offset b = off \<and> b_firstRecord b = fr \<and>
      blocks_chain (n + 1) (off + length (b_bytes b)) (fr + b_recordCount b) bs)"

definition block_bounded :: "nat \<Rightarrow> nat \<Rightarrow> JsonlBlock \<Rightarrow> bool" where
  "block_bounded bb br b \<longleftrightarrow> 1 \<le> b_recordCount b \<and> b_recordCount b \<le> br \<and> 1 \<le> length (b_bytes b) \<and> length (b_bytes b) \<le> bb"

lemma blocks_chain_append:
  "blocks_chain n off fr (bs @ cs) \<longleftrightarrow> blocks_chain n off fr bs \<and>
    blocks_chain (n + length bs) (off + length (concat (map b_bytes bs))) (fr + sum_list (map b_recordCount bs)) cs"
  by (induction bs arbitrary: n off fr) (auto simp: add.assoc)

definition grouped :: "nat \<Rightarrow> nat \<Rightarrow> bytes list \<Rightarrow> grouper \<Rightarrow> bool" where
  "grouped bb br rs g \<longleftrightarrow>
     concat (map b_bytes (g_yielded g)) @ g_pending g = concat rs \<and>
     blocks_chain 0 0 0 (g_yielded g) \<and> list_all (block_bounded bb br) (g_yielded g) \<and>
     g_ordinal g = length (g_yielded g) \<and> g_offset g = length (concat (map b_bytes (g_yielded g))) \<and>
     g_firstRecord g = sum_list (map b_recordCount (g_yielded g)) \<and>
     g_firstRecord g + g_count g = length rs \<and>
     (g_count g = 0 \<longleftrightarrow> g_pending g = []) \<and> g_count g \<le> br \<and> length (g_pending g) \<le> bb"

lemma group_record_grouped:
  assumes "grouped bb br rs g" and "r \<noteq> []" and "length r \<le> bb" and "1 \<le> br"
  shows "grouped bb br (rs @ [r]) (group_record bb br r g)"
proof (cases "g_count g \<noteq> 0 \<and> (length (g_pending g) + length r > bb \<or> g_count g = br)")
  case True
  then have "block_bounded bb br (g_block g)"
    using assms by (auto simp: grouped_def block_bounded_def g_block_def Suc_le_eq)
  moreover have "length (concat (map b_bytes (g_yielded g))) + length (g_pending g) = length (concat rs)"
    using assms(1) unfolding grouped_def by (metis length_append)
  ultimately show ?thesis
    using True assms by (auto simp: grouped_def group_record_def Let_def blocks_chain_append g_block_def)
next
  case False
  with assms show ?thesis
    by (auto simp: grouped_def group_record_def Let_def)
qed

lemma fold_group_grouped:
  assumes "1 \<le> br" and "\<forall>r \<in> set rs. r \<noteq> [] \<and> length r \<le> bb"
  shows "grouped bb br rs (fold (group_record bb br) rs new_grouper)"
  using assms(2)
proof (induction rs rule: rev_induct)
  case Nil
  then show ?case by (simp add: grouped_def new_grouper_def)
next
  case (snoc r rs)
  then show ?case using assms(1) by (simp add: group_record_grouped)
qed

lemma group_blocks_spec:
  assumes "1 \<le> br" and "\<forall>r \<in> set rs. r \<noteq> [] \<and> length r \<le> bb"
  shows "concat (map b_bytes (group_blocks bb br rs)) = concat rs"
    "blocks_chain 0 0 0 (group_blocks bb br rs)"
    "\<forall>b \<in> set (group_blocks bb br rs). block_bounded bb br b"
    "sum_list (map b_recordCount (group_blocks bb br rs)) = length rs"
  using fold_group_grouped [OF assms]
  by (auto simp: group_blocks_def Let_def grouped_def blocks_chain_append list_all_iff g_block_def block_bounded_def Suc_le_eq)

text \<open>What splitting guarantees.\<close>

definition split_inv :: "SourceArchiveLimits \<Rightarrow> bytes \<Rightarrow> bytes list \<times> bytes \<Rightarrow> bool" where
  "split_inv lim xs v \<longleftrightarrow> concat (fst v) @ snd v = xs \<and> length (snd v) \<le> recordBytes lim \<and> 10 \<notin> set (snd v) \<and>
     length (fst v) \<le> records_limit lim \<and>
     (\<forall>r \<in> set (fst v). \<exists>q. r = q @ [10] \<and> 10 \<notin> set q \<and> length r \<le> recordBytes lim)"

lemma rfold_split_inv: "rfold (rec_step lim) xs v = Inr w \<Longrightarrow> split_inv lim ys v \<Longrightarrow> split_inv lim (ys @ xs) w"
proof (induction xs arbitrary: v ys)
  case Nil
  then show ?case by simp
next
  case (Cons x xs)
  obtain recs p where v: "v = (recs, p)" by force
  from Cons.prems(1) obtain u where u: "rec_step lim x v = Inr u" "rfold (rec_step lim) xs u = Inr w"
    by (auto simp: rbind_eq_Inr)
  have "split_inv lim (ys @ [x]) u"
    using u(1) Cons.prems(2) by (auto simp: split_inv_def v split: if_splits)
  from Cons.IH [OF u(2) this] show ?case by simp
qed

lemma split_records_spec:
  assumes "split_records lim xs = Inr rs"
  shows "concat rs = xs" "\<forall>r \<in> set rs. r \<noteq> [] \<and> length r \<le> recordBytes lim" "length rs \<le> records_limit lim"
proof -
  from assms obtain w where w: "rfold (rec_step lim) xs ([], []) = Inr w" "rec_end lim w = Inr rs"
    by (auto simp: split_records_def rbind_eq_Inr)
  have "split_inv lim xs w"
    using rfold_split_inv [OF w(1), of "[]"] by (simp add: split_inv_def)
  then show "concat rs = xs" "\<forall>r \<in> set rs. r \<noteq> [] \<and> length r \<le> recordBytes lim" "length rs \<le> records_limit lim"
    using w(2) by (cases w; force simp: split_inv_def split: if_splits)+
qed


lemma jsonl_blocks_spec:
  assumes "jsonl_blocks lim bb br xs = Inr blocks" and "1 \<le> br" and "recordBytes lim \<le> bb"
  shows "concat (map b_bytes blocks) = xs" "blocks_chain 0 0 0 blocks" "\<forall>b \<in> set blocks. block_bounded bb br b"
    "sum_list (map b_recordCount blocks) \<le> records_limit lim"
proof -
  from assms(1) obtain rs where rs: "split_records lim xs = Inr rs" "blocks = group_blocks bb br rs"
    by (auto simp: jsonl_blocks_def rbind_eq_Inr)
  note split = split_records_spec [OF rs(1)]
  then have fits: "\<forall>r \<in> set rs. r \<noteq> [] \<and> length r \<le> bb" using assms(3) by auto
  show "concat (map b_bytes blocks) = xs" "blocks_chain 0 0 0 blocks" "\<forall>b \<in> set blocks. block_bounded bb br b"
    "sum_list (map b_recordCount blocks) \<le> records_limit lim"
    using group_blocks_spec [OF assms(2) fits] split by (simp_all add: rs)
qed

lemma assembler_blocks:
  assumes "new_assembler lim bb br = Inr s0" and "pushes s0 xs bs s"
  shows "map_sum id (\<lambda>r. bs @ snd r) (finish_blocks s) = jsonl_blocks lim bb br xs"
proof -
  note new = new_assembler_rel [OF assms(1)]
  from pushes_rel [OF assms(2) new(1)] new(2)
  obtain w where w: "rfold (rec_step lim) xs ([], []) = Inr w" "asm_rel s bs w" "asm_params s = (lim, bb, br)"
    by (auto simp: asm_params_def)
  then show ?thesis
    using finish_blocks_rel [OF w(2)]
    by (simp add: jsonl_blocks_def split_records_def asm_params_def rbind_assoc)
qed

lemma asm_rel_grouped:
  assumes "asm_rel s bs w" and "split_inv lim xs w" and "asm_params s = (lim, bb, br)"
  shows "grouped bb br (fst w) (to_grouper s bs)"
proof -
  have par: "recordBytes lim \<le> bb" "1 \<le> br" "blockBytes s = bb" "blockRecords s = br"
    using assms(1,3) by (auto simp: asm_rel_def asm_inv_def asm_params_def)
  have "r \<noteq> [] \<and> length r \<le> bb" if "r \<in> set (fst w)" for r
    using assms(2) that par(1) by (force simp: split_inv_def)
  then show ?thesis
    using fold_group_grouped [of br "fst w" bb] assms(1) par by (simp add: asm_rel_def)
qed

lemma length_le_sum_counts: "list_all (block_bounded bb br) bs \<Longrightarrow> length bs \<le> sum_list (map b_recordCount bs)"
  by (induction bs) (auto simp: block_bounded_def)

subsection \<open>A concrete stream\<close>

definition sample_limits :: SourceArchiveLimits where
  "sample_limits = \<lparr>compressedBytes = 100, decompressedBytes = 100, recordBytes = 4, records_limit = 3\<rparr>"

definition sample_asm :: assembler where
  "sample_asm = projr (new_assembler sample_limits 4 2)"

definition sample_pushed :: "assembler \<times> JsonlBlock list \<times> nat" where
  "sample_pushed = projr (push sample_asm [97, 10, 98, 98, 10, 99] 9)"

lemma sample_new: "new_assembler sample_limits 4 2 = Inr sample_asm"
  by code_simp

lemma sample_positive: "limits_positive sample_limits"
  by code_simp

lemma sample_push: "push sample_asm [97, 10, 98, 98, 10, 99] 9 = Inr (fst sample_pushed, fst (snd sample_pushed), 6)"
  by code_simp

lemma sample_pushes: "pushes sample_asm [97, 10, 98, 98, 10, 99] (fst (snd sample_pushed)) (fst sample_pushed)"
  using pushes_step [OF sample_push, of "[]" "[]" "fst sample_pushed"] by (simp add: pushes_done)

lemma sample_finish: "finish_blocks (fst sample_pushed) = Inr (projr (finish_blocks (fst sample_pushed)))"
  by code_simp

lemma sample_too_long: "push (fst sample_pushed) [99, 99, 99, 99] 9 = Inl Record_limit"
  by code_simp

subsection \<open>Properties\<close>

text \<open>
  C7. Whatever the chunk boundaries, the block budgets of the pushes and the suspensions in between,
  the blocks an assembler closes (including those of \<open>finish\<close>) hold exactly the bytes of the
  stream in order; ordinals, byte offsets and first-record numbers continue without gap; every
  block holds between one and \<open>blockRecords\<close> records and at most \<open>blockBytes\<close> bytes, and the
  record limit is respected.
\<close>

theorem assembler_preserves_stream:
  assumes "new_assembler lim bb br = Inr s0" and "pushes s0 xs bs s" and "finish_blocks s = Inr (s', fs)"
  shows "concat (map b_bytes (bs @ fs)) = xs \<and> blocks_chain 0 0 0 (bs @ fs) \<and>
    (\<forall>b \<in> set (bs @ fs). block_bounded bb br b) \<and> sum_list (map b_recordCount (bs @ fs)) \<le> records_limit lim"
  using jsonl_blocks_spec [of lim bb br xs "bs @ fs"] assembler_blocks [OF assms(1,2)] assms(3)
    new_assembler_rel(4,6) [OF assms(1)] by simp

theorem assembler_preserves_stream_witness:
  "concat (map b_bytes (fst (snd sample_pushed) @ snd (projr (finish_blocks (fst sample_pushed))))) = [97, 10, 98, 98, 10, 99]"
  using assembler_preserves_stream [OF sample_new sample_pushes, of "fst (projr (finish_blocks (fst sample_pushed)))"
      "snd (projr (finish_blocks (fst sample_pushed)))"] sample_finish by simp

text \<open>
  C20. The resumable assembler and the generator \<open>gzipJsonlBlocks\<close> agree: on a stream within the
  decompressed limit, the assembler ends with exactly the blocks the generator yields for any
  chunking of the same bytes.
\<close>

theorem assembler_equals_generator:
  assumes "new_assembler lim bb br = Inr s0" and "limits_positive lim"
    and "concat chunks = xs" and "length xs \<le> decompressedBytes lim"
    and "pushes s0 xs bs s"
  shows "map_sum id (\<lambda>r. bs @ snd r) (finish_blocks s) = gzipJsonlBlocks lim bb br chunks"
  using assembler_blocks [OF assms(1,5)] gzipJsonlBlocks_spec [of lim chunks bb br] assms(2-4)
    new_assembler_rel(4-7) [OF assms(1)] by simp

theorem assembler_equals_generator_witness:
  "map_sum id (\<lambda>r. fst (snd sample_pushed) @ snd r) (finish_blocks (fst sample_pushed)) =
    gzipJsonlBlocks sample_limits 4 2 [[97], [10, 98, 98], [10, 99]]"
  by (rule assembler_equals_generator [OF sample_new sample_positive _ _ sample_pushes])
    (simp_all add: sample_limits_def)

text \<open>
  C26. The assembler fails only where the generator does: an error raised by a push is the error
  with which the generator ends on every chunking of a stream that continues the bytes pushed.
\<close>

theorem assembler_error_is_generator_error:
  assumes "new_assembler lim bb br = Inr s0" and "limits_positive lim"
    and "pushes s0 xs bs s" and "push s chunk m = Inl e"
    and "concat chunks = xs @ chunk @ rest" and "length (concat chunks) \<le> decompressedBytes lim"
  shows "gzipJsonlBlocks lim bb br chunks = Inl e"
proof -
  note new = new_assembler_rel [OF assms(1)]
  from pushes_rel [OF assms(3) new(1)] new(2)
  obtain w where w: "rfold (rec_step lim) xs ([], []) = Inr w" "asm_rel s bs w" "limits s = lim"
    by (auto simp: asm_params_def)
  have "rfold (rec_step lim) chunk w = Inl e"
    using push_rel [OF w(2) assms(4)] w(3) by (simp add: push_ok_def)
  then have "jsonl_blocks lim bb br (concat chunks) = Inl e"
    using w(1) by (simp add: jsonl_blocks_def split_records_def assms(5) rfold_append)
  then show ?thesis
    using gzipJsonlBlocks_spec [OF assms(2,6) new(4,5,6,7)] by simp
qed

theorem assembler_error_is_generator_error_witness:
  "gzipJsonlBlocks sample_limits 4 2 [[97, 10, 98, 98, 10, 99], [99, 99, 99, 99, 10]] = Inl Record_limit"
  by (rule assembler_error_is_generator_error [OF sample_new sample_positive sample_pushes sample_too_long, of _ "[10]"])
    (simp_all add: sample_limits_def)



text \<open>
  C27. A cursor is always accepted: after any successful pushes of a stream within the limits, the
  constructor rebuilds an assembler from the cursor and the pending bytes, with the same open block
  and partial record.
\<close>

theorem cursor_accepted:
  assumes "new_assembler lim bb br = Inr s0" and "limits_positive lim"
    and "pushes s0 xs bs s" and "length xs \<le> decompressedBytes lim"
  shows "\<exists>s'. resume_assembler lim bb br (fst (cursor s)) (Some (snd (cursor s))) = Inr s' \<and>
    open_bytes s' = open_bytes s \<and> partial_bytes s' = partial_bytes s \<and> cursor s' = cursor s"
proof -
  note new = new_assembler_rel [OF assms(1)]
  from pushes_rel [OF assms(3) new(1)] new(2)
  obtain w where w: "rfold (rec_step lim) xs ([], []) = Inr w" "asm_rel s bs w" "asm_params s = (lim, bb, br)"
    by (auto simp: asm_params_def)
  have sp: "split_inv lim xs w"
    using rfold_split_inv [OF w(1), of "[]"] by (simp add: split_inv_def)
  have inv: "asm_inv s" and par: "limits s = lim" "blockBytes s = bb" "blockRecords s = br"
    using w(2,3) by (simp_all add: asm_rel_def asm_params_def)
  note g = asm_rel_grouped [OF w(2) sp w(3)]
  have "length (concat (map b_bytes bs)) \<le> length (concat (fst w))"
    using g by (simp add: grouped_def to_grouper_def) (metis le_add1 length_append)
  then have off: "offset s \<le> decompressedBytes lim"
    using g sp assms(4) by (auto simp: grouped_def to_grouper_def split_inv_def)
  have ord: "ordinal s \<le> firstRecord s"
    using g length_le_sum_counts [of bb br bs] by (simp add: grouped_def to_grouper_def)
  have len: "length (take (blockLength s + partialLength s) (pending_bytes s)) = blockLength s + partialLength s"
    using inv by (simp add: asm_inv_def)
  have "int (records_limit lim) \<le> MAX_SAFE_INTEGER" "int (decompressedBytes lim) \<le> MAX_SAFE_INTEGER"
    "int (recordBytes lim) \<le> MAX_SAFE_INTEGER"
    using assms(2) by (simp_all add: limits_positive_def)
  then have "\<exists>s'. resume_assembler lim bb br (fst (cursor s)) (Some (snd (cursor s))) = Inr s'"
    using inv off ord len par assms(1) new(5,7)
      cursorNumber_int [of "firstRecord s + blockRecordCount s" "int (records_limit lim)"]
    by (simp add: resume_assembler_def cursor_def asm_inv_def cursorNumber_int)
  then obtain s' where s': "resume_assembler lim bb br (fst (cursor s)) (Some (snd (cursor s))) = Inr s'" ..
  have rel: "asm_rel s' bs w \<and> asm_params s' = asm_params s"
    using resume_cursor_rel [OF _ w(2), of s'] s' par by simp
  have fields: "ordinal s' = ordinal s" "offset s' = offset s" "firstRecord s' = firstRecord s" "records s' = records s"
    "blockRecordCount s' = blockRecordCount s" "blockLength s' = blockLength s" "partialLength s' = partialLength s"
    using resume_cursor_fields [of s s'] s' par by simp_all
  have og: "open_bytes s' = open_bytes s" "partial_bytes s' = partial_bytes s"
    using rel w(2,3) by (auto simp: asm_rel_def to_grouper_def asm_params_def)
      (metis grouper.ext_inject grouper.select_convs)
  moreover have "cursor s' = cursor s"
    using pending_split [OF inv] pending_split [of s'] rel og by (simp add: cursor_def asm_rel_def fields)
  ultimately show ?thesis using s' by blast
qed

theorem cursor_accepted_witness:
  "\<exists>s'. resume_assembler sample_limits 4 2 (fst (cursor (fst sample_pushed))) (Some (snd (cursor (fst sample_pushed)))) = Inr s'"
  using cursor_accepted [OF sample_new sample_positive sample_pushes] by (auto simp: sample_limits_def)

end
