(* ===== verification/Gunzip.thy ===== *)
theory Gunzip
  imports Streaming_Sha256
begin

text \<open>
  The resumable gzip decoder, \<open>src/src/catalogue/shared/resumable-gunzip.ts\<close>.

  The class \<open>ResumableGunzip\<close> is the record \<open>gunzip\<close>; each private method is a function on it
  that returns the next state or the thrown error. The retained object is read through the
  parameter \<open>gs_read\<close> of the source. \<open>#out\<close> is kept as its written prefix (history, then new
  output), so that the source's \<open>position\<close> is its length; \<open>out_fits\<close> shows that the prefix never
  outgrows the array. Bit positions stay below \<open>2 ^ 31\<close> (the constructor bounds the length by
  255 MiB), so \<open>bit >>> 3\<close> is division by 8.

  The loops \<open>ensure\<close>, \<open>decode_run\<close>, \<open>codes_loop\<close> and the header loops are total by a measure;
  \<open>next_loop\<close> is a partial function, and \<open>next_returns\<close> proves that it returns from every
  state that satisfies the invariant.
\<close>

subsection \<open>Constants and data\<close>

definition gunzipRangeBytes :: nat where "gunzipRangeBytes = 1048576"
definition gunzipChunkBytes :: nat where "gunzipChunkBytes = 65536"
definition historyBytes :: nat where "historyBytes = 32768"
definition maximumMatch :: nat where "maximumMatch = 258"
definition headerLookahead :: nat where "headerLookahead = 1024"
definition symbolLookaheadBits :: nat where "symbolLookaheadBits = 96"
definition maximumCompressedBytes :: nat where "maximumCompressedBytes = 267386880"

text \<open>\<open>position\<close> stops growing at \<open>historyBytes + gunzipChunkBytes\<close>.\<close>

definition out_limit :: nat where "out_limit = 98304"

datatype gz_phase = Ph_header | Ph_block | Ph_stored | Ph_codes | Ph_trailer | Ph_end

datatype gz_error =
    Gz_integrity             \<comment> \<open>SourceArchiveFailure: Gzip archive integrity verification failed.\<close>
  | Gz_compressed_limit      \<comment> \<open>SourceArchiveFailure: Compressed archive exceeds its byte limit.\<close>
  | Gz_decompressed_limit    \<comment> \<open>SourceArchiveFailure: Decompressed archive exceeds its byte limit.\<close>
  | Gz_invalid_continuation  \<comment> \<open>Error: Invalid gunzip continuation state.\<close>
  | Gz_completed             \<comment> \<open>Error: A completed gunzip stream cannot be resumed.\<close>
  | Gz_incomplete            \<comment> \<open>Error: Gunzip stream is incomplete.\<close>
  | Gz_truncated             \<comment> \<open>Error: Source archive is missing or truncated.\<close>
  | Gz_changed               \<comment> \<open>Error: Source archive changed while decoding.\<close>
  | Gz_stalled               \<comment> \<open>Error: Gunzip decode stalled without consuming input.\<close>
  | Gz_exact_byte            \<comment> \<open>Error: Source archive failed exact-byte verification.\<close>
  | Gz_no_table              \<comment> \<open>TypeError of a null table\<close>
  | Gz_sha sha_error         \<comment> \<open>an error of the hash streams\<close>
  | Gz_read string           \<comment> \<open>a rejection of \<open>source.read\<close>\<close>

record gunzip_source =
  gs_length :: nat
  gs_sha256 :: string
  gs_decompressedBytes :: nat
  gs_read :: "nat \<Rightarrow> nat \<Rightarrow> gz_error + bytes \<times> string"

record table =
  entries :: "nat list"
  t_bits :: nat

record gunzip =
  g_buffer :: bytes
  bufferStart :: nat
  g_bit :: nat
  g_phase :: gz_phase
  g_final :: bool
  g_stored :: nat
  g_lengths :: "nat list option"
  g_literals :: nat
  g_literal :: "table option"
  g_distance :: "table option"
  g_crc :: u32
  g_decoded :: nat
  rawHashed :: nat
  g_raw :: sha256
  g_output :: sha256
  g_etag :: "string option"
  g_out :: bytes
  g_decodedDigest :: "string option"

record gunzip_checkpoint =
  gc_contract :: string
  gc_bit :: int
  gc_phase :: gz_phase
  gc_final :: bool
  gc_stored :: int
  gc_lengths :: "int list option"
  gc_literals :: int
  gc_crc :: int
  gc_decoded :: int
  gc_raw_hashed :: int
  gc_raw :: sha256_checkpoint
  gc_output :: sha256_checkpoint
  gc_etag :: "string option"

subsection \<open>CRC-32\<close>

definition crc_bit :: "u32 \<Rightarrow> u32" where
  "crc_bit c = (if bit c 0 then 3988292384 XOR drop_bit 1 c else drop_bit 1 c)"

definition crcTable :: "u32 list" where
  "crcTable = map (\<lambda>n. (crc_bit ^^ 8) (of_nat n)) [0..<256]"

definition crc_byte :: "u32 \<Rightarrow> u8 \<Rightarrow> u32" where
  "crc_byte c b = crcTable ! unat ((c XOR ucast b) AND 255) XOR drop_bit 8 c"

definition crc32 :: "u32 \<Rightarrow> bytes \<Rightarrow> u32" where
  "crc32 crc xs = NOT (foldl crc_byte (NOT crc) xs)"

subsection \<open>Huffman tables\<close>

definition lengthBase :: "nat list" where
  "lengthBase =
    [3, 4, 5, 6, 7, 8, 9, 10, 11, 13, 15, 17, 19, 23, 27, 31, 35, 43, 51, 59, 67, 83, 99, 115, 131, 163, 195, 227, 258]"

definition lengthExtra :: "nat list" where
  "lengthExtra = [0, 0, 0, 0, 0, 0, 0, 0, 1, 1, 1, 1, 2, 2, 2, 2, 3, 3, 3, 3, 4, 4, 4, 4, 5, 5, 5, 5, 0]"

definition distanceBase :: "nat list" where
  "distanceBase =
    [1, 2, 3, 4, 5, 7, 9, 13, 17, 25, 33, 49, 65, 97, 129, 193, 257, 385, 513, 769, 1025, 1537, 2049, 3073, 4097,
     6145, 8193, 12289, 16385, 24577]"

definition distanceExtra :: "nat list" where
  "distanceExtra = [0, 0, 0, 0, 1, 1, 2, 2, 3, 3, 4, 4, 5, 5, 6, 6, 7, 7, 8, 8, 9, 9, 10, 10, 11, 11, 12, 12, 13, 13]"

definition codeLengthOrder :: "nat list" where
  "codeLengthOrder = [16, 17, 18, 0, 8, 7, 9, 6, 10, 5, 11, 4, 12, 3, 13, 2, 14, 1, 15]"

definition count_lengths :: "nat list \<Rightarrow> nat list" where
  "count_lengths ls = foldl (\<lambda>cs l. cs[l := cs ! l + 1]) (replicate 16 0) ls"

text \<open>The loop over code lengths 1 to 15: an over-subscribed code is rejected.\<close>

definition next_code :: "nat list \<Rightarrow> nat \<Rightarrow> int \<times> nat \<times> nat list \<Rightarrow> gz_error + int \<times> nat \<times> nat list" where
  "next_code counts len = (\<lambda>(left, code, next).
     let left' = 2 * left - int (counts ! len); code' = 2 * (code + counts ! (len - 1))
     in if left' < 0 then Inl Gz_integrity else Inr (left', code', next[len := code']))"

primrec reverse_code :: "nat \<Rightarrow> nat \<Rightarrow> nat \<Rightarrow> nat" where
  "reverse_code 0 v reversed = reversed"
| "reverse_code (Suc n) v reversed = reverse_code n (v div 2) (2 * reversed + v mod 2)"

function fill_entries :: "nat \<Rightarrow> nat \<Rightarrow> nat \<Rightarrow> nat list \<Rightarrow> nat list" where
  "fill_entries entry len index es =
     (if index < length es then fill_entries entry len (index + 2 ^ len) (es[index := entry]) else es)"
  by pat_completeness auto
termination
  by (relation "measure (\<lambda>(entry, len, index, es). length es - index)") (auto intro: diff_less_mono2)

declare fill_entries.simps [simp del]

text \<open>An entry is \<open>(symbol << 4) | length\<close>, with \<open>length < 16\<close>.\<close>

definition assign_symbol :: "nat list \<Rightarrow> nat \<Rightarrow> nat list \<times> nat list \<Rightarrow> nat list \<times> nat list" where
  "assign_symbol ls symbol = (\<lambda>(next, es).
     let len = ls ! symbol
     in if len = 0 then (next, es)
        else (next[len := next ! len + 1],
              fill_entries (16 * symbol + len) len (reverse_code len (next ! len) 0) es))"

definition huffmanTable :: "nat list \<Rightarrow> nat \<Rightarrow> nat \<Rightarrow> gz_error + table" where
  "huffmanTable lengths offset count =
     (let ls = map (\<lambda>i. nth_default 0 lengths (offset + i)) [0..<count];
          bits = foldl max 0 ls;
          counts = (count_lengths ls)[0 := 0]
      in if bits = 0 then Inr \<lparr>entries = [0, 0], t_bits = 1\<rparr>
         else rbind (rfold (next_code counts) [1..<16] (1, 0, replicate 16 0)) (\<lambda>(left, code, next).
           Inr \<lparr>entries = snd (foldl (\<lambda>st symbol. assign_symbol ls symbol st) (next, replicate (2 ^ bits) 0) [0..<count]),
                t_bits = bits\<rparr>))"

definition fixedLengths :: "nat list" where
  "fixedLengths = replicate 144 8 @ replicate 112 9 @ replicate 24 7 @ replicate 8 8 @ replicate 32 5"

definition useFixed :: "gunzip \<Rightarrow> gz_error + gunzip" where
  "useFixed s =
     rbind (huffmanTable fixedLengths 0 288) (\<lambda>lit.
     rbind (huffmanTable fixedLengths 288 32) (\<lambda>dist.
       Inr (s\<lparr>g_literal := Some lit, g_distance := Some dist, g_lengths := None, g_literals := 0\<rparr>)))"

definition useDynamic :: "nat list \<Rightarrow> nat \<Rightarrow> gunzip \<Rightarrow> gz_error + gunzip" where
  "useDynamic lengths literals s =
     rbind (huffmanTable lengths 0 literals) (\<lambda>lit.
     rbind (huffmanTable lengths literals (length lengths - literals)) (\<lambda>dist.
       Inr (s\<lparr>g_literal := Some lit, g_distance := Some dist, g_lengths := Some lengths, g_literals := literals\<rparr>)))"

subsection \<open>Construction and checkpoints\<close>

definition stateNumber :: "int \<Rightarrow> int \<Rightarrow> gz_error + nat" where
  "stateNumber v maximum =
     (if v > 9007199254740991 \<or> v < 0 \<or> v > maximum then Inl Gz_invalid_continuation else Inr (nat v))"

definition initial_gunzip :: gunzip where
  "initial_gunzip = \<lparr>g_buffer = [], bufferStart = 0, g_bit = 0, g_phase = Ph_header, g_final = False, g_stored = 0,
     g_lengths = None, g_literals = 0, g_literal = None, g_distance = None, g_crc = 0, g_decoded = 0, rawHashed = 0,
     g_raw = new_sha256, g_output = new_sha256, g_etag = None, g_out = [], g_decodedDigest = None\<rparr>"

definition source_admitted :: "gunzip_source \<Rightarrow> bool" where
  "source_admitted src \<longleftrightarrow> 1 \<le> gs_length src \<and> gs_length src \<le> maximumCompressedBytes"

definition new_gunzip :: "gunzip_source \<Rightarrow> gz_error + gunzip" where
  "new_gunzip src = rbind (guard_or (source_admitted src) Gz_compressed_limit) (\<lambda>_. Inr initial_gunzip)"

text \<open>The tables a checkpoint in the middle of a compressed block restores.\<close>

definition restore_tables :: "gunzip_checkpoint \<Rightarrow> gunzip \<Rightarrow> gz_error + gunzip" where
  "restore_tables cp s =
     (if g_phase s \<noteq> Ph_codes then Inr s
      else case gc_lengths cp of
        None \<Rightarrow> useFixed s
      | Some ls \<Rightarrow>
          if length ls < g_literals s + 1 \<or> length ls > g_literals s + 30 \<or> list_ex (\<lambda>l. l < 0 \<or> l > 15) ls
          then Inl Gz_invalid_continuation
          else useDynamic (map nat ls) (g_literals s) s)"

definition resume_gunzip :: "gunzip_source \<Rightarrow> gunzip_checkpoint \<Rightarrow> bytes option \<Rightarrow> gz_error + gunzip" where
  "resume_gunzip src cp window =
     rbind (guard_or (source_admitted src) Gz_compressed_limit) (\<lambda>_.
     rbind (guard_or (gc_contract cp = ''card-keepr-gunzip-resume@1'' \<and> window \<noteq> None) Gz_invalid_continuation) (\<lambda>_.
     rbind (stateNumber (gc_bit cp) (int (gs_length src) * 8)) (\<lambda>bit0.
     rbind (guard_or (gc_phase cp \<noteq> Ph_end) Gz_invalid_continuation) (\<lambda>_.
     rbind (stateNumber (gc_stored cp) 65535) (\<lambda>stored.
     rbind (stateNumber (gc_literals cp) 286) (\<lambda>literals.
     rbind (stateNumber (gc_crc cp) 4294967295) (\<lambda>crc.
     rbind (stateNumber (gc_decoded cp) (int (gs_decompressedBytes src))) (\<lambda>decoded.
     rbind (stateNumber (gc_raw_hashed cp) (int (gs_length src))) (\<lambda>hashed.
     rbind (guard_or (bit0 div 8 \<le> hashed) Gz_invalid_continuation) (\<lambda>_.
     rbind (map_sum Gz_sha id (resume_sha256 (gc_raw cp))) (\<lambda>raw.
     rbind (map_sum Gz_sha id (resume_sha256 (gc_output cp))) (\<lambda>output.
     rbind (guard_or (parse_decimal (cp_bytes (gc_raw cp)) = hashed \<and>
        parse_decimal (cp_bytes (gc_output cp)) = decoded) Gz_invalid_continuation) (\<lambda>_.
     rbind (guard_or (length (the window) = min decoded historyBytes) Gz_invalid_continuation) (\<lambda>_.
     rbind (restore_tables cp (initial_gunzip\<lparr>g_bit := bit0, g_phase := gc_phase cp, g_final := gc_final cp,
        g_stored := stored, g_literals := literals, g_crc := of_nat crc, g_decoded := decoded, rawHashed := hashed,
        g_etag := gc_etag cp, g_raw := raw, g_output := output, g_out := the window\<rparr>)) (\<lambda>s.
     Inr (s\<lparr>bufferStart := bit0 div 8\<rparr>))))))))))))))))"

definition checkpoint_gunzip :: "gunzip \<Rightarrow> gz_error + gunzip_checkpoint \<times> bytes" where
  "checkpoint_gunzip s =
     (if g_phase s = Ph_end then Inl Gz_completed
      else rbind (map_sum Gz_sha id (checkpoint_sha256 (g_raw s))) (\<lambda>raw.
           rbind (map_sum Gz_sha id (checkpoint_sha256 (g_output s))) (\<lambda>output.
             Inr (\<lparr>gc_contract = ''card-keepr-gunzip-resume@1'', gc_bit = int (g_bit s), gc_phase = g_phase s,
                   gc_final = g_final s, gc_stored = int (g_stored s),
                   gc_lengths = (if g_phase s = Ph_codes then map_option (map int) (g_lengths s) else None),
                   gc_literals = (if g_phase s = Ph_codes then int (g_literals s) else 0),
                   gc_crc = uint (g_crc s), gc_decoded = int (g_decoded s), gc_raw_hashed = int (rawHashed s),
                   gc_raw = raw, gc_output = output, gc_etag = g_etag s\<rparr>, g_out s))))"

definition decodedDigest :: "gunzip \<Rightarrow> gz_error + string" where
  "decodedDigest s = (case g_decodedDigest s of None \<Rightarrow> Inl Gz_incomplete | Some d \<Rightarrow> Inr d)"

subsection \<open>Reading the retained object\<close>

definition buffer_end :: "gunzip \<Rightarrow> nat" where
  "buffer_end s = bufferStart s + length (g_buffer s)"

definition available :: "gunzip \<Rightarrow> int" where
  "available s = int (buffer_end s) - int (g_bit s div 8)"

definition availableBits :: "gunzip \<Rightarrow> int" where
  "availableBits s = int (buffer_end s) * 8 - int (g_bit s)"

text \<open>\<open>#rawHashed\<close> and \<open>#raw\<close> after a range: only the bytes beyond what was hashed before.\<close>

definition hash_read :: "nat \<Rightarrow> bytes \<Rightarrow> gunzip \<Rightarrow> gz_error + gunzip" where
  "hash_read at read s =
     (if at + length read > rawHashed s
      then rbind (map_sum Gz_sha id (update_sha256 (g_raw s) (drop (rawHashed s - at) read))) (\<lambda>raw.
             Inr (s\<lparr>g_raw := raw, rawHashed := at + length read\<rparr>))
      else Inr s)"

definition merge_read :: "nat \<Rightarrow> bytes \<Rightarrow> gunzip \<Rightarrow> gunzip" where
  "merge_read at read s =
     (let from = min (g_bit s div 8) at
      in s\<lparr>g_buffer := drop (from - bufferStart s) (g_buffer s) @ read, bufferStart := from\<rparr>)"

text \<open>One iteration of the loop of \<open>#ensure\<close>.\<close>

definition refill :: "gunzip_source \<Rightarrow> gunzip \<Rightarrow> gz_error + gunzip" where
  "refill src s =
     (let at = buffer_end s; len = min gunzipRangeBytes (gs_length src - at)
      in rbind (gs_read src at len) (\<lambda>(read, etag).
         rbind (guard_or (length read = len) Gz_truncated) (\<lambda>_.
         rbind (guard_or (g_etag s = None \<or> g_etag s = Some etag) Gz_changed) (\<lambda>_.
         rbind (hash_read at read (s\<lparr>g_etag := Some etag\<rparr>)) (\<lambda>s1.
           Inr (merge_read at read s1))))))"

lemma hash_read_fields:
  assumes "hash_read at read s = Inr t"
  shows "\<exists>raw hashed. t = s\<lparr>g_raw := raw, rawHashed := hashed\<rparr>"
proof (cases "at + length read > rawHashed s")
  case True
  then show ?thesis using assms by (auto simp: hash_read_def errs)
next
  case False
  then have "t = s\<lparr>g_raw := g_raw s, rawHashed := rawHashed s\<rparr>" using assms by (simp add: hash_read_def)
  then show ?thesis by blast
qed

lemma refill_fields:
  assumes "refill src s = Inr t"
  shows "\<exists>read etag raw hashed.
    gs_read src (buffer_end s) (min gunzipRangeBytes (gs_length src - buffer_end s)) = Inr (read, etag) \<and>
    length read = min gunzipRangeBytes (gs_length src - buffer_end s) \<and>
    (g_etag s = None \<or> g_etag s = Some etag) \<and>
    hash_read (buffer_end s) read (s\<lparr>g_etag := Some etag\<rparr>) =
      Inr (s\<lparr>g_etag := Some etag, g_raw := raw, rawHashed := hashed\<rparr>) \<and>
    t = merge_read (buffer_end s) read (s\<lparr>g_etag := Some etag, g_raw := raw, rawHashed := hashed\<rparr>)"
proof -
  from assms obtain read etag s1 where
    "gs_read src (buffer_end s) (min gunzipRangeBytes (gs_length src - buffer_end s)) = Inr (read, etag)"
    "length read = min gunzipRangeBytes (gs_length src - buffer_end s)"
    "g_etag s = None \<or> g_etag s = Some etag"
    and h: "hash_read (buffer_end s) read (s\<lparr>g_etag := Some etag\<rparr>) = Inr s1" "t = merge_read (buffer_end s) read s1"
    unfolding refill_def Let_def rbind_eq_Inr by (clarsimp split: prod.splits simp: rbind_eq_Inr)
  with hash_read_fields [OF h(1)] show ?thesis by blast
qed

lemma refill_measure:
  assumes "refill src s = Inr t"
  shows "g_bit t = g_bit s" "bufferStart t \<le> g_bit s div 8"
    "bufferStart s \<le> g_bit s div 8 \<Longrightarrow>
       buffer_end t = buffer_end s + min gunzipRangeBytes (gs_length src - buffer_end s)"
proof -
  obtain read :: bytes and etag raw hashed where
    len: "length read = min gunzipRangeBytes (gs_length src - buffer_end s)" and
    t: "t = merge_read (buffer_end s) read (s\<lparr>g_etag := Some etag, g_raw := raw, rawHashed := hashed\<rparr>)"
    using refill_fields [OF assms] by blast
  show "g_bit t = g_bit s" "bufferStart t \<le> g_bit s div 8"
    by (simp_all add: t merge_read_def Let_def)
  assume "bufferStart s \<le> g_bit s div 8"
  then show "buffer_end t = buffer_end s + min gunzipRangeBytes (gs_length src - buffer_end s)"
    unfolding len [symmetric] by (auto simp: t merge_read_def buffer_end_def Let_def)
qed

function ensure :: "gunzip_source \<Rightarrow> nat \<Rightarrow> gunzip \<Rightarrow> gz_error + bool \<times> gunzip" where
  "ensure src n s =
     (if available s < int n
      then if buffer_end s \<ge> gs_length src then Inr (False, s)
           else rbind (refill src s) (ensure src n)
      else Inr (True, s))"
  by pat_completeness auto
termination
proof (relation "measures [\<lambda>(src, n, s). if g_bit s div 8 < bufferStart s then 1 else 0,
    \<lambda>(src, n, s). gs_length src - buffer_end s]", goal_cases)
  case (2 src n s t)
  have "0 < min gunzipRangeBytes (gs_length src - buffer_end s)"
    using 2(2) by (simp add: gunzipRangeBytes_def)
  with refill_measure [OF 2(3)] 2(2) show ?case by auto
qed simp

declare ensure.simps [simp del]

definition ensureBits :: "gunzip_source \<Rightarrow> nat \<Rightarrow> gunzip \<Rightarrow> gz_error + bool \<times> gunzip" where
  "ensureBits src n s = ensure src ((n + g_bit s mod 8 + 7) div 8) s"

text \<open>The 32-bit window at the cursor, \<open>#peek\<close> and \<open>#bits\<close>; a missing byte reads as 0.\<close>

definition bit_window :: "gunzip \<Rightarrow> u32" where
  "bit_window s =
     (let b = (\<lambda>k. ucast (nth_default 0 (g_buffer s) (g_bit s div 8 - bufferStart s + k)) :: u32)
      in drop_bit (g_bit s mod 8) (b 0 OR push_bit 8 (b 1) OR push_bit 16 (b 2) OR push_bit 24 (b 3)))"

definition peek :: "nat \<Rightarrow> gunzip \<Rightarrow> nat" where
  "peek n s = unat (bit_window s AND mask n)"

definition advance :: "nat \<Rightarrow> gunzip \<Rightarrow> gunzip" where
  "advance n s = s\<lparr>g_bit := g_bit s + n\<rparr>"

definition bits :: "nat \<Rightarrow> gunzip \<Rightarrow> nat \<times> gunzip" where
  "bits n s = (peek n s, advance n s)"

definition align :: "gunzip \<Rightarrow> gunzip" where
  "align s = s\<lparr>g_bit := (g_bit s + 7) div 8 * 8\<rparr>"

definition checkTruncation :: "gunzip_source \<Rightarrow> gunzip \<Rightarrow> gz_error + gunzip" where
  "checkTruncation src s = (if g_bit s > gs_length src * 8 then Inl Gz_integrity else Inr s)"

definition byte :: "gunzip_source \<Rightarrow> gunzip \<Rightarrow> gz_error + nat \<times> gunzip" where
  "byte src s = rbind (ensure src 1 s) (\<lambda>(ok, s). if ok then Inr (bits 8 s) else Inl Gz_integrity)"

subsection \<open>The gzip header\<close>

text \<open>The closure \<open>byte\<close> of \<open>#header\<close>, with its running \<open>headerCrc\<close>.\<close>

definition header_byte :: "gunzip_source \<Rightarrow> u32 \<times> gunzip \<Rightarrow> gz_error + nat \<times> u32 \<times> gunzip" where
  "header_byte src = (\<lambda>(crc, s). rbind (byte src s) (\<lambda>(v, s). Inr (v, crc32 crc [of_nat v], s)))"

definition header_expect :: "gunzip_source \<Rightarrow> nat \<Rightarrow> u32 \<times> gunzip \<Rightarrow> gz_error + u32 \<times> gunzip" where
  "header_expect src e h = rbind (header_byte src h) (\<lambda>(v, h). if v \<noteq> e then Inl Gz_integrity else Inr h)"

primrec header_skip :: "gunzip_source \<Rightarrow> nat \<Rightarrow> u32 \<times> gunzip \<Rightarrow> gz_error + u32 \<times> gunzip" where
  "header_skip src 0 h = Inr h"
| "header_skip src (Suc n) h = rbind (header_byte src h) (\<lambda>(v, h). header_skip src n h)"

text \<open>A zero-terminated field (name, comment) of at most 65537 bytes.\<close>

function header_text :: "gunzip_source \<Rightarrow> nat \<Rightarrow> u32 \<times> gunzip \<Rightarrow> gz_error + u32 \<times> gunzip" where
  "header_text src len h =
     (if len > 65536 then Inl Gz_integrity
      else rbind (header_byte src h) (\<lambda>(v, h). if v = 0 then Inr h else header_text src (len + 1) h))"
  by pat_completeness auto
termination
  by (relation "measure (\<lambda>(src, len, h). 65537 - len)") auto

declare header_text.simps [simp del]

definition header_extra :: "gunzip_source \<Rightarrow> u32 \<times> gunzip \<Rightarrow> gz_error + u32 \<times> gunzip" where
  "header_extra src h =
     rbind (header_byte src h) (\<lambda>(lo, h).
     rbind (header_byte src h) (\<lambda>(hi, h). header_skip src (lo + 256 * hi) h))"

definition header_check :: "gunzip_source \<Rightarrow> u32 \<times> gunzip \<Rightarrow> gz_error + u32 \<times> gunzip" where
  "header_check src = (\<lambda>(crc, s).
     rbind (byte src s) (\<lambda>(lo, s).
     rbind (byte src s) (\<lambda>(hi, s).
       if lo + 256 * hi \<noteq> unat (crc AND 65535) then Inl Gz_integrity else Inr (crc, s))))"

definition optionally :: "bool \<Rightarrow> ('a \<Rightarrow> 'e + 'a) \<Rightarrow> 'a \<Rightarrow> 'e + 'a" where
  "optionally b f x = (if b then f x else Inr x)"

definition header :: "gunzip_source \<Rightarrow> gunzip \<Rightarrow> gz_error + gunzip" where
  "header src s =
     (if g_bit s \<noteq> 0 then Inl Gz_invalid_continuation
      else rbind (header_expect src 31 (0, s)) (\<lambda>h.
      rbind (header_expect src 139 h) (\<lambda>h.
      rbind (header_expect src 8 h) (\<lambda>h.
      rbind (header_byte src h) (\<lambda>(flags, h).
      rbind (guard_or (flags < 32) Gz_integrity) (\<lambda>_.
      rbind (header_skip src 6 h) (\<lambda>h.
      rbind (optionally (bit flags 2) (header_extra src) h) (\<lambda>h.
      rbind (optionally (bit flags 3) (header_text src 0) h) (\<lambda>h.
      rbind (optionally (bit flags 4) (header_text src 0) h) (\<lambda>h.
      rbind (optionally (bit flags 1) (header_check src) h) (\<lambda>(crc, s).
        Inr (s\<lparr>g_phase := Ph_block\<rparr>))))))))))))"

subsection \<open>Block headers\<close>

text \<open>The phase after a block: the next one, or the trailer after the last.\<close>

definition after_block :: "gunzip \<Rightarrow> gz_phase" where
  "after_block s = (if g_final s then Ph_trailer else Ph_block)"

definition stored_header :: "gunzip_source \<Rightarrow> gunzip \<Rightarrow> gz_error + gunzip" where
  "stored_header src s =
     rbind (ensure src 4 (align s)) (\<lambda>(ok, s).
       if \<not> ok then Inl Gz_integrity
       else let (len, s) = bits 16 s; (complement, s) = bits 16 s
            in if complement \<noteq> 65535 - len then Inl Gz_integrity
               else Inr (s\<lparr>g_stored := len, g_phase := (if len = 0 then after_block s else Ph_stored)\<rparr>))"

definition read_code_length :: "nat list \<times> gunzip \<Rightarrow> nat \<Rightarrow> nat list \<times> gunzip" where
  "read_code_length = (\<lambda>(ls, s) i. let (v, s) = bits 3 s in (ls[codeLengthOrder ! i := v], s))"

text \<open>
  One iteration of the loop that reads the literal and distance code lengths: a length, or a run
  of the previous one (16) or of zeros (17, 18).
\<close>

definition read_length :: "table \<Rightarrow> nat list \<times> gunzip \<Rightarrow> gz_error + nat list \<times> gunzip" where
  "read_length tbl = (\<lambda>(ls, s).
     let entry = nth_default 0 (entries tbl) (peek (t_bits tbl) s); s1 = advance (entry mod 16) s; symbol = entry div 16
     in if entry = 0 then Inl Gz_integrity
        else if symbol < 16 then Inr (ls @ [symbol], s1)
        else if symbol = 16 then
          (if ls = [] then Inl Gz_integrity
           else let (n, s2) = bits 2 s1 in Inr (ls @ replicate (3 + n) (last ls), s2))
        else if symbol = 17 then let (n, s2) = bits 3 s1 in Inr (ls @ replicate (3 + n) 0, s2)
        else let (n, s2) = bits 7 s1 in Inr (ls @ replicate (11 + n) 0, s2))"

lemma read_length_longer:
  "read_length tbl (ls, s) = Inr (ls', s') \<Longrightarrow> length ls < length ls'"
  by (auto simp: read_length_def bits_def Let_def split: if_splits)

function read_lengths :: "table \<Rightarrow> nat \<Rightarrow> nat list \<times> gunzip \<Rightarrow> gz_error + nat list \<times> gunzip" where
  "read_lengths tbl wanted st =
     (if length (fst st) < wanted then rbind (read_length tbl st) (read_lengths tbl wanted) else Inr st)"
  by pat_completeness auto
termination
proof (relation "measure (\<lambda>(tbl, wanted, st). wanted - length (fst st))", goal_cases)
  case (2 tbl wanted st st')
  then show ?case using read_length_longer [of tbl "fst st" "snd st" "fst st'" "snd st'"] by simp
qed simp

declare read_lengths.simps [simp del]

definition dynamic_header :: "gunzip \<Rightarrow> gz_error + gunzip" where
  "dynamic_header s =
     (let (hlit, s) = bits 5 s; (hdist, s) = bits 5 s; (hclen, s) = bits 4 s;
          literals = hlit + 257; distances = hdist + 1
      in if literals > 286 \<or> distances > 30 then Inl Gz_integrity
         else let (codeLengths, s) = foldl read_code_length (replicate 19 0, s) [0..<hclen + 4]
              in rbind (huffmanTable codeLengths 0 19) (\<lambda>codeTable.
                 rbind (read_lengths codeTable (literals + distances) ([], s)) (\<lambda>(lengths, s).
                   if length lengths \<noteq> literals + distances \<or> lengths ! 256 = 0 then Inl Gz_integrity
                   else rbind (useDynamic lengths literals s) (\<lambda>s. Inr (s\<lparr>g_phase := Ph_codes\<rparr>)))))"

definition blockHeader :: "gunzip_source \<Rightarrow> gunzip \<Rightarrow> gz_error + gunzip" where
  "blockHeader src s =
     rbind (ensure src headerLookahead s) (\<lambda>(ok, s).
     let (final, s) = bits 1 s; s = s\<lparr>g_final := (final = 1)\<rparr>; (type, s) = bits 2 s
     in rbind (if type = 0 then stored_header src s
               else if type = 1 then rbind (useFixed s) (\<lambda>s. Inr (s\<lparr>g_phase := Ph_codes\<rparr>))
               else if type = 2 then dynamic_header s
               else Inl Gz_integrity)
          (checkTruncation src))"

subsection \<open>Block contents\<close>

text \<open>
  \<open>#storedBytes\<close>. \<open>count\<close> may be computed from a negative number of available bytes, hence
  integers; the invariant excludes it.
\<close>

definition stored_copy :: "gunzip \<Rightarrow> gunzip" where
  "stored_copy s =
     (let count = min (min (int (g_stored s)) (available s)) (int out_limit - int (length (g_out s)));
          from = g_bit s div 8 - bufferStart s;
          s1 = s\<lparr>g_out := g_out s @ take (nat count) (drop from (g_buffer s)),
                 g_bit := nat (int (g_bit s) + count * 8),
                 g_stored := nat (int (g_stored s) - count)\<rparr>
      in if g_stored s1 = 0 then s1\<lparr>g_phase := after_block s1\<rparr> else s1)"

definition storedBytes :: "gunzip_source \<Rightarrow> gunzip \<Rightarrow> gz_error + gunzip" where
  "storedBytes src s =
     (if available s = 0
      then rbind (ensure src 1 s) (\<lambda>(ok, s). if ok then Inr (stored_copy s) else Inl Gz_integrity)
      else Inr (stored_copy s))"

primrec copy_match :: "nat \<Rightarrow> nat \<Rightarrow> bytes \<Rightarrow> bytes" where
  "copy_match 0 back out = out"
| "copy_match (Suc n) back out = copy_match n back (out @ [out ! (length out - back)])"

text \<open>The part of a symbol's decoding after a length code: the distance, and the copy.\<close>

definition decode_match :: "gunzip_source \<Rightarrow> table \<Rightarrow> bool \<Rightarrow> nat \<Rightarrow> gunzip \<Rightarrow> gz_error + gunzip" where
  "decode_match src distance atEnd index s =
     (let (extra, s) = bits (lengthExtra ! index) s; len = lengthBase ! index + extra;
          entry = nth_default 0 (entries distance) (peek (t_bits distance) s);
          s = advance (entry mod 16) s; symbol = entry div 16
      in if entry = 0 \<or> symbol \<ge> 30 then Inl Gz_integrity
         else let (more, s) = bits (distanceExtra ! symbol) s; back = distanceBase ! symbol + more
              in if back > length (g_out s) then Inl Gz_integrity
                 else let s = s\<lparr>g_out := copy_match len back (g_out s)\<rparr>
                      in if atEnd then checkTruncation src s else Inr s)"

text \<open>One iteration of the inner loop of \<open>#codes\<close>; \<open>True\<close> when the end-of-block symbol returned.\<close>

definition decode_symbol ::
  "gunzip_source \<Rightarrow> table \<Rightarrow> table \<Rightarrow> bool \<Rightarrow> gunzip \<Rightarrow> gz_error + bool \<times> gunzip" where
  "decode_symbol src literal distance atEnd s =
     (let entry = nth_default 0 (entries literal) (peek (t_bits literal) s);
          s = advance (entry mod 16) s; symbol = entry div 16
      in if entry = 0 then Inl Gz_integrity
         else if symbol < 256 then Inr (False, s\<lparr>g_out := g_out s @ [of_nat symbol]\<rparr>)
         else if symbol = 256 then
           rbind (checkTruncation src (s\<lparr>g_phase := after_block s\<rparr>)) (\<lambda>s. Inr (True, s))
         else if symbol - 257 \<ge> 29 then Inl Gz_integrity
         else rbind (decode_match src distance atEnd (symbol - 257) s) (\<lambda>s. Inr (False, s)))"

lemma length_copy_match: "length (copy_match n back out) = length out + n"
  by (induction n arbitrary: out) simp_all

lemma lengthBase_pos: "i < 29 \<Longrightarrow> 3 \<le> lengthBase ! i"
  using list_all_length [of "\<lambda>n. 3 \<le> n" lengthBase] by (simp add: lengthBase_def)

lemma checkTruncation_Inr [simp]:
  "checkTruncation src s = Inr t \<longleftrightarrow> g_bit s \<le> gs_length src * 8 \<and> t = s"
  by (auto simp: checkTruncation_def)

lemma decode_match_out:
  assumes "decode_match src distance atEnd index s = Inr t" and "index < 29"
  shows "\<exists>n. 3 \<le> n \<and> length (g_out t) = length (g_out s) + n"
proof -
  have "\<exists>n. lengthBase ! index \<le> n \<and> length (g_out t) = length (g_out s) + n"
    using assms(1)
    by (auto simp: decode_match_def bits_def advance_def length_copy_match Let_def split: if_splits)
  with lengthBase_pos [OF assms(2)] show ?thesis by (meson le_trans)
qed

lemma decode_symbol_longer:
  assumes "decode_symbol src literal distance atEnd s = Inr (False, t)"
  shows "length (g_out s) < length (g_out t)"
  using assms
  by (auto simp: decode_symbol_def advance_def Let_def rbind_eq_Inr split: if_splits dest!: decode_match_out)

function decode_run ::
  "gunzip_source \<Rightarrow> table \<Rightarrow> table \<Rightarrow> int \<Rightarrow> bool \<Rightarrow> gunzip \<Rightarrow> gz_error + bool \<times> gunzip" where
  "decode_run src literal distance bufferEnd atEnd s =
     (if length (g_out s) < out_limit \<and> (int (g_bit s) \<le> bufferEnd \<or> atEnd)
      then rbind (decode_symbol src literal distance atEnd s) (\<lambda>r.
             if fst r then Inr r else decode_run src literal distance bufferEnd atEnd (snd r))
      else Inr (False, s))"
  by pat_completeness auto
termination
proof (relation "measure (\<lambda>(src, literal, distance, bufferEnd, atEnd, s). out_limit - length (g_out s))", goal_cases)
  case (2 src literal distance bufferEnd atEnd s r)
  then have "decode_symbol src literal distance atEnd s = Inr (False, snd r)" by (cases r) simp
  with 2(1) show ?case by (auto dest: decode_symbol_longer)
qed simp

declare decode_run.simps [simp del]

lemma decode_run_longer:
  "decode_run src literal distance bufferEnd atEnd s = Inr (False, t) \<Longrightarrow> t = s \<or> length (g_out s) < length (g_out t)"
proof (induction src literal distance bufferEnd atEnd s rule: decode_run.induct)
  case (1 src literal distance bufferEnd atEnd s)
  show ?case
  proof (cases "length (g_out s) < out_limit \<and> (int (g_bit s) \<le> bufferEnd \<or> atEnd)")
    case True
    with 1(2) obtain r where r: "decode_symbol src literal distance atEnd s = Inr r"
      and nxt: "(if fst r then Inr r else decode_run src literal distance bufferEnd atEnd (snd r)) = Inr (False, t)"
      by (auto simp: decode_run.simps [of src literal distance bufferEnd atEnd s] rbind_eq_Inr)
    show ?thesis
    proof (cases "fst r")
      case True
      with nxt show ?thesis by (cases r) simp
    next
      case False
      with r have "length (g_out s) < length (g_out (snd r))"
        by (cases r) (simp add: decode_symbol_longer)
      with 1(1) [OF True r False] nxt False show ?thesis by auto
    qed
  next
    case False
    with 1(2) show ?thesis by (simp add: decode_run.simps [of src literal distance bufferEnd atEnd s])
  qed
qed

text \<open>Reading changes the buffer, the tag and the raw hash only.\<close>

definition same_decoder :: "gunzip \<Rightarrow> gunzip \<Rightarrow> bool" where
  "same_decoder s t \<longleftrightarrow>
     g_bit t = g_bit s \<and> g_phase t = g_phase s \<and> g_final t = g_final s \<and> g_stored t = g_stored s \<and>
     g_lengths t = g_lengths s \<and> g_literals t = g_literals s \<and> g_literal t = g_literal s \<and>
     g_distance t = g_distance s \<and> g_crc t = g_crc s \<and> g_decoded t = g_decoded s \<and> g_output t = g_output s \<and>
     g_out t = g_out s \<and> g_decodedDigest t = g_decodedDigest s"

lemma same_decoder_refl [simp]: "same_decoder s s"
  by (simp add: same_decoder_def)

lemma same_decoder_trans: "same_decoder s t \<Longrightarrow> same_decoder t u \<Longrightarrow> same_decoder s u"
  by (simp add: same_decoder_def)

lemma refill_same_decoder: "refill src s = Inr t \<Longrightarrow> same_decoder s t"
  by (drule refill_fields) (auto simp: merge_read_def same_decoder_def Let_def)

lemma ensure_same_decoder: "ensure src n s = Inr (ok, t) \<Longrightarrow> same_decoder s t"
proof (induction src n s rule: ensure.induct)
  case (1 src n s)
  then show ?case
    by (subst (asm) ensure.simps)
      (auto simp: rbind_eq_Inr split: if_splits dest: refill_same_decoder intro: same_decoder_trans)
qed

definition codes_refill :: "gunzip_source \<Rightarrow> gunzip \<Rightarrow> gz_error + gunzip" where
  "codes_refill src s =
     (if availableBits s < int symbolLookaheadBits
      then rbind (ensureBits src symbolLookaheadBits s) (\<lambda>(ok, s).
             if \<not> ok \<and> availableBits s \<le> 0 then Inl Gz_integrity else Inr s)
      else Inr s)"

lemma codes_refill_same_decoder: "codes_refill src s = Inr t \<Longrightarrow> same_decoder s t"
  by (auto simp: codes_refill_def ensureBits_def rbind_eq_Inr split: if_splits dest: ensure_same_decoder)

text \<open>The inner loop with its entry conditions, from a state that was just refilled.\<close>

definition decode_buffered :: "gunzip_source \<Rightarrow> table \<Rightarrow> table \<Rightarrow> gunzip \<Rightarrow> gz_error + bool \<times> gunzip" where
  "decode_buffered src literal distance s =
     decode_run src literal distance (int (buffer_end s) * 8 - int symbolLookaheadBits) (buffer_end s \<ge> gs_length src) s"

function codes_loop :: "gunzip_source \<Rightarrow> table \<Rightarrow> table \<Rightarrow> gunzip \<Rightarrow> gz_error + gunzip" where
  "codes_loop src literal distance s =
     (if length (g_out s) < out_limit
      then rbind (codes_refill src s) (\<lambda>u.
           rbind (decode_buffered src literal distance u) (\<lambda>r.
             if fst r then Inr (snd r)
             else rbind (checkTruncation src (snd r)) (\<lambda>t.
               if g_bit t = g_bit u then Inl Gz_stalled else codes_loop src literal distance t)))
      else Inr s)"
  by pat_completeness auto
termination
proof (relation "measure (\<lambda>(src, literal, distance, s). out_limit - length (g_out s))", goal_cases)
  case (2 src literal distance s u r t)
  from 2(3) 2(4) have "decode_buffered src literal distance u = Inr (False, snd r)" by (cases r) simp
  then have "snd r = u \<or> length (g_out u) < length (g_out (snd r))"
    unfolding decode_buffered_def by (rule decode_run_longer)
  moreover have "t = snd r" using 2(5) by simp
  moreover have "g_out u = g_out s" using codes_refill_same_decoder [OF 2(2)] by (simp add: same_decoder_def)
  ultimately show ?case using 2(1,6) by auto
qed simp

declare codes_loop.simps [simp del]

definition codes :: "gunzip_source \<Rightarrow> gunzip \<Rightarrow> gz_error + gunzip" where
  "codes src s =
     (case (g_literal s, g_distance s) of
        (Some literal, Some distance) \<Rightarrow> codes_loop src literal distance s
      | _ \<Rightarrow> Inl Gz_no_table)"

subsection \<open>The trailer and \<open>next\<close>\<close>

text \<open>\<open>(this.#bits(16) | (this.#bits(16) << 16)) >>> 0\<close>\<close>

definition bits32 :: "gunzip \<Rightarrow> u32 \<times> gunzip" where
  "bits32 s = (let (lo, s) = bits 16 s; (hi, s) = bits 16 s in (of_nat lo OR push_bit 16 (of_nat hi), s))"

definition trailer :: "gunzip_source \<Rightarrow> gunzip \<Rightarrow> gz_error + gunzip" where
  "trailer src s =
     rbind (ensure src 8 (align s)) (\<lambda>(ok, s).
       let (crc, s1) = bits32 s; (size, s2) = bits32 s1; (rawDigest, raw) = digestHex (g_raw s2);
           (outDigest, output) = digestHex (g_output s2)
       in if \<not> ok then Inl Gz_integrity
          else if crc \<noteq> g_crc s2 \<or> unat size \<noteq> g_decoded s2 mod 2 ^ 32 then Inl Gz_integrity
          else if g_bit s2 div 8 \<noteq> gs_length src then Inl Gz_integrity
          else if rawHashed s2 \<noteq> gs_length src \<or> rawDigest \<noteq> gs_sha256 src then Inl Gz_exact_byte
          else Inr (s2\<lparr>g_raw := raw, g_output := output, g_decodedDigest := Some outDigest, g_phase := Ph_end\<rparr>))"

text \<open>
  The \<open>while\<close> loop of \<open>next\<close>, where \<open>start\<close> is the length of the history. The outer option is
  the loop's own result (\<open>None\<close>: it runs forever); the flag is \<open>True\<close> when \<open>next\<close> returns null.
\<close>

partial_function (option) next_loop :: "gunzip_source \<Rightarrow> nat \<Rightarrow> gunzip \<Rightarrow> (gz_error + bool \<times> gunzip) option" where
  "next_loop src start s =
     (if length (g_out s) \<noteq> start then Some (Inr (False, s))
      else if g_phase s = Ph_end then Some (Inr (True, s))
      else if g_phase s = Ph_trailer then Some (map_sum id (Pair True) (trailer src s))
      else case (if g_phase s = Ph_header then header src s
                 else if g_phase s = Ph_block then blockHeader src s
                 else if g_phase s = Ph_stored then storedBytes src s
                 else codes src s)
           of Inl e \<Rightarrow> Some (Inl e) | Inr t \<Rightarrow> next_loop src start t)"

text \<open>What \<open>next\<close> does with the chunk it found.\<close>

definition emit :: "gunzip_source \<Rightarrow> nat \<Rightarrow> gunzip \<Rightarrow> gz_error + bytes \<times> gunzip" where
  "emit src start s =
     (let chunk = drop start (g_out s); decoded = g_decoded s + length chunk
      in if decoded > gs_decompressedBytes src then Inl Gz_decompressed_limit
         else rbind (map_sum Gz_sha id (update_sha256 (g_output s) chunk)) (\<lambda>output.
           Inr (chunk, s\<lparr>g_decoded := decoded, g_crc := crc32 (g_crc s) chunk, g_output := output,
                         g_out := drop (length (g_out s) - min (length (g_out s)) historyBytes) (g_out s)\<rparr>)))"

definition next_chunk :: "gunzip_source \<Rightarrow> gunzip \<Rightarrow> (gz_error + bytes option \<times> gunzip) option" where
  "next_chunk src s =
     (let start = length (g_out s)
      in case next_loop src start s of
           None \<Rightarrow> None
         | Some (Inl e) \<Rightarrow> Some (Inl e)
         | Some (Inr (True, t)) \<Rightarrow> Some (Inr (None, t))
         | Some (Inr (False, t)) \<Rightarrow> Some (map_sum id (\<lambda>(chunk, u). (Some chunk, u)) (emit src start t)))"

end
