(* ===== verification/Gunzip_Proofs.thy ===== *)
theory Gunzip_Proofs
  imports Gunzip
begin

text \<open>
  Correctness of the resumable gzip decoder of \<^theory_text>\<open>Gunzip\<close>.

  The CRC register equals the bit-serial definition. An invariant ties the buffer, the raw hash
  and the cursor to the retained object; it is kept by every method, by \<open>next\<close> and by a
  checkpoint that is resumed. From it: \<open>next\<close> always returns, every checkpoint is accepted, and
  a completed stream has been verified against the trailer and both digests.
\<close>

subsection \<open>CRC-32 is the serial CRC\<close>

text \<open>The register shifted by one message bit, as the polynomial division is defined.\<close>

definition serial_bit :: "u32 \<Rightarrow> bool \<Rightarrow> u32" where
  "serial_bit c b = (if bit c 0 \<noteq> b then 3988292384 XOR drop_bit 1 c else drop_bit 1 c)"

definition byte_bits :: "u8 \<Rightarrow> bool list" where
  "byte_bits b = map (bit b) [0..<8]"

definition crc32_serial :: "bytes \<Rightarrow> u32" where
  "crc32_serial xs = NOT (foldl serial_bit (NOT 0) (concat (map byte_bits xs)))"

lemma crc_bit_xor: "crc_bit (x XOR y) = crc_bit x XOR crc_bit y"
  by (rule bit_word_eqI) (auto simp: crc_bit_def bit_simps)

lemma crc_bits_xor: "(crc_bit ^^ n) (x XOR y) = (crc_bit ^^ n) x XOR (crc_bit ^^ n) y"
  by (induction n) (simp_all add: crc_bit_xor)

lemma crc_bits_shift: "take_bit n c = 0 \<Longrightarrow> (crc_bit ^^ n) c = drop_bit n c"
proof (induction n arbitrary: c)
  case (Suc n)
  have "\<not> bit c 0" using arg_cong [OF Suc.prems, of "\<lambda>w. bit w 0"] by (simp add: bit_simps)
  then have step: "crc_bit c = drop_bit 1 c" by (simp add: crc_bit_def)
  have "take_bit n (drop_bit 1 c) = 0"
  proof (rule bit_word_eqI)
    fix i
    show "bit (take_bit n (drop_bit 1 c)) i = bit (0 :: u32) i"
      using arg_cong [OF Suc.prems, of "\<lambda>w. bit w (Suc i)"] by (auto simp: bit_simps)
  qed
  then show ?case
    using Suc.IH [of "drop_bit 1 c"] by (simp add: funpow_swap1 step add.commute del: drop_bit_Suc)
qed simp

lemma serial_bit_xor: "serial_bit c b = crc_bit (c XOR (if b then 1 else 0))"
  by (rule bit_word_eqI) (auto simp: serial_bit_def crc_bit_def bit_simps bit_1_iff)

lemma foldl_serial_bits:
  "n \<le> 32 \<Longrightarrow> foldl serial_bit c (map (bit w) [0..<n]) = (crc_bit ^^ n) (c XOR take_bit n w)"
  for c w :: u32
proof (induction n)
  case (Suc n)
  let ?b = "if bit w n then 1 else 0 :: u32"
  have low: "take_bit n (push_bit n ?b) = 0" by (rule bit_word_eqI) (auto simp: bit_simps)
  have up: "drop_bit n (push_bit n ?b) = ?b"
    using Suc.prems by (intro bit_word_eqI) (auto simp: bit_simps bit_1_iff)
  have split: "take_bit (Suc n) w = take_bit n w XOR push_bit n ?b"
    using Suc.prems by (intro bit_word_eqI) (auto simp: bit_simps bit_1_iff less_Suc_eq)
  have "foldl serial_bit c (map (bit w) [0..<Suc n]) = crc_bit ((crc_bit ^^ n) (c XOR take_bit n w) XOR ?b)"
    using Suc.IH Suc.prems serial_bit_xor [of "(crc_bit ^^ n) (c XOR take_bit n w)" "bit w n"] by simp
  also have "\<dots> = crc_bit ((crc_bit ^^ n) (c XOR take_bit n w XOR push_bit n ?b))"
    using crc_bits_shift [OF low] by (simp add: crc_bits_xor up xor.assoc)
  finally show ?case by (simp add: split xor.assoc del: take_bit_Suc)
qed simp

lemma unat_mask_less: "unat (w AND mask n) < 2 ^ n"
proof -
  have "int (unat (w AND mask n)) < int (2 ^ n)"
    using and_mask_lt_2p [of w n] by (simp only: of_nat_unat of_nat_power of_nat_numeral)
  then show ?thesis by (simp only: of_nat_less_iff)
qed

lemma crcTable_nth: "i < 256 \<Longrightarrow> crcTable ! i = (crc_bit ^^ 8) (of_nat i)"
  unfolding crcTable_def by (simp add: nth_map_upt del: funpow.simps)

lemma crc_byte_serial: "crc_byte c b = foldl serial_bit c (byte_bits b)"
proof -
  let ?x = "c XOR ucast b" and ?m = "255 :: u32"
  have m: "?m = mask 8" by (simp add: mask_eq_exp_minus_1)
  have lt: "unat (?x AND ?m) < 256"
    unfolding m using unat_mask_less [of ?x 8] by simp
  have "byte_bits b = map (bit (ucast b :: u32)) [0..<8]"
    by (simp add: byte_bits_def bit_simps)
  then have "foldl serial_bit c (byte_bits b) = (crc_bit ^^ 8) (c XOR take_bit 8 (ucast b))"
    by (simp only: foldl_serial_bits)
  also have "take_bit 8 (ucast b :: u32) = ucast b"
    by (rule bit_word_eqI) (auto simp: bit_simps dest: bit_imp_le_length)
  also have "?x = (?x AND ?m) XOR (?x AND NOT ?m)"
    by (rule bit_word_eqI) (auto simp: bit_simps)
  also have "(crc_bit ^^ 8) \<dots> = (crc_bit ^^ 8) (?x AND ?m) XOR (crc_bit ^^ 8) (?x AND NOT ?m)"
    by (rule crc_bits_xor)
  also have "(crc_bit ^^ 8) (?x AND ?m) = crcTable ! unat (?x AND ?m)"
    using lt by (simp add: crcTable_nth del: funpow.simps)
  also have "(crc_bit ^^ 8) (?x AND NOT ?m) = drop_bit 8 c"
  proof -
    have "take_bit 8 (?x AND NOT ?m) = 0" unfolding m by (rule bit_word_eqI) (auto simp: bit_simps)
    moreover have "drop_bit 8 (?x AND NOT ?m) = drop_bit 8 c"
      unfolding m by (rule bit_word_eqI) (auto simp: bit_simps dest: bit_imp_le_length)
    ultimately show ?thesis by (simp only: crc_bits_shift)
  qed
  finally show ?thesis by (simp only: crc_byte_def)
qed

lemma foldl_crc_byte: "foldl crc_byte c xs = foldl serial_bit c (concat (map byte_bits xs))"
  by (induction xs arbitrary: c) (simp_all add: crc_byte_serial)

interpretation crc: incremental crc32 "\<lambda>_. True" id
  by unfold_locales (simp_all add: crc32_def)

text \<open>
  C25. The table-driven CRC, fed an archive in pieces of any size, is the bit-serial CRC-32 of the
  whole (register of ones, reflected polynomial \<open>0xedb88320\<close>, complemented result).
\<close>

theorem crc32_is_serial: "foldl crc32 0 pieces = crc32_serial (concat pieces)"
  using crc.view_foldl [of 0 pieces] by (simp add: crc32_def crc32_serial_def foldl_crc_byte)

subsection \<open>The buffer mirrors the retained object\<close>

definition segment :: "'a list \<Rightarrow> nat \<Rightarrow> nat \<Rightarrow> 'a list" where
  "segment xs a b = take (b - a) (drop a xs)"

lemma length_segment [simp]: "length (segment xs a b) = min (b - a) (length xs - a)"
  by (simp add: segment_def min.commute)

lemma segment_append: "a \<le> b \<Longrightarrow> b \<le> c \<Longrightarrow> segment xs a b @ segment xs b c = segment xs a c"
  using take_drop_split [of "b - a" "c - b" "drop a xs"] by (simp add: segment_def)

lemma drop_segment: "drop k (segment xs a b) = segment xs (a + k) b"
  by (simp add: segment_def drop_take add.commute)

lemma nth_default_segment: "k < b - a \<Longrightarrow> nth_default d (segment xs a b) k = nth_default d xs (a + k)"
  by (simp add: segment_def nth_default_take nth_default_drop)

text \<open>
  What is assumed of \<open>source.read\<close>: a read may fail, but one that returns the requested number of
  bytes returns those of the retained object. The etag is not constrained.
\<close>

definition serves :: "gunzip_source \<Rightarrow> bytes \<Rightarrow> bool" where
  "serves src obj \<longleftrightarrow> length obj = gs_length src \<and>
     (\<forall>at len read etag. gs_read src at len = Inr (read, etag) \<longrightarrow> length read = len \<longrightarrow> read = segment obj at (at + len))"

lemma serves_length: "serves src obj \<Longrightarrow> gs_length src = length obj"
  by (simp add: serves_def)

definition io_ok :: "bytes \<Rightarrow> gunzip \<Rightarrow> bool" where
  "io_ok obj s \<longleftrightarrow>
     bufferStart s \<le> g_bit s div 8 \<and> g_buffer s = segment obj (bufferStart s) (buffer_end s) \<and>
     buffer_end s \<le> rawHashed s \<and> rawHashed s \<le> length obj \<and>
     sha_inv (g_raw s) \<and> sha_view (g_raw s) = sha_view (sha_feed new_sha256 (take (rawHashed s) obj))"

lemma sha_feed_prefix:
  assumes "sha_inv h" and "sha_view h = sha_view (sha_feed new_sha256 m)"
  shows "sha_inv (sha_feed h xs)" "sha_view (sha_feed h xs) = sha_view (sha_feed new_sha256 (m @ xs))"
proof -
  show "sha_inv (sha_feed h xs)" using assms(1) by (rule sha.ok_feed)
  have "sha_view (sha_feed h xs) = sha_view (sha_feed (sha_feed new_sha256 m) xs)"
    using assms by (intro sha.feed_cong) (simp_all add: sha.ok_feed)
  then show "sha_view (sha_feed h xs) = sha_view (sha_feed new_sha256 (m @ xs))"
    by (simp add: sha.feed_append)
qed

lemma update_sha256_inv: "sha_inv h \<Longrightarrow> update_sha256 h xs = Inr (sha_feed h xs)"
  by (simp add: update_sha256_feed sha_inv_loop_ok)

lemma take_append_segment: "m \<le> n \<Longrightarrow> take m xs @ segment xs m n = take n xs"
  using take_drop_split [of m "n - m" xs] by (simp add: segment_def)

lemma hash_read_ok:
  assumes s: "sha_inv (g_raw s)" "sha_view (g_raw s) = sha_view (sha_feed new_sha256 (take (rawHashed s) obj))"
    and at: "at \<le> rawHashed s" and len: "at + len \<le> length obj" and read: "read = segment obj at (at + len)"
    and h: "hash_read at read s = Inr t"
  shows "sha_inv (g_raw t)" "sha_view (g_raw t) = sha_view (sha_feed new_sha256 (take (rawHashed t) obj))"
    "rawHashed t = max (rawHashed s) (at + len)"
proof -
  have lr: "length read = len" using len by (simp add: read)
  have "sha_inv (g_raw t) \<and> sha_view (g_raw t) = sha_view (sha_feed new_sha256 (take (rawHashed t) obj)) \<and>
    rawHashed t = max (rawHashed s) (at + len)"
  proof (cases "at + len > rawHashed s")
    case True
    have "drop (rawHashed s - at) read = segment obj (rawHashed s) (at + len)"
      using at by (simp add: read drop_segment)
    then have "t = s\<lparr>g_raw := sha_feed (g_raw s) (segment obj (rawHashed s) (at + len)), rawHashed := at + len\<rparr>"
      using h True s(1) by (simp add: hash_read_def lr update_sha256_inv)
    with True sha_feed_prefix [OF s, of "segment obj (rawHashed s) (at + len)"] show ?thesis
      by (simp add: take_append_segment max_def)
  next
    case False
    then have "t = s" using h by (simp add: hash_read_def lr)
    with False s show ?thesis by simp
  qed
  then show "sha_inv (g_raw t)" "sha_view (g_raw t) = sha_view (sha_feed new_sha256 (take (rawHashed t) obj))"
    "rawHashed t = max (rawHashed s) (at + len)" by simp_all
qed

lemma refill_io_ok:
  assumes src: "serves src obj" and s: "io_ok obj s" and more: "buffer_end s < gs_length src"
    and t: "refill src s = Inr t"
  shows "io_ok obj t"
proof -
  let ?at = "buffer_end s" and ?len = "min gunzipRangeBytes (gs_length src - buffer_end s)"
  let ?from = "min (g_bit s div 8) ?at"
  obtain read etag raw hashed where
    rd: "gs_read src ?at ?len = Inr (read, etag)" "length read = ?len" and
    h: "hash_read ?at read (s\<lparr>g_etag := Some etag\<rparr>) = Inr (s\<lparr>g_etag := Some etag, g_raw := raw, rawHashed := hashed\<rparr>)" and
    t': "t = merge_read ?at read (s\<lparr>g_etag := Some etag, g_raw := raw, rawHashed := hashed\<rparr>)"
    using refill_fields [OF t] by blast
  have read: "read = segment obj ?at (?at + ?len)" using src rd unfolding serves_def by blast
  have fits: "?at + ?len \<le> length obj" using more by (simp add: serves_length [OF src])
  have io: "bufferStart s \<le> g_bit s div 8" "g_buffer s = segment obj (bufferStart s) ?at" "?at \<le> rawHashed s"
    "rawHashed s \<le> length obj" "bufferStart s \<le> ?at"
    using s by (simp_all add: io_ok_def buffer_end_def)
  have "drop (?from - bufferStart s) (g_buffer s) = segment obj ?from ?at"
    unfolding io(2) using io(1,5) by (simp add: drop_segment)
  then have buf: "g_buffer t = segment obj ?from (?at + ?len)" "bufferStart t = ?from" "g_bit t = g_bit s"
    "rawHashed t = hashed" "g_raw t = raw"
    using segment_append [of ?from ?at "?at + ?len" obj] by (simp_all add: t' merge_read_def Let_def read)
  have "buffer_end t = ?at + ?len" by (rule refill_measure(3) [OF t io(1)])
  moreover have "sha_inv raw" "sha_view raw = sha_view (sha_feed new_sha256 (take hashed obj))"
    "hashed = max (rawHashed s) (?at + ?len)"
    using hash_read_ok [OF _ _ _ fits read h] s by (simp_all add: io_ok_def)
  ultimately show ?thesis using fits io by (simp add: io_ok_def buf)
qed

text \<open>\<open>#ensure\<close>: on success the bytes are buffered, otherwise everything up to the end is.\<close>

lemma ensure_spec:
  "serves src obj \<Longrightarrow> io_ok obj s \<Longrightarrow> ensure src n s = Inr (ok, t) \<Longrightarrow>
    io_ok obj t \<and> (ok \<longrightarrow> int n \<le> available t) \<and> (\<not> ok \<longrightarrow> buffer_end t = length obj)"
proof (induction src n s rule: ensure.induct)
  case (1 src n s)
  show ?case
  proof (cases "available s < int n")
    case short: True
    show ?thesis
    proof (cases "buffer_end s \<ge> gs_length src")
      case True
      have "buffer_end s \<le> length obj" using 1(3) by (simp add: io_ok_def)
      then show ?thesis
        using 1(3,4) short True serves_length [OF 1(2)] by (auto simp: ensure.simps [of src n s])
    next
      case False
      with 1(4) short obtain u where u: "refill src s = Inr u" "ensure src n u = Inr (ok, t)"
        by (auto simp: ensure.simps [of src n s] rbind_eq_Inr)
      show ?thesis
        using 1(1) [OF short False u(1) 1(2) refill_io_ok [OF 1(2) 1(3) _ u(1)] u(2)] False 1(2) by simp
    qed
  next
    case False
    then show ?thesis using 1(3,4) by (simp add: ensure.simps [of src n s])
  qed
qed

subsection \<open>What every method keeps\<close>

text \<open>The results of earlier \<open>next\<close> calls, which only \<open>emit\<close> and the trailer change.\<close>

definition results :: "gunzip \<Rightarrow> u32 \<times> nat \<times> sha256 \<times> string option" where
  "results s = (g_crc s, g_decoded s, g_output s, g_decodedDigest s)"

definition frame :: "gunzip \<Rightarrow> gunzip \<Rightarrow> bool" where
  "frame s t \<longleftrightarrow> results t = results s \<and> g_bit s \<le> g_bit t \<and> (\<exists>xs. g_out t = g_out s @ xs)"

lemma frame_refl [simp]: "frame s s"
  by (simp add: frame_def)

lemma frame_trans: "frame s t \<Longrightarrow> frame t u \<Longrightarrow> frame s u"
  by (auto simp: frame_def)

lemma same_decoder_frame: "same_decoder s t \<Longrightarrow> frame s t"
  by (simp add: same_decoder_def frame_def results_def)

text \<open>The tables in use are those of the recorded code lengths, within the bounds the constructor checks.\<close>

definition tables_ok :: "gunzip \<Rightarrow> bool" where
  "tables_ok s \<longleftrightarrow> (case g_lengths s of
      None \<Rightarrow> g_literals s = 0 \<and> map_sum id Some (huffmanTable fixedLengths 0 288) = Inr (g_literal s) \<and>
        map_sum id Some (huffmanTable fixedLengths 288 32) = Inr (g_distance s)
    | Some ls \<Rightarrow> g_literals s \<le> 286 \<and> g_literals s + 1 \<le> length ls \<and> length ls \<le> g_literals s + 30 \<and>
        list_all (\<lambda>l. l \<le> 15) ls \<and>
        map_sum id Some (huffmanTable ls 0 (g_literals s)) = Inr (g_literal s) \<and>
        map_sum id Some (huffmanTable ls (g_literals s) (length ls - g_literals s)) = Inr (g_distance s))"

definition gz_ok :: "bytes \<Rightarrow> gunzip \<Rightarrow> bool" where
  "gz_ok obj s \<longleftrightarrow> io_ok obj s \<and> g_bit s \<le> 8 * rawHashed s \<and> g_stored s \<le> 65535 \<and>
     (g_phase s = Ph_stored \<longrightarrow> g_bit s mod 8 = 0 \<and> g_bit s \<le> 8 * buffer_end s \<and> 0 < g_stored s) \<and>
     (g_phase s = Ph_codes \<longrightarrow> tables_ok s)"

lemma advance_fields [simp]:
  "g_buffer (advance n s) = g_buffer s" "bufferStart (advance n s) = bufferStart s" "g_bit (advance n s) = g_bit s + n"
  "g_phase (advance n s) = g_phase s" "g_final (advance n s) = g_final s" "g_stored (advance n s) = g_stored s"
  "g_lengths (advance n s) = g_lengths s" "g_literals (advance n s) = g_literals s"
  "g_literal (advance n s) = g_literal s" "g_distance (advance n s) = g_distance s" "g_crc (advance n s) = g_crc s"
  "g_decoded (advance n s) = g_decoded s" "rawHashed (advance n s) = rawHashed s" "g_raw (advance n s) = g_raw s"
  "g_output (advance n s) = g_output s" "g_etag (advance n s) = g_etag s" "g_out (advance n s) = g_out s"
  "g_decodedDigest (advance n s) = g_decodedDigest s" "buffer_end (advance n s) = buffer_end s"
  by (simp_all add: advance_def buffer_end_def)

lemma io_ok_advance: "io_ok obj s \<Longrightarrow> io_ok obj (advance n s)"
  by (auto simp: io_ok_def intro: le_trans div_le_mono)

lemma frame_advance [simp]: "frame s (advance n s)"
  by (simp add: frame_def results_def)

lemma peek_less: "peek n s < 2 ^ n"
  by (simp add: peek_def unat_mask_less)

lemma available_bits:
  assumes "int n \<le> available s"
  shows "g_bit s div 8 + n \<le> buffer_end s" and "g_bit s + 8 * n \<le> 8 * buffer_end s + g_bit s mod 8"
proof -
  show le: "g_bit s div 8 + n \<le> buffer_end s" using assms by (simp add: available_def)
  show "g_bit s + 8 * n \<le> 8 * buffer_end s + g_bit s mod 8" using le div_mult_mod_eq [of "g_bit s" 8] by linarith
qed

text \<open>Header bytes: the cursor stays byte-aligned and within what was read and hashed.\<close>

definition hdr_ok :: "bytes \<Rightarrow> gunzip \<Rightarrow> gunzip \<Rightarrow> bool" where
  "hdr_ok obj s t \<longleftrightarrow> io_ok obj t \<and> g_bit t mod 8 = 0 \<and> g_bit t \<le> 8 * rawHashed t \<and> frame s t \<and> g_stored t = g_stored s \<and> g_out t = g_out s"

lemma byte_hdr_ok:
  assumes src: "serves src obj" and t: "hdr_ok obj s t" and b: "byte src t = Inr (v, u)"
  shows "hdr_ok obj s u"
proof -
  from b obtain w where w: "ensure src 1 t = Inr (True, w)" "u = advance 8 w"
    by (auto simp: byte_def bits_def rbind_eq_Inr split: if_splits)
  have io: "io_ok obj w" "1 \<le> available w"
    using ensure_spec [OF src _ w(1)] t by (simp_all add: hdr_ok_def)
  note same = ensure_same_decoder [OF w(1)]
  have bit: "g_bit w = g_bit t" "g_bit t mod 8 = 0" using same t by (simp_all add: same_decoder_def hdr_ok_def)
  then have "g_bit w + 8 \<le> 8 * buffer_end w" using available_bits(2) [of 1 w] io(2) by simp
  moreover have "buffer_end w \<le> rawHashed w" using io(1) by (simp add: io_ok_def)
  ultimately have "g_bit w + 8 \<le> 8 * rawHashed w" by linarith
  moreover have "frame s u" unfolding w(2)
    using t same_decoder_frame [OF same] by (meson hdr_ok_def frame_trans frame_advance)
  ultimately show ?thesis
    using t io same bit by (auto simp: hdr_ok_def w(2) same_decoder_def mod_add_eq intro: io_ok_advance)
qed

lemma header_byte_hdr_ok:
  assumes "serves src obj" and "hdr_ok obj s (snd h)" and "header_byte src h = Inr (v, h')"
  shows "hdr_ok obj s (snd h')"
  using assms by (cases h) (auto simp: header_byte_def rbind_eq_Inr intro: byte_hdr_ok)

lemma header_skip_hdr_ok:
  "serves src obj \<Longrightarrow> hdr_ok obj s (snd h) \<Longrightarrow> header_skip src n h = Inr h' \<Longrightarrow> hdr_ok obj s (snd h')"
proof (induction n arbitrary: h)
  case (Suc n)
  from Suc.prems(3) obtain v h1 where "header_byte src h = Inr (v, h1)" "header_skip src n h1 = Inr h'"
    by (auto simp: rbind_eq_Inr)
  with Suc show ?case by (blast intro: header_byte_hdr_ok)
qed simp

lemma header_text_hdr_ok:
  "serves src obj \<Longrightarrow> hdr_ok obj s (snd h) \<Longrightarrow> header_text src len h = Inr h' \<Longrightarrow> hdr_ok obj s (snd h')"
proof (induction src len h rule: header_text.induct)
  case (1 src len h)
  from 1(4) obtain v h1 where step: "\<not> len > 65536" "header_byte src h = Inr (v, h1)"
    and rest: "(if v = 0 then Inr h1 else header_text src (len + 1) h1) = Inr h'"
    by (subst (asm) header_text.simps) (auto simp: rbind_eq_Inr split: if_splits)
  have ok: "hdr_ok obj s (snd h1)" using 1(2,3) step(2) by (rule header_byte_hdr_ok)
  show ?case
  proof (cases "v = 0")
    case True
    then show ?thesis using rest ok by simp
  next
    case False
    then show ?thesis using 1(1) [OF step refl _ 1(2) ok] rest by simp
  qed
qed

lemma header_part_hdr_ok:
  assumes "serves src obj" and "hdr_ok obj s (snd h)"
  shows "header_expect src e h = Inr h' \<Longrightarrow> hdr_ok obj s (snd h')"
    and "header_extra src h = Inr h' \<Longrightarrow> hdr_ok obj s (snd h')"
    and "header_check src h = Inr h' \<Longrightarrow> hdr_ok obj s (snd h')"
  subgoal
    using assms by (auto simp: header_expect_def rbind_eq_Inr split: if_splits dest: header_byte_hdr_ok)
  subgoal
    using assms unfolding header_extra_def rbind_eq_Inr
    by (auto simp: rbind_eq_Inr elim!: header_skip_hdr_ok [rotated 2] dest: header_byte_hdr_ok)
  subgoal
    using assms by (cases h) (auto simp: header_check_def rbind_eq_Inr split: if_splits intro: byte_hdr_ok)
  done

lemma optionally_hdr_ok:
  assumes "optionally b f h = Inr h'" and "hdr_ok obj s (snd h)" and "hdr_ok obj s (snd h) \<Longrightarrow> f h = Inr h' \<Longrightarrow> hdr_ok obj s (snd h')"
  shows "hdr_ok obj s (snd h')"
  using assms by (auto simp: optionally_def split: if_splits)

lemma header_ok:
  assumes src: "serves src obj" and s: "gz_ok obj s" and t: "header src s = Inr t"
  shows "gz_ok obj t \<and> frame s t \<and> g_out t = g_out s \<and> g_phase t = Ph_block"
proof -
  from t obtain h1 h2 h3 flags h4 h5 h6 h7 h8 crc u where bit0: "g_bit s = 0"
    and h: "header_expect src 31 (0, s) = Inr h1" "header_expect src 139 h1 = Inr h2" "header_expect src 8 h2 = Inr h3"
      "header_byte src h3 = Inr (flags, h4)" "header_skip src 6 h4 = Inr h5"
      "optionally (bit flags 2) (header_extra src) h5 = Inr h6" "optionally (bit flags 3) (header_text src 0) h6 = Inr h7"
      "optionally (bit flags 4) (header_text src 0) h7 = Inr h8" "optionally (bit flags 1) (header_check src) h8 = Inr (crc, u)"
    and t': "t = u\<lparr>g_phase := Ph_block\<rparr>"
    by (auto simp: header_def rbind_eq_Inr split: if_splits)
  have "hdr_ok obj s (snd (0, s))" using s bit0 by (simp add: hdr_ok_def gz_ok_def)
  then have "hdr_ok obj s (snd h1)" by (rule header_part_hdr_ok(1) [OF src _ h(1)])
  then have "hdr_ok obj s (snd h2)" by (rule header_part_hdr_ok(1) [OF src _ h(2)])
  then have "hdr_ok obj s (snd h3)" by (rule header_part_hdr_ok(1) [OF src _ h(3)])
  then have "hdr_ok obj s (snd h4)" by (rule header_byte_hdr_ok [OF src _ h(4)])
  then have "hdr_ok obj s (snd h5)" by (rule header_skip_hdr_ok [OF src _ h(5)])
  then have "hdr_ok obj s (snd h6)" by (rule optionally_hdr_ok [OF h(6)]) (rule header_part_hdr_ok(2) [OF src])
  then have "hdr_ok obj s (snd h7)" by (rule optionally_hdr_ok [OF h(7)]) (rule header_text_hdr_ok [OF src])
  then have "hdr_ok obj s (snd h8)" by (rule optionally_hdr_ok [OF h(8)]) (rule header_text_hdr_ok [OF src])
  then have "hdr_ok obj s (snd (crc, u))" by (rule optionally_hdr_ok [OF h(9)]) (rule header_part_hdr_ok(3) [OF src])
  with s show ?thesis
    by (simp add: t' hdr_ok_def gz_ok_def frame_def results_def io_ok_def buffer_end_def)
qed

text \<open>Reading at most \<open>n\<close> bits from the buffer, without refilling it.\<close>

definition moved :: "nat \<Rightarrow> gunzip \<Rightarrow> gunzip \<Rightarrow> bool" where
  "moved n s t \<longleftrightarrow> g_buffer t = g_buffer s \<and> bufferStart t = bufferStart s \<and> rawHashed t = rawHashed s \<and>
     g_raw t = g_raw s \<and> results t = results s \<and> g_out t = g_out s \<and> g_stored t = g_stored s \<and>
     g_bit s \<le> g_bit t \<and> g_bit t \<le> g_bit s + n"

lemma moved_refl [simp]: "moved n s s"
  by (simp add: moved_def)

lemma moved_advance: "k \<le> n \<Longrightarrow> moved n s (advance k s)"
  by (simp add: moved_def results_def)

lemma moved_trans: "moved m s t \<Longrightarrow> moved n t u \<Longrightarrow> m + n \<le> k \<Longrightarrow> moved k s u"
  by (simp add: moved_def)

lemma moved_io_ok: "moved n s t \<Longrightarrow> io_ok obj s \<Longrightarrow> io_ok obj t"
  by (auto simp: moved_def io_ok_def buffer_end_def intro: le_trans div_le_mono)

lemma moved_frame: "moved n s t \<Longrightarrow> frame s t"
  by (simp add: moved_def frame_def)

lemma read_length_moved:
  assumes "read_length tbl (ls, s) = Inr (ls', t)" and "list_all (\<lambda>l. l \<le> 15) ls"
  shows "moved 22 s t \<and> length ls < length ls' \<and> list_all (\<lambda>l. l \<le> 15) ls'"
proof -
  let ?e = "nth_default 0 (entries tbl) (peek (t_bits tbl) s)"
  have e: "?e mod 16 \<le> 15" using mod_less_divisor [of 16 ?e] by linarith
  have m: "moved 15 s (advance (?e mod 16) s)" "moved 22 s (advance 2 (advance (?e mod 16) s))"
    "moved 22 s (advance 3 (advance (?e mod 16) s))" "moved 22 s (advance 7 (advance (?e mod 16) s))"
    using e by (simp_all add: moved_def results_def)
  have "last ls \<le> 15" if "ls \<noteq> []" using that assms(2) by (simp add: list_all_iff)
  then show ?thesis
    using assms m moved_trans [OF m(1), of 0 t 22] read_length_longer [OF assms(1)]
    by (auto simp: read_length_def bits_def Let_def list_all_iff split: if_splits)
qed

lemma read_lengths_moved:
  "read_lengths tbl wanted st = Inr st' \<Longrightarrow> list_all (\<lambda>l. l \<le> 15) (fst st) \<Longrightarrow>
    moved (22 * (wanted - length (fst st))) (snd st) (snd st') \<and> list_all (\<lambda>l. l \<le> 15) (fst st')"
proof (induction tbl wanted st rule: read_lengths.induct)
  case (1 tbl wanted st)
  show ?case
  proof (cases "length (fst st) < wanted")
    case True
    with 1(2) obtain st1 where st1: "read_length tbl st = Inr st1" "read_lengths tbl wanted st1 = Inr st'"
      by (auto simp: read_lengths.simps [of tbl wanted st] rbind_eq_Inr)
    have step: "moved 22 (snd st) (snd st1)" "length (fst st) < length (fst st1)" "list_all (\<lambda>l. l \<le> 15) (fst st1)"
      using read_length_moved [of tbl "fst st" "snd st" "fst st1" "snd st1"] st1(1) 1(3) by simp_all
    have le: "22 + 22 * (wanted - length (fst st1)) \<le> 22 * (wanted - length (fst st))"
      using step(2) True by linarith
    show ?thesis
      using 1(1) [OF True st1(1) st1(2) step(3)] moved_trans [OF step(1) _ le] by blast
  next
    case False
    then show ?thesis using 1(2,3) by (simp add: read_lengths.simps [of tbl wanted st])
  qed
qed

lemma read_code_lengths_moved: "moved (3 * length is) s (snd (foldl read_code_length (ls, s) is))"
proof (induction "is" arbitrary: ls s)
  case (Cons i "is")
  let ?s = "advance 3 s"
  have "moved (3 * length (i # is)) s (snd (foldl read_code_length (ls[codeLengthOrder ! i := peek 3 s], ?s) is))"
    by (rule moved_trans [OF moved_advance [OF order_refl] Cons]) simp
  then show ?case by (simp add: read_code_length_def bits_def)
qed simp

lemma useDynamic_moved:
  assumes "useDynamic lengths literals s = Inr t"
    and "literals \<le> 286" "literals + 1 \<le> length lengths" "length lengths \<le> literals + 30" "list_all (\<lambda>l. l \<le> 15) lengths"
  shows "moved 0 s t" "tables_ok t" "g_final t = g_final s"
  using assms by (auto simp: useDynamic_def rbind_eq_Inr moved_def results_def tables_ok_def)

lemma useFixed_moved:
  assumes "useFixed s = Inr t"
  shows "moved 0 s t" "tables_ok t" "g_final t = g_final s"
  using assms by (auto simp: useFixed_def rbind_eq_Inr moved_def results_def tables_ok_def)

lemma moved_phase: "moved n s (t\<lparr>g_phase := p\<rparr>) = moved n s t" "tables_ok (t\<lparr>g_phase := p\<rparr>) = tables_ok t"
  by (simp_all add: moved_def results_def tables_ok_def split: option.split)

lemma dynamic_header_moved:
  assumes "dynamic_header s = Inr t"
  shows "moved 7023 s t" "tables_ok t" "g_phase t = Ph_codes"
proof -
  let ?s1 = "advance 4 (advance 5 (advance 5 s))"
  let ?lits = "peek 5 s + 257" and ?dists = "peek 5 (advance 5 s) + 1"
  let ?n = "peek 4 (advance 5 (advance 5 s)) + 4"
  obtain cls s2 where cls: "foldl read_code_length (replicate 19 0, ?s1) [0..<?n] = (cls, s2)" by fastforce
  from assms obtain tbl ls s3 u where bounds: "?lits \<le> 286" "?dists \<le> 30"
    and r: "huffmanTable cls 0 19 = Inr tbl" "read_lengths tbl (?lits + ?dists) ([], s2) = Inr (ls, s3)"
    and len: "length ls = ?lits + ?dists" and u: "useDynamic ls ?lits s3 = Inr u" "t = u\<lparr>g_phase := Ph_codes\<rparr>"
    unfolding dynamic_header_def bits_def Let_def prod.case cls
    by (auto simp: rbind_eq_Inr split: if_splits)
  have "?n \<le> 19" using peek_less [of 4 "advance 5 (advance 5 s)"] by simp
  then have m2: "moved 57 ?s1 s2" using read_code_lengths_moved [of "[0..<?n]" ?s1 "replicate 19 0"]
    by (simp only: cls snd_conv length_upt) (auto simp: moved_def)
  have m3: "moved 6952 s2 s3" "list_all (\<lambda>l. l \<le> 15) ls"
    using read_lengths_moved [OF r(2)] bounds by (auto simp: moved_def)
  have m1: "moved 14 s ?s1" by (simp add: moved_def results_def)
  note d = useDynamic_moved [OF u(1) bounds(1) _ _ m3(2)]
  have m4: "moved 0 s3 u" "tables_ok u" using d len bounds by simp_all
  have "moved 7023 s u"
    by (rule moved_trans [OF m1 moved_trans [OF m2 moved_trans [OF m3(1) m4(1) order_refl] order_refl]]) simp
  then show "moved 7023 s t" "tables_ok t" "g_phase t = Ph_codes"
    using m4(2) by (simp_all add: u(2) moved_phase)
qed

lemma align_bit: "g_bit s \<le> g_bit (align s)" "g_bit (align s) mod 8 = 0" "g_bit (align s) \<le> g_bit s + 7"
  by (simp_all add: align_def)

lemma align_fields [simp]:
  "g_buffer (align s) = g_buffer s" "bufferStart (align s) = bufferStart s" "g_phase (align s) = g_phase s"
  "g_stored (align s) = g_stored s" "rawHashed (align s) = rawHashed s" "g_raw (align s) = g_raw s"
  "g_out (align s) = g_out s" "results (align s) = results s" "buffer_end (align s) = buffer_end s"
  by (simp_all add: align_def results_def buffer_end_def)

lemma align_io_ok: "io_ok obj s \<Longrightarrow> io_ok obj (align s)"
  using align_bit(1) [of s] by (auto simp: io_ok_def intro: le_trans div_le_mono)

lemma align_frame: "frame s (align s)"
  using align_bit(1) [of s] by (simp add: frame_def)

lemma ensure_aligned:
  assumes "serves src obj" "io_ok obj s" "ensure src n (align s) = Inr (True, w)"
  shows "io_ok obj w" "g_bit w mod 8 = 0" "g_bit w + 8 * n \<le> 8 * buffer_end w" "g_bit s \<le> g_bit w"
    "frame s w" "buffer_end w \<le> rawHashed w" "g_out w = g_out s"
proof -
  note e = ensure_spec [OF assms(1) align_io_ok [OF assms(2)] assms(3)]
  note same = ensure_same_decoder [OF assms(3)]
  show "io_ok obj w" "buffer_end w \<le> rawHashed w" using e by (simp_all add: io_ok_def)
  show m: "g_bit w mod 8 = 0" "g_bit s \<le> g_bit w" "g_out w = g_out s"
    using same align_bit [of s] by (simp_all add: same_decoder_def align_def)
  show "g_bit w + 8 * n \<le> 8 * buffer_end w" using available_bits(2) [of n w] e m by simp
  show "frame s w" using align_frame same_decoder_frame [OF same] by (rule frame_trans)
qed

lemma frame_record_simps [simp]:
  "frame s (t\<lparr>g_phase := p\<rparr>) = frame s t" "frame s (t\<lparr>g_stored := n\<rparr>) = frame s t" "frame s (t\<lparr>g_final := f\<rparr>) = frame s t"
  "io_ok obj (t\<lparr>g_phase := p\<rparr>) = io_ok obj t" "io_ok obj (t\<lparr>g_stored := n\<rparr>) = io_ok obj t"
  "io_ok obj (t\<lparr>g_final := f\<rparr>) = io_ok obj t"
  "buffer_end (t\<lparr>g_phase := p\<rparr>) = buffer_end t" "buffer_end (t\<lparr>g_stored := n\<rparr>) = buffer_end t"
  "buffer_end (t\<lparr>g_final := f\<rparr>) = buffer_end t"
  by (simp_all add: frame_def results_def io_ok_def buffer_end_def)

lemma stored_header_ok:
  assumes src: "serves src obj" and s: "io_ok obj s" and t: "stored_header src s = Inr t"
  shows "gz_ok obj t \<and> frame s t \<and> g_out t = g_out s \<and> g_phase t \<in> {Ph_stored, Ph_block, Ph_trailer}"
proof -
  from t obtain w where w: "ensure src 4 (align s) = Inr (True, w)"
    and t': "t = (advance 16 (advance 16 w))\<lparr>g_stored := peek 16 w,
        g_phase := (if peek 16 w = 0 then after_block (advance 16 (advance 16 w)) else Ph_stored)\<rparr>"
    by (auto simp: stored_header_def bits_def rbind_eq_Inr Let_def split: if_splits)
  note e = ensure_aligned [OF src s w]
  have "frame s (advance 16 (advance 16 w))" by (meson e(5) frame_trans frame_advance)
  moreover have "io_ok obj (advance 16 (advance 16 w))" using e(1) by (simp add: io_ok_advance)
  moreover have "peek 16 w \<le> 65535" using peek_less [of 16 w] by simp
  ultimately show ?thesis
    using e by (auto simp: t' gz_ok_def after_block_def mod_add_eq)
qed

lemma after_blockHeader:
  assumes src: "serves src obj" and u: "io_ok obj u" "ok \<longrightarrow> 1024 \<le> available u" "\<not> ok \<longrightarrow> buffer_end u = length obj"
    and m: "moved 7026 u t" "g_phase t = Ph_codes" "tables_ok t" "g_bit t \<le> gs_length src * 8" "g_stored u \<le> 65535"
  shows "gz_ok obj t"
proof -
  have io: "io_ok obj t" using m(1) u(1) by (rule moved_io_ok)
  have le: "buffer_end u \<le> rawHashed u" using u(1) by (simp add: io_ok_def)
  have "g_bit t \<le> 8 * rawHashed t"
  proof (cases ok)
    case True
    then have "g_bit u + 8192 \<le> 8 * buffer_end u + g_bit u mod 8" using available_bits(2) [of 1024 u] u(2) by simp
    moreover have "g_bit u mod 8 < 8" by simp
    ultimately show ?thesis using m(1) le unfolding moved_def by linarith
  next
    case False
    then show ?thesis using u(3) le m(1,4) serves_length [OF src] unfolding moved_def by simp
  qed
  with io m show ?thesis by (simp add: gz_ok_def moved_def)
qed

lemma moved_final: "moved n s (advance 2 ((advance 1 s)\<lparr>g_final := f\<rparr>)) = (3 \<le> n)"
  by (auto simp: moved_def results_def)

lemma blockHeader_ok:
  assumes src: "serves src obj" and s: "gz_ok obj s" and t: "blockHeader src s = Inr t"
  shows "gz_ok obj t \<and> frame s t \<and> g_out t = g_out s \<and> g_bit s < g_bit t \<and> g_bit t \<le> 8 * length obj \<and>
    g_phase t \<in> {Ph_stored, Ph_codes, Ph_block, Ph_trailer}"
proof -
  from t obtain ok u where u: "ensure src 1024 s = Inr (ok, u)"
    and body: "\<exists>f. let v = advance 2 ((advance 1 u)\<lparr>g_final := f\<rparr>) in
      stored_header src v = Inr t \<or> (\<exists>w. useFixed v = Inr w \<and> t = w\<lparr>g_phase := Ph_codes\<rparr>) \<or> dynamic_header v = Inr t"
    and bit: "g_bit t \<le> gs_length src * 8"
    by (auto simp: blockHeader_def headerLookahead_def bits_def rbind_eq_Inr Let_def split: if_splits)
  then obtain f v where v: "v = advance 2 ((advance 1 u)\<lparr>g_final := f\<rparr>)"
    and cases: "stored_header src v = Inr t \<or> (\<exists>w. useFixed v = Inr w \<and> t = w\<lparr>g_phase := Ph_codes\<rparr>) \<or> dynamic_header v = Inr t"
    by (auto simp: Let_def)
  have e: "io_ok obj u" "ok \<longrightarrow> 1024 \<le> available u" "\<not> ok \<longrightarrow> buffer_end u = length obj"
    using ensure_spec [OF src _ u] s by (simp_all add: gz_ok_def)
  note same = ensure_same_decoder [OF u]
  have mv: "moved 3 u v" using moved_final [of 3 u f] by (simp only: v order_refl)
  have fv: "frame s v" using same_decoder_frame [OF same] moved_frame [OF mv] by (rule frame_trans)
  have lt: "g_bit s < g_bit v" using same by (simp add: v same_decoder_def)
  have st: "g_stored u \<le> 65535" using same s by (simp add: same_decoder_def gz_ok_def)
  have gv: "g_out v = g_out s" using mv same by (simp add: moved_def same_decoder_def)
  have "gz_ok obj t \<and> frame v t \<and> g_out t = g_out v \<and> g_phase t \<in> {Ph_stored, Ph_codes, Ph_block, Ph_trailer}"
    using cases
  proof (elim disjE exE conjE)
    assume "stored_header src v = Inr t"
    then show ?thesis using stored_header_ok [OF src moved_io_ok [OF mv e(1)]] by blast
  next
    fix w assume w: "useFixed v = Inr w" "t = w\<lparr>g_phase := Ph_codes\<rparr>"
    have "moved 0 v t" "tables_ok t" "frame v w" "g_out w = g_out v"
      using useFixed_moved [OF w(1)] by (simp_all add: w(2) moved_phase moved_frame) (simp add: moved_def)
    with after_blockHeader [OF src e _ _ _ bit st] moved_trans [OF mv, of 0 t 7026] w(2) show ?thesis
      by (simp add: moved_frame)
  next
    assume "dynamic_header v = Inr t"
    then have "moved 7023 v t" "tables_ok t" "g_phase t = Ph_codes" by (rule dynamic_header_moved)+
    with after_blockHeader [OF src e _ _ _ bit st] moved_trans [OF mv, of 7023 t 7026] show ?thesis
      by (simp add: moved_frame) (simp add: moved_def)
  qed
  moreover from this fv have "frame s t" by (blast intro: frame_trans)
  moreover from calculation lt have "g_bit s < g_bit t" unfolding frame_def by linarith
  ultimately show ?thesis using bit serves_length [OF src] gv by simp
qed

lemma stored_copy_ok:
  assumes io: "io_ok obj s" and al: "g_bit s mod 8 = 0" and st: "0 < g_stored s" "g_stored s \<le> 65535"
    and av: "1 \<le> available s" and room: "length (g_out s) < out_limit" and ph: "g_phase s = Ph_stored"
  shows "gz_ok obj (stored_copy s) \<and> frame s (stored_copy s) \<and>
    length (g_out s) < length (g_out (stored_copy s)) \<and> length (g_out (stored_copy s)) \<le> out_limit \<and>
    g_phase (stored_copy s) \<in> {g_phase s, Ph_block, Ph_trailer}"
proof -
  define count where "count = nat (min (min (int (g_stored s)) (available s)) (int out_limit - int (length (g_out s))))"
  let ?from = "g_bit s div 8 - bufferStart s"
  let ?new = "take count (drop ?from (g_buffer s))"
  define t where "t = s\<lparr>g_out := g_out s @ ?new, g_bit := g_bit s + 8 * count, g_stored := g_stored s - count\<rparr>"
  have c: "min (min (int (g_stored s)) (available s)) (int out_limit - int (length (g_out s))) = int count"
    "0 < count" "count \<le> g_stored s" "int count \<le> available s" "length (g_out s) + count \<le> out_limit"
    using st av room by (simp_all add: count_def)
  have fit: "g_bit s + 8 * count \<le> 8 * buffer_end s" using available_bits(2) [OF c(4)] al by simp
  have "count \<le> length (g_buffer s) - ?from"
    using available_bits(1) [OF c(4)] io by (simp add: io_ok_def buffer_end_def)
  then have len: "length ?new = count" by simp
  have n1: "nat (int (g_bit s) + int count * 8) = g_bit s + 8 * count" by simp
  have n2: "nat (int (g_stored s) - int count) = g_stored s - count" by simp
  have sc: "stored_copy s = (if g_stored t = 0 then t\<lparr>g_phase := after_block t\<rparr> else t)"
    unfolding stored_copy_def c(1) Let_def n1 n2 nat_int t_def ..
  have "io_ok obj t" "buffer_end t = buffer_end s" "frame s t"
    using io by (auto simp: t_def io_ok_def buffer_end_def frame_def results_def intro: le_trans div_le_mono)
  moreover have "buffer_end s \<le> rawHashed s" using io by (simp add: io_ok_def)
  moreover have "g_bit t = g_bit s + 8 * count" "g_stored t = g_stored s - count" "rawHashed t = rawHashed s"
    "length (g_out t) = length (g_out s) + count" "g_phase t = g_phase s"
    using len by (simp_all add: t_def)
  ultimately show ?thesis
    using c fit al st sc ph by (auto simp: gz_ok_def after_block_def mod_add_eq)
qed

lemma storedBytes_ok:
  assumes src: "serves src obj" and s: "gz_ok obj s" "g_phase s = Ph_stored" and room: "length (g_out s) < out_limit"
    and t: "storedBytes src s = Inr t"
  shows "gz_ok obj t \<and> frame s t \<and> length (g_out s) < length (g_out t) \<and> length (g_out t) \<le> out_limit \<and>
    g_phase t \<in> {Ph_stored, Ph_block, Ph_trailer}"
proof (cases "available s = 0")
  case True
  with t obtain w where w: "ensure src 1 s = Inr (True, w)" "t = stored_copy w"
    by (auto simp: storedBytes_def rbind_eq_Inr split: if_splits)
  have e: "io_ok obj w" "1 \<le> available w" using ensure_spec [OF src _ w(1)] s by (simp_all add: gz_ok_def)
  note same = ensure_same_decoder [OF w(1)]
  have "g_bit w mod 8 = 0" "0 < g_stored w" "g_stored w \<le> 65535" "g_out w = g_out s" "g_phase w = Ph_stored"
    using same s by (simp_all add: same_decoder_def gz_ok_def)
  with stored_copy_ok [OF e(1) _ _ _ e(2)] room frame_trans [OF same_decoder_frame [OF same], of t] show ?thesis
    by (auto simp: w(2))
next
  case False
  have "g_bit s \<le> 8 * buffer_end s" using s by (simp add: gz_ok_def)
  then have "g_bit s div 8 \<le> buffer_end s" by linarith
  with False have "1 \<le> available s" by (simp add: available_def)
  with stored_copy_ok [of obj s] s room t False show ?thesis
    by (auto simp: storedBytes_def gz_ok_def)
qed

subsection \<open>Compressed blocks\<close>

text \<open>What decoding symbols keeps, and by how much it moves the cursor and the output.\<close>

definition symbols :: "gunzip \<Rightarrow> gunzip \<Rightarrow> bool" where
  "symbols s t \<longleftrightarrow> g_buffer t = g_buffer s \<and> bufferStart t = bufferStart s \<and> rawHashed t = rawHashed s \<and>
     g_raw t = g_raw s \<and> g_lengths t = g_lengths s \<and> g_literals t = g_literals s \<and> g_literal t = g_literal s \<and>
     g_distance t = g_distance s \<and> g_stored t = g_stored s \<and> frame s t"

lemma symbols_refl [simp]: "symbols s s"
  by (simp add: symbols_def)

lemma symbols_trans: "symbols s t \<Longrightarrow> symbols t u \<Longrightarrow> symbols s u"
  by (auto simp: symbols_def intro: frame_trans)

lemma symbols_io_ok: "symbols s t \<Longrightarrow> io_ok obj s \<Longrightarrow> io_ok obj t"
  by (auto simp: symbols_def frame_def io_ok_def buffer_end_def intro: le_trans div_le_mono)

lemma symbols_keeps: "symbols s t \<Longrightarrow> tables_ok s \<Longrightarrow> tables_ok t" "symbols s t \<Longrightarrow> buffer_end t = buffer_end s"
  by (auto simp: symbols_def tables_ok_def buffer_end_def split: option.splits)

lemma copy_match_append: "\<exists>xs. copy_match n back out = out @ xs"
proof (induction n arbitrary: out)
  case (Suc n)
  then obtain xs where "copy_match n back (out @ [out ! (length out - back)]) = (out @ [out ! (length out - back)]) @ xs"
    by blast
  then show ?case by simp
qed simp

lemma length_code_bounds: "i < 29 \<Longrightarrow> lengthBase ! i + 2 ^ (lengthExtra ! i) \<le> 259 \<and> lengthExtra ! i \<le> 5"
proof -
  assume i: "i < 29"
  have "list_all (\<lambda>(b, e). b + 2 ^ e \<le> (259 :: nat) \<and> e \<le> 5) (zip lengthBase lengthExtra)"
    by (simp add: lengthBase_def lengthExtra_def)
  moreover have "length lengthBase = 29" "length lengthExtra = 29" by (simp_all add: lengthBase_def lengthExtra_def)
  ultimately show ?thesis using i by (simp add: list_all_length)
qed

lemma distanceExtra_bound: "i < 30 \<Longrightarrow> distanceExtra ! i \<le> 13"
proof -
  assume "i < 30"
  moreover have "list_all (\<lambda>e. e \<le> 13) distanceExtra" "length distanceExtra = 30" by (simp_all add: distanceExtra_def)
  ultimately show ?thesis by (simp add: list_all_length)
qed

lemma mod_16_le: "(n :: nat) mod 16 \<le> 15"
  using mod_less_divisor [of 16 n] by linarith

lemma decode_match_symbols:
  assumes d: "decode_match src distance atEnd i s = Inr t" and i: "i < 29"
  shows "symbols s t \<and> g_phase t = g_phase s \<and> g_bit t \<le> g_bit s + 33 \<and> length (g_out t) \<le> length (g_out s) + 258"
proof -
  let ?s1 = "advance (lengthExtra ! i) s"
  let ?e = "nth_default 0 (entries distance) (peek (t_bits distance) ?s1)"
  let ?s2 = "advance (?e mod 16) ?s1" and ?sym = "?e div 16"
  let ?s3 = "advance (distanceExtra ! ?sym) ?s2"
  let ?len = "lengthBase ! i + peek (lengthExtra ! i) s" and ?far = "distanceBase ! ?sym + peek (distanceExtra ! ?sym) ?s2"
  from d have t: "t = ?s3\<lparr>g_out := copy_match ?len ?far (g_out s)\<rparr>" and sym: "?sym < 30"
    by (auto simp: decode_match_def bits_def Let_def split: if_splits)
  have "?len \<le> 258" using length_code_bounds [OF i] peek_less [of "lengthExtra ! i" s] by linarith
  moreover have "g_bit ?s3 \<le> g_bit s + 33"
    using length_code_bounds [OF i] distanceExtra_bound [OF sym] mod_16_le [of ?e] by simp
  ultimately show ?thesis
    using copy_match_append [of ?len ?far "g_out s"]
    by (simp add: t symbols_def frame_def results_def length_copy_match)
qed

lemma decode_symbol_symbols:
  assumes "decode_symbol src literal distance atEnd s = Inr (r, t)"
  shows "symbols s t \<and> g_bit t \<le> g_bit s + 48 \<and> length (g_out t) \<le> length (g_out s) + 258 \<and>
    (r \<longrightarrow> g_phase t \<in> {Ph_block, Ph_trailer} \<and> g_bit t \<le> gs_length src * 8) \<and> (\<not> r \<longrightarrow> g_phase t = g_phase s)"
proof -
  let ?e = "nth_default 0 (entries literal) (peek (t_bits literal) s)"
  let ?s = "advance (?e mod 16) s"
  have e: "?e mod 16 \<le> 15" by (rule mod_16_le)
  have s: "symbols s ?s" by (simp add: symbols_def)
  consider (lit) "r = False" "t = ?s\<lparr>g_out := g_out s @ [of_nat (?e div 16)]\<rparr>"
    | (stop) "r" "t = ?s\<lparr>g_phase := after_block ?s\<rparr>" "g_bit t \<le> gs_length src * 8"
    | (match) "r = False" "?e div 16 - 257 < 29" "decode_match src distance atEnd (?e div 16 - 257) ?s = Inr t"
    using assms by (auto simp: decode_symbol_def Let_def rbind_eq_Inr split: if_splits)
  then show ?thesis
  proof cases
    case lit
    then show ?thesis using e by (simp add: symbols_def frame_def results_def)
  next
    case stop
    then show ?thesis using e by (simp add: symbols_def frame_def results_def after_block_def)
  next
    case match
    then show ?thesis
      using decode_match_symbols [OF match(3,2)] e symbols_trans [OF s, of t] by simp
  qed
qed

lemma decode_run_symbols:
  assumes "decode_run src literal distance bufferEnd atEnd s = Inr (r, t)" and "length (g_out s) \<le> out_limit + 257"
  shows "symbols s t \<and> length (g_out t) \<le> out_limit + 257 \<and>
    (\<not> atEnd \<longrightarrow> int (g_bit t) \<le> max (int (g_bit s)) (bufferEnd + 48)) \<and>
    (r \<longrightarrow> g_phase t \<in> {Ph_block, Ph_trailer} \<and> g_bit t \<le> gs_length src * 8) \<and> (\<not> r \<longrightarrow> g_phase t = g_phase s)"
  using assms
proof (induction src literal distance bufferEnd atEnd s rule: decode_run.induct)
  case (1 src literal distance bufferEnd atEnd s)
  show ?case
  proof (cases "length (g_out s) < out_limit \<and> (int (g_bit s) \<le> bufferEnd \<or> atEnd)")
    case True
    with 1(2) obtain p where p: "decode_symbol src literal distance atEnd s = Inr p"
      and nxt: "(if fst p then Inr p else decode_run src literal distance bufferEnd atEnd (snd p)) = Inr (r, t)"
      by (auto simp: decode_run.simps [of src literal distance bufferEnd atEnd s] rbind_eq_Inr)
    note d = decode_symbol_symbols [of src literal distance atEnd s "fst p" "snd p", unfolded prod.collapse, OF p]
    show ?thesis
    proof (cases "fst p")
      case q: True
      with nxt d True p show ?thesis by auto
    next
      case False
      have "length (g_out (snd p)) \<le> out_limit + 257" using d True p by simp
      with 1(1) [OF True p] False nxt d True p show ?thesis by (auto intro: symbols_trans)
    qed
  next
    case False
    with 1(2,3) show ?thesis by (auto simp: decode_run.simps [of src literal distance bufferEnd atEnd s])
  qed
qed

lemma gz_ok_same_decoder:
  assumes "gz_ok obj s" "g_phase s = Ph_codes" "same_decoder s u" "io_ok obj u" "g_bit u \<le> 8 * rawHashed u"
  shows "gz_ok obj u"
  using assms by (auto simp: gz_ok_def same_decoder_def tables_ok_def split: option.splits)

lemma codes_refill_ok:
  assumes src: "serves src obj" and s: "gz_ok obj s" "g_phase s = Ph_codes" and u: "codes_refill src s = Inr u"
  shows "gz_ok obj u" "frame s u" "g_out u = g_out s"
proof -
  note same = codes_refill_same_decoder [OF u]
  have bit: "g_bit u = g_bit s" and out: "g_out u = g_out s" using same by (simp_all add: same_decoder_def)
  have "io_ok obj u \<and> g_bit u \<le> 8 * rawHashed u"
  proof (cases "availableBits s < int symbolLookaheadBits")
    case True
    let ?n = "(96 + g_bit s mod 8 + 7) div 8"
    from u True obtain ok where e: "ensure src ?n s = Inr (ok, u)"
      by (auto simp: codes_refill_def ensureBits_def symbolLookaheadBits_def rbind_eq_Inr split: if_splits)
    note spec = ensure_spec [OF src _ e]
    have io: "io_ok obj u" using spec s by (simp add: gz_ok_def)
    have "1 \<le> ?n" by simp
    then have "g_bit u \<le> 8 * buffer_end u" if ok
      using that available_bits(2) [of ?n u] spec s mod_less_divisor [of 8 "g_bit u"] unfolding gz_ok_def by linarith
    moreover have "g_bit u \<le> 8 * buffer_end u" if "\<not> ok"
      using that spec s bit by (simp add: gz_ok_def io_ok_def)
    ultimately show ?thesis using io by (cases ok) (auto simp: io_ok_def)
  next
    case False
    then have "u = s" using u by (simp add: codes_refill_def)
    then show ?thesis using s by (simp add: gz_ok_def)
  qed
  with gz_ok_same_decoder [OF s same] show "gz_ok obj u" by simp
  show "frame s u" "g_out u = g_out s" using same_decoder_frame [OF same] out by simp_all
qed

lemma decode_buffered_ok:
  assumes src: "serves src obj" and u: "gz_ok obj u" "g_phase u = Ph_codes" "length (g_out u) \<le> out_limit + 257"
    and d: "decode_buffered src literal distance u = Inr (r, t)" and b: "\<not> r \<Longrightarrow> g_bit t \<le> gs_length src * 8"
  shows "gz_ok obj t" "frame u t" "length (g_out t) \<le> out_limit + 257"
    "g_phase t \<in> (if r then {Ph_block, Ph_trailer} else {Ph_codes})"
proof -
  note spec = decode_run_symbols [OF d [unfolded decode_buffered_def] u(3)]
  have sy: "symbols u t" and bit: "g_bit t \<le> gs_length src * 8" using spec b by (cases r; simp)+
  have io: "io_ok obj t" using sy u(1) by (simp add: symbols_io_ok gz_ok_def)
  show "frame u t" using sy by (simp add: symbols_def)
  show "length (g_out t) \<le> out_limit + 257" "g_phase t \<in> (if r then {Ph_block, Ph_trailer} else {Ph_codes})"
    using spec u(2) by auto
  have ends: "buffer_end u \<le> rawHashed u" "rawHashed u \<le> length obj" "rawHashed t = rawHashed u"
    using u(1) sy by (simp_all add: gz_ok_def io_ok_def symbols_def)
  have "g_bit t \<le> 8 * rawHashed t"
  proof (cases "buffer_end u \<ge> gs_length src")
    case True
    then show ?thesis using bit ends serves_length [OF src] by simp
  next
    case False
    then have "int (g_bit t) \<le> max (int (g_bit u)) (int (buffer_end u) * 8 - 96 + 48)"
      using spec by (simp add: symbolLookaheadBits_def)
    moreover have "g_bit u \<le> 8 * rawHashed u" using u(1) by (simp add: gz_ok_def)
    ultimately show ?thesis using ends by linarith
  qed
  with io sy u spec symbols_keeps(1) [OF sy] show "gz_ok obj t"
    by (auto simp: gz_ok_def symbols_def)
qed

lemma codes_loop_ok:
  "serves src obj \<Longrightarrow> gz_ok obj s \<Longrightarrow> g_phase s = Ph_codes \<Longrightarrow> length (g_out s) \<le> out_limit + 257 \<Longrightarrow>
    codes_loop src literal distance s = Inr t \<Longrightarrow>
    gz_ok obj t \<and> frame s t \<and> length (g_out t) \<le> out_limit + 257 \<and> g_phase t \<in> {Ph_codes, Ph_block, Ph_trailer} \<and>
    (length (g_out s) < out_limit \<longrightarrow> length (g_out s) < length (g_out t) \<or> g_phase t \<noteq> Ph_codes)"
proof (induction src literal distance s rule: codes_loop.induct)
  case (1 src literal distance s)
  show ?case
  proof (cases "length (g_out s) < out_limit")
    case True
    with 1(6) obtain u p where u: "codes_refill src s = Inr u" and p: "decode_buffered src literal distance u = Inr p"
      and nxt: "fst p \<and> t = snd p \<or> \<not> fst p \<and> g_bit (snd p) \<le> gs_length src * 8 \<and> g_bit (snd p) \<noteq> g_bit u \<and>
        codes_loop src literal distance (snd p) = Inr t"
      by (auto simp: codes_loop.simps [of src literal distance s] rbind_eq_Inr split: if_splits)
    note r = codes_refill_ok [OF 1(2,3,4) u]
    have "g_phase u = Ph_codes" using codes_refill_same_decoder [OF u] 1(4) by (simp add: same_decoder_def)
    note d = decode_buffered_ok [OF 1(2) r(1) this, of literal distance "fst p" "snd p", unfolded prod.collapse, OF _ p]
    show ?thesis
    proof (cases "fst p")
      case stop: True
      with d nxt r True show ?thesis by (auto intro: frame_trans)
    next
      case False
      have ph: "g_phase (snd p) = Ph_codes" using False d nxt r 1(5) by auto
      have run: "decode_buffered src literal distance u = Inr (False, snd p)" using p False by (cases p) simp
      have "snd p \<noteq> u" using False nxt by auto
      with decode_run_longer [OF run [unfolded decode_buffered_def]]
      have grow: "length (g_out s) < length (g_out (snd p))" using r(3) by simp
      have "frame (snd p) t \<Longrightarrow> length (g_out (snd p)) \<le> length (g_out t)" by (auto simp: frame_def)
      with 1(1) [OF True u p False _ _ 1(2) _ ph] False d nxt r grow 1(5) show ?thesis
        by (auto intro: frame_trans)
    qed
  next
    case False
    with 1 show ?thesis by (simp add: codes_loop.simps [of src literal distance s])
  qed
qed

lemma codes_ok:
  assumes "serves src obj" "gz_ok obj s" "g_phase s = Ph_codes" "length (g_out s) < out_limit" "codes src s = Inr t"
  shows "gz_ok obj t \<and> frame s t \<and> length (g_out t) \<le> out_limit + 257 \<and> g_phase t \<in> {Ph_codes, Ph_block, Ph_trailer} \<and>
    (length (g_out s) < length (g_out t) \<or> g_phase t \<noteq> Ph_codes)"
  using codes_loop_ok [OF assms(1-3)] assms(4,5) by (auto simp: codes_def split: option.splits)

subsection \<open>The loop of \<open>next\<close> returns\<close>

primrec phase_rank :: "gz_phase \<Rightarrow> nat" where
  "phase_rank Ph_header = 2"
| "phase_rank Ph_block = 0"
| "phase_rank Ph_stored = 1"
| "phase_rank Ph_codes = 1"
| "phase_rank Ph_trailer = 0"
| "phase_rank Ph_end = 0"

definition remaining :: "bytes \<Rightarrow> gunzip \<Rightarrow> nat" where
  "remaining obj s = 3 * (8 * length obj - g_bit s) + phase_rank (g_phase s)"

definition phase_step :: "gunzip_source \<Rightarrow> gunzip \<Rightarrow> gz_error + gunzip" where
  "phase_step src s =
     (if g_phase s = Ph_header then header src s
      else if g_phase s = Ph_block then blockHeader src s
      else if g_phase s = Ph_stored then storedBytes src s
      else codes src s)"

lemma phase_step_ok:
  assumes "serves src obj" "gz_ok obj s" "g_phase s \<notin> {Ph_trailer, Ph_end}" "length (g_out s) < out_limit"
    and t: "phase_step src s = Inr t"
  shows "gz_ok obj t \<and> frame s t \<and> g_phase t \<noteq> Ph_end \<and>
    (length (g_out t) = length (g_out s) \<longrightarrow> remaining obj t < remaining obj s) \<and>
    length (g_out t) \<le> out_limit + 257"
proof -
  have len: "frame s t \<Longrightarrow> g_bit s \<le> g_bit t" by (simp add: frame_def)
  consider "g_phase s = Ph_header" | "g_phase s = Ph_block" | "g_phase s = Ph_stored" | "g_phase s = Ph_codes"
    using assms(3) by (cases "g_phase s") auto
  then show ?thesis
  proof cases
    case 1
    with t have h: "header src s = Inr t" by (simp add: phase_step_def)
    from header_ok [OF assms(1,2) h] 1 len assms(4) show ?thesis by (auto simp: remaining_def)
  next
    case 2
    with t have "blockHeader src s = Inr t" by (simp add: phase_step_def)
    from blockHeader_ok [OF assms(1,2) this] 2 assms(4) show ?thesis by (auto simp: remaining_def)
  next
    case 3
    with t have "storedBytes src s = Inr t" by (simp add: phase_step_def)
    from storedBytes_ok [OF assms(1,2) 3 assms(4) this] show ?thesis by auto
  next
    case 4
    with t have "codes src s = Inr t" by (simp add: phase_step_def)
    from codes_ok [OF assms(1,2) 4 assms(4) this] 4 len show ?thesis by (auto simp: remaining_def)
  qed
qed

lemma next_loop_step: "next_loop src start s =
   (if length (g_out s) \<noteq> start then Some (Inr (False, s))
    else if g_phase s = Ph_end then Some (Inr (True, s))
    else if g_phase s = Ph_trailer then Some (map_sum id (Pair True) (trailer src s))
    else case phase_step src s of Inl e \<Rightarrow> Some (Inl e) | Inr t \<Rightarrow> next_loop src start t)"
  unfolding phase_step_def by (rule next_loop.simps)

text \<open>What \<open>next_loop\<close> returns: an error, a longer output, or the state after a verified trailer.\<close>

definition loop_result :: "gunzip_source \<Rightarrow> bytes \<Rightarrow> nat \<Rightarrow> gunzip \<Rightarrow> gz_error + bool \<times> gunzip \<Rightarrow> bool" where
  "loop_result src obj start s r \<longleftrightarrow> (case r of
      Inl e \<Rightarrow> True
    | Inr (False, t) \<Rightarrow> gz_ok obj t \<and> frame s t \<and> g_phase t \<noteq> Ph_end \<and>
        length (g_out t) \<noteq> start \<and> length (g_out t) \<le> out_limit + 257
    | Inr (True, t) \<Rightarrow> \<exists>u. gz_ok obj u \<and> frame s u \<and> trailer src u = Inr t)"

lemma loop_result_frame: "frame s t \<Longrightarrow> loop_result src obj start t r \<Longrightarrow> loop_result src obj start s r"
  by (auto simp: loop_result_def intro: frame_trans split: sum.splits prod.splits bool.splits)

lemma next_loop_returns:
  assumes "serves src obj" "gz_ok obj s" "g_phase s \<noteq> Ph_end" "start < out_limit" "length (g_out s) \<le> out_limit + 257"
  shows "\<exists>r. next_loop src start s = Some r \<and> loop_result src obj start s r"
  using assms
proof (induction "remaining obj s" arbitrary: s rule: less_induct)
  case less
  show ?case
  proof (cases "length (g_out s) = start \<and> g_phase s \<noteq> Ph_trailer")
    case run: True
    then have room: "length (g_out s) < out_limit" and ph: "g_phase s \<notin> {Ph_trailer, Ph_end}"
      using less.prems by auto
    have eq: "next_loop src start s = (case phase_step src s of Inl e \<Rightarrow> Some (Inl e) | Inr t \<Rightarrow> next_loop src start t)"
      using run ph by (subst next_loop_step) simp
    show ?thesis
    proof (cases "phase_step src s")
      case (Inl e)
      then show ?thesis by (simp add: eq loop_result_def)
    next
      case (Inr t)
      note ok = phase_step_ok [OF less.prems(1,2) ph room Inr]
      show ?thesis
      proof (cases "length (g_out t) = start")
        case True
        then show ?thesis
          using less.hyps [of t] ok run less.prems Inr loop_result_frame [of s t] by (auto simp: eq)
      next
        case False
        then show ?thesis using ok Inr by (subst (1) eq, simp, subst next_loop_step) (simp add: loop_result_def)
      qed
    qed
  next
    case False
    then show ?thesis
      using less.prems
      by (subst next_loop_step) (cases "trailer src s"; auto simp: loop_result_def)
  qed
qed

subsection \<open>The trailer\<close>

definition le32 :: "u32 \<Rightarrow> bytes" where
  "le32 w = [ucast w, ucast (drop_bit 8 w), ucast (drop_bit 16 w), ucast (drop_bit 24 w)]"

lemma le32_bytes:
  fixes a b c d :: u8
  shows "le32 (ucast a OR push_bit 8 (ucast b) OR push_bit 16 (ucast c) OR push_bit 24 (ucast d)) = [a, b, c, d]"
  unfolding le32_def
  by (intro list.inject [THEN iffD2] conjI refl bit_word_eqI; auto simp: bit_simps dest: bit_imp_le_length)

text \<open>Where the cursor is on a byte boundary and four bytes are buffered, \<open>bits32\<close> is the little-endian word there.\<close>

lemma window_aligned:
  assumes io: "io_ok obj s" and al: "g_bit s mod 8 = 0"
  shows "bit_window s =
    (let b = (\<lambda>k. ucast (nth_default 0 (g_buffer s) (g_bit s div 8 - bufferStart s + k)) :: u32)
     in b 0 OR push_bit 8 (b 1) OR push_bit 16 (b 2) OR push_bit 24 (b 3))"
  by (simp add: bit_window_def al)

lemma peek16_aligned:
  fixes a b c d :: u8
  shows "of_nat (unat ((ucast a OR push_bit 8 (ucast b) OR push_bit 16 (ucast c) OR push_bit 24 (ucast d)) AND mask 16 :: u32)) =
    (ucast a OR push_bit 8 (ucast b) :: u32)"
  by (simp, rule bit_word_eqI) (auto simp: bit_simps dest: bit_imp_le_length)

lemma buffered_byte:
  assumes "io_ok obj s" and "g_bit s div 8 + k < buffer_end s"
  shows "nth_default 0 (g_buffer s) (g_bit s div 8 - bufferStart s + k) = nth_default 0 obj (g_bit s div 8 + k)"
proof -
  have "g_buffer s = segment obj (bufferStart s) (buffer_end s)" "bufferStart s \<le> g_bit s div 8"
    using assms(1) by (simp_all add: io_ok_def)
  then show ?thesis using assms(2) nth_default_segment [of "g_bit s div 8 - bufferStart s + k" "buffer_end s" "bufferStart s" 0 obj]
    by simp
qed

lemma take_four: "4 \<le> length xs \<Longrightarrow> take 4 xs = [xs ! 0, xs ! 1, xs ! 2, xs ! 3]"
  by (auto simp: numeral_eq_Suc Suc_le_length_iff)

lemma bits32_bytes:
  assumes io: "io_ok obj s" and al: "g_bit s mod 8 = 0" and fit: "g_bit s + 32 \<le> 8 * buffer_end s"
  shows "le32 (fst (bits32 s)) = segment obj (g_bit s div 8) (g_bit s div 8 + 4)"
    "snd (bits32 s) = advance 16 (advance 16 s)"
proof -
  let ?q = "g_bit s div 8" and ?s = "advance 16 s"
  let ?b = "\<lambda>k. nth_default 0 obj (?q + k)"
  have q: "?q + 4 \<le> buffer_end s" and q2: "g_bit ?s div 8 = ?q + 2" "g_bit ?s mod 8 = 0"
    using fit al by (auto simp: mod_add_eq)
  have lo: "of_nat (peek 16 s) = (ucast (?b 0) OR push_bit 8 (ucast (?b 1)) :: u32)"
    unfolding peek_def window_aligned [OF io al] Let_def peek16_aligned
    using buffered_byte [OF io, of 0] buffered_byte [OF io, of 1] q by simp
  have hi: "of_nat (peek 16 ?s) = (ucast (?b 2) OR push_bit 8 (ucast (?b 3)) :: u32)"
    unfolding peek_def window_aligned [OF io_ok_advance [OF io] q2(2)] Let_def peek16_aligned
    using buffered_byte [OF io_ok_advance [OF io], of 16 0] buffered_byte [OF io_ok_advance [OF io], of 16 1] q q2
    by (simp add: numeral_3_eq_3)
  have "fst (bits32 s) = ucast (?b 0) OR push_bit 8 (ucast (?b 1)) OR push_bit 16 (ucast (?b 2)) OR push_bit 24 (ucast (?b 3))"
    unfolding bits32_def bits_def Let_def prod.case fst_conv lo hi
    by (rule bit_word_eqI) (auto simp: bit_simps)
  then have "le32 (fst (bits32 s)) = [?b 0, ?b 1, ?b 2, ?b 3]" by (simp only: le32_bytes)
  moreover have "segment obj ?q (?q + 4) = [?b 0, ?b 1, ?b 2, ?b 3]"
  proof -
    have "?q + 4 \<le> length obj" using q io by (simp add: io_ok_def)
    then show ?thesis by (simp add: segment_def take_four nth_default_def)
  qed
  ultimately show "le32 (fst (bits32 s)) = segment obj ?q (?q + 4)" by simp
  show "snd (bits32 s) = advance 16 (advance 16 s)" by (simp add: bits32_def bits_def)
qed

lemma word_of_decoded: "unat z = n mod 2 ^ 32 \<Longrightarrow> z = (of_nat n :: u32)"
proof -
  assume "unat z = n mod 2 ^ 32"
  then have "unat z = unat (of_nat n :: u32)" by (simp add: unat_of_nat)
  then show ?thesis by (simp only: word_unat_eq_iff)
qed

lemma trailer_ok:
  assumes src: "serves src obj" and s: "io_ok obj s" and t: "trailer src s = Inr t"
  shows "8 \<le> length obj" "drop (length obj - 8) obj = le32 (g_crc s) @ le32 (of_nat (g_decoded s))"
    "sha256_standard obj = gs_sha256 src" "g_decodedDigest t = Some (fst (digestHex (g_output s)))" "g_phase t = Ph_end"
proof -
  from t obtain p where p: "ensure src 8 (align s) = Inr p" "fst p"
    unfolding trailer_def rbind_eq_Inr case_prod_unfold Let_def by (auto split: if_splits)
  define w where "w = snd p"
  have w: "ensure src 8 (align s) = Inr (True, w)" using p by (cases p) (simp add: w_def)
  note e = ensure_aligned [OF src s w]
  let ?v = "advance 16 (advance 16 w)"
  let ?q = "g_bit w div 8"
  have v: "io_ok obj ?v" "g_bit ?v mod 8 = 0" "g_bit ?v + 32 \<le> 8 * buffer_end ?v" "g_bit ?v div 8 = ?q + 4"
    using e by (auto simp: io_ok_advance)
  note b1 = bits32_bytes [OF e(1,2)] and b2 = bits32_bytes [OF v(1-3)]
  have f: "snd (bits32 w) = ?v" "snd (bits32 ?v) = advance 16 (advance 16 ?v)" using b1 b2 e by simp_all
  have same: "g_crc w = g_crc s" "g_decoded w = g_decoded s" "g_output w = g_output s" "gs_length src = length obj"
    using e(5) src by (simp_all add: frame_def results_def serves_def)
  from t w have crc: "fst (bits32 w) = g_crc s" and size: "fst (bits32 ?v) = of_nat (g_decoded s)"
    and bit: "(g_bit w + 64) div 8 = length obj" and raw: "rawHashed w = length obj" "fst (digestHex (g_raw w)) = gs_sha256 src"
    and d: "g_decodedDigest t = Some (fst (digestHex (g_output s)))" and p: "g_phase t = Ph_end"
    unfolding trailer_def
    by (auto simp: case_prod_unfold Let_def f same word_of_decoded split: if_splits)
  show "g_decodedDigest t = Some (fst (digestHex (g_output s)))" "g_phase t = Ph_end" by fact+
  have q: "?q + 8 = length obj" using bit by simp
  then show "8 \<le> length obj" by simp
  have "le32 (g_crc s) @ le32 (of_nat (g_decoded s)) = segment obj ?q (?q + 4) @ segment obj (?q + 4) (?q + 4 + 4)"
    using b1(1) b2(1) e(3) by (simp only: crc size v(4))
  also have "\<dots> = segment obj ?q (?q + 8)" by (simp add: segment_append add.commute)
  also have "\<dots> = drop ?q obj" using q by (simp add: segment_def)
  also have "?q = length obj - 8" using q by simp
  finally show "drop (length obj - 8) obj = le32 (g_crc s) @ le32 (of_nat (g_decoded s))" by simp
  have "sha_inv (g_raw w)" "sha_view (g_raw w) = sha_view (sha_feed new_sha256 obj)"
    using e(1) raw(1) by (simp_all add: io_ok_def)
  then show "sha256_standard obj = gs_sha256 src" using digest_of_view raw(2) by metis
qed

subsection \<open>Between the calls of \<open>next\<close>\<close>

text \<open>The state after \<open>sofar\<close> has been handed out.\<close>

definition output_ok :: "gunzip_source \<Rightarrow> bytes \<Rightarrow> gunzip \<Rightarrow> bool" where
  "output_ok src sofar s \<longleftrightarrow>
     g_decoded s = length sofar \<and> length sofar \<le> gs_decompressedBytes src \<and> g_crc s = crc32_serial sofar \<and>
     sha_inv (g_output s) \<and> sha_view (g_output s) = sha_view (sha_feed new_sha256 sofar)"

definition window_ok :: "bytes \<Rightarrow> gunzip \<Rightarrow> bool" where
  "window_ok sofar s \<longleftrightarrow> g_out s = drop (length sofar - min (length sofar) historyBytes) sofar"

lemma crc_extend: "crc32 (crc32_serial xs) ys = crc32_serial (xs @ ys)"
  by (simp add: crc32_def crc32_serial_def foldl_crc_byte)

lemma output_ok_frame: "frame s t \<Longrightarrow> output_ok src sofar s \<Longrightarrow> output_ok src sofar t"
  by (simp add: frame_def results_def output_ok_def)

lemma keep_suffix:
  "drop (length (drop k a @ x) - min (length (drop k a @ x)) h) (drop k a @ x) =
    drop (length (a @ x) - min (length (a @ x)) h) (a @ x)" if "k = length a - min (length a) h"
proof -
  have "drop k a @ x = drop k (a @ x)" using that by simp
  moreover have "length (drop k (a @ x)) - min (length (drop k (a @ x))) h + k = length (a @ x) - min (length (a @ x)) h"
    using that by auto
  ultimately show ?thesis by (simp only: drop_drop add.commute)
qed

lemma emit_ok:
  assumes s: "output_ok src sofar s" "window_ok sofar s0" "frame s0 s" and e: "emit src (length (g_out s0)) s = Inr (chunk, t)"
  shows "output_ok src (sofar @ chunk) t" "window_ok (sofar @ chunk) t" "g_out s = g_out s0 @ chunk"
    "\<exists>d c h w. t = s\<lparr>g_decoded := d, g_crc := c, g_output := h, g_out := w\<rparr>"
proof -
  from s(3) obtain xs where xs: "g_out s = g_out s0 @ xs" by (auto simp: frame_def)
  have upd: "update_sha256 (g_output s) xs = Inr (sha_feed (g_output s) xs)"
    using s(1) by (simp add: output_ok_def update_sha256_inv)
  have chunk: "chunk = xs" and lim: "g_decoded s + length xs \<le> gs_decompressedBytes src"
    and t: "t = s\<lparr>g_decoded := g_decoded s + length xs, g_crc := crc32 (g_crc s) xs, g_output := sha_feed (g_output s) xs,
        g_out := drop (length (g_out s) - min (length (g_out s)) historyBytes) (g_out s)\<rparr>"
    using e upd by (auto simp: emit_def Let_def xs split: if_splits)
  show "g_out s = g_out s0 @ chunk" using xs chunk by simp
  show "output_ok src (sofar @ chunk) t"
    using s(1) lim sha_feed_prefix [of "g_output s" sofar xs]
    by (simp add: t chunk output_ok_def crc_extend)
  show "window_ok (sofar @ chunk) t"
    using s(2) keep_suffix [of _ sofar historyBytes xs] by (simp add: t chunk window_ok_def xs)
  show "\<exists>d c h w. t = s\<lparr>g_decoded := d, g_crc := c, g_output := h, g_out := w\<rparr>" using t by blast
qed

lemma gz_ok_outputs:
  "gz_ok obj (s\<lparr>g_decoded := d, g_crc := c, g_output := h, g_out := w\<rparr>) = gz_ok obj s"
  by (simp add: gz_ok_def io_ok_def buffer_end_def tables_ok_def split: option.split)

text \<open>The invariant between calls, for a stream that has handed out \<open>sofar\<close>.\<close>

definition run_inv :: "gunzip_source \<Rightarrow> bytes \<Rightarrow> bytes \<Rightarrow> gunzip \<Rightarrow> bool" where
  "run_inv src obj sofar s \<longleftrightarrow> gz_ok obj s \<and> g_phase s \<noteq> Ph_end \<and> output_ok src sofar s \<and> window_ok sofar s"

lemma window_short: "window_ok sofar s \<Longrightarrow> length (g_out s) = min (length sofar) historyBytes"
  by (simp add: window_ok_def min_def)

lemma run_inv_new: "run_inv src obj [] initial_gunzip"
proof -
  have "sha_view (sha_feed new_sha256 []) = sha_view new_sha256" by (rule sha.feed_nil) simp
  then show ?thesis
    by (simp add: run_inv_def gz_ok_def io_ok_def output_ok_def window_ok_def initial_gunzip_def buffer_end_def segment_def
        crc32_serial_def)
qed

lemma next_chunk_result:
  assumes "next_loop src (length (g_out s)) s = Some r"
  shows "next_chunk src s = Some (case r of Inl e \<Rightarrow> Inl e | Inr (null, t) \<Rightarrow> if null then Inr (None, t)
    else map_sum id (\<lambda>(chunk, u). (Some chunk, u)) (emit src (length (g_out s)) t))"
  using assms by (auto simp: next_chunk_def split: sum.split prod.split bool.split)

lemma next_chunk_cases:
  assumes "next_loop src (length (g_out s)) s = Some r"
  shows "next_chunk src s = Some (Inr (None, t)) \<Longrightarrow> r = Inr (True, t)"
    and "next_chunk src s = Some (Inr (Some chunk, t)) \<Longrightarrow> \<exists>v. r = Inr (False, v) \<and> emit src (length (g_out s)) v = Inr (chunk, t)"
  unfolding next_chunk_result [OF assms]
  by (auto simp: map_sum_def split: sum.splits prod.splits if_splits)

lemma next_chunk_ok:
  assumes src: "serves src obj" and s: "run_inv src obj sofar s"
  shows "\<exists>r. next_chunk src s = Some r"
    and "next_chunk src s = Some (Inr (Some chunk, t)) \<Longrightarrow> run_inv src obj (sofar @ chunk) t \<and>
      chunk \<noteq> [] \<and> length chunk + min (length sofar) historyBytes \<le> out_limit + 257"
    and "next_chunk src s = Some (Inr (None, t)) \<Longrightarrow>
      \<exists>u. io_ok obj u \<and> output_ok src sofar u \<and> trailer src u = Inr t"
proof -
  let ?n = "length (g_out s)"
  have n: "?n < out_limit" "?n \<le> out_limit + 257"
    using s window_short [of sofar s] by (auto simp: run_inv_def out_limit_def historyBytes_def)
  obtain r where r: "next_loop src ?n s = Some r" "loop_result src obj ?n s r"
    using next_loop_returns [OF src _ _ n] s by (auto simp: run_inv_def)
  show "\<exists>r. next_chunk src s = Some r"
    using next_chunk_result [OF r(1)] by blast
  show "\<exists>u. io_ok obj u \<and> output_ok src sofar u \<and> trailer src u = Inr t"
    if nx: "next_chunk src s = Some (Inr (None, t))"
  proof -
    have "r = Inr (True, t)" using next_chunk_cases(1) [OF r(1) nx] .
    with r(2) s show ?thesis
      by (auto simp: loop_result_def run_inv_def gz_ok_def intro: output_ok_frame)
  qed
  show "run_inv src obj (sofar @ chunk) t \<and> chunk \<noteq> [] \<and> length chunk + min (length sofar) historyBytes \<le> out_limit + 257"
    if nx: "next_chunk src s = Some (Inr (Some chunk, t))"
  proof -
    obtain v where v: "r = Inr (False, v)" "emit src ?n v = Inr (chunk, t)"
      using next_chunk_cases(2) [OF r(1) nx] by blast
    with r(2) have ok: "gz_ok obj v" "frame s v" "g_phase v \<noteq> Ph_end" "length (g_out v) \<noteq> ?n" "length (g_out v) \<le> out_limit + 257"
      by (simp_all add: loop_result_def)
    have out: "output_ok src sofar v" using s ok(2) by (simp add: run_inv_def output_ok_frame)
    have win: "window_ok sofar s" using s by (simp add: run_inv_def)
    note e = emit_ok [OF out win ok(2) v(2)]
    obtain d c h w where t: "t = v\<lparr>g_decoded := d, g_crc := c, g_output := h, g_out := w\<rparr>" using e(4) by blast
    have "gz_ok obj t" "g_phase t \<noteq> Ph_end" using ok(1,3) by (simp_all add: t gz_ok_outputs)
    then show ?thesis using e ok(4,5) window_short [OF win] by (auto simp: run_inv_def)
  qed
qed

subsection \<open>Suspension\<close>

lemma sha_checkpoint:
  assumes "sha_inv h" "sha_view h = sha_view (sha_feed new_sha256 m)"
  shows "\<exists>cp h'. checkpoint_sha256 h = Inr cp \<and> resume_sha256 cp = Inr h' \<and> sha_inv h' \<and>
    sha_view h' = sha_view (sha_feed new_sha256 m) \<and> parse_decimal (cp_bytes cp) = length m"
proof -
  obtain cp h' where cp: "checkpoint_sha256 h = Inr cp" "resume_sha256 cp = Inr h'" "sha_inv h'" "sha_view h' = sha_view h"
    using checkpoint_resume [OF assms(1)] by blast
  have "byte_count h = length m"
    using assms(2) sha_view_feed [OF sha_inv_new, of m] by (simp add: sha_view_def new_sha256_def)
  moreover have "cp_bytes cp = decimal (byte_count h)"
    using cp(1) by (auto simp: checkpoint_sha256_def split: if_splits)
  ultimately show ?thesis using cp assms(2) by (auto simp: parse_decimal_decimal)
qed

lemma map_sum_Some: "map_sum id Some x = Inr y \<longleftrightarrow> (\<exists>v. x = Inr v \<and> y = Some v)"
  by (cases x) auto

lemma restore_tables_ok:
  assumes "tables_ok s" and "g_phase r = Ph_codes" "g_literals r = g_literals s"
    and "gc_lengths cp = map_option (map int) (g_lengths s)"
  shows "restore_tables cp r =
    Inr (r\<lparr>g_literal := g_literal s, g_distance := g_distance s, g_lengths := g_lengths s, g_literals := g_literals s\<rparr>)"
proof (cases "g_lengths s")
  case None
  with assms show ?thesis
    by (auto simp: restore_tables_def tables_ok_def useFixed_def map_sum_Some)
next
  case (Some ls)
  have m: "map (nat \<circ> int) ls = ls" by (simp add: comp_def)
  have "\<not> list_ex (\<lambda>l. l < 0 \<or> l > 15) (map int ls)"
    using assms(1) Some by (auto simp: tables_ok_def list_ex_iff list_all_iff)
  with assms Some show ?thesis
    by (auto simp: restore_tables_def tables_ok_def useDynamic_def map_sum_Some m)
qed

lemma stateNumber_int: "int n \<le> maximum \<Longrightarrow> int n \<le> 9007199254740991 \<Longrightarrow> stateNumber (int n) maximum = Inr n"
  by (simp add: stateNumber_def)

lemma stateNumber_uint: "stateNumber (uint (c :: u32)) 4294967295 = Inr (unat c)"
proof -
  have "uint c \<le> 4294967295" using uint_bounded [of c] by simp
  then show ?thesis by (simp add: stateNumber_def)
qed

definition source_safe :: "gunzip_source \<Rightarrow> bool" where
  "source_safe src \<longleftrightarrow> source_admitted src \<and> int (gs_decompressedBytes src) \<le> 9007199254740991"

lemma checkpoint_numbers:
  assumes src: "serves src obj" "source_safe src" and s: "run_inv src obj sofar s"
  shows "stateNumber (int (g_bit s)) (int (gs_length src) * 8) = Inr (g_bit s)"
    "stateNumber (int (g_stored s)) 65535 = Inr (g_stored s)"
    "stateNumber (int (g_decoded s)) (int (gs_decompressedBytes src)) = Inr (g_decoded s)"
    "stateNumber (int (rawHashed s)) (int (gs_length src)) = Inr (rawHashed s)"
    "g_bit s div 8 \<le> rawHashed s"
proof -
  have "length obj \<le> 267386880" "gs_length src = length obj"
    using src by (simp_all add: source_safe_def source_admitted_def serves_def maximumCompressedBytes_def)
  moreover have "g_bit s \<le> 8 * rawHashed s" "rawHashed s \<le> length obj" "g_stored s \<le> 65535"
    "g_decoded s \<le> gs_decompressedBytes src" "int (gs_decompressedBytes src) \<le> 9007199254740991"
    using s src(2) by (auto simp: run_inv_def gz_ok_def io_ok_def output_ok_def source_safe_def)
  ultimately show "stateNumber (int (g_bit s)) (int (gs_length src) * 8) = Inr (g_bit s)"
    "stateNumber (int (g_stored s)) 65535 = Inr (g_stored s)"
    "stateNumber (int (g_decoded s)) (int (gs_decompressedBytes src)) = Inr (g_decoded s)"
    "stateNumber (int (rawHashed s)) (int (gs_length src)) = Inr (rawHashed s)"
    "g_bit s div 8 \<le> rawHashed s"
    by (auto intro!: stateNumber_int)
qed

text \<open>The state the constructor makes of a checkpoint of \<open>s\<close>, given the two restored hashes.\<close>

definition resumed :: "gunzip \<Rightarrow> sha256 \<Rightarrow> sha256 \<Rightarrow> gunzip" where
  "resumed s raw output = initial_gunzip\<lparr>g_bit := g_bit s, g_phase := g_phase s, g_final := g_final s,
     g_stored := g_stored s, g_literals := (if g_phase s = Ph_codes then g_literals s else 0), g_crc := g_crc s,
     g_decoded := g_decoded s, rawHashed := rawHashed s, g_etag := g_etag s, g_raw := raw, g_output := output,
     g_out := g_out s, g_literal := (if g_phase s = Ph_codes then g_literal s else None),
     g_distance := (if g_phase s = Ph_codes then g_distance s else None),
     g_lengths := (if g_phase s = Ph_codes then g_lengths s else None), bufferStart := g_bit s div 8\<rparr>"

lemma resumed_run_inv:
  assumes "serves src obj" "run_inv src obj sofar s" "g_bit s div 8 \<le> rawHashed s"
    and "sha_inv raw" "sha_view raw = sha_view (sha_feed new_sha256 (take (rawHashed s) obj))"
    and "sha_inv output" "sha_view output = sha_view (sha_feed new_sha256 sofar)"
  shows "run_inv src obj sofar (resumed s raw output)"
proof -
  let ?t = "resumed s raw output"
  have f: "g_bit ?t = g_bit s" "g_phase ?t = g_phase s" "buffer_end ?t = g_bit s div 8" "bufferStart ?t = g_bit s div 8"
    "g_buffer ?t = []" "rawHashed ?t = rawHashed s" "g_raw ?t = raw" "g_output ?t = output" "g_crc ?t = g_crc s"
    "g_decoded ?t = g_decoded s" "g_out ?t = g_out s" "g_stored ?t = g_stored s"
    by (simp_all add: resumed_def initial_gunzip_def buffer_end_def)
  have tables: "g_phase s = Ph_codes \<Longrightarrow> tables_ok s \<Longrightarrow> tables_ok ?t"
    by (auto simp: resumed_def tables_ok_def split: option.splits)
  have "g_bit s mod 8 = 0 \<Longrightarrow> g_bit s \<le> 8 * (g_bit s div 8)" by (metis mult_div_mod_eq add_0_right order_refl)
  with assms tables show ?thesis
    by (auto simp: run_inv_def gz_ok_def io_ok_def output_ok_def window_ok_def segment_def f)
qed

lemma resume_checkpoint_gunzip:
  assumes src: "serves src obj" "source_safe src" and s: "run_inv src obj sofar s"
  shows "\<exists>cp w raw output. checkpoint_gunzip s = Inr (cp, w) \<and> resume_gunzip src cp (Some w) = Inr (resumed s raw output) \<and>
    run_inv src obj sofar (resumed s raw output)"
proof -
  have gz: "g_phase s \<noteq> Ph_end" "io_ok obj s" "output_ok src sofar s" "window_ok sofar s" "gz_ok obj s"
    using s by (simp_all add: run_inv_def gz_ok_def)
  obtain rcp raw where raw: "checkpoint_sha256 (g_raw s) = Inr rcp" "resume_sha256 rcp = Inr raw" "sha_inv raw"
    "sha_view raw = sha_view (sha_feed new_sha256 (take (rawHashed s) obj))"
    "parse_decimal (cp_bytes rcp) = length (take (rawHashed s) obj)"
    using sha_checkpoint [of "g_raw s" "take (rawHashed s) obj"] gz(2) unfolding io_ok_def by blast
  obtain ocp hash where hash: "checkpoint_sha256 (g_output s) = Inr ocp" "resume_sha256 ocp = Inr hash" "sha_inv hash"
    "sha_view hash = sha_view (sha_feed new_sha256 sofar)" "parse_decimal (cp_bytes ocp) = length sofar"
    using sha_checkpoint [of "g_output s" sofar] gz(3) unfolding output_ok_def by blast
  note nums = checkpoint_numbers [OF src s]
  define cp where "cp = \<lparr>gc_contract = ''card-keepr-gunzip-resume@1'', gc_bit = int (g_bit s), gc_phase = g_phase s,
    gc_final = g_final s, gc_stored = int (g_stored s),
    gc_lengths = (if g_phase s = Ph_codes then map_option (map int) (g_lengths s) else None),
    gc_literals = (if g_phase s = Ph_codes then int (g_literals s) else 0), gc_crc = uint (g_crc s),
    gc_decoded = int (g_decoded s), gc_raw_hashed = int (rawHashed s), gc_raw = rcp, gc_output = ocp, gc_etag = g_etag s\<rparr>"
  have check: "checkpoint_gunzip s = Inr (cp, g_out s)"
    using gz(1) raw(1) hash(1) by (simp add: checkpoint_gunzip_def cp_def)
  let ?lits = "if g_phase s = Ph_codes then g_literals s else 0"
  have lits: "stateNumber (gc_literals cp) 286 = Inr ?lits"
    using gz(5) by (auto simp: cp_def gz_ok_def tables_ok_def stateNumber_def split: option.splits)
  define r where "r = initial_gunzip\<lparr>g_bit := g_bit s, g_phase := g_phase s, g_final := g_final s,
    g_stored := g_stored s, g_literals := ?lits, g_crc := g_crc s, g_decoded := g_decoded s, rawHashed := rawHashed s,
    g_etag := g_etag s, g_raw := raw, g_output := hash, g_out := g_out s\<rparr>"
  have "restore_tables cp r = Inr (r\<lparr>g_literal := (if g_phase s = Ph_codes then g_literal s else None),
      g_distance := (if g_phase s = Ph_codes then g_distance s else None),
      g_lengths := (if g_phase s = Ph_codes then g_lengths s else None)\<rparr>)"
  proof (cases "g_phase s = Ph_codes")
    case True
    then show ?thesis
      using restore_tables_ok [of s r cp] gz(5) by (simp add: r_def cp_def gz_ok_def)
  next
    case False
    then show ?thesis by (simp add: restore_tables_def r_def initial_gunzip_def)
  qed
  moreover have "resume_gunzip src cp (Some (g_out s)) = rbind (restore_tables cp r) (\<lambda>t. Inr (t\<lparr>bufferStart := g_bit s div 8\<rparr>))"
  proof -
    have "rawHashed s \<le> length obj" using gz(2) by (simp add: io_ok_def)
    moreover have "length (g_out s) = min (g_decoded s) historyBytes" "length sofar = g_decoded s"
      using window_short [OF gz(4)] gz(3) by (simp_all add: output_ok_def)
    moreover have "(of_nat (unat (g_crc s)) :: u32) = g_crc s" by simp
    ultimately show ?thesis
      using src(2) gz(1) nums lits raw hash stateNumber_uint [of "g_crc s"]
      by (simp add: resume_gunzip_def source_safe_def r_def) (simp add: cp_def)
  qed
  ultimately have res: "resume_gunzip src cp (Some (g_out s)) = Inr (resumed s raw hash)"
    by (simp add: r_def resumed_def)
  show ?thesis
    using check res resumed_run_inv [OF src(1) s nums(5) raw(3,4) hash(3,4)] by blast
qed

text \<open>
  A run of the decoder: a fresh stream, on which \<open>next\<close> is called and which may be suspended at
  any time: checkpointed, dropped, and rebuilt from the checkpoint. The second argument is the
  output so far.
\<close>

inductive gz_run :: "gunzip_source \<Rightarrow> bytes \<Rightarrow> gunzip \<Rightarrow> bool" for src where
  gz_start: "new_gunzip src = Inr s \<Longrightarrow> gz_run src [] s"
| gz_next: "gz_run src sofar s \<Longrightarrow> next_chunk src s = Some (Inr (Some chunk, t)) \<Longrightarrow> gz_run src (sofar @ chunk) t"
| gz_suspend: "gz_run src sofar s \<Longrightarrow> checkpoint_gunzip s = Inr (cp, w) \<Longrightarrow> resume_gunzip src cp (Some w) = Inr t \<Longrightarrow>
    gz_run src sofar t"

lemma gz_run_inv:
  assumes "gz_run src sofar s" and src: "serves src obj" "source_safe src"
  shows "run_inv src obj sofar s"
  using assms(1)
proof (induction rule: gz_run.induct)
  case (gz_start s)
  then show ?case by (simp add: new_gunzip_def run_inv_new rbind_eq_Inr)
next
  case (gz_next sofar s chunk t)
  then show ?case using next_chunk_ok(2) [OF src(1) gz_next(3) gz_next(2)] by blast
next
  case (gz_suspend sofar s cp w t)
  then show ?case using resume_checkpoint_gunzip [OF src gz_suspend(4)] by auto
qed

text \<open>
  C6. Only a verified archive completes. When \<open>next\<close> returns null, whatever suspensions the run
  had, the retained object has the expected SHA-256, its last eight bytes are the CRC-32 and the
  length of exactly the bytes handed out, these respect the decompressed limit, and
  \<open>decodedDigest\<close> is their SHA-256.
\<close>

theorem gunzip_eof_is_verified:
  assumes "serves src obj" and "source_safe src" and "gz_run src sofar s"
    and "next_chunk src s = Some (Inr (None, t))"
  shows "sha256_standard obj = gs_sha256 src \<and>
    drop (length obj - 8) obj = le32 (crc32_serial sofar) @ le32 (of_nat (length sofar)) \<and>
    length sofar \<le> gs_decompressedBytes src \<and> decodedDigest t = Inr (sha256_standard sofar)"
proof -
  have inv: "run_inv src obj sofar s" using assms(3,1,2) by (rule gz_run_inv)
  obtain u where u: "io_ok obj u" "output_ok src sofar u" "trailer src u = Inr t"
    using next_chunk_ok(3) [OF assms(1) inv assms(4)] by blast
  have "fst (digestHex (g_output u)) = sha256_standard sofar"
    using u(2) by (intro digest_of_view) (simp_all add: output_ok_def)
  with trailer_ok [OF assms(1) u(1,3)] u(2) show ?thesis
    by (simp add: output_ok_def decodedDigest_def)
qed

text \<open>
  C21. \<open>next\<close> always returns: its loop, which has no bound in the code, ends on every input, with
  an error, a chunk or null. A chunk is never empty, and with the history it follows it has at
  most 96 KiB and one match.
\<close>

theorem gunzip_next_returns:
  assumes "serves src obj" and "source_safe src" and "gz_run src sofar s"
  shows "\<exists>r. next_chunk src s = Some r \<and>
    (\<forall>chunk t. r = Inr (Some chunk, t) \<longrightarrow>
       chunk \<noteq> [] \<and> length chunk + min (length sofar) historyBytes \<le> historyBytes + gunzipChunkBytes + (maximumMatch - 1))"
proof -
  have inv: "run_inv src obj sofar s" using assms(3,1,2) by (rule gz_run_inv)
  obtain r where r: "next_chunk src s = Some r" using next_chunk_ok(1) [OF assms(1) inv] by blast
  then show ?thesis
    using next_chunk_ok(2) [OF assms(1) inv]
    by (auto simp: historyBytes_def gunzipChunkBytes_def maximumMatch_def out_limit_def)
qed

text \<open>
  C24. Every checkpoint is accepted: a stream that has not completed can be suspended between any
  two calls, and the constructor rebuilds a decoder that continues at the same bit of the same
  block with the same window, counters and registers, its buffer emptied.
\<close>

theorem gunzip_checkpoint_accepted:
  assumes "serves src obj" and "source_safe src" and "gz_run src sofar s"
  shows "\<exists>cp w t. checkpoint_gunzip s = Inr (cp, w) \<and> resume_gunzip src cp (Some w) = Inr t \<and>
    g_bit t = g_bit s \<and> g_phase t = g_phase s \<and> g_final t = g_final s \<and> g_stored t = g_stored s \<and>
    (g_phase s = Ph_codes \<longrightarrow> g_literal t = g_literal s \<and> g_distance t = g_distance s) \<and>
    g_crc t = g_crc s \<and> g_decoded t = g_decoded s \<and> rawHashed t = rawHashed s \<and> g_etag t = g_etag s \<and>
    g_out t = g_out s \<and> fst (digestHex (g_output t)) = fst (digestHex (g_output s)) \<and>
    fst (digestHex (g_raw t)) = fst (digestHex (g_raw s))"
proof -
  have inv: "run_inv src obj sofar s" using assms(3,1,2) by (rule gz_run_inv)
  obtain cp w raw hash where cp: "checkpoint_gunzip s = Inr (cp, w)"
    "resume_gunzip src cp (Some w) = Inr (resumed s raw hash)" "run_inv src obj sofar (resumed s raw hash)"
    using resume_checkpoint_gunzip [OF assms(1,2) inv] by blast
  let ?t = "resumed s raw hash"
  have d: "fst (digestHex (g_output u)) = sha256_standard sofar"
    "fst (digestHex (g_raw u)) = sha256_standard (take (rawHashed u) obj)" if "run_inv src obj sofar u" for u
    using that by (auto intro!: digest_of_view simp: run_inv_def output_ok_def gz_ok_def io_ok_def)
  have f: "g_bit ?t = g_bit s" "g_phase ?t = g_phase s" "g_final ?t = g_final s" "g_stored ?t = g_stored s"
    "g_phase s = Ph_codes \<longrightarrow> g_literal ?t = g_literal s \<and> g_distance ?t = g_distance s"
    "g_crc ?t = g_crc s" "g_decoded ?t = g_decoded s" "rawHashed ?t = rawHashed s" "g_etag ?t = g_etag s" "g_out ?t = g_out s"
    by (simp_all add: resumed_def)
  show ?thesis using cp f d [OF inv] d [OF cp(3)] by metis
qed

subsection \<open>A concrete archive\<close>

definition sample_gz :: bytes where
  "sample_gz = [31, 139, 8, 0, 0, 0, 0, 0, 0, 3, 1, 1, 0, 254, 255, 97, 67, 190, 183, 232, 1, 0, 0, 0]"

definition sample_src :: gunzip_source where
  "sample_src = \<lparr>gs_length = 24, gs_sha256 = sha256_standard sample_gz, gs_decompressedBytes = 10,
     gs_read = (\<lambda>at len. Inr (take len (drop at sample_gz), ''tag''))\<rparr>"

definition sample_at :: "nat \<Rightarrow> gunzip" where
  "sample_at b = initial_gunzip\<lparr>g_buffer := sample_gz, rawHashed := 24, g_raw := sha_feed new_sha256 sample_gz,
     g_etag := Some ''tag'', g_bit := 8 * b\<rparr>"

lemma length_sample [simp]: "length sample_gz = 24"
  by (simp add: sample_gz_def)

lemma sample_serves: "serves sample_src sample_gz" "source_safe sample_src"
  by (auto simp: serves_def sample_src_def segment_def source_safe_def source_admitted_def maximumCompressedBytes_def)

lemma sample_refill: "refill sample_src initial_gunzip = Inr (sample_at 0)"
proof -
  have "update_sha256 new_sha256 sample_gz = Inr (sha_feed new_sha256 sample_gz)" by (rule update_sha256_inv) simp
  then show ?thesis
    by (simp add: refill_def sample_src_def sample_at_def initial_gunzip_def buffer_end_def gunzipRangeBytes_def hash_read_def
        merge_read_def)
qed

lemma ensure_buffered: "int n \<le> available s \<Longrightarrow> ensure src n s = Inr (True, s)"
  by (simp add: ensure.simps [of src n s])

lemma sample_end: "buffer_end (sample_at b) = 24"
  by (simp add: buffer_end_def sample_at_def initial_gunzip_def)

lemma sample_available: "available (sample_at b) = 24 - int b"
  by (simp add: available_def buffer_end_def sample_at_def initial_gunzip_def)

lemma sample_buffered: "b + n \<le> 24 \<Longrightarrow> ensure sample_src n (sample_at b) = Inr (True, sample_at b)"
  by (rule ensure_buffered) (simp add: sample_available)

lemma sample_first: "ensure sample_src 1 initial_gunzip = Inr (True, sample_at 0)"
proof -
  have "ensure sample_src 1 initial_gunzip = rbind (refill sample_src initial_gunzip) (ensure sample_src 1)"
    by (subst ensure.simps) (simp add: available_def buffer_end_def initial_gunzip_def sample_src_def)
  then show ?thesis using sample_buffered [of 0 1] by (simp add: sample_refill)
qed

lemma sample_bits8: "b < 24 \<Longrightarrow> bits 8 (sample_at b) = (unat (sample_gz ! b), sample_at (b + 1))"
proof -
  assume b: "b < 24"
  have "nth_default 0 (g_buffer (sample_at b)) (g_bit (sample_at b) div 8 - bufferStart (sample_at b)) = sample_gz ! b"
    using b by (simp add: sample_at_def initial_gunzip_def nth_default_def)
  moreover have "g_bit (sample_at b) mod 8 = 0" by (simp add: sample_at_def)
  moreover have "unat ((ucast a OR push_bit 8 x OR push_bit 16 y OR push_bit 24 z) AND mask 8 :: u32) = unat a" for a :: u8 and x y z
  proof -
    have "(ucast a OR push_bit 8 x OR push_bit 16 y OR push_bit 24 z) AND mask 8 = (ucast a :: u32)"
      by (rule bit_word_eqI) (auto simp: bit_simps dest: bit_imp_le_length)
    moreover have "unat a < 2 ^ LENGTH(8)" by (rule unsigned_less)
    ultimately show ?thesis by (simp add: unsigned_ucast_eq take_bit_eq_mod)
  qed
  ultimately have "peek 8 (sample_at b) = unat (sample_gz ! b)" by (simp add: peek_def bit_window_def Let_def)
  then show ?thesis by (simp add: bits_def sample_at_def advance_def)
qed

lemma sample_byte: "b < 24 \<Longrightarrow> byte sample_src (sample_at b) = Inr (unat (sample_gz ! b), sample_at (b + 1))"
  by (simp add: byte_def sample_bits8 sample_buffered)

lemma sample_byte0: "byte sample_src initial_gunzip = Inr (31, sample_at 1)"
proof -
  have "byte sample_src initial_gunzip = Inr (bits 8 (sample_at 0))" unfolding byte_def sample_first by simp
  then show ?thesis by (simp add: sample_bits8) (simp add: sample_gz_def)
qed

lemma sample_header_byte:
  "b < 24 \<Longrightarrow> b' = b + 1 \<Longrightarrow>
    header_byte sample_src (c, sample_at b) = Inr (unat (sample_gz ! b), crc32 c [of_nat (unat (sample_gz ! b))], sample_at b')"
  by (simp add: header_byte_def sample_byte)

lemma sample_skip:
  "b + n \<le> 24 \<Longrightarrow> \<exists>c'. header_skip sample_src n (c, sample_at b) = Inr (c', sample_at (b + n))"
proof (induction n arbitrary: b c)
  case (Suc n)
  then show ?case using Suc.IH [of "b + 1" "crc32 c [of_nat (unat (sample_gz ! b))]"] by (simp add: sample_header_byte)
qed simp

lemma sample_header: "header sample_src initial_gunzip = Inr ((sample_at 10)\<lparr>g_phase := Ph_block\<rparr>)"
proof -
  have nth: "sample_gz ! 1 = 139" "sample_gz ! 2 = 8" "sample_gz ! 3 = 0" by (simp_all add: sample_gz_def)
  have g0: "g_bit initial_gunzip = 0" by (simp add: initial_gunzip_def)
  obtain c where c: "header_skip sample_src 6 (crc32 (crc32 (crc32 (crc32 0 [31]) [139]) [8]) [0], sample_at 4) = Inr (c, sample_at 10)"
    using sample_skip [of 4 6] by auto
  have h: "header_expect sample_src 31 (0, initial_gunzip) = Inr (crc32 0 [31], sample_at 1)"
    "header_expect sample_src 139 (c, sample_at 1) = Inr (crc32 c [139], sample_at 2)"
    "header_expect sample_src 8 (c, sample_at 2) = Inr (crc32 c [8], sample_at 3)"
    "header_byte sample_src (c, sample_at 3) = Inr (0, crc32 c [0], sample_at 4)" for c
    using sample_header_byte [of 1 2] sample_header_byte [of 2 3] sample_header_byte [of 3 4] sample_byte0 nth
    by (simp_all add: header_expect_def) (simp add: header_byte_def)
  show ?thesis
    by (simp add: header_def g0 h [unfolded One_nat_def] c optionally_def)
qed

lemma sample_refill_end: "buffer_end s = 24 \<Longrightarrow> available s < int n \<Longrightarrow> ensure sample_src n s = Inr (False, s)"
  by (subst ensure.simps) (simp add: sample_src_def)

lemma sample_window:
  "b \<le> 20 \<Longrightarrow> g_bit s = 8 * b + k \<Longrightarrow> k < 8 \<Longrightarrow> g_buffer s = sample_gz \<Longrightarrow> bufferStart s = 0 \<Longrightarrow>
    bit_window s = drop_bit k (ucast (sample_gz ! b) OR push_bit 8 (ucast (sample_gz ! (b + 1))) OR
      push_bit 16 (ucast (sample_gz ! (b + 2))) OR push_bit 24 (ucast (sample_gz ! (b + 3))))"
  by (simp add: bit_window_def Let_def nth_default_def)

definition sample_block :: gunzip where
  "sample_block = (sample_at 15)\<lparr>g_phase := Ph_stored, g_final := True, g_stored := 1\<rparr>"

lemma sample_blockHeader: "blockHeader sample_src ((sample_at 10)\<lparr>g_phase := Ph_block\<rparr>) = Inr sample_block"
proof -
  let ?s = "(sample_at 10)\<lparr>g_phase := Ph_block\<rparr>"
  let ?s1 = "(advance 1 ?s)\<lparr>g_final := True\<rparr>" and ?s2 = "advance 2 ((advance 1 ?s)\<lparr>g_final := True\<rparr>)"
  let ?s3 = "(sample_at 11)\<lparr>g_phase := Ph_block, g_final := True\<rparr>"
  let ?s4 = "(sample_at 13)\<lparr>g_phase := Ph_block, g_final := True\<rparr>"
  have f: "g_buffer (sample_at b) = sample_gz" "bufferStart (sample_at b) = 0" "g_bit (sample_at b) = 8 * b" for b
    by (simp_all add: sample_at_def initial_gunzip_def)
  have be: "buffer_end ?s = 24" "buffer_end ?s3 = 24" by (simp_all add: sample_end)
  have av: "available ?s = 14" "available ?s3 = 13" by (simp_all add: available_def sample_end f)
  have w: "bit_window ?s = 4261413121" "bit_window ?s1 = 2130706560" "bit_window ?s3 = 4294836225" "bit_window ?s4 = 1130495998"
    using sample_window [of 10 ?s 0] sample_window [of 10 ?s1 1] sample_window [of 11 ?s3 0] sample_window [of 13 ?s4 0]
    by (simp_all add: f sample_gz_def)
  have e1: "ensure sample_src 1024 ?s = Inr (False, ?s)" by (rule sample_refill_end) (simp_all add: sample_end av)
  have e2: "ensure sample_src 4 ?s3 = Inr (True, ?s3)" by (rule ensure_buffered) (simp add: av)
  have p: "peek 1 ?s = 1" "peek 2 ?s1 = 0" "peek 16 ?s3 = 1" "peek 16 ?s4 = 65534" unfolding peek_def w by (simp_all add: mask_eq_exp_minus_1)
  have al: "align ?s2 = ?s3" by (simp add: align_def advance_def sample_at_def)
  have ad: "advance 16 ?s3 = ?s4" "(advance 16 ?s4)\<lparr>g_stored := 1, g_phase := Ph_stored\<rparr> = sample_block"
    by (simp_all add: advance_def sample_at_def sample_block_def)
  have sh: "stored_header sample_src ?s2 = Inr sample_block"
    unfolding stored_header_def al e2 rbind.simps prod.case bits_def Let_def ad(1) p using ad(2) by simp
  have "g_bit sample_block \<le> gs_length sample_src * 8" by (simp add: sample_block_def f sample_src_def)
  then show ?thesis
    unfolding blockHeader_def headerLookahead_def e1 rbind.simps prod.case bits_def p Let_def
    using sh p by (simp add: checkTruncation_def)
qed

definition sample_copied :: gunzip where
  "sample_copied = (sample_at 16)\<lparr>g_phase := Ph_trailer, g_final := True, g_out := [97]\<rparr>"

lemma sample_storedBytes: "storedBytes sample_src sample_block = Inr sample_copied"
proof -
  have "available sample_block = 9" by (simp add: sample_block_def available_def buffer_end_def sample_at_def initial_gunzip_def)
  then show ?thesis
    by (simp add: storedBytes_def stored_copy_def out_limit_def)
      (simp add: sample_block_def sample_copied_def sample_at_def initial_gunzip_def after_block_def sample_gz_def)
qed

definition sample_emitted :: gunzip where
  "sample_emitted = sample_copied\<lparr>g_decoded := 1, g_crc := crc32 0 [97], g_output := sha_feed new_sha256 [97]\<rparr>"

lemma sample_next: "next_chunk sample_src initial_gunzip = Some (Inr (Some [97], sample_emitted))"
proof -
  have o: "g_out initial_gunzip = []" "g_phase initial_gunzip = Ph_header" "g_out (sample_at b) = []"
    "g_out sample_block = []" "g_phase sample_block = Ph_stored" "g_out sample_copied = [97]" for b
    by (simp_all add: sample_at_def sample_block_def initial_gunzip_def sample_copied_def)
  have "next_loop sample_src 0 initial_gunzip = next_loop sample_src 0 ((sample_at 10)\<lparr>g_phase := Ph_block\<rparr>)"
    by (subst next_loop_step) (simp add: o phase_step_def sample_header)
  also have "\<dots> = next_loop sample_src 0 sample_block"
    by (subst next_loop_step) (simp add: o phase_step_def sample_blockHeader)
  also have "\<dots> = next_loop sample_src 0 sample_copied"
    by (subst next_loop_step) (simp add: o phase_step_def sample_storedBytes)
  also have "\<dots> = Some (Inr (False, sample_copied))" by (subst next_loop_step) (simp add: o)
  finally have loop: "next_loop sample_src 0 initial_gunzip = Some (Inr (False, sample_copied))" .
  have upd: "update_sha256 new_sha256 [97] = Inr (sha_feed new_sha256 [97])" by (rule update_sha256_inv) simp
  have "g_decoded sample_copied = 0" "g_crc sample_copied = 0" "g_output sample_copied = new_sha256"
    by (simp_all add: sample_copied_def sample_at_def initial_gunzip_def)
  then have "emit sample_src 0 sample_copied = Inr ([97], sample_emitted)"
    by (simp add: emit_def Let_def o upd historyBytes_def) (simp add: sample_src_def sample_emitted_def sample_copied_def)
  then show ?thesis using next_chunk_result [of sample_src initial_gunzip] by (simp add: o loop)
qed

lemma sample_crc: "crc32 0 [97] = 3904355907"
proof -
  have "crcTable ! 158 = 397917763" by (simp add: crcTable_nth numeral_eq_Suc) (simp add: crc_bit_def)
  then show ?thesis by (simp add: crc32_def crc_byte_def mask_eq_exp_minus_1)
qed

lemma le32_inject: "le32 v = le32 w \<Longrightarrow> v = w"
proof -
  have inv: "x = ucast (ucast x :: u8) OR push_bit 8 (ucast (ucast (drop_bit 8 x) :: u8)) OR
    push_bit 16 (ucast (ucast (drop_bit 16 x) :: u8)) OR push_bit 24 (ucast (ucast (drop_bit 24 x) :: u8))" for x :: u32
  proof (rule bit_word_eqI)
    fix n assume "n < LENGTH(32)"
    then consider "n < 8" | "8 \<le> n" "n < 16" | "16 \<le> n" "n < 24" | "24 \<le> n" "n < 32" by fastforce
    then show "bit x n = bit (ucast (ucast x :: u8) OR push_bit 8 (ucast (ucast (drop_bit 8 x) :: u8)) OR
        push_bit 16 (ucast (ucast (drop_bit 16 x) :: u8)) OR push_bit 24 (ucast (ucast (drop_bit 24 x) :: u8)) :: u32) n"
      by cases (auto simp: bit_simps)
  qed
  assume "le32 v = le32 w"
  then show "v = w" by (subst inv [of v], subst inv [of w]) (simp add: le32_def)
qed

lemma sample_run: "gz_run sample_src [] initial_gunzip" "gz_run sample_src [97] sample_emitted"
proof -
  have "new_gunzip sample_src = Inr initial_gunzip" using sample_serves(2) by (simp add: new_gunzip_def source_safe_def)
  then show start: "gz_run sample_src [] initial_gunzip" by (rule gz_start)
  show "gz_run sample_src [97] sample_emitted" using gz_next [OF start sample_next] by simp
qed

lemma sample_end_reached: "\<exists>t. next_chunk sample_src sample_emitted = Some (Inr (None, t))"
proof -
  let ?s = sample_emitted and ?b = "advance 16 (advance 16 sample_emitted)"
  have f: "g_bit ?s = 128" "g_buffer ?s = sample_gz" "bufferStart ?s = 0" "g_crc ?s = 3904355907" "g_decoded ?s = 1"
    "rawHashed ?s = 24" "g_raw ?s = sha_feed new_sha256 sample_gz" "g_phase ?s = Ph_trailer" "g_out ?s = [97]"
    by (simp_all add: sample_emitted_def sample_copied_def sample_at_def initial_gunzip_def sample_crc)
  have be: "buffer_end ?s = 24" by (simp add: buffer_end_def f)
  have al: "align ?s = ?s" by (simp add: align_def f)
  have e: "ensure sample_src 8 ?s = Inr (True, ?s)" by (rule ensure_buffered) (simp add: available_def be f)
  have io: "io_ok sample_gz ?s"
    using gz_run_inv [OF sample_run(2) sample_serves] by (simp add: run_inv_def gz_ok_def)
  note b1 = bits32_bytes [OF io] and b2 = bits32_bytes [OF io_ok_advance [OF io_ok_advance [OF io]], of 16 16]
  have "le32 (fst (bits32 ?s)) = le32 3904355907" "le32 (fst (bits32 ?b)) = le32 1"
    using b1(1) b2(1) by (simp_all add: f be segment_def) (simp_all add: le32_def sample_gz_def)
  then have v: "fst (bits32 ?s) = 3904355907" "fst (bits32 ?b) = 1" by (simp_all add: le32_inject)
  have n: "snd (bits32 ?s) = ?b" "snd (bits32 ?b) = advance 16 (advance 16 ?b)" using b1(2) b2(2) by (simp_all add: f be)
  have d: "fst (digestHex (sha_feed new_sha256 sample_gz)) = sha256_standard sample_gz"
    by (rule digest_of_view) (simp_all add: sha.ok_feed)
  have "\<exists>t. trailer sample_src ?s = Inr t"
    unfolding trailer_def al e rbind.simps prod.case case_prod_unfold Let_def n v
    by (simp add: n v f d) (simp add: sample_src_def)
  then obtain t where "trailer sample_src ?s = Inr t" ..
  then have "next_loop sample_src 1 ?s = Some (Inr (True, t))" by (subst next_loop_step) (simp add: f)
  then show ?thesis using next_chunk_result [of sample_src ?s] by (simp add: f)
qed

text \<open>The hypotheses hold of a real archive: one stored block with the byte \<open>a\<close>.\<close>

theorem gunzip_eof_is_verified_witness: "decodedDigest
    (snd (projr (the (next_chunk sample_src sample_emitted)))) = Inr (sha256_standard [97])"
proof -
  obtain t where "next_chunk sample_src sample_emitted = Some (Inr (None, t))" using sample_end_reached ..
  with gunzip_eof_is_verified [OF sample_serves sample_run(2)] show ?thesis by simp
qed

theorem gunzip_next_returns_witness: "\<exists>r. next_chunk sample_src sample_emitted = Some r"
  using gunzip_next_returns [OF sample_serves sample_run(2)] by blast

theorem gunzip_checkpoint_accepted_witness: "\<exists>cp w t. checkpoint_gunzip sample_emitted = Inr (cp, w) \<and>
    resume_gunzip sample_src cp (Some w) = Inr t \<and> g_bit t = 128"
proof -
  have "g_bit sample_emitted = 128" by (simp add: sample_emitted_def sample_copied_def sample_at_def)
  then show ?thesis using gunzip_checkpoint_accepted [OF sample_serves sample_run(2)] by metis
qed


end
