(* ===== verification/Run_State.thy ===== *)
theory Run_State
  imports Prelude
begin

text \<open>
  The states of an Ingestion Run and the table of legal transitions,
  \<open>src/src/catalogue/shared/ingestion-run-state.ts\<close>.

  The persisted names are strings; the functions that take an unchecked \<open>from: string\<close> take a
  \<^typ>\<open>string\<close> here too and go through \<open>isIngestionRunState\<close>.
\<close>

datatype IngestionRunState =
    Planning | Collecting | Paused | Parsing | Reconciling | AwaitingApproval | Publishing
  | Published | Rejected | Expired | Failed

definition ingestionRunStates :: "IngestionRunState list" where
  "ingestionRunStates =
    [Planning, Collecting, Paused, Parsing, Reconciling, AwaitingApproval, Publishing, Published, Rejected, Expired, Failed]"

primrec state_name :: "IngestionRunState \<Rightarrow> string" where
  "state_name Planning = ''planning''"
| "state_name Collecting = ''collecting''"
| "state_name Paused = ''paused''"
| "state_name Parsing = ''parsing''"
| "state_name Reconciling = ''reconciling''"
| "state_name AwaitingApproval = ''awaiting_approval''"
| "state_name Publishing = ''publishing''"
| "state_name Published = ''published''"
| "state_name Rejected = ''rejected''"
| "state_name Expired = ''expired''"
| "state_name Failed = ''failed''"

definition ingestionRunTerminatedFailureCode :: string where
  "ingestionRunTerminatedFailureCode = ''ingestion_run_terminated''"

text \<open>A transition: its target and whether it requires a recorded termination.\<close>

record Transition =
  t_to :: IngestionRunState
  requires_termination :: bool

definition edge :: "IngestionRunState \<Rightarrow> Transition" where
  "edge s = \<lparr>t_to = s, requires_termination = False\<rparr>"

primrec ingestionRunTransitions :: "IngestionRunState \<Rightarrow> Transition list" where
  "ingestionRunTransitions Planning = [edge Collecting, edge Failed]"
| "ingestionRunTransitions Collecting = [edge Paused, edge Parsing, edge Failed]"
| "ingestionRunTransitions Paused = [edge Collecting, \<lparr>t_to = Failed, requires_termination = True\<rparr>]"
| "ingestionRunTransitions Parsing = [edge Reconciling, edge Failed]"
| "ingestionRunTransitions Reconciling = [edge AwaitingApproval, edge Failed]"
| "ingestionRunTransitions AwaitingApproval = [edge Publishing, edge Rejected, edge Expired, edge Failed]"
| "ingestionRunTransitions Publishing = [edge Published, edge Failed]"
| "ingestionRunTransitions Published = []"
| "ingestionRunTransitions Rejected = []"
| "ingestionRunTransitions Expired = []"
| "ingestionRunTransitions Failed = []"

definition activeRunStages :: "IngestionRunState list" where
  "activeRunStages = [Planning, Collecting, Parsing, Reconciling, AwaitingApproval, Publishing]"

text \<open>\<open>isIngestionRunState\<close> narrows a string; here it also yields the state it names.\<close>

definition state_of_name :: "string \<Rightarrow> IngestionRunState option" where
  "state_of_name v = find (\<lambda>s. state_name s = v) ingestionRunStates"

definition isIngestionRunState :: "string \<Rightarrow> bool" where
  "isIngestionRunState v \<longleftrightarrow> state_of_name v \<noteq> None"

definition isTerminalIngestionRunState :: "string \<Rightarrow> bool" where
  "isTerminalIngestionRunState v = (case state_of_name v of None \<Rightarrow> False | Some s \<Rightarrow> ingestionRunTransitions s = [])"

record IngestionRunTransitionFacts =
  failureCode :: "string option"
  terminationRecorded :: bool

definition no_facts :: IngestionRunTransitionFacts where
  "no_facts = \<lparr>failureCode = None, terminationRecorded = False\<rparr>"

definition canTransitionIngestionRun ::
  "string \<Rightarrow> IngestionRunState \<Rightarrow> IngestionRunTransitionFacts \<Rightarrow> bool" where
  "canTransitionIngestionRun from to facts =
     (case state_of_name from of
        None \<Rightarrow> False
      | Some s \<Rightarrow>
          (case find (\<lambda>candidate. t_to candidate = to) (ingestionRunTransitions s) of
             None \<Rightarrow> False
           | Some transition \<Rightarrow>
               \<not> requires_termination transition \<or>
               (failureCode facts = Some ingestionRunTerminatedFailureCode \<and> terminationRecorded facts)))"

datatype run_state_error =
    Illegal_transition string IngestionRunState  \<comment> \<open>Illegal Ingestion Run transition: from -> to.\<close>
  | Transition_without_source                    \<comment> \<open>An Ingestion Run transition requires a source state.\<close>

definition assertIngestionRunTransition ::
  "string \<Rightarrow> IngestionRunState \<Rightarrow> IngestionRunTransitionFacts \<Rightarrow> IngestionRunState option \<Rightarrow> run_state_error + unit" where
  "assertIngestionRunTransition from to facts requiredFrom =
     guard_or (\<not> ((case requiredFrom of None \<Rightarrow> False | Some r \<Rightarrow> from \<noteq> state_name r) \<or> \<not> canTransitionIngestionRun from to facts))
       (Illegal_transition from to)"

definition ingestionRunTransitionSources ::
  "IngestionRunState \<Rightarrow> IngestionRunTransitionFacts \<Rightarrow> IngestionRunState list" where
  "ingestionRunTransitionSources to facts =
     filter (\<lambda>from. canTransitionIngestionRun (state_name from) to facts) ingestionRunStates"

definition sql_quote :: "string \<Rightarrow> string" where
  "sql_quote v = CHR 0x27 # v @ [CHR 0x27]"

fun comma_join :: "string list \<Rightarrow> string" where
  "comma_join [] = []"
| "comma_join [x] = x"
| "comma_join (x # xs) = x @ '', '' @ comma_join xs"

definition state_condition :: "IngestionRunState list \<Rightarrow> string" where
  "state_condition sources = (case sources of
      [s] \<Rightarrow> ''state = '' @ sql_quote (state_name s)
    | _ \<Rightarrow> ''state IN ('' @ comma_join (map (sql_quote \<circ> state_name) sources) @ '')'')"

definition ingestionRunTransitionSql ::
  "IngestionRunState list \<Rightarrow> IngestionRunState \<Rightarrow> IngestionRunTransitionFacts \<Rightarrow> run_state_error + string" where
  "ingestionRunTransitionSql sources to facts =
     (if sources = [] then Inl Transition_without_source
      else rbind (rfold (\<lambda>source _. assertIngestionRunTransition (state_name source) to facts None) sources ()) (\<lambda>_.
        Inr (state_condition sources)))"

subsection \<open>Properties of the table\<close>

lemma ingestionRunStates_all: "s \<in> set ingestionRunStates"
  by (cases s) (simp_all add: ingestionRunStates_def)

lemma state_of_name_name [simp]: "state_of_name (state_name s) = Some s"
  by (cases s) (simp_all add: state_of_name_def ingestionRunStates_def)

declare state_name.simps [simp del]

lemma state_of_name_Some: "state_of_name v = Some s \<longleftrightarrow> v = state_name s"
  by (auto simp: state_of_name_def find_Some_iff) (metis state_of_name_name state_of_name_def find_Some_iff)

lemma state_name_inject [simp]: "state_name s = state_name t \<longleftrightarrow> s = t"
  by (metis option.inject state_of_name_name)

text \<open>The legal edges, as the code decides them.\<close>

lemma canTransition_edges:
  "canTransitionIngestionRun (state_name s) t facts \<longleftrightarrow>
    (s, t) \<in> {(Planning, Collecting), (Planning, Failed), (Collecting, Paused), (Collecting, Parsing), (Collecting, Failed),
       (Paused, Collecting), (Parsing, Reconciling), (Parsing, Failed), (Reconciling, AwaitingApproval), (Reconciling, Failed),
       (AwaitingApproval, Publishing), (AwaitingApproval, Rejected), (AwaitingApproval, Expired), (AwaitingApproval, Failed),
       (Publishing, Published), (Publishing, Failed)} \<or>
    (s = Paused \<and> t = Failed \<and> failureCode facts = Some ingestionRunTerminatedFailureCode \<and> terminationRecorded facts)"
  by (cases s; cases t) (simp_all add: canTransitionIngestionRun_def edge_def)

lemma canTransition_string:
  "canTransitionIngestionRun from t facts \<longleftrightarrow> (\<exists>s. from = state_name s \<and> canTransitionIngestionRun (state_name s) t facts)"
proof (cases "state_of_name from")
  case None
  then show ?thesis by (auto simp: canTransitionIngestionRun_def)
next
  case (Some s)
  then show ?thesis by (auto simp: state_of_name_Some)
qed

text \<open>
  A run's distance from its end in stages; every transition lowers it, except the pause and its
  resumption, which a run may repeat.
\<close>

primrec stages_left :: "IngestionRunState \<Rightarrow> nat" where
  "stages_left Planning = 6"
| "stages_left Collecting = 5"
| "stages_left Paused = 5"
| "stages_left Parsing = 4"
| "stages_left Reconciling = 3"
| "stages_left AwaitingApproval = 2"
| "stages_left Publishing = 1"
| "stages_left Published = 0"
| "stages_left Rejected = 0"
| "stages_left Expired = 0"
| "stages_left Failed = 0"

text \<open>
  C22. The transition table is a sound life cycle: terminal states are exactly those nothing leaves;
  a transition brings the run strictly closer to its end unless it pauses or resumes collection;
  and a paused run fails only through a recorded termination.
\<close>

theorem run_state_machine_sound:
  "(isTerminalIngestionRunState (state_name s) \<longleftrightarrow> (\<forall>t facts. \<not> canTransitionIngestionRun (state_name s) t facts)) \<and>
   (canTransitionIngestionRun (state_name s) t facts \<longrightarrow>
      stages_left t < stages_left s \<or> (s, t) \<in> {(Collecting, Paused), (Paused, Collecting)}) \<and>
   (canTransitionIngestionRun (state_name Paused) Failed facts \<longleftrightarrow>
      failureCode facts = Some ingestionRunTerminatedFailureCode \<and> terminationRecorded facts)"
proof (intro conjI)
  have "isTerminalIngestionRunState (state_name s) \<longleftrightarrow> s \<in> {Published, Rejected, Expired, Failed}"
    by (cases s) (simp_all add: isTerminalIngestionRunState_def)
  moreover have "s \<in> {Published, Rejected, Expired, Failed} \<longleftrightarrow> (\<forall>t facts. \<not> canTransitionIngestionRun (state_name s) t facts)"
    by (cases s) (auto simp: canTransition_edges)
  ultimately show "isTerminalIngestionRunState (state_name s) \<longleftrightarrow> (\<forall>t facts. \<not> canTransitionIngestionRun (state_name s) t facts)"
    by blast
  show "canTransitionIngestionRun (state_name s) t facts \<longrightarrow>
      stages_left t < stages_left s \<or> (s, t) \<in> {(Collecting, Paused), (Paused, Collecting)}"
    unfolding canTransition_edges by auto
qed (simp add: canTransition_edges)

theorem run_state_machine_sound_witness:
  "canTransitionIngestionRun ''paused'' Failed \<lparr>failureCode = Some ''ingestion_run_terminated'', terminationRecorded = True\<rparr>"
  using run_state_machine_sound
    [of Paused Failed "\<lparr>failureCode = Some ''ingestion_run_terminated'', terminationRecorded = True\<rparr>"]
  by (simp add: ingestionRunTerminatedFailureCode_def state_name.simps)

lemma rfold_assert:
  "rfold (\<lambda>source _. assertIngestionRunTransition (state_name source) to facts None) sources () = Inr () \<longleftrightarrow>
    (\<forall>s\<in>set sources. canTransitionIngestionRun (state_name s) to facts)"
  by (induction sources) (auto simp: assertIngestionRunTransition_def guard_or_def)

text \<open>
  The SQL condition of an update names exactly the requested source states, and is produced
  only when every one of them may legally reach the target; the eligible sources computed from the
  table always pass.
\<close>

theorem transition_sql_guards:
  "(ingestionRunTransitionSql sources to facts = Inr sql \<longleftrightarrow>
      sources \<noteq> [] \<and> set sources \<subseteq> set (ingestionRunTransitionSources to facts) \<and> sql = state_condition sources)"
proof -
  have "(\<forall>s\<in>set sources. canTransitionIngestionRun (state_name s) to facts) \<longleftrightarrow>
      set sources \<subseteq> set (ingestionRunTransitionSources to facts)"
    by (auto simp: ingestionRunTransitionSources_def ingestionRunStates_all)
  then show ?thesis
    using rfold_assert [of to facts sources]
    by (cases "rfold (\<lambda>source _. assertIngestionRunTransition (state_name source) to facts None) sources ()")
      (auto simp: ingestionRunTransitionSql_def)
qed

end
