(* ===== verification/Json.thy ===== *)
theory Json
  imports Prelude
begin

text \<open>
  JavaScript values as the components see them: what \<open>JSON.parse\<close> returns, with \<open>JUndef\<close> for
  everything else a value of type \<open>unknown\<close> may be (undefined, functions, symbols, bigints).
  Numbers are split into integers and the rest, which no component accepts.
  An object is the association list of its own properties in insertion order.
\<close>

datatype json =
    JNull
  | JBool bool
  | JNum int
  | JFrac string  \<comment> \<open>a number that is not an integer, by its decimal text\<close>
  | JStr string
  | JArr "json list"
  | JObj "(string \<times> json) list"
  | JUndef

type_synonym json_object = "(string \<times> json) list"

text \<open>Property access; a missing property reads as undefined.\<close>

definition jget :: "json_object \<Rightarrow> string \<Rightarrow> json" where
  "jget obj key = (case map_of obj key of Some v \<Rightarrow> v | None \<Rightarrow> JUndef)"

definition has_own :: "json_object \<Rightarrow> string \<Rightarrow> bool" where
  "has_own obj key \<longleftrightarrow> map_of obj key \<noteq> None"

definition nullable :: "string option \<Rightarrow> json" where
  "nullable v = (case v of None \<Rightarrow> JNull | Some s \<Rightarrow> JStr s)"

definition is_safe_integer :: "int \<Rightarrow> bool" where
  "is_safe_integer n \<longleftrightarrow> \<bar>n\<bar> \<le> 9007199254740991"

lemma nullable_inject [simp]: "nullable v = nullable w \<longleftrightarrow> v = w"
  by (auto simp: nullable_def split: option.splits)

lemma nullable_simps [simp]:
  "nullable v = JNull \<longleftrightarrow> v = None" "nullable v = JStr s \<longleftrightarrow> v = Some s" "JNull = nullable v \<longleftrightarrow> v = None"
  "JStr s = nullable v \<longleftrightarrow> v = Some s"
  by (auto simp: nullable_def split: option.splits)

lemma jget_has_own: "jget obj key \<noteq> JUndef \<Longrightarrow> has_own obj key"
  by (auto simp: jget_def has_own_def split: option.splits)

end
