(* ===== verification/Run_Events.thy ===== *)
theory Run_Events
  imports Run_State Json
begin

text \<open>
  The event history of an Ingestion Run, \<open>src/src/catalogue/shared/ingestion-run-events.ts\<close>.

  An event row carries the results of the two standard parsers the code calls on it:
  \<open>ev_payload\<close> is \<open>JSON.parse(payload_json)\<close> (\<open>None\<close> where it throws) and \<open>ev_occurred\<close> is
  \<open>Date.parse(occurred_at)\<close> (\<open>None\<close> where it is not finite). The projected row \<open>RunCurrent\<close> is the
  JSON object the payload holds.
\<close>

definition runEventKinds :: "string list" where
  "runEventKinds = [''created'', ''stage_changed'', ''collection_paused'', ''collection_resumed'', ''collection_terminated'',
     ''candidate_prepared'', ''candidate_blocked'', ''approval_reserved'', ''rejected'', ''expired'', ''failed'', ''published'']"

definition runCurrentNullableColumns :: "string list" where
  "runCurrentNullableColumns = [''candidate_digest'', ''candidate_catalogue_digest'', ''candidate_created_at'',
     ''approval_deadline'', ''approved_at'', ''approved_candidate_digest'', ''approved_expected_revision_id'',
     ''failure_code'', ''terminal_at'', ''publication_revision_id'', ''publication_started_at'',
     ''publication_reconcile_after'', ''publication_manifest_digest'', ''publication_writer_token'',
     ''published_revision_id'', ''export_manifest_digest'', ''publication_outcome'', ''resulting_revision_id'',
     ''freshness_checked_at'']"

definition runCurrentColumns :: "string list" where
  "runCurrentColumns = [''ingestion_run_id'', ''last_event_sequence'', ''last_event_id'', ''previous_state'', ''state'',
     ''completed_stage_count'', ''candidate_payload_event_sequence'', ''diagnostics_event_sequence''] @ runCurrentNullableColumns"

record RunEventRow =
  ev_run :: string
  ev_sequence :: int
  ev_id :: string
  ev_kind :: string
  ev_occurred :: "int option"
  ev_from :: "string option"
  ev_to :: string
  ev_payload :: "json option"

datatype run_event_error =
    Invalid_history       \<comment> \<open>Invalid Ingestion Run event history.\<close>
  | Payload_syntax        \<comment> \<open>the SyntaxError of \<open>JSON.parse\<close>\<close>
  | History_missing       \<comment> \<open>Ingestion Run event history is missing.\<close>
  | Progress_not_prefix   \<comment> \<open>Ingestion Run progress must be a completed stage prefix.\<close>

definition emptyRunCurrent :: "string \<Rightarrow> string \<Rightarrow> IngestionRunState \<Rightarrow> json_object" where
  "emptyRunCurrent runId eventId state =
     map (\<lambda>column. (column, JNull)) runCurrentNullableColumns @
     [(''ingestion_run_id'', JStr runId), (''last_event_sequence'', JNum 1), (''last_event_id'', JStr eventId),
      (''previous_state'', JNull), (''state'', JStr (state_name state)),
      (''completed_stage_count'', JNum (if state = Planning then 0 else 1)),
      (''candidate_payload_event_sequence'', JNull), (''diagnostics_event_sequence'', JNull)]"

subsection \<open>The checks of one event\<close>

definition event_ok :: "RunEventRow \<Rightarrow> bool" where
  "event_ok e \<longleftrightarrow> ev_kind e \<in> set runEventKinds \<and> isIngestionRunState (ev_to e) \<and> ev_occurred e \<noteq> None"

definition columns_ok :: "json_object \<Rightarrow> bool" where
  "columns_ok cur \<longleftrightarrow> list_all (has_own cur) runCurrentColumns \<and> list_all (\<lambda>(key, v). key \<in> set runCurrentColumns) cur"

definition identity_ok :: "json_object \<Rightarrow> RunEventRow \<Rightarrow> bool" where
  "identity_ok cur e \<longleftrightarrow>
     jget cur ''ingestion_run_id'' = JStr (ev_run e) \<and> jget cur ''last_event_id'' = JStr (ev_id e) \<and>
     jget cur ''last_event_sequence'' = JNum (ev_sequence e) \<and> jget cur ''state'' = JStr (ev_to e) \<and>
     jget cur ''previous_state'' = nullable (ev_from e)"

definition is_null_or_string :: "json \<Rightarrow> bool" where
  "is_null_or_string v = (case v of JNull \<Rightarrow> True | JStr _ \<Rightarrow> True | _ \<Rightarrow> False)"

definition scalars_ok :: "json_object \<Rightarrow> bool" where
  "scalars_ok cur \<longleftrightarrow>
     (case jget cur ''completed_stage_count'' of JNum n \<Rightarrow> 0 \<le> n \<and> n \<le> int (length activeRunStages) | _ \<Rightarrow> False) \<and>
     list_all (\<lambda>key. is_null_or_string (jget cur key)) runCurrentNullableColumns"

definition ref_ok :: "RunEventRow \<Rightarrow> json \<Rightarrow> bool" where
  "ref_ok e ref = (case ref of JNull \<Rightarrow> True | JNum n \<Rightarrow> 1 \<le> n \<and> n \<le> ev_sequence e | _ \<Rightarrow> False)"

definition positive_safe :: "json \<Rightarrow> bool" where
  "positive_safe v = (case v of JNum n \<Rightarrow> is_safe_integer n \<and> 1 \<le> n | _ \<Rightarrow> False)"

definition retained_ok :: "json_object \<Rightarrow> bool" where
  "retained_ok retained = list_all (\<lambda>(kind, metadata). kind \<in> {''candidate'', ''diagnostics''} \<and>
     (case metadata of JObj m \<Rightarrow> positive_safe (jget m ''chunks'') \<and> positive_safe (jget m ''bytes'') | _ \<Rightarrow> False)) retained"

definition reference_retained :: "json_object \<Rightarrow> json_object \<Rightarrow> RunEventRow \<Rightarrow> string \<Rightarrow> string \<Rightarrow> bool" where
  "reference_retained cur retained e column kind \<longleftrightarrow>
     (jget cur column = JNum (ev_sequence e) \<longrightarrow> has_own retained kind)"

definition runGames :: "string list" where
  "runGames = [''one-piece'', ''fusion-world'', ''digimon'', ''gundam'', ''riftbound'', ''magic'', ''pokemon'']"

definition first_ok :: "json_object \<Rightarrow> RunEventRow \<Rightarrow> bool" where
  "first_ok payload e \<longleftrightarrow> ev_sequence e = 1 \<and> ev_kind e = ''created'' \<and> ev_from e = None \<and>
     ev_to e \<in> {''planning'', ''collecting''} \<and>
     (case jget payload ''selected_games'' of
        JArr games \<Rightarrow> games \<noteq> [] \<and> distinct games \<and> list_all (\<lambda>g. g \<in> JStr ` set runGames) games
      | _ \<Rightarrow> False)"

definition immutable_columns :: "string list" where
  "immutable_columns = [''candidate_digest'', ''candidate_catalogue_digest'', ''candidate_created_at'', ''approval_deadline'',
     ''approved_at'', ''approved_candidate_digest'', ''approved_expected_revision_id'']"

definition reference_columns :: "string list" where
  "reference_columns = [''candidate_payload_event_sequence'', ''diagnostics_event_sequence'']"

definition failure_of :: "json_object \<Rightarrow> string option" where
  "failure_of cur = (case jget cur ''failure_code'' of JStr s \<Rightarrow> Some s | _ \<Rightarrow> None)"

definition facts_of :: "json_object \<Rightarrow> RunEventRow \<Rightarrow> IngestionRunTransitionFacts" where
  "facts_of cur e = \<lparr>failureCode = failure_of cur, terminationRecorded = (ev_kind e = ''collection_terminated'')\<rparr>"

definition later_number :: "json \<Rightarrow> json \<Rightarrow> bool" where
  "later_number v w = (case (v, w) of (JNum m, JNum n) \<Rightarrow> m \<le> n | _ \<Rightarrow> True)"

definition next_ok :: "json_object \<Rightarrow> json_object \<Rightarrow> RunEventRow \<Rightarrow> bool" where
  "next_ok prev cur e \<longleftrightarrow>
     ev_kind e \<noteq> ''created'' \<and> JStr (ev_run e) = jget prev ''ingestion_run_id'' \<and>
     (case jget prev ''last_event_sequence'' of JNum n \<Rightarrow> ev_sequence e = n + 1 | _ \<Rightarrow> False) \<and>
     nullable (ev_from e) = jget prev ''state'' \<and>
     (case (jget prev ''state'', state_of_name (ev_to e)) of
        (JStr from, Some to) \<Rightarrow> canTransitionIngestionRun from to (facts_of cur e) | _ \<Rightarrow> False) \<and>
     later_number (jget prev ''completed_stage_count'') (jget cur ''completed_stage_count'') \<and>
     list_all (\<lambda>column. jget prev column \<noteq> JNull \<longrightarrow> jget prev column = jget cur column) immutable_columns \<and>
     list_all (\<lambda>column. jget cur column = jget prev column \<or> jget cur column = JNum (ev_sequence e)) reference_columns"

definition kindStates :: "string \<rightharpoonup> IngestionRunState list" where
  "kindStates = map_of
    [(''collection_paused'', [Paused]), (''collection_resumed'', [Collecting]), (''collection_terminated'', [Failed]),
     (''candidate_prepared'', [AwaitingApproval]), (''candidate_blocked'', [Failed]), (''approval_reserved'', [Publishing]),
     (''rejected'', [Rejected]), (''expired'', [Expired]), (''failed'', [Failed]), (''published'', [Published]),
     (''stage_changed'', [Collecting, Parsing, Reconciling])]"

definition kind_state_ok :: "RunEventRow \<Rightarrow> bool" where
  "kind_state_ok e = (case kindStates (ev_kind e) of None \<Rightarrow> True | Some states \<Rightarrow> ev_to e \<in> state_name ` set states)"

text \<open>The current row and the retained payloads of an event's payload.\<close>

definition payload_parts :: "json \<Rightarrow> (json_object \<times> json_object \<times> json_object) option" where
  "payload_parts payload = (case payload of
      JObj p \<Rightarrow> (case (jget p ''current'', jget p ''payloads'') of
        (JObj cur, JObj retained) \<Rightarrow> Some (p, cur, retained) | _ \<Rightarrow> None)
    | _ \<Rightarrow> None)"

definition projectIngestionRunEvent :: "json_object option \<Rightarrow> RunEventRow \<Rightarrow> run_event_error + json_object" where
  "projectIngestionRunEvent previous e =
     rbind (guard_or (event_ok e) Invalid_history) (\<lambda>_.
     case ev_payload e of
       None \<Rightarrow> Inl Payload_syntax
     | Some payload \<Rightarrow>
         (case payload_parts payload of
            None \<Rightarrow> Inl Invalid_history
          | Some (p, cur, retained) \<Rightarrow>
              if columns_ok cur \<and> identity_ok cur e \<and> scalars_ok cur \<and>
                 ref_ok e (jget cur ''candidate_payload_event_sequence'') \<and> ref_ok e (jget cur ''diagnostics_event_sequence'') \<and>
                 retained_ok retained \<and>
                 reference_retained cur retained e ''candidate_payload_event_sequence'' ''candidate'' \<and>
                 reference_retained cur retained e ''diagnostics_event_sequence'' ''diagnostics'' \<and>
                 (case previous of None \<Rightarrow> first_ok p e | Some prev \<Rightarrow> next_ok prev cur e) \<and>
                 kind_state_ok e
              then Inr cur else Inl Invalid_history))"

subsection \<open>Replaying a retained history\<close>

definition fold_event :: "RunEventRow \<Rightarrow> json_object option \<Rightarrow> run_event_error + json_object option" where
  "fold_event e current = rbind (projectIngestionRunEvent current e) (\<lambda>cur. Inr (Some cur))"

text \<open>The whole history at once.\<close>

definition replay :: "RunEventRow list \<Rightarrow> run_event_error + json_object option" where
  "replay events = rfold fold_event events None"

text \<open>
  \<open>foldRunEvents\<close> of \<open>ingestion-run-event-repository.ts\<close>: pages of at most 100 rows after the last
  projected sequence number, where \<open>rows\<close> is the run's part of the table.
\<close>

definition last_sequence :: "json_object option \<Rightarrow> int" where
  "last_sequence current = (case current of None \<Rightarrow> 0
     | Some cur \<Rightarrow> (case jget cur ''last_event_sequence'' of JNum n \<Rightarrow> n | _ \<Rightarrow> 0))"

definition events_after :: "RunEventRow list \<Rightarrow> int \<Rightarrow> RunEventRow list" where
  "events_after rows afterSequence = filter (\<lambda>e. afterSequence < ev_sequence e) (sort_key ev_sequence rows)"

definition runEventsPage :: "RunEventRow list \<Rightarrow> int \<Rightarrow> RunEventRow list" where
  "runEventsPage rows afterSequence = take 100 (events_after rows afterSequence)"

lemma project_sequence:
  "projectIngestionRunEvent previous e = Inr cur \<Longrightarrow> jget cur ''last_event_sequence'' = JNum (ev_sequence e)"
  by (auto simp: projectIngestionRunEvent_def errs identity_ok_def split: option.splits prod.splits if_splits)

lemma rfold_last_sequence:
  assumes "rfold fold_event es current = Inr c" and "es \<noteq> []"
  shows "last_sequence c = ev_sequence (last es)"
proof -
  have "rfold fold_event (butlast es @ [last es]) current = Inr c" using assms by simp
  then obtain d where "rfold fold_event [last es] d = Inr c" by (auto simp only: rfold_append rbind_eq_Inr)
  then show ?thesis by (auto simp: fold_event_def rbind_eq_Inr last_sequence_def dest!: project_sequence)
qed

lemma length_filter_less_filter:
  assumes "\<And>x. Q x \<Longrightarrow> P x" and "\<exists>x\<in>set xs. P x \<and> \<not> Q x"
  shows "length (filter Q xs) < length (filter P xs)"
proof -
  have "filter Q xs = filter Q (filter P xs)" using assms(1) by (auto intro: filter_cong)
  moreover have "length (filter Q (filter P xs)) < length (filter P xs)"
    using assms(2) by (auto intro: length_filter_less simp del: filter_filter)
  ultimately show ?thesis by simp
qed

function fold_pages :: "RunEventRow list \<Rightarrow> json_object option \<Rightarrow> run_event_error + json_object option" where
  "fold_pages rows current =
     (let page = runEventsPage rows (last_sequence current)
      in rbind (rfold fold_event page current) (\<lambda>c. if length page < 100 then Inr c else fold_pages rows c))"
  by pat_completeness auto
termination
proof (relation "measure (\<lambda>(rows, current). length (events_after rows (last_sequence current)))", goal_cases)
  case (2 rows current page c)
  let ?L = "events_after rows (last_sequence current)"
  have page: "page \<noteq> []" using 2(3) by auto
  have "last page \<in> set ?L" using 2(1) last_in_set [OF page] by (auto simp: runEventsPage_def dest: in_set_takeD)
  moreover have c: "last_sequence c = ev_sequence (last page)" using rfold_last_sequence [OF 2(2) page] .
  ultimately have "last_sequence current < last_sequence c" "\<exists>e\<in>set (sort_key ev_sequence rows). last_sequence current < ev_sequence e \<and> \<not> last_sequence c < ev_sequence e"
    by (auto simp: events_after_def)
  then show ?case by (auto simp: events_after_def intro!: length_filter_less_filter)
qed simp

declare fold_pages.simps [simp del]

definition foldRunEvents :: "RunEventRow list \<Rightarrow> run_event_error + json_object" where
  "foldRunEvents rows = rbind (fold_pages rows None) (\<lambda>c. case c of None \<Rightarrow> Inl History_missing | Some cur \<Rightarrow> Inr cur)"

subsection \<open>Progress\<close>

definition runCompletedStageCount :: "json \<Rightarrow> run_event_error + nat" where
  "runCompletedStageCount progress = (case progress of
      JObj p \<Rightarrow> (case jget p ''completed_stages'' of
        JArr stages \<Rightarrow>
          if list_ex (\<lambda>(i, stage). \<not> (i < length activeRunStages \<and> stage = JStr (state_name (activeRunStages ! i))))
               (enumerate 0 stages)
          then Inl Progress_not_prefix else Inr (length stages)
      | _ \<Rightarrow> Inl Progress_not_prefix)
    | _ \<Rightarrow> Inl Progress_not_prefix)"

subsection \<open>What an accepted event guarantees\<close>

lemma project_Inr:
  "projectIngestionRunEvent previous e = Inr cur \<longleftrightarrow>
    event_ok e \<and> (\<exists>payload p retained. ev_payload e = Some payload \<and> payload_parts payload = Some (p, cur, retained) \<and>
      columns_ok cur \<and> identity_ok cur e \<and> scalars_ok cur \<and>
      ref_ok e (jget cur ''candidate_payload_event_sequence'') \<and> ref_ok e (jget cur ''diagnostics_event_sequence'') \<and>
      retained_ok retained \<and>
      reference_retained cur retained e ''candidate_payload_event_sequence'' ''candidate'' \<and>
      reference_retained cur retained e ''diagnostics_event_sequence'' ''diagnostics'' \<and>
      (case previous of None \<Rightarrow> first_ok p e | Some prev \<Rightarrow> next_ok prev cur e) \<and> kind_state_ok e)"
  by (auto simp: projectIngestionRunEvent_def errs split: option.splits prod.splits if_splits)

lemma replay_Nil: "replay [] = Inr None"
  by (simp add: replay_def)

lemma replay_snoc:
  "replay (es @ [e]) = Inr (Some cur) \<longleftrightarrow> (\<exists>prev. replay es = Inr prev \<and> projectIngestionRunEvent prev e = Inr cur)"
  by (auto simp: replay_def rfold_append fold_event_def rbind_eq_Inr)

lemma replay_None: "replay es = Inr None \<longleftrightarrow> es = []"
proof (cases es rule: rev_cases)
  case (snoc es' e)
  have "replay (es' @ [e]) \<noteq> Inr None" by (auto simp: replay_def rfold_append fold_event_def rbind_eq_Inr)
  then show ?thesis by (simp add: snoc)
qed (simp add: replay_Nil)

lemma replay_prefix: "replay (es @ fs) = Inr c \<Longrightarrow> \<exists>d. replay es = Inr d"
  by (auto simp: replay_def rfold_append rbind_eq_Inr)

text \<open>The retained payload kinds of an event, as a later event may refer to them.\<close>

definition retains :: "RunEventRow \<Rightarrow> string \<Rightarrow> bool" where
  "retains e kind \<longleftrightarrow> (\<exists>payload p cur retained. ev_payload e = Some payload \<and>
     payload_parts payload = Some (p, cur, retained) \<and> retained_ok retained \<and> has_own retained kind)"

text \<open>An edge of the state machine, taken by event \<open>e\<close> from the state named \<open>from\<close>.\<close>

definition legal_step :: "string \<Rightarrow> RunEventRow \<Rightarrow> bool" where
  "legal_step from e \<longleftrightarrow> ev_from e = Some from \<and> ev_kind e \<noteq> ''created'' \<and>
     (\<exists>to facts. ev_to e = state_name to \<and> canTransitionIngestionRun from to facts \<and>
        (terminationRecorded facts \<longrightarrow> ev_kind e = ''collection_terminated''))"

definition history_ok :: "RunEventRow list \<Rightarrow> json_object \<Rightarrow> bool" where
  "history_ok es cur \<longleftrightarrow> es \<noteq> [] \<and>
     map ev_sequence es = map int [1..<length es + 1] \<and>
     (\<forall>e\<in>set es. JStr (ev_run e) = jget cur ''ingestion_run_id'') \<and>
     ev_kind (hd es) = ''created'' \<and>
     (\<forall>i. Suc i < length es \<longrightarrow> legal_step (ev_to (es ! i)) (es ! Suc i)) \<and>
     jget cur ''state'' = JStr (ev_to (last es))"

lemma history_first:
  assumes "projectIngestionRunEvent None e = Inr cur"
  shows "history_ok [e] cur"
  using assms by (auto simp: project_Inr first_ok_def history_ok_def identity_ok_def)

lemma history_snoc:
  assumes h: "history_ok es prev" and seq: "jget prev ''last_event_sequence'' = JNum (int (length es))"
    and p: "projectIngestionRunEvent (Some prev) e = Inr cur"
  shows "history_ok (es @ [e]) cur"
proof -
  from p have n: "next_ok prev cur e" and id: "identity_ok cur e" by (auto simp: project_Inr)
  from h have es: "es \<noteq> []" "jget prev ''state'' = JStr (ev_to (last es))" by (auto simp: history_ok_def)
  have seq': "ev_sequence e = int (length es) + 1" using n seq by (simp add: next_ok_def)
  have step: "legal_step (ev_to (last es)) e"
    using n es(2) by (auto simp: next_ok_def legal_step_def state_of_name_Some facts_of_def split: option.splits
        intro!: exI [of _ "facts_of cur e"])
  have runs: "\<forall>e'\<in>set (es @ [e]). JStr (ev_run e') = jget cur ''ingestion_run_id''"
    using h n id by (auto simp: history_ok_def next_ok_def identity_ok_def)
  have steps: "legal_step (ev_to ((es @ [e]) ! i)) ((es @ [e]) ! Suc i)" if "Suc i < length (es @ [e])" for i
  proof (cases "Suc i < length es")
    case True
    then show ?thesis using h by (simp add: history_ok_def nth_append)
  next
    case False
    then have "i = length es - 1" using that es(1) by auto
    then show ?thesis using step es(1) by (simp add: nth_append last_conv_nth)
  qed
  show ?thesis
    using h runs steps seq' id es(1) by (auto simp: history_ok_def identity_ok_def)
qed

lemma replay_history:
  "replay es = Inr (Some cur) \<Longrightarrow> history_ok es cur \<and> jget cur ''last_event_sequence'' = JNum (int (length es))"
proof (induction es arbitrary: cur rule: rev_induct)
  case Nil
  then show ?case by (simp add: replay_Nil)
next
  case (snoc e es)
  from snoc.prems obtain prev where prev: "replay es = Inr prev" "projectIngestionRunEvent prev e = Inr cur"
    by (auto simp: replay_snoc)
  have seq: "jget cur ''last_event_sequence'' = JNum (ev_sequence e)" using prev(2) by (rule project_sequence)
  show ?case
  proof (cases prev)
    case None
    then show ?thesis using prev seq history_first [of e cur] by (auto simp: replay_None history_ok_def)
  next
    case (Some p)
    then have IH: "history_ok es p" "jget p ''last_event_sequence'' = JNum (int (length es))" using snoc.IH prev(1) by simp_all
    then have "history_ok (es @ [e]) cur" using history_snoc prev(2) Some by blast
    moreover from this have "ev_sequence e = int (length es) + 1" by (simp add: history_ok_def)
    ultimately show ?thesis using seq by simp
  qed
qed

lemma project_next:
  assumes "replay es = Inr (Some prev)" and "projectIngestionRunEvent (Some prev) e = Inr cur"
  shows "next_ok prev cur e"
  using assms(2) by (auto simp: project_Inr)

lemma replay_scalars:
  assumes "replay es = Inr (Some cur)"
  shows "\<exists>n. jget cur ''completed_stage_count'' = JNum n \<and> 0 \<le> n \<and> n \<le> 6"
proof -
  obtain es' e where es: "es = es' @ [e]" using assms by (cases es rule: rev_cases) (auto simp: replay_Nil)
  have "scalars_ok cur" using assms by (auto simp: es replay_snoc project_Inr)
  then show ?thesis by (auto simp: scalars_ok_def activeRunStages_def split: json.splits)
qed

lemma replay_monotone:
  "replay es = Inr (Some prev) \<Longrightarrow> replay (es @ fs) = Inr (Some cur) \<Longrightarrow>
    (\<forall>column\<in>set immutable_columns. jget prev column \<noteq> JNull \<longrightarrow> jget cur column = jget prev column) \<and>
    later_number (jget prev ''completed_stage_count'') (jget cur ''completed_stage_count'')"
proof (induction fs arbitrary: cur rule: rev_induct)
  case Nil
  then show ?case by (auto simp: later_number_def split: json.splits)
next
  case (snoc e fs)
  from snoc.prems(2) obtain mid where mid: "replay (es @ fs) = Inr mid" "projectIngestionRunEvent mid e = Inr cur"
    using replay_snoc [of "es @ fs" e cur] by auto
  have "es \<noteq> []" using snoc.prems(1) by (auto simp: replay_Nil)
  then have "mid \<noteq> None" using mid(1) replay_None [of "es @ fs"] by auto
  then obtain m where m: "mid = Some m" by auto
  have n: "next_ok m cur e" using project_next mid m by blast
  obtain x y z where nums: "jget prev ''completed_stage_count'' = JNum x" "jget m ''completed_stage_count'' = JNum y"
    "jget cur ''completed_stage_count'' = JNum z"
    using replay_scalars [OF snoc.prems(1)] replay_scalars [OF mid(1) [unfolded m]] replay_scalars [OF snoc.prems(2)] by blast
  show ?case
    using snoc.IH [OF snoc.prems(1) mid(1) [unfolded m]] n nums
    by (auto simp: next_ok_def list_all_iff later_number_def)
qed

definition reference_ok :: "RunEventRow list \<Rightarrow> string \<Rightarrow> json \<Rightarrow> bool" where
  "reference_ok es kind ref \<longleftrightarrow>
     ref = JNull \<or> (\<exists>k. 1 \<le> k \<and> k \<le> length es \<and> ref = JNum (int k) \<and> retains (es ! (k - 1)) kind)"

lemma reference_ok_append: "reference_ok es kind ref \<Longrightarrow> reference_ok (es @ fs) kind ref"
proof -
  assume ref: "reference_ok es kind ref"
  show ?thesis
  proof (cases "ref = JNull")
    case False
    with ref obtain k where "1 \<le> k" "k \<le> length es" "ref = JNum (int k)" "retains (es ! (k - 1)) kind"
      by (auto simp: reference_ok_def)
    moreover from this have "(es @ fs) ! (k - 1) = es ! (k - 1)" by (intro nth_append_left) simp
    ultimately show ?thesis unfolding reference_ok_def by (intro disjI2 exI [of _ k]) simp
  qed (simp add: reference_ok_def)
qed

lemma reference_new:
  assumes "reference_retained cur retained e column kind" "retained_ok retained" "ev_payload e = Some payload"
    "payload_parts payload = Some (p, cur, retained)" "ev_sequence e = int (length es) + 1" "jget cur column = JNum (ev_sequence e)"
  shows "reference_ok (es @ [e]) kind (jget cur column)"
proof -
  have "retains e kind" using assms by (auto simp: retains_def reference_retained_def)
  then show ?thesis
    using assms(5,6) unfolding reference_ok_def by (intro disjI2 exI [of _ "length es + 1"]) simp
qed

lemma replay_references:
  "replay es = Inr (Some cur) \<Longrightarrow> reference_ok es ''candidate'' (jget cur ''candidate_payload_event_sequence'') \<and>
     reference_ok es ''diagnostics'' (jget cur ''diagnostics_event_sequence'')"
proof (induction es arbitrary: cur rule: rev_induct)
  case Nil
  then show ?case by (simp add: replay_Nil)
next
  case (snoc e es)
  from snoc.prems obtain prev where prev: "replay es = Inr prev" "projectIngestionRunEvent prev e = Inr cur"
    by (auto simp: replay_snoc)
  from prev(2) obtain payload p retained where parts: "ev_payload e = Some payload" "payload_parts payload = Some (p, cur, retained)"
    "ref_ok e (jget cur ''candidate_payload_event_sequence'')" "ref_ok e (jget cur ''diagnostics_event_sequence'')"
    "retained_ok retained"
    "reference_retained cur retained e ''candidate_payload_event_sequence'' ''candidate''"
    "reference_retained cur retained e ''diagnostics_event_sequence'' ''diagnostics''"
    "case prev of None \<Rightarrow> first_ok p e | Some prev \<Rightarrow> next_ok prev cur e"
    by (auto simp: project_Inr)
  have seq: "ev_sequence e = int (length es) + 1"
    using replay_history [OF snoc.prems] by (simp add: history_ok_def)
  note new = reference_new [OF parts(6,5,1,2) seq] reference_new [OF parts(7,5,1,2) seq]
  show ?case
  proof (cases prev)
    case None
    then have "ev_sequence e = 1" using parts(8) by (simp add: first_ok_def)
    then show ?thesis
      using parts(3,4) new by (auto simp: ref_ok_def split: json.splits) (auto simp: reference_ok_def)
  next
    case (Some m)
    then have "next_ok m cur e" using parts(8) by simp
    then have "jget cur c = jget m c \<or> jget cur c = JNum (ev_sequence e)" if "c \<in> set reference_columns" for c
      using that by (auto simp: next_ok_def list_all_iff)
    from this [of "''candidate_payload_event_sequence''"] this [of "''diagnostics_event_sequence''"]
    show ?thesis
      using snoc.IH [of m] prev(1) Some new by (auto simp: reference_columns_def intro: reference_ok_append)
  qed
qed

subsection \<open>Paging\<close>

lemma sort_key_distinct:
  "distinct (map ev_sequence rows) \<Longrightarrow> distinct (map ev_sequence (sort_key ev_sequence rows))"
  by (metis distinct_map distinct_sort set_sort)

lemma strictly_sorted_after:
  assumes "sorted (map f L)" "distinct (map f L)" "n < length L"
  shows "filter (\<lambda>e. f (L ! n) < f e) L = drop (Suc n) L"
proof -
  have L: "L = take (Suc n) L @ drop (Suc n) L" by simp
  have "\<not> f (L ! n) < f e" if "e \<in> set (take (Suc n) L)" for e
  proof -
    from that obtain i where "i \<le> n" "e = L ! i" using assms(3) by (auto simp: in_set_conv_nth less_Suc_eq_le)
    then show ?thesis using assms(1,3) sorted_nth_mono [of "map f L" i n] by simp
  qed
  moreover have "f (L ! n) < f e" if "e \<in> set (drop (Suc n) L)" for e
  proof -
    from that obtain i where i: "i < length L - Suc n" "e = L ! (Suc n + i)" by (auto simp: in_set_conv_nth)
    define j where "j = Suc n + i"
    have j: "n < j" "j < length L" "e = L ! j" using i assms(3) by (auto simp: j_def)
    then have "f (L ! n) \<le> f (L ! j)" "f (L ! n) \<noteq> f (L ! j)"
      using assms sorted_nth_mono [of "map f L" n j] nth_eq_iff_index_eq [of "map f L" n j] by auto
    then show ?thesis using j by simp
  qed
  ultimately show ?thesis by (subst L, subst filter_append) (simp add: filter_False filter_True)
qed

lemma events_after_drop:
  assumes d: "distinct (map ev_sequence rows)" and n: "n < length (events_after rows a)"
  shows "events_after rows (ev_sequence (events_after rows a ! n)) = drop (Suc n) (events_after rows a)"
proof -
  let ?L = "events_after rows a"
  have s: "sorted (map ev_sequence ?L)" unfolding events_after_def by (intro sorted_filter) simp
  have "distinct (map ev_sequence ?L)" unfolding events_after_def by (rule distinct_map_filter [OF sort_key_distinct [OF d]])
  then have "filter (\<lambda>e. ev_sequence (?L ! n) < ev_sequence e) ?L = drop (Suc n) ?L"
    using s n by (intro strictly_sorted_after)
  moreover have "a < ev_sequence (?L ! n)" using nth_mem [OF n] by (auto simp: events_after_def)
  then have "filter (\<lambda>e. ev_sequence (?L ! n) < ev_sequence e) ?L = events_after rows (ev_sequence (?L ! n))"
    unfolding events_after_def [of rows] filter_filter by (intro filter_cong) auto
  ultimately show ?thesis by simp
qed

lemma fold_pages_rfold:
  assumes d: "distinct (map ev_sequence rows)"
  shows "fold_pages rows current = rfold fold_event (events_after rows (last_sequence current)) current"
  using d
proof (induction rows current rule: fold_pages.induct)
  case (1 rows current)
  let ?L = "events_after rows (last_sequence current)"
  define page where "page = runEventsPage rows (last_sequence current)"
  have split: "rfold fold_event ?L current = rbind (rfold fold_event page current) (rfold fold_event (drop 100 ?L))"
    using rfold_append [of fold_event page "drop 100 ?L" current] by (simp add: page_def runEventsPage_def)
  have eq: "fold_pages rows current =
      rbind (rfold fold_event page current) (\<lambda>c. if length page < 100 then Inr c else fold_pages rows c)"
    by (simp add: fold_pages.simps [of rows current] page_def Let_def)
  show ?case
  proof (cases "rfold fold_event page current")
    case (Inl e)
    then show ?thesis by (simp add: eq split)
  next
    case (Inr c)
    show ?thesis
    proof (cases "length page < 100")
      case True
      then have "drop 100 ?L = []" by (simp add: page_def runEventsPage_def)
      then show ?thesis using Inr True by (simp add: eq split)
    next
      case False
      then have len: "99 < length ?L" "length page = 100" by (simp_all add: page_def runEventsPage_def)
      then have "last page = ?L ! 99" by (subst last_conv_nth) (auto simp: page_def runEventsPage_def)
      then have "last_sequence c = ev_sequence (?L ! 99)" using rfold_last_sequence [OF Inr] len(2) by force
      then have "events_after rows (last_sequence c) = drop 100 ?L" using events_after_drop [OF 1(2) len(1)] by simp
      then show ?thesis using 1(1) [OF page_def Inr False 1(2)] Inr False by (simp add: eq split)
    qed
  qed
qed

lemma foldRunEvents_replay:
  assumes "distinct (map ev_sequence rows)" and "\<forall>e\<in>set rows. 1 \<le> ev_sequence e"
  shows "foldRunEvents rows = Inr cur \<longleftrightarrow> replay (sort_key ev_sequence rows) = Inr (Some cur)"
proof -
  have "events_after rows (last_sequence None) = sort_key ev_sequence rows"
    using assms(2) by (auto simp: events_after_def last_sequence_def filter_id_conv)
  then have "fold_pages rows None = replay (sort_key ev_sequence rows)"
    using fold_pages_rfold [OF assms(1), of None] by (simp add: replay_def)
  then show ?thesis by (auto simp: foldRunEvents_def rbind_eq_Inr split: option.splits)
qed

subsection \<open>A concrete history\<close>

definition sample_event :: "int \<Rightarrow> string \<Rightarrow> IngestionRunState option \<Rightarrow> IngestionRunState \<Rightarrow> json_object \<Rightarrow> RunEventRow" where
  "sample_event n kind from to extra = \<lparr>ev_run = ''r'', ev_sequence = n, ev_id = ''e'', ev_kind = kind, ev_occurred = Some 0,
     ev_from = map_option state_name from, ev_to = state_name to,
     ev_payload = Some (JObj ([(''current'', JObj (map (\<lambda>(column, v). (column,
       if column = ''last_event_sequence'' then JNum n
       else if column = ''state'' then JStr (state_name to)
       else if column = ''previous_state'' then nullable (map_option state_name from) else v))
         (emptyRunCurrent ''r'' ''e'' Collecting))), (''payloads'', JObj [])] @ extra))\<rparr>"

definition sample_history :: "RunEventRow list" where
  "sample_history = [sample_event 1 ''created'' None Collecting [(''selected_games'', JArr [JStr ''magic''])],
     sample_event 2 ''collection_paused'' (Some Collecting) Paused []]"

definition sample_current :: json_object where
  "sample_current = the (projr (replay sample_history))"

lemma sample_replay: "replay sample_history = Inr (Some sample_current)"
proof -
  have "(case replay sample_history of Inr (Some cur) \<Rightarrow> True | _ \<Rightarrow> False) = True" by code_simp
  then show ?thesis by (auto simp: sample_current_def split: sum.splits option.splits)
qed

lemma sample_replay_first: "replay (take 1 sample_history) = Inr (Some (the (projr (replay (take 1 sample_history)))))"
proof -
  have "(case replay (take 1 sample_history) of Inr (Some cur) \<Rightarrow> True | _ \<Rightarrow> False) = True" by code_simp
  then show ?thesis by (auto split: sum.splits option.splits)
qed

subsection \<open>Properties\<close>

text \<open>
  C29. An accepted history is a path of the state machine: it starts with the creation event, its
  sequence numbers are 1, 2, 3 and so on without gap, all its events belong to one run, each later
  event takes a legal transition out of the state its predecessor reached (so nothing follows a
  terminal state), and the projected row is in the state of the last event.
\<close>

theorem run_history_is_path:
  assumes "replay es = Inr (Some cur)"
  shows "es \<noteq> [] \<and> map ev_sequence es = map int [1..<length es + 1] \<and> ev_kind (hd es) = ''created'' \<and>
    (\<forall>e\<in>set es. JStr (ev_run e) = jget cur ''ingestion_run_id'') \<and>
    (\<forall>i. Suc i < length es \<longrightarrow> legal_step (ev_to (es ! i)) (es ! Suc i) \<and> \<not> isTerminalIngestionRunState (ev_to (es ! i))) \<and>
    jget cur ''state'' = JStr (ev_to (last es))"
proof -
  have h: "history_ok es cur" using replay_history [OF assms] by simp
  have "\<not> isTerminalIngestionRunState v" if "legal_step v e" for v e
  proof -
    from that obtain to facts where "canTransitionIngestionRun v to facts" by (auto simp: legal_step_def)
    then obtain s where "v = state_name s" "canTransitionIngestionRun (state_name s) to facts"
      by (auto simp: canTransition_string [of v])
    then show ?thesis by (cases s) (auto simp: isTerminalIngestionRunState_def canTransition_edges)
  qed
  with h show ?thesis by (auto simp: history_ok_def)
qed

theorem run_history_is_path_witness: "map ev_sequence sample_history = [1, 2] \<and> jget sample_current ''state'' = JStr ''paused''"
  using run_history_is_path [OF sample_replay]
  by (simp add: sample_history_def sample_event_def state_name.simps)

text \<open>
  C30. Approved facts are never rewritten: between any two points of an accepted history, a candidate
  or approval column that was set keeps its value, and the count of completed stages never drops.
\<close>

theorem run_history_monotone:
  assumes "replay es = Inr (Some prev)" and "replay (es @ fs) = Inr (Some cur)"
  shows "(\<forall>column\<in>set immutable_columns. jget prev column \<noteq> JNull \<longrightarrow> jget cur column = jget prev column) \<and>
    (\<exists>m n. jget prev ''completed_stage_count'' = JNum m \<and> jget cur ''completed_stage_count'' = JNum n \<and>
       0 \<le> m \<and> m \<le> n \<and> n \<le> 6)"
proof -
  obtain m n where "jget prev ''completed_stage_count'' = JNum m" "jget cur ''completed_stage_count'' = JNum n" "0 \<le> m" "n \<le> 6"
    using replay_scalars [OF assms(1)] replay_scalars [OF assms(2)] by blast
  then show ?thesis using replay_monotone [OF assms] by (simp add: later_number_def)
qed

theorem run_history_monotone_witness: "\<exists>n. jget sample_current ''completed_stage_count'' = JNum n \<and> 0 \<le> n \<and> n \<le> 6"
proof -
  have "take 1 sample_history @ drop 1 sample_history = sample_history" by (rule append_take_drop_id)
  then have "replay (take 1 sample_history @ drop 1 sample_history) = Inr (Some sample_current)"
    using sample_replay by (simp only:)
  from run_history_monotone [OF sample_replay_first this] show ?thesis by auto
qed

text \<open>
  C31. Payload references are sound: the candidate and diagnostics references of a projected row are
  null or name an event of the history, and that event retains the payload of that kind.
\<close>

theorem run_payload_references_resolve:
  assumes "replay es = Inr (Some cur)"
  shows "reference_ok es ''candidate'' (jget cur ''candidate_payload_event_sequence'') \<and>
    reference_ok es ''diagnostics'' (jget cur ''diagnostics_event_sequence'')"
  using assms by (rule replay_references)

theorem run_payload_references_resolve_witness:
  "reference_ok sample_history ''diagnostics'' (jget sample_current ''diagnostics_event_sequence'')"
  using run_payload_references_resolve [OF sample_replay] by blast

text \<open>
  C32. Paging is invisible: reading the event table in pages of 100 after the last projected sequence
  number folds exactly the history in sequence order, whatever its length and storage order.
\<close>

theorem fold_pages_is_replay:
  assumes "distinct (map ev_sequence rows)" and "\<forall>e\<in>set rows. 1 \<le> ev_sequence e"
  shows "foldRunEvents rows = Inr cur \<longleftrightarrow> replay (sort_key ev_sequence rows) = Inr (Some cur)"
  using assms by (rule foldRunEvents_replay)

theorem fold_pages_is_replay_witness: "foldRunEvents (rev sample_history) = Inr sample_current"
proof -
  have "sort_key ev_sequence (rev sample_history) = sample_history"
    by (simp add: sample_history_def sample_event_def)
  moreover have "distinct (map ev_sequence (rev sample_history))" "\<forall>e\<in>set (rev sample_history). 1 \<le> ev_sequence e"
    by (simp_all add: sample_history_def sample_event_def)
  ultimately show ?thesis using fold_pages_is_replay [of "rev sample_history" sample_current] sample_replay by simp
qed

text \<open>
  \<open>runCompletedStageCount\<close> accepts a progress document exactly when its stages are a prefix of
  the active stages, and returns the prefix's length.
\<close>

theorem completed_stage_count_prefix:
  "runCompletedStageCount (JObj p) = Inr n \<longleftrightarrow>
     n \<le> 6 \<and> jget p ''completed_stages'' = JArr (map (JStr \<circ> state_name) (take n activeRunStages))"
proof -
  have six: "length activeRunStages = 6" by (simp add: activeRunStages_def)
  have prefix: "(\<forall>i<length stages. i < 6 \<and> stages ! i = JStr (state_name (activeRunStages ! i))) \<longleftrightarrow>
      length stages \<le> 6 \<and> stages = map (JStr \<circ> state_name) (take (length stages) activeRunStages)" for stages
  proof
    assume all: "\<forall>i<length stages. i < 6 \<and> stages ! i = JStr (state_name (activeRunStages ! i))"
    then have "length stages \<le> 6" by (meson less_irrefl not_le)
    with all show "length stages \<le> 6 \<and> stages = map (JStr \<circ> state_name) (take (length stages) activeRunStages)"
      by (auto simp: list_eq_iff_nth_eq six)
  next
    assume "length stages \<le> 6 \<and> stages = map (JStr \<circ> state_name) (take (length stages) activeRunStages)"
    then show "\<forall>i<length stages. i < 6 \<and> stages ! i = JStr (state_name (activeRunStages ! i))"
      by (auto simp: list_eq_iff_nth_eq six)
  qed
  have ex: "list_ex (\<lambda>(i, stage). \<not> (i < length activeRunStages \<and> stage = JStr (state_name (activeRunStages ! i)))) (enumerate 0 stages) \<longleftrightarrow>
      \<not> (\<forall>i<length stages. i < 6 \<and> stages ! i = JStr (state_name (activeRunStages ! i)))" for stages
    by (auto simp: list_ex_iff in_set_enumerate_eq six)
  show ?thesis
    unfolding runCompletedStageCount_def json.case ex prefix
    by (auto simp: six split: json.split)
qed

end
