(* ===== verification/Atomic_Batch.thy ===== *)
theory Atomic_Batch
  imports Prelude
begin

text \<open>
  Atomic batches of repository statements, \<open>src/src/catalogue/shared/catalogue-store-repository.ts\<close>.

  A prepared statement is its effect on a database together with SQLite's \<open>changes()\<close> register (the
  row count of the last INSERT, UPDATE or DELETE), or an error that aborts the transaction. A
  grouped statement carries the statements that run before and after it; \<open>atomicBatch\<close> expands the
  groups, checks the statement budget, and runs everything in one native transaction.
\<close>

subsection \<open>Statements\<close>

datatype sql_error = Raised string

type_synonym 'db sql = "'db \<times> int \<Rightarrow> sql_error + 'db \<times> int"

text \<open>
  A guard is a SELECT that raises: \<open>SELECT CASE WHEN ok THEN 1 ELSE json_extract('{}', code) END\<close>. It
  leaves \<open>changes()\<close> as it is.
\<close>

definition sql_guard :: "('db \<Rightarrow> int \<Rightarrow> bool) \<Rightarrow> string \<Rightarrow> 'db sql" where
  "sql_guard ok code = (\<lambda>(db, changes). if ok db changes then Inr (db, changes) else Inl (Raised code))"

text \<open>A guard with several conditions names the code of the first that fails.\<close>

definition sql_raise :: "('db \<Rightarrow> int \<Rightarrow> string option) \<Rightarrow> 'db sql" where
  "sql_raise f = (\<lambda>(db, changes). case f db changes of None \<Rightarrow> Inr (db, changes) | Some code \<Rightarrow> Inl (Raised code))"

definition sql_write :: "('db \<Rightarrow> int \<Rightarrow> 'db \<times> int) \<Rightarrow> 'db sql" where
  "sql_write f = (\<lambda>(db, changes). Inr (f db changes))"

text \<open>A store is identified by its binding; a guarded store also has the guard every batch starts with.\<close>

type_synonym store_id = nat

datatype 'p statement =
    Plain 'p
  | Group store_id "'p statement list" "'p statement" "'p statement list"  \<comment> \<open>before, primary, after\<close>

definition atomicRepositoryStatement ::
  "store_id \<Rightarrow> 'p statement \<Rightarrow> 'p statement list \<Rightarrow> 'p statement list \<Rightarrow> 'p statement" where
  "atomicRepositoryStatement store primary before after = Group store before primary after"

datatype batch_error =
    Different_store       \<comment> \<open>An atomic mutation belongs to a different CatalogueStore.\<close>
  | Batch_too_long        \<comment> \<open>A catalogue atomic batch exceeds its 900-statement D1 budget.\<close>
  | Aborted sql_error

subsection \<open>Expansion\<close>

text \<open>
  \<open>append\<close> of \<open>atomicBatch\<close>: pushes a statement, its group first, onto \<open>expanded\<close> and returns the
  position of the primary.
\<close>

fun append_statement :: "store_id \<Rightarrow> 'p statement \<Rightarrow> 'p list \<Rightarrow> batch_error + 'p list \<times> nat"
and append_all :: "store_id \<Rightarrow> 'p statement list \<Rightarrow> 'p list \<Rightarrow> batch_error + 'p list \<times> nat list" where
  "append_statement store (Plain p) expanded = Inr (expanded @ [p], length expanded)"
| "append_statement store (Group owner before primary after) expanded =
     (if owner \<noteq> store then Inl Different_store
      else rbind (append_all store before expanded) (\<lambda>(e1, _).
           rbind (append_statement store primary e1) (\<lambda>(e2, position).
           rbind (append_all store after e2) (\<lambda>(e3, _). Inr (e3, position)))))"
| "append_all store [] expanded = Inr (expanded, [])"
| "append_all store (s # ss) expanded =
     rbind (append_statement store s expanded) (\<lambda>(e1, position).
     rbind (append_all store ss e1) (\<lambda>(e2, positions). Inr (e2, position # positions)))"

definition expand_batch ::
  "store_id \<Rightarrow> 'p statement option \<Rightarrow> 'p statement list \<Rightarrow> batch_error + 'p list \<times> nat list" where
  "expand_batch store guard statements =
     rbind (append_all store (case guard of None \<Rightarrow> [] | Some g \<Rightarrow> [g]) []) (\<lambda>(e, _).
     rbind (append_all store statements e) (\<lambda>(expanded, positions).
     if length expanded > 900 then Inl Batch_too_long else Inr (expanded, positions)))"

text \<open>The native transaction: all effects in order, or none.\<close>

definition run_sql :: "'db sql list \<Rightarrow> 'db \<times> int \<Rightarrow> sql_error + 'db \<times> int" where
  "run_sql effects = rfold (\<lambda>effect. effect) effects"

definition atomicBatch ::
  "store_id \<Rightarrow> 'db sql statement option \<Rightarrow> 'db sql statement list \<Rightarrow> 'db \<Rightarrow> batch_error + 'db" where
  "atomicBatch store guard statements db =
     rbind (expand_batch store guard statements) (\<lambda>(expanded, positions).
     case run_sql expanded (db, 0) of Inl e \<Rightarrow> Inl (Aborted e) | Inr (db', changes) \<Rightarrow> Inr db')"

text \<open>What the caller is left with: an aborted or refused batch changes nothing.\<close>

definition after_batch ::
  "store_id \<Rightarrow> 'db sql statement option \<Rightarrow> 'db sql statement list \<Rightarrow> 'db \<Rightarrow> 'db" where
  "after_batch store guard statements db =
     (case atomicBatch store guard statements db of Inl _ \<Rightarrow> db | Inr db' \<Rightarrow> db')"

subsection \<open>The meaning of a group\<close>

fun flatten :: "'p statement \<Rightarrow> 'p list" where
  "flatten (Plain p) = [p]"
| "flatten (Group owner before primary after) = concat (map flatten before) @ flatten primary @ concat (map flatten after)"

fun primary_of :: "'p statement \<Rightarrow> 'p" where
  "primary_of (Plain p) = p"
| "primary_of (Group owner before primary after) = primary_of primary"

fun owned :: "store_id \<Rightarrow> 'p statement \<Rightarrow> bool" where
  "owned store (Plain p) = True"
| "owned store (Group owner before primary after) \<longleftrightarrow>
     owner = store \<and> list_all (owned store) before \<and> owned store primary \<and> list_all (owned store) after"

lemma append_flatten:
  "owned store s \<Longrightarrow> \<exists>position. append_statement store s expanded = Inr (expanded @ flatten s, position) \<and>
     position < length expanded + length (flatten s) \<and> (expanded @ flatten s) ! position = primary_of s"
  "list_all (owned store) ss \<Longrightarrow> \<exists>positions. append_all store ss expanded = Inr (expanded @ concat (map flatten ss), positions) \<and>
     length positions = length ss \<and>
     (\<forall>i<length ss. positions ! i < length (expanded @ concat (map flatten ss)) \<and>
        (expanded @ concat (map flatten ss)) ! (positions ! i) = primary_of (ss ! i))"
proof (induction store s expanded and store ss expanded rule: append_statement_append_all.induct)
  case (2 store owner before primary after expanded)
  let ?e1 = "expanded @ concat (map flatten before)" and ?e2 = "expanded @ concat (map flatten before) @ flatten primary"
  from 2 obtain q where 1: "append_all store before expanded = Inr (?e1, q)" by force
  with 2 obtain position where p: "append_statement store primary ?e1 = Inr (?e2, position)" "position < length ?e2"
    "?e2 ! position = primary_of primary" by force
  with 1 2 obtain r where "append_all store after ?e2 = Inr (?e2 @ concat (map flatten after), r)" by force
  with 1 p 2(4) show ?case by (auto simp: nth_append)
next
  case (4 store s ss expanded)
  from 4 obtain position where p: "append_statement store s expanded = Inr (expanded @ flatten s, position)"
    "position < length expanded + length (flatten s)" "(expanded @ flatten s) ! position = primary_of s" by auto
  obtain positions where q: "append_all store ss (expanded @ flatten s) = Inr ((expanded @ flatten s) @ concat (map flatten ss), positions)"
    "length positions = length ss"
    "\<forall>i<length ss. positions ! i < length ((expanded @ flatten s) @ concat (map flatten ss)) \<and>
        ((expanded @ flatten s) @ concat (map flatten ss)) ! (positions ! i) = primary_of (ss ! i)"
    using 4(2)[OF p(1) refl] 4(3) by (auto simp del: append_assoc)
  show ?case
    using p q by (intro exI [of _ "position # positions"]) (auto simp: nth_append nth_Cons split: nat.splits)
qed (auto simp: nth_append)

lemma append_foreign:
  "\<not> owned store s \<Longrightarrow> append_statement store s expanded = Inl Different_store"
  "\<not> list_all (owned store) ss \<Longrightarrow> append_all store ss expanded = Inl Different_store"
proof (induction store s expanded and store ss expanded rule: append_statement_append_all.induct)
  case (2 store owner before primary after expanded)
  show ?case
  proof (cases "owner = store \<and> list_all (owned store) before")
    case True
    then obtain q where q: "append_all store before expanded = Inr (expanded @ concat (map flatten before), q)"
      using append_flatten(2) by blast
    show ?thesis
    proof (cases "owned store primary")
      case p: True
      then obtain r where "append_statement store primary (expanded @ concat (map flatten before)) =
          Inr ((expanded @ concat (map flatten before)) @ flatten primary, r)" using append_flatten(1) by blast
      then show ?thesis using True p q 2 by auto
    qed (use True q 2 in auto)
  qed (use 2 in auto)
next
  case (4 store s ss expanded)
  show ?case
  proof (cases "owned store s")
    case True
    then obtain r where "append_statement store s expanded = Inr (expanded @ flatten s, r)" using append_flatten(1) by blast
    then show ?thesis using 4 True by auto
  qed (use 4 in auto)
qed auto

definition with_guard :: "'p statement option \<Rightarrow> 'p statement list \<Rightarrow> 'p statement list" where
  "with_guard guard statements = (case guard of None \<Rightarrow> [] | Some g \<Rightarrow> [g]) @ statements"

text \<open>
  C17. Expanding a batch puts, for every statement in order, its group around it: what was composed
  before it, the statement, what was composed after it; the store's guard comes first. It fails
  exactly when a group belongs to another store or more than 900 statements result, and the result
  reported for each statement is that of its own primary.
\<close>

theorem batch_expansion:
  "if \<not> list_all (owned store) (with_guard guard statements) then expand_batch store guard statements = Inl Different_store
    else if length (concat (map flatten (with_guard guard statements))) > 900 then expand_batch store guard statements = Inl Batch_too_long
    else \<exists>positions. expand_batch store guard statements = Inr (concat (map flatten (with_guard guard statements)), positions) \<and>
      map (\<lambda>i. concat (map flatten (with_guard guard statements)) ! i) positions = map primary_of statements"
proof -
  let ?g = "case guard of None \<Rightarrow> [] | Some g \<Rightarrow> [g]" and ?all = "with_guard guard statements"
  show ?thesis
  proof (cases "list_all (owned store) ?all")
    case False
    show ?thesis
    proof (cases "list_all (owned store) ?g")
      case True
      then obtain q where "append_all store ?g [] = Inr ([] @ concat (map flatten ?g), q)" using append_flatten(2) by blast
      then show ?thesis using False True append_foreign(2) [of store statements] by (simp add: expand_batch_def with_guard_def)
    qed (use False append_foreign(2) [of store ?g "[]"] in \<open>simp add: expand_batch_def\<close>)
  next
    case True
    then obtain q where q: "append_all store ?g [] = Inr (concat (map flatten ?g), q)"
      using append_flatten(2) [of store ?g "[]"] by (auto simp: with_guard_def)
    from True obtain positions where "append_all store statements (concat (map flatten ?g)) = Inr (concat (map flatten ?all), positions)"
      "length positions = length statements"
      "\<forall>i<length statements. concat (map flatten ?all) ! (positions ! i) = primary_of (statements ! i)"
      using append_flatten(2) [of store statements "concat (map flatten ?g)"] by (auto simp: with_guard_def)
    then show ?thesis using True q by (auto simp: expand_batch_def intro!: nth_equalityI)
  qed
qed

lemma batch_expansion_None:
  "\<not> list_all (owned store) statements \<Longrightarrow> expand_batch store None statements = Inl Different_store"
  "list_all (owned store) statements \<Longrightarrow> length (concat (map flatten statements)) > 900 \<Longrightarrow> expand_batch store None statements = Inl Batch_too_long"
  using append_foreign(2) [of store statements "[]"] append_flatten(2) [of store statements "[]"]
  by (auto simp: expand_batch_def)

text \<open>The effect of an accepted batch is the effect of its flattened statements.\<close>

lemma atomicBatch_eq:
  assumes "list_all (owned store) statements" and "length (concat (map flatten statements)) \<le> 900"
  shows "atomicBatch store None statements db =
    (case run_sql (concat (map flatten statements)) (db, 0) of Inl e \<Rightarrow> Inl (Aborted e) | Inr (db', changes) \<Rightarrow> Inr db')"
proof -
  obtain positions where "append_all store statements [] = Inr (concat (map flatten statements), positions)"
    using append_flatten(2) [OF assms(1), of "[]"] by auto
  then show ?thesis using assms(2) by (simp add: atomicBatch_def expand_batch_def)
qed

lemma run_sql_append: "run_sql (xs @ ys) st = rbind (run_sql xs st) (run_sql ys)"
  by (simp add: run_sql_def rfold_append)

lemma run_sql_Nil [simp]: "run_sql [] st = Inr st"
  by (simp add: run_sql_def)

lemma run_sql_Cons [simp]: "run_sql (x # xs) st = rbind (x st) (run_sql xs)"
  by (simp add: run_sql_def)

lemma sql_guard_Inr [simp]: "sql_guard ok code (db, c) = Inr st \<longleftrightarrow> ok db c \<and> st = (db, c)"
  by (auto simp: sql_guard_def)

lemma sql_raise_Inr [simp]: "sql_raise f (db, c) = Inr st \<longleftrightarrow> f db c = None \<and> st = (db, c)"
  by (auto simp: sql_raise_def split: option.splits)

lemma sql_write_eq [simp]: "sql_write f (db, c) = Inr (f db c)"
  by (simp add: sql_write_def)

lemma after_batch_cases:
  obtains "after_batch store None statements db = db"
  | c where "run_sql (concat (map flatten statements)) (db, 0) = Inr (after_batch store None statements db, c)"
proof (cases "list_all (owned store) statements \<and> length (concat (map flatten statements)) \<le> 900")
  case True
  then show ?thesis
    using that atomicBatch_eq [of store statements db]
    by (cases "run_sql (concat (map flatten statements)) (db, 0)") (auto simp: after_batch_def split: prod.splits)
next
  case False
  then have "expand_batch store None statements = Inl Different_store \<or> expand_batch store None statements = Inl Batch_too_long"
    using batch_expansion_None [of store statements] by (cases "list_all (owned store) statements") simp_all
  then have "after_batch store None statements db = db" by (auto simp: after_batch_def atomicBatch_def)
  then show ?thesis by (rule that)
qed

text \<open>
  C35. A guarded store never lets a batch take effect when its guard refuses: if the guard raises on
  the database as the batch finds it, the database is left as it was.
\<close>

theorem guarded_store_is_fenced:
  assumes "guard (db, 0) = Inl e"
  shows "after_batch store (Some (Plain guard)) statements db = db"
proof -
  have "run_sql (guard # rest) (db, 0) = Inl e" for rest using assms by simp
  moreover have "\<exists>rest. expanded = guard # rest" if "expand_batch store (Some (Plain guard)) statements = Inr (expanded, positions)"
    for expanded positions
    using that append_flatten(2) [of store statements "[guard]"] append_foreign(2) [of store statements "[guard]"]
    by (cases "list_all (owned store) statements") (auto simp: expand_batch_def split: if_splits)
  ultimately show ?thesis
    by (cases "expand_batch store (Some (Plain guard)) statements") (force simp: after_batch_def atomicBatch_def)+
qed

theorem guarded_store_is_fenced_witness:
  "after_batch 0 (Some (Plain (sql_guard (\<lambda>db c. db < (5::nat)) ''fenced''))) [Plain (sql_write (\<lambda>db c. (0, 1)))] 7 = 7"
  using guarded_store_is_fenced [of "sql_guard (\<lambda>db c. db < (5::nat)) ''fenced''" 7 "Raised ''fenced''"]
  by (simp add: sql_guard_def)

end
