(* ===== verification/Js_Text.thy ===== *)
theory Js_Text
  imports Prelude
begin

text \<open>
  JavaScript text: a string is its list of UTF-16 code units, \<open>TextEncoder.encode\<close> turns it into
  UTF-8 (a surrogate without its partner becomes U+FFFD), and \<open>byteChunks\<close> of
  \<open>src/src/catalogue/shared/reconciliation-payload.ts\<close> cuts it into pieces of bounded byte length.
\<close>

type_synonym u16 = "16 word"
type_synonym js_string = "u16 list"

definition is_high :: "u16 \<Rightarrow> bool" where
  "is_high c \<longleftrightarrow> 0xD800 \<le> unat c \<and> unat c \<le> 0xDBFF"

definition is_low :: "u16 \<Rightarrow> bool" where
  "is_low c \<longleftrightarrow> 0xDC00 \<le> unat c \<and> unat c \<le> 0xDFFF"

text \<open>The UTF-8 form of one code point.\<close>

definition utf8_point :: "nat \<Rightarrow> bytes" where
  "utf8_point n =
     (if n < 0x80 then [of_nat n]
      else if n < 0x800 then [of_nat (0xC0 + n div 64), of_nat (0x80 + n mod 64)]
      else if n < 0x10000 then [of_nat (0xE0 + n div 4096), of_nat (0x80 + n div 64 mod 64), of_nat (0x80 + n mod 64)]
      else [of_nat (0xF0 + n div 262144), of_nat (0x80 + n div 4096 mod 64), of_nat (0x80 + n div 64 mod 64),
        of_nat (0x80 + n mod 64)])"

definition pair_point :: "u16 \<Rightarrow> u16 \<Rightarrow> nat" where
  "pair_point c d = 0x10000 + (unat c - 0xD800) * 1024 + (unat d - 0xDC00)"

text \<open>The code points of a string; the replacement character stands for a lone surrogate.\<close>

fun code_points :: "js_string \<Rightarrow> nat list" where
  "code_points [] = []"
| "code_points [c] = [if is_high c \<or> is_low c then 0xFFFD else unat c]"
| "code_points (c # d # cs) =
     (if is_high c \<and> is_low d then pair_point c d # code_points cs
      else (if is_high c \<or> is_low c then 0xFFFD else unat c) # code_points (d # cs))"

definition utf8 :: "js_string \<Rightarrow> bytes" where
  "utf8 s = concat (map utf8_point (code_points s))"

definition byte_length :: "js_string \<Rightarrow> nat" where
  "byte_length s = length (utf8 s)"

subsection \<open>Cutting a payload into chunks\<close>

definition maximumChunkBytes :: nat where
  "maximumChunkBytes = 524288"

text \<open>The inner loop: the longest slice that fits, by bisection.\<close>

function widest :: "(nat \<Rightarrow> bool) \<Rightarrow> nat \<Rightarrow> nat \<Rightarrow> nat" where
  "widest fits low high =
     (if low < high
      then let middle = (low + high + 1) div 2 in if fits middle then widest fits middle high else widest fits low (middle - 1)
      else low)"
  by pat_completeness auto
termination by (relation "measure (\<lambda>(fits, low, high). high - low)") auto

declare widest.simps [simp del]

datatype chunk_error = Character_exceeds_bound

definition chunk_end :: "js_string \<Rightarrow> nat \<Rightarrow> nat" where
  "chunk_end s offset =
     (let low = widest (\<lambda>middle. byte_length (take middle (drop offset s)) \<le> maximumChunkBytes) 1
            (min (length s - offset) maximumChunkBytes);
          last = offset + low
      in if is_high (s ! (last - 1)) \<and> last < length s then last - 1 else last)"

function chunks_from :: "js_string \<Rightarrow> nat \<Rightarrow> chunk_error + js_string list" where
  "chunks_from s offset =
     (if offset < length s
      then let last = chunk_end s offset
           in if last \<le> offset then Inl Character_exceeds_bound
              else rbind (chunks_from s last) (\<lambda>cs. Inr (take (last - offset) (drop offset s) # cs))
      else Inr [])"
  by pat_completeness auto
termination by (relation "measure (\<lambda>(s, offset). length s - offset)") auto

declare chunks_from.simps [simp del]

definition byteChunks :: "js_string \<Rightarrow> chunk_error + js_string list" where
  "byteChunks s = rbind (chunks_from s 0) (\<lambda>cs. Inr (if cs = [] then [[]] else cs))"

subsection \<open>Lengths\<close>

lemma length_utf8_point: "length (utf8_point n) = (if n < 0x80 then 1 else if n < 0x800 then 2 else if n < 0x10000 then 3 else 4)"
  by (simp add: utf8_point_def)

lemma utf8_append:
  assumes "xs = [] \<or> ys = [] \<or> \<not> is_high (last xs) \<or> \<not> is_low (hd ys)"
  shows "utf8 (xs @ ys) = utf8 xs @ utf8 ys"
proof -
  have "code_points (xs @ ys) = code_points xs @ code_points ys"
    using assms
  proof (induction xs rule: code_points.induct)
    case (2 c)
    then show ?case by (cases ys) auto
  next
    case (3 c d cs)
    then show ?case by (cases "cs = []") (auto simp: is_high_def is_low_def)
  qed simp
  then show ?thesis by (simp add: utf8_def)
qed

lemma byte_length_bounds: "byte_length s \<le> 3 * length s"
proof (induction s rule: code_points.induct)
  case (2 c)
  show ?case using unsigned_less [of c] by (auto simp: byte_length_def utf8_def length_utf8_point)
next
  case (3 c d cs)
  show ?case
    using 3 unsigned_less [of c] by (auto simp: byte_length_def utf8_def length_utf8_point)
qed (simp add: byte_length_def utf8_def)

lemma byte_length_Cons_mono: "byte_length s \<le> byte_length (s @ [c])"
proof (cases "s = [] \<or> \<not> is_high (last s) \<or> \<not> is_low c")
  case True
  then show ?thesis using utf8_append [of s "[c]"] by (auto simp: byte_length_def)
next
  case False
  obtain p h where s: "s = p @ [h]" and h: "is_high h" "is_low c" using False by (cases s rule: rev_cases) auto
  have "utf8 (p @ [h]) = utf8 p @ utf8 [h]" "utf8 (p @ [h, c]) = utf8 p @ utf8 [h, c]"
    using h by (auto intro!: utf8_append simp: is_high_def is_low_def)
  moreover have "length (utf8 [h]) \<le> length (utf8 [h, c])"
    using h by (simp add: utf8_def length_utf8_point pair_point_def)
  ultimately show ?thesis by (simp add: byte_length_def s)
qed

lemma byte_length_prefix: "m \<le> n \<Longrightarrow> byte_length (take m s) \<le> byte_length (take n s)"
proof (induction n)
  case (Suc n)
  show ?case
  proof (cases "m = Suc n \<or> length s \<le> n")
    case True
    then show ?thesis using Suc by (cases "m = Suc n") (auto simp: take_all)
  next
    case False
    then show ?thesis
      using Suc byte_length_Cons_mono [of "take n s" "s ! n"] by (simp add: take_Suc_conv_app_nth le_Suc_eq)
  qed
qed simp

subsection \<open>The chunks of a payload\<close>

lemma widest_bounds: "low \<le> high \<Longrightarrow> low \<le> widest fits low high \<and> widest fits low high \<le> high"
proof (induction fits low high rule: widest.induct)
  case (1 fits low high)
  let ?m = "(low + high + 1) div 2"
  show ?case
  proof (cases "low < high")
    case True
    then have m: "low \<le> ?m" "low \<le> ?m - 1" "?m \<le> high" by auto
    have w: "widest fits low high = (if fits ?m then widest fits ?m high else widest fits low (?m - 1))"
      using True by (subst widest.simps) (simp add: Let_def)
    show ?thesis
    proof (cases "fits ?m")
      case fit: True
      then show ?thesis using 1(1)[OF True refl fit] m unfolding w by simp
    next
      case fit: False
      have "low \<le> widest fits low (?m - 1) \<and> widest fits low (?m - 1) \<le> high"
        using 1(2)[OF True refl fit m(2)] m(3) by linarith
      then show ?thesis using fit by (simp add: w)
    qed
  next
    case False
    then have "widest fits low high = low" by (simp add: widest.simps)
    then show ?thesis using 1(3) by simp
  qed
qed

lemma widest_fits: "fits low \<Longrightarrow> fits (widest fits low high)"
proof (induction fits low high rule: widest.induct)
  case (1 fits low high)
  then show ?case by (subst widest.simps) (simp add: Let_def)
qed

lemma widest_maximal:
  "(\<And>m n. fits n \<Longrightarrow> m \<le> n \<Longrightarrow> fits m) \<Longrightarrow> fits m \<Longrightarrow> low \<le> m \<Longrightarrow> m \<le> high \<Longrightarrow> m \<le> widest fits low high"
proof (induction fits low high rule: widest.induct)
  case (1 fits low high)
  show ?case
  proof (cases "low < high")
    case True
    let ?m = "(low + high + 1) div 2"
    show ?thesis
    proof (cases "fits ?m")
      case fit: True
      have "m \<le> widest fits ?m high"
      proof (cases "?m \<le> m")
        case True
        then show ?thesis using 1(1)[OF \<open>low < high\<close> refl fit] 1(3-6) by blast
      next
        case False
        have "?m \<le> high" using \<open>low < high\<close> by simp
        then show ?thesis using False widest_bounds [of ?m high fits] by linarith
      qed
      then show ?thesis using True fit by (subst widest.simps) (simp add: Let_def)
    next
      case False
      then have "m < ?m" using 1(3,4) by (meson not_le)
      then have "m \<le> widest fits low (?m - 1)" using 1(2)[OF True refl False] 1(3-5) by fastforce
      then show ?thesis using True False by (subst widest.simps) (simp add: Let_def)
    qed
  next
    case False
    then show ?thesis using 1 by (subst widest.simps) simp
  qed
qed

lemma chunk_end_correct:
  assumes "offset < length s"
  shows "offset < chunk_end s offset \<and> chunk_end s offset \<le> length s \<and>
    byte_length (take (chunk_end s offset - offset) (drop offset s)) \<le> maximumChunkBytes \<and>
    (chunk_end s offset < length s \<longrightarrow> \<not> (is_high (s ! (chunk_end s offset - 1)) \<and> is_low (s ! chunk_end s offset)))"
proof -
  let ?r = "drop offset s" and ?high = "min (length s - offset) maximumChunkBytes"
  let ?fits = "\<lambda>middle. byte_length (take middle ?r) \<le> maximumChunkBytes"
  define low where "low = widest ?fits 1 ?high"
  have small: "?fits m" if "m \<le> 2" for m
    using byte_length_bounds [of "take m ?r"] that by (simp add: maximumChunkBytes_def min_def split: if_splits)
  have "1 \<le> ?high" using assms by (simp add: maximumChunkBytes_def)
  then have b: "1 \<le> low" "low \<le> ?high" using widest_bounds [of 1 ?high ?fits] unfolding low_def by blast+
  have fit: "?fits low" using widest_fits [of ?fits 1] small [of 1] unfolding low_def by simp
  have ce: "chunk_end s offset = (if is_high (s ! (offset + low - 1)) \<and> offset + low < length s then offset + low - 1 else offset + low)"
    unfolding chunk_end_def low_def Let_def ..
  show ?thesis
  proof (cases "is_high (s ! (offset + low - 1)) \<and> offset + low < length s")
    case True
    then have eq: "chunk_end s offset = offset + low - 1" by (simp add: ce)
    have mono: "?fits m" if "?fits n" "m \<le> n" for m n using that byte_length_prefix [of m n ?r] by simp
    have "2 \<le> length s - offset" using True b by linarith
    then have "2 \<le> low"
      using widest_maximal [of ?fits 2 1 ?high] mono small [of 2] unfolding low_def by (simp add: maximumChunkBytes_def)
    moreover have "?fits (low - 1)" using fit mono by (meson diff_le_self)
    moreover have "\<not> is_low (s ! (offset + low - 1))" using True by (auto simp: is_high_def is_low_def)
    moreover have "offset + low - 1 - offset = low - 1" by simp
    moreover have "offset < offset + low - 1" "offset + low - 1 \<le> length s"
      using \<open>2 \<le> low\<close> b(2) assms by linarith+
    ultimately show ?thesis unfolding eq by simp
  next
    case False
    then have "chunk_end s offset = offset + low" unfolding ce by argo
    then show ?thesis using b fit assms False by auto
  qed
qed

lemma chunks_from_correct:
  "offset \<le> length s \<Longrightarrow> \<exists>cs. chunks_from s offset = Inr cs \<and> concat cs = drop offset s \<and>
    concat (map utf8 cs) = utf8 (drop offset s) \<and> (\<forall>c\<in>set cs. c \<noteq> [] \<and> byte_length c \<le> maximumChunkBytes)"
proof (induction s offset rule: chunks_from.induct)
  case (1 s offset)
  show ?case
  proof (cases "offset < length s")
    case True
    let ?e = "chunk_end s offset"
    let ?c = "take (?e - offset) (drop offset s)"
    note e = chunk_end_correct [OF True]
    obtain cs where cs: "chunks_from s ?e = Inr cs" "concat cs = drop ?e s" "concat (map utf8 cs) = utf8 (drop ?e s)"
      "\<forall>c\<in>set cs. c \<noteq> [] \<and> byte_length c \<le> maximumChunkBytes"
      using 1(1)[OF True refl] e by auto
    have split: "drop offset s = ?c @ drop ?e s"
      using e append_take_drop_id [of "?e - offset" "drop offset s"] by (simp add: drop_drop)
    have ends: "?c = [] \<or> drop ?e s = [] \<or> \<not> is_high (last ?c) \<or> \<not> is_low (hd (drop ?e s))"
    proof (cases "?e < length s")
      case lt: True
      have len: "length ?c = ?e - offset" using e by auto
      moreover from len have "?c \<noteq> []" using e by auto
      ultimately have "last ?c = ?c ! (?e - offset - 1)" by (simp add: last_conv_nth)
      also have "\<dots> = s ! (?e - 1)" using e by auto
      finally have "last ?c = s ! (?e - 1)" .
      then show ?thesis using e lt by (simp add: hd_drop_conv_nth)
    qed simp
    have "chunks_from s offset = Inr (?c # cs)"
      using True e cs(1) by (subst chunks_from.simps) (simp add: Let_def)
    moreover have "utf8 (drop offset s) = utf8 ?c @ utf8 (drop ?e s)"
      using utf8_append [OF ends] split by simp
    moreover have "?c \<noteq> []" using e True by simp
    ultimately show ?thesis using cs e split by auto
  next
    case False
    then show ?thesis using 1 by (subst chunks_from.simps) (simp add: utf8_def)
  qed
qed

lemma byte_length_ge: "length s \<le> byte_length s"
  by (induction s rule: code_points.induct) (auto simp: byte_length_def utf8_def length_utf8_point pair_point_def)

lemma length_concat_ge: "\<forall>c\<in>set cs. c \<noteq> [] \<Longrightarrow> length cs \<le> length (concat cs)"
  by (induction cs) (auto simp: Suc_le_eq neq_Nil_conv)

text \<open>A payload that is not empty has between one and as many chunks as it has code units.\<close>

lemma byteChunks_count:
  assumes "byteChunks s = Inr cs" and "s \<noteq> []"
  shows "1 \<le> length cs \<and> length cs \<le> length s"
proof -
  obtain ds where ds: "chunks_from s 0 = Inr ds" "concat ds = s" "\<forall>c\<in>set ds. c \<noteq> []"
    using chunks_from_correct [of 0 s] by auto
  moreover have "ds \<noteq> []" using ds(2) assms(2) by auto
  ultimately have "cs = ds" using assms(1) by (simp add: byteChunks_def)
  with ds \<open>ds \<noteq> []\<close> show ?thesis using length_concat_ge [OF ds(3)] by (simp add: Suc_le_eq)
qed

text \<open>
  C18. Cutting a payload always succeeds: the chunks concatenate to the text, none exceeds the
  byte bound, and no character is cut, so that their UTF-8 forms concatenate to that of the text.
\<close>

theorem byte_chunks_correct:
  "\<exists>cs. byteChunks s = Inr cs \<and> cs \<noteq> [] \<and> concat cs = s \<and> concat (map utf8 cs) = utf8 s \<and>
    list_all (\<lambda>c. byte_length c \<le> maximumChunkBytes) cs"
proof -
  obtain cs where "chunks_from s 0 = Inr cs" "concat cs = s" "concat (map utf8 cs) = utf8 s"
    "\<forall>c\<in>set cs. c \<noteq> [] \<and> byte_length c \<le> maximumChunkBytes"
    using chunks_from_correct [of 0 s] by auto
  then show ?thesis by (auto simp: byteChunks_def list_all_iff byte_length_def utf8_def)
qed

end
