(* ===== verification/Run_Store.thy ===== *)
theory Run_Store
  imports Run_Events Atomic_Batch Js_Text "HOL-Library.List_Lexorder" "HOL-Library.Char_ord"
begin

text \<open>
  The tables of an Ingestion Run and the transactions that change them:
  \<open>ingestion-run-event-repository.ts\<close>, \<open>ingestion-guards-repository.ts\<close> and
  \<open>ingestion-reservation-repository.ts\<close> of \<open>src/src/catalogue/shared\<close>, with the named mutations of
  \<open>ingestion/run-lifecycle-repository.ts\<close>, \<open>reconciliation/reconciliation-state-repository.ts\<close>,
  \<open>ingestion/publication-commit-repository.ts\<close>, \<open>publication-storage-repository.ts\<close> and
  \<open>publication-cleanup-repository.ts\<close>.

  A row of \<open>ingestion_run_current\<close> maps its columns to their values. Timestamps are the strings the
  code writes. What the code takes from outside is an argument: fresh identities, the clock, the
  parser \<open>Date.parse\<close> and SQLite's date arithmetic (the record \<open>sql_env\<close>). Constraints and triggers
  of the schema that only abort a transaction are left out, except the uniqueness of events: an
  aborted transaction changes nothing.
\<close>

subsection \<open>Tables\<close>

type_synonym run_row = "string \<Rightarrow> json"

record run_anchor =
  started_at :: string
  expected_revision :: string
  linked_run :: "string option"
  anchor_key :: string
  operational_request :: "string option"
  approval_key :: "string option"

record game_candidate =
  gc_preparation :: string
  gc_run :: string
  gc_state :: string

record candidate_slot =
  slot_preparation :: string
  slot_run :: string

record reconciliation_operation =
  op_id :: string
  op_run :: string
  op_game :: "string option"
  op_state :: string
  op_failure :: json

record payload_chunk =
  pc_run :: string
  pc_sequence :: int
  pc_kind :: string
  pc_index :: nat
  pc_content :: js_string

record operation_state =
  active_run :: "string option"
  release_id :: "string option"
  release_expires :: "string option"
  recovery_id :: "string option"
  recovery_health :: string
  restore_guard :: string

record run_db =
  anchors :: "string \<rightharpoonup> run_anchor"                \<comment> \<open>\<open>ingestion_runs\<close>\<close>
  currents :: "string \<rightharpoonup> run_row"                  \<comment> \<open>\<open>ingestion_run_current\<close>\<close>
  events :: "RunEventRow list"                     \<comment> \<open>\<open>ingestion_run_events\<close>\<close>
  chunks :: "payload_chunk list"                   \<comment> \<open>\<open>ingestion_run_event_payload_chunks\<close>\<close>
  games :: "string \<Rightarrow> string list"                 \<comment> \<open>\<open>ingestion_run_selected_games\<close>, by ordinal\<close>
  collection_reservations :: "string list"         \<comment> \<open>\<open>ingestion_collection_reservations\<close>\<close>
  terminations :: "string list"                    \<comment> \<open>runs with a row in \<open>ingestion_run_terminations\<close>\<close>
  operation :: operation_state                     \<comment> \<open>\<open>operation_state\<close>\<close>
  current_revision :: string                       \<comment> \<open>\<open>catalogue_state\<close>\<close>
  revision_run :: "string \<rightharpoonup> string"               \<comment> \<open>\<open>catalogue_revisions\<close>\<close>
  game_heads :: "(string \<times> string) list"           \<comment> \<open>\<open>game_catalogue_heads\<close>\<close>
  candidates :: "game_candidate list"              \<comment> \<open>\<open>game_candidates\<close>\<close>
  slots :: "candidate_slot list"                   \<comment> \<open>\<open>game_candidate_slots\<close>\<close>
  operations :: "reconciliation_operation list"    \<comment> \<open>\<open>reconciliation_operations\<close>\<close>

record sql_env =
  store :: store_id
  date_parse :: "string \<Rightarrow> int option"              \<comment> \<open>\<open>Date.parse\<close>, \<open>None\<close> for NaN\<close>
  plus_seven_days :: "string \<Rightarrow> string option"       \<comment> \<open>\<open>strftime(..., '+7 days')\<close>\<close>

definition str_of :: "json \<Rightarrow> string option" where
  "str_of v = (case v of JStr s \<Rightarrow> Some s | _ \<Rightarrow> None)"

definition num_of :: "json \<Rightarrow> int" where
  "num_of v = (case v of JNum n \<Rightarrow> n | _ \<Rightarrow> 0)"

text \<open>SQL's order on text; a comparison with NULL is not true.\<close>

definition text_less :: "json \<Rightarrow> json \<Rightarrow> bool" where
  "text_less v w = (case (v, w) of (JStr s, JStr t) \<Rightarrow> s < t | _ \<Rightarrow> False)"

definition text_eq :: "json \<Rightarrow> json \<Rightarrow> bool" where
  "text_eq v w = (case (v, w) of (JStr s, JStr t) \<Rightarrow> s = t | _ \<Rightarrow> False)"

definition in_state :: "run_row \<Rightarrow> IngestionRunState list \<Rightarrow> bool" where
  "in_state row states \<longleftrightarrow> list_ex (\<lambda>s. row ''state'' = JStr (state_name s)) states"

definition update_rows :: "('r \<Rightarrow> bool) \<Rightarrow> ('r \<Rightarrow> 'r) \<Rightarrow> 'r list \<Rightarrow> 'r list \<times> int" where
  "update_rows p f rows = (map (\<lambda>r. if p r then f r else r) rows, int (length (filter p rows)))"

subsection \<open>Verification of the projection\<close>

definition currentSnapshot :: "run_row \<Rightarrow> json_object" where
  "currentSnapshot row = map (\<lambda>column. (column, row column)) runCurrentColumns"

definition payload_field :: "RunEventRow \<Rightarrow> string \<Rightarrow> json" where
  "payload_field e key = (case ev_payload e of Some (JObj p) \<Rightarrow> jget p key | _ \<Rightarrow> JUndef)"

definition selectedGamesMatch :: "'a run_db_scheme \<Rightarrow> string \<Rightarrow> bool" where
  "selectedGamesMatch db run \<longleftrightarrow> list_ex (\<lambda>e. ev_run e = run \<and> ev_sequence e = 1 \<and>
     payload_field e ''selected_games'' = JArr (map JStr (games db run))) (events db)"

definition verifiedRunCurrent :: "'a run_db_scheme \<Rightarrow> string \<Rightarrow> run_row \<Rightarrow> bool" where
  "verifiedRunCurrent db run row \<longleftrightarrow>
     list_ex (\<lambda>e. ev_run e = run \<and> row ''last_event_sequence'' = JNum (ev_sequence e) \<and> row ''last_event_id'' = JStr (ev_id e) \<and>
       payload_field e ''current'' = JObj (currentSnapshot row) \<and>
       list_all (\<lambda>e'. ev_run e' = run \<longrightarrow> ev_sequence e' \<le> ev_sequence e) (events db)) (events db) \<and>
     selectedGamesMatch db run"

definition runCurrentIntegrityGuard :: "string \<Rightarrow> bool \<Rightarrow> 'a run_db_scheme sql" where
  "runCurrentIntegrityGuard run creating = sql_raise (\<lambda>db _.
     if \<not> creating \<and> anchors db run \<noteq> None \<and> currents db run = None then Some ''ingestion_run_projection_missing''
     else case currents db run of
         None \<Rightarrow> None
       | Some row \<Rightarrow> if verifiedRunCurrent db run row then None else Some ''ingestion_run_projection_mismatch'')"

subsection \<open>Effects of a terminal state\<close>

definition terminal_run :: "'a run_db_scheme \<Rightarrow> string option \<Rightarrow> IngestionRunState list \<Rightarrow> string \<Rightarrow> bool" where
  "terminal_run db only states run \<longleftrightarrow> (only = None \<or> only = Some run) \<and>
     (case currents db run of None \<Rightarrow> False | Some row \<Rightarrow> in_state row states)"

definition legacy_operation :: "'a run_db_scheme \<Rightarrow> string \<Rightarrow> bool" where
  "legacy_operation db preparation \<longleftrightarrow> list_ex (\<lambda>p. op_id p = preparation \<and> op_game p = None) (operations db)"

definition terminal_states :: "IngestionRunState list" where
  "terminal_states = [Failed, Rejected, Expired, Published]"

definition current_value :: "'a run_db_scheme \<Rightarrow> string \<Rightarrow> string \<Rightarrow> json" where
  "current_value db run column = (case currents db run of None \<Rightarrow> JNull | Some row \<Rightarrow> row column)"

definition terminalIngestionReservationEffects :: "string option \<Rightarrow> 'a run_db_scheme sql statement list" where
  "terminalIngestionReservationEffects only =
     [Plain (sql_write (\<lambda>db _.
        let (rows, n) = update_rows
              (\<lambda>c. gc_state c \<noteq> ''abandoned'' \<and> legacy_operation db (gc_preparation c) \<and> terminal_run db only terminal_states (gc_run c))
              (\<lambda>c. c\<lparr>gc_state := (case str_of (current_value db (gc_run c) ''state'') of Some s \<Rightarrow> s | None \<Rightarrow> [])\<rparr>) (candidates db)
        in (db\<lparr>candidates := rows\<rparr>, n))),
      Plain (sql_write (\<lambda>db _.
        let gone = (\<lambda>s. legacy_operation db (slot_preparation s) \<and> terminal_run db only terminal_states (slot_run s))
        in (db\<lparr>slots := filter (\<lambda>s. \<not> gone s) (slots db)\<rparr>, int (length (filter gone (slots db)))))),
      Plain (sql_write (\<lambda>db _.
        let (rows, n) = update_rows
              (\<lambda>p. op_game p = None \<and> op_state p = ''preparing'' \<and> terminal_run db only [Failed] (op_run p))
              (\<lambda>p. p\<lparr>op_state := ''failed'', op_failure := current_value db (op_run p) ''failure_code''\<rparr>) (operations db)
        in (db\<lparr>operations := rows\<rparr>, n)))]"

definition projectPublishedGameHeads :: "string option \<Rightarrow> 'a run_db_scheme sql" where
  "projectPublishedGameHeads only = sql_write (\<lambda>db _.
     let published = (case revision_run db (current_revision db) of
             None \<Rightarrow> []
           | Some run \<Rightarrow> if terminal_run db only [Published] run then games db run else []);
         (rows, n) = update_rows (\<lambda>(game, revision). revision \<noteq> current_revision db \<and> game \<in> set published)
             (\<lambda>(game, revision). (game, current_revision db)) (game_heads db)
     in (db\<lparr>game_heads := rows\<rparr>, n))"

text \<open>The least live reservation, as the release and recovery gates read it.\<close>

definition nextLiveIngestionReservation :: "'a run_db_scheme \<Rightarrow> string option" where
  "nextLiveIngestionReservation db =
     (case sort (filter (\<lambda>run. case currents db run of None \<Rightarrow> False
           | Some row \<Rightarrow> in_state row [Collecting, Paused, Parsing, Reconciling, AwaitingApproval, Publishing])
         (collection_reservations db)) of
        [] \<Rightarrow> None | run # _ \<Rightarrow> Some run)"

definition releaseActiveRunLock :: "string \<Rightarrow> 'a run_db_scheme sql" where
  "releaseActiveRunLock run = sql_write (\<lambda>db _.
     if active_run (operation db) = Some run
     then (db\<lparr>operation := (operation db)\<lparr>active_run := nextLiveIngestionReservation db\<rparr>\<rparr>, 1) else (db, 0))"

definition acquireRunLock :: "string \<Rightarrow> 'a run_db_scheme sql" where
  "acquireRunLock run = sql_write (\<lambda>db _.
     if active_run (operation db) = None \<and> recovery_health (operation db) \<noteq> ''blocked''
     then (db\<lparr>operation := (operation db)\<lparr>active_run := Some run\<rparr>\<rparr>, 1) else (db, 0))"

definition reserveIngestionCollection :: "string \<Rightarrow> 'a run_db_scheme sql" where
  "reserveIngestionCollection run = (\<lambda>(db, changes).
     if run \<in> set (collection_reservations db) then Inl (Raised ''UNIQUE constraint failed'')
     else Inr (db\<lparr>collection_reservations := collection_reservations db @ [run]\<rparr>, 1))"

subsection \<open>Run events\<close>

record RunEventCommand =
  c_event :: string
  c_kind :: string
  c_run :: string
  c_occurred :: string

datatype build_error =
    Transition_error run_state_error
  | Progress_error run_event_error
  | Not_json                         \<comment> \<open>the SyntaxError of \<open>JSON.parse\<close>\<close>
  | Chunk_failure chunk_error
  | Guard_misuse                     \<comment> \<open>the TypeErrors of \<open>runTransitionGuardStatement\<close>\<close>

fun map_error :: "('e \<Rightarrow> 'f) \<Rightarrow> 'e + 'a \<Rightarrow> 'f + 'a" where
  "map_error f (Inl e) = Inl (f e)"
| "map_error f (Inr x) = Inr x"

text \<open>A payload is its text, with whether \<open>JSON.parse\<close> accepts it.\<close>

type_synonym payload_text = "js_string \<times> bool"

record 'db run_mutation =
  m_before :: "'db sql statement list"
  m_guards :: "'db sql statement list"
  m_after :: "'db sql statement list"
  m_candidate :: "payload_text option"
  m_diagnostics :: "payload_text option"
  m_games :: json
  m_decision :: json
  m_approval_key :: "string option"

definition plain_mutation :: "'db run_mutation" where
  "plain_mutation = \<lparr>m_before = [], m_guards = [], m_after = [], m_candidate = None, m_diagnostics = None,
     m_games = JNull, m_decision = JNull, m_approval_key = None\<rparr>"

definition prepared_payload :: "string \<Rightarrow> payload_text option \<Rightarrow> build_error + (string \<times> js_string list \<times> nat) list" where
  "prepared_payload kind payload = (case payload of
      None \<Rightarrow> Inr []
    | Some (text, valid) \<Rightarrow>
        if \<not> valid then Inl Not_json
        else rbind (map_error Chunk_failure (byteChunks text)) (\<lambda>cs. Inr [(kind, cs, byte_length text)]))"

definition payload_metadata :: "(string \<times> js_string list \<times> nat) list \<Rightarrow> json_object" where
  "payload_metadata payloads = map (\<lambda>(kind, cs, bytes).
     (kind, JObj [(''chunks'', JNum (int (length cs))), (''bytes'', JNum (int bytes))])) payloads"

definition appended_event ::
  "sql_env \<Rightarrow> RunEventCommand \<Rightarrow> 'db run_mutation \<Rightarrow> json_object \<Rightarrow> run_row \<Rightarrow> RunEventRow" where
  "appended_event env event input metadata row =
     \<lparr>ev_run = c_run event, ev_sequence = num_of (row ''last_event_sequence''), ev_id = c_event event, ev_kind = c_kind event,
      ev_occurred = date_parse env (c_occurred event), ev_from = str_of (row ''previous_state''),
      ev_to = (case str_of (row ''state'') of Some s \<Rightarrow> s | None \<Rightarrow> []),
      ev_payload = Some (JObj [(''current'', JObj (currentSnapshot row)), (''selected_games'', m_games input),
        (''decision'', m_decision input), (''payloads'', JObj metadata),
        (''approval_idempotency_key'', nullable (m_approval_key input))])\<rparr>"

definition append_event :: "sql_env \<Rightarrow> RunEventCommand \<Rightarrow> 'db run_mutation \<Rightarrow> json_object \<Rightarrow> 'a run_db_scheme sql" where
  "append_event env event input metadata = (\<lambda>(db, changes).
     case currents db (c_run event) of
       None \<Rightarrow> Inr (db, 0)
     | Some row \<Rightarrow>
         if row ''last_event_id'' = JStr (c_event event) \<and> changes > 0
         then let e = appended_event env event input metadata row
              in if list_ex (\<lambda>e'. ev_id e' = ev_id e \<or> ev_run e' = ev_run e \<and> ev_sequence e' = ev_sequence e) (events db)
                 then Inl (Raised ''UNIQUE constraint failed'')
                 else Inr (db\<lparr>events := events db @ [e]\<rparr>, 1)
         else Inr (db, 0))"

definition insert_chunk :: "RunEventCommand \<Rightarrow> string \<Rightarrow> nat \<Rightarrow> js_string \<Rightarrow> 'a run_db_scheme sql" where
  "insert_chunk event kind index content = sql_write (\<lambda>db _.
     let found = filter (\<lambda>e. ev_id e = c_event event \<and> ev_run e = c_run event) (events db);
         rows = map (\<lambda>e. \<lparr>pc_run = ev_run e, pc_sequence = ev_sequence e, pc_kind = kind, pc_index = index, pc_content = content\<rparr>) found;
         fresh = filter (\<lambda>r. \<not> list_ex (\<lambda>r'. pc_run r' = pc_run r \<and> pc_sequence r' = pc_sequence r \<and> pc_kind r' = pc_kind r \<and>
           pc_index r' = pc_index r) (chunks db)) rows
     in (db\<lparr>chunks := chunks db @ fresh\<rparr>, int (length fresh)))"

definition claim_approval :: "RunEventCommand \<Rightarrow> string \<Rightarrow> 'a run_db_scheme sql" where
  "claim_approval event key = sql_write (\<lambda>db _.
     case anchors db (c_run event) of
       None \<Rightarrow> (db, 0)
     | Some anchor \<Rightarrow>
         if list_ex (\<lambda>e. ev_id e = c_event event \<and> ev_run e = c_run event) (events db)
         then (db\<lparr>anchors := (anchors db)(c_run event \<mapsto> anchor\<lparr>approval_key := Some key\<rparr>)\<rparr>, 1) else (db, 0))"

definition runEventStatement ::
  "sql_env \<Rightarrow> RunEventCommand \<Rightarrow> 'a run_db_scheme sql \<Rightarrow> 'a run_db_scheme run_mutation \<Rightarrow>
     build_error + 'a run_db_scheme sql statement" where
  "runEventStatement env event primary input =
     rbind (prepared_payload ''candidate'' (m_candidate input)) (\<lambda>candidate.
     rbind (prepared_payload ''diagnostics'' (m_diagnostics input)) (\<lambda>diagnostics.
     let payloads = candidate @ diagnostics;
         append = Plain (append_event env event input (payload_metadata payloads));
         inserts = concat (map (\<lambda>(kind, cs, bytes). map (\<lambda>(index, content). Plain (insert_chunk event kind index content)) (enumerate 0 cs))
           payloads);
         claim = (case m_approval_key input of None \<Rightarrow> [] | Some key \<Rightarrow> [Plain (claim_approval event key)])
     in Inr (atomicRepositoryStatement (store env) (Plain primary)
          (m_before input @ [Plain (runCurrentIntegrityGuard (c_run event) (c_kind event = ''created''))])
          (m_guards input @ append # inserts @ claim @ m_after input @ terminalIngestionReservationEffects (Some (c_run event)) @
           (if c_kind event = ''published'' then [Plain (projectPublishedGameHeads (Some (c_run event)))] else [])))))"

text \<open>
  \<open>runEventIdentitySql\<close> with the further assignments of an UPDATE of one run; every right-hand side
  reads the old row.
\<close>

definition assign_columns :: "(string \<times> json) list \<Rightarrow> run_row \<Rightarrow> run_row" where
  "assign_columns assignments row = fold (\<lambda>(column, v) r. r(column := v)) assignments row"

definition runEventIdentity :: "string \<Rightarrow> run_row \<Rightarrow> (string \<times> json) list" where
  "runEventIdentity eventId row = [(''previous_state'', row ''state''),
     (''last_event_sequence'', JNum (num_of (row ''last_event_sequence'') + 1)), (''last_event_id'', JStr eventId)]"

definition update_current ::
  "string \<Rightarrow> string \<Rightarrow> (run_row \<Rightarrow> bool) \<Rightarrow> (run_row \<Rightarrow> (string \<times> json) list) \<Rightarrow> 'a run_db_scheme sql" where
  "update_current run eventId matches assignments = sql_write (\<lambda>db _.
     case currents db run of
       None \<Rightarrow> (db, 0)
     | Some row \<Rightarrow>
         if matches row
         then (db\<lparr>currents := (currents db)(run \<mapsto> assign_columns (runEventIdentity eventId row @ assignments row) row)\<rparr>, 1)
         else (db, 0))"

text \<open>The condition \<open>ingestionRunTransitionSql\<close> builds, as a predicate of the row.\<close>

definition transition_condition ::
  "IngestionRunState list \<Rightarrow> IngestionRunState \<Rightarrow> IngestionRunTransitionFacts \<Rightarrow> build_error + (run_row \<Rightarrow> bool)" where
  "transition_condition sources target facts =
     rbind (map_error Transition_error (ingestionRunTransitionSql sources target facts)) (\<lambda>_. Inr (\<lambda>row. in_state row sources))"

definition state_assign :: "IngestionRunState \<Rightarrow> string \<times> json" where
  "state_assign s = (''state'', JStr (state_name s))"

subsection \<open>Guards\<close>

definition all_facts :: IngestionRunTransitionFacts where
  "all_facts = \<lparr>failureCode = Some ''ingestion_run_terminated'', terminationRecorded = True\<rparr>"

definition abandoned_publication :: "json \<Rightarrow> bool" where
  "abandoned_publication code \<longleftrightarrow>
     code \<in> {JStr ''publication_abandoned'', JStr ''publication_precondition_failed'', JStr ''export_verification_failed''}"

definition deadline_ok :: "sql_env \<Rightarrow> run_row \<Rightarrow> bool" where
  "deadline_ok env row \<longleftrightarrow>
     row ''candidate_digest'' \<noteq> JNull \<and> row ''candidate_catalogue_digest'' \<noteq> JNull \<and> row ''candidate_created_at'' \<noteq> JNull \<and>
     row ''approval_deadline'' \<noteq> JNull \<and>
     (case str_of (row ''candidate_created_at'') of None \<Rightarrow> False
      | Some created \<Rightarrow> (case plus_seven_days env created of None \<Rightarrow> False | Some t \<Rightarrow> row ''approval_deadline'' = JStr t))"

definition approval_ok :: "'a run_db_scheme \<Rightarrow> string \<Rightarrow> run_anchor \<Rightarrow> run_row \<Rightarrow> bool" where
  "approval_ok db run anchor row \<longleftrightarrow>
     row ''approved_at'' \<noteq> JNull \<and> text_eq (row ''approved_candidate_digest'') (row ''candidate_digest'') \<and>
     row ''approved_expected_revision_id'' = JStr (expected_revision anchor) \<and>
     text_less (row ''approved_at'') (row ''approval_deadline'') \<and>
     current_revision db = expected_revision anchor \<and>
     active_run (operation db) = Some run \<and> recovery_health (operation db) = ''healthy''"

definition run_active ::
  "'a run_db_scheme \<Rightarrow> IngestionRunState list \<Rightarrow> string \<Rightarrow> run_row \<Rightarrow> bool" where
  "run_active db sources run row \<longleftrightarrow>
     run \<in> set (collection_reservations db) \<or>
     (sources = [Publishing] \<and> in_state row [Failed] \<and> abandoned_publication (row ''failure_code'')) \<or>
     (AwaitingApproval \<in> set sources \<and> in_state row [Expired] \<and> row ''approval_deadline'' \<noteq> JNull \<and>
       (text_less (row ''approval_deadline'') (row ''terminal_at'') \<or> text_eq (row ''approval_deadline'') (row ''terminal_at'')))"

definition transition_guard_code ::
  "sql_env \<Rightarrow> IngestionRunState list \<Rightarrow> IngestionRunState \<Rightarrow> 'a run_db_scheme \<Rightarrow> string \<Rightarrow> run_anchor \<Rightarrow> run_row \<Rightarrow> string option" where
  "transition_guard_code env sources target db run anchor row =
     (if \<not> (in_state row [target] \<and>
            (\<not> (target = Failed \<and> Paused \<in> set sources) \<or>
             row ''failure_code'' = JStr ''ingestion_run_terminated'' \<and> run \<in> set (terminations db)))
      then Some ''illegal_ingestion_transition''
      else if \<not> run_active db sources run row then Some ''run_not_active''
      else if target = AwaitingApproval \<and> \<not> deadline_ok env row then Some ''invalid_candidate_deadline''
      else if target = Publishing \<and> \<not> approval_ok db run anchor row then Some ''approval_guard_failed''
      else None)"

definition runTransitionGuardStatement ::
  "sql_env \<Rightarrow> string \<Rightarrow> IngestionRunState list \<Rightarrow> IngestionRunState \<Rightarrow> build_error + 'a run_db_scheme sql statement" where
  "runTransitionGuardStatement env run sources target =
     (if sources = [] \<or> list_ex (\<lambda>s. \<not> canTransitionIngestionRun (state_name s) target all_facts) sources then Inl Guard_misuse
      else if target = Failed \<and> Paused \<in> set sources \<and> length sources \<noteq> 1 then Inl Guard_misuse
      else Inr (Plain (sql_raise (\<lambda>db changes.
        if changes = 0 then None
        else case (anchors db run, currents db run) of
            (Some anchor, Some row) \<Rightarrow> transition_guard_code env sources target db run anchor row
          | _ \<Rightarrow> Some ''illegal_ingestion_transition''))))"

text \<open>\<open>now\<close> is the instant SQLite reads.\<close>

definition runStartGuardStatement :: "string \<Rightarrow> 'a run_db_scheme sql statement" where
  "runStartGuardStatement now = Plain (sql_raise (\<lambda>db changes.
     if changes = 0 then None
     else if release_id (operation db) \<noteq> None \<and> (case release_expires (operation db) of None \<Rightarrow> False | Some t \<Rightarrow> now < t)
     then Some ''active_ingestion_run_or_release''
     else if recovery_health (operation db) = ''blocked'' \<or> restore_guard (operation db) = ''blocked''
     then Some ''recovery_in_progress'' else None))"

subsection \<open>Creating a run\<close>

record create_input =
  cr_run :: string
  cr_games :: "string list"
  cr_started :: string
  cr_expected :: "string option"
  cr_linked :: "string option"
  cr_key :: string
  cr_request :: "string option"
  cr_state :: IngestionRunState
  cr_candidate :: "payload_text option"
  cr_diagnostics :: "payload_text option"

definition insert_anchor :: "create_input \<Rightarrow> 'a run_db_scheme sql" where
  "insert_anchor input = (\<lambda>(db, changes).
     if anchors db (cr_run input) \<noteq> None then Inl (Raised ''UNIQUE constraint failed'')
     else Inr (db\<lparr>anchors := (anchors db)(cr_run input \<mapsto>
       \<lparr>started_at = cr_started input,
        expected_revision = (case cr_expected input of Some r \<Rightarrow> r | None \<Rightarrow> current_revision db),
        linked_run = cr_linked input, anchor_key = cr_key input, operational_request = cr_request input, approval_key = None\<rparr>)\<rparr>, 1))"

definition insert_games :: "create_input \<Rightarrow> 'a run_db_scheme sql" where
  "insert_games input = (\<lambda>(db, changes).
     if games db (cr_run input) \<noteq> [] \<and> cr_games input \<noteq> [] then Inl (Raised ''UNIQUE constraint failed'')
     else Inr (db\<lparr>games := (games db)(cr_run input := games db (cr_run input) @ cr_games input)\<rparr>, int (length (cr_games input))))"

definition created_row :: "create_input \<Rightarrow> string \<Rightarrow> run_row" where
  "created_row input eventId = (\<lambda>column. JNull)
     (''ingestion_run_id'' := JStr (cr_run input), ''last_event_sequence'' := JNum 1, ''last_event_id'' := JStr eventId,
      ''state'' := JStr (state_name (cr_state input)), ''completed_stage_count'' := JNum (if cr_state input = Planning then 0 else 1),
      ''candidate_payload_event_sequence'' := (if cr_candidate input = None then JNull else JNum 1),
      ''diagnostics_event_sequence'' := (if cr_diagnostics input = None then JNull else JNum 1))"

definition insert_current :: "create_input \<Rightarrow> string \<Rightarrow> 'a run_db_scheme sql" where
  "insert_current input eventId = (\<lambda>(db, changes).
     if currents db (cr_run input) \<noteq> None then Inl (Raised ''UNIQUE constraint failed'')
     else Inr (db\<lparr>currents := (currents db)(cr_run input \<mapsto> created_row input eventId)\<rparr>, 1))"

definition createRunEventStatement ::
  "sql_env \<Rightarrow> string \<Rightarrow> create_input \<Rightarrow> 'a run_db_scheme sql statement list \<Rightarrow>
     build_error + 'a run_db_scheme sql statement" where
  "createRunEventStatement env eventId input guards =
     runEventStatement env \<lparr>c_event = eventId, c_kind = ''created'', c_run = cr_run input, c_occurred = cr_started input\<rparr>
       (insert_current input eventId)
       (plain_mutation\<lparr>m_before := [Plain (insert_anchor input), Plain (insert_games input)], m_guards := guards,
          m_after := [Plain (reserveIngestionCollection (cr_run input))],
          m_candidate := cr_candidate input, m_diagnostics := cr_diagnostics input,
          m_games := JArr (map JStr (cr_games input))\<rparr>)"

subsection \<open>Rebuilding the projection\<close>

record maintenance =
  mt_owner :: string
  mt_observed :: string

definition projectionMaintenanceGuard :: "maintenance \<Rightarrow> 'a run_db_scheme sql" where
  "projectionMaintenanceGuard m = sql_guard (\<lambda>db _.
     release_id (operation db) = Some (mt_owner m) \<and>
       (case release_expires (operation db) of None \<Rightarrow> False | Some t \<Rightarrow> mt_observed m < t) \<or>
     recovery_id (operation db) = Some (mt_owner m) \<and> recovery_health (operation db) = ''blocked'' \<and>
       restore_guard (operation db) = ''blocked'')
   ''ingestion_run_rebuild_requires_maintenance''"

definition run_history :: "'a run_db_scheme \<Rightarrow> string \<Rightarrow> RunEventRow list" where
  "run_history db run = filter (\<lambda>e. ev_run e = run) (events db)"

definition event_fence :: "string \<Rightarrow> json_object \<Rightarrow> 'a run_db_scheme sql" where
  "event_fence run cur = sql_guard (\<lambda>db _.
     list_ex (\<lambda>e. jget cur ''last_event_sequence'' = JNum (ev_sequence e) \<and> jget cur ''last_event_id'' = JStr (ev_id e) \<and>
       list_all (\<lambda>e'. ev_sequence e' \<le> ev_sequence e) (run_history db run)) (run_history db run))
   ''ingestion_run_history_advanced''"

text \<open>A comparison with a missing value is not true.\<close>

definition differs :: "json \<Rightarrow> int \<Rightarrow> bool" where
  "differs v n = (case v of JNum m \<Rightarrow> m \<noteq> n | JUndef \<Rightarrow> False | JNull \<Rightarrow> False | _ \<Rightarrow> True)"

definition payload_incomplete :: "'a run_db_scheme \<Rightarrow> RunEventRow \<Rightarrow> string \<times> json \<Rightarrow> bool" where
  "payload_incomplete db e = (\<lambda>(kind, metadata).
     let rows = filter (\<lambda>r. pc_run r = ev_run e \<and> pc_sequence r = ev_sequence e \<and> pc_kind r = kind) (chunks db);
         expected = (\<lambda>key. case metadata of JObj m \<Rightarrow> jget m key | _ \<Rightarrow> JUndef);
         indices = map pc_index rows
     in differs (expected ''chunks'') (int (length rows)) \<or> 0 \<notin> set indices \<or>
        differs (expected ''chunks'') (int (Max (set indices)) + 1) \<or>
        differs (expected ''bytes'') (int (sum_list (map (byte_length \<circ> pc_content) rows))))"

definition payload_guard :: "string \<Rightarrow> 'a run_db_scheme sql" where
  "payload_guard run = sql_guard (\<lambda>db _. list_all (\<lambda>e.
     case payload_field e ''payloads'' of JObj retained \<Rightarrow> \<not> list_ex (payload_incomplete db e) retained | _ \<Rightarrow> True) (run_history db run))
   ''ingestion_run_payload_incomplete''"

definition write_projection :: "string \<Rightarrow> json_object \<Rightarrow> 'a run_db_scheme sql" where
  "write_projection run cur = sql_write (\<lambda>db _.
     let row = (\<lambda>column. if column \<in> set runCurrentColumns then jget cur column else JNull)
     in (db\<lparr>currents := (currents db)(run \<mapsto> row)\<rparr>, 1))"

definition first_event_games :: "RunEventRow list \<Rightarrow> string list" where
  "first_event_games history = concat (map (\<lambda>e. case payload_field e ''selected_games'' of
       JArr gs \<Rightarrow> concat (map (\<lambda>g. case str_of g of Some s \<Rightarrow> [s] | None \<Rightarrow> []) gs) | _ \<Rightarrow> [])
     (filter (\<lambda>e. ev_sequence e = 1) history))"

definition rebuild_games :: "string \<Rightarrow> 'a run_db_scheme sql" where
  "rebuild_games run = sql_write (\<lambda>db _.
     let rows = first_event_games (run_history db run)
     in (db\<lparr>games := (games db)(run := games db run @ rows)\<rparr>, int (length rows)))"

datatype rebuild_error = Fold_error run_event_error | Batch_failure batch_error | Not_permitted sql_error

text \<open>The history is folded as \<open>seen\<close> at first; the transaction runs later, on \<open>db\<close>.\<close>

definition rebuildRunProjection ::
  "sql_env \<Rightarrow> string \<Rightarrow> maintenance \<Rightarrow> 'a run_db_scheme \<Rightarrow> 'a run_db_scheme \<Rightarrow> rebuild_error + json_object \<times> 'a run_db_scheme" where
  "rebuildRunProjection env run m seen db =
     rbind (map_error Not_permitted (projectionMaintenanceGuard m (seen, 0))) (\<lambda>_.
     rbind (map_error Fold_error (foldRunEvents (run_history seen run))) (\<lambda>cur.
     rbind (map_error Batch_failure (atomicBatch (store env) None
        [Plain (projectionMaintenanceGuard m), Plain (event_fence run cur), Plain (payload_guard run),
         Plain (write_projection run cur), Plain (sql_write (\<lambda>d _. (d\<lparr>games := (games d)(run := [])\<rparr>, int (length (games d run))))),
         Plain (rebuild_games run)] db)) (\<lambda>db'. Inr (cur, db'))))"

end
