(* ===== verification/Run_Mutations.thy ===== *)
theory Run_Mutations
  imports Run_Store
begin

text \<open>
  The named mutations of a run, each an UPDATE of its row composed with its event by
  \<open>runEventStatement\<close>: \<open>run-lifecycle-repository.ts\<close>, \<open>publication-commit-repository.ts\<close>,
  \<open>publication-storage-repository.ts\<close> and \<open>publication-cleanup-repository.ts\<close> of
  \<open>src/src/catalogue/ingestion\<close>, and \<open>reconciliation/reconciliation-state-repository.ts\<close>. A fresh
  event identity and the current instant are arguments.
\<close>

definition event_of :: "string \<Rightarrow> string \<Rightarrow> string \<Rightarrow> string \<Rightarrow> RunEventCommand" where
  "event_of eventId kind run occurred = \<lparr>c_event = eventId, c_kind = kind, c_run = run, c_occurred = occurred\<rparr>"

definition stage_count :: "json \<Rightarrow> build_error + json" where
  "stage_count progress = rbind (map_error Progress_error (runCompletedStageCount progress)) (\<lambda>n. Inr (JNum (int n)))"

text \<open>Progress documents, \<open>run-document-codec.ts\<close>.\<close>

definition position_of :: "IngestionRunState \<Rightarrow> nat option" where
  "position_of s = (case filter (\<lambda>i. activeRunStages ! i = s) [0..<length activeRunStages] of [] \<Rightarrow> None | i # _ \<Rightarrow> Some i)"

definition progressFor :: "IngestionRunState \<Rightarrow> json" where
  "progressFor s = JObj
     [(''completed_stages'', JArr (map (JStr \<circ> state_name)
        (case position_of s of Some i \<Rightarrow> take i activeRunStages | None \<Rightarrow> activeRunStages))),
      (''current_stage'', JStr (state_name s))]"

definition validCompletedStageCount :: "IngestionRunState \<Rightarrow> int \<Rightarrow> bool" where
  "validCompletedStageCount s n =
     (case position_of s of
        Some i \<Rightarrow> n = int i
      | None \<Rightarrow>
          if s = Paused then Some (nat n) = position_of Collecting \<and> 0 \<le> n
          else if s = Published then n = int (length activeRunStages)
          else if s = Rejected \<or> s = Expired then Some (nat n) = position_of AwaitingApproval \<and> 0 \<le> n
          else s = Failed)"

subsection \<open>Life cycle\<close>

definition failActiveRunGuard :: "string \<Rightarrow> string \<Rightarrow> 'a run_db_scheme sql" where
  "failActiveRunGuard run code = sql_guard (\<lambda>db _.
     \<not> (case currents db run of
          None \<Rightarrow> False
        | Some row \<Rightarrow> in_state row (ingestionRunTransitionSources Failed no_facts) \<and> active_run (operation db) \<noteq> Some run \<and>
            \<not> (in_state row [Publishing] \<and> abandoned_publication (JStr code)))) ''run_not_active''"

definition failRunStatement ::
  "sql_env \<Rightarrow> string \<Rightarrow> string \<Rightarrow> string \<Rightarrow> string \<Rightarrow> build_error + 'a run_db_scheme sql statement" where
  "failRunStatement env eventId terminalAt code run =
     rbind (transition_condition (ingestionRunTransitionSources Failed no_facts) Failed no_facts) (\<lambda>matches.
     runEventStatement env (event_of eventId ''failed'' run terminalAt)
       (update_current run eventId matches (\<lambda>row. [state_assign Failed, (''terminal_at'', JStr terminalAt), (''failure_code'', JStr code)]))
       (plain_mutation\<lparr>m_before := [Plain (failActiveRunGuard run code)]\<rparr>))"

text \<open>
  The pattern of the other mutations: an UPDATE from given source states, guarded by
  \<open>runTransitionGuardStatement\<close>.
\<close>

definition guarded_update ::
  "sql_env \<Rightarrow> RunEventCommand \<Rightarrow> IngestionRunState list \<Rightarrow> IngestionRunState \<Rightarrow> build_error + (run_row \<Rightarrow> (string \<times> json) list) \<Rightarrow>
     'a run_db_scheme run_mutation \<Rightarrow> build_error + 'a run_db_scheme sql statement" where
  "guarded_update env event sources target bound input =
     rbind (transition_condition sources target no_facts) (\<lambda>matches.
     rbind bound (\<lambda>assignments.
     rbind (runTransitionGuardStatement env (c_run event) sources target) (\<lambda>guard.
     runEventStatement env event
       (update_current (c_run event) (c_event event) matches (\<lambda>row. state_assign target # assignments row))
       (input\<lparr>m_guards := [guard]\<rparr>))))"

definition with_count :: "json \<Rightarrow> (json \<Rightarrow> run_row \<Rightarrow> (string \<times> json) list) \<Rightarrow> build_error + (run_row \<Rightarrow> (string \<times> json) list)" where
  "with_count progress f = rbind (stage_count progress) (\<lambda>count. Inr (f count))"

definition rejectRunStatement ::
  "sql_env \<Rightarrow> string \<Rightarrow> string \<Rightarrow> json \<Rightarrow> json \<Rightarrow> string \<Rightarrow> build_error + 'a run_db_scheme sql statement" where
  "rejectRunStatement env eventId terminalAt progress decision run =
     guarded_update env (event_of eventId ''rejected'' run terminalAt) [AwaitingApproval] Rejected
       (with_count progress (\<lambda>count row. [(''terminal_at'', JStr terminalAt), (''completed_stage_count'', count)]))
       (plain_mutation\<lparr>m_decision := decision\<rparr>)"

definition failPreparedRunStatement ::
  "sql_env \<Rightarrow> string \<Rightarrow> string \<Rightarrow> string \<Rightarrow> string \<Rightarrow> string \<Rightarrow> string option \<Rightarrow> json \<Rightarrow> string \<Rightarrow>
     build_error + 'a run_db_scheme sql statement" where
  "failPreparedRunStatement env eventId digest createdAt deadline terminalAt code progress run =
     guarded_update env (event_of eventId ''candidate_blocked'' run terminalAt) [Planning] Failed
       (with_count progress (\<lambda>count row. [(''candidate_digest'', JStr digest), (''candidate_catalogue_digest'', JStr digest),
          (''candidate_created_at'', JStr createdAt), (''approval_deadline'', JStr deadline), (''terminal_at'', JStr terminalAt),
          (''failure_code'', nullable code), (''completed_stage_count'', count)]))
       plain_mutation"

definition completePreparedRunStatement ::
  "sql_env \<Rightarrow> string \<Rightarrow> string \<Rightarrow> string \<Rightarrow> string \<Rightarrow> json \<Rightarrow> string \<Rightarrow> build_error + 'a run_db_scheme sql statement" where
  "completePreparedRunStatement env eventId digest createdAt deadline progress run =
     guarded_update env (event_of eventId ''candidate_prepared'' run createdAt) [Reconciling] AwaitingApproval
       (with_count progress (\<lambda>count row. [(''candidate_digest'', JStr digest), (''candidate_catalogue_digest'', JStr digest),
          (''candidate_created_at'', JStr createdAt), (''approval_deadline'', JStr deadline), (''completed_stage_count'', count)]))
       plain_mutation"

definition transitionRunStatement ::
  "sql_env \<Rightarrow> string \<Rightarrow> string \<Rightarrow> IngestionRunState \<Rightarrow> IngestionRunState \<Rightarrow> json \<Rightarrow> string \<Rightarrow>
     build_error + 'a run_db_scheme sql statement" where
  "transitionRunStatement env eventId now source target progress run =
     guarded_update env (event_of eventId ''stage_changed'' run now) [source] target (with_count progress (\<lambda>count row. [(''completed_stage_count'', count)]))
       plain_mutation"

definition transitionStatement ::
  "sql_env \<Rightarrow> string \<Rightarrow> string \<Rightarrow> IngestionRunState \<Rightarrow> IngestionRunState \<Rightarrow> string \<Rightarrow> build_error + 'a run_db_scheme sql statement" where
  "transitionStatement env eventId now source target run = transitionRunStatement env eventId now source target (progressFor target) run"

subsection \<open>Reconciliation\<close>

definition next_sequence :: "run_row \<Rightarrow> json" where
  "next_sequence row = JNum (num_of (row ''last_event_sequence'') + 1)"

definition beginReconciliationStatement ::
  "sql_env \<Rightarrow> string \<Rightarrow> string \<Rightarrow> string \<Rightarrow> build_error + 'a run_db_scheme sql statement" where
  "beginReconciliationStatement env eventId now run =
     guarded_update env (event_of eventId ''stage_changed'' run now) [Parsing] Reconciling
       (Inr (\<lambda>row. [(''completed_stage_count'', JNum 3)])) plain_mutation"

record candidate_input =
  ci_payload :: payload_text
  ci_digest :: string
  ci_catalogue_digest :: string
  ci_created :: string
  ci_deadline :: string

definition candidate_columns :: "candidate_input \<Rightarrow> run_row \<Rightarrow> (string \<times> json) list" where
  "candidate_columns c row = [(''candidate_payload_event_sequence'', next_sequence row), (''candidate_digest'', JStr (ci_digest c)),
     (''candidate_catalogue_digest'', JStr (ci_catalogue_digest c)), (''candidate_created_at'', JStr (ci_created c)),
     (''approval_deadline'', JStr (ci_deadline c))]"

definition reviewableCandidateStatement ::
  "sql_env \<Rightarrow> string \<Rightarrow> candidate_input \<Rightarrow> payload_text \<Rightarrow> string \<Rightarrow> build_error + 'a run_db_scheme sql statement" where
  "reviewableCandidateStatement env eventId c warnings run =
     guarded_update env (event_of eventId ''candidate_prepared'' run (ci_created c)) [Reconciling] AwaitingApproval
       (Inr (\<lambda>row. candidate_columns c row @ [(''diagnostics_event_sequence'', next_sequence row), (''completed_stage_count'', JNum 4)]))
       (plain_mutation\<lparr>m_candidate := Some (ci_payload c), m_diagnostics := Some warnings\<rparr>)"

definition blockedCandidateStatement ::
  "sql_env \<Rightarrow> string \<Rightarrow> candidate_input \<Rightarrow> string \<Rightarrow> string \<Rightarrow> payload_text \<Rightarrow> string \<Rightarrow> build_error + 'a run_db_scheme sql statement" where
  "blockedCandidateStatement env eventId c terminalAt code diagnostics run =
     guarded_update env (event_of eventId ''candidate_blocked'' run terminalAt) [Reconciling] Failed
       (Inr (\<lambda>row. candidate_columns c row @ [(''terminal_at'', JStr terminalAt), (''failure_code'', JStr code),
          (''diagnostics_event_sequence'', next_sequence row), (''completed_stage_count'', JNum 4)]))
       (plain_mutation\<lparr>m_candidate := Some (ci_payload c), m_diagnostics := Some diagnostics\<rparr>)"

definition failedReconciliationStatement ::
  "sql_env \<Rightarrow> string \<Rightarrow> string \<Rightarrow> payload_text \<Rightarrow> string \<Rightarrow> build_error + 'a run_db_scheme sql statement" where
  "failedReconciliationStatement env eventId terminalAt diagnostics run =
     guarded_update env (event_of eventId ''failed'' run terminalAt) [Reconciling] Failed
       (Inr (\<lambda>row. [(''terminal_at'', JStr terminalAt), (''failure_code'', JStr ''printing_reconciliation_blocked''),
          (''diagnostics_event_sequence'', next_sequence row), (''completed_stage_count'', JNum 3)]))
       (plain_mutation\<lparr>m_diagnostics := Some diagnostics\<rparr>)"

definition failedReconciliationWorkflowStatement ::
  "sql_env \<Rightarrow> string \<Rightarrow> string \<Rightarrow> string \<Rightarrow> payload_text \<Rightarrow> string \<Rightarrow> build_error + 'a run_db_scheme sql statement" where
  "failedReconciliationWorkflowStatement env eventId terminalAt code diagnostics run =
     guarded_update env (event_of eventId ''failed'' run terminalAt) [Parsing, Reconciling] Failed
       (Inr (\<lambda>row. [(''terminal_at'', JStr terminalAt), (''failure_code'', JStr code),
          (''diagnostics_event_sequence'', next_sequence row), (''completed_stage_count'', JNum 3)]))
       (plain_mutation\<lparr>m_diagnostics := Some diagnostics\<rparr>)"

subsection \<open>Publication\<close>

record approval_decision =
  ap_at :: string
  ap_digest :: string
  ap_revision :: string

definition approval_json :: "approval_decision \<Rightarrow> json" where
  "approval_json a = JObj [(''action'', JStr ''approved''), (''approved_at'', JStr (ap_at a)), (''candidate_digest'', JStr (ap_digest a)),
     (''expected_current_revision_id'', JStr (ap_revision a))]"

definition approval_columns :: "approval_decision \<Rightarrow> json \<Rightarrow> (string \<times> json) list" where
  "approval_columns a count = [(''approved_at'', JStr (ap_at a)), (''approved_candidate_digest'', JStr (ap_digest a)),
     (''approved_expected_revision_id'', JStr (ap_revision a)), (''completed_stage_count'', count)]"

definition approveNoChangeRunStatement ::
  "sql_env \<Rightarrow> string \<Rightarrow> string \<Rightarrow> approval_decision \<Rightarrow> string \<Rightarrow> json \<Rightarrow> string \<Rightarrow> build_error + 'a run_db_scheme sql statement" where
  "approveNoChangeRunStatement env eventId occurredAt a key progress run =
     guarded_update env (event_of eventId ''approval_reserved'' run occurredAt) [AwaitingApproval] Publishing
       (with_count progress (\<lambda>count row. approval_columns a count))
       (plain_mutation\<lparr>m_approval_key := Some key, m_decision := approval_json a\<rparr>)"

record publication_writer =
  pw_revision :: string
  pw_started :: string
  pw_reconcile :: string
  pw_manifest :: string
  pw_token :: string

definition reservePublicationWriterStatement ::
  "sql_env \<Rightarrow> string \<Rightarrow> approval_decision \<Rightarrow> string \<Rightarrow> json \<Rightarrow> publication_writer \<Rightarrow> string \<Rightarrow>
     build_error + 'a run_db_scheme sql statement" where
  "reservePublicationWriterStatement env eventId a key progress w run =
     guarded_update env (event_of eventId ''approval_reserved'' run (pw_started w)) [AwaitingApproval] Publishing
       (with_count progress (\<lambda>count row. approval_columns a count @ [(''publication_revision_id'', JStr (pw_revision w)),
          (''publication_started_at'', JStr (pw_started w)), (''publication_reconcile_after'', JStr (pw_reconcile w)),
          (''publication_manifest_digest'', JStr (pw_manifest w)), (''publication_writer_token'', JStr (pw_token w))]))
       (plain_mutation\<lparr>m_approval_key := Some key, m_decision := approval_json a\<rparr>)"

definition publishNoChangeRunStatement ::
  "sql_env \<Rightarrow> string \<Rightarrow> string \<Rightarrow> json \<Rightarrow> string \<Rightarrow> string \<Rightarrow> string \<Rightarrow> build_error + 'a run_db_scheme sql statement" where
  "publishNoChangeRunStatement env eventId terminalAt progress revision checkedAt run =
     guarded_update env (event_of eventId ''published'' run terminalAt) [Publishing] Published
       (with_count progress (\<lambda>count row. [(''terminal_at'', JStr terminalAt), (''completed_stage_count'', count), (''publication_outcome'', JStr ''no_change''),
          (''resulting_revision_id'', JStr revision), (''freshness_checked_at'', JStr checkedAt)])) plain_mutation"

definition publishApprovedRunStatement ::
  "sql_env \<Rightarrow> string \<Rightarrow> string \<Rightarrow> string \<Rightarrow> string \<Rightarrow> json \<Rightarrow> string \<Rightarrow> build_error + 'a run_db_scheme sql statement" where
  "publishApprovedRunStatement env eventId revision manifest completedAt progress run =
     guarded_update env (event_of eventId ''published'' run completedAt) [Publishing] Published
       (with_count progress (\<lambda>count row. [(''published_revision_id'', JStr revision), (''export_manifest_digest'', JStr manifest), (''terminal_at'', JStr completedAt),
          (''completed_stage_count'', count), (''publication_outcome'', JStr ''revision''), (''resulting_revision_id'', JStr revision),
          (''freshness_checked_at'', JStr completedAt)])) plain_mutation"

definition failCandidatePublicationStatement ::
  "sql_env \<Rightarrow> string \<Rightarrow> string \<Rightarrow> string \<Rightarrow> string \<Rightarrow> build_error + 'a run_db_scheme sql statement" where
  "failCandidatePublicationStatement env eventId terminalAt code run =
     guarded_update env (event_of eventId ''failed'' run terminalAt) [AwaitingApproval] Failed
       (Inr (\<lambda>row. [(''terminal_at'', JStr terminalAt), (''failure_code'', JStr code)])) plain_mutation"

definition failReservedPublicationStatement ::
  "sql_env \<Rightarrow> string \<Rightarrow> string \<Rightarrow> string \<Rightarrow> string \<Rightarrow> build_error + 'a run_db_scheme sql statement" where
  "failReservedPublicationStatement env eventId terminalAt code run =
     guarded_update env (event_of eventId ''failed'' run terminalAt) [Publishing] Failed
       (Inr (\<lambda>row. [(''terminal_at'', JStr terminalAt), (''failure_code'', JStr code)])) plain_mutation"

subsection \<open>Pausing collection\<close>

text \<open>The run event of a pause; callers compose it with the record of their reason.\<close>

definition pauseRunStatement ::
  "sql_env \<Rightarrow> string \<Rightarrow> string \<Rightarrow> 'a run_db_scheme sql statement list \<Rightarrow> string \<Rightarrow> build_error + 'a run_db_scheme sql statement" where
  "pauseRunStatement env eventId pausedAt before run =
     guarded_update env (event_of eventId ''collection_paused'' run pausedAt) [Collecting] Paused
       (Inr (\<lambda>row. [(''completed_stage_count'', JNum 1)])) (plain_mutation\<lparr>m_before := before\<rparr>)"

end
