(* ===== verification/Acquisition_Store.thy ===== *)
theory Acquisition_Store
  imports Run_Mutations
begin

text \<open>
  The tables of the acquisition budget and the statements over them:
  \<open>acquisition-budget-repository.ts\<close> and \<open>source-parse-authority-repository.ts\<close> of
  \<open>src/src/catalogue/source-evidence\<close>.

  A run that collects source evidence has an account, a sequence of immutable policies (its budget
  by generation), and one reservation for every dispatch it was permitted. The tables extend those
  of a run. Of the schema the model keeps the primary and unique keys and the checks on byte counts,
  each of which aborts the transaction; a nullable column is an option. \<open>response_json\<close> is kept as the
  value its text parses to. The clock is an argument; \<open>julianday\<close> maps a timestamp to milliseconds.
\<close>

subsection \<open>Tables\<close>

record AcquisitionBudget =
  max_dispatches :: int
  max_source_bytes :: int
  dispatch_deadline :: string

record account_row =
  coverage_started_at :: string
  historical_dispatches_unknown :: bool
  baseline_source_bytes :: int
  charged_dispatches :: int
  charged_source_bytes :: int
  reserved_source_bytes :: int

record policy_row =
  po_run :: string
  po_generation :: int
  po_budget :: AcquisitionBudget
  po_created :: string
  po_key :: string
  po_digest :: string
  po_response :: json

record DispatchReservation =
  dr_id :: string
  dr_run :: string
  dr_request :: string
  dr_capture :: string
  dr_object :: string
  dr_parent :: "string option"
  dr_instance :: "string option"
  dr_generation :: int
  dr_maximum :: int
  dr_reserved_at :: string
  dr_settled :: "(string \<times> int) option"   \<comment> \<open>\<open>settled_at\<close> and \<open>charged_source_bytes\<close>, NULL together\<close>

datatype AcquisitionDimension = Dispatches | Source_bytes | Deadline | Policy_missing | Ownership

record AcquisitionPause =
  ap_event :: string
  ap_run :: string
  ap_generation :: "int option"
  ap_request :: string
  ap_maximum :: int
  ap_dimension :: AcquisitionDimension
  ap_paused_at :: string

record object_writer =
  ow_token :: string
  ow_run :: string
  ow_object :: string
  ow_started :: string
  ow_completed :: "string option"

record capture_operation =
  co_attempt :: string
  co_run :: string
  co_request :: string
  co_object :: string
  co_state :: string
  co_digest :: "string option"
  co_length :: "int option"
  co_reused :: "string option"

record source_snapshot =
  sn_run :: string
  sn_object :: string
  sn_digest :: string
  sn_length :: int

record workflow_attempt =
  wa_run :: string
  wa_kind :: string
  wa_base :: string
  wa_number :: int
  wa_instance :: string

record evidence_plan =
  pl_parent :: "string option"
  pl_completed :: "string option"

record acq_db = run_db +
  accounts :: "string \<rightharpoonup> account_row"             \<comment> \<open>\<open>ingestion_acquisition_accounts\<close>\<close>
  policies :: "policy_row list"                  \<comment> \<open>\<open>ingestion_acquisition_policies\<close>\<close>
  reservations :: "DispatchReservation list"     \<comment> \<open>\<open>source_dispatch_reservations\<close>\<close>
  pauses :: "AcquisitionPause list"              \<comment> \<open>\<open>ingestion_acquisition_pauses\<close>\<close>
  writers :: "object_writer list"                \<comment> \<open>\<open>evidence_object_writers\<close>\<close>
  captures :: "capture_operation list"           \<comment> \<open>\<open>source_capture_operations\<close>\<close>
  snapshots :: "source_snapshot list"            \<comment> \<open>\<open>source_snapshots\<close>\<close>
  workflow_attempts :: "workflow_attempt list"   \<comment> \<open>\<open>ingestion_workflow_attempts\<close>\<close>
  plans :: "string \<rightharpoonup> evidence_plan"              \<comment> \<open>\<open>ingestion_evidence_plans\<close>\<close>

record acq_env = sql_env +
  julianday :: "string \<Rightarrow> int option"
  iso_string :: "int \<Rightarrow> string"                   \<comment> \<open>\<open>Date.prototype.toISOString\<close>\<close>
  digest_of :: "json \<Rightarrow> string"                   \<comment> \<open>\<open>sha256(utf8(canonicalJson(value)))\<close>\<close>

subsection \<open>Reading the account\<close>

definition run_policies :: "acq_db \<Rightarrow> string \<Rightarrow> policy_row list" where
  "run_policies db run = filter (\<lambda>p. po_run p = run) (policies db)"

text \<open>\<open>ORDER BY generation DESC LIMIT 1\<close>; the generations of a run are distinct.\<close>

definition latest_policy :: "acq_db \<Rightarrow> string \<Rightarrow> policy_row option" where
  "latest_policy db run = fold (\<lambda>p best. case best of
       None \<Rightarrow> Some p | Some b \<Rightarrow> if po_generation b < po_generation p then Some p else Some b) (run_policies db run) None"

record AcquisitionAccount =
  aa_account :: account_row
  aa_state :: json
  aa_generation :: int
  aa_budget :: AcquisitionBudget

definition acquisitionAccount :: "acq_db \<Rightarrow> string \<Rightarrow> AcquisitionAccount option" where
  "acquisitionAccount db run = (case (accounts db run, latest_policy db run, currents db run) of
       (Some a, Some p, Some row) \<Rightarrow> Some \<lparr>aa_account = a, aa_state = row ''state'', aa_generation = po_generation p, aa_budget = po_budget p\<rparr>
     | _ \<Rightarrow> None)"

definition acquisitionPolicyByKey :: "acq_db \<Rightarrow> string \<Rightarrow> policy_row option" where
  "acquisitionPolicyByKey db key = find (\<lambda>p. po_key p = key) (policies db)"

text \<open>The last row in the order of two text columns.\<close>

definition last_by :: "('r \<Rightarrow> string) \<Rightarrow> ('r \<Rightarrow> string) \<Rightarrow> 'r list \<Rightarrow> 'r option" where
  "last_by f g rows = fold (\<lambda>r best. case best of
       None \<Rightarrow> Some r | Some b \<Rightarrow> if f b < f r \<or> f b = f r \<and> g b < g r then Some r else Some b) rows None"

definition acquisitionPause :: "acq_db \<Rightarrow> string \<Rightarrow> AcquisitionPause option" where
  "acquisitionPause db run = last_by ap_paused_at ap_event (filter (\<lambda>p. ap_run p = run) (pauses db))"

definition acquisitionUnsettledPageSize :: nat where
  "acquisitionUnsettledPageSize = 50"

definition unsettled :: "DispatchReservation \<Rightarrow> bool" where
  "unsettled r \<longleftrightarrow> dr_settled r = None"

definition unsettledDispatches :: "acq_db \<Rightarrow> string \<Rightarrow> DispatchReservation list" where
  "unsettledDispatches db run =
     take (acquisitionUnsettledPageSize + 1) (sort_key dr_id (filter (\<lambda>r. dr_run r = run \<and> unsettled r) (reservations db)))"

definition captureDispatch :: "acq_db \<Rightarrow> string \<Rightarrow> DispatchReservation option" where
  "captureDispatch db capture = last_by dr_reserved_at dr_id (filter (\<lambda>r. dr_capture r = capture) (reservations db))"

definition storedBodyDispatch :: "acq_db \<Rightarrow> string \<Rightarrow> string \<Rightarrow> string \<Rightarrow> string \<Rightarrow> DispatchReservation option" where
  "storedBodyDispatch db token run capture key =
     find (\<lambda>r. dr_id r = token \<and> dr_run r = run \<and> dr_capture r = capture \<and> dr_object r = key) (reservations db)"

definition unsettledRunDispatch :: "acq_db \<Rightarrow> string \<Rightarrow> DispatchReservation option" where
  "unsettledRunDispatch db run = find (\<lambda>r. dr_run r = run \<and> unsettled r) (reservations db)"

definition unresolvedCaptureResponse :: "acq_db \<Rightarrow> string \<Rightarrow> capture_operation option" where
  "unresolvedCaptureResponse db run = find (\<lambda>c. co_run c = run \<and> co_state c = ''response_received'') (captures db)"

definition unsettledRawWriter :: "acq_db \<Rightarrow> string \<Rightarrow> string option \<Rightarrow> object_writer option" where
  "unsettledRawWriter db run key = find (\<lambda>w. ow_run w = run \<and> ow_completed w = None \<and> (key = None \<or> key = Some (ow_object w)) \<and>
     list_ex (\<lambda>c. co_run c = run \<and> co_object c = ow_object w) (captures db)) (writers db)"

subsection \<open>Opening and extending an account\<close>

definition initialAcquisitionAccount :: "string \<Rightarrow> string \<Rightarrow> bool \<Rightarrow> int \<Rightarrow> acq_db sql" where
  "initialAcquisitionAccount run at historical baseline = (\<lambda>(db, changes).
     if accounts db run \<noteq> None then Inl (Raised ''UNIQUE constraint failed'')
     else if \<not> (0 \<le> baseline \<and> is_safe_integer baseline) then Inl (Raised ''CHECK constraint failed'')
     else Inr (db\<lparr>accounts := (accounts db)(run \<mapsto> \<lparr>coverage_started_at = at, historical_dispatches_unknown = historical,
         baseline_source_bytes = baseline, charged_dispatches = 0, charged_source_bytes = baseline, reserved_source_bytes = 0\<rparr>)\<rparr>, 1))"

definition insertAcquisitionPolicy :: "policy_row \<Rightarrow> acq_db sql" where
  "insertAcquisitionPolicy p = (\<lambda>(db, changes).
     if list_ex (\<lambda>q. po_key q = po_key p \<or> po_run q = po_run p \<and> po_generation q = po_generation p) (policies db)
     then Inl (Raised ''UNIQUE constraint failed'')
     else if accounts db (po_run p) = None then Inl (Raised ''FOREIGN KEY constraint failed'')
     else if \<not> (1 \<le> max_dispatches (po_budget p) \<and> is_safe_integer (max_dispatches (po_budget p)) \<and>
       1 \<le> max_source_bytes (po_budget p) \<and> is_safe_integer (max_source_bytes (po_budget p)) \<and> 0 < po_generation p)
     then Inl (Raised ''CHECK constraint failed'')
     else Inr (db\<lparr>policies := policies db @ [p]\<rparr>, 1))"

definition acquisitionExtensionGuard :: "string \<Rightarrow> int \<Rightarrow> acq_db sql" where
  "acquisitionExtensionGuard run generation = sql_guard (\<lambda>db _.
     (anchors db run \<noteq> None \<and> (case currents db run of None \<Rightarrow> False | Some row \<Rightarrow> in_state row [Paused])) \<and>
     (case latest_policy db run of None \<Rightarrow> False | Some p \<Rightarrow> po_generation p = generation))
   ''acquisition_extension_conflict''"

definition quiescent :: "acq_db \<Rightarrow> string \<Rightarrow> string option \<Rightarrow> bool" where
  "quiescent db run eventId = (case (currents db run, plans db run) of
       (Some row, Some plan) \<Rightarrow>
         (case eventId of None \<Rightarrow> True | Some e \<Rightarrow> row ''last_event_id'' = JStr e) \<and>
         (in_state row [Paused] \<or> in_state row [Collecting] \<and> pl_parent plan = None \<and>
            \<not> list_ex (\<lambda>c. co_run c = run) (captures db) \<and> \<not> list_ex (\<lambda>w. wa_run w = run) (workflow_attempts db)) \<and>
         pl_completed plan = None \<and>
         \<not> list_ex (\<lambda>c. co_run c = run \<and> co_state c \<notin> {''uploaded'', ''finalized'', ''failed''}) (captures db) \<and>
         \<not> list_ex (\<lambda>w. ow_run w = run \<and> ow_completed w = None) (writers db) \<and>
         accounts db run = None
     | _ \<Rightarrow> False)"

definition acquisitionInitializationGuard :: "string \<Rightarrow> string option \<Rightarrow> acq_db sql" where
  "acquisitionInitializationGuard run eventId =
     sql_guard (\<lambda>db _. quiescent db run eventId) ''acquisition_initialization_not_quiescent''"

subsection \<open>Authority of a collection workflow\<close>

type_synonym CollectionWorkflowAttempt = "string \<times> string"  \<comment> \<open>parent and instance\<close>

datatype authority_intent = Collection | Reparse

definition attempt_current :: "acq_db \<Rightarrow> string \<Rightarrow> string \<Rightarrow> bool" where
  "attempt_current db run instance_id \<longleftrightarrow> list_ex (\<lambda>a. wa_run a = run \<and> wa_instance a = instance_id \<and>
     \<not> list_ex (\<lambda>later. wa_run later = wa_run a \<and> wa_kind later = wa_kind a \<and> wa_base later = wa_base a \<and>
        wa_number a < wa_number later) (workflow_attempts db)) (workflow_attempts db)"

definition authorized :: "acq_db \<Rightarrow> string \<Rightarrow> CollectionWorkflowAttempt option \<Rightarrow> bool" where
  "authorized db run workflow = (case (currents db run, plans db run) of
       (Some row, Some plan) \<Rightarrow> in_state row [Collecting] \<and> verifiedRunCurrent db run row \<and>
         (case workflow of None \<Rightarrow> True | Some (parent, ins) \<Rightarrow> pl_parent plan = Some parent \<and> attempt_current db run ins)
     | _ \<Rightarrow> False)"

definition sourceParseAuthorityGuard :: "string \<Rightarrow> authority_intent \<Rightarrow> CollectionWorkflowAttempt option \<Rightarrow> acq_db sql" where
  "sourceParseAuthorityGuard run intent workflow =
     sql_guard (\<lambda>db _. intent = Reparse \<or> authorized db run workflow) ''source_parse_authority_superseded''"

subsection \<open>Reserving and settling a dispatch\<close>

record dispatch_input =
  di_run :: string
  di_request :: string
  di_capture :: string
  di_object :: string
  di_maximum :: int
  di_workflow :: "CollectionWorkflowAttempt option"

text \<open>The conditions of the INSERT on the budget alone; \<open>now\<close> is the instant SQLite reads.\<close>

definition within_budget :: "acq_env \<Rightarrow> int \<Rightarrow> int \<Rightarrow> account_row \<Rightarrow> AcquisitionBudget \<Rightarrow> bool" where
  "within_budget env now bytes a b \<longleftrightarrow>
     (case julianday env (dispatch_deadline b) of None \<Rightarrow> False | Some t \<Rightarrow> now < t) \<and>
     charged_dispatches a < max_dispatches b \<and>
     bytes \<le> max_source_bytes b - charged_source_bytes a - reserved_source_bytes a"

definition admissible :: "acq_env \<Rightarrow> int \<Rightarrow> dispatch_input \<Rightarrow> acq_db \<Rightarrow> bool" where
  "admissible env now input db = (case (accounts db (di_run input), latest_policy db (di_run input)) of
       (Some a, Some p) \<Rightarrow> within_budget env now (di_maximum input) a (po_budget p) \<and>
         \<not> list_ex (\<lambda>r. dr_capture r = di_capture input \<and> unsettled r) (reservations db) \<and>
         \<not> list_ex (\<lambda>w. ow_object w = di_object input \<and> ow_completed w = None) (writers db) \<and>
         list_ex (\<lambda>c. co_attempt c = di_capture input \<and> co_run c = di_run input \<and> co_request c = di_request input \<and>
           co_state c = ''planned'') (captures db)
     | _ \<Rightarrow> False)"

definition new_reservation :: "string \<Rightarrow> string \<Rightarrow> int \<Rightarrow> dispatch_input \<Rightarrow> DispatchReservation" where
  "new_reservation token at generation input = \<lparr>dr_id = token, dr_run = di_run input, dr_request = di_request input,
     dr_capture = di_capture input, dr_object = di_object input, dr_parent = map_option fst (di_workflow input),
     dr_instance = map_option snd (di_workflow input), dr_generation = generation, dr_maximum = di_maximum input,
     dr_reserved_at = at, dr_settled = None\<rparr>"

definition insert_reservation :: "acq_env \<Rightarrow> string \<Rightarrow> string \<Rightarrow> int \<Rightarrow> dispatch_input \<Rightarrow> acq_db sql" where
  "insert_reservation env token at now input = (\<lambda>(db, changes).
     case latest_policy db (di_run input) of
       None \<Rightarrow> Inr (db, 0)
     | Some p \<Rightarrow>
         if \<not> admissible env now input db then Inr (db, 0)
         else if list_ex (\<lambda>r. dr_id r = token) (reservations db) then Inl (Raised ''UNIQUE constraint failed'')
         else if \<not> 0 < di_maximum input then Inl (Raised ''CHECK constraint failed'')
         else Inr (db\<lparr>reservations := reservations db @ [new_reservation token at (po_generation p) input]\<rparr>, 1))"

definition charge_dispatch :: "string \<Rightarrow> int \<Rightarrow> acq_db sql" where
  "charge_dispatch run bytes = sql_write (\<lambda>db changes. case accounts db run of
       None \<Rightarrow> (db, 0)
     | Some a \<Rightarrow> if changes > 0
         then (db\<lparr>accounts := (accounts db)(run \<mapsto> a\<lparr>charged_dispatches := charged_dispatches a + 1,
                 reserved_source_bytes := reserved_source_bytes a + bytes\<rparr>)\<rparr>, 1)
         else (db, 0))"

definition open_writer :: "string \<Rightarrow> acq_db sql" where
  "open_writer token = (\<lambda>(db, changes).
     let rows = map (\<lambda>r. \<lparr>ow_token = dr_id r, ow_run = dr_run r, ow_object = dr_object r, ow_started = dr_reserved_at r, ow_completed = None\<rparr>)
           (filter (\<lambda>r. dr_id r = token) (reservations db))
     in if rows \<noteq> [] \<and> list_ex (\<lambda>w. ow_token w = token) (writers db) then Inl (Raised ''UNIQUE constraint failed'')
        else Inr (db\<lparr>writers := writers db @ rows\<rparr>, int (length rows)))"

definition reserveSourceDispatch :: "acq_env \<Rightarrow> string \<Rightarrow> string \<Rightarrow> int \<Rightarrow> dispatch_input \<Rightarrow> acq_db sql statement" where
  "reserveSourceDispatch env token at now input =
     atomicRepositoryStatement (store env) (Plain (insert_reservation env token at now input))
       [Plain (sourceParseAuthorityGuard (di_run input) Collection (di_workflow input))]
       [Plain (charge_dispatch (di_run input) (di_maximum input)), Plain (open_writer token)]"

text \<open>A charge outside \<open>0 \<dots> maximum_source_bytes\<close> either matches no row or violates the check.\<close>

definition settle_reservation :: "string \<Rightarrow> string \<Rightarrow> int \<Rightarrow> string \<Rightarrow> acq_db sql" where
  "settle_reservation token capture bytes at = (\<lambda>(db, changes).
     let p = (\<lambda>r. dr_id r = token \<and> dr_capture r = capture \<and> unsettled r \<and> bytes \<le> dr_maximum r);
         (rows, n) = update_rows p (\<lambda>r. r\<lparr>dr_settled := Some (at, bytes)\<rparr>) (reservations db)
     in if list_ex p (reservations db) \<and> bytes < 0 then Inl (Raised ''CHECK constraint failed'')
        else Inr (db\<lparr>reservations := rows\<rparr>, n))"

text \<open>A scalar subquery reads the first row; NULL makes the condition false.\<close>

definition settle_account :: "string \<Rightarrow> int \<Rightarrow> acq_db sql" where
  "settle_account token bytes = (\<lambda>(db, changes). case find (\<lambda>r. dr_id r = token) (reservations db) of
       None \<Rightarrow> Inr (db, 0)
     | Some r \<Rightarrow> (case accounts db (dr_run r) of
           None \<Rightarrow> Inr (db, 0)
         | Some a \<Rightarrow>
             let a' = a\<lparr>charged_source_bytes := charged_source_bytes a + bytes, reserved_source_bytes := reserved_source_bytes a - dr_maximum r\<rparr>
             in if \<not> changes > 0 then Inr (db, 0)
                else if \<not> (0 \<le> charged_source_bytes a' \<and> 0 \<le> reserved_source_bytes a') then Inl (Raised ''CHECK constraint failed'')
                else Inr (db\<lparr>accounts := (accounts db)(dr_run r \<mapsto> a')\<rparr>, 1)))"

definition close_writer :: "string \<Rightarrow> string \<Rightarrow> string \<Rightarrow> acq_db sql" where
  "close_writer token capture at = sql_write (\<lambda>db _.
     let (rows, n) = update_rows (\<lambda>w. ow_token w = token \<and> ow_completed w = None \<and>
           list_ex (\<lambda>r. dr_id r = token \<and> dr_capture r = capture \<and> \<not> unsettled r \<and> dr_run r = ow_run w \<and> dr_object r = ow_object w)
             (reservations db))
         (\<lambda>w. w\<lparr>ow_completed := Some at\<rparr>) (writers db)
     in (db\<lparr>writers := rows\<rparr>, n))"

definition settleSourceDispatch :: "acq_env \<Rightarrow> string \<Rightarrow> string \<Rightarrow> int \<Rightarrow> string \<Rightarrow> acq_db sql statement" where
  "settleSourceDispatch env token capture bytes at =
     atomicRepositoryStatement (store env) (Plain (settle_reservation token capture bytes at)) []
       [Plain (settle_account token bytes), Plain (close_writer token capture at)]"

subsection \<open>Pausing\<close>

record pause_input =
  pi_run :: string
  pi_request :: string
  pi_generation :: "int option"
  pi_maximum :: int
  pi_dimension :: AcquisitionDimension
  pi_workflow :: "CollectionWorkflowAttempt option"

definition insert_pause :: "string \<Rightarrow> string \<Rightarrow> pause_input \<Rightarrow> acq_db sql" where
  "insert_pause eventId at input = (\<lambda>(db, changes).
     if (case currents db (pi_run input) of None \<Rightarrow> False | Some row \<Rightarrow> row ''last_event_id'' = JStr eventId)
     then if list_ex (\<lambda>p. ap_event p = eventId) (pauses db) then Inl (Raised ''UNIQUE constraint failed'')
          else Inr (db\<lparr>pauses := pauses db @ [\<lparr>ap_event = eventId, ap_run = pi_run input, ap_generation = pi_generation input,
              ap_request = pi_request input, ap_maximum = pi_maximum input, ap_dimension = pi_dimension input, ap_paused_at = at\<rparr>]\<rparr>, 1)
     else Inr (db, 0))"

definition acquisitionPauseStatements ::
  "acq_env \<Rightarrow> string \<Rightarrow> string \<Rightarrow> pause_input \<Rightarrow> build_error + acq_db sql statement list" where
  "acquisitionPauseStatements env eventId at input =
     rbind (pauseRunStatement (sql_env.truncate env) eventId at
       [Plain (sourceParseAuthorityGuard (pi_run input) Collection (pi_workflow input))] (pi_run input)) (\<lambda>event.
     Inr [event, Plain (insert_pause eventId at input)])"

end
