(* ===== verification/Acquisition_Legacy.thy ===== *)
theory Acquisition_Legacy
  imports Acquisition_Store Streaming_Sha256
begin

text \<open>
  Qualification of a collection that began before acquisition budgets existed:
  \<open>src/src/catalogue/source-evidence/acquisition-legacy.ts\<close>, with \<open>workflowAttemptSettled\<close> and
  \<open>isWorkflowInstanceNotFound\<close> of \<open>shared/workflow-driver.ts\<close>.

  The Workflow control plane and the object store are parameters: what an inspection of an instance
  answers, and the pieces in which the body of an object is read. The reads of one qualification see
  one state of the tables; the transaction that uses its result repeats the guard.
\<close>

subsection \<open>The control plane and the object store\<close>

datatype inspection =
    Status string
  | Thrown string string    \<comment> \<open>an Error, by name and message\<close>
  | Thrown_value            \<comment> \<open>anything else\<close>

record LegacyAcquisitionContext =
  evidenceObjects :: "string \<Rightarrow> bytes list option"
  parentWorkflow :: "string \<Rightarrow> inspection"
  hostWorkflow :: "string \<Rightarrow> inspection"

definition workflowAttemptSettled :: "string \<Rightarrow> bool" where
  "workflowAttemptSettled status \<longleftrightarrow> status = ''complete'' \<or> status = ''errored'' \<or> status = ''terminated''"

definition lower :: "char \<Rightarrow> char" where
  "lower c = (if 65 \<le> (of_char c :: nat) \<and> (of_char c :: nat) \<le> 90 then char_of ((of_char c :: nat) + 32) else c)"

definition drop_separator :: "string \<Rightarrow> string" where
  "drop_separator s = (case s of c # cs \<Rightarrow> if c \<in> {CHR ''.'', CHR ''_'', CHR '' ''} then cs else s | [] \<Rightarrow> [])"

text \<open>The expression \<open>not[._ ]?found\<close> matched at the start of a text.\<close>

definition matches_not_found :: "string \<Rightarrow> bool" where
  "matches_not_found s \<longleftrightarrow> take 3 s = ''not'' \<and> (take 5 (drop 3 s) = ''found'' \<or> take 5 (drop_separator (drop 3 s)) = ''found'')"

definition isWorkflowInstanceNotFound :: "inspection \<Rightarrow> bool" where
  "isWorkflowInstanceNotFound answer = (case answer of
      Thrown name message \<Rightarrow> list_ex (\<lambda>k. matches_not_found (drop k (map lower (name @ '' '' @ message))))
        [0..<length name + 1 + length message]
    | _ \<Rightarrow> False)"

subsection \<open>Errors\<close>

datatype acq_error =
    Problem int string          \<comment> \<open>\<open>AdministrationProblem\<close>: status and code\<close>
  | Storage batch_error
  | Building build_error

definition legacy_rejection :: acq_error where
  "legacy_rejection = Problem 409 ''acquisition_initialization_not_quiescent''"

subsection \<open>Workflows that may still own work\<close>

definition acquisitionLegacyWorkflows :: "acq_db \<Rightarrow> string \<Rightarrow> (string \<times> string) list" where
  "acquisitionLegacyWorkflows db run = sort_key fst (remdups
     (map (\<lambda>a. (wa_instance a, wa_kind a)) (filter (\<lambda>a. wa_run a = run) (workflow_attempts db)) @
      (case plans db run of None \<Rightarrow> [] | Some plan \<Rightarrow> (case pl_parent plan of None \<Rightarrow> [] | Some parent \<Rightarrow> [(parent, ''parent'')]))))"

definition legacyPageSize :: nat where
  "legacyPageSize = 128"

definition page_after :: "('r \<Rightarrow> string) \<Rightarrow> 'r list \<Rightarrow> string \<Rightarrow> 'r list" where
  "page_after key rows after = take legacyPageSize (filter (\<lambda>r. after < key r) rows)"

definition check_workflow :: "LegacyAcquisitionContext \<Rightarrow> string \<times> string \<Rightarrow> unit \<Rightarrow> acq_error + unit" where
  "check_workflow context workflow _ =
     (let answer = (if snd workflow = ''parent'' then parentWorkflow context else hostWorkflow context) (fst workflow)
      in case answer of
           Status status \<Rightarrow> if workflowAttemptSettled status then Inr () else Inl legacy_rejection
         | _ \<Rightarrow> if isWorkflowInstanceNotFound answer then Inr () else Inl legacy_rejection)"

text \<open>
  The loop over pages: each page starts after the key its predecessor ended with. \<open>rows\<close> are all the
  rows of the query in order.
\<close>

lemma page_shrinks:
  assumes "page_after key rows after \<noteq> []"
  shows "length (filter (\<lambda>r. key (last (page_after key rows after)) < key r) rows) < length (filter (\<lambda>r. after < key r) rows)"
proof -
  let ?l = "last (page_after key rows after)"
  have "?l \<in> set (filter (\<lambda>r. after < key r) rows)"
    using last_in_set [OF assms] set_take_subset by (fastforce simp: page_after_def)
  then have l: "?l \<in> set rows" "after < key ?l" by auto
  have "filter (\<lambda>r. key ?l < key r) rows = filter (\<lambda>r. key ?l < key r) (filter (\<lambda>r. after < key r) rows)"
    using l(2) by (auto intro: filter_cong simp: less_trans)
  also have "length \<dots> < length (filter (\<lambda>r. after < key r) rows)"
    using l by (intro length_filter_less [of ?l]) auto
  finally show ?thesis .
qed

function each_page :: "('r \<Rightarrow> string) \<Rightarrow> ('r \<Rightarrow> 's \<Rightarrow> 'e + 's) \<Rightarrow> 'r list \<Rightarrow> string \<Rightarrow> 's \<Rightarrow> 'e + 's" where
  "each_page key f rows after s =
     (let page = page_after key rows after
      in if page = [] then Inr s else rbind (rfold f page s) (each_page key f rows (key (last page))))"
  by pat_completeness auto
termination
  by (relation "measure (\<lambda>(key, f, rows, after, s). length (filter (\<lambda>r. after < key r) rows))") (auto simp: page_shrinks)

declare each_page.simps [simp del]

subsection \<open>Retained bodies\<close>

record legacy_key =
  lk_object :: string
  lk_digest :: "string option"
  lk_maximum_digest :: "string option"
  lk_length :: "int option"
  lk_maximum_length :: "int option"

definition raw_receipts :: "acq_db \<Rightarrow> string \<Rightarrow> (string \<times> string option \<times> int option) list" where
  "raw_receipts db run =
     map (\<lambda>s. (sn_object s, Some (sn_digest s), Some (sn_length s))) (filter (\<lambda>s. sn_run s = run) (snapshots db)) @
     map (\<lambda>c. (co_object c, co_digest c, co_length c))
       (filter (\<lambda>c. co_run c = run \<and> co_state c \<in> {''uploaded'', ''finalized''} \<and> co_reused c = None) (captures db))"

text \<open>MIN and MAX ignore NULL and are NULL of no value.\<close>

definition sql_min :: "'a::linorder option list \<Rightarrow> 'a option" where
  "sql_min vs = (let ws = List.map_filter (\<lambda>v. v) vs in if ws = [] then None else Some (Min (set ws)))"

definition sql_max :: "'a::linorder option list \<Rightarrow> 'a option" where
  "sql_max vs = (let ws = List.map_filter (\<lambda>v. v) vs in if ws = [] then None else Some (Max (set ws)))"

definition grouped :: "(string \<times> string option \<times> int option) list \<Rightarrow> string \<Rightarrow> legacy_key" where
  "grouped receipts key = (let rows = filter (\<lambda>r. fst r = key) receipts
     in \<lparr>lk_object = key, lk_digest = sql_min (map (fst \<circ> snd) rows), lk_maximum_digest = sql_max (map (fst \<circ> snd) rows),
         lk_length = sql_min (map (snd \<circ> snd) rows), lk_maximum_length = sql_max (map (snd \<circ> snd) rows)\<rparr>)"

definition acquisitionLegacyRawKeys :: "acq_db \<Rightarrow> string \<Rightarrow> legacy_key list" where
  "acquisitionLegacyRawKeys db run = map (grouped (raw_receipts db run)) (sort (remdups (map fst (raw_receipts db run))))"

text \<open>The reader loop: the bytes read so far, refused as soon as they exceed the receipt.\<close>

fun read_body :: "int \<Rightarrow> bytes list \<Rightarrow> bytes \<Rightarrow> acq_error + bytes" where
  "read_body expected [] got = Inr got"
| "read_body expected (piece # pieces) got =
     (if int (length (got @ piece)) > expected then Inl legacy_rejection else read_body expected pieces (got @ piece))"

text \<open>A NULL length compares as 0 and then differs from every count.\<close>

definition check_key :: "LegacyAcquisitionContext \<Rightarrow> legacy_key \<Rightarrow> int \<Rightarrow> acq_error + int" where
  "check_key context key baseline =
     (if lk_digest key \<noteq> lk_maximum_digest key \<or> lk_length key \<noteq> lk_maximum_length key \<or> lk_digest key = None \<or> lk_digest key = Some []
      then Inl legacy_rejection
      else case evidenceObjects context (lk_object key) of
          None \<Rightarrow> Inl legacy_rejection
        | Some pieces \<Rightarrow>
            rbind (read_body (case lk_length key of None \<Rightarrow> 0 | Some n \<Rightarrow> n) pieces []) (\<lambda>body.
            if Some (int (length body)) \<noteq> lk_length key \<or> Some (sha256_standard body) \<noteq> lk_digest key then Inl legacy_rejection
            else if \<not> is_safe_integer (baseline + int (length body)) then Inl legacy_rejection
            else Inr (baseline + int (length body))))"

definition acquisitionLegacyEvent :: "acq_db \<Rightarrow> string \<Rightarrow> string option" where
  "acquisitionLegacyEvent db run = (case currents db run of None \<Rightarrow> None | Some row \<Rightarrow> str_of (row ''last_event_id''))"

definition verifyLegacyAcquisition :: "LegacyAcquisitionContext \<Rightarrow> string \<Rightarrow> acq_db \<Rightarrow> acq_error + int \<times> string" where
  "verifyLegacyAcquisition context run db =
     (case acquisitionInitializationGuard run None (db, 0) of
        Inl _ \<Rightarrow> Inl legacy_rejection
      | Inr _ \<Rightarrow> (case acquisitionLegacyEvent db run of
            None \<Rightarrow> Inl legacy_rejection
          | Some event \<Rightarrow>
              rbind (each_page fst (check_workflow context) (acquisitionLegacyWorkflows db run) [] ()) (\<lambda>_.
              rbind (each_page lk_object (check_key context) (acquisitionLegacyRawKeys db run) [] 0) (\<lambda>baseline.
              Inr (baseline, event)))))"

subsection \<open>What a qualification establishes\<close>

lemma take_sorted_later:
  assumes "sorted (map key rows)" "r \<in> set (drop n rows)" "0 < n"
  shows "key (last (take n rows)) \<le> key r"
proof -
  have "take n rows \<noteq> []" using assms(2,3) by (cases rows) auto
  then have "last (take n rows) \<in> set (take n rows)" by (rule last_in_set)
  moreover have "sorted (map key (take n rows) @ map key (drop n rows))"
    using assms(1) by (simp flip: map_append)
  ultimately show ?thesis using assms(2) by (auto simp: sorted_append)
qed

text \<open>The rows a page leaves out come after it.\<close>

lemma filter_less_filter: "a < b \<Longrightarrow> filter (\<lambda>r. b < key r) (filter (\<lambda>r. a < key r) rows) = filter (\<lambda>r. (b::string) < key r) rows"
  by (auto intro: filter_cong simp: less_trans)

lemma page_last:
  assumes "page_after key rows after \<noteq> []"
  shows "last (page_after key rows after) \<in> set rows" "after < key (last (page_after key rows after))"
  using last_in_set [OF assms] set_take_subset by (fastforce simp: page_after_def)+

text \<open>With distinct keys the pages are exactly the rows after the start, in order.\<close>

lemma rest_of_page:
  assumes "sorted (map key rows)" "distinct (map key rows)" "page_after key rows after \<noteq> []"
  shows "filter (\<lambda>r. key (last (page_after key rows after)) < key r) rows = drop legacyPageSize (filter (\<lambda>r. after < key r) rows)"
proof -
  define F where "F = filter (\<lambda>r. after < key r) rows"
  define l where "l = last (take legacyPageSize F)"
  have page: "page_after key rows after = take legacyPageSize F" by (simp add: page_after_def F_def)
  then have l: "after < key l" "l \<in> set (take legacyPageSize F)" using page_last(2) [OF assms(3)] last_in_set [OF assms(3)] by (simp_all add: l_def)
  have s: "sorted (map key F)" "distinct (map key F)" using assms(1,2) by (simp_all add: F_def sorted_filter distinct_map_filter)
  then have split: "sorted (map key (take legacyPageSize F) @ map key (drop legacyPageSize F))"
    "distinct (map key (take legacyPageSize F) @ map key (drop legacyPageSize F))"
    by (simp_all only: flip: map_append) simp_all
  have le: "key r \<le> key l" if "r \<in> set (take legacyPageSize F)" for r
  proof -
    have "take legacyPageSize F = butlast (take legacyPageSize F) @ [l]" using l by (simp add: l_def) (metis append_butlast_last_id list.set_intros(1) empty_iff empty_set)
    then have "sorted (map key (butlast (take legacyPageSize F)) @ [key l])" "set (take legacyPageSize F) = insert l (set (butlast (take legacyPageSize F)))"
      using split(1) by (metis list.simps(8) list.simps(9) map_append sorted_append, metis Un_insert_right list.set(2) set_append sup_bot.right_neutral empty_set)
    then show ?thesis using that by (auto simp: sorted_append)
  qed
  have gt: "key l < key r" if "r \<in> set (drop legacyPageSize F)" for r
  proof -
    have "key l \<le> key r" using split(1) l(2) that by (auto simp: sorted_append)
    moreover have "key l \<noteq> key r" using split(2) l(2) that by auto
    ultimately show ?thesis by simp
  qed
  have "filter (\<lambda>r. key l < key r) rows = filter (\<lambda>r. key l < key r) F" unfolding F_def by (rule filter_less_filter [OF l(1), symmetric])
  also have "\<dots> = filter (\<lambda>r. key l < key r) (take legacyPageSize F) @ filter (\<lambda>r. key l < key r) (drop legacyPageSize F)"
    by (simp flip: filter_append)
  also have "filter (\<lambda>r. key l < key r) (take legacyPageSize F) = []" using le by (auto simp: filter_empty_conv not_less)
  also have "filter (\<lambda>r. key l < key r) (drop legacyPageSize F) = drop legacyPageSize F" using gt by (simp add: filter_id_conv)
  finally show ?thesis by (simp add: page l_def F_def)
qed

lemma each_page_all:
  assumes "sorted (map key rows)" "distinct (map key rows)"
  shows "each_page key f rows after s = rfold f (filter (\<lambda>r. after < key r) rows) s"
  using assms
proof (induction key f rows after s rule: each_page.induct)
  case (1 key f rows after s)
  let ?F = "filter (\<lambda>r. after < key r) rows"
  show ?case
  proof (cases "page_after key rows after = []")
    case True
    then have "?F = []" by (simp add: page_after_def legacyPageSize_def)
    then show ?thesis by (simp add: each_page.simps True)
  next
    case False
    have "each_page key f rows (key (last (page_after key rows after))) t = rfold f (drop legacyPageSize ?F) t"
      if "rfold f (take legacyPageSize ?F) s = Inr t" for t
      using "1.IH" [OF refl False, of t] that "1.prems" rest_of_page [OF _ _ False] by (simp add: page_after_def)
    moreover have "rfold f ?F s = rbind (rfold f (take legacyPageSize ?F) s) (rfold f (drop legacyPageSize ?F))"
      by (simp flip: rfold_append)
    ultimately show ?thesis using False
      by (subst each_page.simps) (auto simp: page_after_def Let_def intro!: rbind_cong)
  qed
qed

text \<open>With repeated keys every key after the start is still visited.\<close>

lemma rfold_unit: "rfold f xs () = Inr () \<Longrightarrow> x \<in> set xs \<Longrightarrow> f x () = Inr ()"
  by (induction xs) (auto simp: rbind_eq_Inr)

lemma each_page_visits:
  assumes "each_page key f rows after s = Inr ()" "sorted (map key rows)" "r \<in> set rows" "after < key r"
  shows "\<exists>r'\<in>set rows. key r' = key r \<and> f r' () = Inr ()"
  using assms
proof (induction key f rows after s rule: each_page.induct)
  case (1 key f rows after s)
  let ?p = "page_after key rows after" and ?F = "filter (\<lambda>r. after < key r) rows"
  have "?F \<noteq> []" using "1.prems"(3,4) by (auto simp: filter_empty_conv)
  then have ne: "?p \<noteq> []" by (simp add: page_after_def legacyPageSize_def)
  with "1.prems"(1) obtain u where p: "rfold f ?p s = Inr u" and rest: "each_page key f rows (key (last ?p)) u = Inr ()"
    by (subst (asm) each_page.simps) (auto simp: Let_def rbind_eq_Inr)
  have visited: "f r' () = Inr ()" if "r' \<in> set ?p" for r' using rfold_unit [of f ?p] p that by simp
  show ?case
  proof (cases "key (last ?p) < key r")
    case True
    then show ?thesis using "1.IH" [OF refl ne p rest] "1.prems" by simp
  next
    case False
    have "sorted (map key ?F)" using "1.prems"(2) by (simp add: sorted_filter)
    then have "r \<in> set ?p \<or> key (last ?p) \<le> key r"
      using "1.prems"(3,4) take_sorted_later [of key ?F r legacyPageSize] set_append [of "take legacyPageSize ?F" "drop legacyPageSize ?F"]
      by (auto simp: page_after_def legacyPageSize_def)
    then show ?thesis using False visited page_last(1) [OF ne] last_in_set [OF ne] "1.prems"(3) by (metis not_less order.antisym)
  qed
qed

definition stored_body :: "LegacyAcquisitionContext \<Rightarrow> string \<Rightarrow> bytes" where
  "stored_body context key = concat (case evidenceObjects context key of None \<Rightarrow> [] | Some pieces \<Rightarrow> pieces)"

lemma read_body_Inr: "read_body expected pieces got = Inr body \<Longrightarrow> body = got @ concat pieces"
  by (induction expected pieces got rule: read_body.induct) (auto split: if_splits)

lemma check_key_Inr:
  assumes "check_key context key baseline = Inr sum_total"
  shows "evidenceObjects context (lk_object key) \<noteq> None" "lk_digest key = Some (sha256_standard (stored_body context (lk_object key)))"
    "lk_maximum_digest key = lk_digest key" "lk_length key = Some (int (length (stored_body context (lk_object key))))"
    "lk_maximum_length key = lk_length key" "sum_total = baseline + int (length (stored_body context (lk_object key)))"
    "is_safe_integer sum_total"
  using assms
  by (auto simp: check_key_def stored_body_def rbind_eq_Inr split: if_splits option.splits dest!: read_body_Inr)

lemma check_keys_Inr:
  assumes "rfold (check_key context) keys baseline = Inr sum_total"
  shows "sum_total = baseline + (\<Sum>key\<leftarrow>keys. int (length (stored_body context (lk_object key))))"
    "key \<in> set keys \<Longrightarrow> \<exists>b t. check_key context key b = Inr t"
  using assms
proof (induction keys arbitrary: baseline)
  case (Cons k keys)
  {
    case 1
    then obtain x where x: "check_key context k baseline = Inr x" "rfold (check_key context) keys x = Inr sum_total"
      by (auto simp: rbind_eq_Inr)
    show ?case using Cons(1) [OF x(2)] check_key_Inr(6) [OF x(1)] by simp
  next
    case 2
    then show ?case using Cons(2) by (auto simp: rbind_eq_Inr)
  }
qed simp_all

lemma map_filter_Some: "x \<in> set (List.map_filter (\<lambda>v. v) vs) \<longleftrightarrow> Some x \<in> set vs"
  by (auto simp: map_filter_def image_iff)

lemma sql_extrema:
  assumes "sql_min vs = Some m" "sql_max vs = Some m" "Some x \<in> set vs"
  shows "x = m"
proof -
  have x: "x \<in> set (List.map_filter (\<lambda>v. v) vs)" using assms(3) by (simp add: map_filter_Some)
  then have "m \<le> x" using assms(1) Min_le [OF finite_set x] by (auto simp: sql_min_def Let_def split: if_splits)
  moreover have "x \<le> m" using assms(2) x by (auto simp: sql_max_def Let_def split: if_splits)
  ultimately show ?thesis by simp
qed

lemma rfold_filter_keys:
  "map lk_object (acquisitionLegacyRawKeys db run) = sort (remdups (map fst (raw_receipts db run)))"
  by (simp add: acquisitionLegacyRawKeys_def comp_def grouped_def Let_def)

definition released :: "LegacyAcquisitionContext \<Rightarrow> string \<Rightarrow> bool" where
  "released context ins \<longleftrightarrow> (\<exists>kind. check_workflow context (ins, kind) () = Inr ())"

lemma legacy_workflows_released:
  assumes "each_page fst (check_workflow context) (acquisitionLegacyWorkflows db run) [] () = Inr ()"
    and "(ins, kind) \<in> set (acquisitionLegacyWorkflows db run)" "ins \<noteq> []"
  shows "released context ins"
proof -
  have "sorted (map fst (acquisitionLegacyWorkflows db run))" by (simp add: acquisitionLegacyWorkflows_def)
  moreover have "[] < ins" using assms(3) by (cases ins) simp_all
  ultimately obtain r where "fst r = ins" "check_workflow context r () = Inr ()"
    using each_page_visits [OF assms(1) _ assms(2)] by auto
  then show ?thesis unfolding released_def by (metis prod.collapse)
qed

lemma legacy_receipts_verified:
  assumes "each_page lk_object (check_key context) (acquisitionLegacyRawKeys db run) [] 0 = Inr baseline"
  shows "baseline = (\<Sum>key\<leftarrow>filter (\<lambda>key. key \<noteq> []) (sort (remdups (map fst (raw_receipts db run)))). int (length (stored_body context key)))"
    "(key, d, n) \<in> set (raw_receipts db run) \<Longrightarrow> key \<noteq> [] \<Longrightarrow> evidenceObjects context key \<noteq> None \<and>
       d \<in> {None, Some (sha256_standard (stored_body context key))} \<and> n \<in> {None, Some (int (length (stored_body context key)))}"
proof -
  let ?rows = "acquisitionLegacyRawKeys db run" and ?R = "raw_receipts db run"
  have pos: "([] < s) = (s \<noteq> [])" for s :: string by (cases s) simp_all
  have "sorted (map lk_object ?rows)" "distinct (map lk_object ?rows)" by (simp_all add: rfold_filter_keys)
  then have f: "rfold (check_key context) (filter (\<lambda>r. lk_object r \<noteq> []) ?rows) 0 = Inr baseline"
    using assms by (simp add: each_page_all pos)
  have "map lk_object (filter (\<lambda>r. lk_object r \<noteq> []) ?rows) = filter (\<lambda>key. key \<noteq> []) (map lk_object ?rows)"
    by (simp add: filter_map comp_def)
  then have "(\<Sum>r\<leftarrow>filter (\<lambda>r. lk_object r \<noteq> []) ?rows. int (length (stored_body context (lk_object r)))) =
      (\<Sum>key\<leftarrow>filter (\<lambda>key. key \<noteq> []) (map lk_object ?rows). int (length (stored_body context key)))"
    by (metis (no_types, lifting) comp_apply map_eq_conv map_map)
  then show "baseline = (\<Sum>key\<leftarrow>filter (\<lambda>key. key \<noteq> []) (sort (remdups (map fst ?R))). int (length (stored_body context key)))"
    using check_keys_Inr(1) [OF f] by (simp add: rfold_filter_keys)
  assume r: "(key, d, n) \<in> set ?R" "key \<noteq> []"
  then have "grouped ?R key \<in> set (filter (\<lambda>r. lk_object r \<noteq> []) ?rows)"
    by (force simp: acquisitionLegacyRawKeys_def grouped_def Let_def)
  then obtain b t where c: "check_key context (grouped ?R key) b = Inr t" using check_keys_Inr(2) [OF f] by blast
  have obj: "lk_object (grouped ?R key) = key" by (simp add: grouped_def Let_def)
  have rows: "d \<in> set (map (fst \<circ> snd) (filter (\<lambda>r. fst r = key) ?R))" "n \<in> set (map (snd \<circ> snd) (filter (\<lambda>r. fst r = key) ?R))"
    using r by force+
  show "evidenceObjects context key \<noteq> None \<and>
       d \<in> {None, Some (sha256_standard (stored_body context key))} \<and> n \<in> {None, Some (int (length (stored_body context key)))}"
  proof (intro conjI)
    show "evidenceObjects context key \<noteq> None" using check_key_Inr(1) [OF c] unfolding obj .
    have "x = sha256_standard (stored_body context key)" if "d = Some x" for x
      using check_key_Inr(2,3) [OF c] unfolding obj
      by (intro sql_extrema [OF _ _ rows(1) [unfolded that]]) (simp_all add: grouped_def Let_def)
    then show "d \<in> {None, Some (sha256_standard (stored_body context key))}" by (cases d) simp_all
    have "x = int (length (stored_body context key))" if "n = Some x" for x
      using check_key_Inr(4,5) [OF c] unfolding obj
      by (intro sql_extrema [OF _ _ rows(2) [unfolded that]]) (simp_all add: grouped_def Let_def)
    then show "n \<in> {None, Some (int (length (stored_body context key)))}" by (cases n) simp_all
  qed
qed


definition legacy_tables :: acq_db where
  "legacy_tables = \<lparr>anchors = Map.empty, currents = [''r'' \<mapsto> (\<lambda>column. JNull)(''state'' := JStr ''paused'', ''last_event_id'' := JStr ''e2'')],
     events = [], chunks = [], games = (\<lambda>_. []), collection_reservations = [''r''], terminations = [],
     operation = \<lparr>active_run = None, release_id = None, release_expires = None, recovery_id = None, recovery_health = ''healthy'', restore_guard = ''open''\<rparr>,
     current_revision = ''rev'', revision_run = Map.empty, game_heads = [], candidates = [], slots = [], operations = [],
     accounts = Map.empty, policies = [], reservations = [], pauses = [], writers = [], captures = [],
     snapshots = [\<lparr>sn_run = ''r'', sn_object = ''raw/1'', sn_digest = sha256_standard [1, 2, 3], sn_length = 3\<rparr>],
     workflow_attempts = [\<lparr>wa_run = ''r'', wa_kind = ''child'', wa_base = ''b'', wa_number = 1, wa_instance = ''w1''\<rparr>],
     plans = [''r'' \<mapsto> \<lparr>pl_parent = Some ''p1'', pl_completed = None\<rparr>]\<rparr>"

definition legacy_context :: LegacyAcquisitionContext where
  "legacy_context = \<lparr>evidenceObjects = [''raw/1'' \<mapsto> [[1, 2], [3]]], parentWorkflow = (\<lambda>_. Thrown ''Error'' ''instance.Not_Found''),
     hostWorkflow = (\<lambda>_. Status ''terminated'')\<rparr>"

lemma sha256_standard_not_Nil [simp]: "sha256_standard m \<noteq> []"
proof -
  have "length (std_blocks initialState data) = 8" for data
    using absorb_blocks_std [of initialState data, OF length_initialState] length_absorb_state [of initialState data] by simp
  then have "std_blocks initialState (m @ std_padding (length m)) \<noteq> []" by (metis length_greater_0_conv zero_less_numeral)
  then show ?thesis unfolding sha256_standard_def hex_word_def by (cases "std_blocks initialState (m @ std_padding (length m))") simp_all
qed

lemma legacy_pages:
  "acquisitionLegacyWorkflows legacy_tables ''r'' = [(''p1'', ''parent''), (''w1'', ''child'')]"
  "acquisitionLegacyRawKeys legacy_tables ''r'' = [\<lparr>lk_object = ''raw/1'', lk_digest = Some (sha256_standard [1, 2, 3]),
     lk_maximum_digest = Some (sha256_standard [1, 2, 3]), lk_length = Some 3, lk_maximum_length = Some 3\<rparr>]"
  by (simp_all add: acquisitionLegacyWorkflows_def acquisitionLegacyRawKeys_def raw_receipts_def grouped_def legacy_tables_def
      sql_min_def sql_max_def List.map_filter_simps)


end
