(* ===== verification/Run_Refinement.thy ===== *)
theory Run_Refinement
  imports Run_Mutations
begin

text \<open>
  The table \<open>ingestion_run_current\<close> refines the event history: after any sequence of run mutations
  the row of every run is what replaying its events yields. The contract a mutation must keep is the
  locale \<open>run_update\<close>; every named mutation interprets it.
\<close>

subsection \<open>The invariant\<close>

definition early_states :: "IngestionRunState list" where
  "early_states = [Planning, Collecting, Paused, Parsing, Reconciling]"

definition approved_columns :: "string list" where
  "approved_columns = [''approved_at'', ''approved_candidate_digest'', ''approved_expected_revision_id'']"

text \<open>The candidate is written once reconciliation ends, the approval once publication starts.\<close>

definition phase_ok :: "IngestionRunState \<Rightarrow> run_row \<Rightarrow> bool" where
  "phase_ok s row \<longleftrightarrow>
     (s \<in> set early_states \<longrightarrow> list_all (\<lambda>c. row c = JNull) immutable_columns) \<and>
     (s = AwaitingApproval \<longrightarrow> list_all (\<lambda>c. row c = JNull) approved_columns)"

definition row_ok :: "string \<Rightarrow> run_row \<Rightarrow> bool" where
  "row_ok run row \<longleftrightarrow> row ''ingestion_run_id'' = JStr run \<and>
     (\<exists>s n. row ''state'' = JStr (state_name s) \<and> row ''completed_stage_count'' = JNum n \<and> validCompletedStageCount s n \<and> phase_ok s row)"

definition consistent_run :: "'a run_db_scheme \<Rightarrow> string \<Rightarrow> bool" where
  "consistent_run db run = (case currents db run of
      None \<Rightarrow> run_history db run = []
    | Some row \<Rightarrow> replay (run_history db run) = Inr (Some (currentSnapshot row)) \<and> row_ok run row \<and> selectedGamesMatch db run)"

definition consistent :: "'a run_db_scheme \<Rightarrow> bool" where
  "consistent db \<longleftrightarrow> (\<forall>run. consistent_run db run)"

subsection \<open>Rows and snapshots\<close>

lemma jget_snapshot: "column \<in> set runCurrentColumns \<Longrightarrow> jget (currentSnapshot row) column = row column"
  by (simp add: jget_def currentSnapshot_def map_of_map_restrict)

lemmas columns_defs = runCurrentColumns_def runCurrentNullableColumns_def

lemma snapshot_simps [simp]:
  "jget (currentSnapshot row) ''ingestion_run_id'' = row ''ingestion_run_id''"
  "jget (currentSnapshot row) ''last_event_sequence'' = row ''last_event_sequence''"
  "jget (currentSnapshot row) ''last_event_id'' = row ''last_event_id''"
  "jget (currentSnapshot row) ''previous_state'' = row ''previous_state''"
  "jget (currentSnapshot row) ''state'' = row ''state''"
  "jget (currentSnapshot row) ''completed_stage_count'' = row ''completed_stage_count''"
  "jget (currentSnapshot row) ''candidate_payload_event_sequence'' = row ''candidate_payload_event_sequence''"
  "jget (currentSnapshot row) ''diagnostics_event_sequence'' = row ''diagnostics_event_sequence''"
  "jget (currentSnapshot row) ''failure_code'' = row ''failure_code''"
  by (simp_all add: jget_snapshot columns_defs)

lemma snapshot_nullable: "column \<in> set runCurrentNullableColumns \<Longrightarrow> jget (currentSnapshot row) column = row column"
  by (rule jget_snapshot) (simp add: runCurrentColumns_def)

lemma immutable_nullable: "set immutable_columns \<subseteq> set runCurrentNullableColumns"
  by (simp add: immutable_columns_def runCurrentNullableColumns_def)

lemma snapshot_columns_ok: "columns_ok (currentSnapshot row)"
  by (auto simp: columns_ok_def has_own_def currentSnapshot_def list_all_iff map_of_map_restrict)

lemma assign_columns_eq: "assign_columns assignments row column = (case map_of (rev assignments) column of Some v \<Rightarrow> v | None \<Rightarrow> row column)"
proof (induction assignments rule: rev_induct)
  case (snoc a as)
  then show ?case by (cases a) (simp add: assign_columns_def)
qed (simp add: assign_columns_def)

lemma assign_columns_other: "column \<notin> fst ` set assignments \<Longrightarrow> assign_columns assignments row column = row column"
  using map_of_eq_None_iff [of "rev assignments" column] by (simp add: assign_columns_eq)

lemma assign_columns_value: "column \<in> fst ` set assignments \<Longrightarrow> (column, assign_columns assignments row column) \<in> set assignments"
  using map_of_eq_None_iff [of "rev assignments" column] map_of_SomeD [of "rev assignments" column]
  by (auto simp: assign_columns_eq split: option.split)

lemma assign_columns_append: "assign_columns (as @ bs) row = assign_columns bs (assign_columns as row)"
  by (simp add: assign_columns_def)

subsection \<open>What a mutation must keep\<close>

definition updated :: "string \<Rightarrow> IngestionRunState \<Rightarrow> (run_row \<Rightarrow> (string \<times> json) list) \<Rightarrow> run_row \<Rightarrow> run_row" where
  "updated eventId target assign row = assign_columns (runEventIdentity eventId row @ state_assign target # assign row) row"

definition identity_columns :: "string list" where
  "identity_columns = [''ingestion_run_id'', ''previous_state'', ''last_event_sequence'', ''last_event_id'', ''state'']"

definition payload_kind :: "string \<Rightarrow> string" where
  "payload_kind column = (if column = ''candidate_payload_event_sequence'' then ''candidate'' else ''diagnostics'')"

text \<open>A row that an UPDATE from \<open>sources\<close> finds.\<close>

definition source_row :: "IngestionRunState list \<Rightarrow> run_row \<Rightarrow> bool" where
  "source_row sources row \<longleftrightarrow> (\<exists>s\<in>set sources. \<exists>n. row ''state'' = JStr (state_name s) \<and>
     row ''completed_stage_count'' = JNum n \<and> validCompletedStageCount s n \<and> phase_ok s row)"

text \<open>What a replayed row satisfies beyond its own checks.\<close>

definition accepted :: "json_object \<Rightarrow> bool" where
  "accepted cur \<longleftrightarrow> scalars_ok cur \<and> (\<exists>n\<ge>1. jget cur ''last_event_sequence'' = JNum n \<and>
     (\<forall>column\<in>set reference_columns. jget cur column = JNull \<or> (\<exists>r. jget cur column = JNum r \<and> 1 \<le> r \<and> r \<le> n)))"

lemma ref_ok_iff: "ref_ok e v \<longleftrightarrow> v = JNull \<or> (\<exists>r. v = JNum r \<and> 1 \<le> r \<and> r \<le> ev_sequence e)"
  by (cases v) (auto simp: ref_ok_def)

lemma replay_accepted:
  assumes "replay es = Inr (Some cur)"
  shows "accepted cur"
proof -
  have "es \<noteq> []" using assms by (auto simp: replay_Nil)
  then obtain es' e where es: "es = es' @ [e]" by (cases es rule: rev_cases) auto
  from assms obtain prev where p: "projectIngestionRunEvent prev e = Inr cur" unfolding es replay_snoc by blast
  have "jget cur ''last_event_sequence'' = JNum (int (length es))" using replay_history [OF assms] by simp
  moreover have "jget cur ''last_event_sequence'' = JNum (ev_sequence e)" using project_sequence [OF p] .
  ultimately have n: "ev_sequence e = int (length es)" by simp
  with p show ?thesis
    using \<open>es \<noteq> []\<close> by (auto simp: project_Inr accepted_def identity_ok_def reference_columns_def ref_ok_iff Suc_le_eq)
qed

locale run_update =
  fixes kind :: string and sources :: "IngestionRunState list" and target :: IngestionRunState
    and assign :: "run_row \<Rightarrow> (string \<times> json) list" and retained :: "string list"
  assumes edges: "s \<in> set sources \<Longrightarrow> canTransitionIngestionRun (state_name s) target no_facts"
    and kind_known: "kind \<in> set runEventKinds \<and> kind \<noteq> ''created''"
    and kind_target: "kindStates kind = Some states \<Longrightarrow> target \<in> set states"
    and identity_kept: "fst ` set (assign row) \<inter> set identity_columns = {}"
    and texts: "(column, v) \<in> set (assign row) \<Longrightarrow> column \<in> set runCurrentNullableColumns \<Longrightarrow> is_null_or_string v"
    and references: "(column, v) \<in> set (assign row) \<Longrightarrow> column \<in> set reference_columns \<Longrightarrow>
      v = next_sequence row \<and> payload_kind column \<in> set retained"
    and write_once: "source_row sources row \<Longrightarrow> column \<in> set immutable_columns \<Longrightarrow> row column \<noteq> JNull \<Longrightarrow>
      column \<notin> fst ` set (assign row)"
    and progress: "source_row sources row \<Longrightarrow> row ''completed_stage_count'' = JNum m \<Longrightarrow>
      \<exists>n. assign_columns (assign row) row ''completed_stage_count'' = JNum n \<and> m \<le> n \<and> n \<le> 6 \<and> validCompletedStageCount target n"
    and phase: "source_row sources row \<Longrightarrow> phase_ok target (assign_columns (assign row) row)"
begin

lemma updated_simps:
  "updated eventId target assign row ''ingestion_run_id'' = row ''ingestion_run_id''"
  "updated eventId target assign row ''previous_state'' = row ''state''"
  "updated eventId target assign row ''last_event_sequence'' = next_sequence row"
  "updated eventId target assign row ''last_event_id'' = JStr eventId"
  "updated eventId target assign row ''state'' = JStr (state_name target)"
proof -
  have "updated eventId target assign row column = assign_columns (runEventIdentity eventId row @ [state_assign target]) row column"
    if "column \<in> set identity_columns" for column
  proof -
    have "column \<notin> fst ` set (assign row)" using that identity_kept [of row] by blast
    then show ?thesis
      unfolding updated_def
      by (metis append.assoc append_Cons append_Nil assign_columns_append assign_columns_other)
  qed
  then show
    "updated eventId target assign row ''ingestion_run_id'' = row ''ingestion_run_id''"
    "updated eventId target assign row ''previous_state'' = row ''state''"
    "updated eventId target assign row ''last_event_sequence'' = next_sequence row"
    "updated eventId target assign row ''last_event_id'' = JStr eventId"
    "updated eventId target assign row ''state'' = JStr (state_name target)"
    by (simp_all add: identity_columns_def runEventIdentity_def state_assign_def assign_columns_def next_sequence_def)
qed

text \<open>Columns that are not part of the event's identity are those of the assignments alone.\<close>

lemma updated_other:
  assumes "column \<notin> set identity_columns"
  shows "updated eventId target assign row column = assign_columns (assign row) row column"
proof -
  let ?front = "runEventIdentity eventId row @ [state_assign target]"
  have front: "column \<notin> fst ` set ?front"
    using assms by (auto simp: identity_columns_def runEventIdentity_def state_assign_def)
  have "updated eventId target assign row = assign_columns (assign row) (assign_columns ?front row)"
    by (simp add: updated_def assign_columns_def)
  then show ?thesis
    using assign_columns_other [OF front] by (simp add: assign_columns_eq split: option.split)
qed

lemma updated_nullable:
  assumes "accepted (currentSnapshot row)" and "column \<in> set runCurrentNullableColumns"
  shows "is_null_or_string (updated eventId target assign row column)"
proof -
  have "column \<notin> set identity_columns" using assms(2) by (auto simp: identity_columns_def runCurrentNullableColumns_def)
  moreover have "is_null_or_string (row column)"
    using assms by (auto simp: accepted_def scalars_ok_def list_all_iff snapshot_nullable)
  ultimately show ?thesis
    using texts [OF assign_columns_value [of column "assign row" row] assms(2)] assign_columns_other [of column "assign row" row]
    by (cases "column \<in> fst ` set (assign row)") (auto simp: updated_other)
qed

lemma updated_reference:
  assumes "accepted (currentSnapshot row)" and "column \<in> set reference_columns"
  shows "updated eventId target assign row column = row column \<or>
    (updated eventId target assign row column = next_sequence row \<and> payload_kind column \<in> set retained)"
proof -
  have "column \<notin> set identity_columns" using assms(2) by (auto simp: identity_columns_def reference_columns_def)
  then show ?thesis
    using references [OF assign_columns_value [of column "assign row" row] assms(2)] assign_columns_other [of column "assign row" row]
    by (cases "column \<in> fst ` set (assign row)") (auto simp: updated_other)
qed

lemma updated_count:
  assumes "source_row sources row" and "row ''completed_stage_count'' = JNum m"
  shows "\<exists>n. updated eventId target assign row ''completed_stage_count'' = JNum n \<and> m \<le> n \<and> n \<le> 6 \<and> validCompletedStageCount target n"
  using progress [OF assms] updated_other [of "''completed_stage_count''"] by (auto simp: identity_columns_def)

lemma updated_phase:
  assumes "source_row sources row"
  shows "phase_ok target (updated eventId target assign row)"
proof -
  have "updated eventId target assign row column = assign_columns (assign row) row column" if "column \<in> set immutable_columns" for column
    using that by (intro updated_other) (auto simp: immutable_columns_def identity_columns_def)
  moreover have "set approved_columns \<subseteq> set immutable_columns" by (simp add: approved_columns_def immutable_columns_def)
  ultimately show ?thesis using phase [OF assms] by (auto simp: phase_ok_def list_all_iff subset_iff)
qed

lemma updated_row_ok:
  assumes "row ''ingestion_run_id'' = JStr run" and "source_row sources row"
  shows "row_ok run (updated eventId target assign row)"
  using assms updated_count [OF assms(2)] updated_phase [OF assms(2)] by (fastforce simp: row_ok_def updated_simps source_row_def)

lemma canTransition_facts: "s \<in> set sources \<Longrightarrow> canTransitionIngestionRun (state_name s) target facts"
  using edges [of s] by (simp add: canTransition_edges no_facts_def)

text \<open>The event a mutation appends is one that replaying the history accepts, and it yields the new row.\<close>

lemma projects:
  fixes env event input metadata row
  defines "row' \<equiv> updated (c_event event) target assign row"
  assumes "row ''ingestion_run_id'' = JStr (c_run event)" and src: "source_row sources row" and acc: "accepted (currentSnapshot row)"
    and "c_kind event = kind" and "date_parse env (c_occurred event) \<noteq> None"
    and meta: "retained_ok metadata" "\<And>k. k \<in> set retained \<Longrightarrow> has_own metadata k"
  shows "projectIngestionRunEvent (Some (currentSnapshot row)) (appended_event env event input metadata row') = Inr (currentSnapshot row')"
proof -
  let ?e = "appended_event env event input metadata row'"
  from src obtain s m where s: "s \<in> set sources" "row ''state'' = JStr (state_name s)" "row ''completed_stage_count'' = JNum m"
    by (auto simp: source_row_def)
  from acc obtain n where n: "1 \<le> n" "row ''last_event_sequence'' = JNum n"
    and refs: "\<And>c. c \<in> set reference_columns \<Longrightarrow> row c = JNull \<or> (\<exists>r. row c = JNum r \<and> 1 \<le> r \<and> r \<le> n)"
    by (auto simp: accepted_def reference_columns_def)
  obtain n' where count: "row' ''completed_stage_count'' = JNum n'" "m \<le> n'" "n' \<le> 6" "validCompletedStageCount target n'"
    using updated_count [OF src s(3), of "c_event event"] unfolding row'_def by blast
  have "0 \<le> m" using acc s(3) by (simp add: accepted_def scalars_ok_def)
  have e: "ev_run ?e = c_run event" "ev_sequence ?e = n + 1" "ev_id ?e = c_event event" "ev_kind ?e = kind"
    "ev_from ?e = Some (state_name s)" "ev_to ?e = state_name target" "ev_occurred ?e \<noteq> None"
    using assms n s by (simp_all add: appended_event_def row'_def updated_simps next_sequence_def num_of_def str_of_def)
  have parts: "\<exists>payload p. ev_payload ?e = Some payload \<and> payload_parts payload = Some (p, currentSnapshot row', metadata)"
    by (simp add: appended_event_def payload_parts_def jget_def)
  have "event_ok ?e" using e kind_known by (simp add: event_ok_def isIngestionRunState_def)
  moreover have "identity_ok (currentSnapshot row') ?e"
    using e assms n s by (simp add: identity_ok_def row'_def updated_simps next_sequence_def num_of_def)
  moreover have "scalars_ok (currentSnapshot row')"
    using count \<open>0 \<le> m\<close> updated_nullable [OF acc]
    by (simp add: scalars_ok_def list_all_iff snapshot_nullable row'_def activeRunStages_def)
  moreover have ref: "ref_ok ?e (row' c) \<and> reference_retained (currentSnapshot row') metadata ?e c (payload_kind c) \<and>
      (row' c = row c \<or> row' c = JNum (ev_sequence ?e))" if c: "c \<in> set reference_columns" for c
  proof -
    have "jget (currentSnapshot row') c = row' c" using c by (auto simp: reference_columns_def)
    then show ?thesis
      using updated_reference [OF acc c, of "c_event event"] refs [OF c] n e(2) meta(2)
      by (auto simp: row'_def ref_ok_iff reference_retained_def next_sequence_def num_of_def)
  qed
  moreover have "next_ok (currentSnapshot row) (currentSnapshot row') ?e"
  proof -
    have "row' c = row c" if "c \<in> set immutable_columns" "row c \<noteq> JNull" for c
    proof -
      have "c \<notin> set identity_columns" using that(1) by (auto simp: immutable_columns_def identity_columns_def)
      then show ?thesis using write_once [OF src that] assign_columns_other [of c "assign row" row] by (simp add: row'_def updated_other)
    qed
    moreover have "jget (currentSnapshot r) c = r c" if "c \<in> set immutable_columns" for c r
      using that immutable_nullable snapshot_nullable by blast
    ultimately have "list_all (\<lambda>c. jget (currentSnapshot row) c \<noteq> JNull \<longrightarrow> jget (currentSnapshot row) c = jget (currentSnapshot row') c) immutable_columns"
      by (auto simp: list_all_iff)
    then show ?thesis
      using ref e n s count assms(2) kind_known canTransition_facts [OF s(1)]
      by (simp add: next_ok_def later_number_def reference_columns_def)
  qed
  moreover have "kind_state_ok ?e"
    using kind_target by (auto simp: kind_state_ok_def e split: option.split)
  ultimately show ?thesis
    using parts snapshot_columns_ok [of row'] meta(1) ref [of "''candidate_payload_event_sequence''"] ref [of "''diagnostics_event_sequence''"]
    by (auto simp: project_Inr payload_kind_def reference_columns_def)
qed

end

subsection \<open>Transactions and the tables the invariant reads\<close>

definition core :: "'a run_db_scheme \<Rightarrow> (string \<rightharpoonup> run_row) \<times> RunEventRow list \<times> (string \<Rightarrow> string list)" where
  "core db = (currents db, events db, games db)"

definition keeps_core :: "'a run_db_scheme sql \<Rightarrow> bool" where
  "keeps_core f \<longleftrightarrow> (\<forall>db c db' c'. f (db, c) = Inr (db', c') \<longrightarrow> core db' = core db)"

definition read_only :: "'db sql \<Rightarrow> bool" where
  "read_only f \<longleftrightarrow> (\<forall>st st'. f st = Inr st' \<longrightarrow> st' = st)"

lemma consistent_core: "core db' = core db \<Longrightarrow> consistent db' = consistent db"
  by (simp add: core_def consistent_def consistent_run_def run_history_def selectedGamesMatch_def cong: option.case_cong)

lemma run_sql_read_only: "list_all read_only fs \<Longrightarrow> run_sql fs st = Inr st' \<Longrightarrow> st' = st"
proof (induction fs arbitrary: st)
  case (Cons f fs)
  then obtain u where u: "f st = Inr u" "run_sql fs u = Inr st'" by (auto simp: rbind_eq_Inr)
  have "u = st" using Cons.prems(1) u(1) unfolding read_only_def list_all_iff by (metis list.set_intros(1))
  with u Cons show ?case by auto
qed simp

lemma run_sql_keeps_core: "list_all keeps_core fs \<Longrightarrow> run_sql fs (db, c) = Inr (db', c') \<Longrightarrow> core db' = core db"
proof (induction fs arbitrary: db c)
  case (Cons f fs)
  then obtain db1 c1 where 1: "f (db, c) = Inr (db1, c1)" "run_sql fs (db1, c1) = Inr (db', c')" by (auto simp: rbind_eq_Inr)
  then have "core db' = core db1" using Cons by auto
  also have "\<dots> = core db" using 1 Cons.prems(1) by (auto simp: keeps_core_def)
  finally show ?case .
qed simp

lemma read_only_guards [simp]: "read_only (sql_guard ok code)" "read_only (sql_raise f)"
  by (auto simp: read_only_def)

lemma read_only_keeps_core: "read_only f \<Longrightarrow> keeps_core f"
  by (fastforce simp: read_only_def keeps_core_def)

lemma keeps_core_effects [simp]:
  "list_all keeps_core (concat (map flatten (terminalIngestionReservationEffects only)))"
  "keeps_core (projectPublishedGameHeads only)" "keeps_core (insert_chunk event kind index content)"
  "keeps_core (claim_approval event key)" "keeps_core (reserveIngestionCollection run)"
  by (auto simp: terminalIngestionReservationEffects_def projectPublishedGameHeads_def insert_chunk_def claim_approval_def
      reserveIngestionCollection_def keeps_core_def core_def Let_def case_prod_unfold split: if_splits option.splits)

lemma read_only_integrity [simp]: "read_only (runCurrentIntegrityGuard run creating)"
  by (simp add: runCurrentIntegrityGuard_def)

text \<open>A statement built by \<open>runEventStatement\<close>, as the effects it runs.\<close>

definition statement_effects ::
  "RunEventCommand \<Rightarrow> 'a run_db_scheme sql \<Rightarrow> 'a run_db_scheme sql \<Rightarrow> 'a run_db_scheme run_mutation \<Rightarrow> 'a run_db_scheme sql list \<Rightarrow> 'a run_db_scheme sql list" where
  "statement_effects event primary appending input rest =
     concat (map flatten (m_before input)) @ [runCurrentIntegrityGuard (c_run event) (c_kind event = ''created''), primary] @
     concat (map flatten (m_guards input)) @ [appending] @ rest"

text \<open>A payload JSON document is not empty, and its size is a safe integer.\<close>

definition payload_ok :: "payload_text option \<Rightarrow> bool" where
  "payload_ok payload = (case payload of None \<Rightarrow> True | Some (text, valid) \<Rightarrow> text \<noteq> [] \<and> byte_length text \<le> 9007199254740991)"

lemma prepared_payload_metadata:
  assumes "prepared_payload kind payload = Inr xs" and "payload_ok payload" and "kind \<in> {''candidate'', ''diagnostics''}"
  shows "retained_ok (payload_metadata xs) \<and> map fst xs = (if payload = None then [] else [kind])"
proof (cases payload)
  case None
  then show ?thesis using assms by (simp add: prepared_payload_def payload_metadata_def retained_ok_def)
next
  case (Some tv)
  obtain t valid where tv: "tv = (t, valid)" by force
  from assms(1) obtain cs where cs: "byteChunks t = Inr cs" "xs = [(kind, cs, byte_length t)]"
    by (auto simp: prepared_payload_def Some tv rbind_eq_Inr split: if_splits elim: map_error.elims)
  have t_ok: "t \<noteq> []" "byte_length t \<le> 9007199254740991" using assms(2) by (simp_all add: payload_ok_def Some tv)
  have "1 \<le> length cs \<and> length cs \<le> length t" using byteChunks_count [OF cs(1) t_ok(1)] .
  then have "1 \<le> byte_length t" "1 \<le> length cs" "length cs \<le> 9007199254740991"
    using byte_length_ge [of t] t_ok(2) by linarith+
  then show ?thesis
    using assms(3) t_ok(2) by (auto simp: cs(2) Some payload_metadata_def retained_ok_def jget_def positive_safe_def is_safe_integer_def)
qed

lemma retained_append: "retained_ok (payload_metadata (xs @ ys)) = (retained_ok (payload_metadata xs) \<and> retained_ok (payload_metadata ys))"
  by (simp add: payload_metadata_def retained_ok_def)

lemma has_own_metadata: "k \<in> set (map fst xs) \<Longrightarrow> has_own (payload_metadata xs) k"
  by (force simp: has_own_def payload_metadata_def map_of_eq_None_iff)

lemma runEventStatement_effects:
  assumes "runEventStatement env event primary input = Inr stmt"
    and "payload_ok (m_candidate input)" and "payload_ok (m_diagnostics input)"
    and "list_all keeps_core (concat (map flatten (m_after input)))"
  shows "\<exists>metadata rest. flatten stmt = statement_effects event primary (append_event env event input metadata) input rest \<and>
    list_all keeps_core rest \<and> retained_ok metadata \<and>
    (m_candidate input \<noteq> None \<longrightarrow> has_own metadata ''candidate'') \<and> (m_diagnostics input \<noteq> None \<longrightarrow> has_own metadata ''diagnostics'')"
proof -
  from assms(1) obtain xs ys where xs: "prepared_payload ''candidate'' (m_candidate input) = Inr xs"
    and ys: "prepared_payload ''diagnostics'' (m_diagnostics input) = Inr ys"
    by (auto simp: runEventStatement_def rbind_eq_Inr)
  note x = prepared_payload_metadata [OF xs assms(2)] and y = prepared_payload_metadata [OF ys assms(3)]
  let ?inserts = "concat (map (\<lambda>(kind, cs, bytes). map (\<lambda>(index, content). insert_chunk event kind index content) (enumerate 0 cs)) (xs @ ys))"
  let ?claim = "case m_approval_key input of None \<Rightarrow> [] | Some key \<Rightarrow> [claim_approval event key]"
  let ?rest = "?inserts @ ?claim @ concat (map flatten (m_after input)) @
    concat (map flatten (terminalIngestionReservationEffects (Some (c_run event)))) @
    (if c_kind event = ''published'' then [projectPublishedGameHeads (Some (c_run event))] else [])"
  have plain: "concat (map flatten (concat (map (\<lambda>(kind, cs, bytes). map (\<lambda>(index, content). Plain (insert_chunk event kind index content)) (enumerate 0 cs)) ps)))
      = concat (map (\<lambda>(kind, cs, bytes). map (\<lambda>(index, content). insert_chunk event kind index content) (enumerate 0 cs)) ps)" for ps
  proof (induction ps)
    case (Cons q ps)
    have "concat (map flatten (map (\<lambda>(index, content). Plain (insert_chunk event k index content)) is)) =
      map (\<lambda>(index, content). insert_chunk event k index content) is" for k "is"
      by (induction "is") auto
    then show ?case using Cons by (cases q) simp
  qed simp
  have "flatten stmt = statement_effects event primary (append_event env event input (payload_metadata (xs @ ys))) input ?rest"
    using assms(1)
    by (simp add: runEventStatement_def xs ys Let_def atomicRepositoryStatement_def statement_effects_def plain [symmetric]
        del: map_append concat_append split: option.splits) auto
  moreover have "list_all keeps_core ?rest"
    using assms(4) keeps_core_effects(1) [of "Some (c_run event)"] by (auto simp: list_all_iff split: option.splits)
  moreover have "retained_ok (payload_metadata (xs @ ys))" using x y by (simp add: retained_append)
  moreover have "m_candidate input \<noteq> None \<longrightarrow> has_own (payload_metadata (xs @ ys)) ''candidate''"
    "m_diagnostics input \<noteq> None \<longrightarrow> has_own (payload_metadata (xs @ ys)) ''diagnostics''"
    using x y by (auto intro!: has_own_metadata)
  ultimately show ?thesis by blast
qed

subsection \<open>A mutation keeps the invariant\<close>

lemma append_consistent:
  assumes "consistent db" and "currents db run = Some row" and "ev_run e = run" and "row_ok run row'"
    and "projectIngestionRunEvent (Some (currentSnapshot row)) e = Inr (currentSnapshot row')"
    and core: "core db' = ((currents db)(run \<mapsto> row'), events db @ [e], games db)"
  shows "consistent db'"
  unfolding consistent_def
proof
  fix other
  have h: "run_history db' other = run_history db other @ (if other = run then [e] else [])"
    using core assms(3) by (auto simp: core_def run_history_def)
  have g: "selectedGamesMatch db other \<Longrightarrow> selectedGamesMatch db' other"
    using core by (auto simp: core_def selectedGamesMatch_def)
  have c: "consistent_run db other" using assms(1) by (simp add: consistent_def)
  show "consistent_run db' other"
  proof (cases "other = run")
    case True
    have "replay (run_history db run) = Inr (Some (currentSnapshot row))" "selectedGamesMatch db run"
      using c assms(2) True by (simp_all add: consistent_run_def)
    then have "replay (run_history db run @ [e]) = Inr (Some (currentSnapshot row'))" "selectedGamesMatch db' run"
      using assms(5) g True by (auto simp: replay_snoc)
    then show ?thesis using True h assms(4) core by (simp add: consistent_run_def core_def)
  next
    case False
    then show ?thesis using c h g core by (auto simp: consistent_run_def core_def split: option.splits)
  qed
qed

lemma source_row_iff:
  "row_ok run row \<Longrightarrow> in_state row sources \<Longrightarrow> source_row sources row"
  unfolding row_ok_def source_row_def in_state_def list_ex_iff by fastforce

text \<open>The steps of a statement up to its event.\<close>

lemma statement_run:
  assumes "run_sql (statement_effects event primary appending input rest) (db, c) = Inr (db', c')"
    and "list_all read_only (concat (map flatten (m_before input)))" and "list_all read_only (concat (map flatten (m_guards input)))"
    and "list_all keeps_core rest"
  shows "\<exists>db1 c1 db2 c2. primary (db, c) = Inr (db1, c1) \<and> appending (db1, c1) = Inr (db2, c2) \<and> core db' = core db2"
proof -
  from assms(1) obtain st0 st1 where 0: "run_sql (concat (map flatten (m_before input))) (db, c) = Inr st0"
    and 1: "runCurrentIntegrityGuard (c_run event) (c_kind event = ''created'') st0 = Inr st1"
    and r: "run_sql (primary # concat (map flatten (m_guards input)) @ [appending] @ rest) st1 = Inr (db', c')"
    unfolding statement_effects_def by (auto simp: run_sql_append rbind_eq_Inr)
  have "st0 = (db, c)" using run_sql_read_only [OF assms(2) 0] .
  moreover have "st1 = st0" using 1 read_only_integrity [unfolded read_only_def] by blast
  ultimately obtain st2 st3 st4 where 2: "primary (db, c) = Inr st2"
    and 3: "run_sql (concat (map flatten (m_guards input))) st2 = Inr st3"
    and 4: "appending st3 = Inr st4" and 5: "run_sql rest st4 = Inr (db', c')"
    using r by (auto simp: run_sql_append rbind_eq_Inr)
  moreover have "st3 = st2" using run_sql_read_only [OF assms(3) 3] .
  moreover obtain db1 c1 db2 c2 where "st2 = (db1, c1)" "st4 = (db2, c2)" by (cases st2, cases st4)
  ultimately show ?thesis using run_sql_keeps_core [OF assms(4)] by blast
qed

context run_update
begin

lemma event_update_consistent:
  assumes "runEventStatement env event (update_current (c_run event) (c_event event) (\<lambda>row. in_state row sources)
        (\<lambda>row. state_assign target # assign row)) input = Inr stmt"
    and "c_kind event = kind" and "date_parse env (c_occurred event) \<noteq> None"
    and "payload_ok (m_candidate input)" and "payload_ok (m_diagnostics input)" and "m_after input = []"
    and "list_all read_only (concat (map flatten (m_before input)))" and "list_all read_only (concat (map flatten (m_guards input)))"
    and "set retained \<subseteq> {''candidate'', ''diagnostics''}"
    and "''candidate'' \<in> set retained \<longrightarrow> m_candidate input \<noteq> None" and "''diagnostics'' \<in> set retained \<longrightarrow> m_diagnostics input \<noteq> None"
    and "consistent db" and "run_sql (flatten stmt) (db, c) = Inr (db', c')"
  shows "consistent db'"
proof -
  let ?run = "c_run event"
  let ?primary = "update_current ?run (c_event event) (\<lambda>row. in_state row sources) (\<lambda>row. state_assign target # assign row)"
  obtain metadata rest where f: "flatten stmt = statement_effects event ?primary (append_event env event input metadata) input rest"
    and m: "list_all keeps_core rest" "retained_ok metadata"
      "m_candidate input \<noteq> None \<longrightarrow> has_own metadata ''candidate''" "m_diagnostics input \<noteq> None \<longrightarrow> has_own metadata ''diagnostics''"
    using runEventStatement_effects [OF assms(1,4,5)] assms(6) by auto
  obtain db1 c1 db2 c2 where 1: "?primary (db, c) = Inr (db1, c1)"
    and 2: "append_event env event input metadata (db1, c1) = Inr (db2, c2)" and "core db' = core db2"
    using statement_run [OF assms(13)[unfolded f] assms(7,8) m(1)] by blast
  then have same: "consistent db' = consistent db2" using consistent_core by blast
  show ?thesis
  proof (cases "currents db ?run")
    case None
    then have "db2 = db" using 1 2 by (auto simp: update_current_def append_event_def)
    then show ?thesis using assms(12) same by simp
  next
    case (Some row)
    show ?thesis
    proof (cases "in_state row sources")
      case False
      then have "db2 = db" using 1 2 Some by (auto simp: update_current_def append_event_def split: option.splits if_splits)
      then show ?thesis using assms(12) same by simp
    next
      case True
      let ?row' = "updated (c_event event) target assign row"
      let ?e = "appended_event env event input metadata ?row'"
      have row: "row_ok ?run row" "replay (run_history db ?run) = Inr (Some (currentSnapshot row))"
        using assms(12) Some by (auto simp: consistent_def consistent_run_def split: option.splits dest!: spec [of _ ?run])
      then have id: "row ''ingestion_run_id'' = JStr ?run" and src: "source_row sources row" and acc: "accepted (currentSnapshot row)"
        using source_row_iff [OF row(1) True] replay_accepted by (auto simp: row_ok_def)
      have d1: "db1 = db\<lparr>currents := (currents db)(?run \<mapsto> ?row')\<rparr>" "c1 = 1"
        using 1 Some True by (simp_all add: update_current_def updated_def)
      have "has_own metadata k" if "k \<in> set retained" for k using that assms(9-11) m(3,4) by auto
      then have "projectIngestionRunEvent (Some (currentSnapshot row)) ?e = Inr (currentSnapshot ?row')"
        by (intro projects id src acc assms(2,3) m(2))
      moreover have "db2 = db1\<lparr>events := events db1 @ [?e]\<rparr>"
        using 2 d1 by (auto simp: append_event_def Let_def updated_simps split: if_splits)
      moreover have "ev_run ?e = ?run" by (simp add: appended_event_def)
      ultimately have "consistent db2"
        using d1 by (intro append_consistent [OF assms(12) Some _ updated_row_ok [OF id src, of "c_event event"]])
          (simp_all add: core_def)
      then show ?thesis using same by simp
    qed
  qed
qed

lemma guarded_update_consistent:
  assumes "guarded_update env event sources target (Inr assign) input = Inr stmt"
    and "c_kind event = kind" and "date_parse env (c_occurred event) \<noteq> None"
    and "payload_ok (m_candidate input)" and "payload_ok (m_diagnostics input)" and "m_after input = []"
    and "list_all read_only (concat (map flatten (m_before input)))"
    and "set retained \<subseteq> {''candidate'', ''diagnostics''}"
    and "''candidate'' \<in> set retained \<longrightarrow> m_candidate input \<noteq> None" and "''diagnostics'' \<in> set retained \<longrightarrow> m_diagnostics input \<noteq> None"
    and "consistent db" and "run_sql (flatten stmt) (db, c) = Inr (db', c')"
  shows "consistent db'"
proof -
  from assms(1) obtain matches guard where m: "transition_condition sources target no_facts = Inr matches"
    and g: "runTransitionGuardStatement env (c_run event) sources target = Inr guard"
    and r: "runEventStatement env event (update_current (c_run event) (c_event event) matches (\<lambda>row. state_assign target # assign row))
      (input\<lparr>m_guards := [guard]\<rparr>) = Inr stmt"
    by (auto simp: guarded_update_def rbind_eq_Inr)
  have matches: "matches = (\<lambda>row. in_state row sources)" using m by (auto simp: transition_condition_def rbind_eq_Inr)
  have ro: "list_all read_only (flatten guard)"
    using g by (auto simp: runTransitionGuardStatement_def split: if_splits)
  show ?thesis
    by (rule event_update_consistent [OF r [unfolded matches] assms(2,3) _ _ _ _ _ assms(8) _ _ assms(11,12)])
      (use assms(4-7,9,10) ro in simp_all)
qed

end

subsection \<open>The mutations of the program\<close>

lemma position_simps [simp]:
  "position_of Planning = Some 0" "position_of Collecting = Some 1" "position_of Paused = None" "position_of Parsing = Some 2"
  "position_of Reconciling = Some 3" "position_of AwaitingApproval = Some 4" "position_of Publishing = Some 5"
  "position_of Published = None" "position_of Rejected = None" "position_of Expired = None" "position_of Failed = None"
  by (simp_all add: position_of_def activeRunStages_def upt_rec)

lemma valid_count_iff:
  "validCompletedStageCount s n \<longleftrightarrow> (case s of Planning \<Rightarrow> n = 0 | Collecting \<Rightarrow> n = 1 | Paused \<Rightarrow> n = 1 | Parsing \<Rightarrow> n = 2
     | Reconciling \<Rightarrow> n = 3 | AwaitingApproval \<Rightarrow> n = 4 | Publishing \<Rightarrow> n = 5 | Published \<Rightarrow> n = 6 | Rejected \<Rightarrow> n = 4
     | Expired \<Rightarrow> n = 4 | Failed \<Rightarrow> True)"
  by (cases s) (auto simp: validCompletedStageCount_def activeRunStages_def)

lemma no_facts_simps: "failureCode no_facts = None" "\<not> terminationRecorded no_facts"
  by (simp_all add: no_facts_def)

lemma failed_sources: "ingestionRunTransitionSources Failed no_facts = [Planning, Collecting, Parsing, Reconciling, AwaitingApproval, Publishing]"
  by (simp add: ingestionRunTransitionSources_def ingestionRunStates_def canTransition_edges no_facts_def)

lemmas mutation_simps = canTransition_edges no_facts_simps runEventKinds_def kindStates_def identity_columns_def
  runCurrentNullableColumns_def is_null_or_string_def reference_columns_def next_sequence_def payload_kind_def source_row_def
  immutable_columns_def approved_columns_def phase_ok_def early_states_def valid_count_iff assign_columns_def failed_sources
  candidate_columns_def approval_columns_def

interpretation failing: run_update "''failed''" "ingestionRunTransitionSources Failed no_facts" Failed
  "\<lambda>row. [(''terminal_at'', JStr terminalAt), (''failure_code'', JStr code)]" "[]" for terminalAt code
  by unfold_locales (auto simp: mutation_simps)

interpretation rejecting: run_update "''rejected''" "[AwaitingApproval]" Rejected
  "\<lambda>row. [(''terminal_at'', JStr terminalAt), (''completed_stage_count'', JNum 4)]" "[]" for terminalAt
  by unfold_locales (auto simp: mutation_simps)

interpretation blocking_prepared: run_update "''candidate_blocked''" "[Planning]" Failed
  "\<lambda>row. [(''candidate_digest'', JStr digest), (''candidate_catalogue_digest'', JStr digest), (''candidate_created_at'', JStr createdAt),
     (''approval_deadline'', JStr deadline), (''terminal_at'', JStr terminalAt), (''failure_code'', nullable code),
     (''completed_stage_count'', JNum 6)]" "[]" for digest createdAt deadline terminalAt code
  by unfold_locales (auto simp: mutation_simps nullable_def split: option.splits)

interpretation completing: run_update "''candidate_prepared''" "[Reconciling]" AwaitingApproval
  "\<lambda>row. [(''candidate_digest'', JStr digest), (''candidate_catalogue_digest'', JStr digest), (''candidate_created_at'', JStr createdAt),
     (''approval_deadline'', JStr deadline), (''completed_stage_count'', JNum 4)]" "[]" for digest createdAt deadline
  by unfold_locales (auto simp: mutation_simps)

interpretation collecting: run_update "''stage_changed''" "[Planning]" Collecting "\<lambda>row. [(''completed_stage_count'', JNum 1)]" "[]"
  by unfold_locales (auto simp: mutation_simps)

interpretation parsing: run_update "''stage_changed''" "[Collecting]" Parsing "\<lambda>row. [(''completed_stage_count'', JNum 2)]" "[]"
  by unfold_locales (auto simp: mutation_simps)

interpretation reconciling: run_update "''stage_changed''" "[Parsing]" Reconciling "\<lambda>row. [(''completed_stage_count'', JNum 3)]" "[]"
  by unfold_locales (auto simp: mutation_simps)

interpretation reviewing: run_update "''candidate_prepared''" "[Reconciling]" AwaitingApproval
  "\<lambda>row. candidate_columns c row @ [(''diagnostics_event_sequence'', next_sequence row), (''completed_stage_count'', JNum 4)]"
  "[''candidate'', ''diagnostics'']" for c
  by unfold_locales (auto simp: mutation_simps)

interpretation blocking: run_update "''candidate_blocked''" "[Reconciling]" Failed
  "\<lambda>row. candidate_columns c row @ [(''terminal_at'', JStr terminalAt), (''failure_code'', JStr code),
     (''diagnostics_event_sequence'', next_sequence row), (''completed_stage_count'', JNum 4)]"
  "[''candidate'', ''diagnostics'']" for c terminalAt code
  by unfold_locales (auto simp: mutation_simps)

interpretation failing_reconciliation: run_update "''failed''" "[Reconciling]" Failed
  "\<lambda>row. [(''terminal_at'', JStr terminalAt), (''failure_code'', JStr code), (''diagnostics_event_sequence'', next_sequence row),
     (''completed_stage_count'', JNum 3)]" "[''diagnostics'']" for terminalAt code
  by unfold_locales (auto simp: mutation_simps)

interpretation failing_workflow: run_update "''failed''" "[Parsing, Reconciling]" Failed
  "\<lambda>row. [(''terminal_at'', JStr terminalAt), (''failure_code'', JStr code), (''diagnostics_event_sequence'', next_sequence row),
     (''completed_stage_count'', JNum 3)]" "[''diagnostics'']" for terminalAt code
  by unfold_locales (auto simp: mutation_simps)

interpretation approving: run_update "''approval_reserved''" "[AwaitingApproval]" Publishing "\<lambda>row. approval_columns a (JNum 5)" "[]" for a
  by unfold_locales (auto simp: mutation_simps)

interpretation reserving: run_update "''approval_reserved''" "[AwaitingApproval]" Publishing
  "\<lambda>row. approval_columns a (JNum 5) @ [(''publication_revision_id'', JStr (pw_revision w)),
     (''publication_started_at'', JStr (pw_started w)), (''publication_reconcile_after'', JStr (pw_reconcile w)),
     (''publication_manifest_digest'', JStr (pw_manifest w)), (''publication_writer_token'', JStr (pw_token w))]" "[]" for a w
  by unfold_locales (auto simp: mutation_simps)

interpretation publishing_unchanged: run_update "''published''" "[Publishing]" Published
  "\<lambda>row. [(''terminal_at'', JStr terminalAt), (''completed_stage_count'', JNum 6), (''publication_outcome'', JStr ''no_change''),
     (''resulting_revision_id'', JStr revision), (''freshness_checked_at'', JStr checkedAt)]" "[]" for terminalAt revision checkedAt
  by unfold_locales (auto simp: mutation_simps)

interpretation publishing: run_update "''published''" "[Publishing]" Published
  "\<lambda>row. [(''published_revision_id'', JStr revision), (''export_manifest_digest'', JStr manifest), (''terminal_at'', JStr completedAt),
     (''completed_stage_count'', JNum 6), (''publication_outcome'', JStr ''revision''), (''resulting_revision_id'', JStr revision),
     (''freshness_checked_at'', JStr completedAt)]" "[]" for revision manifest completedAt
  by unfold_locales (auto simp: mutation_simps)

interpretation failing_candidate: run_update "''failed''" "[AwaitingApproval]" Failed
  "\<lambda>row. [(''terminal_at'', JStr terminalAt), (''failure_code'', JStr code)]" "[]" for terminalAt code
  by unfold_locales (auto simp: mutation_simps)

interpretation failing_publication: run_update "''failed''" "[Publishing]" Failed
  "\<lambda>row. [(''terminal_at'', JStr terminalAt), (''failure_code'', JStr code)]" "[]" for terminalAt code
  by unfold_locales (auto simp: mutation_simps)

interpretation pausing: run_update "''collection_paused''" "[Collecting]" Paused "\<lambda>row. [(''completed_stage_count'', JNum 1)]" "[]"
  by unfold_locales (auto simp: mutation_simps)

end
