(* ===== verification/Run_Commands.thy ===== *)
theory Run_Commands
  imports Run_Refinement
begin

text \<open>
  Sequences of transactions over the run tables, and what holds after any of them: the projection
  of every run is the replay of its events, it passes the integrity guard, and a terminal run never
  changes again.
\<close>

datatype run_command =
    Create string string create_input                                  \<comment> \<open>event, instant, input\<close>
  | Fail_run string string string string                               \<comment> \<open>event, instant, code, run\<close>
  | Reject string string json json string
  | Fail_prepared string string string string string "string option" json string
  | Complete_prepared string string string string json string
  | Stage string string IngestionRunState IngestionRunState string
  | Begin_reconciliation string string string
  | Reviewable string candidate_input payload_text string
  | Blocked string candidate_input string string payload_text string
  | Fail_reconciliation string string payload_text string
  | Fail_workflow string string string payload_text string
  | Approve_no_change string string approval_decision string json string
  | Reserve_writer string approval_decision string json publication_writer string
  | Publish_no_change string string json string string string
  | Publish string string string string json string
  | Fail_candidate string string string string
  | Fail_publication string string string string
  | Pause string string string
  | Acquire_lock string
  | Release_lock string

definition command_statement :: "sql_env \<Rightarrow> run_command \<Rightarrow> build_error + 'a run_db_scheme sql statement" where
  "command_statement env command = (case command of
      Create eventId now input \<Rightarrow> createRunEventStatement env eventId input [runStartGuardStatement now]
    | Fail_run eventId terminalAt code run \<Rightarrow> failRunStatement env eventId terminalAt code run
    | Reject eventId terminalAt progress decision run \<Rightarrow> rejectRunStatement env eventId terminalAt progress decision run
    | Fail_prepared eventId digest createdAt deadline terminalAt code progress run \<Rightarrow>
        failPreparedRunStatement env eventId digest createdAt deadline terminalAt code progress run
    | Complete_prepared eventId digest createdAt deadline progress run \<Rightarrow>
        completePreparedRunStatement env eventId digest createdAt deadline progress run
    | Stage eventId now source target run \<Rightarrow> transitionStatement env eventId now source target run
    | Begin_reconciliation eventId now run \<Rightarrow> beginReconciliationStatement env eventId now run
    | Reviewable eventId c warnings run \<Rightarrow> reviewableCandidateStatement env eventId c warnings run
    | Blocked eventId c terminalAt code diagnostics run \<Rightarrow> blockedCandidateStatement env eventId c terminalAt code diagnostics run
    | Fail_reconciliation eventId terminalAt diagnostics run \<Rightarrow> failedReconciliationStatement env eventId terminalAt diagnostics run
    | Fail_workflow eventId terminalAt code diagnostics run \<Rightarrow> failedReconciliationWorkflowStatement env eventId terminalAt code diagnostics run
    | Approve_no_change eventId at a key progress run \<Rightarrow> approveNoChangeRunStatement env eventId at a key progress run
    | Reserve_writer eventId a key progress w run \<Rightarrow> reservePublicationWriterStatement env eventId a key progress w run
    | Publish_no_change eventId terminalAt progress revision checkedAt run \<Rightarrow>
        publishNoChangeRunStatement env eventId terminalAt progress revision checkedAt run
    | Publish eventId revision manifest completedAt progress run \<Rightarrow>
        publishApprovedRunStatement env eventId revision manifest completedAt progress run
    | Fail_candidate eventId terminalAt code run \<Rightarrow> failCandidatePublicationStatement env eventId terminalAt code run
    | Fail_publication eventId terminalAt code run \<Rightarrow> failReservedPublicationStatement env eventId terminalAt code run
    | Pause eventId pausedAt run \<Rightarrow> pauseRunStatement env eventId pausedAt [] run
    | Acquire_lock run \<Rightarrow> Inr (Plain (acquireRunLock run))
    | Release_lock run \<Rightarrow> Inr (Plain (releaseActiveRunLock run)))"

text \<open>
  What callers see to: instants parse, progress documents are those of the state entered, payloads
  are non-empty documents, and a new run names supported games.
\<close>

definition progress_ok :: "IngestionRunState \<Rightarrow> json \<Rightarrow> bool" where
  "progress_ok s progress \<longleftrightarrow> runCompletedStageCount progress = runCompletedStageCount (progressFor s)"

definition create_ok :: "create_input \<Rightarrow> bool" where
  "create_ok input \<longleftrightarrow> cr_games input \<noteq> [] \<and> distinct (cr_games input) \<and> set (cr_games input) \<subseteq> set runGames \<and>
     cr_state input \<in> {Planning, Collecting} \<and> payload_ok (cr_candidate input) \<and> payload_ok (cr_diagnostics input)"

definition command_ok :: "sql_env \<Rightarrow> run_command \<Rightarrow> bool" where
  "command_ok env command = (case command of
      Create eventId now input \<Rightarrow> create_ok input \<and> date_parse env (cr_started input) \<noteq> None
    | Fail_run eventId terminalAt code run \<Rightarrow> date_parse env terminalAt \<noteq> None
    | Reject eventId terminalAt progress decision run \<Rightarrow> progress_ok AwaitingApproval progress \<and> date_parse env terminalAt \<noteq> None
    | Fail_prepared eventId digest createdAt deadline terminalAt code progress run \<Rightarrow>
        progress_ok Failed progress \<and> date_parse env terminalAt \<noteq> None
    | Complete_prepared eventId digest createdAt deadline progress run \<Rightarrow>
        progress_ok AwaitingApproval progress \<and> date_parse env createdAt \<noteq> None
    | Stage eventId now source target run \<Rightarrow>
        (source, target) \<in> {(Planning, Collecting), (Collecting, Parsing), (Parsing, Reconciling)} \<and> date_parse env now \<noteq> None
    | Begin_reconciliation eventId now run \<Rightarrow> date_parse env now \<noteq> None
    | Reviewable eventId c warnings run \<Rightarrow>
        payload_ok (Some (ci_payload c)) \<and> payload_ok (Some warnings) \<and> date_parse env (ci_created c) \<noteq> None
    | Blocked eventId c terminalAt code diagnostics run \<Rightarrow>
        payload_ok (Some (ci_payload c)) \<and> payload_ok (Some diagnostics) \<and> date_parse env terminalAt \<noteq> None
    | Fail_reconciliation eventId terminalAt diagnostics run \<Rightarrow> payload_ok (Some diagnostics) \<and> date_parse env terminalAt \<noteq> None
    | Fail_workflow eventId terminalAt code diagnostics run \<Rightarrow> payload_ok (Some diagnostics) \<and> date_parse env terminalAt \<noteq> None
    | Approve_no_change eventId at a key progress run \<Rightarrow> progress_ok Publishing progress \<and> date_parse env at \<noteq> None
    | Reserve_writer eventId a key progress w run \<Rightarrow> progress_ok Publishing progress \<and> date_parse env (pw_started w) \<noteq> None
    | Publish_no_change eventId terminalAt progress revision checkedAt run \<Rightarrow>
        progress_ok Published progress \<and> date_parse env terminalAt \<noteq> None
    | Publish eventId revision manifest completedAt progress run \<Rightarrow> progress_ok Published progress \<and> date_parse env completedAt \<noteq> None
    | Fail_candidate eventId terminalAt code run \<Rightarrow> date_parse env terminalAt \<noteq> None
    | Fail_publication eventId terminalAt code run \<Rightarrow> date_parse env terminalAt \<noteq> None
    | Pause eventId pausedAt run \<Rightarrow> date_parse env pausedAt \<noteq> None
    | Acquire_lock run \<Rightarrow> True
    | Release_lock run \<Rightarrow> True)"

text \<open>One call of \<open>database.batch\<close> with several mutations.\<close>

fun build_all :: "sql_env \<Rightarrow> run_command list \<Rightarrow> build_error + 'a run_db_scheme sql statement list" where
  "build_all env [] = Inr []"
| "build_all env (c # cs) = rbind (command_statement env c) (\<lambda>s. rbind (build_all env cs) (\<lambda>ss. Inr (s # ss)))"

definition transaction :: "sql_env \<Rightarrow> run_command list \<Rightarrow> 'a run_db_scheme \<Rightarrow> 'a run_db_scheme" where
  "transaction env commands db = (case build_all env commands of
      Inl _ \<Rightarrow> db | Inr statements \<Rightarrow> after_batch (store env) None statements db)"

subsection \<open>Creation\<close>

lemma created_row_ok: "create_ok input \<Longrightarrow> row_ok (cr_run input) (created_row input eventId)"
  unfolding row_ok_def
  by (intro conjI exI [of _ "cr_state input"] exI [of _ "if cr_state input = Planning then 0 else 1"])
    (auto simp: created_row_def create_ok_def valid_count_iff phase_ok_def early_states_def immutable_columns_def)

definition created_columns :: "string list" where
  "created_columns = [''ingestion_run_id'', ''last_event_sequence'', ''last_event_id'', ''state'', ''completed_stage_count'',
     ''candidate_payload_event_sequence'', ''diagnostics_event_sequence'']"

lemma created_not_nullable: "list_all (\<lambda>column. column \<notin> set created_columns) runCurrentNullableColumns"
  by code_simp

lemma created_row_simps:
  "created_row input eventId ''last_event_id'' = JStr eventId" "created_row input eventId ''last_event_sequence'' = JNum 1"
  by (simp_all add: created_row_def)

lemma created_projects:
  assumes "create_ok input" and "date_parse env (c_occurred event) \<noteq> None"
    and event: "c_kind event = ''created''" "c_run event = cr_run input" "c_event event = eventId"
    and games: "m_games mutation = JArr (map JStr (cr_games input))"
    and meta: "retained_ok metadata" "cr_candidate input \<noteq> None \<Longrightarrow> has_own metadata ''candidate''"
      "cr_diagnostics input \<noteq> None \<Longrightarrow> has_own metadata ''diagnostics''"
  shows "projectIngestionRunEvent None (appended_event env event mutation metadata (created_row input eventId)) =
    Inr (currentSnapshot (created_row input eventId))"
proof -
  let ?row = "created_row input eventId" and ?e = "appended_event env event mutation metadata (created_row input eventId)"
  have row: "?row ''ingestion_run_id'' = JStr (cr_run input)" "?row ''last_event_sequence'' = JNum 1" "?row ''last_event_id'' = JStr eventId"
    "?row ''previous_state'' = JNull" "?row ''state'' = JStr (state_name (cr_state input))"
    "?row ''completed_stage_count'' = JNum (if cr_state input = Planning then 0 else 1)"
    "?row ''candidate_payload_event_sequence'' = (if cr_candidate input = None then JNull else JNum 1)"
    "?row ''diagnostics_event_sequence'' = (if cr_diagnostics input = None then JNull else JNum 1)"
    by (simp_all add: created_row_def)
  have null: "?row column = JNull" if "column \<in> set runCurrentNullableColumns" for column
  proof -
    have "column \<notin> set created_columns"
      using that list_all_iff [THEN iffD1, OF created_not_nullable] by blast
    then show ?thesis by (simp add: created_row_def created_columns_def)
  qed
  have e: "ev_run ?e = cr_run input" "ev_sequence ?e = 1" "ev_id ?e = eventId" "ev_kind ?e = ''created''" "ev_from ?e = None"
    "ev_to ?e = state_name (cr_state input)" "ev_occurred ?e \<noteq> None"
    using assms(2) event by (simp_all add: appended_event_def row num_of_def str_of_def)
  have parts: "\<exists>payload p. ev_payload ?e = Some payload \<and> payload_parts payload = Some (p, currentSnapshot ?row, metadata) \<and> first_ok p ?e"
  proof -
    have "ev_to ?e \<in> {''planning'', ''collecting''}"
      using assms(1) e(6) by (auto simp: create_ok_def state_name.simps)
    moreover have "distinct (map JStr (cr_games input))" "list_all (\<lambda>g. g \<in> JStr ` set runGames) (map JStr (cr_games input))"
      using assms(1) by (auto simp: create_ok_def distinct_map inj_on_def list_all_iff)
    ultimately show ?thesis
      using e assms(1) games by (auto simp: appended_event_def payload_parts_def jget_def first_ok_def create_ok_def)
  qed
  have "event_ok ?e" using e by (simp add: event_ok_def runEventKinds_def isIngestionRunState_def)
  moreover have "identity_ok (currentSnapshot ?row) ?e" using e row by (simp add: identity_ok_def nullable_def)
  moreover have "scalars_ok (currentSnapshot ?row)"
    using row null by (auto simp: scalars_ok_def list_all_iff snapshot_nullable is_null_or_string_def activeRunStages_def)
  moreover have "kind_state_ok ?e" using e by (simp add: kind_state_ok_def kindStates_def)
  ultimately show ?thesis
    using parts e row meta snapshot_columns_ok [of ?row]
    by (auto simp: project_Inr ref_ok_iff reference_retained_def)
qed

lemma create_consistent:
  assumes "createRunEventStatement env eventId input guards = Inr stmt" and "create_ok input"
    and "date_parse env (cr_started input) \<noteq> None" and "list_all read_only (concat (map flatten guards))"
    and con: "consistent db" and "run_sql (flatten stmt) (db, c) = Inr (db', c')"
  shows "consistent db'"
proof -
  let ?run = "cr_run input" and ?row = "created_row input eventId"
  let ?event = "\<lparr>c_event = eventId, c_kind = ''created'', c_run = ?run, c_occurred = cr_started input\<rparr>"
  define mutation where "mutation = plain_mutation\<lparr>m_before := [Plain (insert_anchor input), Plain (insert_games input)],
    m_guards := guards, m_after := [Plain (reserveIngestionCollection ?run)], m_candidate := cr_candidate input,
    m_diagnostics := cr_diagnostics input, m_games := JArr (map JStr (cr_games input))\<rparr>"
  note fields = mutation_def plain_mutation_def
  have s: "runEventStatement env ?event (insert_current input eventId) mutation = Inr stmt"
    using assms(1) by (simp add: createRunEventStatement_def mutation_def)
  obtain metadata rest where f: "flatten stmt = statement_effects ?event (insert_current input eventId)
      (append_event env ?event mutation metadata) mutation rest"
    and m: "list_all keeps_core rest" "retained_ok metadata"
      "cr_candidate input \<noteq> None \<longrightarrow> has_own metadata ''candidate''" "cr_diagnostics input \<noteq> None \<longrightarrow> has_own metadata ''diagnostics''"
    using runEventStatement_effects [OF s] assms(2) by (auto simp: fields create_ok_def)
  let ?post = "mutation\<lparr>m_before := []\<rparr>"
  from assms(6) obtain st1 where 1: "run_sql [insert_anchor input, insert_games input] (db, c) = Inr st1"
    and 2: "run_sql (statement_effects ?event (insert_current input eventId) (append_event env ?event mutation metadata) ?post rest) st1 = Inr (db', c')"
    unfolding f by (auto simp: statement_effects_def fields rbind_eq_Inr run_sql_append)
  obtain db1 c1 where st1: "st1 = (db1, c1)" by force
  have d1: "games db ?run = []" "core db1 = (currents db, events db, (games db)(?run := cr_games input))"
    using 1 assms(2) by (auto simp: st1 insert_anchor_def insert_games_def create_ok_def core_def rbind_eq_Inr split: if_splits)
  obtain db2 c2 db3 c3 where 3: "insert_current input eventId (db1, c1) = Inr (db2, c2)"
    and 4: "append_event env ?event mutation metadata (db2, c2) = Inr (db3, c3)" and "core db' = core db3"
    using statement_run [OF 2 [unfolded st1]] assms(4) m(1) by (auto simp: fields)
  then have same: "consistent db' = consistent db3" using consistent_core by blast
  have none: "currents db ?run = None" "currents db1 = currents db"
    and d2: "db2 = db1\<lparr>currents := (currents db1)(?run \<mapsto> ?row)\<rparr>" "c2 = 1"
    using 3 d1 by (auto simp: insert_current_def core_def split: if_splits)
  let ?e = "appended_event env ?event mutation metadata ?row"
  have d3: "core db3 = ((currents db)(?run \<mapsto> ?row), events db @ [?e], (games db)(?run := cr_games input))"
    using 4 d1 none(2) unfolding d2 append_event_def by (auto simp: Let_def core_def created_row_simps split: if_splits)
  have e: "ev_run ?e = ?run" "ev_sequence ?e = 1" "payload_field ?e ''selected_games'' = JArr (map JStr (cr_games input))"
    by (simp_all add: appended_event_def payload_field_def fields jget_def created_row_simps num_of_def)
  have p: "projectIngestionRunEvent None ?e = Inr (currentSnapshot ?row)"
    using created_projects [OF assms(2), of env ?event eventId mutation metadata] assms(3) m by (simp add: fields)
  have "consistent_run db3 run" for run
  proof (cases "run = ?run")
    case True
    have "run_history db ?run = []" using con none by (auto simp: consistent_def consistent_run_def dest!: spec [of _ ?run])
    then have "run_history db3 ?run = [?e]" using d3 e by (auto simp: core_def run_history_def)
    moreover have "replay [?e] = Inr (Some (currentSnapshot ?row))"
      using p replay_snoc [of "[]" ?e "currentSnapshot ?row"] by (simp add: replay_Nil)
    moreover have "selectedGamesMatch db3 ?run" using d3 e by (auto simp: selectedGamesMatch_def core_def)
    ultimately show ?thesis using d3 created_row_ok [OF assms(2)] True by (simp add: consistent_run_def core_def)
  next
    case False
    moreover have "consistent_run db run" using con by (simp add: consistent_def)
    ultimately show ?thesis
      using d3 e by (auto simp: consistent_run_def core_def run_history_def selectedGamesMatch_def split: option.splits)
  qed
  then show ?thesis using same by (simp add: consistent_def)
qed

subsection \<open>Every command keeps the invariant\<close>

lemma stage_count_progress:
  "progress_ok AwaitingApproval progress \<Longrightarrow> with_count progress f = Inr (f (JNum 4))"
  "progress_ok Publishing progress \<Longrightarrow> with_count progress f = Inr (f (JNum 5))"
  "progress_ok Published progress \<Longrightarrow> with_count progress f = Inr (f (JNum 6))"
  "progress_ok Failed progress \<Longrightarrow> with_count progress f = Inr (f (JNum 6))"
  "with_count (progressFor Collecting) f = Inr (f (JNum 1))" "with_count (progressFor Parsing) f = Inr (f (JNum 2))"
  "with_count (progressFor Reconciling) f = Inr (f (JNum 3))"
proof -
  have "runCompletedStageCount (progressFor AwaitingApproval) = Inr 4" "runCompletedStageCount (progressFor Publishing) = Inr 5"
    "runCompletedStageCount (progressFor Published) = Inr 6" "runCompletedStageCount (progressFor Failed) = Inr 6"
    "runCompletedStageCount (progressFor Collecting) = Inr 1" "runCompletedStageCount (progressFor Parsing) = Inr 2"
    "runCompletedStageCount (progressFor Reconciling) = Inr 3"
    by code_simp+
  then show "progress_ok AwaitingApproval progress \<Longrightarrow> with_count progress f = Inr (f (JNum 4))"
    "progress_ok Publishing progress \<Longrightarrow> with_count progress f = Inr (f (JNum 5))"
    "progress_ok Published progress \<Longrightarrow> with_count progress f = Inr (f (JNum 6))"
    "progress_ok Failed progress \<Longrightarrow> with_count progress f = Inr (f (JNum 6))"
    "with_count (progressFor Collecting) f = Inr (f (JNum 1))" "with_count (progressFor Parsing) f = Inr (f (JNum 2))"
    "with_count (progressFor Reconciling) f = Inr (f (JNum 3))"
    by (simp_all add: progress_ok_def with_count_def stage_count_def)
qed

lemmas command_defs = command_statement_def command_ok_def event_of_def plain_mutation_def

lemma fail_run_consistent:
  assumes "failRunStatement env eventId terminalAt code run = Inr stmt" and "date_parse env terminalAt \<noteq> None"
    and "consistent db" and "run_sql (flatten stmt) (db, c) = Inr (db', c')"
  shows "consistent db'"
proof -
  have "transition_condition (ingestionRunTransitionSources Failed no_facts) Failed no_facts = Inr matches \<Longrightarrow>
      matches = (\<lambda>row. in_state row (ingestionRunTransitionSources Failed no_facts))" for matches
    by (auto simp: transition_condition_def rbind_eq_Inr)
  with assms(1) have "runEventStatement env (event_of eventId ''failed'' run terminalAt)
       (update_current (c_run (event_of eventId ''failed'' run terminalAt)) (c_event (event_of eventId ''failed'' run terminalAt))
         (\<lambda>row. in_state row (ingestionRunTransitionSources Failed no_facts))
         (\<lambda>row. state_assign Failed # [(''terminal_at'', JStr terminalAt), (''failure_code'', JStr code)]))
       (plain_mutation\<lparr>m_before := [Plain (failActiveRunGuard run code)]\<rparr>) = Inr stmt"
    by (auto simp: failRunStatement_def rbind_eq_Inr event_of_def)
  then show ?thesis
    by (rule failing.event_update_consistent)
      (use assms(2-4) in \<open>simp_all add: event_of_def plain_mutation_def payload_ok_def failActiveRunGuard_def\<close>)
qed

lemma lock_keeps_core: "keeps_core (acquireRunLock run)" "keeps_core (releaseActiveRunLock run)"
  by (auto simp: keeps_core_def acquireRunLock_def releaseActiveRunLock_def core_def split: if_splits)

lemma keeps_core_consistent: "keeps_core f \<Longrightarrow> consistent db \<Longrightarrow> f (db, c) = Inr (db', c') \<Longrightarrow> consistent db'"
  using consistent_core unfolding keeps_core_def by blast

lemma payload_ok_None [simp]: "payload_ok None"
  by (simp add: payload_ok_def)

lemma command_consistent:
  assumes st: "command_statement env command = Inr stmt" and ok: "command_ok env command" and con: "consistent db"
    and run: "run_sql (flatten stmt) (db, c) = Inr (db', c')"
  shows "consistent db'"
proof (cases command)
  case (Create eventId now input)
  then show ?thesis
    using create_consistent [of env eventId input "[runStartGuardStatement now]" stmt db c db' c'] st ok con run
    by (simp add: command_statement_def command_ok_def runStartGuardStatement_def)
next
  case (Fail_run eventId terminalAt code run')
  then show ?thesis using fail_run_consistent st ok con run by (simp add: command_statement_def command_ok_def) blast
next
  case (Reject eventId terminalAt progress decision run')
  have p: "progress_ok AwaitingApproval progress" using ok by (simp add: Reject command_ok_def)
  have "rejectRunStatement env eventId terminalAt progress decision run' = Inr stmt" using st by (simp add: Reject command_statement_def)
  then show ?thesis
    unfolding rejectRunStatement_def stage_count_progress(1) [OF p]
    by (rule rejecting.guarded_update_consistent) (use ok con run in \<open>simp_all add: Reject command_defs\<close>)
next
  case (Fail_prepared eventId digest createdAt deadline terminalAt code progress run')
  have p: "progress_ok Failed progress" using ok by (simp add: Fail_prepared command_ok_def)
  have "failPreparedRunStatement env eventId digest createdAt deadline terminalAt code progress run' = Inr stmt" using st by (simp add: Fail_prepared command_statement_def)
  then show ?thesis
    unfolding failPreparedRunStatement_def stage_count_progress(4) [OF p]
    by (rule blocking_prepared.guarded_update_consistent) (use ok con run in \<open>simp_all add: Fail_prepared command_defs\<close>)
next
  case (Complete_prepared eventId digest createdAt deadline progress run')
  have p: "progress_ok AwaitingApproval progress" using ok by (simp add: Complete_prepared command_ok_def)
  have "completePreparedRunStatement env eventId digest createdAt deadline progress run' = Inr stmt" using st by (simp add: Complete_prepared command_statement_def)
  then show ?thesis
    unfolding completePreparedRunStatement_def stage_count_progress(1) [OF p]
    by (rule completing.guarded_update_consistent) (use ok con run in \<open>simp_all add: Complete_prepared command_defs\<close>)
next
  case (Begin_reconciliation eventId now run')
  have "beginReconciliationStatement env eventId now run' = Inr stmt" using st by (simp add: Begin_reconciliation command_statement_def)
  then show ?thesis
    unfolding beginReconciliationStatement_def
    by (rule reconciling.guarded_update_consistent) (use ok con run in \<open>simp_all add: Begin_reconciliation command_defs\<close>)
next
  case (Reviewable eventId cand warnings run')
  have "reviewableCandidateStatement env eventId cand warnings run' = Inr stmt" using st by (simp add: Reviewable command_statement_def)
  then show ?thesis
    unfolding reviewableCandidateStatement_def
    by (rule reviewing.guarded_update_consistent) (use ok con run in \<open>simp_all add: Reviewable command_defs\<close>)
next
  case (Blocked eventId cand terminalAt code diagnostics run')
  have "blockedCandidateStatement env eventId cand terminalAt code diagnostics run' = Inr stmt" using st by (simp add: Blocked command_statement_def)
  then show ?thesis
    unfolding blockedCandidateStatement_def
    by (rule blocking.guarded_update_consistent) (use ok con run in \<open>simp_all add: Blocked command_defs\<close>)
next
  case (Fail_reconciliation eventId terminalAt diagnostics run')
  have "failedReconciliationStatement env eventId terminalAt diagnostics run' = Inr stmt" using st by (simp add: Fail_reconciliation command_statement_def)
  then show ?thesis
    unfolding failedReconciliationStatement_def
    by (rule failing_reconciliation.guarded_update_consistent) (use ok con run in \<open>simp_all add: Fail_reconciliation command_defs\<close>)
next
  case (Fail_workflow eventId terminalAt code diagnostics run')
  have "failedReconciliationWorkflowStatement env eventId terminalAt code diagnostics run' = Inr stmt" using st by (simp add: Fail_workflow command_statement_def)
  then show ?thesis
    unfolding failedReconciliationWorkflowStatement_def
    by (rule failing_workflow.guarded_update_consistent) (use ok con run in \<open>simp_all add: Fail_workflow command_defs\<close>)
next
  case (Approve_no_change eventId at a key progress run')
  have p: "progress_ok Publishing progress" using ok by (simp add: Approve_no_change command_ok_def)
  have "approveNoChangeRunStatement env eventId at a key progress run' = Inr stmt" using st by (simp add: Approve_no_change command_statement_def)
  then show ?thesis
    unfolding approveNoChangeRunStatement_def stage_count_progress(2) [OF p]
    by (rule approving.guarded_update_consistent) (use ok con run in \<open>simp_all add: Approve_no_change command_defs\<close>)
next
  case (Reserve_writer eventId a key progress w run')
  have p: "progress_ok Publishing progress" using ok by (simp add: Reserve_writer command_ok_def)
  have "reservePublicationWriterStatement env eventId a key progress w run' = Inr stmt" using st by (simp add: Reserve_writer command_statement_def)
  then show ?thesis
    unfolding reservePublicationWriterStatement_def stage_count_progress(2) [OF p]
    by (rule reserving.guarded_update_consistent) (use ok con run in \<open>simp_all add: Reserve_writer command_defs\<close>)
next
  case (Publish_no_change eventId terminalAt progress revision checkedAt run')
  have p: "progress_ok Published progress" using ok by (simp add: Publish_no_change command_ok_def)
  have "publishNoChangeRunStatement env eventId terminalAt progress revision checkedAt run' = Inr stmt" using st by (simp add: Publish_no_change command_statement_def)
  then show ?thesis
    unfolding publishNoChangeRunStatement_def stage_count_progress(3) [OF p]
    by (rule publishing_unchanged.guarded_update_consistent) (use ok con run in \<open>simp_all add: Publish_no_change command_defs\<close>)
next
  case (Publish eventId revision manifest completedAt progress run')
  have p: "progress_ok Published progress" using ok by (simp add: Publish command_ok_def)
  have "publishApprovedRunStatement env eventId revision manifest completedAt progress run' = Inr stmt" using st by (simp add: Publish command_statement_def)
  then show ?thesis
    unfolding publishApprovedRunStatement_def stage_count_progress(3) [OF p]
    by (rule publishing.guarded_update_consistent) (use ok con run in \<open>simp_all add: Publish command_defs\<close>)
next
  case (Fail_candidate eventId terminalAt code run')
  have "failCandidatePublicationStatement env eventId terminalAt code run' = Inr stmt" using st by (simp add: Fail_candidate command_statement_def)
  then show ?thesis
    unfolding failCandidatePublicationStatement_def
    by (rule failing_candidate.guarded_update_consistent) (use ok con run in \<open>simp_all add: Fail_candidate command_defs\<close>)
next
  case (Fail_publication eventId terminalAt code run')
  have "failReservedPublicationStatement env eventId terminalAt code run' = Inr stmt" using st by (simp add: Fail_publication command_statement_def)
  then show ?thesis
    unfolding failReservedPublicationStatement_def
    by (rule failing_publication.guarded_update_consistent) (use ok con run in \<open>simp_all add: Fail_publication command_defs\<close>)
next
  case (Pause eventId pausedAt run')
  have "pauseRunStatement env eventId pausedAt [] run' = Inr stmt" using st by (simp add: Pause command_statement_def)
  then show ?thesis
    unfolding pauseRunStatement_def
    by (rule pausing.guarded_update_consistent) (use ok con run in \<open>simp_all add: Pause command_defs\<close>)
next
  case (Stage eventId now source target run')
  have s: "transitionStatement env eventId now source target run' = Inr stmt" using st by (simp add: Stage command_statement_def)
  consider "source = Planning" "target = Collecting" | "source = Collecting" "target = Parsing" | "source = Parsing" "target = Reconciling"
    using ok by (auto simp: Stage command_ok_def)
  then show ?thesis
  proof cases
    case 1
    show ?thesis
      using s unfolding 1 transitionStatement_def transitionRunStatement_def stage_count_progress(5)
      by (rule collecting.guarded_update_consistent) (use ok con run in \<open>simp_all add: Stage command_defs payload_ok_def\<close>)
  next
    case 2
    show ?thesis
      using s unfolding 2 transitionStatement_def transitionRunStatement_def stage_count_progress(6)
      by (rule parsing.guarded_update_consistent) (use ok con run in \<open>simp_all add: Stage command_defs payload_ok_def\<close>)
  next
    case 3
    show ?thesis
      using s unfolding 3 transitionStatement_def transitionRunStatement_def stage_count_progress(7)
      by (rule reconciling.guarded_update_consistent) (use ok con run in \<open>simp_all add: Stage command_defs payload_ok_def\<close>)
  qed
next
  case (Acquire_lock run')
  then have "acquireRunLock run' (db, c) = Inr (db', c')" using st run by (auto simp: command_statement_def rbind_eq_Inr)
  then show ?thesis using keeps_core_consistent [OF lock_keeps_core(1) con] by blast
next
  case (Release_lock run')
  then have "releaseActiveRunLock run' (db, c) = Inr (db', c')" using st run by (auto simp: command_statement_def rbind_eq_Inr)
  then show ?thesis using keeps_core_consistent [OF lock_keeps_core(2) con] by blast
qed

lemma build_all_consistent:
  "build_all env commands = Inr stmts \<Longrightarrow> list_all (command_ok env) commands \<Longrightarrow> consistent db \<Longrightarrow>
    run_sql (concat (map flatten stmts)) (db, c) = Inr (db', c') \<Longrightarrow> consistent db'"
proof (induction commands arbitrary: stmts db c)
  case (Cons command commands)
  then obtain s ss where s: "command_statement env command = Inr s" "build_all env commands = Inr ss" "stmts = s # ss"
    by (auto simp: rbind_eq_Inr)
  with Cons.prems(4) obtain db1 c1 where 1: "run_sql (flatten s) (db, c) = Inr (db1, c1)"
    and 2: "run_sql (concat (map flatten ss)) (db1, c1) = Inr (db', c')"
    by (auto simp: run_sql_append rbind_eq_Inr)
  have "consistent db1" using command_consistent [OF s(1) _ Cons.prems(3) 1] Cons.prems(2) by simp
  then show ?case using Cons.IH [OF s(2) _ _ 2] Cons.prems(2) by simp
qed simp

lemma transaction_consistent:
  fixes db :: "'a run_db_scheme"
  assumes "list_all (command_ok env) commands" and "consistent db"
  shows "consistent (transaction env commands db)"
proof (cases "build_all env commands :: build_error + 'a run_db_scheme sql statement list")
  case (Inr stmts)
  then have t: "transaction env commands db = after_batch (store env) None stmts db" by (simp add: transaction_def)
  show ?thesis
    by (cases rule: after_batch_cases [of "store env" stmts db]) (use assms build_all_consistent [OF Inr] in \<open>auto simp: t\<close>)
qed (simp add: transaction_def assms(2))

lemma transactions_consistent:
  "list_all (list_all (command_ok env)) batches \<Longrightarrow> consistent db \<Longrightarrow> consistent (fold (transaction env) batches db)"
  by (induction batches arbitrary: db) (simp_all add: transaction_consistent)

lemma empty_consistent: "currents db = Map.empty \<Longrightarrow> events db = [] \<Longrightarrow> consistent db"
  by (simp add: consistent_def consistent_run_def run_history_def)

subsection \<open>Histories only grow\<close>

definition grows :: "'a run_db_scheme sql \<Rightarrow> bool" where
  "grows f \<longleftrightarrow> (\<forall>db c db' c'. f (db, c) = Inr (db', c') \<longrightarrow> (\<exists>es. events db' = events db @ es))"

lemma run_sql_grows: "list_all grows fs \<Longrightarrow> run_sql fs (db, c) = Inr (db', c') \<Longrightarrow> \<exists>es. events db' = events db @ es"
proof (induction fs arbitrary: db c)
  case (Cons f fs)
  then obtain db1 c1 where 1: "f (db, c) = Inr (db1, c1)" "run_sql fs (db1, c1) = Inr (db', c')" by (auto simp: rbind_eq_Inr)
  have "grows f" using Cons.prems(1) by simp
  then obtain es where "events db1 = events db @ es" using 1(1) unfolding grows_def by blast
  moreover obtain es' where "events db' = events db1 @ es'" using Cons.IH [OF _ 1(2)] Cons.prems(1) by auto
  ultimately show ?case by simp
qed simp

lemma keeps_core_grows: "keeps_core f \<Longrightarrow> grows f"
  by (fastforce simp: keeps_core_def grows_def core_def)

lemma grows_simps [simp]:
  "grows (append_event env event input metadata)" "grows (update_current run eventId matches assignments)"
  "grows (insert_anchor cr)" "grows (insert_games cr)" "grows (insert_current cr eventId)" "grows (runCurrentIntegrityGuard run creating)"
  by (auto simp: grows_def append_event_def update_current_def insert_anchor_def insert_games_def insert_current_def Let_def
      read_only_keeps_core keeps_core_grows split: option.splits if_splits
      dest!: read_only_integrity [unfolded read_only_def, rule_format])

lemma statement_grows:
  assumes "runEventStatement env event primary input = Inr stmt" and "payload_ok (m_candidate input)" "payload_ok (m_diagnostics input)"
    and "list_all keeps_core (concat (map flatten (m_after input)))" and "grows primary"
    and "list_all grows (concat (map flatten (m_before input)))" "list_all grows (concat (map flatten (m_guards input)))"
  shows "list_all grows (flatten stmt)"
proof -
  obtain metadata rest where "flatten stmt = statement_effects event primary (append_event env event input metadata) input rest"
    "list_all keeps_core rest" using runEventStatement_effects [OF assms(1-4)] by blast
  then show ?thesis
    using assms(5-7) by (auto simp: statement_effects_def list_all_iff intro: keeps_core_grows)
qed

lemma guarded_grows:
  assumes "guarded_update env event sources target bound input = Inr stmt" and "payload_ok (m_candidate input)" "payload_ok (m_diagnostics input)"
    and "m_after input = []" and "m_before input = []"
  shows "list_all grows (flatten stmt)"
proof -
  from assms(1) obtain matches assign guard where g: "runTransitionGuardStatement env (c_run event) sources target = Inr guard"
    and r: "runEventStatement env event (update_current (c_run event) (c_event event) matches (\<lambda>row. state_assign target # assign row))
      (input\<lparr>m_guards := [guard]\<rparr>) = Inr stmt"
    by (auto simp: guarded_update_def rbind_eq_Inr)
  have "list_all grows (flatten guard)"
    using g by (auto simp: runTransitionGuardStatement_def read_only_keeps_core keeps_core_grows split: if_splits)
  then show ?thesis using statement_grows [OF r] assms(2-5) by simp
qed

lemma command_grows:
  assumes st: "command_statement env command = Inr stmt" and ok: "command_ok env command"
  shows "list_all grows (flatten stmt)"
proof (cases command)
  case (Create eventId now input)
  then have "createRunEventStatement env eventId input [runStartGuardStatement now] = Inr stmt" using st by (simp add: command_statement_def)
  from this [unfolded createRunEventStatement_def] show ?thesis
    by (rule statement_grows)
      (use ok in \<open>simp_all add: Create command_ok_def create_ok_def plain_mutation_def runStartGuardStatement_def read_only_keeps_core keeps_core_grows\<close>)
next
  case (Fail_run eventId terminalAt code run)
  then obtain matches where "runEventStatement env (event_of eventId ''failed'' run terminalAt)
      (update_current run eventId matches (\<lambda>row. [state_assign Failed, (''terminal_at'', JStr terminalAt), (''failure_code'', JStr code)]))
      (plain_mutation\<lparr>m_before := [Plain (failActiveRunGuard run code)]\<rparr>) = Inr stmt"
    using st by (auto simp: command_statement_def failRunStatement_def rbind_eq_Inr)
  then show ?thesis
    by (rule statement_grows) (simp_all add: plain_mutation_def failActiveRunGuard_def read_only_keeps_core keeps_core_grows)
qed (use st ok in \<open>auto simp: command_statement_def command_ok_def rejectRunStatement_def failPreparedRunStatement_def
      completePreparedRunStatement_def transitionStatement_def transitionRunStatement_def beginReconciliationStatement_def
      reviewableCandidateStatement_def blockedCandidateStatement_def failedReconciliationStatement_def
      failedReconciliationWorkflowStatement_def approveNoChangeRunStatement_def reservePublicationWriterStatement_def
      publishNoChangeRunStatement_def publishApprovedRunStatement_def failCandidatePublicationStatement_def
      failReservedPublicationStatement_def pauseRunStatement_def plain_mutation_def lock_keeps_core keeps_core_grows
      elim!: guarded_grows\<close>)

lemma build_all_grows:
  "build_all env commands = Inr stmts \<Longrightarrow> list_all (command_ok env) commands \<Longrightarrow> list_all grows (concat (map flatten stmts))"
  by (induction commands arbitrary: stmts) (auto simp: rbind_eq_Inr dest: command_grows)

lemma transaction_grows:
  fixes db :: "'a run_db_scheme"
  assumes "list_all (command_ok env) commands"
  shows "\<exists>es. events (transaction env commands db) = events db @ es"
proof (cases "build_all env commands :: build_error + 'a run_db_scheme sql statement list")
  case (Inr stmts)
  then have t: "transaction env commands db = after_batch (store env) None stmts db" by (simp add: transaction_def)
  show ?thesis
  proof (cases rule: after_batch_cases [of "store env" stmts db])
    case (2 c)
    then show ?thesis using run_sql_grows [OF build_all_grows [OF Inr assms] 2] t by simp
  qed (simp add: t)
qed (simp add: transaction_def)

lemma transactions_grow:
  "list_all (list_all (command_ok env)) batches \<Longrightarrow> \<exists>es. events (fold (transaction env) batches db) = events db @ es"
proof (induction batches arbitrary: db)
  case (Cons batch batches)
  obtain es where "events (transaction env batch db) = events db @ es" using Cons.prems transaction_grows [of env batch db] by auto
  moreover obtain es' where "events (fold (transaction env) batches (transaction env batch db)) = events (transaction env batch db) @ es'"
    using Cons.IH [of "transaction env batch db"] Cons.prems by auto
  ultimately show ?case by simp
qed simp

subsection \<open>Reading the history of a consistent database\<close>

lemma consistent_row:
  assumes "consistent db" and "currents db run = Some row"
  shows "replay (run_history db run) = Inr (Some (currentSnapshot row))" "row_ok run row" "selectedGamesMatch db run"
  using assms by (auto simp: consistent_def consistent_run_def split: option.splits dest: spec [of _ run])

lemma sorted_1_upt: "map f xs = map int [1..<length xs + 1] \<Longrightarrow> sort_key f xs = xs \<and> distinct (map f xs) \<and> (\<forall>x\<in>set xs. 1 \<le> f x)"
proof -
  assume a: "map f xs = map int [1..<length xs + 1]"
  have "sorted (map f xs)" unfolding a by (simp add: sorted_map del: upt_Suc)
  moreover have "distinct (map f xs)" unfolding a by (simp add: distinct_map)
  moreover have "set (map f xs) \<subseteq> {1..}" unfolding a by auto
  ultimately show ?thesis by (auto simp: sort_key_id_if_sorted sorted_sort_id)
qed

lemma replay_sequences: "replay es = Inr (Some cur) \<Longrightarrow> map ev_sequence es = map int [1..<length es + 1]"
  using replay_history by (auto simp: history_ok_def)

lemma replay_fold:
  assumes "replay es = Inr (Some cur)"
  shows "foldRunEvents es = Inr cur' \<longleftrightarrow> cur' = cur"
proof -
  note s = sorted_1_upt [OF replay_sequences [OF assms]]
  have "foldRunEvents es = Inr cur' \<longleftrightarrow> replay (sort_key ev_sequence es) = Inr (Some cur')"
    using s by (intro foldRunEvents_replay) auto
  then show ?thesis using s assms by auto
qed

lemma payload_parts_current: "payload_parts payload = Some (p, cur, retained) \<Longrightarrow> payload = JObj p \<and> jget p ''current'' = JObj cur"
  by (auto simp: payload_parts_def split: json.splits)

lemma consistent_verified:
  assumes "consistent db" and "currents db run = Some row"
  shows "verifiedRunCurrent db run row"
proof -
  note r = consistent_row [OF assms]
  have ne: "run_history db run \<noteq> []" using r(1) by (auto simp: replay_Nil)
  then obtain es e where es: "run_history db run = es @ [e]" by (cases "run_history db run" rule: rev_cases) auto
  then obtain prev where p: "projectIngestionRunEvent prev e = Inr (currentSnapshot row)" using r(1) by (auto simp: replay_snoc)
  have last: "ev_sequence e = int (length (es @ [e]))"
    using arg_cong [OF replay_sequences [OF r(1)], of last] unfolding es by (simp add: last_map)
  have "ev_sequence e' \<le> ev_sequence e" if "e' \<in> set (events db)" "ev_run e' = run" for e'
  proof -
    have "e' \<in> set (es @ [e])" unfolding es [symmetric] using that by (simp add: run_history_def)
    then have "ev_sequence e' \<in> set (map ev_sequence (es @ [e]))" by (metis image_eqI set_map)
    then show ?thesis using last unfolding replay_sequences [OF r(1) [unfolded es]] by (simp del: upt_Suc) auto
  qed
  moreover have "e \<in> set (events db)" "ev_run e = run"
    using arg_cong [OF es, of set] by (auto simp: run_history_def)
  moreover from p obtain payload q retained where q: "ev_payload e = Some payload" "payload_parts payload = Some (q, currentSnapshot row, retained)"
    and id: "identity_ok (currentSnapshot row) e" by (auto simp: project_Inr)
  moreover have "row ''last_event_sequence'' = JNum (ev_sequence e)" "row ''last_event_id'' = JStr (ev_id e)"
    using id by (simp_all add: identity_ok_def)
  moreover have "payload_field e ''current'' = JObj (currentSnapshot row)"
    using payload_parts_current [OF q(2)] q(1) by (auto simp: payload_field_def)
  ultimately show ?thesis using r(3) by (auto simp: verifiedRunCurrent_def list_ex_iff list_all_iff)
qed

lemma replay_terminal:
  assumes "replay es = Inr (Some prev)" and "replay (es @ fs) = Inr (Some cur)"
    and "jget prev ''state'' = JStr (state_name s)" and "s \<in> set terminal_states"
  shows "fs = []"
proof (rule ccontr)
  assume "fs \<noteq> []"
  have ne: "es \<noteq> []" using assms(1) by (auto simp: replay_Nil)
  have h: "history_ok es prev" "history_ok (es @ fs) cur" using replay_history assms(1,2) by auto
  have l: "ev_to (last es) = state_name s" using h(1) assms(3) by (simp add: history_ok_def)
  let ?i = "length es - 1"
  have "legal_step (ev_to ((es @ fs) ! ?i)) ((es @ fs) ! Suc ?i)"
  proof -
    have "Suc ?i < length (es @ fs)" using ne \<open>fs \<noteq> []\<close> by (cases es; cases fs) auto
    then show ?thesis using h(2) unfolding history_ok_def by blast
  qed
  moreover have "(es @ fs) ! ?i = last es" using ne by (simp add: nth_append last_conv_nth)
  ultimately obtain to facts where "canTransitionIngestionRun (state_name s) to facts" using l by (auto simp: legal_step_def)
  then show False using assms(4) by (auto simp: canTransition_edges terminal_states_def)
qed

subsection \<open>The rebuild transaction\<close>

lemma map_error_Inr [simp]: "map_error f x = Inr y \<longleftrightarrow> x = Inr y"
  by (cases x) auto

lemma foldRunEvents_Nil: "foldRunEvents [] \<noteq> Inr cur"
  using foldRunEvents_replay [of "[]" cur] by (simp add: replay_Nil)

definition rebuild_statements :: "string \<Rightarrow> maintenance \<Rightarrow> json_object \<Rightarrow> 'a run_db_scheme sql statement list" where
  "rebuild_statements run m cur = [Plain (projectionMaintenanceGuard m), Plain (event_fence run cur), Plain (payload_guard run),
     Plain (write_projection run cur), Plain (sql_write (\<lambda>d _. (d\<lparr>games := (games d)(run := [])\<rparr>, int (length (games d run))))),
     Plain (rebuild_games run)]"

lemma rebuild_batch:
  assumes "atomicBatch st None (rebuild_statements run m cur) db = Inr db'"
  shows "(\<exists>e\<in>set (run_history db run). jget cur ''last_event_sequence'' = JNum (ev_sequence e) \<and>
      (\<forall>e'\<in>set (run_history db run). ev_sequence e' \<le> ev_sequence e)) \<and>
    core db' = ((currents db)(run \<mapsto> (\<lambda>column. if column \<in> set runCurrentColumns then jget cur column else JNull)), events db,
      (games db)(run := first_event_games (run_history db run)))"
proof -
  have "list_all (owned st) (rebuild_statements run m cur :: 'a run_db_scheme sql statement list)"
    "length (concat (map flatten (rebuild_statements run m cur :: 'a run_db_scheme sql statement list))) \<le> 900"
    by (simp_all add: rebuild_statements_def)
  from assms [unfolded atomicBatch_eq [OF this]] obtain c where
    "run_sql (concat (map flatten (rebuild_statements run m cur))) (db, 0) = Inr (db', c)"
    by (auto split: sum.splits)
  then show ?thesis
    by (auto simp: rebuild_statements_def rbind_eq_Inr projectionMaintenanceGuard_def event_fence_def payload_guard_def
        write_projection_def rebuild_games_def list_ex_iff list_all_iff core_def run_history_def Let_def)
qed

lemma singleton_list: "set xs = {x} \<Longrightarrow> distinct xs \<Longrightarrow> xs = [x]"
proof -
  assume a: "set xs = {x}" "distinct xs"
  then have "length xs = 1" using distinct_card [of xs] by simp
  then show ?thesis using a by (cases xs) auto
qed

lemma first_games:
  assumes "replay (run_history db run) = Inr (Some cur)" and "selectedGamesMatch db run"
  shows "first_event_games (run_history db run) = games db run"
proof -
  let ?h = "run_history db run"
  note s = sorted_1_upt [OF replay_sequences [OF assms(1)]]
  from assms(2) obtain e where e: "e \<in> set ?h" "ev_sequence e = 1" "payload_field e ''selected_games'' = JArr (map JStr (games db run))"
    by (auto simp: selectedGamesMatch_def list_ex_iff run_history_def)
  have "filter (\<lambda>e. ev_sequence e = 1) ?h = [e]"
  proof -
    have "distinct ?h" using s by (simp add: distinct_map)
    have "inj_on ev_sequence (set ?h)" using s by (simp add: distinct_map)
    then have "e' = e" if "e' \<in> set ?h" "ev_sequence e' = 1" for e'
      using that e(1,2) by (metis inj_onD)
    then have "set (filter (\<lambda>e. ev_sequence e = 1) ?h) = {e}" unfolding set_filter using e(1,2) by blast
    then show ?thesis using \<open>distinct ?h\<close> by (intro singleton_list distinct_filter)
  qed
  moreover have "concat (map (\<lambda>g. case str_of g of Some s \<Rightarrow> [s] | None \<Rightarrow> []) (map JStr gs)) = gs" for gs
    by (induction gs) (simp_all add: str_of_def)
  ultimately show ?thesis using e(3) by (simp add: first_event_games_def)
qed

subsection \<open>A concrete run\<close>

definition sample_env :: sql_env where
  "sample_env = \<lparr>store = 0, date_parse = (\<lambda>t. Some 0), plus_seven_days = (\<lambda>t. Some (t @ ''+7d''))\<rparr>"

definition sample_input :: create_input where
  "sample_input = \<lparr>cr_run = ''r'', cr_games = [''magic''], cr_started = ''t'', cr_expected = None, cr_linked = None, cr_key = ''k'',
     cr_request = None, cr_state = Collecting, cr_candidate = None, cr_diagnostics = None\<rparr>"

definition sample_tables :: run_db where
  "sample_tables = \<lparr>anchors = Map.empty, currents = Map.empty, events = [], chunks = [], games = (\<lambda>_. []), collection_reservations = [],
     terminations = [], operation = \<lparr>active_run = None, release_id = Some ''owner'', release_expires = Some ''a'', recovery_id = None,
       recovery_health = ''healthy'', restore_guard = ''open''\<rparr>,
     current_revision = ''rev'', revision_run = Map.empty, game_heads = [], candidates = [], slots = [], operations = []\<rparr>"

definition sample_batches :: "run_command list list" where
  "sample_batches = [[Create ''e1'' ''t'' sample_input], [Stage ''e2'' ''t'' Collecting Parsing ''r'', Begin_reconciliation ''e3'' ''t'' ''r''],
     [Complete_prepared ''e4'' ''d'' ''t'' ''t+7d'' (progressFor AwaitingApproval) ''r'']]"

definition sample_later :: "run_command list list" where
  "sample_later = [[Reject ''e5'' ''t'' (progressFor AwaitingApproval) JNull ''r'', Release_lock ''r'']]"

definition sample_db :: run_db where
  "sample_db = fold (transaction sample_env) sample_batches sample_tables"

definition sample_row :: run_row where
  "sample_row = the (currents sample_db ''r'')"

definition rejected_db :: run_db where
  "rejected_db = fold (transaction sample_env) (sample_batches @ sample_later) sample_tables"

definition rejected_row :: run_row where
  "rejected_row = the (currents rejected_db ''r'')"

lemma sample_start: "currents sample_tables = Map.empty" "events sample_tables = []"
  by (simp_all add: sample_tables_def)

lemma sample_ok: "list_all (list_all (command_ok sample_env)) sample_batches" "list_all (list_all (command_ok sample_env)) sample_later"
  "list_all (list_all (command_ok sample_env)) (sample_batches @ sample_later)"
  by (simp_all add: sample_batches_def sample_later_def sample_env_def sample_input_def command_ok_def create_ok_def progress_ok_def runGames_def)

lemma sample_current: "currents sample_db ''r'' = Some sample_row"
proof -
  have "currents sample_db ''r'' \<noteq> None" by code_simp
  then show ?thesis by (simp add: sample_row_def)
qed

lemma rejected_current: "currents rejected_db ''r'' = Some rejected_row"
proof -
  have "currents rejected_db ''r'' \<noteq> None" by code_simp
  then show ?thesis by (simp add: rejected_row_def)
qed

subsection \<open>Properties\<close>

text \<open>
  C1. The projection refines the event history. After any sequence of transactions, each of any
  number of run mutations, started on tables without runs, the row of every run is exactly what
  folding its retained events in pages yields.
\<close>

theorem run_projection_refines_history:
  assumes "list_all (list_all (command_ok env)) batches" and "currents db0 = Map.empty" and "events db0 = []"
    and "db = fold (transaction env) batches db0" and "currents db run = Some row"
  shows "foldRunEvents (run_history db run) = Inr (currentSnapshot row)"
proof -
  have "consistent db" using transactions_consistent [OF assms(1) empty_consistent [OF assms(2,3)]] assms(4) by simp
  then show ?thesis using consistent_row(1) [OF _ assms(5)] replay_fold by blast
qed

theorem run_projection_refines_history_witness:
  "case foldRunEvents (run_history sample_db ''r'') of Inl _ \<Rightarrow> False | Inr cur \<Rightarrow> jget cur ''state'' = JStr ''awaiting_approval''"
proof -
  have "sample_row ''state'' = JStr ''awaiting_approval''" by code_simp
  then show ?thesis
    using run_projection_refines_history [OF sample_ok(1) sample_start sample_db_def sample_current] by simp
qed

text \<open>
  C36. Every reachable row passes the integrity check that all later transactions start with, and is
  well formed: its count of completed stages is the one its state prescribes, a candidate is present
  only once reconciliation has ended, and an approval only once publication has started.
\<close>

theorem reachable_rows_verified:
  assumes "list_all (list_all (command_ok env)) batches" and "currents db0 = Map.empty" and "events db0 = []"
    and "db = fold (transaction env) batches db0" and "currents db run = Some row"
  shows "verifiedRunCurrent db run row \<and>
    (\<exists>s n. row ''state'' = JStr (state_name s) \<and> row ''completed_stage_count'' = JNum n \<and> validCompletedStageCount s n \<and>
       (s \<in> {Planning, Collecting, Paused, Parsing, Reconciling} \<longrightarrow> row ''candidate_digest'' = JNull \<and> row ''approval_deadline'' = JNull) \<and>
       (s \<in> {Planning, Collecting, Paused, Parsing, Reconciling, AwaitingApproval} \<longrightarrow> row ''approved_at'' = JNull))"
proof -
  have c: "consistent db" using transactions_consistent [OF assms(1) empty_consistent [OF assms(2,3)]] assms(4) by simp
  obtain s n where s: "row ''state'' = JStr (state_name s)" "row ''completed_stage_count'' = JNum n" "validCompletedStageCount s n" "phase_ok s row"
    using consistent_row(2) [OF c assms(5)] by (auto simp: row_ok_def)
  have "s \<in> {Planning, Collecting, Paused, Parsing, Reconciling} \<longrightarrow> row ''candidate_digest'' = JNull \<and> row ''approval_deadline'' = JNull"
    "s \<in> {Planning, Collecting, Paused, Parsing, Reconciling, AwaitingApproval} \<longrightarrow> row ''approved_at'' = JNull"
    using s(4) by (auto simp: phase_ok_def early_states_def immutable_columns_def approved_columns_def)
  then show ?thesis using s consistent_verified [OF c assms(5)] by blast
qed

theorem reachable_rows_verified_witness: "verifiedRunCurrent sample_db ''r'' sample_row"
  using reachable_rows_verified [OF sample_ok(1) sample_start sample_db_def sample_current] by blast



text \<open>
  C9. Rebuilding restores the projection. Take any reachable tables, let the rows of
  \<open>ingestion_run_current\<close> and the selected games be damaged or lost, and let the history be folded
  before further events were appended: if the rebuild of a run returns, it has restored its row and
  its games exactly, and touched neither the events nor any other run.
\<close>

theorem rebuild_restores_projection:
  assumes "list_all (list_all (command_ok env)) batches" and "currents db0 = Map.empty" and "events db0 = []"
    and "db = fold (transaction env) batches db0" and "currents db run = Some row"
    and "events damaged = events db" and "events db = events seen @ appended"
    and "rebuildRunProjection env run m seen damaged = Inr (cur, db')"
  shows "cur = currentSnapshot row \<and> (\<exists>row'. currents db' run = Some row' \<and> currentSnapshot row' = currentSnapshot row) \<and>
    games db' run = games db run \<and> events db' = events db \<and> (\<forall>other. other \<noteq> run \<longrightarrow> currents db' other = currents damaged other)"
proof -
  have c: "consistent db" using transactions_consistent [OF assms(1) empty_consistent [OF assms(2,3)]] assms(4) by simp
  note r = consistent_row [OF c assms(5)]
  have h: "run_history db run = run_history seen run @ run_history (seen\<lparr>events := appended\<rparr>) run" "run_history damaged run = run_history db run"
    using assms(6,7) by (simp_all add: run_history_def)
  obtain prev where prev: "replay (run_history seen run) = Inr prev" using replay_prefix r(1) [unfolded h(1)] by blast
  from assms(8) have f: "foldRunEvents (run_history seen run) = Inr cur"
    and b: "atomicBatch (store env) None (rebuild_statements run m cur) damaged = Inr db'"
    by (auto simp: rebuildRunProjection_def rebuild_statements_def rbind_eq_Inr)
  obtain cur' where prev': "prev = Some cur'" using f prev foldRunEvents_Nil by (cases prev) (auto simp: replay_None)
  with f prev have cur: "replay (run_history seen run) = Inr (Some cur)" using replay_fold by auto
  note rb = rebuild_batch [OF b, unfolded h(2)]
  from rb obtain n where n: "jget cur ''last_event_sequence'' = JNum n" "\<forall>e'\<in>set (run_history db run). ev_sequence e' \<le> n" by auto
  have "n = int (length (run_history seen run))" using replay_history [OF cur] n(1) by simp
  moreover have "int (length (run_history db run)) \<in> set (map ev_sequence (run_history db run))"
  proof -
    have "run_history db run \<noteq> []" using r(1) by (auto simp: replay_Nil)
    then show ?thesis unfolding replay_sequences [OF r(1)] by (auto simp: Suc_le_eq)
  qed
  ultimately have "length (run_history db run) \<le> length (run_history seen run)" using n(2) by auto
  then have same: "run_history db run = run_history seen run" using h(1) by simp
  then have eq: "cur = currentSnapshot row" using cur r(1) by simp
  let ?row = "\<lambda>column. if column \<in> set runCurrentColumns then jget cur column else JNull"
  have "currentSnapshot ?row = currentSnapshot row"
    unfolding eq currentSnapshot_def by (rule map_cong) (auto simp: jget_snapshot [unfolded currentSnapshot_def])
  moreover have "currents db' run = Some ?row" "events db' = events db" "games db' run = games db run"
    "\<forall>other. other \<noteq> run \<longrightarrow> currents db' other = currents damaged other"
    using rb assms(6) first_games [OF r(1,3)] by (simp_all add: core_def)
  ultimately show ?thesis using eq by blast
qed

definition sample_damaged :: run_db where
  "sample_damaged = sample_db\<lparr>currents := Map.empty, games := (\<lambda>_. [''pokemon''])\<rparr>"

theorem rebuild_restores_projection_witness:
  "case rebuildRunProjection sample_env ''r'' \<lparr>mt_owner = ''owner'', mt_observed = ''T''\<rparr> sample_damaged sample_damaged of
     Inl _ \<Rightarrow> False | Inr (cur, db') \<Rightarrow> games db' ''r'' = [''magic''] \<and> cur = currentSnapshot sample_row"
proof (cases "rebuildRunProjection sample_env ''r'' \<lparr>mt_owner = ''owner'', mt_observed = ''T''\<rparr> sample_damaged sample_damaged")
  case (Inl e)
  have "case rebuildRunProjection sample_env ''r'' \<lparr>mt_owner = ''owner'', mt_observed = ''T''\<rparr> sample_damaged sample_damaged of
    Inl _ \<Rightarrow> False | Inr _ \<Rightarrow> True" by code_simp
  then show ?thesis using Inl by simp
next
  case (Inr r)
  obtain cur db' where r: "r = (cur, db')" by force
  have "events sample_damaged = events sample_db" "events sample_db = events sample_damaged @ []" by (simp_all add: sample_damaged_def)
  note t = rebuild_restores_projection [OF sample_ok(1) sample_start sample_db_def sample_current this Inr [unfolded r]]
  have "games sample_db ''r'' = [''magic'']" by code_simp
  then show ?thesis using t Inr r by simp
qed

end
