(* ===== verification/Acquisition_Budget.thy ===== *)
theory Acquisition_Budget
  imports Acquisition_Legacy Run_Commands
begin

text \<open>
  The operations on an acquisition budget: \<open>src/src/catalogue/source-evidence/acquisition-budget.ts\<close>.

  Between two awaits of a handler other handlers run: \<open>others n\<close> is what they do to the tables before
  its \<open>n\<close>-th access. Instants are arguments: \<open>now\<close> in milliseconds where the code reads \<open>Date.now\<close>, and
  the instant SQLite reads. Object identities are arguments too.
\<close>

subsection \<open>Requests\<close>

text \<open>A budget as it arrives: its three properties may hold anything.\<close>

record raw_budget =
  rb_dispatches :: json
  rb_bytes :: json
  rb_deadline :: json

definition minimalDispatchBytes :: int where
  "minimalDispatchBytes = 1"

definition positive_safe :: "json \<Rightarrow> bool" where
  "positive_safe v = (case v of JNum n \<Rightarrow> is_safe_integer n \<and> 1 \<le> n | _ \<Rightarrow> False)"

definition deadline_of :: "acq_env \<Rightarrow> json \<Rightarrow> int option" where
  "deadline_of env v = (case v of JStr s \<Rightarrow> date_parse env s | _ \<Rightarrow> None)"

text \<open>\<open>None\<close> is an absent budget; \<open>now\<close> is given when the deadline must lie in the future.\<close>

definition validateAcquisitionBudget :: "acq_env \<Rightarrow> int option \<Rightarrow> raw_budget option \<Rightarrow> acq_error + AcquisitionBudget" where
  "validateAcquisitionBudget env now value = (case value of
       None \<Rightarrow> Inl (Problem 422 ''acquisition_budget_invalid'')
     | Some b \<Rightarrow> (case deadline_of env (rb_deadline b) of
           None \<Rightarrow> Inl (Problem 422 ''acquisition_budget_invalid'')
         | Some t \<Rightarrow>
             if positive_safe (rb_dispatches b) \<and> positive_safe (rb_bytes b) \<and> (case now of None \<Rightarrow> True | Some n \<Rightarrow> n < t)
             then Inr \<lparr>max_dispatches = num_of (rb_dispatches b), max_source_bytes = num_of (rb_bytes b), dispatch_deadline = iso_string env t\<rparr>
             else Inl (Problem 422 ''acquisition_budget_invalid'')))"

definition raw_of :: "AcquisitionBudget \<Rightarrow> raw_budget" where
  "raw_of b = \<lparr>rb_dispatches = JNum (max_dispatches b), rb_bytes = JNum (max_source_bytes b), rb_deadline = JStr (dispatch_deadline b)\<rparr>"

definition budget_json :: "AcquisitionBudget \<Rightarrow> json" where
  "budget_json b = JObj [(''max_dispatches'', JNum (max_dispatches b)), (''max_source_bytes'', JNum (max_source_bytes b)),
     (''dispatch_deadline'', JStr (dispatch_deadline b))]"

subsection \<open>A new collection\<close>

definition initialAcquisitionStatements ::
  "acq_env \<Rightarrow> string \<Rightarrow> string \<Rightarrow> AcquisitionBudget \<Rightarrow> string \<Rightarrow> acq_db sql statement list" where
  "initialAcquisitionStatements env run key budget at =
     [Plain (initialAcquisitionAccount run at False 0),
      Plain (insertAcquisitionPolicy \<lparr>po_run = run, po_generation = 1, po_budget = budget, po_created = at, po_key = key,
        po_digest = digest_of env (budget_json budget), po_response = JObj []\<rparr>)]"

definition verifyInitialAcquisitionIntent :: "acq_env \<Rightarrow> string \<Rightarrow> AcquisitionBudget \<Rightarrow> acq_db \<Rightarrow> acq_error + unit" where
  "verifyInitialAcquisitionIntent env key budget db = (case acquisitionPolicyByKey db key of
       None \<Rightarrow> Inl (Problem 409 ''idempotency_key_reused'')
     | Some p \<Rightarrow> if po_digest p \<noteq> digest_of env (budget_json budget) then Inl (Problem 409 ''idempotency_key_reused'') else Inr ())"

subsection \<open>Admission\<close>

text \<open>A deadline that does not parse is NaN, and no comparison with it is true.\<close>

definition limitingDimension :: "acq_env \<Rightarrow> int \<Rightarrow> AcquisitionAccount option \<Rightarrow> int \<Rightarrow> AcquisitionDimension option" where
  "limitingDimension env now account bytes = (case account of
       None \<Rightarrow> Some Policy_missing
     | Some a \<Rightarrow>
         if (case date_parse env (dispatch_deadline (aa_budget a)) of None \<Rightarrow> False | Some t \<Rightarrow> t \<le> now) then Some Deadline
         else if charged_dispatches (aa_account a) \<ge> max_dispatches (aa_budget a) then Some Dispatches
         else if bytes > max_source_bytes (aa_budget a) - charged_source_bytes (aa_account a) - reserved_source_bytes (aa_account a)
         then Some Source_bytes
         else None)"

text \<open>The transaction of a pause, on the tables as they then are.\<close>

definition record_pause :: "acq_env \<Rightarrow> string \<Rightarrow> string \<Rightarrow> pause_input \<Rightarrow> acq_db \<Rightarrow> acq_error + acq_db" where
  "record_pause env eventId at input db =
     rbind (map_error Building (acquisitionPauseStatements env eventId at input)) (\<lambda>statements.
     map_error Storage (atomicBatch (store env) None statements db))"

text \<open>A failed handler leaves the tables as the failing access found them.\<close>

definition or_unchanged :: "acq_db \<Rightarrow> acq_error + acq_db \<Rightarrow> 'a \<Rightarrow> (acq_error + 'a) \<times> acq_db" where
  "or_unchanged db result value = (case result of Inl e \<Rightarrow> (Inl e, db) | Inr db' \<Rightarrow> (Inr value, db'))"

definition requireAcquisitionPolicy ::
  "acq_env \<Rightarrow> (nat \<Rightarrow> acq_db \<Rightarrow> acq_db) \<Rightarrow> string \<Rightarrow> string \<Rightarrow> string \<Rightarrow> string \<Rightarrow> acq_db \<Rightarrow> (acq_error + bool) \<times> acq_db" where
  "requireAcquisitionPolicy env others eventId at run request db =
     (if acquisitionAccount db run \<noteq> None then (Inr True, db)
      else let db1 = others 1 db
           in or_unchanged db1 (record_pause env eventId at \<lparr>pi_run = run, pi_request = request, pi_generation = None, pi_maximum = 1,
                pi_dimension = Policy_missing, pi_workflow = None\<rparr> db1) False)"

text \<open>The instants of one admission: \<open>at\<close> and \<open>later\<close> by the caller's clock, \<open>sqlNow\<close> by SQLite's.\<close>

record admission =
  ad_token :: string
  ad_event :: string
  ad_at :: string
  ad_paused_at :: string
  ad_sqlNow :: int
  ad_later :: int

definition reserve_transaction :: "acq_env \<Rightarrow> admission \<Rightarrow> dispatch_input \<Rightarrow> acq_db \<Rightarrow> batch_error + acq_db" where
  "reserve_transaction env ad input db =
     atomicBatch (store env) None [reserveSourceDispatch env (ad_token ad) (ad_at ad) (ad_sqlNow ad) input] db"

text \<open>\<open>meta.changes\<close> of the primary: whether it inserted its row.\<close>

definition reserved_changes :: "acq_db \<Rightarrow> acq_db \<Rightarrow> bool" where
  "reserved_changes before after \<longleftrightarrow> length (reservations before) < length (reservations after)"

definition reserveAcquisitionDispatch ::
  "acq_env \<Rightarrow> (nat \<Rightarrow> acq_db \<Rightarrow> acq_db) \<Rightarrow> admission \<Rightarrow> dispatch_input \<Rightarrow> acq_db \<Rightarrow> (acq_error + string option) \<times> acq_db" where
  "reserveAcquisitionDispatch env others ad input db = (case reserve_transaction env ad input db of
       Inl e \<Rightarrow> (Inl (Storage e), db)
     | Inr db' \<Rightarrow>
         if reserved_changes db db' then (Inr (Some (ad_token ad)), db')
         else
           let db1 = others 1 db'; account = acquisitionAccount db1 (di_run input);
               db2 = others 2 db1; previous = captureDispatch db2 (di_capture input);
               db3 = others 3 db2; writer = unsettledRawWriter db3 (di_run input) (Some (di_object input));
               dimension = (if (case previous of None \<Rightarrow> False | Some r \<Rightarrow> unsettled r) \<or> writer \<noteq> None then Some Ownership
                 else limitingDimension env (ad_later ad) account (di_maximum input))
           in case dimension of
                None \<Rightarrow> (Inr None, db3)
              | Some d \<Rightarrow>
                  let db4 = others 4 db3
                  in or_unchanged db4 (record_pause env (ad_event ad) (ad_paused_at ad) \<lparr>pi_run = di_run input, pi_request = di_request input,
                       pi_generation = map_option aa_generation account, pi_maximum = di_maximum input, pi_dimension = d,
                       pi_workflow = di_workflow input\<rparr> db4) None)"

definition settleAcquisitionDispatch :: "acq_env \<Rightarrow> string \<Rightarrow> string \<Rightarrow> string \<Rightarrow> int \<Rightarrow> acq_db \<Rightarrow> batch_error + acq_db" where
  "settleAcquisitionDispatch env at token capture bytes db =
     atomicBatch (store env) None [settleSourceDispatch env token capture bytes at] db"

definition pauseAcquisitionOwnership ::
  "acq_env \<Rightarrow> (nat \<Rightarrow> acq_db \<Rightarrow> acq_db) \<Rightarrow> string \<Rightarrow> string \<Rightarrow> string \<Rightarrow> string \<Rightarrow> string \<Rightarrow> CollectionWorkflowAttempt option \<Rightarrow>
     acq_db \<Rightarrow> (acq_error + unit) \<times> acq_db" where
  "pauseAcquisitionOwnership env others eventId at run request capture workflow db =
     (let account = acquisitionAccount db run; db1 = others 1 db; dispatch = captureDispatch db1 capture; db2 = others 2 db1
      in or_unchanged db2 (record_pause env eventId at \<lparr>pi_run = run, pi_request = request, pi_generation = map_option aa_generation account,
           pi_maximum = (case dispatch of None \<Rightarrow> minimalDispatchBytes | Some r \<Rightarrow> dr_maximum r),
           pi_dimension = (if account = None then Policy_missing else Ownership), pi_workflow = workflow\<rparr> db2) ())"

subsection \<open>Inspection and resumption\<close>

record acquisition_view =
  av_generation :: int
  av_coverage_started_at :: string
  av_historical_dispatches_unknown :: bool
  av_baseline_source_bytes :: int
  av_budget :: AcquisitionBudget
  av_charged_dispatches :: int
  av_charged_source_bytes :: int
  av_reserved_source_bytes :: int
  av_remaining_dispatches :: int
  av_remaining_source_bytes :: int
  av_limiting_dimension :: "AcquisitionDimension option"
  av_unsettled :: "DispatchReservation list"
  av_unsettled_truncated :: bool

definition pause_bytes :: "AcquisitionPause option \<Rightarrow> int" where
  "pause_bytes pause = (case pause of None \<Rightarrow> minimalDispatchBytes | Some p \<Rightarrow> ap_maximum p)"

definition is_paused :: "AcquisitionAccount \<Rightarrow> bool" where
  "is_paused account \<longleftrightarrow> aa_state account = JStr (state_name Paused)"

text \<open>\<open>view n\<close> are the tables as the \<open>n\<close>-th read sees them.\<close>

definition inspectAcquisitionBudget :: "acq_env \<Rightarrow> int \<Rightarrow> string \<Rightarrow> (nat \<Rightarrow> acq_db) \<Rightarrow> acquisition_view option" where
  "inspectAcquisitionBudget env now run view = (case acquisitionAccount (view 0) run of
       None \<Rightarrow> None
     | Some account \<Rightarrow>
         let outstanding = unsettledDispatches (view 1) run;
             pause = (if is_paused account then acquisitionPause (view 2) run else None);
             ownershipPending = is_paused account \<and> (outstanding \<noteq> [] \<or> unsettledRawWriter (view 3) run None \<noteq> None \<or>
               unresolvedCaptureResponse (view 4) run \<noteq> None);
             a = aa_account account; b = aa_budget account
         in Some \<lparr>av_generation = aa_generation account, av_coverage_started_at = coverage_started_at a,
              av_historical_dispatches_unknown = historical_dispatches_unknown a, av_baseline_source_bytes = baseline_source_bytes a,
              av_budget = b, av_charged_dispatches = charged_dispatches a, av_charged_source_bytes = charged_source_bytes a,
              av_reserved_source_bytes = reserved_source_bytes a, av_remaining_dispatches = max 0 (max_dispatches b - charged_dispatches a),
              av_remaining_source_bytes = max 0 (max_source_bytes b - charged_source_bytes a - reserved_source_bytes a),
              av_limiting_dimension = (if ownershipPending then Some Ownership else limitingDimension env now (Some account) (pause_bytes pause)),
              av_unsettled = take acquisitionUnsettledPageSize outstanding,
              av_unsettled_truncated = (length outstanding > acquisitionUnsettledPageSize)\<rparr>)"

definition dimension_name :: "AcquisitionDimension \<Rightarrow> string" where
  "dimension_name d = (case d of Dispatches \<Rightarrow> ''dispatches'' | Source_bytes \<Rightarrow> ''source_bytes'' | Deadline \<Rightarrow> ''deadline''
     | Policy_missing \<Rightarrow> ''policy_missing'' | Ownership \<Rightarrow> ''ownership'')"

definition currentAcquisitionPause :: "string \<Rightarrow> acq_db \<Rightarrow> json option" where
  "currentAcquisitionPause run db = map_option (\<lambda>p. JObj
     [(''reason'', JStr ''source_acquisition_budget_exhausted''), (''paused_at'', JStr (ap_paused_at p)),
      (''document'', JObj [(''reason'', JStr ''source_acquisition_budget_exhausted''), (''paused_at'', JStr (ap_paused_at p)),
        (''generation'', case ap_generation p of None \<Rightarrow> JNull | Some g \<Rightarrow> JNum g), (''request_id'', JStr (ap_request p)),
        (''maximum_source_bytes'', JNum (ap_maximum p)), (''dimension'', JStr (dimension_name (ap_dimension p)))])]) (acquisitionPause db run)"

definition assertAcquisitionResumable :: "acq_env \<Rightarrow> int \<Rightarrow> string \<Rightarrow> (nat \<Rightarrow> acq_db) \<Rightarrow> acq_error + unit" where
  "assertAcquisitionResumable env now run view =
     (let account = acquisitionAccount (view 0) run; pause = acquisitionPause (view 1) run
      in if unsettledRunDispatch (view 2) run \<noteq> None \<or> unsettledRawWriter (view 3) run None \<noteq> None \<or>
            unresolvedCaptureResponse (view 4) run \<noteq> None
         then Inl (Problem 409 ''source_acquisition_ownership_pending'')
         else if limitingDimension env now account (pause_bytes pause) \<noteq> None
         then Inl (Problem 409 ''source_acquisition_budget_exhausted'')
         else Inr ())"

subsection \<open>Extension\<close>

definition identifier_start :: "char \<Rightarrow> bool" where
  "identifier_start c \<longleftrightarrow> (let n = (of_char c :: nat) in 48 \<le> n \<and> n \<le> 57 \<or> 65 \<le> n \<and> n \<le> 90 \<or> 97 \<le> n \<and> n \<le> 122)"

definition assertIdentifier :: "string \<Rightarrow> acq_error + unit" where
  "assertIdentifier value = (case value of
       [] \<Rightarrow> Inl (Problem 422 ''invalid_parameter'')
     | c # cs \<Rightarrow> if length value \<le> 200 \<and> identifier_start c \<and> list_all (\<lambda>d. identifier_start d \<or> d \<in> set ''._:@-'') cs then Inr ()
         else Inl (Problem 422 ''invalid_parameter''))"

record AcquisitionExtensionRequest =
  ex_expected_generation :: int
  ex_expected_budget :: "raw_budget option"      \<comment> \<open>\<open>None\<close> for null\<close>
  ex_acquisition_budget :: "raw_budget option"
  ex_idempotency_key :: string

datatype retained_response = Nothing_yet | Conflict | Replay json

definition retainedAcquisitionResponse :: "string \<Rightarrow> string \<Rightarrow> acq_db \<Rightarrow> retained_response" where
  "retainedAcquisitionResponse key digest db = (case acquisitionPolicyByKey db key of
       None \<Rightarrow> Nothing_yet
     | Some p \<Rightarrow> if po_digest p \<noteq> digest then Conflict else Replay (po_response p))"

definition optional_budget :: "AcquisitionBudget option \<Rightarrow> json" where
  "optional_budget b = (case b of None \<Rightarrow> JNull | Some b' \<Rightarrow> budget_json b')"

definition intent_json :: "string \<Rightarrow> AcquisitionExtensionRequest \<Rightarrow> AcquisitionBudget option \<Rightarrow> AcquisitionBudget \<Rightarrow> json" where
  "intent_json run input previous budget = JObj
     [(''runId'', JStr run), (''expected_generation'', JNum (ex_expected_generation input)), (''expected_budget'', optional_budget previous),
      (''acquisition_budget'', budget_json budget), (''idempotency_key'', JStr (ex_idempotency_key input))]"

definition extension_response :: "string \<Rightarrow> int \<Rightarrow> AcquisitionBudget option \<Rightarrow> AcquisitionBudget \<Rightarrow> string \<Rightarrow> json" where
  "extension_response run generation previous budget at = JObj
     [(''contract'', JStr ''card-keepr-acquisition-budget-extension@1''), (''ingestion_run_id'', JStr run),
      (''previous_generation'', JNum generation), (''generation'', JNum (generation + 1)), (''previous_budget'', optional_budget previous),
      (''acquisition_budget'', budget_json budget), (''extended_at'', JStr at)]"

definition extension_policy ::
  "string \<Rightarrow> int \<Rightarrow> AcquisitionBudget option \<Rightarrow> AcquisitionBudget \<Rightarrow> string \<Rightarrow> string \<Rightarrow> string \<Rightarrow> policy_row" where
  "extension_policy run generation previous budget at key digest = \<lparr>po_run = run, po_generation = generation + 1, po_budget = budget,
     po_created = at, po_key = key, po_digest = digest, po_response = extension_response run generation previous budget at\<rparr>"

definition initialization_batch :: "string \<Rightarrow> int \<Rightarrow> string \<Rightarrow> policy_row \<Rightarrow> acq_db sql statement list" where
  "initialization_batch run baseline event p =
     [Plain (runCurrentIntegrityGuard run False), Plain (acquisitionInitializationGuard run (Some event)),
      Plain (initialAcquisitionAccount run (po_created p) True baseline), Plain (insertAcquisitionPolicy p)]"

definition extension_batch :: "string \<Rightarrow> int \<Rightarrow> policy_row \<Rightarrow> acq_db sql statement list" where
  "extension_batch run generation p =
     [Plain (runCurrentIntegrityGuard run False), Plain (acquisitionExtensionGuard run generation), Plain (insertAcquisitionPolicy p)]"

text \<open>
  Committing, and the treatment of a batch that fails: a concurrent call with the same key and intent
  may have committed, a guard that refused is reported under its code, anything else is rethrown.
\<close>

definition commit_policy ::
  "acq_env \<Rightarrow> (acq_db \<Rightarrow> acq_db) \<Rightarrow> string \<Rightarrow> acq_db sql statement list \<Rightarrow> policy_row \<Rightarrow> acq_db \<Rightarrow> (acq_error + json) \<times> acq_db" where
  "commit_policy env others code statements p db = (case atomicBatch (store env) None statements db of
       Inr db' \<Rightarrow> (Inr (po_response p), db')
     | Inl e \<Rightarrow>
         let db1 = others db
         in case retainedAcquisitionResponse (po_key p) (po_digest p) db1 of
              Replay response \<Rightarrow> (Inr response, db1)
            | _ \<Rightarrow> (Inl (if e = Aborted (Raised code) then Problem 409 code else Storage e), db1))"

definition mismatch :: "AcquisitionExtensionRequest \<Rightarrow> AcquisitionBudget option \<Rightarrow> AcquisitionAccount option \<Rightarrow> bool" where
  "mismatch input previous account = (case (account, previous) of
       (Some a, Some p) \<Rightarrow> aa_generation a \<noteq> ex_expected_generation input \<or> max_dispatches p \<noteq> max_dispatches (aa_budget a) \<or>
         max_source_bytes p \<noteq> max_source_bytes (aa_budget a) \<or> dispatch_deadline p \<noteq> dispatch_deadline (aa_budget a)
     | _ \<Rightarrow> True)"

text \<open>Equal canonical texts are equal budgets.\<close>

definition not_increased :: "AcquisitionBudget \<Rightarrow> AcquisitionBudget \<Rightarrow> bool" where
  "not_increased budget previous \<longleftrightarrow> max_dispatches budget < max_dispatches previous \<or> max_source_bytes budget < max_source_bytes previous \<or>
     dispatch_deadline budget < dispatch_deadline previous \<or> budget = previous"

definition initialize_legacy ::
  "acq_env \<Rightarrow> (nat \<Rightarrow> acq_db \<Rightarrow> acq_db) \<Rightarrow> int \<Rightarrow> string \<Rightarrow> string \<Rightarrow> string \<Rightarrow> AcquisitionBudget \<Rightarrow> LegacyAcquisitionContext \<Rightarrow>
     acq_db \<Rightarrow> (acq_error + json) \<times> acq_db" where
  "initialize_legacy env others now run key digest budget legacy db2 =
     (case validateAcquisitionBudget env (Some now) (Some (raw_of budget)) of
        Inl e \<Rightarrow> (Inl e, db2)
      | Inr _ \<Rightarrow> (case verifyLegacyAcquisition legacy run db2 of
            Inl e \<Rightarrow> (Inl e, db2)
          | Inr (baseline, event) \<Rightarrow>
              if baseline > max_source_bytes budget then (Inl (Problem 422 ''acquisition_budget_below_baseline''), db2)
              else let p = extension_policy run 0 None budget (iso_string env now) key digest
                   in commit_policy env (others 4) ''acquisition_initialization_not_quiescent'' (initialization_batch run baseline event p) p
                        (others 3 db2)))"

definition extendAcquisitionBudget ::
  "acq_env \<Rightarrow> (nat \<Rightarrow> acq_db \<Rightarrow> acq_db) \<Rightarrow> int \<Rightarrow> string \<Rightarrow> AcquisitionExtensionRequest \<Rightarrow> LegacyAcquisitionContext \<Rightarrow> acq_db \<Rightarrow>
     (acq_error + json) \<times> acq_db" where
  "extendAcquisitionBudget env others now run input legacy db =
     (case rbind (assertIdentifier (ex_idempotency_key input)) (\<lambda>_.
           rbind (validateAcquisitionBudget env None (ex_acquisition_budget input)) (\<lambda>budget.
           rbind (case ex_expected_budget input of None \<Rightarrow> Inr None
             | Some b \<Rightarrow> rbind (validateAcquisitionBudget env None (Some b)) (\<lambda>p. Inr (Some p))) (\<lambda>previous.
           Inr (budget, previous)))) of
        Inl e \<Rightarrow> (Inl e, db)
      | Inr (budget, previous) \<Rightarrow>
          let key = ex_idempotency_key input; digest = digest_of env (intent_json run input previous budget)
          in case retainedAcquisitionResponse key digest db of
               Conflict \<Rightarrow> (Inl (Problem 409 ''idempotency_conflict''), db)
             | Replay response \<Rightarrow> (Inr response, db)
             | Nothing_yet \<Rightarrow>
                 let db1 = others 1 db; account = acquisitionAccount db1 run
                 in if account = None \<and> ex_expected_generation input = 0 \<and> previous = None
                    then initialize_legacy env others now run key digest budget legacy (others 2 db1)
                    else case (account, previous) of
                        (Some a, Some prev) \<Rightarrow>
                          if mismatch input previous account then (Inl (Problem 409 ''acquisition_budget_mismatch''), db1)
                          else if not_increased budget prev then (Inl (Problem 422 ''acquisition_budget_not_increased''), db1)
                          else (case validateAcquisitionBudget env (Some now) (Some (raw_of budget)) of
                              Inl e \<Rightarrow> (Inl e, db1)
                            | Inr _ \<Rightarrow>
                                let p = extension_policy run (aa_generation a) (Some prev) budget (iso_string env now) key digest
                                in commit_policy env (others 4) ''acquisition_extension_conflict'' (extension_batch run (aa_generation a) p) p
                                     (others 3 db1))
                      | _ \<Rightarrow> (Inl (Problem 409 ''acquisition_budget_mismatch''), db1))"

end
