(* ===== verification/Acquisition_Ledger.thy ===== *)
theory Acquisition_Ledger
  imports Acquisition_Budget
begin

text \<open>
  What the acquisition budget guarantees. The ledger of a run is its account, its policies and its
  reservations; \<open>ledger\<close> says that the account is the exact sum of the reservations and within the
  policy in force. \<open>acq_step\<close> are the transactions that may change a ledger, in any order and
  interleaving, with \<open>Other\<close> for whatever the rest of the program does to other tables.
\<close>

subsection \<open>The ledger\<close>

definition run_reservations :: "acq_db \<Rightarrow> string \<Rightarrow> DispatchReservation list" where
  "run_reservations db run = filter (\<lambda>r. dr_run r = run) (reservations db)"

definition spent :: "DispatchReservation \<Rightarrow> int" where
  "spent r = (case dr_settled r of None \<Rightarrow> 0 | Some (t, n) \<Rightarrow> n)"

definition held :: "DispatchReservation \<Rightarrow> int" where
  "held r = (case dr_settled r of None \<Rightarrow> dr_maximum r | Some _ \<Rightarrow> 0)"

definition budget_le :: "AcquisitionBudget \<Rightarrow> AcquisitionBudget \<Rightarrow> bool" where
  "budget_le b c \<longleftrightarrow> max_dispatches b \<le> max_dispatches c \<and> max_source_bytes b \<le> max_source_bytes c \<and> dispatch_deadline b \<le> dispatch_deadline c"

definition policies_ok :: "policy_row list \<Rightarrow> bool" where
  "policies_ok ps \<longleftrightarrow> map po_generation ps = map int [1..<length ps + 1] \<and> sorted_wrt budget_le (map po_budget ps)"

definition account_ok :: "account_row \<Rightarrow> DispatchReservation list \<Rightarrow> AcquisitionBudget \<Rightarrow> bool" where
  "account_ok a rs b \<longleftrightarrow> charged_dispatches a = int (length rs) \<and> reserved_source_bytes a = (\<Sum>r\<leftarrow>rs. held r) \<and>
     charged_source_bytes a = baseline_source_bytes a + (\<Sum>r\<leftarrow>rs. spent r) \<and> 0 \<le> baseline_source_bytes a \<and>
     charged_dispatches a \<le> max_dispatches b \<and> charged_source_bytes a + reserved_source_bytes a \<le> max_source_bytes b"

definition run_ledger :: "acq_db \<Rightarrow> string \<Rightarrow> bool" where
  "run_ledger db run \<longleftrightarrow> (case accounts db run of
       None \<Rightarrow> run_reservations db run = [] \<and> run_policies db run = []
     | Some a \<Rightarrow> run_policies db run \<noteq> [] \<and> policies_ok (run_policies db run) \<and>
         account_ok a (run_reservations db run) (po_budget (last (run_policies db run))))"

definition reservation_ok :: "DispatchReservation \<Rightarrow> bool" where
  "reservation_ok r \<longleftrightarrow> 0 < dr_maximum r \<and> (case dr_settled r of None \<Rightarrow> True | Some (t, n) \<Rightarrow> 0 \<le> n \<and> n \<le> dr_maximum r)"

definition ledger :: "acq_db \<Rightarrow> bool" where
  "ledger db \<longleftrightarrow> (\<forall>run. run_ledger db run) \<and> distinct (map dr_id (reservations db)) \<and> list_all reservation_ok (reservations db) \<and>
     distinct (map dr_capture (filter unsettled (reservations db)))"

definition ledger_tables :: "acq_db \<Rightarrow> (string \<rightharpoonup> account_row) \<times> policy_row list \<times> DispatchReservation list" where
  "ledger_tables db = (accounts db, policies db, reservations db)"

lemma ledger_cong: "ledger_tables db' = ledger_tables db \<Longrightarrow> ledger db' = ledger db"
  by (simp add: ledger_tables_def ledger_def run_ledger_def run_reservations_def run_policies_def cong: option.case_cong)

lemma run_ledger_cong:
  "accounts db' run = accounts db run \<Longrightarrow> run_reservations db' run = run_reservations db run \<Longrightarrow> run_policies db' run = run_policies db run \<Longrightarrow>
   run_ledger db' run = run_ledger db run"
  by (simp add: run_ledger_def cong: option.case_cong)

lemma fold_latest:
  "sorted_wrt (<) (map po_generation (p # ps)) \<Longrightarrow> fold (\<lambda>p best. case best of
       None \<Rightarrow> Some p | Some b \<Rightarrow> if po_generation b < po_generation p then Some p else Some b) ps (Some p) = Some (last (p # ps))"
  by (induction ps arbitrary: p) auto

lemma latest_policy_last:
  assumes "policies_ok (run_policies db run)"
  shows "latest_policy db run = (if run_policies db run = [] then None else Some (last (run_policies db run)))"
proof (cases "run_policies db run")
  case (Cons p ps)
  have "sorted_wrt (<) (map int [1..<length (p # ps) + 1])" by (simp add: sorted_wrt_map del: upt_Suc)
  then have "sorted_wrt (<) (map po_generation (p # ps))" using assms Cons unfolding policies_ok_def by simp
  from fold_latest [OF this] show ?thesis by (simp add: latest_policy_def Cons)
qed (simp add: latest_policy_def)

lemma last_generation:
  assumes "policies_ok ps" "ps \<noteq> []"
  shows "po_generation (last ps) = int (length ps)"
proof -
  have "po_generation (last ps) = last (map po_generation ps)" using assms(2) by (simp add: last_map)
  also have "\<dots> = int (length ps)" using assms unfolding policies_ok_def by (cases ps) (simp_all add: last_map)
  finally show ?thesis .
qed

lemma ledger_latest:
  assumes "ledger db"
  shows "latest_policy db run = (if accounts db run = None then None else Some (last (run_policies db run)))"
  using assms latest_policy_last [of db run]
  by (auto simp: ledger_def run_ledger_def policies_ok_def split: option.splits dest!: spec [of _ run])

subsection \<open>The effect of each transaction\<close>

lemma open_writer_tables: "open_writer token (db, c) = Inr (db', c') \<Longrightarrow> ledger_tables db' = ledger_tables db"
  by (auto simp: open_writer_def Let_def ledger_tables_def split: if_splits)

lemma close_writer_tables: "close_writer token capture at (db, c) = Inr (db', c') \<Longrightarrow> ledger_tables db' = ledger_tables db"
  by (auto simp: close_writer_def Let_def ledger_tables_def case_prod_unfold split: if_splits)

lemma reserve_stages:
  assumes "reserve_transaction env ad input db = Inr db'"
  shows "authorized db (di_run input) (di_workflow input)"
    "\<exists>db1 c1 db2 c2. insert_reservation env (ad_token ad) (ad_at ad) (ad_sqlNow ad) input (db, 0) = Inr (db1, c1) \<and>
       charge_dispatch (di_run input) (di_maximum input) (db1, c1) = Inr (db2, c2) \<and> ledger_tables db' = ledger_tables db2"
proof -
  have flat: "concat (map flatten [reserveSourceDispatch env (ad_token ad) (ad_at ad) (ad_sqlNow ad) input]) =
      [sourceParseAuthorityGuard (di_run input) Collection (di_workflow input),
       insert_reservation env (ad_token ad) (ad_at ad) (ad_sqlNow ad) input,
       charge_dispatch (di_run input) (di_maximum input), open_writer (ad_token ad)]"
    by (simp add: reserveSourceDispatch_def atomicRepositoryStatement_def)
  obtain c where "run_sql (concat (map flatten [reserveSourceDispatch env (ad_token ad) (ad_at ad) (ad_sqlNow ad) input])) (db, 0) = Inr (db', c)"
    using assms unfolding reserve_transaction_def
    by (subst (asm) atomicBatch_eq) (auto simp: reserveSourceDispatch_def atomicRepositoryStatement_def split: sum.splits)
  then obtain db1 c1 db2 c2 where 1: "authorized db (di_run input) (di_workflow input)"
      "insert_reservation env (ad_token ad) (ad_at ad) (ad_sqlNow ad) input (db, 0) = Inr (db1, c1)"
      "charge_dispatch (di_run input) (di_maximum input) (db1, c1) = Inr (db2, c2)" "open_writer (ad_token ad) (db2, c2) = Inr (db', c)"
    unfolding flat by (auto simp: rbind_eq_Inr sourceParseAuthorityGuard_def)
  show "authorized db (di_run input) (di_workflow input)" by (rule 1)
  show "\<exists>db1 c1 db2 c2. insert_reservation env (ad_token ad) (ad_at ad) (ad_sqlNow ad) input (db, 0) = Inr (db1, c1) \<and>
       charge_dispatch (di_run input) (di_maximum input) (db1, c1) = Inr (db2, c2) \<and> ledger_tables db' = ledger_tables db2"
    using 1 open_writer_tables by blast
qed

text \<open>An admitted dispatch is reserved and charged; a refused one changes no ledger.\<close>

definition admitted :: "acq_env \<Rightarrow> admission \<Rightarrow> dispatch_input \<Rightarrow> acq_db \<Rightarrow> policy_row \<Rightarrow> account_row \<Rightarrow> bool" where
  "admitted env ad input db p a \<longleftrightarrow> latest_policy db (di_run input) = Some p \<and> accounts db (di_run input) = Some a \<and>
     admissible env (ad_sqlNow ad) input db \<and> 0 < di_maximum input \<and> ad_token ad \<notin> dr_id ` set (reservations db)"

definition charged_tables :: "admission \<Rightarrow> dispatch_input \<Rightarrow> acq_db \<Rightarrow> policy_row \<Rightarrow> account_row \<Rightarrow>
    (string \<rightharpoonup> account_row) \<times> policy_row list \<times> DispatchReservation list" where
  "charged_tables ad input db p a = ((accounts db)(di_run input \<mapsto> a\<lparr>charged_dispatches := charged_dispatches a + 1,
       reserved_source_bytes := reserved_source_bytes a + di_maximum input\<rparr>), policies db,
     reservations db @ [new_reservation (ad_token ad) (ad_at ad) (po_generation p) input])"

lemma reserve_effect:
  assumes "reserve_transaction env ad input db = Inr db'"
  obtains "\<not> admissible env (ad_sqlNow ad) input db" "ledger_tables db' = ledger_tables db"
  | p a where "admitted env ad input db p a" "ledger_tables db' = charged_tables ad input db p a"
proof -
  obtain db1 c1 db2 c2 where 1: "insert_reservation env (ad_token ad) (ad_at ad) (ad_sqlNow ad) input (db, 0) = Inr (db1, c1)"
    and 2: "charge_dispatch (di_run input) (di_maximum input) (db1, c1) = Inr (db2, c2)" and t: "ledger_tables db' = ledger_tables db2"
    using reserve_stages(2) [OF assms] by blast
  show ?thesis
  proof (cases "admissible env (ad_sqlNow ad) input db")
    case False
    then have "db1 = db" "c1 = 0" using 1 by (auto simp: insert_reservation_def split: option.splits)
    then show ?thesis using False 2 t that(1) by (auto simp: charge_dispatch_def split: option.splits)
  next
    case True
    then obtain p a where pa: "latest_policy db (di_run input) = Some p" "accounts db (di_run input) = Some a"
      by (auto simp: admissible_def split: option.splits)
    then have d: "db1 = db\<lparr>reservations := reservations db @ [new_reservation (ad_token ad) (ad_at ad) (po_generation p) input]\<rparr>" "c1 = 1"
      "admitted env ad input db p a"
      using 1 True by (auto simp: insert_reservation_def admitted_def list_ex_iff split: if_splits)
    have "ledger_tables db' = charged_tables ad input db p a"
      using 2 t pa d by (auto simp: charge_dispatch_def charged_tables_def ledger_tables_def)
    then show ?thesis by (rule that(2) [OF d(3)])
  qed
qed

lemma reserve_ledger:
  assumes "reserve_transaction env ad input db = Inr db'" "ledger db"
  shows "ledger db'"
  using assms(1)
proof (cases rule: reserve_effect)
  case 1
  then show ?thesis using ledger_cong assms(2) by blast
next
  case (2 p a)
  let ?run = "di_run input" and ?r = "new_reservation (ad_token ad) (ad_at ad) (po_generation p) input"
  from 2(2) have t: "accounts db' = (accounts db)(?run \<mapsto> a\<lparr>charged_dispatches := charged_dispatches a + 1,
       reserved_source_bytes := reserved_source_bytes a + di_maximum input\<rparr>)" "policies db' = policies db" "reservations db' = reservations db @ [?r]"
    by (simp_all add: ledger_tables_def charged_tables_def)
  have r: "unsettled ?r" "dr_run ?r = ?run" "dr_id ?r = ad_token ad" "dr_capture ?r = di_capture input" "held ?r = di_maximum input" "spent ?r = 0"
    "reservation_ok ?r"
    using 2(1) by (simp_all add: new_reservation_def unsettled_def held_def spent_def reservation_ok_def admitted_def)
  have p: "p = last (run_policies db ?run)" using ledger_latest [OF assms(2), of ?run] 2(1) by (simp add: admitted_def split: if_splits)
  have w: "charged_dispatches a < max_dispatches (po_budget p)"
    "di_maximum input \<le> max_source_bytes (po_budget p) - charged_source_bytes a - reserved_source_bytes a"
    "\<forall>r\<in>set (reservations db). dr_capture r = di_capture input \<longrightarrow> \<not> unsettled r"
    using 2(1) by (auto simp: admitted_def admissible_def within_budget_def list_ex_iff)
  have "run_ledger db' run" for run
  proof (cases "run = ?run")
    case True
    have "run_ledger db ?run" using assms(2) by (simp add: ledger_def)
    then show ?thesis using True 2(1) w(1,2) r p
      by (simp add: run_ledger_def admitted_def t run_reservations_def run_policies_def account_ok_def)
  next
    case False
    have "run_ledger db' run = run_ledger db run"
      using False r(2) by (intro run_ledger_cong) (simp_all add: t run_reservations_def run_policies_def)
    then show ?thesis using assms(2) by (simp add: ledger_def)
  qed
  then show ?thesis using assms(2) 2(1) r w(3) by (auto simp: ledger_def t admitted_def)
qed

text \<open>A settlement charges what was used and releases what was held, for the one reservation it names.\<close>

definition settles :: "string \<Rightarrow> string \<Rightarrow> int \<Rightarrow> DispatchReservation \<Rightarrow> bool" where
  "settles token capture bytes r \<longleftrightarrow> dr_id r = token \<and> dr_capture r = capture \<and> unsettled r \<and> bytes \<le> dr_maximum r"

definition settled_account :: "int \<Rightarrow> DispatchReservation \<Rightarrow> account_row \<Rightarrow> account_row" where
  "settled_account bytes r a = a\<lparr>charged_source_bytes := charged_source_bytes a + bytes, reserved_source_bytes := reserved_source_bytes a - dr_maximum r\<rparr>"

definition settled_rows :: "string \<Rightarrow> string \<Rightarrow> int \<Rightarrow> string \<Rightarrow> DispatchReservation list \<Rightarrow> DispatchReservation list" where
  "settled_rows token capture bytes at rows = map (\<lambda>r. if settles token capture bytes r then r\<lparr>dr_settled := Some (at, bytes)\<rparr> else r) rows"

lemma settle_run:
  "settleAcquisitionDispatch env at token capture bytes db =
    (case run_sql [settle_reservation token capture bytes at, settle_account token bytes, close_writer token capture at] (db, 0) of
       Inl e \<Rightarrow> Inl (Aborted e) | Inr (db', c) \<Rightarrow> Inr db')"
  unfolding settleAcquisitionDispatch_def
  by (subst atomicBatch_eq) (simp_all add: settleSourceDispatch_def atomicRepositoryStatement_def)

lemma settle_reservation_eq:
  "settle_reservation token capture bytes at (db, c) =
     (if list_ex (settles token capture bytes) (reservations db) \<and> bytes < 0 then Inl (Raised ''CHECK constraint failed'')
      else Inr (db\<lparr>reservations := settled_rows token capture bytes at (reservations db)\<rparr>,
        int (length (filter (settles token capture bytes) (reservations db)))))"
  by (simp add: settle_reservation_def settles_def [abs_def] settled_rows_def update_rows_def Let_def)

lemma settled_rows_none: "\<not> list_ex (settles token capture bytes) rows \<Longrightarrow> settled_rows token capture bytes at rows = rows"
  by (auto simp: settled_rows_def list_ex_iff intro: map_idI)

lemma settle_unmatched:
  assumes "\<not> list_ex (settles token capture bytes) (reservations db)" "settleAcquisitionDispatch env at token capture bytes db = Inr db'"
  shows "ledger_tables db' = ledger_tables db"
proof -
  have n: "filter (settles token capture bytes) (reservations db) = []" using assms(1) by (simp add: list_ex_iff filter_empty_conv)
  have "\<exists>c d. close_writer token capture at (db, c) = Inr (db', d)"
    using assms(2) by (auto simp: settle_run settle_reservation_eq assms(1) settled_rows_none n settle_account_def rbind_eq_Inr
        split: option.splits sum.splits)
  then show ?thesis using close_writer_tables by blast
qed

lemma find_settled:
  assumes "distinct (map dr_id rows)" "r \<in> set rows" "settles token capture bytes r"
  shows "find (\<lambda>r. dr_id r = token) (settled_rows token capture bytes at rows) = Some (r\<lparr>dr_settled := Some (at, bytes)\<rparr>)"
    "filter (settles token capture bytes) rows = [r]"
  using assms
proof (induction rows)
  case (Cons q rows)
  {
    case 1
    show ?case
    proof (cases "q = r")
      case False
      then have "dr_id q \<noteq> token" using 1 by (auto simp: settles_def)
      then show ?thesis using 1 Cons False by (auto simp: settled_rows_def settles_def)
    qed (use 1 in \<open>auto simp: settled_rows_def settles_def\<close>)
  next
    case 2
    show ?case
    proof (cases "q = r")
      case True
      then have "\<forall>x\<in>set rows. dr_id x \<noteq> token" using 2 by (auto simp: settles_def image_iff)
      then have "filter (settles token capture bytes) rows = []" by (auto simp: filter_empty_conv settles_def)
      then show ?thesis using 2 True by simp
    next
      case False
      then have "\<not> settles token capture bytes q" using 2 by (auto simp: settles_def)
      then show ?thesis using 2 Cons False by simp
    qed
  }
qed simp_all

text \<open>Within a ledger the checks of the account hold, so a matching settlement commits.\<close>

lemma sum_member_le:
  fixes f :: "'a \<Rightarrow> int"
  assumes "x \<in> set xs" "\<forall>y\<in>set xs. 0 \<le> f y"
  shows "f x \<le> (\<Sum>y\<leftarrow>xs. f y)"
  using assms by (induction xs) (auto intro: add_increasing add_increasing2 intro!: sum_list_nonneg)

lemma reservation_nonneg: "reservation_ok r \<Longrightarrow> 0 \<le> held r \<and> 0 \<le> spent r"
  by (auto simp: reservation_ok_def held_def spent_def split: option.splits)

lemma ledger_account:
  assumes "ledger db" "r \<in> set (reservations db)"
  shows "\<exists>a. accounts db (dr_run r) = Some a \<and> account_ok a (run_reservations db (dr_run r)) (po_budget (last (run_policies db (dr_run r))))"
    "r \<in> set (run_reservations db (dr_run r))" "reservation_ok r"
  using assms
  by (auto simp: ledger_def run_ledger_def run_reservations_def list_all_iff filter_empty_conv split: option.splits dest!: spec [of _ "dr_run r"])

lemma account_nonneg:
  assumes "ledger db" "accounts db run = Some a"
  shows "0 \<le> charged_source_bytes a" "0 \<le> reserved_source_bytes a"
proof -
  have "account_ok a (run_reservations db run) (po_budget (last (run_policies db run)))" "\<forall>r\<in>set (run_reservations db run). reservation_ok r"
    using assms by (auto simp: ledger_def run_ledger_def run_reservations_def list_all_iff split: option.splits dest!: spec [of _ run])
  then show "0 \<le> charged_source_bytes a" "0 \<le> reserved_source_bytes a"
    using reservation_nonneg by (auto simp: account_ok_def intro!: add_nonneg_nonneg sum_list_nonneg)
qed

lemma settle_matched:
  assumes "ledger db" "r \<in> set (reservations db)" "settles token capture bytes r" "0 \<le> bytes" "accounts db (dr_run r) = Some a"
  shows "\<exists>db'. settleAcquisitionDispatch env at token capture bytes db = Inr db' \<and>
    ledger_tables db' = ((accounts db)(dr_run r \<mapsto> settled_account bytes r a), policies db, settled_rows token capture bytes at (reservations db))"
proof -
  have d: "distinct (map dr_id (reservations db))" using assms(1) by (simp add: ledger_def)
  have rows: "\<forall>q\<in>set (run_reservations db (dr_run r)). 0 \<le> held q"
    using assms(1) reservation_nonneg by (auto simp: ledger_def list_all_iff run_reservations_def)
  have "dr_maximum r = held r" using assms(3) by (simp add: settles_def unsettled_def held_def)
  also have "\<dots> \<le> reserved_source_bytes a"
    using ledger_account [OF assms(1,2)] assms(5) sum_member_le [OF _ rows, of r] by (auto simp: account_ok_def)
  finally have le: "dr_maximum r \<le> reserved_source_bytes a" .
  let ?db1 = "db\<lparr>reservations := settled_rows token capture bytes at (reservations db)\<rparr>"
  let ?db2 = "?db1\<lparr>accounts := (accounts db)(dr_run r \<mapsto> settled_account bytes r a)\<rparr>"
  have 1: "settle_reservation token capture bytes at (db, 0) = Inr (?db1, 1)"
    using find_settled(2) [OF d assms(2,3)] assms(4) by (simp add: settle_reservation_eq)
  have 2: "settle_account token bytes (?db1, 1) = Inr (?db2, 1)"
    using find_settled(1) [OF d assms(2,3)] assms(4,5) le account_nonneg [OF assms(1,5)]
    by (simp add: settle_account_def settled_account_def Let_def)
  obtain db' c where 3: "close_writer token capture at (?db2, 1) = Inr (db', c)" by (auto simp: close_writer_def Let_def case_prod_unfold)
  then have "ledger_tables db' = ledger_tables ?db2" by (rule close_writer_tables)
  then show ?thesis using 1 2 3 by (simp add: settle_run ledger_tables_def)
qed

lemma settled_sums:
  assumes "distinct (map dr_id rows)" "r \<in> set rows" "settles token capture bytes r"
  shows "(\<Sum>q\<leftarrow>settled_rows token capture bytes at rows. held q) = (\<Sum>q\<leftarrow>rows. held q) - dr_maximum r"
    "(\<Sum>q\<leftarrow>settled_rows token capture bytes at rows. spent q) = (\<Sum>q\<leftarrow>rows. spent q) + bytes"
  using assms
proof (induction rows)
  case (Cons q rows)
  have IH: "r \<in> set rows \<Longrightarrow> distinct (map dr_id rows) \<Longrightarrow>
      (\<Sum>q\<leftarrow>settled_rows token capture bytes at rows. held q) = (\<Sum>q\<leftarrow>rows. held q) - dr_maximum r \<and>
      (\<Sum>q\<leftarrow>settled_rows token capture bytes at rows. spent q) = (\<Sum>q\<leftarrow>rows. spent q) + bytes" using Cons assms(3) by blast
  have r: "held r = dr_maximum r" "spent r = 0" "held (r\<lparr>dr_settled := Some (at, bytes)\<rparr>) = 0" "spent (r\<lparr>dr_settled := Some (at, bytes)\<rparr>) = bytes"
    using assms(3) by (simp_all add: settles_def unsettled_def held_def spent_def)
  have step: "settled_rows token capture bytes at (q # rows) =
      (if settles token capture bytes q then q\<lparr>dr_settled := Some (at, bytes)\<rparr> else q) # settled_rows token capture bytes at rows"
    by (simp add: settled_rows_def)
  have main: "(\<Sum>q\<leftarrow>settled_rows token capture bytes at (q # rows). held q) = (\<Sum>q\<leftarrow>q # rows. held q) - dr_maximum r \<and>
      (\<Sum>q\<leftarrow>settled_rows token capture bytes at (q # rows). spent q) = (\<Sum>q\<leftarrow>q # rows. spent q) + bytes"
    if d: "distinct (map dr_id (q # rows))" "r \<in> set (q # rows)"
  proof (cases "q = r")
    case True
    then have "\<forall>x\<in>set rows. dr_id x \<noteq> token" using d assms(3) by (auto simp: settles_def image_iff)
    then have "settled_rows token capture bytes at rows = rows" by (intro settled_rows_none) (auto simp: list_ex_iff settles_def)
    then show ?thesis unfolding step using True r assms(3) by simp
  next
    case False
    then have "\<not> settles token capture bytes q" using d assms(3) by (auto simp: settles_def)
    then show ?thesis unfolding step using False d IH by simp
  qed
  {
    case 1 then show ?case using main by blast
  next
    case 2 then show ?case using main by blast
  }
qed simp_all

lemma settled_rows_props:
  "map dr_id (settled_rows token capture bytes at rows) = map dr_id rows"
  "length (settled_rows token capture bytes at rows) = length rows"
  "filter (\<lambda>r. dr_run r = run) (settled_rows token capture bytes at rows) = settled_rows token capture bytes at (filter (\<lambda>r. dr_run r = run) rows)"
  "list_all reservation_ok rows \<Longrightarrow> 0 \<le> bytes \<Longrightarrow> list_all reservation_ok (settled_rows token capture bytes at rows)"
  "distinct (map dr_capture (filter unsettled rows)) \<Longrightarrow> distinct (map dr_capture (filter unsettled (settled_rows token capture bytes at rows)))"
proof -
  show "map dr_id (settled_rows token capture bytes at rows) = map dr_id rows" by (simp add: settled_rows_def)
  show "length (settled_rows token capture bytes at rows) = length rows" by (simp add: settled_rows_def)
  show "filter (\<lambda>r. dr_run r = run) (settled_rows token capture bytes at rows) = settled_rows token capture bytes at (filter (\<lambda>r. dr_run r = run) rows)"
    by (induction rows) (simp_all add: settled_rows_def)
  show "list_all reservation_ok rows \<Longrightarrow> 0 \<le> bytes \<Longrightarrow> list_all reservation_ok (settled_rows token capture bytes at rows)"
    by (auto simp: list_all_iff settled_rows_def reservation_ok_def settles_def)
  have sub: "set (map dr_capture (filter unsettled (settled_rows token capture bytes at rows))) \<subseteq> set (map dr_capture (filter unsettled rows))" for rows
    by (auto simp: settled_rows_def unsettled_def)
  have step: "filter unsettled (settled_rows token capture bytes at (q # rows)) =
      (if unsettled q \<and> \<not> settles token capture bytes q then [q] else []) @ filter unsettled (settled_rows token capture bytes at rows)" for q rows
    by (auto simp: settled_rows_def unsettled_def settles_def)
  show "distinct (map dr_capture (filter unsettled rows)) \<Longrightarrow> distinct (map dr_capture (filter unsettled (settled_rows token capture bytes at rows)))"
  proof (induction rows)
    case (Cons q rows)
    then have IH: "distinct (map dr_capture (filter unsettled (settled_rows token capture bytes at rows)))" by (simp split: if_splits)
    show ?case
    proof (cases "unsettled q \<and> \<not> settles token capture bytes q")
      case True
      then have "dr_capture q \<notin> set (map dr_capture (filter unsettled rows))" using Cons.prems by simp
      then have "dr_capture q \<notin> set (map dr_capture (filter unsettled (settled_rows token capture bytes at rows)))" using sub [of rows] by blast
      then show ?thesis using IH True by (simp add: step)
    next
      case False
      then show ?thesis using IH by (simp only: step if_False append_Nil)
    qed
  qed (simp add: settled_rows_def)
qed

lemma settle_ledger:
  assumes "settleAcquisitionDispatch env at token capture bytes db = Inr db'" "ledger db"
  shows "ledger db'"
proof (cases "list_ex (settles token capture bytes) (reservations db)")
  case False
  then show ?thesis using settle_unmatched [OF False assms(1)] ledger_cong assms(2) by blast
next
  case True
  then obtain r where r: "r \<in> set (reservations db)" "settles token capture bytes r" by (auto simp: list_ex_iff)
  have b: "0 \<le> bytes"
    using assms(1) True by (cases "bytes < 0") (auto simp: settle_run settle_reservation_eq)
  obtain a where a: "accounts db (dr_run r) = Some a"
      "account_ok a (run_reservations db (dr_run r)) (po_budget (last (run_policies db (dr_run r))))"
    using ledger_account(1) [OF assms(2) r(1)] by blast
  have "ledger_tables db' = ((accounts db)(dr_run r \<mapsto> settled_account bytes r a), policies db, settled_rows token capture bytes at (reservations db))"
    using settle_matched [OF assms(2) r b a(1), of env at] assms(1) by auto
  then have t: "accounts db' = (accounts db)(dr_run r \<mapsto> settled_account bytes r a)" "policies db' = policies db"
    "reservations db' = settled_rows token capture bytes at (reservations db)" by (simp_all add: ledger_tables_def)
  have rr: "run_reservations db' run = settled_rows token capture bytes at (run_reservations db run)" for run
    by (simp add: run_reservations_def t settled_rows_props)
  have rp: "run_policies db' run = run_policies db run" for run by (simp add: run_policies_def t)
  have d: "distinct (map dr_id (run_reservations db run))" for run
    using assms(2) by (simp add: ledger_def run_reservations_def distinct_map_filter)
  have "run_ledger db' run" for run
  proof (cases "run = dr_run r")
    case True
    have "run_ledger db (dr_run r)" using assms(2) by (simp add: ledger_def)
    moreover have "bytes \<le> dr_maximum r" using r(2) by (simp add: settles_def)
    ultimately show ?thesis using True a settled_sums [OF d ledger_account(2) [OF assms(2) r(1)] r(2), of at]
      by (simp add: run_ledger_def t(1) rr rp account_ok_def settled_account_def settled_rows_props)
  next
    case False
    have "settled_rows token capture bytes at (run_reservations db run) = run_reservations db run"
    proof (rule settled_rows_none)
      have "q = r" if "q \<in> set (reservations db)" "dr_id q = token" for q
        using assms(2) r that unfolding ledger_def distinct_map settles_def by (auto dest: inj_onD)
      then show "\<not> list_ex (settles token capture bytes) (run_reservations db run)"
        using False by (auto simp: list_ex_iff run_reservations_def settles_def)
    qed
    then have "run_ledger db' run = run_ledger db run" using False by (intro run_ledger_cong) (simp_all add: t(1) rr rp)
    then show ?thesis using assms(2) by (simp add: ledger_def)
  qed
  then show ?thesis using assms(2) b by (simp add: ledger_def t(3) settled_rows_props)
qed

text \<open>Opening an account and recording a policy.\<close>

lemma policies_ok_snoc:
  "policies_ok (ps @ [p]) \<longleftrightarrow> policies_ok ps \<and> po_generation p = int (length ps) + 1 \<and> (\<forall>q\<in>set ps. budget_le (po_budget q) (po_budget p))"
  by (auto simp: policies_ok_def sorted_wrt_append)

lemma budget_le_trans: "budget_le b c \<Longrightarrow> budget_le c d \<Longrightarrow> budget_le b d"
  by (auto simp: budget_le_def)

lemma policies_ok_extend:
  assumes "policies_ok ps" "ps \<noteq> []" "po_generation p = po_generation (last ps) + 1" "budget_le (po_budget (last ps)) (po_budget p)"
  shows "policies_ok (ps @ [p])"
proof -
  have "budget_le (po_budget q) (po_budget p)" if "q \<in> set ps" for q
  proof -
    obtain qs where qs: "ps = qs @ [last ps]" using assms(2) by (metis append_butlast_last_id)
    have "sorted_wrt budget_le (map po_budget (qs @ [last ps]))" using assms(1) qs by (simp add: policies_ok_def)
    then have "\<forall>q\<in>set qs. budget_le (po_budget q) (po_budget (last ps))" by (simp add: sorted_wrt_append)
    moreover have "q \<in> set (qs @ [last ps])" using that qs by metis
    ultimately have "q = last ps \<or> budget_le (po_budget q) (po_budget (last ps))" by auto
    then show ?thesis using assms(4) budget_le_trans by blast
  qed
  then show ?thesis using assms(1,3) last_generation [OF assms(1,2)] by (simp add: policies_ok_snoc)
qed

lemma insert_policy_Inr:
  assumes "insertAcquisitionPolicy p (db, c) = Inr (db', c')"
  shows "db' = db\<lparr>policies := policies db @ [p]\<rparr>" "accounts db (po_run p) \<noteq> None" "\<forall>q\<in>set (policies db). po_key q \<noteq> po_key p"
    "1 \<le> max_dispatches (po_budget p)" "1 \<le> max_source_bytes (po_budget p)"
  using assms by (auto simp: insertAcquisitionPolicy_def list_ex_iff split: if_splits)

lemma open_account_ledger:
  assumes "initialAcquisitionAccount run at historical baseline (db, c) = Inr (db1, c1)" "insertAcquisitionPolicy p (db1, c1) = Inr (db', c')"
    and "po_run p = run" "po_generation p = 1" "baseline \<le> max_source_bytes (po_budget p)" "ledger db"
  shows "ledger db'"
proof -
  let ?a = "\<lparr>coverage_started_at = at, historical_dispatches_unknown = historical,
         baseline_source_bytes = baseline, charged_dispatches = 0, charged_source_bytes = baseline, reserved_source_bytes = 0\<rparr>"
  have 1: "accounts db run = None" "0 \<le> baseline" "db1 = db\<lparr>accounts := (accounts db)(run \<mapsto> ?a)\<rparr>"
    using assms(1) by (auto simp: initialAcquisitionAccount_def split: if_splits)
  note 2 = insert_policy_Inr [OF assms(2)]
  have t: "accounts db' = (accounts db)(run \<mapsto> ?a)" "policies db' = policies db @ [p]" "reservations db' = reservations db"
    using 1(3) 2(1) by simp_all
  have none: "run_reservations db run = []" "run_policies db run = []"
    using assms(6) 1(1) by (auto simp: ledger_def run_ledger_def dest!: spec [of _ run])
  have "run_ledger db' q" for q
  proof (cases "q = run")
    case True
    have "run_policies db' run = [p]" "run_reservations db' run = []"
      using none assms(3) by (simp_all add: run_policies_def run_reservations_def t)
    then show ?thesis using True 1(2) assms(4,5) 2(4) by (simp add: run_ledger_def t(1) policies_ok_def account_ok_def)
  next
    case False
    then have "run_ledger db' q = run_ledger db q" using assms(3)
      by (intro run_ledger_cong) (simp_all add: t run_policies_def run_reservations_def)
    then show ?thesis using assms(6) by (simp add: ledger_def)
  qed
  then show ?thesis using assms(6) by (simp add: ledger_def t(3))
qed

lemma extend_policy_ledger:
  assumes "insertAcquisitionPolicy p (db, c) = Inr (db', c')" "ledger db"
    and "latest_policy db (po_run p) = Some q" "po_generation p = po_generation q + 1" "budget_le (po_budget q) (po_budget p)"
  shows "ledger db'"
proof -
  let ?run = "po_run p"
  have t: "accounts db' = accounts db" "policies db' = policies db @ [p]" "reservations db' = reservations db"
    using insert_policy_Inr(1) [OF assms(1)] by simp_all
  obtain a where a: "accounts db ?run = Some a" using insert_policy_Inr(2) [OF assms(1)] by blast
  have old: "run_policies db ?run \<noteq> []" "policies_ok (run_policies db ?run)"
      "account_ok a (run_reservations db ?run) (po_budget (last (run_policies db ?run)))" "q = last (run_policies db ?run)"
    using assms(2) a ledger_latest [OF assms(2), of ?run] assms(3) by (auto simp: ledger_def run_ledger_def dest!: spec [of _ ?run])
  have "run_ledger db' r" for r
  proof (cases "r = ?run")
    case True
    have rp: "run_policies db' ?run = run_policies db ?run @ [p]" by (simp add: run_policies_def t)
    have rr: "run_reservations db' ?run = run_reservations db ?run" by (simp add: run_reservations_def t)
    have "policies_ok (run_policies db ?run @ [p])" using old assms(4,5) by (intro policies_ok_extend) simp_all
    then show ?thesis using True a old(3,4) assms(5) by (auto simp: run_ledger_def t(1) rp rr account_ok_def budget_le_def)
  next
    case False
    then have "run_ledger db' r = run_ledger db r" by (intro run_ledger_cong) (simp_all add: t run_policies_def run_reservations_def)
    then show ?thesis using assms(2) by (simp add: ledger_def)
  qed
  then show ?thesis using assms(2) by (simp add: ledger_def t(3))
qed

subsection \<open>Sequences of transactions\<close>

inductive acq_step :: "acq_env \<Rightarrow> acq_db \<Rightarrow> acq_db \<Rightarrow> bool" for env where
  Reserve: "reserve_transaction env ad input db = Inr db' \<Longrightarrow> acq_step env db db'"
| Settle: "settleAcquisitionDispatch env at token capture bytes db = Inr db' \<Longrightarrow> acq_step env db db'"
| Open: "initialAcquisitionStatements env run key budget at = map Plain fs \<Longrightarrow> run_sql fs (db, c) = Inr (db', c') \<Longrightarrow> acq_step env db db'"
| Initialize: "atomicBatch (store env) None (initialization_batch run baseline event p) db = Inr db' \<Longrightarrow> po_run p = run \<Longrightarrow>
    po_generation p = 1 \<Longrightarrow> baseline \<le> max_source_bytes (po_budget p) \<Longrightarrow> acq_step env db db'"
| Extend: "atomicBatch (store env) None (extension_batch run generation p) db = Inr db' \<Longrightarrow> po_run p = run \<Longrightarrow>
    po_generation p = generation + 1 \<Longrightarrow> q \<in> set (run_policies db run) \<Longrightarrow> po_generation q = generation \<Longrightarrow>
    budget_le (po_budget q) (po_budget p) \<Longrightarrow> acq_step env db db'"
| Other: "ledger_tables db' = ledger_tables db \<Longrightarrow> acq_step env db db'"

lemma guard_batch:
  "atomicBatch s None [Plain f, Plain g, Plain h] db = (case run_sql [f, g, h] (db, 0) of Inl e \<Rightarrow> Inl (Aborted e) | Inr (db', c) \<Rightarrow> Inr db')"
  "atomicBatch s None [Plain f, Plain g, Plain h, Plain k] db =
     (case run_sql [f, g, h, k] (db, 0) of Inl e \<Rightarrow> Inl (Aborted e) | Inr (db', c) \<Rightarrow> Inr db')"
  by (subst atomicBatch_eq; simp)+

lemma integrity_guard_state: "runCurrentIntegrityGuard run creating (db, c) = Inr (db', c') \<Longrightarrow> db' = db \<and> c' = c"
  using read_only_integrity unfolding read_only_def by blast

lemma initialization_stages:
  assumes "atomicBatch s None (initialization_batch run baseline event p) db = Inr db'"
  shows "\<exists>db1 c1 c2. quiescent db run (Some event) \<and>
    initialAcquisitionAccount run (po_created p) True baseline (db, 0) = Inr (db1, c1) \<and> insertAcquisitionPolicy p (db1, c1) = Inr (db', c2)"
  using assms
  by (auto simp: initialization_batch_def guard_batch rbind_eq_Inr acquisitionInitializationGuard_def split: sum.splits
      dest!: integrity_guard_state)

lemma extension_stages:
  assumes "atomicBatch s None (extension_batch run generation p) db = Inr db'"
  shows "\<exists>q c. latest_policy db run = Some q \<and> po_generation q = generation \<and> insertAcquisitionPolicy p (db, 0) = Inr (db', c)"
  using assms
  by (auto simp: extension_batch_def guard_batch rbind_eq_Inr acquisitionExtensionGuard_def split: sum.splits option.splits
      dest!: integrity_guard_state)

lemma open_stages:
  assumes "initialAcquisitionStatements env run key budget at = map Plain fs" "run_sql fs (db, c) = Inr (db', c')"
  shows "\<exists>p db1 c1. po_run p = run \<and> po_generation p = 1 \<and> po_budget p = budget \<and>
    initialAcquisitionAccount run at False 0 (db, c) = Inr (db1, c1) \<and> insertAcquisitionPolicy p (db1, c1) = Inr (db', c')"
proof -
  let ?p = "\<lparr>po_run = run, po_generation = 1, po_budget = budget, po_created = at, po_key = key,
        po_digest = digest_of env (budget_json budget), po_response = JObj []\<rparr>"
  have "fs = [initialAcquisitionAccount run at False 0, insertAcquisitionPolicy ?p]"
    using assms(1) by (auto simp: initialAcquisitionStatements_def Cons_eq_map_conv)
  then show ?thesis using assms(2) by (intro exI [of _ ?p]) (auto simp: rbind_eq_Inr)
qed

lemma step_ledger:
  assumes "acq_step env db db'" "ledger db"
  shows "ledger db'"
  using assms
proof cases
  case (Open run key budget at fs c c')
  then obtain p db1 c1 where p: "po_run p = run" "po_generation p = 1"
    and 1: "initialAcquisitionAccount run at False 0 (db, c) = Inr (db1, c1)" "insertAcquisitionPolicy p (db1, c1) = Inr (db', c')"
    using open_stages by blast
  show ?thesis using insert_policy_Inr(5) [OF 1(2)] by (intro open_account_ledger [OF 1 p _ assms(2)]) simp
next
  case (Initialize run baseline event p)
  then obtain db1 c1 c2 where 1: "initialAcquisitionAccount run (po_created p) True baseline (db, 0) = Inr (db1, c1)"
    "insertAcquisitionPolicy p (db1, c1) = Inr (db', c2)" using initialization_stages by blast
  show ?thesis by (rule open_account_ledger [OF 1 Initialize(2-4) assms(2)])
next
  case (Extend run generation p q)
  then obtain q' c where 1: "latest_policy db run = Some q'" "po_generation q' = generation" "insertAcquisitionPolicy p (db, 0) = Inr (db', c)"
    using extension_stages by blast
  have ok: "policies_ok (run_policies db run)" "q' = last (run_policies db run)" "run_policies db run \<noteq> []"
    using assms(2) ledger_latest [OF assms(2), of run] 1(1)
    by (auto simp: ledger_def run_ledger_def split: if_splits dest!: spec [of _ run])
  have "distinct (map po_generation (run_policies db run))"
    using ok(1) unfolding policies_ok_def by (simp add: distinct_map del: upt_Suc)
  then have "q = q'" using Extend(4,5) 1(2) ok(2,3) by (metis distinct_map inj_onD last_in_set)
  then show ?thesis using Extend 1 assms(2) by (intro extend_policy_ledger [of p db 0 db' c q]) simp_all
qed (use assms(2) reserve_ledger settle_ledger ledger_cong in blast)+

abbreviation acq_steps :: "acq_env \<Rightarrow> acq_db \<Rightarrow> acq_db \<Rightarrow> bool" where
  "acq_steps env \<equiv> (acq_step env)\<^sup>*\<^sup>*"

lemma empty_ledger: "accounts db = Map.empty \<Longrightarrow> policies db = [] \<Longrightarrow> reservations db = [] \<Longrightarrow> ledger db"
  by (simp add: ledger_def run_ledger_def run_reservations_def run_policies_def)

text \<open>Policies are only ever added.\<close>

lemma step_policies:
  assumes "acq_step env db db'"
  shows "\<exists>ps. policies db' = policies db @ ps"
  using assms
proof cases
  case (Reserve ad input)
  from this show ?thesis by (cases rule: reserve_effect) (auto simp: ledger_tables_def charged_tables_def)
next
  case (Settle at token capture bytes)
  have "policies db' = policies db"
    using Settle
    by (auto simp: settle_run settle_reservation_eq settle_account_def close_writer_def Let_def rbind_eq_Inr case_prod_unfold
        split: sum.splits if_splits option.splits)
  then show ?thesis by simp
next
  case (Open run key budget at fs c c')
  then show ?thesis using open_stages [OF Open]
    by (auto simp: initialAcquisitionAccount_def insertAcquisitionPolicy_def split: if_splits)
next
  case (Initialize run baseline event p)
  then show ?thesis using initialization_stages [OF Initialize(1)]
    by (auto simp: initialAcquisitionAccount_def insertAcquisitionPolicy_def split: if_splits)
next
  case (Extend run generation p q)
  then show ?thesis using extension_stages [OF Extend(1)] by (auto simp: insertAcquisitionPolicy_def split: if_splits)
qed (auto simp: ledger_tables_def)

definition policies_extend :: "acq_db \<Rightarrow> acq_db \<Rightarrow> bool" where
  "policies_extend db db' \<longleftrightarrow> (\<exists>ps. policies db' = policies db @ ps)"

interpretation ledgers: guarded_system "acq_step env" ledger policies_extend for env
  by unfold_locales (use step_ledger step_policies in \<open>auto simp: policies_extend_def\<close>)

lemmas steps_policies = ledgers.steps_extend [unfolded policies_extend_def]

subsection \<open>The handlers\<close>

definition keeps_tables :: "acq_db sql \<Rightarrow> bool" where
  "keeps_tables f \<longleftrightarrow> (\<forall>db c db' c'. f (db, c) = Inr (db', c') \<longrightarrow> ledger_tables db' = ledger_tables db)"

lemma run_sql_keeps_tables: "list_all keeps_tables fs \<Longrightarrow> run_sql fs (db, c) = Inr (db', c') \<Longrightarrow> ledger_tables db' = ledger_tables db"
proof (induction fs arbitrary: db c)
  case (Cons f fs)
  then obtain db1 c1 where 1: "f (db, c) = Inr (db1, c1)" "run_sql fs (db1, c1) = Inr (db', c')" by (auto simp: rbind_eq_Inr)
  then have "ledger_tables db' = ledger_tables db1" using Cons by auto
  also have "\<dots> = ledger_tables db" using 1(1) Cons.prems(1) by (auto simp: keeps_tables_def)
  finally show ?case .
qed simp

lemma keeps_tables_read_only: "read_only f \<Longrightarrow> keeps_tables f"
  by (fastforce simp: read_only_def keeps_tables_def)

lemma keeps_tables_effects [simp]:
  "list_all keeps_tables (concat (map flatten (terminalIngestionReservationEffects only)))"
  "keeps_tables (projectPublishedGameHeads only)" "keeps_tables (insert_chunk event kind index content)"
  "keeps_tables (append_event senv event input metadata)" "keeps_tables (update_current run eventId matches assignments)"
  "keeps_tables (insert_pause eventId at pause)" "keeps_tables (runCurrentIntegrityGuard run creating)"
  by (auto simp: terminalIngestionReservationEffects_def projectPublishedGameHeads_def insert_chunk_def append_event_def update_current_def
      insert_pause_def keeps_tables_def ledger_tables_def Let_def case_prod_unfold split: if_splits option.splits
      dest!: read_only_integrity [unfolded read_only_def, rule_format])

lemma pause_statements_keep_tables:
  assumes "acquisitionPauseStatements env eventId at input = Inr statements"
  shows "list_all keeps_tables (concat (map flatten statements))"
proof -
  let ?senv = "sql_env.truncate env" and ?event = "event_of eventId ''collection_paused'' (pi_run input) at"
  let ?before = "[Plain (sourceParseAuthorityGuard (pi_run input) Collection (pi_workflow input))]"
  from assms obtain matches guard stmt where s: "statements = [stmt, Plain (insert_pause eventId at input)]"
    and g: "runTransitionGuardStatement ?senv (pi_run input) [Collecting] Paused = Inr guard"
    and r: "runEventStatement ?senv ?event
      (update_current (pi_run input) eventId matches (\<lambda>row. [state_assign Paused, (''completed_stage_count'', JNum 1)]))
      (plain_mutation\<lparr>m_before := ?before, m_guards := [guard]\<rparr>) = Inr stmt"
    by (auto simp: acquisitionPauseStatements_def pauseRunStatement_def guarded_update_def rbind_eq_Inr event_of_def)
  have "list_all keeps_tables (flatten guard)"
    using g by (auto simp: runTransitionGuardStatement_def keeps_tables_read_only split: if_splits)
  moreover have "keeps_tables (sourceParseAuthorityGuard (pi_run input) Collection (pi_workflow input))"
    by (simp add: sourceParseAuthorityGuard_def keeps_tables_read_only)
  ultimately show ?thesis using r
    by (auto simp: s runEventStatement_def prepared_payload_def plain_mutation_def event_of_def Let_def atomicRepositoryStatement_def)
qed

lemma batch_cases:
  assumes "atomicBatch s None statements db = Inr db'"
  obtains c where "run_sql (concat (map flatten statements)) (db, 0) = Inr (db', c)"
proof -
  have "list_all (owned s) statements \<and> length (concat (map flatten statements)) \<le> 900"
    using assms batch_expansion_None [of s statements]
    by (cases "list_all (owned s) statements"; cases "900 < length (concat (map flatten statements))") (simp_all add: atomicBatch_def)
  then show ?thesis using assms that by (auto simp: atomicBatch_eq split: sum.splits)
qed

lemma record_pause_tables:
  assumes "record_pause env eventId at input db = Inr db'"
  shows "ledger_tables db' = ledger_tables db"
proof -
  from assms obtain statements where s: "acquisitionPauseStatements env eventId at input = Inr statements"
    and b: "atomicBatch (store env) None statements db = Inr db'"
    by (auto simp: record_pause_def rbind_eq_Inr)
  from b obtain c where "run_sql (concat (map flatten statements)) (db, 0) = Inr (db', c)" by (rule batch_cases)
  then show ?thesis by (rule run_sql_keeps_tables [OF pause_statements_keep_tables [OF s]])
qed

lemmas record_pause_step = Other [OF record_pause_tables]

lemma or_unchanged_steps: "acq_steps env db0 db \<Longrightarrow> (\<And>db'. result = Inr db' \<Longrightarrow> acq_step env db db') \<Longrightarrow>
    acq_steps env db0 (snd (or_unchanged db result v))"
  by (cases result) (auto simp: or_unchanged_def intro: rtranclp.rtrancl_into_rtrancl)

lemma reserve_steps:
  assumes "\<And>n db. acq_steps env db (others n db)"
  shows "acq_steps env db (snd (reserveAcquisitionDispatch env others ad input db))"
proof (cases "reserve_transaction env ad input db")
  case (Inr db')
  then have 0: "acq_steps env db db'" by (blast intro: Reserve r_into_rtranclp)
  then have 1: "acq_steps env db (others 3 (others 2 (others 1 db')))" "acq_steps env db (others 4 (others 3 (others 2 (others 1 db'))))"
    using assms by (meson rtranclp_trans)+
  show ?thesis
    using 0 1 by (auto simp: reserveAcquisitionDispatch_def Inr Let_def intro!: or_unchanged_steps record_pause_step split: option.split)
qed (simp add: reserveAcquisitionDispatch_def)

lemma commit_steps:
  assumes "acq_steps env db0 db" "\<And>db. acq_steps env db (others db)"
    and "\<And>db'. atomicBatch (store env) None statements db = Inr db' \<Longrightarrow> acq_step env db db'"
  shows "acq_steps env db0 (snd (commit_policy env others code statements p db))"
proof (cases "atomicBatch (store env) None statements db")
  case (Inl e)
  have "acq_steps env db0 (others db)" using assms(1,2) by (meson rtranclp_trans)
  then show ?thesis by (auto simp: commit_policy_def Inl Let_def split: retained_response.split)
next
  case (Inr db')
  then show ?thesis using assms(1,3) by (simp add: commit_policy_def rtranclp.rtrancl_into_rtrancl)
qed

lemma fold_choice:
  assumes "\<And>p best. f p best = Some p \<or> f p best = best" "fold f ps best = Some q"
  shows "best = Some q \<or> q \<in> set ps"
  using assms(2)
proof (induction ps arbitrary: best)
  case (Cons p ps)
  from Cons.prems have "fold f ps (f p best) = Some q" by simp
  then have "f p best = Some q \<or> q \<in> set ps" by (rule Cons.IH)
  then show ?case using assms(1) [of p best] by auto
qed simp

lemma latest_policy_mem: "latest_policy db run = Some q \<Longrightarrow> q \<in> set (run_policies db run)"
  unfolding latest_policy_def by (drule fold_choice [rotated]) (auto split: option.split)

lemma extension_steps:
  assumes others: "\<And>n db. acq_steps env db (others n db)"
    and account: "acquisitionAccount db1 run = Some a" and ok: "\<not> mismatch input (Some prev) (Some a)" "\<not> not_increased budget prev"
    and steps: "acq_steps env db0 db1"
  shows "acq_steps env db0 (snd (commit_policy env (others 4) code (extension_batch run (aa_generation a)
      (extension_policy run (aa_generation a) (Some prev) budget at key digest))
      (extension_policy run (aa_generation a) (Some prev) budget at key digest) (others 3 db1)))"
proof (rule commit_steps)
  show "acq_steps env db0 (others 3 db1)" using steps others by (meson rtranclp_trans)
next
  fix db'
  let ?p = "extension_policy run (aa_generation a) (Some prev) budget at key digest"
  assume b: "atomicBatch (store env) None (extension_batch run (aa_generation a) ?p) (others 3 db1) = Inr db'"
  from account obtain q where q: "latest_policy db1 run = Some q" "aa_generation a = po_generation q" "aa_budget a = po_budget q"
    by (auto simp: acquisitionAccount_def split: option.splits)
  obtain ps where "policies (others 3 db1) = policies db1 @ ps" using steps_policies others by blast
  then have "q \<in> set (run_policies (others 3 db1) run)" using latest_policy_mem [OF q(1)] by (auto simp: run_policies_def)
  moreover have "prev = po_budget q" using ok(1) q(3) by (auto simp: mismatch_def)
  then have "budget_le (po_budget q) (po_budget ?p)" using ok(2) by (auto simp: not_increased_def budget_le_def extension_policy_def)
  ultimately show "acq_step env (others 3 db1) db'" using b q(2) by (intro Extend) (auto simp: extension_policy_def)
qed (rule others)

lemma initialization_steps:
  assumes others: "\<And>n db. acq_steps env db (others n db)" and steps: "acq_steps env db0 db2"
  shows "acq_steps env db0 (snd (initialize_legacy env others now run key digest budget legacy db2))"
proof -
  have 3: "acq_steps env db0 (others 3 db2)" using steps others by (meson rtranclp_trans)
  have "acq_steps env db0 (snd (commit_policy env (others 4) code (initialization_batch run baseline event p) p (others 3 db2)))"
    if "baseline \<le> max_source_bytes budget" "p = extension_policy run 0 None budget at key digest" for baseline event p code at
  proof (rule commit_steps [OF 3 others])
    fix db' assume "atomicBatch (store env) None (initialization_batch run baseline event p) (others 3 db2) = Inr db'"
    then show "acq_step env (others 3 db2) db'" by (rule Initialize) (use that in \<open>simp_all add: extension_policy_def\<close>)
  qed
  then show ?thesis using steps
    by (auto simp: initialize_legacy_def Let_def split: sum.split prod.split)
qed

lemma extend_steps:
  assumes others: "\<And>n db. acq_steps env db (others n db)"
  shows "acq_steps env db (snd (extendAcquisitionBudget env others now run input legacy db))"
proof -
  have 1: "acq_steps env db (others 1 db)" "acq_steps env db (others 2 (others 1 db))" using others by (meson rtranclp_trans)+
  have "acq_steps env db (snd (initialize_legacy env others now run key digest budget legacy (others 2 (others 1 db))))" for key digest budget
    using 1 by (intro initialization_steps others)
  moreover note extension_steps [OF others _ _ _ 1(1)]
  ultimately show ?thesis using 1
    by (auto simp: extendAcquisitionBudget_def Let_def split: sum.split prod.split retained_response.split option.split)
qed

lemma require_steps:
  assumes "\<And>n db. acq_steps env db (others n db)"
  shows "acq_steps env db (snd (requireAcquisitionPolicy env others eventId at run request db))"
  using assms by (auto simp: requireAcquisitionPolicy_def Let_def intro!: or_unchanged_steps record_pause_step)

lemma ownership_steps:
  assumes "\<And>n db. acq_steps env db (others n db)"
  shows "acq_steps env db (snd (pauseAcquisitionOwnership env others eventId at run request capture workflow db))"
proof -
  have "acq_steps env db (others 2 (others 1 db))" using assms by (meson rtranclp_trans)
  then show ?thesis by (auto simp: pauseAcquisitionOwnership_def Let_def intro!: or_unchanged_steps record_pause_step)
qed

text \<open>A pause that commits leaves the run paused, with its reason on record.\<close>

definition pause_row :: "string \<Rightarrow> string \<Rightarrow> pause_input \<Rightarrow> AcquisitionPause" where
  "pause_row eventId at input = \<lparr>ap_event = eventId, ap_run = pi_run input, ap_generation = pi_generation input,
     ap_request = pi_request input, ap_maximum = pi_maximum input, ap_dimension = pi_dimension input, ap_paused_at = at\<rparr>"

lemma pause_statement:
  assumes "acquisitionPauseStatements env eventId at input = Inr statements"
  shows "\<exists>stmt guard metadata rest. statements = [stmt, Plain (insert_pause eventId at input)] \<and>
    list_all read_only (flatten guard) \<and> list_all keeps_core rest \<and>
    flatten stmt = statement_effects (event_of eventId ''collection_paused'' (pi_run input) at)
      (update_current (pi_run input) eventId (\<lambda>row. in_state row [Collecting]) (\<lambda>row. [state_assign Paused, (''completed_stage_count'', JNum 1)]))
      (append_event (sql_env.truncate env) (event_of eventId ''collection_paused'' (pi_run input) at)
         (plain_mutation\<lparr>m_before := [Plain (sourceParseAuthorityGuard (pi_run input) Collection (pi_workflow input))], m_guards := [guard]\<rparr>) metadata)
      (plain_mutation\<lparr>m_before := [Plain (sourceParseAuthorityGuard (pi_run input) Collection (pi_workflow input))], m_guards := [guard]\<rparr>) rest"
proof -
  let ?senv = "sql_env.truncate env" and ?event = "event_of eventId ''collection_paused'' (pi_run input) at"
  let ?before = "[Plain (sourceParseAuthorityGuard (pi_run input) Collection (pi_workflow input))]"
  from assms obtain matches guard stmt where s: "statements = [stmt, Plain (insert_pause eventId at input)]"
    and m: "transition_condition [Collecting] Paused no_facts = Inr matches"
    and g: "runTransitionGuardStatement ?senv (pi_run input) [Collecting] Paused = Inr guard"
    and r: "runEventStatement ?senv ?event
      (update_current (pi_run input) eventId matches (\<lambda>row. [state_assign Paused, (''completed_stage_count'', JNum 1)]))
      (plain_mutation\<lparr>m_before := ?before, m_guards := [guard]\<rparr>) = Inr stmt"
    by (auto simp: acquisitionPauseStatements_def pauseRunStatement_def guarded_update_def rbind_eq_Inr event_of_def)
  have "matches = (\<lambda>row. in_state row [Collecting])" using m by (auto simp: transition_condition_def rbind_eq_Inr)
  moreover have "list_all read_only (flatten guard)" using g by (auto simp: runTransitionGuardStatement_def split: if_splits)
  moreover obtain metadata rest where "flatten stmt = statement_effects ?event
      (update_current (pi_run input) eventId matches (\<lambda>row. [state_assign Paused, (''completed_stage_count'', JNum 1)]))
      (append_event ?senv ?event (plain_mutation\<lparr>m_before := ?before, m_guards := [guard]\<rparr>) metadata)
      (plain_mutation\<lparr>m_before := ?before, m_guards := [guard]\<rparr>) rest" "list_all keeps_core rest"
    using runEventStatement_effects [OF r] by (auto simp: plain_mutation_def)
  ultimately show ?thesis using s by blast
qed

lemma record_pause_effect:
  assumes "record_pause env eventId at input db = Inr db'"
  shows "authorized db (pi_run input) (pi_workflow input)" "pause_row eventId at input \<in> set (pauses db')"
    "\<exists>row. currents db' (pi_run input) = Some row \<and> row ''state'' = JStr (state_name Paused) \<and> row ''last_event_id'' = JStr eventId"
proof -
  let ?run = "pi_run input" and ?event = "event_of eventId ''collection_paused'' (pi_run input) at"
  let ?auth = "sourceParseAuthorityGuard ?run Collection (pi_workflow input)"
  let ?primary = "update_current ?run eventId (\<lambda>row. in_state row [Collecting]) (\<lambda>row. [state_assign Paused, (''completed_stage_count'', JNum 1)])"
  from assms obtain statements where s: "acquisitionPauseStatements env eventId at input = Inr statements"
    and b: "atomicBatch (store env) None statements db = Inr db'"
    by (auto simp: record_pause_def rbind_eq_Inr)
  from pause_statement [OF s] obtain stmt guard metadata rest where st: "statements = [stmt, Plain (insert_pause eventId at input)]"
    and ro: "list_all read_only (flatten guard)" "list_all keeps_core rest"
    and f: "flatten stmt = statement_effects ?event ?primary
      (append_event (sql_env.truncate env) ?event (plain_mutation\<lparr>m_before := [Plain ?auth], m_guards := [guard]\<rparr>) metadata)
      (plain_mutation\<lparr>m_before := [Plain ?auth], m_guards := [guard]\<rparr>) rest" by blast
  obtain c where "run_sql (concat (map flatten statements)) (db, 0) = Inr (db', c)"
    using b by (cases rule: batch_cases) auto
  then obtain d c1 where 1: "run_sql (flatten stmt) (db, 0) = Inr (d, c1)" and 2: "insert_pause eventId at input (d, c1) = Inr (db', c)"
    unfolding st by (auto simp: run_sql_append rbind_eq_Inr)
  show auth: "authorized db ?run (pi_workflow input)"
    using 1 unfolding f statement_effects_def by (auto simp: rbind_eq_Inr sourceParseAuthorityGuard_def)
  obtain db1 k1 db2 k2 where p: "?primary (db, 0) = Inr (db1, k1)"
    and a: "append_event (sql_env.truncate env) ?event (plain_mutation\<lparr>m_before := [Plain ?auth], m_guards := [guard]\<rparr>) metadata (db1, k1) = Inr (db2, k2)"
    and core: "core d = core db2"
    using statement_run [OF 1 [unfolded f]] ro by (auto simp: sourceParseAuthorityGuard_def)
  from auth obtain row where row: "currents db ?run = Some row" "in_state row [Collecting]"
    by (auto simp: authorized_def split: option.splits)
  then have "currents db1 ?run = Some (updated eventId Paused (\<lambda>row. [(''completed_stage_count'', JNum 1)]) row)"
    using p by (auto simp: update_current_def updated_def)
  then have cur: "currents d ?run = Some (updated eventId Paused (\<lambda>row. [(''completed_stage_count'', JNum 1)]) row)"
    using a core by (auto simp: append_event_def core_def Let_def split: if_splits option.splits)
  have u: "updated eventId Paused (\<lambda>row. [(''completed_stage_count'', JNum 1)]) row ''state'' = JStr (state_name Paused)"
    "updated eventId Paused (\<lambda>row. [(''completed_stage_count'', JNum 1)]) row ''last_event_id'' = JStr eventId"
    by (simp_all add: updated_def assign_columns_def runEventIdentity_def state_assign_def)
  then have "db' = d\<lparr>pauses := pauses d @ [pause_row eventId at input]\<rparr>"
    using 2 cur by (auto simp: insert_pause_def pause_row_def split: if_splits)
  then show "pause_row eventId at input \<in> set (pauses db')"
    "\<exists>row. currents db' ?run = Some row \<and> row ''state'' = JStr (state_name Paused) \<and> row ''last_event_id'' = JStr eventId"
    using cur u by simp_all
qed

subsection \<open>What the budget guarantees\<close>

text \<open>
  C4. Whatever the order in which transactions of any number of collections commit, and whatever
  other components do in between, an account is at every moment the exact sum of its reservations:
  one dispatch per reservation, every settled charge plus the verified baseline, and the full
  allowance of everything unsettled. Dispatches and bytes stay within the policy in force, policies
  are numbered without gaps and never decrease, and no capture holds two unsettled dispatches.
\<close>

theorem acquisition_never_overspends:
  assumes "acq_steps env db0 db" and "accounts db0 = Map.empty" "policies db0 = []" "reservations db0 = []"
    and "accounts db run = Some a"
  shows "\<exists>p. latest_policy db run = Some p \<and>
    charged_dispatches a = int (length (run_reservations db run)) \<and> charged_dispatches a \<le> max_dispatches (po_budget p) \<and>
    charged_source_bytes a = baseline_source_bytes a + (\<Sum>r\<leftarrow>run_reservations db run. spent r) \<and>
    reserved_source_bytes a = (\<Sum>r\<leftarrow>run_reservations db run. held r) \<and>
    charged_source_bytes a + reserved_source_bytes a \<le> max_source_bytes (po_budget p) \<and>
    map po_generation (run_policies db run) = map int [1..<length (run_policies db run) + 1] \<and>
    sorted_wrt budget_le (map po_budget (run_policies db run)) \<and>
    distinct (map dr_capture (filter unsettled (reservations db)))"
proof -
  have l: "ledger db" using ledgers.steps_keep [OF assms(1)] empty_ledger assms(2-4) by blast
  then have "run_policies db run \<noteq> []" "policies_ok (run_policies db run)"
    "account_ok a (run_reservations db run) (po_budget (last (run_policies db run)))"
    using assms(5) by (auto simp: ledger_def run_ledger_def dest!: spec [of _ run])
  moreover have "latest_policy db run = Some (last (run_policies db run))" using ledger_latest [OF l, of run] assms(5) by simp
  ultimately show ?thesis using l unfolding account_ok_def policies_ok_def ledger_def by blast
qed

text \<open>
  C37. Every handler is safe under interleaving: if whatever runs between its awaits keeps the ledger
  (being itself transactions of this kind), then so does the handler, on success and on every error.
\<close>

theorem acquisition_handlers_keep_ledger:
  assumes "\<And>n db. acq_steps env db (others n db)" and "ledger db"
  shows "ledger (snd (reserveAcquisitionDispatch env others ad input db)) \<and>
    ledger (snd (extendAcquisitionBudget env others now run request legacy db)) \<and>
    ledger (snd (requireAcquisitionPolicy env others eventId at run requestId db)) \<and>
    ledger (snd (pauseAcquisitionOwnership env others eventId at run requestId capture workflow db)) \<and>
    (\<forall>db'. settleAcquisitionDispatch env at token capture bytes db = Inr db' \<longrightarrow> ledger db')"
proof (intro conjI allI impI)
  show "ledger (snd (reserveAcquisitionDispatch env others ad input db))"
    by (rule ledgers.steps_keep [OF reserve_steps assms(2)]) (rule assms(1))
  show "ledger (snd (extendAcquisitionBudget env others now run request legacy db))"
    by (rule ledgers.steps_keep [OF extend_steps assms(2)]) (rule assms(1))
  show "ledger (snd (requireAcquisitionPolicy env others eventId at run requestId db))"
    by (rule ledgers.steps_keep [OF require_steps assms(2)]) (rule assms(1))
  show "ledger (snd (pauseAcquisitionOwnership env others eventId at run requestId capture workflow db))"
    by (rule ledgers.steps_keep [OF ownership_steps assms(2)]) (rule assms(1))
qed (rule settle_ledger [OF _ assms(2)])

text \<open>The dimension the handler names for a refused dispatch, when nothing intervenes.\<close>

definition refusal_dimension :: "acq_env \<Rightarrow> int \<Rightarrow> dispatch_input \<Rightarrow> acq_db \<Rightarrow> AcquisitionDimension option" where
  "refusal_dimension env now input db =
     (if (case captureDispatch db (di_capture input) of None \<Rightarrow> False | Some r \<Rightarrow> unsettled r) \<or>
         unsettledRawWriter db (di_run input) (Some (di_object input)) \<noteq> None then Some Ownership
      else limitingDimension env now (acquisitionAccount db (di_run input)) (di_maximum input))"

lemma reserve_transaction_commits:
  assumes "authorized db (di_run input) (di_workflow input)" "0 < di_maximum input"
    and "ad_token ad \<notin> dr_id ` set (reservations db)" "ad_token ad \<notin> ow_token ` set (writers db)"
  shows "\<exists>db'. reserve_transaction env ad input db = Inr db' \<and>
    (if admissible env (ad_sqlNow ad) input db
     then \<exists>p a. admitted env ad input db p a \<and> ledger_tables db' = charged_tables ad input db p a
     else db' = db)"
proof -
  let ?fs = "[sourceParseAuthorityGuard (di_run input) Collection (di_workflow input),
       insert_reservation env (ad_token ad) (ad_at ad) (ad_sqlNow ad) input,
       charge_dispatch (di_run input) (di_maximum input), open_writer (ad_token ad)]"
  have run: "reserve_transaction env ad input db = (case run_sql ?fs (db, 0) of Inl e \<Rightarrow> Inl (Aborted e) | Inr (db', c) \<Rightarrow> Inr db')"
    unfolding reserve_transaction_def
    by (subst atomicBatch_eq) (simp_all add: reserveSourceDispatch_def atomicRepositoryStatement_def)
  have auth: "sourceParseAuthorityGuard (di_run input) Collection (di_workflow input) (db, 0) = Inr (db, 0)"
    using assms(1) by (simp add: sourceParseAuthorityGuard_def)
  show ?thesis
  proof (cases "admissible env (ad_sqlNow ad) input db")
    case False
    have none: "filter (\<lambda>r. dr_id r = ad_token ad) (reservations db) = []" using assms(3) by (auto simp: filter_empty_conv image_iff)
    have "reserve_transaction env ad input db = Inr db"
      using False auth none unfolding run
      by (auto simp: insert_reservation_def charge_dispatch_def open_writer_def split: option.split)
    then show ?thesis using False by auto
  next
    case True
    then obtain p a where pa: "latest_policy db (di_run input) = Some p" "accounts db (di_run input) = Some a"
      by (auto simp: admissible_def split: option.splits)
    have "\<not> list_ex (\<lambda>r. dr_id r = ad_token ad) (reservations db)" "\<not> list_ex (\<lambda>w. ow_token w = ad_token ad) (writers db)"
      using assms(3,4) by (auto simp: list_ex_iff image_iff)
    then obtain db' where db': "reserve_transaction env ad input db = Inr db'"
      using True pa auth assms(2) unfolding run
      by (auto simp: insert_reservation_def charge_dispatch_def open_writer_def Let_def)
    show ?thesis using True db' by (cases rule: reserve_effect [OF db']) auto
  qed
qed

text \<open>
  C10. A dispatch is permitted exactly when it is admissible, and then it is charged in full before the
  permit is returned; the permit is the identity of the reservation this very call inserted. A refusal
  charges nothing, and when the handler names a limiting dimension and returns, the run is paused with
  that dimension on record.
\<close>

theorem admission_is_exact:
  assumes "authorized db (di_run input) (di_workflow input)" "0 < di_maximum input"
    and "ad_token ad \<notin> dr_id ` set (reservations db)" "ad_token ad \<notin> ow_token ` set (writers db)"
    and "reserveAcquisitionDispatch env (\<lambda>_ d. d) ad input db = (result, db')"
  shows "if admissible env (ad_sqlNow ad) input db
    then result = Inr (Some (ad_token ad)) \<and>
      (\<exists>p a. latest_policy db (di_run input) = Some p \<and> accounts db (di_run input) = Some a \<and>
        accounts db' = (accounts db)(di_run input \<mapsto> a\<lparr>charged_dispatches := charged_dispatches a + 1,
          reserved_source_bytes := reserved_source_bytes a + di_maximum input\<rparr>) \<and>
        reservations db' = reservations db @ [new_reservation (ad_token ad) (ad_at ad) (po_generation p) input])
    else ledger_tables db' = ledger_tables db \<and> (\<forall>t. result \<noteq> Inr (Some t)) \<and>
      (\<forall>d. result = Inr None \<and> refusal_dimension env (ad_later ad) input db = Some d \<longrightarrow>
        (\<exists>row. currents db' (di_run input) = Some row \<and> row ''state'' = JStr (state_name Paused)) \<and>
        (\<exists>p\<in>set (pauses db'). ap_event p = ad_event ad \<and> ap_run p = di_run input \<and> ap_dimension p = d \<and> ap_maximum p = di_maximum input))"
proof -
  obtain db1 where db1: "reserve_transaction env ad input db = Inr db1"
    and e: "if admissible env (ad_sqlNow ad) input db
     then \<exists>p a. admitted env ad input db p a \<and> ledger_tables db1 = charged_tables ad input db p a else db1 = db"
    using reserve_transaction_commits [OF assms(1-4)] by blast
  show ?thesis
  proof (cases "admissible env (ad_sqlNow ad) input db")
    case True
    then obtain p a where pa: "admitted env ad input db p a" "ledger_tables db1 = charged_tables ad input db p a" using e by auto
    then have "reserved_changes db db1" by (simp add: reserved_changes_def ledger_tables_def charged_tables_def)
    then have "result = Inr (Some (ad_token ad))" "db' = db1" using assms(5) by (auto simp: reserveAcquisitionDispatch_def db1)
    then show ?thesis using True pa by (auto simp: ledger_tables_def charged_tables_def admitted_def)
  next
    case False
    then have d: "db1 = db" "\<not> reserved_changes db db" using e by (simp_all add: reserved_changes_def)
    let ?pause = "\<lambda>d. record_pause env (ad_event ad) (ad_paused_at ad) \<lparr>pi_run = di_run input, pi_request = di_request input,
      pi_generation = map_option aa_generation (acquisitionAccount db (di_run input)), pi_maximum = di_maximum input, pi_dimension = d,
      pi_workflow = di_workflow input\<rparr> db"
    have r: "(result, db') = (case refusal_dimension env (ad_later ad) input db of None \<Rightarrow> (Inr None, db) | Some d \<Rightarrow> or_unchanged db (?pause d) None)"
      using assms(5) d db1 by (simp add: reserveAcquisitionDispatch_def refusal_dimension_def Let_def)
    show ?thesis
    proof (cases "refusal_dimension env (ad_later ad) input db")
      case None
      then show ?thesis using False r by simp
    next
      case (Some d)
      show ?thesis
      proof (cases "?pause d")
        case (Inl err)
        then show ?thesis using False r Some by (simp add: or_unchanged_def)
      next
        case (Inr db2)
        note effect = record_pause_effect [OF Inr] and tables = record_pause_tables [OF Inr]
        have "result = Inr None" "db' = db2" using r Some Inr by (simp_all add: or_unchanged_def)
        then show ?thesis using False Some effect tables by (auto simp: pause_row_def intro!: bexI [OF _ effect(2)])
      qed
    qed
  qed
qed

text \<open>
  C11. A settlement is exact and happens once: it charges the bytes used, releases the whole allowance
  that was held, and changes no other account; any later settlement of the same dispatch, whatever it
  claims, changes no ledger.
\<close>

theorem settlement_is_exact_and_final:
  assumes "ledger db" "r \<in> set (reservations db)" "unsettled r" "0 \<le> bytes" "bytes \<le> dr_maximum r"
  shows "\<exists>db' a. settleAcquisitionDispatch env at (dr_id r) (dr_capture r) bytes db = Inr db' \<and> accounts db (dr_run r) = Some a \<and>
    accounts db' = (accounts db)(dr_run r \<mapsto> a\<lparr>charged_source_bytes := charged_source_bytes a + bytes,
      reserved_source_bytes := reserved_source_bytes a - dr_maximum r\<rparr>) \<and>
    (\<forall>at' capture bytes' db''. settleAcquisitionDispatch env at' (dr_id r) capture bytes' db' = Inr db'' \<longrightarrow> ledger_tables db'' = ledger_tables db')"
proof -
  have m: "settles (dr_id r) (dr_capture r) bytes r" using assms(3,5) by (simp add: settles_def)
  obtain a where a: "accounts db (dr_run r) = Some a" using ledger_account(1) [OF assms(1,2)] by blast
  obtain db' where db': "settleAcquisitionDispatch env at (dr_id r) (dr_capture r) bytes db = Inr db'"
    and t: "ledger_tables db' = ((accounts db)(dr_run r \<mapsto> settled_account bytes r a), policies db,
        settled_rows (dr_id r) (dr_capture r) bytes at (reservations db))"
    using settle_matched [OF assms(1,2) m assms(4) a] by blast
  have one: "q = r" if "q \<in> set (reservations db)" "dr_id q = dr_id r" for q
    using assms(1,2) that unfolding ledger_def distinct_map by (auto dest: inj_onD)
  have "\<not> list_ex (settles (dr_id r) capture bytes') (reservations db')" for capture bytes'
    using t one m by (auto simp: ledger_tables_def settled_rows_def list_ex_iff settles_def unsettled_def)
  then have "ledger_tables db'' = ledger_tables db'" if "settleAcquisitionDispatch env at' (dr_id r) capture bytes' db' = Inr db''" for at' capture bytes' db''
    using settle_unmatched that by blast
  then show ?thesis using db' a t by (auto simp: ledger_tables_def settled_account_def)
qed

text \<open>A recorded policy is found under its key for ever.\<close>

lemma find_append: "find P (xs @ ys) = (case find P xs of None \<Rightarrow> find P ys | Some x \<Rightarrow> Some x)"
  by (induction xs) auto

lemma retained_steps:
  assumes "acq_steps env db db'" "retainedAcquisitionResponse key digest db = Replay response"
  shows "retainedAcquisitionResponse key digest db' = Replay response"
proof -
  obtain ps where "policies db' = policies db @ ps" using steps_policies [OF assms(1)] by blast
  then show ?thesis using assms(2)
    by (auto simp: retainedAcquisitionResponse_def acquisitionPolicyByKey_def find_append split: option.splits)
qed

lemma inserted_retained:
  assumes "insertAcquisitionPolicy p (db, c) = Inr (db', c')"
  shows "retainedAcquisitionResponse (po_key p) (po_digest p) db' = Replay (po_response p)"
proof -
  have "find (\<lambda>q. po_key q = po_key p) (policies db) = None" using insert_policy_Inr(3) [OF assms] by (simp add: find_None_iff)
  then show ?thesis using insert_policy_Inr(1) [OF assms]
    by (simp add: retainedAcquisitionResponse_def acquisitionPolicyByKey_def find_append)
qed

lemma commit_retained:
  assumes "fst (commit_policy env others code statements p db) = Inr response"
    and "\<And>db'. atomicBatch (store env) None statements db = Inr db' \<Longrightarrow> \<exists>d c c'. insertAcquisitionPolicy p (d, c) = Inr (db', c')"
  shows "retainedAcquisitionResponse (po_key p) (po_digest p) (snd (commit_policy env others code statements p db)) = Replay response"
proof (cases "atomicBatch (store env) None statements db")
  case (Inr db')
  then show ?thesis using assms inserted_retained by (fastforce simp: commit_policy_def)
qed (use assms(1) in \<open>auto simp: commit_policy_def Let_def split: retained_response.splits\<close>)

lemma policy_key_digest: "po_key (extension_policy run g previous budget at key digest) = key"
  "po_digest (extension_policy run g previous budget at key digest) = digest"
  by (simp_all add: extension_policy_def)

lemma initialize_retained:
  assumes "fst (initialize_legacy env others now run key digest budget legacy db) = Inr response"
  shows "retainedAcquisitionResponse key digest (snd (initialize_legacy env others now run key digest budget legacy db)) = Replay response"
proof -
  from assms obtain b baseline event where v: "validateAcquisitionBudget env (Some now) (Some (raw_of budget)) = Inr b"
    and l: "verifyLegacyAcquisition legacy run db = Inr (baseline, event)" and le: "\<not> baseline > max_source_bytes budget"
    by (auto simp: initialize_legacy_def Let_def split: sum.splits prod.splits if_splits)
  let ?p = "extension_policy run 0 None budget (iso_string env now) key digest"
  have eq: "initialize_legacy env others now run key digest budget legacy db =
      commit_policy env (others 4) ''acquisition_initialization_not_quiescent'' (initialization_batch run baseline event ?p) ?p (others 3 db)"
    using v l le by (simp add: initialize_legacy_def Let_def)
  show ?thesis
    using commit_retained [OF assms [unfolded eq]] initialization_stages unfolding eq policy_key_digest by blast
qed

text \<open>The intent of a request: what is validated before anything is read.\<close>

definition extension_intent :: "acq_env \<Rightarrow> AcquisitionExtensionRequest \<Rightarrow> acq_error + AcquisitionBudget \<times> AcquisitionBudget option" where
  "extension_intent env input = rbind (assertIdentifier (ex_idempotency_key input)) (\<lambda>_.
           rbind (validateAcquisitionBudget env None (ex_acquisition_budget input)) (\<lambda>budget.
           rbind (case ex_expected_budget input of None \<Rightarrow> Inr None
             | Some b \<Rightarrow> rbind (validateAcquisitionBudget env None (Some b)) (\<lambda>p. Inr (Some p))) (\<lambda>previous.
           Inr (budget, previous))))"

lemma extend_retained:
  assumes "extension_intent env input = Inr (budget, previous)" "fst (extendAcquisitionBudget env others now run input legacy db) = Inr response"
  shows "retainedAcquisitionResponse (ex_idempotency_key input) (digest_of env (intent_json run input previous budget))
    (snd (extendAcquisitionBudget env others now run input legacy db)) = Replay response"
proof -
  let ?key = "ex_idempotency_key input" and ?digest = "digest_of env (intent_json run input previous budget)"
  have ext: "retainedAcquisitionResponse ?key ?digest (snd (commit_policy env o4 code (extension_batch run g
        (extension_policy run g prev b at ?key ?digest)) (extension_policy run g prev b at ?key ?digest) d)) = Replay response"
    if "fst (commit_policy env o4 code (extension_batch run g (extension_policy run g prev b at ?key ?digest))
        (extension_policy run g prev b at ?key ?digest) d) = Inr response" for o4 code g prev b at d
    using commit_retained [OF that] extension_stages unfolding policy_key_digest by blast
  show ?thesis
    using assms(2) ext initialize_retained
    unfolding extendAcquisitionBudget_def assms(1) [unfolded extension_intent_def]
    by (auto simp: Let_def split: retained_response.splits option.splits sum.splits if_splits)
qed

text \<open>
  C12. An extension happens at most once for its key: once a call has returned a response, every later
  call with the same request returns that same response and changes nothing, no matter what committed
  in between, how the clock moved, or whether the budget was extended again.
\<close>

theorem extension_is_idempotent:
  assumes "extendAcquisitionBudget env others now run input legacy db = (Inr response, db')" and "acq_steps env db' db''"
  shows "extendAcquisitionBudget env others' now' run input legacy' db'' = (Inr response, db'')"
proof -
  obtain budget previous where i: "extension_intent env input = Inr (budget, previous)"
    using assms(1) by (cases "extension_intent env input") (auto simp: extendAcquisitionBudget_def extension_intent_def)
  have "retainedAcquisitionResponse (ex_idempotency_key input) (digest_of env (intent_json run input previous budget)) db' = Replay response"
    using extend_retained [OF i, of others now run legacy db response] assms(1) by simp
  then have "retainedAcquisitionResponse (ex_idempotency_key input) (digest_of env (intent_json run input previous budget)) db'' = Replay response"
    by (rule retained_steps [OF assms(2)])
  then show ?thesis by (simp add: extendAcquisitionBudget_def i [unfolded extension_intent_def])
qed

text \<open>
  C38. A collection that may resume can dispatch: when \<open>assertAcquisitionResumable\<close> accepts, a dispatch no
  larger than the one that paused the run passes every budget condition of the reservation, provided
  its capture is planned and nobody else is writing its object.
\<close>

theorem resumable_dispatch_is_admissible:
  assumes "assertAcquisitionResumable env now run (\<lambda>_. db) = Inr ()"
    and deadline: "\<And>p. latest_policy db run = Some p \<Longrightarrow> julianday env (dispatch_deadline (po_budget p)) \<noteq> None \<and>
      date_parse env (dispatch_deadline (po_budget p)) = julianday env (dispatch_deadline (po_budget p))"
    and "ledger_tables db' = ledger_tables db" "di_run input = run" "di_maximum input \<le> pause_bytes (acquisitionPause db run)"
    and "\<And>r. r \<in> set (reservations db) \<Longrightarrow> dr_capture r = di_capture input \<Longrightarrow> dr_run r = run"
    and "\<And>w. w \<in> set (writers db') \<Longrightarrow> ow_object w = di_object input \<Longrightarrow> ow_completed w \<noteq> None"
    and "\<exists>c\<in>set (captures db'). co_attempt c = di_capture input \<and> co_run c = run \<and> co_request c = di_request input \<and> co_state c = ''planned''"
  shows "admissible env now input db'"
proof -
  have none: "unsettledRunDispatch db run = None" and l: "limitingDimension env now (acquisitionAccount db run) (pause_bytes (acquisitionPause db run)) = None"
    using assms(1) by (auto simp: assertAcquisitionResumable_def Let_def split: if_splits)
  from l obtain acc where acc: "acquisitionAccount db run = Some acc" by (cases "acquisitionAccount db run") (auto simp: limitingDimension_def)
  then obtain a p where ap: "accounts db run = Some a" "latest_policy db run = Some p" "aa_account acc = a" "aa_budget acc = po_budget p"
    by (auto simp: acquisitionAccount_def split: option.splits)
  have "within_budget env now (di_maximum input) a (po_budget p)"
    using l acc ap deadline [OF ap(2)] assms(5) by (auto simp: limitingDimension_def within_budget_def split: if_splits option.splits)
  moreover have "\<not> list_ex (\<lambda>r. dr_capture r = di_capture input \<and> unsettled r) (reservations db)"
    using none assms(6) by (auto simp: unsettledRunDispatch_def find_None_iff list_ex_iff)
  moreover have "accounts db' = accounts db" "latest_policy db' run = latest_policy db run" "reservations db' = reservations db"
    using assms(3) by (simp_all add: ledger_tables_def latest_policy_def run_policies_def)
  ultimately show ?thesis using ap assms(4,7,8) by (auto simp: admissible_def list_ex_iff)
qed

subsection \<open>A sample collection\<close>

definition sample_acq_env :: acq_env where
  "sample_acq_env = \<lparr>store = 0, date_parse = (\<lambda>t. Some 1000), plus_seven_days = (\<lambda>t. None), julianday = (\<lambda>t. Some 1000),
     iso_string = (\<lambda>n. ''2030''), digest_of = (\<lambda>j. ''digest'')\<rparr>"

definition sample_capture :: capture_operation where
  "sample_capture = \<lparr>co_attempt = ''c'', co_run = ''r'', co_request = ''q'', co_object = ''raw/c'', co_state = ''planned'',
     co_digest = None, co_length = None, co_reused = None\<rparr>"

definition sample_collection :: "capture_operation list \<Rightarrow> acq_db" where
  "sample_collection cs = run_db.extend (transaction sample_env [Create ''e1'' ''t'' sample_input] sample_tables)
     (acq_db.fields Map.empty [] [] [] [] cs [] [] [''r'' \<mapsto> \<lparr>pl_parent = None, pl_completed = None\<rparr>])"

definition sample_budget :: AcquisitionBudget where
  "sample_budget = \<lparr>max_dispatches = 2, max_source_bytes = 100, dispatch_deadline = ''2030''\<rparr>"

definition sample_dispatch :: dispatch_input where
  "sample_dispatch = \<lparr>di_run = ''r'', di_request = ''q'', di_capture = ''c'', di_object = ''raw/c'', di_maximum = 60, di_workflow = None\<rparr>"

definition sample_admission :: admission where
  "sample_admission = \<lparr>ad_token = ''t1'', ad_event = ''e9'', ad_at = ''now'', ad_paused_at = ''now'', ad_sqlNow = 5, ad_later = 6\<rparr>"

definition opened :: acq_db where
  "opened = (case run_sql (map primary_of (initialAcquisitionStatements sample_acq_env ''r'' ''k'' sample_budget ''t''))
     (sample_collection [sample_capture], 0) of Inr (db, c) \<Rightarrow> db | Inl _ \<Rightarrow> sample_collection [])"

definition reserved :: acq_db where
  "reserved = projr (reserve_transaction sample_acq_env sample_admission sample_dispatch opened)"

definition settled :: acq_db where
  "settled = projr (settleAcquisitionDispatch sample_acq_env ''then'' ''t1'' ''c'' 42 reserved)"

lemma sample_opened: "\<exists>c. run_sql (map primary_of (initialAcquisitionStatements sample_acq_env ''r'' ''k'' sample_budget ''t''))
     (sample_collection [sample_capture], 0) = Inr (opened, c)"
proof -
  have "isl (run_sql (map primary_of (initialAcquisitionStatements sample_acq_env ''r'' ''k'' sample_budget ''t''))
     (sample_collection [sample_capture], 0)) = False" by code_simp
  then show ?thesis by (auto simp: opened_def isl_def split: sum.splits prod.splits)
qed

lemma sample_reserved: "reserve_transaction sample_acq_env sample_admission sample_dispatch opened = Inr reserved"
proof -
  have "isl (reserve_transaction sample_acq_env sample_admission sample_dispatch opened) = False" by code_simp
  then show ?thesis by (auto simp: reserved_def isl_def)
qed

lemma sample_settled: "settleAcquisitionDispatch sample_acq_env ''then'' ''t1'' ''c'' 42 reserved = Inr settled"
proof -
  have "isl (settleAcquisitionDispatch sample_acq_env ''then'' ''t1'' ''c'' 42 reserved) = False" by code_simp
  then show ?thesis by (auto simp: settled_def isl_def)
qed

lemma sample_start_ledger:
  "accounts (sample_collection cs) = Map.empty" "policies (sample_collection cs) = []" "reservations (sample_collection cs) = []"
  by (simp_all add: sample_collection_def run_db.defs acq_db.defs)

lemma sample_steps:
  "acq_steps sample_acq_env (sample_collection [sample_capture]) opened" "acq_steps sample_acq_env (sample_collection [sample_capture]) reserved"
  "acq_steps sample_acq_env (sample_collection [sample_capture]) settled"
proof -
  obtain c where c: "run_sql (map primary_of (initialAcquisitionStatements sample_acq_env ''r'' ''k'' sample_budget ''t''))
     (sample_collection [sample_capture], 0) = Inr (opened, c)" using sample_opened by blast
  have "acq_step sample_acq_env (sample_collection [sample_capture]) opened"
    by (rule Open [OF _ c, where run = "''r''" and key = "''k''" and budget = sample_budget and at = "''t''"])
      (simp add: initialAcquisitionStatements_def)
  then show 1: "acq_steps sample_acq_env (sample_collection [sample_capture]) opened" by (rule r_into_rtranclp)
  then show 2: "acq_steps sample_acq_env (sample_collection [sample_capture]) reserved"
    using Reserve [OF sample_reserved] by (rule rtranclp.rtrancl_into_rtrancl)
  then show "acq_steps sample_acq_env (sample_collection [sample_capture]) settled"
    using Settle [OF sample_settled] by (rule rtranclp.rtrancl_into_rtrancl)
qed

lemma sample_ledgers: "ledger opened" "ledger reserved"
  using ledgers.steps_keep [OF sample_steps(1)] ledgers.steps_keep [OF sample_steps(2)] empty_ledger [OF sample_start_ledger] by blast+

theorem acquisition_never_overspends_witness:
  "\<exists>a p. accounts settled ''r'' = Some a \<and> latest_policy settled ''r'' = Some p \<and> charged_source_bytes a = 42 \<and>
     charged_source_bytes a + reserved_source_bytes a \<le> max_source_bytes (po_budget p)"
proof -
  have "map_option charged_source_bytes (accounts settled ''r'') = Some 42" by code_simp
  then obtain a where "accounts settled ''r'' = Some a" "charged_source_bytes a = 42" by auto
  then show ?thesis using acquisition_never_overspends [OF sample_steps(3) sample_start_ledger] by blast
qed

theorem acquisition_handlers_keep_ledger_witness:
  "ledger (snd (reserveAcquisitionDispatch sample_acq_env (\<lambda>_ d. d) sample_admission sample_dispatch opened))"
  using acquisition_handlers_keep_ledger [of sample_acq_env "\<lambda>_ d. d", OF _ sample_ledgers(1)] by blast

lemma sample_authorized:
  "authorized opened (di_run sample_dispatch) (di_workflow sample_dispatch)" "0 < di_maximum sample_dispatch"
  "ad_token sample_admission \<notin> dr_id ` set (reservations opened)" "ad_token sample_admission \<notin> ow_token ` set (writers opened)"
  by code_simp+

theorem admission_is_exact_witness:
  "admissible sample_acq_env (ad_sqlNow sample_admission) sample_dispatch opened \<and>
   fst (reserveAcquisitionDispatch sample_acq_env (\<lambda>_ d. d) sample_admission sample_dispatch opened) = Inr (Some ''t1'')"
proof -
  have a: "admissible sample_acq_env (ad_sqlNow sample_admission) sample_dispatch opened" by code_simp
  then show ?thesis
    using admission_is_exact [OF sample_authorized surjective_pairing, of sample_acq_env] by (simp add: sample_admission_def)
qed

theorem settlement_is_exact_and_final_witness:
  "\<exists>db' a. settleAcquisitionDispatch sample_acq_env ''then'' ''t1'' ''c'' 42 reserved = Inr db' \<and> accounts reserved ''r'' = Some a \<and>
     accounts db' = (accounts reserved)(''r'' \<mapsto> a\<lparr>charged_source_bytes := charged_source_bytes a + 42, reserved_source_bytes := reserved_source_bytes a - 60\<rparr>)"
proof -
  have "map (\<lambda>r. (dr_id r, dr_capture r, dr_run r, dr_maximum r, unsettled r)) (reservations reserved) = [(''t1'', ''c'', ''r'', 60, True)]"
    by code_simp
  then obtain r where r: "r \<in> set (reservations reserved)" "dr_id r = ''t1''" "dr_capture r = ''c''" "dr_run r = ''r''" "dr_maximum r = 60" "unsettled r"
    by auto
  show ?thesis using settlement_is_exact_and_final [OF sample_ledgers(2) r(1,6), of 42 sample_acq_env "''then''"] r by auto
qed

definition sample_extension :: AcquisitionExtensionRequest where
  "sample_extension = \<lparr>ex_expected_generation = 0, ex_expected_budget = None,
     ex_acquisition_budget = Some (raw_of sample_budget), ex_idempotency_key = ''key-1''\<rparr>"

definition no_objects :: LegacyAcquisitionContext where
  "no_objects = \<lparr>evidenceObjects = Map.empty, parentWorkflow = (\<lambda>_. Thrown_value), hostWorkflow = (\<lambda>_. Thrown_value)\<rparr>"

theorem extension_is_idempotent_witness:
  "\<exists>response db'. extendAcquisitionBudget sample_acq_env (\<lambda>_ d. d) 5 ''r'' sample_extension no_objects (sample_collection []) = (Inr response, db') \<and>
     extendAcquisitionBudget sample_acq_env (\<lambda>_ d. d) 2000 ''r'' sample_extension no_objects db' = (Inr response, db')"
proof -
  have "\<not> isl (fst (extendAcquisitionBudget sample_acq_env (\<lambda>_ d. d) 5 ''r'' sample_extension no_objects (sample_collection [])))"
    by code_simp
  then obtain response db' where e: "extendAcquisitionBudget sample_acq_env (\<lambda>_ d. d) 5 ''r'' sample_extension no_objects (sample_collection []) =
      (Inr response, db')" by (cases "extendAcquisitionBudget sample_acq_env (\<lambda>_ d. d) 5 ''r'' sample_extension no_objects (sample_collection [])")
      (auto simp: isl_def, metis sum.exhaust)
  then show ?thesis using extension_is_idempotent [OF e rtranclp.rtrancl_refl] by blast
qed

theorem resumable_dispatch_is_admissible_witness:
  "admissible sample_acq_env 5 (sample_dispatch\<lparr>di_maximum := 1\<rparr>) opened"
proof (rule resumable_dispatch_is_admissible [of sample_acq_env 5 "''r''" opened])
  have "\<not> isl (assertAcquisitionResumable sample_acq_env 5 ''r'' (\<lambda>_. opened))" by code_simp
  then show "assertAcquisitionResumable sample_acq_env 5 ''r'' (\<lambda>_. opened) = Inr ()" by (cases "assertAcquisitionResumable sample_acq_env 5 ''r'' (\<lambda>_. opened)") auto
  have "reservations opened = []" "writers opened = []" "captures opened = [sample_capture]" by code_simp+
  then show "\<And>r. r \<in> set (reservations opened) \<Longrightarrow> dr_capture r = di_capture (sample_dispatch\<lparr>di_maximum := 1\<rparr>) \<Longrightarrow> dr_run r = ''r''"
    "\<And>w. w \<in> set (writers opened) \<Longrightarrow> ow_object w = di_object (sample_dispatch\<lparr>di_maximum := 1\<rparr>) \<Longrightarrow> ow_completed w \<noteq> None"
    "\<exists>c\<in>set (captures opened). co_attempt c = di_capture (sample_dispatch\<lparr>di_maximum := 1\<rparr>) \<and> co_run c = ''r'' \<and>
       co_request c = di_request (sample_dispatch\<lparr>di_maximum := 1\<rparr>) \<and> co_state c = ''planned''"
    by (simp_all add: sample_capture_def sample_dispatch_def)
  show "di_maximum (sample_dispatch\<lparr>di_maximum := 1\<rparr>) \<le> pause_bytes (acquisitionPause opened ''r'')" by code_simp
qed (simp_all add: sample_acq_env_def sample_dispatch_def)

end
