(* ===== verification/Host_Pacing.thy ===== *)
theory Host_Pacing
  imports Prelude "HOL-Library.List_Lexorder" "HOL-Library.Char_ord"
begin

text \<open>
  Adaptive pacing of requests to one host: \<open>src/src/catalogue/source-evidence/host-pacing.ts\<close> (the
  decisions), \<open>host-pacer.ts\<close> (the class that applies and persists them) and \<open>assertHostPacing\<close> of
  \<open>src/src/catalogue/adapters/source-adapters.ts\<close> (the bounds a registration may declare).

  Times and counts are integers (milliseconds). \<open>Math.round(b * 0.8 + l * 0.2)\<close> is the nearest
  integer to \<open>(4 b + l) / 5\<close>, which never lies halfway between two, so the binary rounding of the
  two products cannot change it. The registry of installed adapters is a parameter.
\<close>

subsection \<open>Data\<close>

datatype host_kind = Page | Asset

record HostPacingPolicy =
  hp_hostname :: string
  hp_kind :: host_kind
  hp_floorMs :: int
  hp_ceilingMs :: int
  hp_maximumConcurrency :: int
  hp_evidence :: string

datatype policy_source = From_registration | From_default

record ResolvedHostPacingPolicy =
  hostname :: string
  host_kind_of :: host_kind
  floor_ms :: int
  ceiling_ms :: int
  maximum_concurrency :: int
  policy_source_of :: policy_source
  adapter_versions :: "string list"

record HostPacingState =
  interval_ms :: int
  concurrency :: int
  clean_streak :: int
  latency_baseline_ms :: "int option"

datatype transport_reason = Timeout | Connection

datatype HostPacingSignal =
    Response int int "int option"       \<comment> \<open>status, latency, retry-after\<close>
  | Transport_failure transport_reason int

datatype backoff_reason = Rate_limited | Unavailable | Gateway | Retry_after | Timed_out | Connection_failed | Latency

datatype event_kind = Backoff backoff_reason | Recovery

record HostPacingEvent =
  pe_kind :: event_kind
  interval_before :: int
  interval_after :: int
  concurrency_before :: int
  concurrency_after :: int
  pe_status :: "int option"
  pe_retry_after :: "int option"
  pe_latency :: int

record HostPacingDecision =
  decided_state :: HostPacingState
  decided_event :: "HostPacingEvent option"
  hold_ms :: int

definition hostPacingRecoveryStreak :: int where "hostPacingRecoveryStreak = 20"
definition minimumBackoffStepMs :: int where "minimumBackoffStepMs = 250"
definition slowLatencyFactor :: int where "slowLatencyFactor = 4"
definition slowLatencyMarginMs :: int where "slowLatencyMarginMs = 1000"

definition clamp :: "int \<Rightarrow> int \<Rightarrow> int \<Rightarrow> int" where
  "clamp v minimum maximum = min maximum (max minimum v)"

subsection \<open>The policy of a host\<close>

text \<open>\<open>assertHostPacing\<close>, for one adapter's declarations.\<close>

definition lower_char :: "char \<Rightarrow> char" where
  "lower_char c = (let n = of_char c :: nat
     in if 65 \<le> n \<and> n \<le> 90 \<or> 192 \<le> n \<and> n \<le> 222 \<and> n \<noteq> 215 then char_of (n + 32) else c)"

definition is_space :: "char \<Rightarrow> bool" where
  "is_space c \<longleftrightarrow> of_char c \<in> {9, 10, 11, 12, 13, 32, 160 :: nat}"

definition declaration_ok :: "HostPacingPolicy \<Rightarrow> bool" where
  "declaration_ok p \<longleftrightarrow>
     hp_hostname p \<noteq> '''' \<and> hp_hostname p = map lower_char (hp_hostname p) \<and>
     0 \<le> hp_floorMs p \<and> max 1 (hp_floorMs p) \<le> hp_ceilingMs p \<and> hp_ceilingMs p \<le> 60000 \<and>
     1 \<le> hp_maximumConcurrency p \<and> hp_maximumConcurrency p \<le> (if hp_kind p = Page then 1 else 16) \<and>
     list_ex (\<lambda>c. \<not> is_space c) (hp_evidence p)"

definition assertHostPacing :: "HostPacingPolicy list \<Rightarrow> bool" where
  "assertHostPacing policies \<longleftrightarrow> distinct (map hp_hostname policies) \<and> list_all declaration_ok policies"

definition declared_policies ::
  "(string \<Rightarrow> HostPacingPolicy list) \<Rightarrow> string \<Rightarrow> string list \<Rightarrow> (string \<times> HostPacingPolicy) list" where
  "declared_policies registry host versions =
     concat (map (\<lambda>v. case find (\<lambda>entry. hp_hostname entry = host) (registry v) of None \<Rightarrow> [] | Some p \<Rightarrow> [(v, p)])
       (sort (remdups versions)))"

definition resolveHostPacingPolicy ::
  "(string \<Rightarrow> HostPacingPolicy list) \<Rightarrow> string \<Rightarrow> string list \<Rightarrow> int \<Rightarrow> ResolvedHostPacingPolicy" where
  "resolveHostPacingPolicy registry host versions defaultIntervalMs =
     (let declared = declared_policies registry host versions; policies = map snd declared;
          page = list_ex (\<lambda>p. hp_kind p = Page) policies
      in if declared = []
         then \<lparr>hostname = host, host_kind_of = Page, floor_ms = defaultIntervalMs,
               ceiling_ms = min 60000 (max 4000 (defaultIntervalMs * 8)), maximum_concurrency = 1,
               policy_source_of = From_default, adapter_versions = []\<rparr>
         else \<lparr>hostname = host, host_kind_of = (if page then Page else Asset),
               floor_ms = Max (set (map hp_floorMs policies)), ceiling_ms = Max (set (map hp_ceilingMs policies)),
               maximum_concurrency = (if page then 1 else Min (set (map hp_maximumConcurrency policies))),
               policy_source_of = From_registration, adapter_versions = map fst declared\<rparr>)"

record recorded_pacing =
  rec_next_request :: "int option"  \<comment> \<open>\<open>Date.parse(next_request_not_before)\<close>, \<open>None\<close> for NaN\<close>
  rec_interval :: "int option"
  rec_concurrency :: "int option"
  rec_streak :: "int option"
  rec_baseline :: "int option"

definition most_aggressive :: "ResolvedHostPacingPolicy \<Rightarrow> HostPacingState" where
  "most_aggressive policy = \<lparr>interval_ms = floor_ms policy, concurrency = maximum_concurrency policy, clean_streak = 0,
     latency_baseline_ms = None\<rparr>"

definition currentHostPacingState :: "ResolvedHostPacingPolicy \<Rightarrow> recorded_pacing option \<Rightarrow> HostPacingState" where
  "currentHostPacingState policy recorded =
     (case Option.bind recorded (\<lambda>r. map_option (Pair r) (rec_interval r)) of
        None \<Rightarrow> most_aggressive policy
      | Some (r, interval) \<Rightarrow>
          \<lparr>interval_ms = clamp interval (floor_ms policy) (ceiling_ms policy),
           concurrency = clamp (case rec_concurrency r of None \<Rightarrow> maximum_concurrency policy | Some c \<Rightarrow> c) 1
             (maximum_concurrency policy),
           clean_streak = max 0 (case rec_streak r of None \<Rightarrow> 0 | Some n \<Rightarrow> n),
           latency_baseline_ms = rec_baseline r\<rparr>)"

subsection \<open>Adaptation\<close>

definition latency_of :: "HostPacingSignal \<Rightarrow> int" where
  "latency_of signal = (case signal of Response status latency retry \<Rightarrow> latency | Transport_failure reason latency \<Rightarrow> latency)"

definition status_of :: "HostPacingSignal \<Rightarrow> int option" where
  "status_of signal = (case signal of Response status latency retry \<Rightarrow> Some status | Transport_failure reason latency \<Rightarrow> None)"

definition retry_of :: "HostPacingSignal \<Rightarrow> int option" where
  "retry_of signal = (case signal of Response status latency retry \<Rightarrow> retry | Transport_failure reason latency \<Rightarrow> None)"

definition backoffReason :: "HostPacingState \<Rightarrow> HostPacingSignal \<Rightarrow> backoff_reason option" where
  "backoffReason state signal = (case signal of
      Transport_failure reason latency \<Rightarrow> Some (case reason of Timeout \<Rightarrow> Timed_out | Connection \<Rightarrow> Connection_failed)
    | Response status latency retry \<Rightarrow>
        if status = 429 then Some Rate_limited
        else if status = 503 then Some Unavailable
        else if status = 502 \<or> status = 504 then Some Gateway
        else if retry \<noteq> None \<and> status \<ge> 400 then Some Retry_after
        else (case latency_baseline_ms state of
            None \<Rightarrow> None
          | Some baseline \<Rightarrow>
              if status < 400 \<and> latency > max (baseline * slowLatencyFactor) (baseline + slowLatencyMarginMs)
              then Some Latency else None))"

definition recoveryStepMs :: "ResolvedHostPacingPolicy \<Rightarrow> int" where
  "recoveryStepMs policy = max 50 ((ceiling_ms policy - floor_ms policy + 4) div 8)"

definition blended_baseline :: "int \<Rightarrow> int \<Rightarrow> int" where
  "blended_baseline baseline latency = (4 * baseline + latency + 2) div 5"

definition pacing_event ::
  "event_kind \<Rightarrow> HostPacingState \<Rightarrow> HostPacingState \<Rightarrow> int option \<Rightarrow> int option \<Rightarrow> int \<Rightarrow> HostPacingEvent" where
  "pacing_event kind before after status retryAfter latency =
     \<lparr>pe_kind = kind, interval_before = interval_ms before, interval_after = interval_ms after,
      concurrency_before = concurrency before, concurrency_after = concurrency after, pe_status = status,
      pe_retry_after = retryAfter, pe_latency = max 0 latency\<rparr>"

definition backed_off ::
  "ResolvedHostPacingPolicy \<Rightarrow> HostPacingState \<Rightarrow> backoff_reason \<Rightarrow> int \<Rightarrow> HostPacingState" where
  "backed_off policy state reason latency =
     \<lparr>interval_ms = clamp (max (interval_ms state * 2) (interval_ms state + minimumBackoffStepMs)) (floor_ms policy) (ceiling_ms policy),
      concurrency = max 1 (concurrency state div 2), clean_streak = 0,
      latency_baseline_ms = (case latency_baseline_ms state of
          Some baseline \<Rightarrow> Some (if reason = Latency then blended_baseline baseline latency else baseline) | None \<Rightarrow> None)\<rparr>"

definition at_most_aggressive :: "ResolvedHostPacingPolicy \<Rightarrow> HostPacingState \<Rightarrow> bool" where
  "at_most_aggressive policy state \<longleftrightarrow> interval_ms state \<le> floor_ms policy \<and> concurrency state \<ge> maximum_concurrency policy"

definition clean_response :: "ResolvedHostPacingPolicy \<Rightarrow> HostPacingState \<Rightarrow> int \<Rightarrow> int \<Rightarrow> HostPacingDecision" where
  "clean_response policy state status latency =
     (let baseline = (case latency_baseline_ms state of None \<Rightarrow> latency | Some b \<Rightarrow> blended_baseline b latency);
          streak = clean_streak state + 1
      in if streak < hostPacingRecoveryStreak \<or> at_most_aggressive policy state
         then \<lparr>decided_state = state\<lparr>clean_streak := (if at_most_aggressive policy state then 0 else streak),
                 latency_baseline_ms := Some baseline\<rparr>, decided_event = None, hold_ms = 0\<rparr>
         else let next = \<lparr>interval_ms = max (floor_ms policy) (interval_ms state - recoveryStepMs policy),
                    concurrency = min (maximum_concurrency policy) (concurrency state + 1), clean_streak = 0,
                    latency_baseline_ms = Some baseline\<rparr>
              in \<lparr>decided_state = next, decided_event = Some (pacing_event Recovery state next (Some status) None latency),
                  hold_ms = 0\<rparr>)"

definition adaptHostPacing :: "ResolvedHostPacingPolicy \<Rightarrow> HostPacingState \<Rightarrow> HostPacingSignal \<Rightarrow> HostPacingDecision" where
  "adaptHostPacing policy state signal =
     (case backoffReason state signal of
        Some reason \<Rightarrow>
          let next = backed_off policy state reason (latency_of signal)
          in \<lparr>decided_state = next,
              decided_event = Some (pacing_event (Backoff reason) state next (status_of signal) (retry_of signal) (latency_of signal)),
              hold_ms = (case retry_of signal of None \<Rightarrow> 0 | Some r \<Rightarrow> r)\<rparr>
      | None \<Rightarrow>
          (case signal of
             Response status latency retry \<Rightarrow>
               if status \<ge> 500 then \<lparr>decided_state = state, decided_event = None, hold_ms = 0\<rparr>
               else clean_response policy state status latency
           | Transport_failure reason latency \<Rightarrow> \<lparr>decided_state = state, decided_event = None, hold_ms = 0\<rparr>))"

subsection \<open>The pacer\<close>

datatype pacing_mode = Production | Immediate

text \<open>
  The two deployment settings of \<open>source-evidence-capture.ts\<close>; an unset variable is \<open>None\<close>, and a
  value that is not recognised is returned as the error.
\<close>

definition sourceHostPacingMode :: "string option \<Rightarrow> string + pacing_mode" where
  "sourceHostPacingMode setting = (case setting of
      None \<Rightarrow> Inr Production
    | Some v \<Rightarrow> if v = ''production'' then Inr Production else if v = ''immediate'' then Inr Immediate else Inl v)"

definition defaultSourceHostPacingIntervalMilliseconds :: int where
  "defaultSourceHostPacingIntervalMilliseconds = 500"

definition is_digit :: "char \<Rightarrow> bool" where
  "is_digit c \<longleftrightarrow> 48 \<le> (of_char c :: int) \<and> (of_char c :: int) \<le> 57"

definition decimal :: "string \<Rightarrow> bool" where
  "decimal v \<longleftrightarrow> v = ''0'' \<or> (v \<noteq> [] \<and> list_all is_digit v \<and> hd v \<noteq> CHR ''0'')"

definition parse_decimal :: "string \<Rightarrow> int" where
  "parse_decimal v = foldl (\<lambda>n c. 10 * n + (of_char c - 48)) 0 v"

definition sourceHostPacingIntervalMilliseconds :: "string option \<Rightarrow> string + int" where
  "sourceHostPacingIntervalMilliseconds setting = (case setting of
      None \<Rightarrow> Inr defaultSourceHostPacingIntervalMilliseconds
    | Some v \<Rightarrow> if decimal v \<and> parse_decimal v \<le> 60000 then Inr (parse_decimal v) else Inl v)"

record HostPacer =
  policy :: ResolvedHostPacingPolicy
  mode :: pacing_mode
  current :: HostPacingState
  nextStartAt :: int

text \<open>
  The tables \<open>source_host_pacing\<close> (one row per host, upserted) and \<open>source_host_pacing_events\<close>
  (append-only, \<open>INSERT OR IGNORE\<close> on the identity).
\<close>

record pacing_tables =
  host_rows :: "string \<rightharpoonup> recorded_pacing"
  host_events :: "(string \<times> HostPacingEvent) list"

definition load_pacer :: "pacing_tables \<Rightarrow> ResolvedHostPacingPolicy \<Rightarrow> pacing_mode \<Rightarrow> HostPacer" where
  "load_pacer db pol m =
     (let row = host_rows db (hostname pol)
      in \<lparr>policy = pol, mode = m, current = currentHostPacingState pol row,
          nextStartAt = (case Option.bind row rec_next_request of None \<Rightarrow> 0 | Some deadline \<Rightarrow> deadline)\<rparr>)"

definition startDelay :: "HostPacer \<Rightarrow> int \<Rightarrow> int" where
  "startDelay pacer nowMs = (if mode pacer = Immediate then 0 else max 0 (nextStartAt pacer - nowMs))"

definition started :: "HostPacer \<Rightarrow> int \<Rightarrow> HostPacer" where
  "started pacer nowMs =
     (if host_kind_of (policy pacer) = Asset
      then pacer\<lparr>nextStartAt := max (nextStartAt pacer) (nowMs + interval_ms (current pacer))\<rparr>
      else pacer)"

definition jitter :: "int \<Rightarrow> int \<Rightarrow> int" where
  "jitter maximumInclusive random = (if maximumInclusive \<le> 0 then 0 else random mod (maximumInclusive + 1))"

text \<open>\<open>completed\<close>, with the clock and the random number it reads as arguments.\<close>

definition completed_pacer :: "int \<Rightarrow> int \<Rightarrow> HostPacingSignal option \<Rightarrow> HostPacer \<Rightarrow> HostPacer \<times> HostPacingEvent option" where
  "completed_pacer nowMs random signal pacer =
     (let decision = (case signal of
            None \<Rightarrow> \<lparr>decided_state = current pacer, decided_event = None, hold_ms = 0\<rparr>
          | Some s \<Rightarrow> adaptHostPacing (policy pacer) (current pacer) s);
          next = decided_state decision;
          deadline = (if host_kind_of (policy pacer) = Page
            then nowMs + interval_ms next + jitter (interval_ms next div 4) random else nextStartAt pacer)
      in (pacer\<lparr>current := next, nextStartAt := max deadline (nowMs + hold_ms decision)\<rparr>, decided_event decision))"

definition saved_row :: "int \<Rightarrow> HostPacer \<Rightarrow> recorded_pacing" where
  "saved_row nowMs pacer = \<lparr>rec_next_request = Some (if mode pacer = Immediate then nowMs else nextStartAt pacer),
     rec_interval = Some (interval_ms (current pacer)), rec_concurrency = Some (concurrency (current pacer)),
     rec_streak = Some (clean_streak (current pacer)), rec_baseline = latency_baseline_ms (current pacer)\<rparr>"

definition save_pacing :: "string \<Rightarrow> recorded_pacing \<Rightarrow> (string \<times> HostPacingEvent) option \<Rightarrow> pacing_tables \<Rightarrow> pacing_tables" where
  "save_pacing host row receipt db = db\<lparr>host_rows := (host_rows db)(host \<mapsto> row),
     host_events := (case receipt of
         None \<Rightarrow> host_events db
       | Some (key, e) \<Rightarrow> if key \<in> fst ` set (host_events db) then host_events db else host_events db @ [(key, e)])\<rparr>"

definition completed ::
  "int \<Rightarrow> int \<Rightarrow> string \<Rightarrow> HostPacingSignal option \<Rightarrow> HostPacer \<Rightarrow> pacing_tables \<Rightarrow> HostPacer \<times> pacing_tables" where
  "completed nowMs random attemptId signal pacer db =
     (let (next, event) = completed_pacer nowMs random signal pacer
      in (next, save_pacing (hostname (policy pacer)) (saved_row nowMs next)
            (map_option (Pair (''pacing_'' @ attemptId)) event) db))"

subsection \<open>Bounds\<close>

definition policy_ok :: "ResolvedHostPacingPolicy \<Rightarrow> bool" where
  "policy_ok p \<longleftrightarrow> 0 \<le> floor_ms p \<and> floor_ms p \<le> ceiling_ms p \<and> ceiling_ms p \<le> 60000 \<and>
     1 \<le> maximum_concurrency p \<and> maximum_concurrency p \<le> 16 \<and> (host_kind_of p = Page \<longrightarrow> maximum_concurrency p = 1)"

definition state_ok :: "ResolvedHostPacingPolicy \<Rightarrow> HostPacingState \<Rightarrow> bool" where
  "state_ok p s \<longleftrightarrow> floor_ms p \<le> interval_ms s \<and> interval_ms s \<le> ceiling_ms p \<and>
     1 \<le> concurrency s \<and> concurrency s \<le> maximum_concurrency p \<and> 0 \<le> clean_streak s"

lemma clamp_bounds: "lo \<le> hi \<Longrightarrow> lo \<le> clamp v lo hi \<and> clamp v lo hi \<le> hi"
  by (simp add: clamp_def)

lemma clamp_id: "lo \<le> v \<Longrightarrow> v \<le> hi \<Longrightarrow> clamp v lo hi = v"
  by (simp add: clamp_def)

lemma current_state_ok: "policy_ok p \<Longrightarrow> state_ok p (currentHostPacingState p r)"
  using clamp_bounds [of "floor_ms p" "ceiling_ms p"] clamp_bounds [of 1 "maximum_concurrency p"]
  by (auto simp: currentHostPacingState_def most_aggressive_def state_ok_def policy_ok_def split: option.splits)

lemma backed_off_ok: "policy_ok p \<Longrightarrow> state_ok p s \<Longrightarrow> state_ok p (backed_off p s reason latency)"
  using clamp_bounds [of "floor_ms p" "ceiling_ms p"]
  by (auto simp: backed_off_def state_ok_def policy_ok_def)

lemma clean_response_ok:
  "policy_ok p \<Longrightarrow> state_ok p s \<Longrightarrow> state_ok p (decided_state (clean_response p s status latency))"
  by (auto simp: clean_response_def state_ok_def policy_ok_def Let_def recoveryStepMs_def)

lemma adapt_ok: "policy_ok p \<Longrightarrow> state_ok p s \<Longrightarrow> state_ok p (decided_state (adaptHostPacing p s signal))"
  by (auto simp: adaptHostPacing_def Let_def backed_off_ok clean_response_ok split: option.splits HostPacingSignal.splits)

lemma declared_policy_ok:
  assumes "(v, p) \<in> set (declared_policies registry host versions)" and "\<forall>v\<in>set versions. assertHostPacing (registry v)"
  shows "declaration_ok p"
proof -
  from assms(1) have "v \<in> set versions" "find (\<lambda>entry. hp_hostname entry = host) (registry v) = Some p"
    by (auto simp: declared_policies_def split: option.splits)
  then have "p \<in> set (registry v)" by (auto simp: find_Some_iff)
  with assms(2) \<open>v \<in> set versions\<close> show ?thesis by (auto simp: assertHostPacing_def list_all_iff)
qed

lemma resolved_policy_ok:
  assumes reg: "\<forall>v\<in>set versions. assertHostPacing (registry v)" and "0 \<le> defaultIntervalMs" "defaultIntervalMs \<le> 60000"
  shows "policy_ok (resolveHostPacingPolicy registry host versions defaultIntervalMs)"
proof (cases "declared_policies registry host versions = []")
  case True
  then show ?thesis using assms(2,3) by (auto simp: resolveHostPacingPolicy_def policy_ok_def Let_def)
next
  case False
  define ps where "ps = map snd (declared_policies registry host versions)"
  have ps: "ps \<noteq> []" "\<And>p. p \<in> set ps \<Longrightarrow> declaration_ok p"
    using False declared_policy_ok [OF _ reg] by (auto simp: ps_def)
  let ?F = "set (map hp_floorMs ps)" and ?C = "set (map hp_ceilingMs ps)" and ?M = "set (map hp_maximumConcurrency ps)"
  have ne: "?F \<noteq> {}" "?C \<noteq> {}" "?M \<noteq> {}" using ps(1) by auto
  obtain p where p: "p \<in> set ps" "Max ?F = hp_floorMs p" using Max_in [OF _ ne(1)] by auto
  obtain q where q: "q \<in> set ps" "Max ?C = hp_ceilingMs q" using Max_in [OF _ ne(2)] by auto
  obtain r where r: "r \<in> set ps" "Min ?M = hp_maximumConcurrency r" using Min_in [OF _ ne(3)] by auto
  have "hp_ceilingMs p \<le> Max ?C" using p(1) by (intro Max_ge) auto
  with ps(2) [OF p(1)] ps(2) [OF q(1)] ps(2) [OF r(1)] p(2) q(2) r(2)
  have "0 \<le> Max ?F \<and> Max ?F \<le> Max ?C \<and> Max ?C \<le> 60000 \<and> 1 \<le> Min ?M \<and> Min ?M \<le> 16"
    by (auto simp: declaration_ok_def split: if_splits)
  then show ?thesis
    using False unfolding resolveHostPacingPolicy_def Let_def policy_ok_def ps_def [symmetric] by simp
qed

text \<open>
  What a pacer goes through: request starts and completions at any times with any outcomes, and
  reloads from the tables (a new batch or a replacement workflow), possibly under a new policy.
\<close>

datatype pacer_op =
    Op_start int
  | Op_complete int int string "HostPacingSignal option"
  | Op_reload ResolvedHostPacingPolicy

fun pacer_step :: "pacer_op \<Rightarrow> HostPacer \<times> pacing_tables \<Rightarrow> HostPacer \<times> pacing_tables" where
  "pacer_step (Op_start nowMs) (pacer, db) = (started pacer nowMs, db)"
| "pacer_step (Op_complete nowMs random attempt signal) (pacer, db) = completed nowMs random attempt signal pacer db"
| "pacer_step (Op_reload p) (pacer, db) = (load_pacer db p (mode pacer), db)"

definition op_ok :: "pacer_op \<Rightarrow> bool" where
  "op_ok op = (case op of Op_reload p \<Rightarrow> policy_ok p | _ \<Rightarrow> True)"

definition pacer_ok :: "HostPacer \<Rightarrow> bool" where
  "pacer_ok pacer \<longleftrightarrow> policy_ok (policy pacer) \<and> state_ok (policy pacer) (current pacer)"

lemma completed_pacer_ok: "pacer_ok pacer \<Longrightarrow> pacer_ok (fst (completed_pacer nowMs random signal pacer))"
  by (auto simp: completed_pacer_def pacer_ok_def adapt_ok Let_def split: option.split)

lemma parse_decimal_nonneg: "list_all is_digit v \<Longrightarrow> 0 \<le> n \<Longrightarrow> 0 \<le> foldl (\<lambda>n c. 10 * n + (of_char c - 48)) (n :: int) v"
proof (induction v arbitrary: n)
  case (Cons c v)
  then show ?case by (simp add: is_digit_def)
qed simp

lemma configured_interval_bounds:
  "sourceHostPacingIntervalMilliseconds setting = Inr interval \<Longrightarrow> 0 \<le> interval \<and> interval \<le> 60000"
  using parse_decimal_nonneg [of _ 0]
  by (auto simp: sourceHostPacingIntervalMilliseconds_def defaultSourceHostPacingIntervalMilliseconds_def decimal_def
      parse_decimal_def split: option.splits if_splits)

lemma pacer_step_ok: "op_ok op \<Longrightarrow> pacer_ok (fst st) \<Longrightarrow> pacer_ok (fst (pacer_step op st))"
  using completed_pacer_ok
  by (cases st; cases op)
    (auto simp: op_ok_def completed_def case_prod_unfold Let_def started_def load_pacer_def pacer_ok_def current_state_ok)

lemma pacer_steps_ok: "list_all op_ok ops \<Longrightarrow> pacer_ok (fst st) \<Longrightarrow> pacer_ok (fst (fold pacer_step ops st))"
  by (induction ops arbitrary: st) (simp_all add: pacer_step_ok)

subsection \<open>Recovery\<close>

definition clean_signal :: "HostPacingState \<Rightarrow> HostPacingSignal \<Rightarrow> bool" where
  "clean_signal s signal \<longleftrightarrow> backoffReason s signal = None \<and> (\<exists>status latency retry. signal = Response status latency retry \<and> status < 500)"

definition adapted :: "ResolvedHostPacingPolicy \<Rightarrow> HostPacingState \<Rightarrow> HostPacingSignal \<Rightarrow> HostPacingState" where
  "adapted p s signal = decided_state (adaptHostPacing p s signal)"

fun clean_run :: "ResolvedHostPacingPolicy \<Rightarrow> HostPacingState \<Rightarrow> HostPacingSignal list \<Rightarrow> bool" where
  "clean_run p s [] \<longleftrightarrow> True"
| "clean_run p s (x # xs) \<longleftrightarrow> clean_signal s x \<and> clean_run p (adapted p s x) xs"

text \<open>Recovery steps that are still needed, and clean responses until they have happened.\<close>

definition deficit :: "ResolvedHostPacingPolicy \<Rightarrow> HostPacingState \<Rightarrow> int" where
  "deficit p s = max ((interval_ms s - floor_ms p + recoveryStepMs p - 1) div recoveryStepMs p)
     (maximum_concurrency p - concurrency s)"

definition needed :: "ResolvedHostPacingPolicy \<Rightarrow> HostPacingState \<Rightarrow> int" where
  "needed p s = (if at_most_aggressive p s then 0 else 20 * deficit p s - min 19 (clean_streak s))"

lemma step_pos: "0 < recoveryStepMs p"
  by (simp add: recoveryStepMs_def)

lemma div_less_bound: "0 < d \<Longrightarrow> x < n * d \<Longrightarrow> x div d < n" for x d n :: int
proof (rule ccontr)
  assume d: "0 < d" "x < n * d" "\<not> x div d < n"
  then have "n * d \<le> x div d * d" by (intro mult_right_mono) auto
  moreover have "x div d * d \<le> x" using d(1) div_mult_mod_eq [of x d] pos_mod_sign [of d x] by linarith
  ultimately show False using d(2) by linarith
qed

lemma deficit_bound:
  assumes "policy_ok p" "state_ok p s"
  shows "deficit p s \<le> 15"
proof -
  let ?d = "recoveryStepMs p"
  have "interval_ms s - floor_ms p \<le> ceiling_ms p - floor_ms p" using assms by (simp add: state_ok_def)
  also have "\<dots> \<le> 8 * ?d + 4" unfolding recoveryStepMs_def by linarith
  also have "\<dots> \<le> 9 * ?d" unfolding recoveryStepMs_def by linarith
  finally have "interval_ms s - floor_ms p + ?d - 1 < 10 * ?d" by linarith
  then have "(interval_ms s - floor_ms p + ?d - 1) div ?d < 10" using step_pos [of p] by (intro div_less_bound) simp_all
  then show ?thesis using assms by (simp add: deficit_def state_ok_def policy_ok_def)
qed

lemma deficit_positive:
  assumes "state_ok p s" "\<not> at_most_aggressive p s"
  shows "1 \<le> deficit p s"
proof (cases "floor_ms p < interval_ms s")
  case True
  let ?d = "recoveryStepMs p"
  have "1 * ?d \<le> interval_ms s - floor_ms p + ?d - 1" using True by simp
  then have "1 \<le> (interval_ms s - floor_ms p + ?d - 1) div ?d"
    using step_pos [of p] zdiv_mono1 [of "1 * ?d" "interval_ms s - floor_ms p + ?d - 1" ?d] by simp
  then show ?thesis by (simp add: deficit_def)
next
  case False
  then show ?thesis using assms by (simp add: deficit_def at_most_aggressive_def)
qed

lemma deficit_recovery:
  assumes "policy_ok p" "state_ok p s" "\<not> at_most_aggressive p s"
    and t: "interval_ms t = max (floor_ms p) (interval_ms s - recoveryStepMs p)"
      "concurrency t = min (maximum_concurrency p) (concurrency s + 1)"
  shows "deficit p t \<le> deficit p s - 1"
proof -
  let ?d = "recoveryStepMs p" and ?x = "interval_ms s - floor_ms p"
  note pos = step_pos [of p] and one = deficit_positive [OF assms(2,3)]
  have "(interval_ms t - floor_ms p + ?d - 1) div ?d \<le> deficit p s - 1"
  proof (cases "?d \<le> ?x")
    case True
    then have "interval_ms t - floor_ms p + ?d - 1 = (?x + ?d - 1) + (- 1) * ?d" by (simp add: t)
    then have "(interval_ms t - floor_ms p + ?d - 1) div ?d = (?x + ?d - 1) div ?d - 1"
      using pos by (simp only: div_mult_self1)
    then show ?thesis by (simp add: deficit_def)
  next
    case False
    then have "(interval_ms t - floor_ms p + ?d - 1) div ?d = 0" using pos by (simp add: t max_def)
    then show ?thesis using one by simp
  qed
  moreover have "maximum_concurrency p - concurrency t \<le> deficit p s - 1"
    using one by (auto simp: t deficit_def)
  ultimately show ?thesis unfolding deficit_def [of p t] by simp
qed

lemma clean_step_needed:
  assumes "policy_ok p" "state_ok p s" "clean_signal s x"
  shows "needed p (adapted p s x) \<le> max 0 (needed p s - 1)"
proof -
  from assms(3) obtain status latency retry where x: "x = Response status latency retry" "status < 500" "backoffReason s x = None"
    by (auto simp: clean_signal_def)
  have eq: "adapted p s x = decided_state (clean_response p s status latency)"
    using x by (simp add: adapted_def adaptHostPacing_def)
  show ?thesis
  proof (cases "at_most_aggressive p s")
    case True
    then have "at_most_aggressive p (adapted p s x)"
      by (simp add: eq clean_response_def Let_def at_most_aggressive_def)
    then show ?thesis by (simp add: needed_def)
  next
    case slow: False
    note one = deficit_positive [OF assms(2) slow]
    show ?thesis
    proof (cases "clean_streak s + 1 < 20")
      case True
      then have t: "interval_ms (adapted p s x) = interval_ms s" "concurrency (adapted p s x) = concurrency s"
        "clean_streak (adapted p s x) = clean_streak s + 1"
        using slow by (simp_all add: eq clean_response_def hostPacingRecoveryStreak_def Let_def)
      then have "\<not> at_most_aggressive p (adapted p s x)" "deficit p (adapted p s x) = deficit p s"
        using slow by (simp_all add: at_most_aggressive_def deficit_def)
      then show ?thesis using slow True t(3) by (simp add: needed_def)
    next
      case False
      then have t: "interval_ms (adapted p s x) = max (floor_ms p) (interval_ms s - recoveryStepMs p)"
        "concurrency (adapted p s x) = min (maximum_concurrency p) (concurrency s + 1)" "clean_streak (adapted p s x) = 0"
        using slow by (simp_all add: eq clean_response_def hostPacingRecoveryStreak_def Let_def)
      show ?thesis using deficit_recovery [OF assms(1,2) slow t(1,2)] slow False one t(3) by (simp add: needed_def)
    qed
  qed
qed

lemma clean_run_needed:
  "policy_ok p \<Longrightarrow> state_ok p s \<Longrightarrow> clean_run p s xs \<Longrightarrow>
    needed p (foldl (adapted p) s xs) \<le> max 0 (needed p s - int (length xs))"
proof (induction xs arbitrary: s)
  case (Cons x xs)
  then have "state_ok p (adapted p s x)" by (simp add: adapted_def adapt_ok)
  with Cons have "needed p (foldl (adapted p) (adapted p s x) xs) \<le> max 0 (needed p (adapted p s x) - int (length xs))" by simp
  moreover have "needed p (adapted p s x) \<le> max 0 (needed p s - 1)" using Cons.prems by (intro clean_step_needed) auto
  ultimately show ?case by simp
qed (simp add: needed_def)

lemma needed_zero: "state_ok p s \<Longrightarrow> needed p s \<le> 0 \<Longrightarrow> at_most_aggressive p s"
  using deficit_positive [of p s] by (auto simp: needed_def split: if_splits)

lemma foldl_adapted_ok: "policy_ok p \<Longrightarrow> state_ok p s \<Longrightarrow> state_ok p (foldl (adapted p) s xs)"
  by (induction xs arbitrary: s) (simp_all add: adapted_def adapt_ok)

subsection \<open>Properties\<close>

text \<open>Sample data: an asset host declared by one adapter, a state that has backed off, empty tables.\<close>

definition sample_registry :: "string \<Rightarrow> HostPacingPolicy list" where
  "sample_registry v = (if v = ''b'' then [\<lparr>hp_hostname = ''img.example'', hp_kind = Asset, hp_floorMs = 100,
     hp_ceilingMs = 4000, hp_maximumConcurrency = 4, hp_evidence = ''observed''\<rparr>] else [])"

definition sample_policy :: ResolvedHostPacingPolicy where
  "sample_policy = \<lparr>hostname = ''img.example'', host_kind_of = Asset, floor_ms = 100, ceiling_ms = 4000,
     maximum_concurrency = 4, policy_source_of = From_registration, adapter_versions = [''b'']\<rparr>"

definition sample_slow :: HostPacingState where
  "sample_slow = \<lparr>interval_ms = 4000, concurrency = 1, clean_streak = 7, latency_baseline_ms = Some 80\<rparr>"

definition sample_tables :: pacing_tables where
  "sample_tables = \<lparr>host_rows = Map.empty, host_events = []\<rparr>"

lemma not_found_run_clean: "clean_run p s (replicate n (Response 404 5 None))"
  by (induction n arbitrary: s) (simp_all add: clean_signal_def backoffReason_def split: option.split)

text \<open>
  C19. Pacing never leaves its bounds: for a policy resolved from validated registrations and an
  accepted interval setting, whatever was recorded for the host and whatever outcomes,
  restarts and policy changes follow, the interval stays between floor and ceiling, at least one and
  at most the permitted number of requests is in flight (one on a page host), and no delay is
  negative.
\<close>

theorem pacing_stays_in_bounds:
  assumes "\<forall>v\<in>set versions. assertHostPacing (registry v)" and "sourceHostPacingIntervalMilliseconds setting = Inr interval"
    and "list_all op_ok ops"
    and "pacer = fst (fold pacer_step ops (load_pacer db (resolveHostPacingPolicy registry host versions interval) m, db))"
  shows "floor_ms (policy pacer) \<le> interval_ms (current pacer) \<and> interval_ms (current pacer) \<le> ceiling_ms (policy pacer) \<and>
    0 \<le> interval_ms (current pacer) \<and> interval_ms (current pacer) \<le> 60000 \<and>
    1 \<le> concurrency (current pacer) \<and> concurrency (current pacer) \<le> maximum_concurrency (policy pacer) \<and>
    (host_kind_of (policy pacer) = Page \<longrightarrow> concurrency (current pacer) = 1) \<and> 0 \<le> startDelay pacer nowMs"
proof -
  have "pacer_ok (load_pacer db (resolveHostPacingPolicy registry host versions interval) m)"
    using resolved_policy_ok [OF assms(1)] configured_interval_bounds [OF assms(2)] by (simp add: pacer_ok_def load_pacer_def Let_def current_state_ok)
  then have "pacer_ok pacer" using assms(3) by (simp add: assms(4) pacer_steps_ok)
  then show ?thesis by (auto simp: pacer_ok_def policy_ok_def state_ok_def startDelay_def)
qed

definition sample_run :: HostPacer where
  "sample_run = fst (fold pacer_step [Op_start 5, Op_complete 9 3 ''a'' (Some (Response 429 4 (Some 70)))]
     (load_pacer sample_tables (resolveHostPacingPolicy sample_registry ''img.example'' [''b'', ''a''] 500) Production, sample_tables))"

theorem pacing_stays_in_bounds_witness:
  "case sample_run of pacer \<Rightarrow> interval_ms (current pacer) = 350 \<and> concurrency (current pacer) = 2 \<and>
     interval_ms (current pacer) \<le> ceiling_ms (policy pacer)"
proof -
  have reg: "\<forall>v\<in>set [''b'', ''a'']. assertHostPacing (sample_registry v)" by code_simp
  have cfg: "sourceHostPacingIntervalMilliseconds (Some ''500'') = Inr 500" by code_simp
  have ops: "list_all op_ok [Op_start 5, Op_complete 9 3 ''a'' (Some (Response 429 4 (Some 70)))]" by (simp add: op_ok_def)
  have "interval_ms (current sample_run) = 350 \<and> concurrency (current sample_run) = 2" by code_simp
  then show ?thesis
    using pacing_stays_in_bounds [OF reg cfg ops sample_run_def] by simp
qed

text \<open>
  C33. A host always recovers: from any state within its bounds, 300 consecutive clean responses
  bring it back to the floor interval and full concurrency.
\<close>

theorem pacing_recovers:
  assumes "policy_ok p" and "state_ok p s" and "clean_run p s signals" and "300 \<le> length signals"
  shows "interval_ms (foldl (adapted p) s signals) = floor_ms p \<and>
    concurrency (foldl (adapted p) s signals) = maximum_concurrency p"
proof -
  have "needed p s \<le> 300" using deficit_bound [OF assms(1,2)] assms(2) by (auto simp: needed_def state_ok_def)
  then have "needed p (foldl (adapted p) s signals) \<le> 0" using clean_run_needed [OF assms(1-3)] assms(4) by simp
  with needed_zero foldl_adapted_ok [OF assms(1,2)] have "at_most_aggressive p (foldl (adapted p) s signals)" by blast
  with foldl_adapted_ok [OF assms(1,2), of signals] show ?thesis by (auto simp: at_most_aggressive_def state_ok_def)
qed

theorem pacing_recovers_witness:
  "interval_ms (foldl (adapted sample_policy) sample_slow (replicate 300 (Response 404 5 None))) = 100"
  using pacing_recovers [of sample_policy sample_slow "replicate 300 (Response 404 5 None)"] not_found_run_clean
  by (simp add: policy_ok_def state_ok_def sample_policy_def sample_slow_def)

text \<open>
  C34. Deadlines survive: once an outcome is recorded in production, a pacer reloaded from the tables
  is the pacer that recorded it, a Retry-After of a refusal is waited out in full, a page host also
  waits its interval after the completion, and an asset host's deadline is never brought forward.
\<close>

theorem pacer_deadline_survives_reload:
  assumes "policy_ok (policy pacer)" and "state_ok (policy pacer) (current pacer)" and "mode pacer = Production"
    and "completed nowMs random attempt signal pacer db = (pacer', db')" and "0 \<le> random"
  shows "load_pacer db' (policy pacer) Production = pacer' \<and>
    (\<forall>s r. signal = Some s \<longrightarrow> backoffReason (current pacer) s \<noteq> None \<longrightarrow> retry_of s = Some r \<longrightarrow>
       nowMs + r \<le> later + startDelay (load_pacer db' (policy pacer) Production) later) \<and>
    (host_kind_of (policy pacer) = Page \<longrightarrow> nowMs + interval_ms (current pacer') \<le> nextStartAt pacer') \<and>
    (host_kind_of (policy pacer) = Asset \<longrightarrow> nextStartAt pacer \<le> nextStartAt pacer')"
proof -
  have p': "pacer' = fst (completed_pacer nowMs random signal pacer)" and
    db': "host_rows db' (hostname (policy pacer)) = Some (saved_row nowMs pacer')"
    using assms(4) by (auto simp: completed_def case_prod_unfold Let_def save_pacing_def)
  have ok: "state_ok (policy pacer) (current pacer')"
    using completed_pacer_ok [of pacer] assms(1,2) by (auto simp: p' pacer_ok_def completed_pacer_def Let_def)
  have same: "policy pacer' = policy pacer" "mode pacer' = Production"
    using assms(3) by (simp_all add: p' completed_pacer_def Let_def)
  have "currentHostPacingState (policy pacer) (Some (saved_row nowMs pacer')) = current pacer'"
    using ok by (simp add: currentHostPacingState_def saved_row_def clamp_id state_ok_def)
  then have load: "load_pacer db' (policy pacer) Production = pacer'"
    using db' same by (simp add: load_pacer_def) (simp add: saved_row_def)
  have hold: "nowMs + r \<le> nextStartAt pacer'"
    if "signal = Some s" "backoffReason (current pacer) s \<noteq> None" "retry_of s = Some r" for s r
    using that by (auto simp: p' completed_pacer_def adaptHostPacing_def Let_def)
  have "0 \<le> jitter m random" for m using assms(5) by (simp add: jitter_def)
  then have page: "nowMs + interval_ms (current pacer') \<le> nextStartAt pacer'" if "host_kind_of (policy pacer) = Page"
    using that by (simp add: p' completed_pacer_def Let_def le_max_iff_disj)
  have asset: "nextStartAt pacer \<le> nextStartAt pacer'" if "host_kind_of (policy pacer) = Asset"
    using that by (simp add: p' completed_pacer_def Let_def)
  show ?thesis
    using page asset hold [THEN order_trans, of _ _ "later + max 0 (nextStartAt pacer' - later)"]
    by (auto simp: load startDelay_def same)
qed

definition sample_pacer :: HostPacer where
  "sample_pacer = \<lparr>policy = sample_policy, mode = Production, current = sample_slow, nextStartAt = 20\<rparr>"

theorem pacer_deadline_survives_reload_witness:
  "case completed 10 6 ''a'' (Some (Response 429 4 (Some 70))) sample_pacer sample_tables of
     (pacer', db') \<Rightarrow> load_pacer db' sample_policy Production = pacer' \<and> nextStartAt pacer' = 80"
proof -
  have ok: "policy_ok (policy sample_pacer)" "state_ok (policy sample_pacer) (current sample_pacer)" "mode sample_pacer = Production"
    by (simp_all add: sample_pacer_def sample_policy_def sample_slow_def policy_ok_def state_ok_def)
  obtain p d where e: "completed 10 6 ''a'' (Some (Response 429 4 (Some 70))) sample_pacer sample_tables = (p, d)" by force
  moreover have "nextStartAt (fst (completed 10 6 ''a'' (Some (Response 429 4 (Some 70))) sample_pacer sample_tables)) = 80"
    by code_simp
  ultimately show ?thesis
    using pacer_deadline_survives_reload [OF ok e] by (simp add: e) (simp add: sample_pacer_def)
qed

end
