(* ===== verification/Serialization.thy ===== *)
theory Serialization
  imports Js_Text Streaming_Sha256 "HOL-Library.List_Lexorder" "HOL-Library.Multiset"
begin

text \<open>
  Canonical JSON, \<open>src/src/catalogue/shared/serialization.ts\<close>: the text every digest of the catalogue is
  taken from. Object keys are sorted by the UTF-8 form of their NFC normalisation; numbers must be
  integers. Unicode normalisation is a parameter \<open>nfc\<close>; \<open>JSON.stringify\<close> of a string is modelled unit by
  unit, with its escapes. Integers of magnitude \<open>10 ^ 21\<close> and more, which JavaScript prints with an
  exponent, are outside the model.
\<close>

subsection \<open>Values\<close>

datatype js_value =
    VNull
  | VBool bool
  | VInt int
  | VFraction                                    \<comment> \<open>any other number: a fraction, NaN, an infinity\<close>
  | VText js_string
  | VArray "js_value list"
  | VObject "(js_string \<times> js_value) list"        \<comment> \<open>own enumerable properties, in order\<close>
  | VOther                                       \<comment> \<open>undefined, a function, a symbol, a bigint\<close>

datatype path_item = Index nat | Key js_string

datatype serial_error = Finite_integers_only "path_item list" | Unsupported_value "path_item list"

definition ascii :: "string \<Rightarrow> js_string" where
  "ascii s = map (\<lambda>c. of_nat (of_char c)) s"

subsection \<open>Order of keys\<close>

definition plain_ascii :: "js_string \<Rightarrow> bool" where
  "plain_ascii s \<longleftrightarrow> list_all (\<lambda>c. unat c < 0x80) s"

text \<open>JavaScript compares strings by their code units.\<close>

fun units_less :: "js_string \<Rightarrow> js_string \<Rightarrow> bool" where
  "units_less s [] = False"
| "units_less [] (d # ds) = True"
| "units_less (c # cs) (d # ds) = (c < d \<or> c = d \<and> units_less cs ds)"

text \<open>The loop over the shared length, then the difference of lengths.\<close>

fun byte_difference :: "bytes \<Rightarrow> bytes \<Rightarrow> int" where
  "byte_difference (b # bs) (c # cs) = (let difference = uint b - uint c in if difference \<noteq> 0 then difference else byte_difference bs cs)"
| "byte_difference bs cs = int (length bs) - int (length cs)"

definition compareUtf8 :: "(js_string \<Rightarrow> js_string) \<Rightarrow> js_string \<Rightarrow> js_string \<Rightarrow> int" where
  "compareUtf8 nfc left right =
     (if plain_ascii left \<and> plain_ascii right then (if units_less left right then - 1 else if units_less right left then 1 else 0)
      else byte_difference (utf8 (nfc left)) (utf8 (nfc right)))"

text \<open>\<open>Array.prototype.sort\<close> with a comparator: stable.\<close>

fun insert_by :: "('a \<Rightarrow> 'a \<Rightarrow> int) \<Rightarrow> 'a \<Rightarrow> 'a list \<Rightarrow> 'a list" where
  "insert_by compare x [] = [x]"
| "insert_by compare x (y # ys) = (if compare x y \<le> 0 then x # y # ys else y # insert_by compare x ys)"

definition sort_by :: "('a \<Rightarrow> 'a \<Rightarrow> int) \<Rightarrow> 'a list \<Rightarrow> 'a list" where
  "sort_by compare xs = foldr (insert_by compare) xs []"

subsection \<open>Text\<close>

definition hex4 :: "u16 \<Rightarrow> js_string" where
  "hex4 c = map (\<lambda>k. of_nat (of_char (hex_digit (unat (drop_bit (4 * k) c AND 15))))) [3, 2, 1, 0]"

definition escape_unit :: "u16 \<Rightarrow> js_string" where
  "escape_unit c =
     (if c = 34 then [92, 34] else if c = 92 then [92, 92]
      else if c = 8 then [92, 98] else if c = 12 then [92, 102] else if c = 10 then [92, 110] else if c = 13 then [92, 114]
      else if c = 9 then [92, 116]
      else if unat c < 32 \<or> is_high c \<or> is_low c then [92, 117] @ hex4 c
      else [c])"

text \<open>A surrogate pair is copied; a surrogate on its own is escaped.\<close>

fun escape_units :: "js_string \<Rightarrow> js_string" where
  "escape_units [] = []"
| "escape_units [c] = escape_unit c"
| "escape_units (c # d # cs) = (if is_high c \<and> is_low d then c # d # escape_units cs else escape_unit c @ escape_units (d # cs))"

definition quote :: "js_string \<Rightarrow> js_string" where
  "quote s = 34 # escape_units s @ [34]"

definition int_text :: "int \<Rightarrow> js_string" where
  "int_text n = ascii (if n < 0 then CHR ''-'' # decimal (nat (- n)) else decimal (nat n))"

fun join_with :: "u16 \<Rightarrow> js_string list \<Rightarrow> js_string" where
  "join_with c [] = []"
| "join_with c [s] = s"
| "join_with c (s # t # ss) = s @ c # join_with c (t # ss)"

fun collect :: "('e + 'a) list \<Rightarrow> 'e + 'a list" where
  "collect [] = Inr []"
| "collect (r # rs) = rbind r (\<lambda>x. rbind (collect rs) (\<lambda>xs. Inr (x # xs)))"

text \<open>The value of a field does not depend on the order, so it is computed before the keys are sorted.\<close>

function canonicalJsonAt :: "(js_string \<Rightarrow> js_string) \<Rightarrow> path_item list \<Rightarrow> js_value \<Rightarrow> serial_error + js_string" where
  "canonicalJsonAt nfc path (VArray items) =
     rbind (collect (map (\<lambda>(i, x). canonicalJsonAt nfc (path @ [Index i]) x) (enumerate 0 items)))
       (\<lambda>texts. Inr (91 # join_with 44 texts @ [93]))"
| "canonicalJsonAt nfc path (VObject props) =
     rbind (collect (map (\<lambda>(key, r). rbind r (\<lambda>t. Inr (quote (nfc key) @ 58 # t)))
         (sort_by (\<lambda>f g. compareUtf8 nfc (fst f) (fst g))
           (map (\<lambda>(key, x). (key, canonicalJsonAt nfc (path @ [Key key]) x)) props))))
       (\<lambda>texts. Inr (123 # join_with 44 texts @ [125]))"
| "canonicalJsonAt nfc path (VText s) = Inr (quote (nfc s))"
| "canonicalJsonAt nfc path VFraction = Inl (Finite_integers_only path)"
| "canonicalJsonAt nfc path VNull = Inr (ascii ''null'')"
| "canonicalJsonAt nfc path (VInt n) = Inr (int_text n)"
| "canonicalJsonAt nfc path (VBool b) = Inr (ascii (if b then ''true'' else ''false''))"
| "canonicalJsonAt nfc path VOther = Inl (Unsupported_value path)"
  by pat_completeness auto
termination
proof (relation "measure (\<lambda>(nfc, path, v). size v)", goal_cases)
  case (2 nfc path items z i x)
  then have "x \<in> set items" by (auto simp: enumerate_eq_zip dest: set_zip_rightD)
  then show ?case by (induction items) auto
next
  case (3 nfc path props z key x)
  then have "(key, x) \<in> set props" by simp
  then show ?case by (induction props) auto
qed simp

definition canonicalJson :: "(js_string \<Rightarrow> js_string) \<Rightarrow> js_value \<Rightarrow> serial_error + js_string" where
  "canonicalJson nfc v = canonicalJsonAt nfc [] v"

definition canonicalNdjson :: "(js_string \<Rightarrow> js_string) \<Rightarrow> js_value list \<Rightarrow> serial_error + bytes" where
  "canonicalNdjson nfc records = rbind (collect (map (canonicalJson nfc) records))
     (\<lambda>texts. Inr (utf8 (join_with 10 texts @ (if records = [] then [] else [10]))))"

definition sha256Text :: "js_string \<Rightarrow> string" where
  "sha256Text s = sha256_standard (utf8 s)"

subsection \<open>The two paths of the comparison\<close>

definition bytes_sign :: "bytes \<Rightarrow> bytes \<Rightarrow> int" where
  "bytes_sign bs cs = (if map uint bs < map uint cs then - 1 else if map uint cs < map uint bs then 1 else 0)"

lemma byte_difference_sign: "sgn (byte_difference bs cs) = bytes_sign bs cs"
proof (induction bs arbitrary: cs)
  case Nil
  then show ?case by (cases cs) (simp_all add: bytes_sign_def sgn_if)
next
  case (Cons b bs)
  show ?case
  proof (cases cs)
    case (Cons c ds)
    show ?thesis
    proof (cases "uint b = uint c")
      case True
      then show ?thesis using Cons.IH [of ds] Cons by (simp add: bytes_sign_def)
    qed (auto simp: Cons bytes_sign_def sgn_if)
  qed (simp add: bytes_sign_def sgn_if)
qed

lemma utf8_ascii: "plain_ascii s \<Longrightarrow> utf8 s = map (\<lambda>c. of_nat (unat c)) s"
proof (induction s rule: code_points.induct)
  case (3 c d cs)
  then have "\<not> is_high c" "\<not> is_low c" "unat c < 128" by (auto simp: plain_ascii_def is_high_def is_low_def)
  then show ?case using 3 by (simp add: utf8_def plain_ascii_def utf8_point_def)
qed (auto simp: utf8_def plain_ascii_def utf8_point_def is_high_def is_low_def)

lemma units_less_ascii:
  "plain_ascii s \<Longrightarrow> plain_ascii t \<Longrightarrow> units_less s t \<longleftrightarrow> map uint (utf8 s) < map uint (utf8 t)"
proof -
  have byte: "uint (of_nat n :: u8) = int n" if "n < 128" for n using that by (simp add: unsigned_of_nat take_bit_nat_eq_self_iff)
  have u: "map uint (utf8 r) = map (\<lambda>c. int (unat c)) r" if "plain_ascii r" for r
    unfolding utf8_ascii [OF that] map_map comp_def using that by (intro map_cong refl byte) (simp add: plain_ascii_def list_all_iff)
  have "units_less s t \<longleftrightarrow> map (\<lambda>c. int (unat c)) s < map (\<lambda>c. int (unat c)) t"
    by (induction s t rule: units_less.induct) (auto simp: word_less_def word_uint_eq_iff)
  moreover assume "plain_ascii s" "plain_ascii t"
  ultimately show ?thesis by (simp only: u)
qed

lemma compare_sign:
  assumes "\<And>s. plain_ascii s \<Longrightarrow> nfc s = s"
  shows "sgn (compareUtf8 nfc left right) = bytes_sign (utf8 (nfc left)) (utf8 (nfc right))"
  using assms [of left] assms [of right] units_less_ascii [of left right] units_less_ascii [of right left]
  by (simp add: compareUtf8_def byte_difference_sign) (auto simp: bytes_sign_def)

text \<open>
  C40. The fast path of \<open>compareUtf8\<close> is an optimisation only: for every pair of strings the sign of the
  comparison is the order of the UTF-8 bytes of the two normalised strings, whichever path is taken.
\<close>

theorem compare_utf8_is_byte_order:
  assumes "\<And>s. plain_ascii s \<Longrightarrow> nfc s = s"
  shows "sgn (compareUtf8 nfc left right) = bytes_sign (utf8 (nfc left)) (utf8 (nfc right))"
  by (rule compare_sign) (rule assms)

subsection \<open>Reading a quoted string back\<close>

definition unhex :: "u16 \<Rightarrow> nat" where
  "unhex c = (if unat c < 58 then unat c - 48 else unat c - 87)"

definition unhex4 :: "js_string \<Rightarrow> u16" where
  "unhex4 ds = of_nat (foldl (\<lambda>n d. 16 * n + unhex d) 0 ds)"

definition unescape_char :: "u16 \<Rightarrow> u16" where
  "unescape_char e = (if e = 98 then 8 else if e = 102 then 12 else if e = 110 then 10 else if e = 114 then 13 else if e = 116 then 9 else e)"

fun unescape :: "js_string \<Rightarrow> (js_string \<times> js_string) option" where
  "unescape [] = None"
| "unescape (c # cs) =
     (if c = 34 then Some ([], cs)
      else if c = 92 then (case cs of
          [] \<Rightarrow> None
        | e # rest \<Rightarrow>
            if e = 117 then map_option (apfst ((#) (unhex4 (take 4 rest)))) (unescape (drop 4 rest))
            else map_option (apfst ((#) (unescape_char e))) (unescape rest))
      else map_option (apfst ((#) c)) (unescape cs))"

lemma unhex_digit: "n < 16 \<Longrightarrow> unhex (of_nat (of_char (hex_digit n))) = n"
proof -
  have "\<forall>n\<in>{0..<16}. unhex (of_nat (of_char (hex_digit n))) = n" by code_simp
  then show "n < 16 \<Longrightarrow> unhex (of_nat (of_char (hex_digit n))) = n" by simp
qed

lemma unat_u16: "unat (c::u16) < 65536"
proof -
  have "unat c < 2 ^ LENGTH(16)" by (rule unsigned_less)
  then show ?thesis by simp
qed

lemma nibble: "unat (drop_bit (4 * k) (c::u16) AND 15) = unat c div 16 ^ k mod 16"
proof -
  have same: "take_bit 16 (unat c) = unat c" using unat_u16 [of c] by (simp add: take_bit_nat_eq_self_iff)
  have "drop_bit (4 * k) c AND 15 = take_bit 4 (drop_bit (4 * k) c)" by (simp add: take_bit_eq_mask mask_eq_exp_minus_1)
  then have "unat (drop_bit (4 * k) c AND 15) = take_bit 4 (drop_bit (4 * k) (unat c))"
    using same by (simp add: unsigned_take_bit_eq unsigned_drop_bit_eq)
  also have "\<dots> = unat c div 16 ^ k mod 16" by (simp add: take_bit_eq_mod drop_bit_eq_div power_mult)
  finally show ?thesis .
qed

lemma unhex4_hex4: "unhex4 (hex4 c) = c"
proof -
  let ?n = "unat c"
  have n: "?n < 65536" using unat_u16 by simp
  have "unhex4 (hex4 c) = of_nat (16 * (16 * (16 * (?n div 4096 mod 16) + ?n div 256 mod 16) + ?n div 16 mod 16) + ?n mod 16)"
    using nibble [of 3 c] nibble [of 2 c] nibble [of 1 c] nibble [of 0 c] by (simp add: unhex4_def hex4_def unhex_digit)
  also have "16 * (16 * (16 * (?n div 4096 mod 16) + ?n div 256 mod 16) + ?n div 16 mod 16) + ?n mod 16 = ?n"
  proof -
    have d: "?n div 256 = ?n div 16 div 16" "?n div 4096 = ?n div 16 div 16 div 16" by (simp_all add: div_mult2_eq [symmetric])
    have "?n div 4096 < 16" using n by (simp add: less_mult_imp_div_less)
    then have "?n div 4096 mod 16 = ?n div 16 div 16 div 16" unfolding d by simp
    then show ?thesis unfolding d using mult_div_mod_eq [of 16 "?n div 16 div 16"] mult_div_mod_eq [of 16 "?n div 16"] mult_div_mod_eq [of 16 ?n] by presburger
  qed
  finally show ?thesis by simp
qed

lemma length_hex4: "length (hex4 c) = 4"
  by (simp add: hex4_def)

lemma unescape_unit: "unescape (escape_unit c @ rest) = map_option (apfst ((#) c)) (unescape rest)"
  by (auto simp: escape_unit_def unescape_char_def unhex4_hex4 length_hex4)

lemma surrogate_plain: "is_high c \<Longrightarrow> c \<noteq> 34 \<and> c \<noteq> 92" "is_low c \<Longrightarrow> c \<noteq> 34 \<and> c \<noteq> 92"
  by (auto simp: is_high_def is_low_def)

lemma unescape_units: "unescape (escape_units s @ 34 # rest) = Some (s, rest)"
proof (induction s rule: escape_units.induct)
  case (3 c d cs)
  show ?case
  proof (cases "is_high c \<and> is_low d")
    case True
    then have "unescape (c # d # escape_units cs @ 34 # rest) = map_option (apfst ((#) c)) (map_option (apfst ((#) d)) (unescape (escape_units cs @ 34 # rest)))"
      using surrogate_plain(1) [of c] surrogate_plain(2) [of d] by simp
    then show ?thesis using 3(1) [OF True] True by simp
  next
    case False
    then have "escape_units (c # d # cs) = escape_unit c @ escape_units (d # cs)" by auto
    then show ?thesis using 3(2) [OF False] by (simp add: unescape_unit del: unescape.simps escape_units.simps)
  qed
qed (simp_all add: unescape_unit)

lemma quote_inject:
  assumes "quote s @ r = quote t @ q"
  shows "s = t \<and> r = q"
proof -
  have "escape_units s @ 34 # r = escape_units t @ 34 # q" using assms by (simp add: quote_def)
  then have "unescape (escape_units s @ 34 # r) = unescape (escape_units t @ 34 # q)" by (rule arg_cong)
  then show ?thesis by (simp only: unescape_units option.inject prod.inject)
qed

subsection \<open>The content of a canonical text\<close>

text \<open>What a canonical text stands for: texts normalised, properties in canonical order.\<close>

datatype content =
    CNull
  | CBool bool
  | CInt int
  | CText js_string
  | CArray "content list"
  | CObject "(js_string \<times> content) list"

function content_at :: "(js_string \<Rightarrow> js_string) \<Rightarrow> path_item list \<Rightarrow> js_value \<Rightarrow> serial_error + content" where
  "content_at nfc path (VArray items) =
     rbind (collect (map (\<lambda>(i, x). content_at nfc (path @ [Index i]) x) (enumerate 0 items))) (\<lambda>cs. Inr (CArray cs))"
| "content_at nfc path (VObject props) =
     rbind (collect (map (\<lambda>(key, r). rbind r (\<lambda>c. Inr (nfc key, c)))
         (sort_by (\<lambda>f g. compareUtf8 nfc (fst f) (fst g)) (map (\<lambda>(key, x). (key, content_at nfc (path @ [Key key]) x)) props))))
       (\<lambda>cs. Inr (CObject cs))"
| "content_at nfc path (VText s) = Inr (CText (nfc s))"
| "content_at nfc path VFraction = Inl (Finite_integers_only path)"
| "content_at nfc path VNull = Inr CNull"
| "content_at nfc path (VInt n) = Inr (CInt n)"
| "content_at nfc path (VBool b) = Inr (CBool b)"
| "content_at nfc path VOther = Inl (Unsupported_value path)"
  by pat_completeness auto
termination
proof (relation "measure (\<lambda>(nfc, path, v). size v)", goal_cases)
  case (2 nfc path items z i x)
  then have "x \<in> set items" by (auto simp: enumerate_eq_zip dest: set_zip_rightD)
  then show ?case by (induction items) auto
next
  case (3 nfc path props z key x)
  then have "(key, x) \<in> set props" by simp
  then show ?case by (induction props) auto
qed simp

fun print :: "content \<Rightarrow> js_string" where
  "print CNull = ascii ''null''"
| "print (CBool b) = ascii (if b then ''true'' else ''false'')"
| "print (CInt n) = int_text n"
| "print (CText s) = quote s"
| "print (CArray cs) = 91 # join_with 44 (map print cs) @ [93]"
| "print (CObject ps) = 123 # join_with 44 (map (\<lambda>(key, c). quote key @ 58 # print c) ps) @ [125]"

lemma insert_by_map:
  "(\<And>y. compare (f x) (f y) = compare' x y) \<Longrightarrow> map f (insert_by compare' x ys) = insert_by compare (f x) (map f ys)"
  by (induction ys) auto

lemma sort_by_map:
  assumes "\<And>x y. compare (f x) (f y) = compare' x y"
  shows "map f (sort_by compare' xs) = sort_by compare (map f xs)"
proof (induction xs)
  case (Cons x xs)
  have "map f (insert_by compare' x ys) = insert_by compare (f x) (map f ys)" for ys by (rule insert_by_map) (rule assms)
  then show ?case using Cons by (simp add: sort_by_def)
qed (simp add: sort_by_def)

definition into :: "('a \<Rightarrow> 'b) \<Rightarrow> 'e + 'a \<Rightarrow> 'e + 'b" where
  "into h r = rbind r (\<lambda>x. Inr (h x))"

lemma into_simps [simp]: "into h (Inl e) = Inl e" "into h (Inr x) = Inr (h x)"
  by (simp_all add: into_def)

lemma collect_map_sum: "collect (map (\<lambda>x. into h (f x)) xs) = into (map h) (collect (map f xs))"
proof (induction xs)
  case (Cons x xs)
  then show ?case by (cases "f x"; cases "collect (map f xs)") auto
qed simp

lemma canonical_is_print: "canonicalJsonAt nfc path v = into print (content_at nfc path v)"
proof (induction nfc path v rule: content_at.induct)
  case (1 nfc path items)
  have "map (\<lambda>(i, x). canonicalJsonAt nfc (path @ [Index i]) x) (enumerate 0 items) =
      map (\<lambda>z. into print (case z of (i, x) \<Rightarrow> content_at nfc (path @ [Index i]) x)) (enumerate 0 items)"
    using 1 by (intro map_cong refl) auto
  then have "collect (map (\<lambda>(i, x). canonicalJsonAt nfc (path @ [Index i]) x) (enumerate 0 items)) =
      into (map print) (collect (map (\<lambda>(i, x). content_at nfc (path @ [Index i]) x) (enumerate 0 items)))"
    by (simp only: collect_map_sum)
  then show ?case by (cases "collect (map (\<lambda>(i, x). content_at nfc (path @ [Index i]) x) (enumerate 0 items))") simp_all
next
  case (2 nfc path props)
  let ?cmp = "\<lambda>f g. compareUtf8 nfc (fst f) (fst g)"
  let ?cs = "sort_by ?cmp (map (\<lambda>(key, x). (key, content_at nfc (path @ [Key key]) x)) props)"
  have "map (\<lambda>(key, x). (key, canonicalJsonAt nfc (path @ [Key key]) x)) props =
      map (apsnd (into print)) (map (\<lambda>(key, x). (key, content_at nfc (path @ [Key key]) x)) props)"
    using 2 by (auto intro!: map_cong)
  then have "sort_by ?cmp (map (\<lambda>(key, x). (key, canonicalJsonAt nfc (path @ [Key key]) x)) props) = map (apsnd (into print)) ?cs"
    by (simp only: sort_by_map [where f = "apsnd (into print)" and compare = ?cmp and compare' = ?cmp] fst_apsnd)
  then have "map (\<lambda>(key, r). rbind r (\<lambda>t. Inr (quote (nfc key) @ 58 # t)))
        (sort_by ?cmp (map (\<lambda>(key, x). (key, canonicalJsonAt nfc (path @ [Key key]) x)) props)) =
      map (\<lambda>z. into (\<lambda>(key, c). quote key @ 58 # print c) (case z of (key, r) \<Rightarrow> rbind r (\<lambda>c. Inr (nfc key, c)))) ?cs"
    by (auto simp: into_def rbind_assoc)
  then have "collect (map (\<lambda>(key, r). rbind r (\<lambda>t. Inr (quote (nfc key) @ 58 # t)))
        (sort_by ?cmp (map (\<lambda>(key, x). (key, canonicalJsonAt nfc (path @ [Key key]) x)) props))) =
      into (map (\<lambda>(key, c). quote key @ 58 # print c)) (collect (map (\<lambda>(key, r). rbind r (\<lambda>c. Inr (nfc key, c))) ?cs))"
    by (simp only: collect_map_sum)
  then show ?case by (cases "collect (map (\<lambda>(key, r). rbind r (\<lambda>c. Inr (nfc key, c))) ?cs)") simp_all
qed simp_all

subsection \<open>A text has one content\<close>

definition delimited :: "js_string \<Rightarrow> bool" where
  "delimited s \<longleftrightarrow> s = [] \<or> hd s \<in> {44, 93, 125}"

definition numeric :: "u16 \<Rightarrow> bool" where
  "numeric c \<longleftrightarrow> c = 45 \<or> 48 \<le> unat c \<and> unat c \<le> 57"

lemma unat_char: "unat (of_nat (of_char c) :: u16) = of_char c"
proof -
  have "of_char c < (65536 :: nat)" using nat_of_char_less_256 [of c] by linarith
  then show ?thesis by (simp add: unsigned_of_nat take_bit_nat_eq_self_iff)
qed

lemma ascii_inject: "ascii s = ascii t \<Longrightarrow> s = t"
proof -
  have "inj (\<lambda>c. of_nat (of_char c) :: u16)" by (rule injI) (metis of_char_eq_iff unat_char)
  then show "ascii s = ascii t \<Longrightarrow> s = t" unfolding ascii_def by (simp add: inj_map_eq_map)
qed

lemma numeric_ascii: "list_all is_digit s \<Longrightarrow> list_all numeric (ascii s)"
  by (auto simp: ascii_def list_all_iff numeric_def is_digit_def unat_char)

lemma int_text_inject: "int_text m = int_text n \<Longrightarrow> m = n"
proof -
  have dec: "decimal a = decimal b \<Longrightarrow> a = b" for a b by (metis parse_decimal_decimal)
  have sign: "decimal a \<noteq> CHR ''-'' # cs" for a cs using decimal_digits [of a] by (auto simp: is_digit_def)
  assume "int_text m = int_text n"
  then have "(if m < 0 then CHR ''-'' # decimal (nat (- m)) else decimal (nat m)) = (if n < 0 then CHR ''-'' # decimal (nat (- n)) else decimal (nat n))"
    unfolding int_text_def by (rule ascii_inject)
  then show "m = n" using sign sign [symmetric] by (auto split: if_splits dest!: dec)
qed

lemma int_text_numeric: "int_text n \<noteq> []" "list_all numeric (int_text n)"
  using decimal_digits [of "nat n"] decimal_digits [of "nat (- n)"] numeric_ascii
  by (auto simp: int_text_def ascii_def numeric_def)

lemma delimited_not_numeric: "delimited s \<Longrightarrow> takeWhile numeric s = []"
  by (cases s) (auto simp: delimited_def numeric_def)

lemma int_text_prefix:
  assumes "int_text m @ s = int_text n @ t" "delimited s" "delimited t"
  shows "m = n \<and> s = t"
proof -
  have "takeWhile numeric (int_text k @ r) = int_text k" if "delimited r" for k r
    using int_text_numeric(2) [of k] delimited_not_numeric [OF that] by (simp add: takeWhile_append list_all_iff)
  then have "int_text m = int_text n" using assms by metis
  then show ?thesis using assms(1) int_text_inject by auto
qed

text \<open>The first unit of a text tells what kind of value it is.\<close>

definition starts :: "content \<Rightarrow> u16 \<Rightarrow> bool" where
  "starts v c = (case v of CNull \<Rightarrow> c = 110 | CBool True \<Rightarrow> c = 116 | CBool False \<Rightarrow> c = 102 | CInt _ \<Rightarrow> numeric c | CText _ \<Rightarrow> c = 34
     | CArray _ \<Rightarrow> c = 91 | CObject _ \<Rightarrow> c = 123)"

lemma print_starts: "print v \<noteq> [] \<and> starts v (hd (print v))"
proof (cases v)
  case (CInt n)
  then show ?thesis using int_text_numeric [of n] by (cases "int_text n") (auto simp: starts_def)
qed (auto simp: starts_def ascii_def quote_def split: bool.split)

lemma starts_kinds: "print v @ s = print w @ t \<Longrightarrow> \<exists>c. starts v c \<and> starts w c"
  using print_starts [of v] print_starts [of w] by (metis hd_append)

lemma join_with_Cons: "join_with c (s # ss) = s @ concat (map ((#) c) ss)"
  by (induction ss arbitrary: s) auto

lemma tails_inject:
  assumes "\<And>x. x \<in> set xs \<Longrightarrow> (\<And>y s t. f x @ s = f y @ t \<Longrightarrow> delimited s \<Longrightarrow> delimited t \<Longrightarrow> x = y \<and> s = t)"
    and "concat (map (\<lambda>x. 44 # f x) xs) @ e # s = concat (map (\<lambda>x. 44 # f x) ys) @ e # t" "e \<in> {93, 125}"
  shows "xs = ys \<and> s = t"
  using assms
proof (induction xs arbitrary: ys)
  case Nil
  then show ?case by (cases ys) auto
next
  case (Cons x xs)
  from Cons.prems(2,3) obtain y zs where ys: "ys = y # zs" by (cases ys) auto
  have rest: "delimited (concat (map (\<lambda>x. 44 # f x) zs) @ e # r)" for zs r using Cons.prems(3) by (cases zs) (auto simp: delimited_def)
  have "f x @ (concat (map (\<lambda>x. 44 # f x) xs) @ e # s) = f y @ (concat (map (\<lambda>x. 44 # f x) zs) @ e # t)" using Cons.prems(2) ys by simp
  then have "x = y \<and> concat (map (\<lambda>x. 44 # f x) xs) @ e # s = concat (map (\<lambda>x. 44 # f x) zs) @ e # t"
    using Cons.prems(1) [of x] rest by simp
  then have xy: "x = y" "concat (map (\<lambda>x. 44 # f x) xs) @ e # s = concat (map (\<lambda>x. 44 # f x) zs) @ e # t" by blast+
  have "xs = zs \<and> s = t"
  proof (rule Cons.IH [OF _ xy(2) Cons.prems(3)])
    fix q r a b assume "q \<in> set xs" "f q @ a = f r @ b" "delimited a" "delimited b"
    then show "q = r \<and> a = b" using Cons.prems(1) [of q a r b] by auto
  qed
  then show ?case using xy ys by simp
qed

lemma items_inject:
  assumes "\<And>x. x \<in> set xs \<Longrightarrow> (\<And>y s t. f x @ s = f y @ t \<Longrightarrow> delimited s \<Longrightarrow> delimited t \<Longrightarrow> x = y \<and> s = t)"
    and "join_with 44 (map f xs) @ e # s = join_with 44 (map f ys) @ e # t" "e \<in> {93, 125}"
    and "\<And>x. f x \<noteq> [] \<and> hd (f x) \<notin> {93, 125}"
  shows "xs = ys \<and> s = t"
proof (cases xs)
  case Nil
  show ?thesis
  proof (cases ys)
    case (Cons y zs)
    then show ?thesis using Nil assms(2,3) assms(4) [of y] by (cases "f y") (auto simp: join_with_Cons)
  qed (use Nil assms(2) in simp)
next
  case (Cons x xs')
  obtain y zs where ys: "ys = y # zs"
    using Cons assms(2,3) assms(4) [of x] by (cases ys; cases "f x") (auto simp: join_with_Cons)
  have rest: "delimited (concat (map (\<lambda>x. 44 # f x) zs) @ e # r)" for zs r using assms(3) by (cases zs) (auto simp: delimited_def)
  have "f x @ (concat (map (\<lambda>x. 44 # f x) xs') @ e # s) = f y @ (concat (map (\<lambda>x. 44 # f x) zs) @ e # t)"
    using assms(2) Cons ys by (simp add: join_with_Cons comp_def)
  then have xy: "x = y" "concat (map (\<lambda>x. 44 # f x) xs') @ e # s = concat (map (\<lambda>x. 44 # f x) zs) @ e # t"
    using assms(1) [of x] rest Cons by auto
  have "xs' = zs \<and> s = t" by (rule tails_inject [OF _ xy(2) assms(3)]) (use assms(1) Cons in auto)
  then show ?thesis using Cons ys xy by simp
qed

lemma print_inject: "print v @ s = print w @ t \<Longrightarrow> delimited s \<Longrightarrow> delimited t \<Longrightarrow> v = w \<and> s = t"
proof (induction v arbitrary: w s t)
  case (CArray xs)
  obtain ys where w: "w = CArray ys" using starts_kinds [OF CArray.prems(1)]
    by (cases w) (auto simp: starts_def numeric_def split: bool.splits)
  have "xs = ys \<and> s = t"
  proof (rule items_inject)
    show "join_with 44 (map print xs) @ 93 # s = join_with 44 (map print ys) @ 93 # t" using CArray.prems(1) w by simp
    show "print x \<noteq> [] \<and> hd (print x) \<notin> {93, 125}" for x
      using print_starts [of x] by (auto simp: starts_def numeric_def split: content.splits bool.splits)
  qed (use CArray.IH in auto)
  then show ?case using w by simp
next
  case (CObject ps)
  obtain qs where w: "w = CObject qs" using starts_kinds [OF CObject.prems(1)]
    by (cases w) (auto simp: starts_def numeric_def split: bool.splits)
  let ?f = "\<lambda>(key, c). quote key @ 58 # print c"
  have "ps = qs \<and> s = t"
  proof (rule items_inject [where f = ?f])
    show "join_with 44 (map ?f ps) @ 125 # s = join_with 44 (map ?f qs) @ 125 # t" using CObject.prems(1) w by simp
    show "?f x \<noteq> [] \<and> hd (?f x) \<notin> {93, 125}" for x by (auto simp: quote_def split: prod.split)
    fix x y s t assume x: "x \<in> set ps" and eq: "?f x @ s = ?f y @ t" and d: "delimited s" "delimited t"
    obtain k c k' c' where xy: "x = (k, c)" "y = (k', c')" by fastforce
    from eq have "k = k' \<and> 58 # print c @ s = 58 # print c' @ t" unfolding xy using quote_inject [of k "58 # print c @ s" k' "58 # print c' @ t"] by simp
    then have k: "k = k'" and c: "print c @ s = print c' @ t" by simp_all
    have "c = c' \<and> s = t" by (rule CObject.IH [OF _ _ c d]) (use x xy in auto)
    then show "x = y \<and> s = t" using xy k by simp
  qed simp
  then show ?case using w by simp
next
  case (CInt n)
  obtain m where w: "w = CInt m" using starts_kinds [OF CInt.prems(1)]
    by (cases w) (auto simp: starts_def numeric_def split: bool.splits)
  then show ?case using int_text_prefix [of n s m t] CInt.prems by simp
next
  case (CText x)
  obtain y where w: "w = CText y" using starts_kinds [OF CText.prems(1)]
    by (cases w) (auto simp: starts_def numeric_def split: bool.splits)
  then show ?case using quote_inject [of x s y t] CText.prems by simp
next
  case CNull
  then show ?case using starts_kinds [OF CNull.prems(1)] by (cases w) (auto simp: starts_def numeric_def split: bool.splits)
next
  case (CBool b)
  then show ?case using starts_kinds [OF CBool.prems(1)] by (cases w; cases b) (auto simp: starts_def numeric_def split: bool.splits)
qed

subsection \<open>The order of properties is immaterial\<close>

definition rank :: "(js_string \<Rightarrow> js_string) \<Rightarrow> js_string \<Rightarrow> int list" where
  "rank nfc key = map uint (utf8 (nfc key))"

lemma compare_rank:
  assumes "\<And>s. plain_ascii s \<Longrightarrow> nfc s = s"
  shows "compareUtf8 nfc k l \<le> 0 \<longleftrightarrow> rank nfc k \<le> rank nfc l"
proof -
  have "sgn (compareUtf8 nfc k l) = bytes_sign (utf8 (nfc k)) (utf8 (nfc l))" by (rule compare_sign) (rule assms)
  moreover have "compareUtf8 nfc k l \<le> 0 \<longleftrightarrow> sgn (compareUtf8 nfc k l) \<le> 0" by (simp add: sgn_if)
  ultimately show ?thesis by (auto simp: bytes_sign_def rank_def not_le)
qed

lemma sort_by_key:
  assumes "\<And>x y. compare x y \<le> 0 \<longleftrightarrow> f x \<le> (f y :: 'k :: linorder)"
  shows "sort_by compare xs = sort_key f xs"
proof -
  have "insert_by compare x ys = insort_key f x ys" for x ys by (induction ys) (simp_all add: assms)
  then show ?thesis unfolding sort_by_def by (induction xs) simp_all
qed

lemma object_order:
  assumes "\<And>s. plain_ascii s \<Longrightarrow> nfc s = s" "mset ps = mset qs" "distinct (map (\<lambda>p. rank nfc (fst p)) ps)"
  shows "canonicalJsonAt nfc path (VObject ps) = canonicalJsonAt nfc path (VObject qs)"
proof -
  let ?g = "\<lambda>(key, x). (key, canonicalJsonAt nfc (path @ [Key key]) x)"
  let ?f = "\<lambda>p :: js_string \<times> (serial_error + js_string). rank nfc (fst p)"
  have sorted: "sort_by (\<lambda>f g. compareUtf8 nfc (fst f) (fst g)) xs = sort_key ?f xs" for xs :: "(js_string \<times> (serial_error + js_string)) list"
    by (rule sort_by_key) (rule compare_rank [OF assms(1)])
  have "map ?f (map ?g ps) = map (\<lambda>p. rank nfc (fst p)) ps" by (simp add: comp_def case_prod_unfold)
  then have "distinct (map ?f (map ?g ps))" using assms(3) by metis
  then have inj: "inj_on ?f (set (map ?g ps))" by (simp only: distinct_map)
  have "sort_key ?f (map ?g ps) = sort_key ?f (map ?g qs)"
    by (rule sort_key_inj_key_eq [OF _ inj]) (use assms(2) in simp_all)
  then show ?thesis by (simp add: sorted)
qed


theorem compare_utf8_is_byte_order_witness:
  "sgn (compareUtf8 (\<lambda>s. s) [98, 233] [98, 99]) = bytes_sign (utf8 [98, 233]) (utf8 [98, 99]) \<and> compareUtf8 (\<lambda>s. s) [98, 233] [98, 99] > 0"
proof -
  have "compareUtf8 (\<lambda>s. s) [98, 233] [98, 99] > 0"
    by (simp add: compareUtf8_def plain_ascii_def utf8_def utf8_point_def is_high_def is_low_def)
  then show ?thesis using compare_utf8_is_byte_order [of "\<lambda>s. s" "[98, 233]" "[98, 99]"] by simp
qed


end
