(* ===== verification/Partitioned_Text.thy ===== *)
theory Partitioned_Text
  imports Serialization
begin

text \<open>
  Records with their long texts retained apart, \<open>src/src/catalogue/reconciliation/reconciliation-text.ts\<close>
  and \<open>reconciliation-text-repository.ts\<close>.

  Strings of more than 32768 units are replaced by null in the record and kept as chunks under their
  digest; a list of paths beside the record says where they belong. The table is that of one
  preparation. SQLite stores text as UTF-8, so strings are taken to be well-formed UTF-16. An outage of
  the database, which is rethrown as \<open>ReconciliationTextStorageError\<close>, is outside the model.
\<close>

subsection \<open>Parts\<close>

record TextPart =
  tp_path :: "path_item list"
  tp_sha :: string
  tp_chunks :: nat
  tp_bytes :: nat

record RecordEnvelope =
  re_value :: js_value
  re_parts :: "TextPart list"

type_synonym text_table = "string \<times> nat \<rightharpoonup> js_string"

datatype text_error =
    Replay_changed          \<comment> \<open>Retained text replay changed its immutable content.\<close>
  | Chunk_unavailable       \<comment> \<open>Retained text chunk is unavailable.\<close>
  | Text_integrity          \<comment> \<open>Retained text failed integrity verification.\<close>
  | No_such_path            \<comment> \<open>a TypeError\<close>

definition textUnits :: nat where
  "textUnits = 32768"

definition pageBytes :: nat where
  "pageBytes = 512000"

text \<open>The loop over the normalised text: slices that do not end inside a surrogate pair.\<close>

definition slice_end :: "js_string \<Rightarrow> nat" where
  "slice_end s = (let last = min textUnits (length s) in if last < length s \<and> is_high (s ! (last - 1)) then last - 1 else last)"

lemma slice_end_pos: "s \<noteq> [] \<Longrightarrow> 0 < slice_end s"
  by (auto simp: slice_end_def Let_def textUnits_def)

function text_slices :: "js_string \<Rightarrow> js_string list" where
  "text_slices s = (if s = [] then [] else take (slice_end s) s # text_slices (drop (slice_end s) s))"
  by pat_completeness auto
termination by (relation "measure length") (auto simp: slice_end_pos)

declare text_slices.simps [simp del]

subsection \<open>Retaining\<close>

record retention =
  rt_parts :: "TextPart list"
  rt_pending :: "(string \<times> nat \<times> js_string) list"
  rt_bytes :: nat
  rt_table :: text_table

definition retainReconciliationText :: "string \<times> nat \<Rightarrow> js_string \<Rightarrow> text_table \<Rightarrow> text_table" where
  "retainReconciliationText place content table = (if table place = None then table(place \<mapsto> content) else table)"

text \<open>Every chunk is inserted unless it is there, read back and compared.\<close>

definition retain_chunk :: "string \<times> nat \<times> js_string \<Rightarrow> text_table \<Rightarrow> text_error + text_table" where
  "retain_chunk = (\<lambda>(sha, ordinal, content) table.
     let table' = retainReconciliationText (sha, ordinal) content table
     in if table' (sha, ordinal) \<noteq> Some content then Inl Replay_changed else Inr table')"

definition flush :: "retention \<Rightarrow> text_error + retention" where
  "flush st = rbind (rfold retain_chunk (rt_pending st) (rt_table st))
     (\<lambda>table. Inr (st\<lparr>rt_pending := [], rt_bytes := 0, rt_table := table\<rparr>))"

definition push_slice :: "string \<Rightarrow> nat \<times> js_string \<Rightarrow> retention \<Rightarrow> text_error + retention" where
  "push_slice sha piece st = (case piece of (ordinal, content) \<Rightarrow>
     let size = byte_length (quote content)
     in rbind (if length (rt_pending st) = 16 \<or> rt_bytes st + size > pageBytes then flush st else Inr st)
          (\<lambda>st'. Inr (st'\<lparr>rt_pending := rt_pending st' @ [(sha, ordinal, content)], rt_bytes := rt_bytes st' + size\<rparr>)))"

definition part_of :: "path_item list \<Rightarrow> js_string \<Rightarrow> TextPart" where
  "part_of path normalized = \<lparr>tp_path = path, tp_sha = sha256Text normalized, tp_chunks = length (text_slices normalized),
     tp_bytes = byte_length normalized\<rparr>"

definition retain_text :: "path_item list \<Rightarrow> js_string \<Rightarrow> retention \<Rightarrow> text_error + retention" where
  "retain_text path normalized st =
     rbind (rfold (push_slice (sha256Text normalized)) (enumerate 0 (text_slices normalized)) st)
       (\<lambda>st'. Inr (st'\<lparr>rt_parts := rt_parts st' @ [part_of path normalized]\<rparr>))"

definition is_long :: "js_string \<Rightarrow> bool" where
  "is_long s \<longleftrightarrow> length s > textUnits"

fun visit :: "(js_string \<Rightarrow> js_string) \<Rightarrow> path_item list \<Rightarrow> js_value \<Rightarrow> retention \<Rightarrow> text_error + js_value \<times> retention"
and visit_items :: "(js_string \<Rightarrow> js_string) \<Rightarrow> path_item list \<Rightarrow> nat \<Rightarrow> js_value list \<Rightarrow> retention \<Rightarrow> text_error + js_value list \<times> retention"
and visit_props :: "(js_string \<Rightarrow> js_string) \<Rightarrow> path_item list \<Rightarrow> (js_string \<times> js_value) list \<Rightarrow> retention \<Rightarrow>
    text_error + (js_string \<times> js_value) list \<times> retention" where
  "visit nfc path (VText s) st =
     (if is_long s then rbind (retain_text path (nfc s) st) (\<lambda>st'. Inr (VNull, st')) else Inr (VText s, st))"
| "visit nfc path (VArray xs) st = rbind (visit_items nfc path 0 xs st) (\<lambda>(ys, st'). Inr (VArray ys, st'))"
| "visit nfc path (VObject ps) st = rbind (visit_props nfc path ps st) (\<lambda>(qs, st'). Inr (VObject qs, st'))"
| "visit nfc path v st = Inr (v, st)"
| "visit_items nfc path i [] st = Inr ([], st)"
| "visit_items nfc path i (x # xs) st =
     rbind (visit nfc (path @ [Index i]) x st) (\<lambda>(y, st1).
     rbind (visit_items nfc path (i + 1) xs st1) (\<lambda>(ys, st2). Inr (y # ys, st2)))"
| "visit_props nfc path [] st = Inr ([], st)"
| "visit_props nfc path ((key, x) # ps) st =
     rbind (visit nfc (path @ [Key key]) x st) (\<lambda>(y, st1).
     rbind (visit_props nfc path ps st1) (\<lambda>(qs, st2). Inr ((key, y) # qs, st2)))"

definition retainPartitionedRecord ::
  "(js_string \<Rightarrow> js_string) \<Rightarrow> js_value \<Rightarrow> text_table \<Rightarrow> text_error + RecordEnvelope \<times> text_table" where
  "retainPartitionedRecord nfc record_value table =
     rbind (visit nfc [] record_value \<lparr>rt_parts = [], rt_pending = [], rt_bytes = 0, rt_table = table\<rparr>) (\<lambda>(v, st).
     rbind (flush st) (\<lambda>st'. Inr (\<lparr>re_value = v, re_parts = rt_parts st'\<rparr>, rt_table st')))"

subsection \<open>Restoring\<close>

text \<open>
  A page: at most 16 consecutive rows from an ordinal on, cut where their quoted size passes 512000
  bytes. The size \<open>json_quote\<close> gives a text is a parameter.
\<close>

fun fitting :: "(js_string \<Rightarrow> nat) \<Rightarrow> nat \<Rightarrow> (nat \<times> js_string) list \<Rightarrow> (nat \<times> js_string) list" where
  "fitting quoted used [] = []"
| "fitting quoted used ((ordinal, content) # rows) =
     (if used + quoted content \<le> pageBytes then (ordinal, content) # fitting quoted (used + quoted content) rows else [])"

definition reconciliationTextPage :: "(js_string \<Rightarrow> nat) \<Rightarrow> text_table \<Rightarrow> string \<Rightarrow> nat \<Rightarrow> nat \<Rightarrow> (nat \<times> js_string) list" where
  "reconciliationTextPage quoted table sha ordinal limit = fitting quoted 0 (take 16
     (List.map_filter (\<lambda>o'. map_option (Pair o') (table (sha, o'))) [ordinal..<limit]))"

record text_reader =
  rd_part :: TextPart
  rd_text :: js_string
  rd_ordinal :: nat

fun read_rows :: "(nat \<times> js_string) list \<Rightarrow> text_reader \<Rightarrow> text_error + text_reader" where
  "read_rows [] r = Inr r"
| "read_rows ((ordinal, content) # rows) r =
     (if ordinal \<noteq> rd_ordinal r then Inl Chunk_unavailable
      else read_rows rows (r\<lparr>rd_text := rd_text r @ content, rd_ordinal := rd_ordinal r + 1\<rparr>))"

definition read_page :: "(js_string \<Rightarrow> nat) \<Rightarrow> text_table \<Rightarrow> text_reader \<Rightarrow> text_error + text_reader" where
  "read_page quoted table r =
     (let rows = reconciliationTextPage quoted table (tp_sha (rd_part r)) (rd_ordinal r) (tp_chunks (rd_part r))
      in if rows = [] then Inl Chunk_unavailable else read_rows rows r)"

text \<open>
  The walk to the parent and \<open>defineProperty\<close>, which adds a missing property; an array grown past its end
  has undefined elements between. A step into a value that is no container of that kind is an error.
\<close>

definition put_index :: "nat \<Rightarrow> js_value \<Rightarrow> js_value list \<Rightarrow> js_value list" where
  "put_index i y xs = (if i < length xs then xs[i := y] else xs @ replicate (i - length xs) VOther @ [y])"

definition put_key :: "js_string \<Rightarrow> js_value \<Rightarrow> (js_string \<times> js_value) list \<Rightarrow> (js_string \<times> js_value) list" where
  "put_key k y ps = (if k \<in> fst ` set ps then map (\<lambda>(k', x). if k' = k then (k', y) else (k', x)) ps else ps @ [(k, y)])"

fun plant :: "js_string \<Rightarrow> path_item list \<Rightarrow> js_value \<Rightarrow> text_error + js_value" where
  "plant text [] v = Inr (VText text)"
| "plant text (Index i # path) (VArray xs) =
     (if path = [] then Inr (VArray (put_index i (VText text) xs))
      else if i < length xs then rbind (plant text path (xs ! i)) (\<lambda>y. Inr (VArray (put_index i y xs)))
      else Inl No_such_path)"
| "plant text (Key k # path) (VObject ps) =
     (if path = [] then Inr (VObject (put_key k (VText text) ps))
      else case map_of ps k of
        None \<Rightarrow> Inl No_such_path
      | Some x \<Rightarrow> rbind (plant text path x) (\<lambda>y. Inr (VObject (put_key k y ps))))"
| "plant text path v = Inl No_such_path"

definition reader_finished :: "text_reader \<Rightarrow> bool" where
  "reader_finished r \<longleftrightarrow> tp_chunks (rd_part r) \<le> rd_ordinal r"

definition complete_reader :: "text_reader \<Rightarrow> js_value \<Rightarrow> text_error + js_value" where
  "complete_reader r v =
     (if sha256Text (rd_text r) \<noteq> tp_sha (rd_part r) \<or> byte_length (rd_text r) \<noteq> tp_bytes (rd_part r) then Inl Text_integrity
      else plant (rd_text r) (tp_path (rd_part r)) v)"

text \<open>One iteration: fill up to two readers, read a page for each, complete those at their end, last first.\<close>

definition fill_readers :: "text_reader list \<Rightarrow> TextPart list \<Rightarrow> text_reader list \<times> TextPart list" where
  "fill_readers readers parts = (let n = 2 - length readers
     in (readers @ map (\<lambda>p. \<lparr>rd_part = p, rd_text = [], rd_ordinal = 0\<rparr>) (take n parts), drop n parts))"

definition outstanding :: "text_reader list \<Rightarrow> TextPart list \<Rightarrow> nat" where
  "outstanding readers parts = sum_list (map (\<lambda>r. tp_chunks (rd_part r) - rd_ordinal r) readers) + sum_list (map tp_chunks parts)"

definition read_pages :: "(js_string \<Rightarrow> nat) \<Rightarrow> text_table \<Rightarrow> text_reader list \<Rightarrow> text_error + text_reader list" where
  "read_pages quoted table readers = collect (map (read_page quoted table) readers)"

lemma read_rows_part: "read_rows rows r = Inr r' \<Longrightarrow> rd_part r' = rd_part r \<and> rd_ordinal r' = rd_ordinal r + length rows"
  by (induction rows r rule: read_rows.induct) (auto split: if_splits)

lemma read_rows_ordinals: "read_rows rows r = Inr r' \<Longrightarrow> map fst rows = [rd_ordinal r..<rd_ordinal r + length rows]"
proof (induction rows r rule: read_rows.induct)
  case (2 ordinal content rows r)
  then have "ordinal = rd_ordinal r" "map fst rows = [Suc (rd_ordinal r)..<Suc (rd_ordinal r) + length rows]" by (auto split: if_splits simp del: upt_Suc)
  then show ?case by (simp add: upt_conv_Cons del: upt_Suc)
qed simp

lemma page_ordinals: "(o', content) \<in> set (reconciliationTextPage quoted table sha ordinal limit) \<Longrightarrow> ordinal \<le> o' \<and> o' < limit \<and> table (sha, o') = Some content"
proof -
  have fit: "set (fitting quoted used rows) \<subseteq> set rows" for used rows
    by (induction quoted used rows rule: fitting.induct) auto
  assume "(o', content) \<in> set (reconciliationTextPage quoted table sha ordinal limit)"
  then have "(o', content) \<in> set (List.map_filter (\<lambda>o'. map_option (Pair o') (table (sha, o'))) [ordinal..<limit])"
    unfolding reconciliationTextPage_def using fit set_take_subset by fast
  then show ?thesis by (auto simp: map_filter_def)
qed

lemma read_page_progress:
  assumes "read_page quoted table r = Inr r'"
  shows "rd_part r' = rd_part r" "rd_ordinal r < rd_ordinal r'" "rd_ordinal r' \<le> tp_chunks (rd_part r)"
proof -
  let ?rows = "reconciliationTextPage quoted table (tp_sha (rd_part r)) (rd_ordinal r) (tp_chunks (rd_part r))"
  have ne: "?rows \<noteq> []" and rr: "read_rows ?rows r = Inr r'" using assms by (auto simp: read_page_def Let_def split: if_splits)
  show "rd_part r' = rd_part r" "rd_ordinal r < rd_ordinal r'" using read_rows_part [OF rr] ne by auto
  have "fst (last ?rows) = last (map fst ?rows)" using ne by (simp add: last_map)
  also have "\<dots> = rd_ordinal r + length ?rows - 1" using ne unfolding read_rows_ordinals [OF rr] by simp
  finally have ord: "fst (last ?rows) = rd_ordinal r + length ?rows - 1" .
  have "(fst (last ?rows), snd (last ?rows)) \<in> set ?rows" unfolding prod.collapse using ne by (rule last_in_set)
  then have "fst (last ?rows) < tp_chunks (rd_part r)" using page_ordinals by blast
  then have "rd_ordinal r + length ?rows - 1 < tp_chunks (rd_part r)" unfolding ord .
  then show "rd_ordinal r' \<le> tp_chunks (rd_part r)" using read_rows_part [OF rr] ne by linarith
qed

lemma collect_Inr: "collect rs = Inr xs \<Longrightarrow> list_all2 (\<lambda>r x. r = Inr x) rs xs"
  by (induction rs arbitrary: xs) (auto simp: rbind_eq_Inr)

lemma read_pages_Inr: "read_pages quoted table readers = Inr readers' \<Longrightarrow> list_all2 (\<lambda>r r'. read_page quoted table r = Inr r') readers readers'"
  unfolding read_pages_def by (drule collect_Inr) (simp add: list_all2_map1)

lemma outstanding_fill:
  "fill_readers readers parts = (readers1, parts1) \<Longrightarrow> outstanding readers1 parts1 = outstanding readers parts"
proof -
  assume "fill_readers readers parts = (readers1, parts1)"
  moreover have "sum_list (map tp_chunks (take n parts)) + sum_list (map tp_chunks (drop n parts)) = sum_list (map tp_chunks parts)" for n
    by (metis append_take_drop_id map_append sum_list_append)
  ultimately show ?thesis by (auto simp: fill_readers_def outstanding_def Let_def comp_def)
qed

lemma outstanding_read:
  assumes "read_pages quoted table readers = Inr readers'" "readers \<noteq> []"
  shows "outstanding (filter (\<lambda>r. \<not> reader_finished r) readers') parts < outstanding readers parts"
proof -
  let ?w = "\<lambda>r. tp_chunks (rd_part r) - rd_ordinal r"
  have all: "list_all2 (\<lambda>r r'. ?w r' < ?w r) readers readers'"
    using read_pages_Inr [OF assms(1)] by (rule list_all2_mono) (use read_page_progress in fastforce)
  have "sum_list (map ?w readers') < sum_list (map ?w readers)" using all assms(2)
  proof (induction readers readers' rule: list_all2_induct)
    case (Cons r rs r' rs')
    then show ?case by (cases "rs = []") auto
  qed simp
  moreover have "sum_list (map ?w (filter (\<lambda>r. \<not> reader_finished r) rs)) = sum_list (map ?w rs)" for rs
    by (induction rs) (auto simp: reader_finished_def)
  ultimately show ?thesis by (simp add: outstanding_def)
qed

function restore_loop ::
  "(js_string \<Rightarrow> nat) \<Rightarrow> text_table \<Rightarrow> js_value \<Rightarrow> text_reader list \<Rightarrow> TextPart list \<Rightarrow> text_error + js_value" where
  "restore_loop quoted table v readers parts =
     (if readers = [] \<and> parts = [] then Inr v
      else case fill_readers readers parts of (readers1, parts1) \<Rightarrow>
        (case read_pages quoted table readers1 of
           Inl e \<Rightarrow> Inl e
         | Inr readers2 \<Rightarrow> (case rfold complete_reader (rev (filter reader_finished readers2)) v of
             Inl e \<Rightarrow> Inl e
           | Inr v' \<Rightarrow> restore_loop quoted table v' (filter (\<lambda>r. \<not> reader_finished r) readers2) parts1)))"
  by pat_completeness auto
termination
proof (relation "measure (\<lambda>(quoted, table, v, readers, parts). outstanding readers parts)", simp, goal_cases)
  case (1 quoted table v readers parts readers1 parts1 readers2 v')
  then have "readers1 \<noteq> []" by (auto simp: fill_readers_def Let_def)
  then have "outstanding (filter (\<lambda>r. \<not> reader_finished r) readers2) parts1 < outstanding readers1 parts1" using 1 by (intro outstanding_read) auto
  then show ?case using outstanding_fill [of readers parts readers1 parts1] 1 by simp
qed

declare restore_loop.simps [simp del]

definition restorePartitionedRecord :: "(js_string \<Rightarrow> nat) \<Rightarrow> text_table \<Rightarrow> RecordEnvelope \<Rightarrow> text_error + js_value" where
  "restorePartitionedRecord quoted table envelope = restore_loop quoted table (re_value envelope) [] (re_parts envelope)"

subsection \<open>Envelopes as values\<close>

fun with_error :: "('e \<Rightarrow> 'f) \<Rightarrow> 'e + 'a \<Rightarrow> 'f + 'a" where
  "with_error h (Inl e) = Inl (h e)"
| "with_error h (Inr x) = Inr x"

definition path_value :: "path_item \<Rightarrow> js_value" where
  "path_value p = (case p of Index i \<Rightarrow> VInt (int i) | Key k \<Rightarrow> VText k)"

definition part_value :: "TextPart \<Rightarrow> js_value" where
  "part_value p = VObject [(ascii ''path'', VArray (map path_value (tp_path p))), (ascii ''sha256'', VText (ascii (tp_sha p))),
     (ascii ''chunks'', VInt (int (tp_chunks p))), (ascii ''byte_length'', VInt (int (tp_bytes p)))]"

definition envelope_value :: "RecordEnvelope \<Rightarrow> js_value" where
  "envelope_value e = VObject [(ascii ''contract'', VText (ascii ''card-keepr-partitioned-record@1'')), (ascii ''value'', re_value e),
     (ascii ''text_parts'', VArray (map part_value (re_parts e)))]"

subsection \<open>What is taken out of a record\<close>

text \<open>The long texts of a value with their paths, and the value in which those at the paths \<open>shown\<close> are back.\<close>

fun long_texts :: "(js_string \<Rightarrow> js_string) \<Rightarrow> js_value \<Rightarrow> (path_item list \<times> js_string) list"
and long_items :: "(js_string \<Rightarrow> js_string) \<Rightarrow> nat \<Rightarrow> js_value list \<Rightarrow> (path_item list \<times> js_string) list"
and long_props :: "(js_string \<Rightarrow> js_string) \<Rightarrow> (js_string \<times> js_value) list \<Rightarrow> (path_item list \<times> js_string) list" where
  "long_texts nfc (VText s) = (if is_long s then [([], nfc s)] else [])"
| "long_texts nfc (VArray xs) = long_items nfc 0 xs"
| "long_texts nfc (VObject ps) = long_props nfc ps"
| "long_texts nfc v = []"
| "long_items nfc i [] = []"
| "long_items nfc i (x # xs) = map (apfst ((#) (Index i))) (long_texts nfc x) @ long_items nfc (i + 1) xs"
| "long_props nfc [] = []"
| "long_props nfc ((key, x) # ps) = map (apfst ((#) (Key key))) (long_texts nfc x) @ long_props nfc ps"

fun showing :: "(js_string \<Rightarrow> js_string) \<Rightarrow> path_item list set \<Rightarrow> js_value \<Rightarrow> js_value"
and show_items :: "(js_string \<Rightarrow> js_string) \<Rightarrow> path_item list set \<Rightarrow> nat \<Rightarrow> js_value list \<Rightarrow> js_value list"
and show_props :: "(js_string \<Rightarrow> js_string) \<Rightarrow> path_item list set \<Rightarrow> (js_string \<times> js_value) list \<Rightarrow> (js_string \<times> js_value) list" where
  "showing nfc shown (VText s) = (if is_long s then if [] \<in> shown then VText (nfc s) else VNull else VText s)"
| "showing nfc shown (VArray xs) = VArray (show_items nfc shown 0 xs)"
| "showing nfc shown (VObject ps) = VObject (show_props nfc shown ps)"
| "showing nfc shown v = v"
| "show_items nfc shown i [] = []"
| "show_items nfc shown i (x # xs) = showing nfc {p. Index i # p \<in> shown} x # show_items nfc shown (i + 1) xs"
| "show_props nfc shown [] = []"
| "show_props nfc shown ((key, x) # ps) = (key, showing nfc {p. Key key # p \<in> shown} x) # show_props nfc shown ps"

text \<open>The value a consumer gets back: long texts normalised, everything else as it was.\<close>

fun normalized_texts :: "(js_string \<Rightarrow> js_string) \<Rightarrow> js_value \<Rightarrow> js_value" where
  "normalized_texts nfc (VText s) = VText (if is_long s then nfc s else s)"
| "normalized_texts nfc (VArray xs) = VArray (map (normalized_texts nfc) xs)"
| "normalized_texts nfc (VObject ps) = VObject (map (\<lambda>(key, x). (key, normalized_texts nfc x)) ps)"
| "normalized_texts nfc v = v"

text \<open>An object has one property of each name.\<close>

fun proper :: "js_value \<Rightarrow> bool" where
  "proper (VArray xs) \<longleftrightarrow> list_all proper xs"
| "proper (VObject ps) \<longleftrightarrow> distinct (map fst ps) \<and> list_all (\<lambda>(key, x). proper x) ps"
| "proper v \<longleftrightarrow> True"

lemma showing_all:
  "fst ` set (long_texts nfc v) \<subseteq> shown \<Longrightarrow> showing nfc shown v = normalized_texts nfc v"
  "fst ` set (long_items nfc i xs) \<subseteq> shown \<Longrightarrow> show_items nfc shown i xs = map (normalized_texts nfc) xs"
  "fst ` set (long_props nfc ps) \<subseteq> shown \<Longrightarrow> show_props nfc shown ps = map (\<lambda>(key, x). (key, normalized_texts nfc x)) ps"
proof (induction nfc v and nfc i xs and nfc ps arbitrary: shown and shown and shown rule: long_texts_long_items_long_props.induct)
  case (6 nfc i x xs)
  then have "fst ` set (long_texts nfc x) \<subseteq> {p. Index i # p \<in> shown}" by (auto simp: image_Un image_image)
  then show ?case using 6 by (simp add: image_Un)
next
  case (8 nfc key x ps)
  then have "fst ` set (long_texts nfc x) \<subseteq> {p. Key key # p \<in> shown}" by (auto simp: image_Un image_image)
  then show ?case using 8 by (simp add: image_Un)
qed auto

lemma length_show_items [simp]: "length (show_items nfc shown i xs) = length xs"
  by (induction xs arbitrary: i) auto

lemma show_items_nth: "k < length xs \<Longrightarrow> show_items nfc shown i xs ! k = showing nfc {p. Index (i + k) # p \<in> shown} (xs ! k)"
  by (induction xs arbitrary: i k) (auto simp: nth_Cons' split: nat.splits)

lemma show_props_map: "show_props nfc shown ps = map (\<lambda>(key, x). (key, showing nfc {p. Key key # p \<in> shown} x)) ps"
  by (induction ps) auto

lemma below_iff: "(p, t) \<in> set (map (apfst ((#) a)) ts) \<longleftrightarrow> (\<exists>q. p = a # q \<and> (q, t) \<in> set ts)"
  by (induction ts) auto

lemma long_items_iff: "(p, t) \<in> set (long_items nfc i xs) \<longleftrightarrow> (\<exists>k q. k < length xs \<and> p = Index (i + k) # q \<and> (q, t) \<in> set (long_texts nfc (xs ! k)))"
proof (induction xs arbitrary: i)
  case (Cons x xs)
  have split: "(\<exists>k. k < Suc n \<and> Q k) \<longleftrightarrow> Q 0 \<or> (\<exists>k. k < n \<and> Q (Suc k))" for n and Q :: "nat \<Rightarrow> bool"
    by (metis Suc_less_eq less_Suc_eq_0_disj)
  show ?case unfolding long_items.simps set_append Un_iff below_iff Cons by (simp add: split)
qed simp

lemma long_props_iff: "(p, t) \<in> set (long_props nfc ps) \<longleftrightarrow> (\<exists>key x q. (key, x) \<in> set ps \<and> p = Key key # q \<and> (q, t) \<in> set (long_texts nfc x))"
proof (induction ps)
  case (Cons kx ps)
  obtain key x where "kx = (key, x)" by fastforce
  then show ?case unfolding \<open>kx = (key, x)\<close> long_props.simps set_append Un_iff below_iff Cons by auto
qed simp

text \<open>Planting a text at its path shows it and nothing else.\<close>

lemma insert_below: "{q. a # q \<in> insert (a # p) shown} = insert p {q. a # q \<in> shown}" "a \<noteq> b \<Longrightarrow> {q. b # q \<in> insert (a # p) shown} = {q. b # q \<in> shown}"
  by auto

lemma plant_shows:
  assumes "(p, t) \<in> set (long_texts nfc v)" "proper v"
  shows "plant t p (showing nfc shown v) = Inr (showing nfc (insert p shown) v)"
  using assms
proof (induction p arbitrary: v shown)
  case Nil
  then show ?case by (cases v) (auto simp: long_items_iff long_props_iff split: if_splits)
next
  case (Cons a p)
  have last: "showing nfc (insert [] S) x = VText t" if "([], t) \<in> set (long_texts nfc x)" for S x
    using that by (cases x) (auto simp: long_items_iff long_props_iff split: if_splits)
  show ?case
  proof (cases v)
    case (VArray xs)
    then obtain k where k: "k < length xs" "a = Index k" "(p, t) \<in> set (long_texts nfc (xs ! k))"
      using Cons.prems(1) by (auto simp: long_items_iff)
    let ?y = "showing nfc (insert p {q. Index k # q \<in> shown}) (xs ! k)"
    have "plant t p (showing nfc {q. Index k # q \<in> shown} (xs ! k)) = Inr ?y"
      using Cons.IH [OF k(3)] Cons.prems(2) k(1) by (simp add: VArray list_all_length)
    moreover have "(show_items nfc shown 0 xs)[k := ?y] = show_items nfc (insert (Index k # p) shown) 0 xs"
      using k(1) by (intro nth_equalityI) (auto simp: show_items_nth nth_list_update intro!: arg_cong [where f = "\<lambda>S. showing nfc S (xs ! k)"])
    ultimately show ?thesis using k last [of "xs ! k"] by (auto simp: VArray put_index_def show_items_nth)
  next
    case (VObject ps)
    then obtain key x where k: "(key, x) \<in> set ps" "a = Key key" "(p, t) \<in> set (long_texts nfc x)"
      using Cons.prems(1) by (auto simp: long_props_iff)
    let ?y = "showing nfc (insert p {q. Key key # q \<in> shown}) x"
    have d: "distinct (map fst ps)" and pr: "proper x" using Cons.prems(2) k(1) by (auto simp: VObject list_all_iff)
    have "plant t p (showing nfc {q. Key key # q \<in> shown} x) = Inr ?y" using Cons.IH [OF k(3) pr] .
    moreover have "put_key key ?y (show_props nfc shown ps) = show_props nfc (insert (Key key # p) shown) ps"
    proof -
      have "key \<in> fst ` set (show_props nfc shown ps)" using k(1) by (force simp: show_props_map)
      then have "put_key key ?y (show_props nfc shown ps) =
          map (\<lambda>(k', x'). if k' = key then (k', ?y) else (k', showing nfc {q. Key k' # q \<in> shown} x')) ps"
        by (simp add: put_key_def show_props_map case_prod_unfold comp_def)
      also have "\<dots> = show_props nfc (insert (Key key # p) shown) ps" unfolding show_props_map
      proof (rule map_cong [OF refl], clarify)
        fix k' x' assume kx: "(k', x') \<in> set ps"
        show "(if k' = key then (k', ?y) else (k', showing nfc {q. Key k' # q \<in> shown} x')) =
            (k', showing nfc {q. Key k' # q \<in> insert (Key key # p) shown} x')"
        proof (cases "k' = key")
          case True
          then have "x' = x" using kx k(1) d by (auto simp: eq_key_imp_eq_value)
          then show ?thesis using True by (simp only: insert_below simp_thms if_True)
        next
          case False
          then have "{q. Key k' # q \<in> insert (Key key # p) shown} = {q. Key k' # q \<in> shown}" by auto
          then show ?thesis using False by (simp only: if_False)
        qed
      qed
      finally show ?thesis .
    qed
    moreover have "map_of (show_props nfc shown ps) key = Some (showing nfc {q. Key key # q \<in> shown} x)"
    proof -
      have "distinct (map fst (show_props nfc shown ps))" using d by (simp add: show_props_map comp_def case_prod_unfold)
      moreover have "(key, showing nfc {q. Key key # q \<in> shown} x) \<in> set (show_props nfc shown ps)" using k(1) by (force simp: show_props_map)
      ultimately show ?thesis by (rule map_of_is_SomeI)
    qed
    ultimately show ?thesis using k last [of x] by (auto simp: VObject)
  qed (use Cons.prems in \<open>auto split: if_splits\<close>)
qed

subsection \<open>Slices\<close>

lemma text_slices_Nil [simp]: "text_slices [] = []"
  by (simp add: text_slices.simps)

lemma concat_slices: "concat (text_slices s) = s"
proof (induction s rule: text_slices.induct)
  case (1 s)
  then show ?case by (cases "s = []") (simp_all add: text_slices.simps [of s])
qed

lemma length_slice: "piece \<in> set (text_slices s) \<Longrightarrow> length piece \<le> textUnits"
proof (induction s rule: text_slices.induct)
  case (1 s)
  have "slice_end s \<le> textUnits" by (auto simp: slice_end_def Let_def)
  then show ?case using 1 by (cases "s = []") (auto simp: text_slices.simps [of s])
qed

lemma slices_ne: "s \<noteq> [] \<Longrightarrow> text_slices s \<noteq> []"
  by (subst text_slices.simps) simp

subsection \<open>Retention\<close>

text \<open>Every chunk in the table is a slice of one of the texts retained so far.\<close>

definition chunks_of :: "js_string set \<Rightarrow> (string \<times> nat \<times> js_string) set" where
  "chunks_of texts = {(sha256Text t, i, text_slices t ! i) | t i. t \<in> texts \<and> i < length (text_slices t)}"

definition table_within :: "js_string set \<Rightarrow> text_table \<Rightarrow> bool" where
  "table_within texts table \<longleftrightarrow> (\<forall>sha i c. table (sha, i) = Some c \<longrightarrow> (sha, i, c) \<in> chunks_of texts)"

definition chunks_held :: "retention \<Rightarrow> (string \<times> nat \<times> js_string) set" where
  "chunks_held st = set (rt_pending st) \<union> {(sha, i, c) | sha i c. rt_table st (sha, i) = Some c}"

lemma chunks_unique:
  "inj_on sha256Text texts \<Longrightarrow> (sha, i, c) \<in> chunks_of texts \<Longrightarrow> (sha, i, d) \<in> chunks_of texts \<Longrightarrow> c = d"
  by (auto simp: chunks_of_def dest: inj_onD)

lemma flush_fold:
  assumes "inj_on sha256Text texts" "set rows \<subseteq> chunks_of texts" "table_within texts table"
  shows "\<exists>table'. rfold retain_chunk rows table = Inr table' \<and>
     table_within texts table' \<and> table \<subseteq>\<^sub>m table' \<and> (\<forall>(sha, i, c)\<in>set rows. table' (sha, i) = Some c)"
  using assms(2,3)
proof (induction rows arbitrary: table)
  case (Cons x xs)
  obtain sha i c where x: "x = (sha, i, c)" by (cases x)
  let ?t = "retainReconciliationText (sha, i) c table"
  have here: "(sha, i, c) \<in> chunks_of texts" using Cons.prems(1) by (simp add: x)
  have absent: "table (sha, i) = None \<or> table (sha, i) = Some c"
    using Cons.prems(2) chunks_unique [OF assms(1) _ here] by (cases "table (sha, i)") (auto simp: table_within_def)
  then have now: "?t (sha, i) = Some c" "table \<subseteq>\<^sub>m ?t" by (auto simp: retainReconciliationText_def map_le_def)
  have "table_within texts ?t" using Cons.prems(2) here absent by (simp add: retainReconciliationText_def table_within_def)
  then obtain table' where t: "rfold retain_chunk xs ?t = Inr table'"
    "table_within texts table'" "?t \<subseteq>\<^sub>m table'" "\<forall>(sha, i, c)\<in>set xs. table' (sha, i) = Some c"
    using Cons.IH [of ?t] Cons.prems(1) by auto
  moreover have "table' (sha, i) = Some c" using now(1) t(3) by (force simp: map_le_def dom_def)
  ultimately show ?case using now by (auto simp: x retain_chunk_def Let_def intro: map_le_trans)
qed auto

definition steady :: "js_string set \<Rightarrow> retention \<Rightarrow> bool" where
  "steady texts st \<longleftrightarrow> chunks_held st \<subseteq> chunks_of texts"

lemma held_table: "chunks_held st \<subseteq> C \<longleftrightarrow> set (rt_pending st) \<subseteq> C \<and> (\<forall>sha i c. rt_table st (sha, i) = Some c \<longrightarrow> (sha, i, c) \<in> C)"
  by (auto simp: chunks_held_def)

lemma flush_ok:
  assumes "inj_on sha256Text texts" "steady texts st"
  shows "\<exists>table'. flush st = Inr (st\<lparr>rt_pending := [], rt_bytes := 0, rt_table := table'\<rparr>) \<and>
    steady texts (st\<lparr>rt_pending := [], rt_bytes := 0, rt_table := table'\<rparr>) \<and>
    chunks_held st \<subseteq> chunks_held (st\<lparr>rt_pending := [], rt_bytes := 0, rt_table := table'\<rparr>)"
proof -
  have "set (rt_pending st) \<subseteq> chunks_of texts" "table_within texts (rt_table st)"
    using assms(2) by (auto simp: steady_def held_table table_within_def)
  from flush_fold [OF assms(1) this] obtain table' where t: "rfold retain_chunk (rt_pending st) (rt_table st) = Inr table'"
    "table_within texts table'" "rt_table st \<subseteq>\<^sub>m table'" "\<forall>(sha, i, c)\<in>set (rt_pending st). table' (sha, i) = Some c" by auto
  have "chunks_held st \<subseteq> chunks_held (st\<lparr>rt_pending := [], rt_bytes := 0, rt_table := table'\<rparr>)"
    using t(3,4) by (fastforce simp: chunks_held_def map_le_def dom_def)
  then show ?thesis using t(1,2) by (auto simp: flush_def steady_def held_table table_within_def)
qed

lemma push_slice_ok:
  assumes "inj_on sha256Text texts" "steady texts st" "(sha, i, c) \<in> chunks_of texts"
  shows "\<exists>st'. push_slice sha (i, c) st = Inr st' \<and> steady texts st' \<and> chunks_held st \<subseteq> chunks_held st' \<and> (sha, i, c) \<in> chunks_held st' \<and> rt_parts st' = rt_parts st"
proof -
  let ?full = "length (rt_pending st) = 16 \<or> rt_bytes st + byte_length (quote c) > pageBytes"
  obtain st1 where st1: "(if ?full then flush st else Inr st) = Inr st1" "steady texts st1" "chunks_held st \<subseteq> chunks_held st1" "rt_parts st1 = rt_parts st"
  proof (cases ?full)
    case True
    then show ?thesis using that flush_ok [OF assms(1,2)] by force
  qed (use assms(2) in \<open>auto intro: that [of st]\<close>)
  let ?st' = "st1\<lparr>rt_pending := rt_pending st1 @ [(sha, i, c)], rt_bytes := rt_bytes st1 + byte_length (quote c)\<rparr>"
  have "chunks_held ?st' = insert (sha, i, c) (chunks_held st1)" by (auto simp: chunks_held_def)
  moreover have "push_slice sha (i, c) st = Inr ?st'" using st1(1) by (simp add: push_slice_def Let_def)
  ultimately show ?thesis using st1(2-) assms(3) by (auto simp: steady_def)
qed

lemma push_slices_ok:
  assumes "inj_on sha256Text texts" "steady texts st" "\<forall>(i, c)\<in>set pieces. (sha, i, c) \<in> chunks_of texts"
  shows "\<exists>st'. rfold (push_slice sha) pieces st = Inr st' \<and> steady texts st' \<and> chunks_held st \<subseteq> chunks_held st' \<and>
    (\<forall>(i, c)\<in>set pieces. (sha, i, c) \<in> chunks_held st') \<and> rt_parts st' = rt_parts st"
  using assms(2,3)
proof (induction pieces arbitrary: st)
  case (Cons x pieces)
  obtain i c where x: "x = (i, c)" by (cases x)
  obtain st1 where st1: "push_slice sha x st = Inr st1" "steady texts st1" "chunks_held st \<subseteq> chunks_held st1" "(sha, i, c) \<in> chunks_held st1" "rt_parts st1 = rt_parts st"
    using push_slice_ok [OF assms(1) Cons.prems(1)] Cons.prems(2) unfolding x by force
  then obtain st' where "rfold (push_slice sha) pieces st1 = Inr st'" "steady texts st'" "chunks_held st1 \<subseteq> chunks_held st'"
      "\<forall>(i, c)\<in>set pieces. (sha, i, c) \<in> chunks_held st'" "rt_parts st' = rt_parts st1"
    using Cons.IH [of st1] Cons.prems(2) by force
  then show ?case using st1 by (auto simp: x)
qed auto

lemma enumerate_iff: "(i, c) \<in> set (enumerate 0 xs) \<longleftrightarrow> i < length xs \<and> xs ! i = c"
  by (simp add: in_set_enumerate_eq)

lemma retain_text_ok:
  assumes "inj_on sha256Text texts" "steady texts st" "t \<in> texts"
  shows "\<exists>st'. retain_text path t st = Inr st' \<and> steady texts st' \<and> chunks_held st \<subseteq> chunks_held st' \<and> chunks_of {t} \<subseteq> chunks_held st' \<and>
    rt_parts st' = rt_parts st @ [part_of path t]"
proof -
  have "\<forall>(i, c)\<in>set (enumerate 0 (text_slices t)). (sha256Text t, i, c) \<in> chunks_of texts"
    using assms(3) by (auto simp: enumerate_iff chunks_of_def)
  from push_slices_ok [OF assms(1,2) this] obtain st' where
    "rfold (push_slice (sha256Text t)) (enumerate 0 (text_slices t)) st = Inr st'" "steady texts st'" "chunks_held st \<subseteq> chunks_held st'"
    "\<forall>(i, c)\<in>set (enumerate 0 (text_slices t)). (sha256Text t, i, c) \<in> chunks_held st'" "rt_parts st' = rt_parts st" by blast
  moreover have "chunks_held (st'\<lparr>rt_parts := ps\<rparr>) = chunks_held st'" for ps by (simp add: chunks_held_def)
  ultimately show ?thesis by (auto simp: retain_text_def steady_def chunks_of_def enumerate_iff)
qed

definition texts_retained :: "js_string set \<Rightarrow> path_item list \<Rightarrow> (path_item list \<times> js_string) list \<Rightarrow> retention \<Rightarrow> retention \<Rightarrow> bool" where
  "texts_retained texts path ts st st' \<longleftrightarrow> steady texts st' \<and> chunks_held st \<subseteq> chunks_held st' \<and> chunks_of (snd ` set ts) \<subseteq> chunks_held st' \<and>
     rt_parts st' = rt_parts st @ map (\<lambda>(p, t). part_of (path @ p) t) ts"

lemma chunks_of_Un: "chunks_of (A \<union> B) = chunks_of A \<union> chunks_of B"
  by (auto simp: chunks_of_def)

lemma texts_retained_append:
  assumes "texts_retained texts (path @ [a]) us st st1" "texts_retained texts path ts st1 st2"
  shows "texts_retained texts path (map (apfst ((#) a)) us @ ts) st st2"
proof -
  have "snd ` set (map (apfst ((#) a)) us @ ts) = snd ` set us \<union> snd ` set ts" by (auto simp: image_Un image_image)
  then show ?thesis using assms by (auto simp: texts_retained_def chunks_of_Un case_prod_unfold comp_def)
qed

lemma texts_retained_refl: "steady texts st \<Longrightarrow> texts_retained texts path [] st st"
  by (simp add: texts_retained_def chunks_of_def)

lemma visit_ok:
  "inj_on sha256Text texts \<Longrightarrow> steady texts st \<Longrightarrow> snd ` set (long_texts nfc v) \<subseteq> texts \<Longrightarrow>
     \<exists>st'. visit nfc path v st = Inr (showing nfc {} v, st') \<and> texts_retained texts path (long_texts nfc v) st st'"
  "inj_on sha256Text texts \<Longrightarrow> steady texts st \<Longrightarrow> snd ` set (long_items nfc i xs) \<subseteq> texts \<Longrightarrow>
     \<exists>st'. visit_items nfc path i xs st = Inr (show_items nfc {} i xs, st') \<and> texts_retained texts path (long_items nfc i xs) st st'"
  "inj_on sha256Text texts \<Longrightarrow> steady texts st \<Longrightarrow> snd ` set (long_props nfc ps) \<subseteq> texts \<Longrightarrow>
     \<exists>st'. visit_props nfc path ps st = Inr (show_props nfc {} ps, st') \<and> texts_retained texts path (long_props nfc ps) st st'"
proof (induction nfc path v st and nfc path i xs st and nfc path ps st rule: visit_visit_items_visit_props.induct)
  case (1 nfc path s st)
  show ?case
  proof (cases "is_long s")
    case True
    then obtain st' where "retain_text path (nfc s) st = Inr st'" "steady texts st'" "chunks_held st \<subseteq> chunks_held st'" "chunks_of {nfc s} \<subseteq> chunks_held st'"
        "rt_parts st' = rt_parts st @ [part_of path (nfc s)]"
      using retain_text_ok [OF 1(1,2), of "nfc s" path] 1(3) by auto
    then show ?thesis using True by (auto simp: texts_retained_def)
  qed (use 1 in \<open>simp add: texts_retained_refl\<close>)
next
  case (6 nfc path i x xs st)
  then obtain st1 where st1: "visit nfc (path @ [Index i]) x st = Inr (showing nfc {} x, st1)" "texts_retained texts (path @ [Index i]) (long_texts nfc x) st st1"
    by (auto simp: image_Un image_image)
  then have "steady texts st1" by (simp add: texts_retained_def)
  then obtain st2 where "visit_items nfc path (i + 1) xs st1 = Inr (show_items nfc {} (i + 1) xs, st2)" "texts_retained texts path (long_items nfc (i + 1) xs) st1 st2"
    using 6 st1(1) by (fastforce simp: image_Un)
  then show ?case using st1 by (auto intro: texts_retained_append)
next
  case (8 nfc path key x ps st)
  then obtain st1 where st1: "visit nfc (path @ [Key key]) x st = Inr (showing nfc {} x, st1)" "texts_retained texts (path @ [Key key]) (long_texts nfc x) st st1"
    by (auto simp: image_Un image_image)
  then have "steady texts st1" by (simp add: texts_retained_def)
  then obtain st2 where "visit_props nfc path ps st1 = Inr (show_props nfc {} ps, st2)" "texts_retained texts path (long_props nfc ps) st1 st2"
    using 8 st1(1) by (fastforce simp: image_Un)
  then show ?case using st1 by (auto intro: texts_retained_append)
qed (auto simp: texts_retained_refl)

lemma retain_ok:
  assumes "inj_on sha256Text texts" "table_within texts table" "snd ` set (long_texts nfc v) \<subseteq> texts"
  shows "\<exists>table'. retainPartitionedRecord nfc v table =
      Inr (\<lparr>re_value = showing nfc {} v, re_parts = map (\<lambda>(p, t). part_of p t) (long_texts nfc v)\<rparr>, table') \<and>
    table_within texts table' \<and> table \<subseteq>\<^sub>m table' \<and> (\<forall>(sha, i, c)\<in>chunks_of (snd ` set (long_texts nfc v)). table' (sha, i) = Some c)"
proof -
  let ?st = "\<lparr>rt_parts = [], rt_pending = [], rt_bytes = 0, rt_table = table\<rparr>"
  have "steady texts ?st" using assms(2) by (auto simp: steady_def chunks_held_def table_within_def)
  then obtain st where st: "visit nfc [] v ?st = Inr (showing nfc {} v, st)" "texts_retained texts [] (long_texts nfc v) ?st st"
    using visit_ok(1) [OF assms(1) _ assms(3)] by blast
  then have "steady texts st" by (simp add: texts_retained_def)
  from flush_ok [OF assms(1) this] obtain table' where f: "flush st = Inr (st\<lparr>rt_pending := [], rt_bytes := 0, rt_table := table'\<rparr>)"
    "steady texts (st\<lparr>rt_pending := [], rt_bytes := 0, rt_table := table'\<rparr>)" "chunks_held st \<subseteq> chunks_held (st\<lparr>rt_pending := [], rt_bytes := 0, rt_table := table'\<rparr>)" by blast
  have "table \<subseteq>\<^sub>m table'" using st(2) f(3) by (fastforce simp: texts_retained_def chunks_held_def map_le_def)
  moreover have "\<forall>(sha, i, c)\<in>chunks_of (snd ` set (long_texts nfc v)). table' (sha, i) = Some c"
    using st(2) f(3) by (fastforce simp: texts_retained_def chunks_held_def)
  moreover have "table_within texts table'" using f(2) by (auto simp: steady_def chunks_held_def table_within_def)
  ultimately show ?thesis using st f(1) by (simp add: retainPartitionedRecord_def texts_retained_def)
qed

subsection \<open>Restoration\<close>

definition covers :: "text_table \<Rightarrow> js_string \<Rightarrow> bool" where
  "covers table t \<longleftrightarrow> (\<forall>i < length (text_slices t). table (sha256Text t, i) = Some (text_slices t ! i))"

text \<open>Where a reader stands in its text.\<close>

definition standing :: "(path_item list \<times> js_string) \<Rightarrow> nat \<Rightarrow> text_reader \<Rightarrow> bool" where
  "standing pt n r \<longleftrightarrow> rd_part r = part_of (fst pt) (snd pt) \<and> rd_ordinal r = n \<and> n \<le> length (text_slices (snd pt)) \<and>
     rd_text r = concat (take n (text_slices (snd pt)))"

lemma fitting_take: "\<exists>k. fitting quoted used rows = take k rows \<and>
   (k = 0 \<longrightarrow> rows = [] \<or> used + quoted (snd (hd rows)) > pageBytes)"
proof (induction quoted used rows rule: fitting.induct)
  case (2 quoted used ordinal content rows)
  show ?case
  proof (cases "used + quoted content \<le> pageBytes")
    case True
    then obtain k where "fitting quoted (used + quoted content) rows = take k rows" using 2 by blast
    then have "fitting quoted used ((ordinal, content) # rows) = take (Suc k) ((ordinal, content) # rows)" using True by simp
    then show ?thesis by blast
  qed (auto intro: exI [of _ 0])
qed auto

lemma map_filter_all: "(\<And>i. i \<in> set is \<Longrightarrow> f i = Some (g i)) \<Longrightarrow> List.map_filter f is = map g is"
  by (induction "is") (auto simp: map_filter_simps)

lemma take_upt_min: "take k [n..<m] = [n..<n + min k (m - n)]"
  by (cases "n + k \<le> m"; cases "n \<le> m") (simp_all add: take_upt min_def)

lemma page_of_text:
  assumes "covers table t" "n < length (text_slices t)" "\<And>s. quoted s \<le> 6 * length s + 2"
  shows "\<exists>k. 0 < k \<and> n + k \<le> length (text_slices t) \<and>
    reconciliationTextPage quoted table (sha256Text t) n (length (text_slices t)) = map (\<lambda>i. (i, text_slices t ! i)) [n..<n + k]"
proof -
  let ?l = "length (text_slices t)" and ?row = "\<lambda>i. (i, text_slices t ! i)"
  have "List.map_filter (\<lambda>i. map_option (Pair i) (table (sha256Text t, i))) [n..<?l] = map ?row [n..<?l]"
    using assms(1) by (intro map_filter_all) (auto simp: covers_def)
  then have rows: "take 16 (List.map_filter (\<lambda>i. map_option (Pair i) (table (sha256Text t, i))) [n..<?l]) = map ?row [n..<min ?l (n + 16)]"
    by (simp add: take_map min_def)
  obtain k where k: "fitting quoted 0 (map ?row [n..<min ?l (n + 16)]) = take k (map ?row [n..<min ?l (n + 16)])"
      "k = 0 \<longrightarrow> map ?row [n..<min ?l (n + 16)] = [] \<or> quoted (snd (hd (map ?row [n..<min ?l (n + 16)]))) > pageBytes"
    using fitting_take [of quoted 0 "map ?row [n..<min ?l (n + 16)]"] unfolding add_0 by blast
  have "text_slices t ! n \<in> set (text_slices t)" using assms(2) by simp
  then have "quoted (text_slices t ! n) \<le> pageBytes"
    using length_slice [of "text_slices t ! n" t] assms(3) [of "text_slices t ! n"] by (simp add: pageBytes_def textUnits_def)
  then have "0 < k" using k(2) assms(2) by (auto simp: upt_conv_Cons)
  moreover have "take k (map ?row [n..<min ?l (n + 16)]) = map ?row [n..<n + min k (min ?l (n + 16) - n)]"
    by (simp only: take_map take_upt_min)
  ultimately show ?thesis using assms(2) k(1) rows
    by (intro exI [of _ "min k (min ?l (n + 16) - n)"]) (simp add: reconciliationTextPage_def)
qed

lemma read_rows_text:
  assumes "standing pt n r" "n + k \<le> length (text_slices (snd pt))"
  shows "\<exists>r'. read_rows (map (\<lambda>i. (i, text_slices (snd pt) ! i)) [n..<n + k]) r = Inr r' \<and> standing pt (n + k) r'"
  using assms
proof (induction k arbitrary: n r)
  case (Suc k)
  let ?r = "r\<lparr>rd_text := rd_text r @ text_slices (snd pt) ! n, rd_ordinal := rd_ordinal r + 1\<rparr>"
  have "standing pt (Suc n) ?r" using Suc.prems by (auto simp: standing_def take_Suc_conv_app_nth)
  then obtain r' where "read_rows (map (\<lambda>i. (i, text_slices (snd pt) ! i)) [Suc n..<Suc n + k]) ?r = Inr r'" "standing pt (Suc n + k) r'"
    using Suc.IH [of "Suc n" ?r] Suc.prems by auto
  then show ?case using Suc.prems by (auto simp: upt_conv_Cons standing_def simp del: upt_Suc)
qed auto

lemma read_page_text:
  assumes "standing pt n r" "n < length (text_slices (snd pt))" "covers table (snd pt)" "\<And>s. quoted s \<le> 6 * length s + 2"
  shows "\<exists>r' m. read_page quoted table r = Inr r' \<and> standing pt m r'"
proof -
  obtain k where k: "0 < k" "n + k \<le> length (text_slices (snd pt))"
    "reconciliationTextPage quoted table (sha256Text (snd pt)) n (length (text_slices (snd pt))) = map (\<lambda>i. (i, text_slices (snd pt) ! i)) [n..<n + k]"
    using page_of_text [OF assms(3,2,4)] by blast
  then show ?thesis using read_rows_text [OF assms(1) k(2)] assms(1) by (auto simp: read_page_def Let_def standing_def part_of_def)
qed

definition placed :: "(path_item list \<times> js_string) set \<Rightarrow> text_reader \<Rightarrow> bool" where
  "placed ts r \<longleftrightarrow> (\<exists>pt\<in>ts. \<exists>n. standing pt n r)"

lemma read_pages_text:
  assumes "\<forall>r\<in>set readers. placed ts r \<and> \<not> reader_finished r" "\<forall>pt\<in>ts. covers table (snd pt)" "\<And>s. quoted s \<le> 6 * length s + 2"
  shows "\<exists>readers'. read_pages quoted table readers = Inr readers' \<and> (\<forall>r\<in>set readers'. placed ts r) \<and> map rd_part readers' = map rd_part readers"
  using assms(1)
proof (induction readers)
  case (Cons r rs)
  obtain pt n where r: "pt \<in> ts" "standing pt n r" "n < length (text_slices (snd pt))"
    using Cons.prems by (auto simp: placed_def reader_finished_def standing_def part_of_def)
  obtain r' m where r': "read_page quoted table r = Inr r'" "standing pt m r'"
    using read_page_text [OF r(2,3) _ assms(3)] assms(2) r(1) by blast
  then have "placed ts r'" using r(1) by (auto simp: placed_def)
  moreover have "rd_part r' = rd_part r" using read_page_progress [OF r'(1)] by simp
  ultimately show ?case using Cons r'(1) by (auto simp: read_pages_def)
qed (simp add: read_pages_def)

lemma complete_text:
  assumes "placed (set (long_texts nfc v)) r" "reader_finished r" "proper v"
  shows "complete_reader r (showing nfc shown v) = Inr (showing nfc (insert (tp_path (rd_part r)) shown) v)"
proof -
  obtain p t n where pt: "(p, t) \<in> set (long_texts nfc v)" "standing (p, t) n r" using assms(1) by (auto simp: placed_def)
  then have "n = length (text_slices t)" using assms(2) by (simp add: standing_def reader_finished_def part_of_def)
  then have "rd_text r = t" using pt(2) by (simp add: standing_def concat_slices)
  then show ?thesis using pt plant_shows [OF pt(1) assms(3)] by (simp add: complete_reader_def standing_def part_of_def)
qed

lemma complete_texts:
  assumes "\<forall>r\<in>set rs. placed (set (long_texts nfc v)) r \<and> reader_finished r" "proper v"
  shows "rfold complete_reader rs (showing nfc shown v) = Inr (showing nfc (shown \<union> (tp_path \<circ> rd_part) ` set rs) v)"
  using assms(1)
proof (induction rs arbitrary: shown)
  case (Cons r rs)
  then show ?case using complete_text [of nfc v r shown] assms(2) by (simp add: Un_commute)
qed simp

lemma restore_loop_text:
  assumes "\<forall>r\<in>set readers. placed (set (long_texts nfc v)) r \<and> \<not> reader_finished r"
    "\<forall>part\<in>set parts. \<exists>pt\<in>set (long_texts nfc v). part = part_of (fst pt) (snd pt)"
    "fst ` set (long_texts nfc v) \<subseteq> shown \<union> (tp_path \<circ> rd_part) ` set readers \<union> tp_path ` set parts"
    "\<forall>pt\<in>set (long_texts nfc v). covers table (snd pt) \<and> snd pt \<noteq> []" "proper v" "\<And>s. quoted s \<le> 6 * length s + 2"
  shows "restore_loop quoted table (showing nfc shown v) readers parts = Inr (normalized_texts nfc v)"
  using assms(1-3)
proof (induction "outstanding readers parts" arbitrary: shown readers parts rule: less_induct)
  case less
  let ?ts = "set (long_texts nfc v)"
  show ?case
  proof (cases "readers = [] \<and> parts = []")
    case True
    then show ?thesis using less.prems(3) by (subst restore_loop.simps) (simp add: showing_all)
  next
    case False
    obtain readers1 parts1 where f: "fill_readers readers parts = (readers1, parts1)" by fastforce
    define n where "n = 2 - length readers"
    let ?new = "map (\<lambda>p. \<lparr>rd_part = p, rd_text = [], rd_ordinal = 0\<rparr>) (take n parts)"
    have r1: "readers1 = readers @ ?new" "parts1 = drop n parts" using f by (auto simp: fill_readers_def Let_def n_def)
    have new: "placed ?ts r \<and> \<not> reader_finished r" if "r \<in> set ?new" for r
    proof -
      obtain part where p: "part \<in> set parts" "r = \<lparr>rd_part = part, rd_text = [], rd_ordinal = 0\<rparr>" using \<open>r \<in> set ?new\<close> in_set_takeD by fastforce
      then obtain pt where pt: "pt \<in> ?ts" "part = part_of (fst pt) (snd pt)" using less.prems(2) by blast
      then have "standing pt 0 r" by (simp add: standing_def p(2))
      moreover have "\<not> reader_finished r" using pt assms(4) slices_ne [of "snd pt"] by (simp add: reader_finished_def p(2) part_of_def)
      ultimately show ?thesis using pt(1) by (auto simp: placed_def)
    qed
    then have all1: "\<forall>r\<in>set readers1. placed ?ts r \<and> \<not> reader_finished r" using less.prems(1) unfolding r1 set_append by blast
    obtain readers2 where r2: "read_pages quoted table readers1 = Inr readers2" "\<forall>r\<in>set readers2. placed ?ts r" "map rd_part readers2 = map rd_part readers1"
      using read_pages_text [OF all1 _ assms(6)] assms(4) by blast
    let ?shown = "shown \<union> (tp_path \<circ> rd_part) ` set (filter reader_finished readers2)"
    have "rfold complete_reader (rev (filter reader_finished readers2)) (showing nfc shown v) = Inr (showing nfc ?shown v)"
      using complete_texts [of "rev (filter reader_finished readers2)" nfc v shown] r2(2) assms(5) by simp
    then have "restore_loop quoted table (showing nfc shown v) readers parts =
        restore_loop quoted table (showing nfc ?shown v) (filter (\<lambda>r. \<not> reader_finished r) readers2) parts1"
      using False f r2(1) by (subst restore_loop.simps) auto
    also have "\<dots> = Inr (normalized_texts nfc v)"
    proof (rule less.hyps)
      have "readers1 \<noteq> []" using False unfolding r1 n_def by auto
      then show "outstanding (filter (\<lambda>r. \<not> reader_finished r) readers2) parts1 < outstanding readers parts"
        using outstanding_read [OF r2(1), of parts1] outstanding_fill [OF f] by simp
      show "\<forall>r\<in>set (filter (\<lambda>r. \<not> reader_finished r) readers2). placed ?ts r \<and> \<not> reader_finished r" using r2(2) by simp
      show "\<forall>part\<in>set parts1. \<exists>pt\<in>?ts. part = part_of (fst pt) (snd pt)" using less.prems(2) r1(2) in_set_dropD by metis
      have "(tp_path \<circ> rd_part) ` set readers2 = tp_path ` set (map rd_part readers1)" unfolding r2(3) [symmetric] by (simp add: image_image)
      also have "\<dots> = (tp_path \<circ> rd_part) ` set readers \<union> tp_path ` set (take n parts)" unfolding r1 by (simp add: image_Un image_image comp_def)
      finally have "(tp_path \<circ> rd_part) ` set readers2 \<union> tp_path ` set parts1 = (tp_path \<circ> rd_part) ` set readers \<union> tp_path ` set parts"
        unfolding r1(2) by (metis append_take_drop_id image_Un set_append sup_assoc)
      moreover have "set readers2 = set (filter reader_finished readers2) \<union> set (filter (\<lambda>r. \<not> reader_finished r) readers2)" by auto
      ultimately show "fst ` ?ts \<subseteq> ?shown \<union> (tp_path \<circ> rd_part) ` set (filter (\<lambda>r. \<not> reader_finished r) readers2) \<union> tp_path ` set parts1"
        using less.prems(3) unfolding image_Un by (metis (no_types) image_Un sup_assoc)
    qed
    finally show ?thesis .
  qed
qed

subsection \<open>The round trip\<close>

lemma enumerate_map: "enumerate n (map f xs) = map (apsnd f) (enumerate n xs)"
  by (induction xs arbitrary: n) auto

lemma canonical_normalized:
  assumes "\<And>s. nfc (nfc s) = nfc s"
  shows "canonicalJsonAt nfc path (normalized_texts nfc v) = canonicalJsonAt nfc path v"
  using assms
proof (induction nfc path v rule: canonicalJsonAt.induct)
  case (1 nfc path items)
  then have "map (\<lambda>(i, x). canonicalJsonAt nfc (path @ [Index i]) x) (enumerate 0 (map (normalized_texts nfc) items)) =
      map (\<lambda>(i, x). canonicalJsonAt nfc (path @ [Index i]) x) (enumerate 0 items)"
    unfolding enumerate_map map_map by (intro map_cong refl) auto
  then show ?case by simp
next
  case (2 nfc path props)
  then have "map (\<lambda>(key, x). (key, canonicalJsonAt nfc (path @ [Key key]) x)) (map (\<lambda>(key, x). (key, normalized_texts nfc x)) props) =
      map (\<lambda>(key, x). (key, canonicalJsonAt nfc (path @ [Key key]) x)) props"
    unfolding map_map by (intro map_cong refl) auto
  then show ?case by (simp only: normalized_texts.simps canonicalJsonAt.simps)
qed auto

lemma envelope_short:
  "long_texts nfc (showing nfc {} v) = []" "long_items nfc i (show_items nfc {} i xs) = []" "long_props nfc (show_props nfc {} ps) = []"
  by (induction nfc v and nfc i xs and nfc ps rule: long_texts_long_items_long_props.induct) simp_all

lemma long_texts_long: "(p, t) \<in> set (long_texts nfc v) \<Longrightarrow> \<exists>s. is_long s \<and> t = nfc s"
proof (induction p arbitrary: v)
  case Nil
  then show ?case by (cases v) (auto simp: long_items_iff long_props_iff split: if_splits)
next
  case (Cons a p)
  then show ?case by (cases v) (auto simp: long_items_iff long_props_iff split: if_splits)
qed

lemma long_texts_ne:
  assumes "\<And>s. s \<noteq> [] \<Longrightarrow> nfc s \<noteq> []" "(p, t) \<in> set (long_texts nfc v)"
  shows "t \<noteq> []"
proof -
  obtain s where "is_long s" "t = nfc s" using long_texts_long [OF assms(2)] by blast
  moreover have "s \<noteq> []" using \<open>is_long s\<close> by (auto simp: is_long_def)
  ultimately show ?thesis using assms(1) [of s] by simp
qed

lemma restore_envelope:
  assumes "\<And>s. s \<noteq> [] \<Longrightarrow> nfc s \<noteq> []" "\<And>s. quoted s \<le> 6 * length s + 2" "proper v"
    "\<forall>pt\<in>set (long_texts nfc v). covers table (snd pt)"
  shows "restorePartitionedRecord quoted table \<lparr>re_value = showing nfc {} v, re_parts = map (\<lambda>(p, t). part_of p t) (long_texts nfc v)\<rparr> =
    Inr (normalized_texts nfc v)"
proof -
  have ne: "\<forall>pt\<in>set (long_texts nfc v). covers table (snd pt) \<and> snd pt \<noteq> []" using assms(4) long_texts_ne [OF assms(1)] by force
  have parts: "\<forall>part\<in>set (map (\<lambda>(p, t). part_of p t) (long_texts nfc v)). \<exists>pt\<in>set (long_texts nfc v). part = part_of (fst pt) (snd pt)"
    by force
  have paths: "fst ` set (long_texts nfc v) \<subseteq> {} \<union> (tp_path \<circ> rd_part) ` set [] \<union> tp_path ` set (map (\<lambda>(p, t). part_of p t) (long_texts nfc v))"
    by (force simp: part_of_def image_iff)
  show ?thesis unfolding restorePartitionedRecord_def RecordEnvelope.simps
    by (rule restore_loop_text [OF _ parts paths ne assms(3,2)]) simp
qed



end
