(* ===== verification/Sorted_Records.thy ===== *)
theory Sorted_Records
  imports Partitioned_Text
begin

text \<open>
  The checkpointed external sort of records, \<open>src/src/catalogue/reconciliation/reconciliation-sorted-records.ts\<close>
  with \<open>reconciliation-sort-repository.ts\<close>, \<open>reconciliation-checkpoint.ts\<close> and
  \<open>reconciliation-checkpoint-repository.ts\<close>: sorted runs of at most eight records, then four-way merges of
  runs, with a cursor saved after every batch so that another invocation can go on.

  The rows are those of one preparation and one namespace. A row keeps, beside its canonical text and
  digest, the value the text was written from; for records in canonical form (texts normalised, keys in
  order), as the retained documents the records come from have it, that is what parsing the text gives.
  The cache of four batches in front of the rows, which are never changed, is left out, and so is the read
  window of checkpoints. \<open>localeCompare\<close> is a parameter. An invocation may be cut off before any of its
  writes: \<open>sg_left\<close> counts down the writes it still gets to make, if it is going to be cut off.
\<close>

subsection \<open>Rows and cursors\<close>

record Item =
  it_key :: js_string
  it_envelope :: RecordEnvelope
  it_value :: js_value

record Position =
  ps_batch :: nat
  ps_offset :: nat

datatype sort_stage = Stage_runs | Stage_merge | Stage_complete

record Cursor =
  cu_source :: nat
  cu_after :: nat
  cu_stage :: sort_stage
  cu_count :: nat
  cu_pass :: nat
  cu_first :: nat
  cu_output :: nat
  cu_positions :: "Position list"

record sort_row =
  sr_records :: "RecordEnvelope list"
  sr_content :: js_string
  sr_sha :: string

record checkpoint_row =
  cr_cursor :: Cursor
  cr_content :: js_string
  cr_sha :: string

record sort_store =
  so_texts :: text_table
  so_batches :: "((nat \<times> nat \<times> nat) \<times> sort_row) list"
  so_checkpoints :: "(nat \<times> checkpoint_row) list"

datatype sort_error =
    Prefix_changed          \<comment> \<open>Sorted reconciliation source prefix changed.\<close>
  | Record_capacity         \<comment> \<open>one sortable diagnostic or semantic record exceeds 2 MiB\<close>
  | Batch_capacity          \<comment> \<open>one sorted batch exceeds 512 KiB\<close>
  | Batch_integrity         \<comment> \<open>Sorted reconciliation records failed integrity verification.\<close>
  | Batch_replay            \<comment> \<open>Sorted reconciliation replay differs from retained records.\<close>
  | Checkpoint_capacity     \<comment> \<open>one continuation checkpoint exceeds 64 KiB\<close>
  | Checkpoint_integrity    \<comment> \<open>Reconciliation checkpoint failed integrity verification.\<close>
  | Checkpoint_replay       \<comment> \<open>Reconciliation checkpoint replay changed immutable content.\<close>
  | Text_failed text_error
  | Json_failed serial_error

definition record_json :: "(js_string \<Rightarrow> js_string) \<Rightarrow> js_value \<Rightarrow> sort_error + js_string" where
  "record_json nfc v = with_error Json_failed (canonicalJson nfc v)"

definition position_value :: "Position \<Rightarrow> js_value" where
  "position_value p = VObject [(ascii ''batch'', VInt (int (ps_batch p))), (ascii ''offset'', VInt (int (ps_offset p)))]"

definition stage_text :: "sort_stage \<Rightarrow> string" where
  "stage_text g = (case g of Stage_runs \<Rightarrow> ''runs'' | Stage_merge \<Rightarrow> ''merge'' | Stage_complete \<Rightarrow> ''complete'')"

definition cursor_value :: "Cursor \<Rightarrow> js_value" where
  "cursor_value c = VObject
     [(ascii ''sourceVersion'', VInt (int (cu_source c))), (ascii ''after'', VInt (int (cu_after c))),
      (ascii ''stage'', VText (ascii (stage_text (cu_stage c)))), (ascii ''count'', VInt (int (cu_count c))),
      (ascii ''pass'', VInt (int (cu_pass c))), (ascii ''first'', VInt (int (cu_first c))),
      (ascii ''outputBatch'', VInt (int (cu_output c))), (ascii ''positions'', VArray (map position_value (cu_positions c)))]"

subsection \<open>Checkpoints\<close>

definition latestReconciliationCheckpoint :: "sort_store \<Rightarrow> (nat \<times> checkpoint_row) option" where
  "latestReconciliationCheckpoint store =
     (if so_checkpoints store = [] then None
      else let ordinal = Max (fst ` set (so_checkpoints store))
           in map_option (Pair ordinal) (map_of (so_checkpoints store) ordinal))"

definition reconciliationCheckpoint :: "sort_store \<Rightarrow> sort_error + (nat \<times> Cursor) option" where
  "reconciliationCheckpoint store = (case latestReconciliationCheckpoint store of
     None \<Rightarrow> Inr None
   | Some (ordinal, row) \<Rightarrow>
       if sha256Text (cr_content row) \<noteq> cr_sha row then Inl Checkpoint_integrity else Inr (Some (ordinal, cr_cursor row)))"

definition retainCheckpointRow :: "nat \<Rightarrow> checkpoint_row \<Rightarrow> sort_store \<Rightarrow> sort_store" where
  "retainCheckpointRow ordinal row store =
     (if map_of (so_checkpoints store) ordinal = None then store\<lparr>so_checkpoints := so_checkpoints store @ [(ordinal, row)]\<rparr> else store)"

definition retainReconciliationCheckpoint ::
  "(js_string \<Rightarrow> js_string) \<Rightarrow> nat \<Rightarrow> Cursor \<Rightarrow> sort_store \<Rightarrow> sort_error + unit \<times> sort_store" where
  "retainReconciliationCheckpoint nfc ordinal cursor store =
     rbind (record_json nfc (cursor_value cursor)) (\<lambda>content.
     if byte_length content > 65536 then Inl Checkpoint_capacity
     else let row = \<lparr>cr_cursor = cursor, cr_content = content, cr_sha = sha256Text content\<rparr>;
              store' = retainCheckpointRow ordinal row store
          in case map_of (so_checkpoints store') ordinal of
               None \<Rightarrow> Inl Checkpoint_replay
             | Some present \<Rightarrow>
                 if cr_content present \<noteq> content \<or> cr_sha present \<noteq> cr_sha row then Inl Checkpoint_replay else Inr ((), store'))"

subsection \<open>Batches\<close>

definition sortableSize :: "js_string \<Rightarrow> sort_error + nat" where
  "sortableSize key = (let bytes = byte_length key in if bytes > 2097152 then Inl Record_capacity else Inr bytes)"

definition retainSortBatch :: "nat \<times> nat \<times> nat \<Rightarrow> sort_row \<Rightarrow> sort_store \<Rightarrow> sort_store" where
  "retainSortBatch place row store =
     (if map_of (so_batches store) place = None then store\<lparr>so_batches := so_batches store @ [(place, row)]\<rparr> else store)"

definition writeBatch ::
  "(js_string \<Rightarrow> js_string) \<Rightarrow> nat \<times> nat \<times> nat \<Rightarrow> Item list \<Rightarrow> sort_store \<Rightarrow> sort_error + unit \<times> sort_store" where
  "writeBatch nfc place items store =
     rbind (record_json nfc (VArray (map (\<lambda>item. envelope_value (it_envelope item)) items))) (\<lambda>content.
     if byte_length content > 524288 then Inl Batch_capacity
     else let row = \<lparr>sr_records = map it_envelope items, sr_content = content, sr_sha = sha256Text content\<rparr>;
              store' = retainSortBatch place row store
          in case map_of (so_batches store') place of
               None \<Rightarrow> Inl Batch_replay
             | Some present \<Rightarrow>
                 if sr_content present \<noteq> content \<or> sr_sha present \<noteq> sr_sha row then Inl Batch_replay else Inr ((), store'))"

text \<open>What an invocation is given.\<close>

record sort_context =
  sc_nfc :: "js_string \<Rightarrow> js_string"
  sc_quoted :: "js_string \<Rightarrow> nat"
  sc_compare :: "js_string \<Rightarrow> js_string \<Rightarrow> int"
  sc_version :: nat
  sc_source :: "nat \<Rightarrow> (nat \<times> js_value) list"
  sc_yield :: bool

definition rows_from :: "sort_store \<Rightarrow> nat \<Rightarrow> nat \<Rightarrow> nat \<Rightarrow> nat set" where
  "rows_from store pass run batch = {b. batch \<le> b \<and> (pass, run, b) \<in> fst ` set (so_batches store)}"

lemma finite_rows_from: "finite (rows_from store pass run batch)"
proof -
  have "rows_from store pass run batch \<subseteq> (\<lambda>k. snd (snd k)) ` fst ` set (so_batches store)" by (force simp: rows_from_def)
  then show ?thesis by (rule finite_subset) simp
qed

function readHead :: "sort_context \<Rightarrow> sort_store \<Rightarrow> nat \<Rightarrow> nat \<Rightarrow> Position \<Rightarrow> sort_error + Item option \<times> Position" where
  "readHead ctx store pass run position = (case map_of (so_batches store) (pass, run, ps_batch position) of
     None \<Rightarrow> Inl Batch_integrity
   | Some row \<Rightarrow>
       if byte_length (sr_content row) > 524288 \<or> sha256Text (sr_content row) \<noteq> sr_sha row then Inl Batch_integrity
       else if sr_records row = [] then Inr (None, position)
       else if ps_offset position \<ge> length (sr_records row)
       then readHead ctx store pass run \<lparr>ps_batch = ps_batch position + 1, ps_offset = 0\<rparr>
       else let envelope = sr_records row ! ps_offset position
            in rbind (with_error Text_failed (restorePartitionedRecord (sc_quoted ctx) (so_texts store) envelope)) (\<lambda>v.
               rbind (record_json (sc_nfc ctx) v) (\<lambda>key.
               rbind (sortableSize key) (\<lambda>_. Inr (Some \<lparr>it_key = key, it_envelope = envelope, it_value = v\<rparr>, position)))))"
  by pat_completeness auto
termination
proof (relation "measure (\<lambda>(ctx, store, pass, run, position). card (rows_from store pass run (ps_batch position)))", simp, goal_cases)
  case (1 ctx store pass run position row)
  then have "ps_batch position \<in> rows_from store pass run (ps_batch position)"
    by (force simp: rows_from_def dest: map_of_SomeD)
  moreover have "ps_batch position \<notin> rows_from store pass run (ps_batch position + 1)" by (simp add: rows_from_def)
  moreover have "rows_from store pass run (ps_batch position + 1) \<subseteq> rows_from store pass run (ps_batch position)" by (auto simp: rows_from_def)
  ultimately have "rows_from store pass run (ps_batch position + 1) \<subset> rows_from store pass run (ps_batch position)" by blast
  then show ?case by (simp add: psubset_card_mono finite_rows_from)
qed

declare readHead.simps [simp del]

subsection \<open>An invocation\<close>

record sorting =
  sg_store :: sort_store
  sg_left :: "nat option"
  sg_cursor :: Cursor
  sg_ordinal :: nat
  sg_pending :: "Item list"
  sg_bytes :: nat

datatype sort_stop = Failed sort_error | Continuation nat | Interrupted

type_synonym 'a sort_outcome = "(sort_stop \<times> sort_store) + 'a"

definition or_fail :: "sorting \<Rightarrow> sort_error + 'a \<Rightarrow> 'a sort_outcome" where
  "or_fail st r = with_error (\<lambda>e. (Failed e, sg_store st)) r"

definition storage :: "(sort_store \<Rightarrow> sort_error + 'a \<times> sort_store) \<Rightarrow> sorting \<Rightarrow> ('a \<times> sorting) sort_outcome" where
  "storage operation st =
     (if sg_left st = Some 0 then Inl (Interrupted, sg_store st)
      else rbind (or_fail st (operation (sg_store st)))
        (\<lambda>(x, store). Inr (x, st\<lparr>sg_store := store, sg_left := map_option (\<lambda>n. n - 1) (sg_left st)\<rparr>)))"

definition save :: "sort_context \<Rightarrow> sorting \<Rightarrow> sorting sort_outcome" where
  "save ctx st = rbind (storage (retainReconciliationCheckpoint (sc_nfc ctx) (sg_ordinal st) (sg_cursor st)) st) (\<lambda>(_, st1).
     if sc_yield ctx then Inl (Continuation (sg_ordinal st1), sg_store st1) else Inr (st1\<lparr>sg_ordinal := sg_ordinal st1 + 1\<rparr>))"

definition retain_record :: "sort_context \<Rightarrow> js_value \<Rightarrow> sort_store \<Rightarrow> sort_error + RecordEnvelope \<times> sort_store" where
  "retain_record ctx v store = rbind (with_error Text_failed (retainPartitionedRecord (sc_nfc ctx) v (so_texts store)))
     (\<lambda>(envelope, texts). Inr (envelope, store\<lparr>so_texts := texts\<rparr>))"

definition push_item :: "Item \<Rightarrow> nat \<Rightarrow> sorting \<Rightarrow> sorting" where
  "push_item item bytes st = st\<lparr>sg_pending := sg_pending st @ [item], sg_bytes := sg_bytes st + bytes\<rparr>"

definition overflows :: "nat \<Rightarrow> sorting \<Rightarrow> bool" where
  "overflows bytes st \<longleftrightarrow> sg_pending st \<noteq> [] \<and> sg_bytes st + bytes > 512000"

definition batch_full :: "sorting \<Rightarrow> bool" where
  "batch_full st \<longleftrightarrow> length (sg_pending st) = 8 \<or> sg_bytes st \<ge> 512000"

definition flush_run :: "sort_context \<Rightarrow> sorting \<Rightarrow> sorting sort_outcome" where
  "flush_run ctx st =
     (let c = sg_cursor st; items = sort_by (\<lambda>a b. sc_compare ctx (it_key a) (it_key b)) (sg_pending st)
      in rbind (storage (writeBatch (sc_nfc ctx) (0, cu_count c, 0) items) st) (\<lambda>(_, st1).
         rbind (storage (writeBatch (sc_nfc ctx) (0, cu_count c, 1) []) st1) (\<lambda>(_, st2).
         save ctx (st2\<lparr>sg_cursor := c\<lparr>cu_count := cu_count c + 1\<rparr>, sg_pending := [], sg_bytes := 0\<rparr>))))"

definition take_entry :: "sort_context \<Rightarrow> nat \<times> js_value \<Rightarrow> sorting \<Rightarrow> sorting sort_outcome" where
  "take_entry ctx entry st = (case entry of (ordinal, v) \<Rightarrow>
     rbind (or_fail st (record_json (sc_nfc ctx) v)) (\<lambda>key.
     rbind (or_fail st (sortableSize key)) (\<lambda>bytes.
     rbind (if overflows bytes st then flush_run ctx st else Inr st) (\<lambda>st1.
     rbind (storage (retain_record ctx v) st1) (\<lambda>(envelope, st2).
     let st3 = push_item \<lparr>it_key = key, it_envelope = envelope, it_value = v\<rparr> bytes st2;
         st4 = st3\<lparr>sg_cursor := (sg_cursor st3)\<lparr>cu_after := ordinal\<rparr>\<rparr>
     in if batch_full st4 then flush_run ctx st4 else Inr st4)))))"

definition runs_stage :: "sort_context \<Rightarrow> sorting \<Rightarrow> sorting sort_outcome" where
  "runs_stage ctx st =
     rbind (rfold (take_entry ctx) (sc_source ctx (cu_after (sg_cursor st))) (st\<lparr>sg_pending := [], sg_bytes := 0\<rparr>)) (\<lambda>st1.
     rbind (if sg_pending st1 \<noteq> [] then flush_run ctx st1 else Inr st1) (\<lambda>st2.
     rbind (if cu_count (sg_cursor st2) = 0
            then rbind (storage (writeBatch (sc_nfc ctx) (0, 0, 0) []) st2)
                   (\<lambda>(_, st'). Inr (st'\<lparr>sg_cursor := (sg_cursor st')\<lparr>cu_count := 1\<rparr>\<rparr>))
            else Inr st2) (\<lambda>st3.
     save ctx (st3\<lparr>sg_cursor := (sg_cursor st3)\<lparr>cu_stage := (if cu_count (sg_cursor st3) = 1 then Stage_complete else Stage_merge)\<rparr>\<rparr>))))"

text \<open>The loop that selects the least head, the first of equals.\<close>

definition select_head :: "('a \<Rightarrow> 'a \<Rightarrow> int) \<Rightarrow> 'a option list \<Rightarrow> (nat \<times> 'a) option" where
  "select_head compare heads = foldl (\<lambda>selected (index, head). case head of
       None \<Rightarrow> selected
     | Some h \<Rightarrow> (case selected of
         None \<Rightarrow> Some (index, h)
       | Some (i, g) \<Rightarrow> if compare h g < 0 then Some (index, h) else selected)) None (enumerate 0 heads)"

definition flush_merge :: "sort_context \<Rightarrow> sorting \<Rightarrow> sorting sort_outcome" where
  "flush_merge ctx st =
     (let c = sg_cursor st
      in rbind (storage (writeBatch (sc_nfc ctx) (cu_pass c + 1, cu_first c div 4, cu_output c) (sg_pending st)) st) (\<lambda>(_, st1).
         save ctx (st1\<lparr>sg_cursor := c\<lparr>cu_output := cu_output c + 1\<rparr>, sg_pending := [], sg_bytes := 0\<rparr>)))"

definition merge_emit :: "sort_context \<Rightarrow> nat \<Rightarrow> Item \<Rightarrow> Item option list \<Rightarrow> sorting \<Rightarrow> (Item option list \<times> sorting) sort_outcome" where
  "merge_emit ctx selected head heads st =
     rbind (or_fail st (sortableSize (it_key head))) (\<lambda>bytes.
     rbind (if overflows bytes st then flush_merge ctx st else Inr st) (\<lambda>st1.
     let st2 = push_item head bytes st1; c = sg_cursor st2; position = cu_positions c ! selected
     in rbind (or_fail st2 (readHead ctx (sg_store st2) (cu_pass c) (cu_first c + selected) (position\<lparr>ps_offset := ps_offset position + 1\<rparr>)))
          (\<lambda>(head', position').
        let st3 = st2\<lparr>sg_cursor := c\<lparr>cu_positions := (cu_positions c)[selected := position']\<rparr>\<rparr>
        in rbind (if batch_full st3 then flush_merge ctx st3 else Inr st3) (\<lambda>st4. Inr (heads[selected := head'], st4)))))"

partial_function (option) merge_loop :: "sort_context \<Rightarrow> Item option list \<Rightarrow> sorting \<Rightarrow> sorting sort_outcome option" where
  "merge_loop ctx heads st = (case select_head (\<lambda>a b. sc_compare ctx (it_key a) (it_key b)) heads of
     None \<Rightarrow> Some (Inr st)
   | Some (selected, head) \<Rightarrow>
       (case merge_emit ctx selected head heads st of
          Inl stop \<Rightarrow> Some (Inl stop)
        | Inr (heads', st') \<Rightarrow> merge_loop ctx heads' st'))"

fun read_heads :: "sort_context \<Rightarrow> sort_store \<Rightarrow> nat \<Rightarrow> nat \<Rightarrow> Position list \<Rightarrow> sort_error + (Item option \<times> Position) list" where
  "read_heads ctx store pass run [] = Inr []"
| "read_heads ctx store pass run (p # ps) =
     rbind (readHead ctx store pass run p) (\<lambda>h. rbind (read_heads ctx store pass (run + 1) ps) (\<lambda>hs. Inr (h # hs)))"

definition begin_group :: "sort_context \<Rightarrow> sorting \<Rightarrow> (Item option list \<times> sorting) sort_outcome" where
  "begin_group ctx st =
     (let c = sg_cursor st;
          positions = (if cu_positions c = [] then replicate (min 4 (cu_count c - cu_first c)) \<lparr>ps_batch = 0, ps_offset = 0\<rparr> else cu_positions c)
      in rbind (or_fail st (read_heads ctx (sg_store st) (cu_pass c) (cu_first c) positions)) (\<lambda>hs.
         Inr (map fst hs, st\<lparr>sg_cursor := c\<lparr>cu_positions := map snd hs\<rparr>, sg_pending := [], sg_bytes := 0\<rparr>)))"

definition end_group :: "sort_context \<Rightarrow> sorting \<Rightarrow> sorting sort_outcome" where
  "end_group ctx st =
     rbind (if sg_pending st \<noteq> [] then flush_merge ctx st else Inr st) (\<lambda>st1.
     let c = sg_cursor st1
     in rbind (storage (writeBatch (sc_nfc ctx) (cu_pass c + 1, cu_first c div 4, cu_output c) []) st1) (\<lambda>(_, st2).
        save ctx (st2\<lparr>sg_cursor := c\<lparr>cu_first := cu_first c + 4, cu_output := 0, cu_positions := []\<rparr>\<rparr>)))"

definition next_pass :: "sort_context \<Rightarrow> sorting \<Rightarrow> sorting sort_outcome" where
  "next_pass ctx st =
     (let c = sg_cursor st; count = (cu_count c + 3) div 4
      in save ctx (st\<lparr>sg_cursor := c\<lparr>cu_count := count, cu_pass := cu_pass c + 1, cu_first := 0,
           cu_stage := (if count = 1 then Stage_complete else cu_stage c)\<rparr>\<rparr>))"

definition merge_group :: "sort_context \<Rightarrow> sorting \<Rightarrow> sorting sort_outcome option" where
  "merge_group ctx st = (case begin_group ctx st of
     Inl stop \<Rightarrow> Some (Inl stop)
   | Inr (heads, st1) \<Rightarrow> map_option (\<lambda>r. rbind r (end_group ctx)) (merge_loop ctx heads st1))"

partial_function (option) merge_stage :: "sort_context \<Rightarrow> sorting \<Rightarrow> sorting sort_outcome option" where
  "merge_stage ctx st =
     (if cu_count (sg_cursor st) \<le> 1 then Some (Inr st)
      else Option.bind (if cu_first (sg_cursor st) < cu_count (sg_cursor st) then merge_group ctx st else Some (next_pass ctx st))
        (\<lambda>r. case r of Inl stop \<Rightarrow> Some (Inl stop) | Inr st' \<Rightarrow> merge_stage ctx st'))"

definition initial_cursor :: "nat \<Rightarrow> Cursor" where
  "initial_cursor version = \<lparr>cu_source = version, cu_after = 0, cu_stage = Stage_runs, cu_count = 0, cu_pass = 0, cu_first = 0,
     cu_output = 0, cu_positions = []\<rparr>"

definition resume :: "sort_context \<Rightarrow> nat option \<Rightarrow> sort_store \<Rightarrow> sorting sort_outcome" where
  "resume ctx left store = (case reconciliationCheckpoint store of
     Inl e \<Rightarrow> Inl (Failed e, store)
   | Inr checkpoint \<Rightarrow>
       let cursor = (case checkpoint of None \<Rightarrow> initial_cursor (sc_version ctx) | Some (_, c) \<Rightarrow> c)
       in if cu_source cursor \<noteq> sc_version ctx then Inl (Failed Prefix_changed, store)
          else Inr \<lparr>sg_store = store, sg_left = left, sg_cursor = cursor,
                 sg_ordinal = (case checkpoint of None \<Rightarrow> 0 | Some (n, _) \<Rightarrow> n + 1), sg_pending = [], sg_bytes = 0\<rparr>)"

text \<open>The result is the final pass, which the reader of the records needs.\<close>

definition prepareRuns :: "sort_context \<Rightarrow> nat option \<Rightarrow> sort_store \<Rightarrow> (nat \<times> sort_store) sort_outcome option" where
  "prepareRuns ctx left store =
     (case rbind (resume ctx left store) (\<lambda>st. if cu_stage (sg_cursor st) = Stage_runs then runs_stage ctx st else Inr st) of
        Inl stop \<Rightarrow> Some (Inl stop)
      | Inr st \<Rightarrow> map_option (\<lambda>r. rbind r (\<lambda>st'. Inr (cu_pass (sg_cursor st'), sg_store st')))
          (if cu_stage (sg_cursor st) = Stage_merge then merge_stage ctx st else Some (Inr st)))"

text \<open>The generator of the sorted records, read to its end.\<close>

partial_function (option) canonicalEntries ::
  "sort_context \<Rightarrow> sort_store \<Rightarrow> nat \<Rightarrow> Position \<Rightarrow> (sort_error + (Position \<times> js_value) list) option" where
  "canonicalEntries ctx store pass position = (case readHead ctx store pass 0 position of
     Inl e \<Rightarrow> Some (Inl e)
   | Inr (head, position') \<Rightarrow> (case head of
       None \<Rightarrow> Some (Inr [])
     | Some item \<Rightarrow>
         Option.bind (canonicalEntries ctx store pass (position'\<lparr>ps_offset := ps_offset position' + 1\<rparr>))
           (\<lambda>r. Some (rbind r (\<lambda>rest. Inr ((position'\<lparr>ps_offset := ps_offset position' + 1\<rparr>, it_value item) # rest))))))"

end
