(* ===== verification/Sorted_Spec.thy ===== *)
theory Sorted_Spec
  imports Sorted_Records
begin

text \<open>
  What the external sort is to produce, as functions on lists: how a sequence is cut into batches, how
  sorted lists are merged, the runs of every pass and the batches of every run.
\<close>

subsection \<open>Cutting into batches\<close>

fun cut_batches :: "('a \<Rightarrow> nat) \<Rightarrow> 'a list \<Rightarrow> nat \<Rightarrow> 'a list \<Rightarrow> 'a list list" where
  "cut_batches w p b [] = (if p = [] then [] else [p])"
| "cut_batches w p b (x # xs) =
     (if p \<noteq> [] \<and> b + w x > 512000 then [p] else []) @
     (let p1 = (if p \<noteq> [] \<and> b + w x > 512000 then [] else p) @ [x];
          b1 = (if p \<noteq> [] \<and> b + w x > 512000 then 0 else b) + w x
      in if length p1 = 8 \<or> b1 \<ge> 512000 then p1 # cut_batches w [] 0 xs else cut_batches w p1 b1 xs)"

lemma cut_overflow: "p \<noteq> [] \<Longrightarrow> b + w x > 512000 \<Longrightarrow> cut_batches w p b (x # xs) = p # cut_batches w [] 0 (x # xs)"
  by simp

lemma cut_push:
  "\<not> (p \<noteq> [] \<and> b + w x > 512000) \<Longrightarrow> cut_batches w p b (x # xs) =
     (if length (p @ [x]) = 8 \<or> b + w x \<ge> 512000 then (p @ [x]) # cut_batches w [] 0 xs else cut_batches w (p @ [x]) (b + w x) xs)"
  by (auto simp: Let_def)

declare cut_batches.simps(2) [simp del]

lemma concat_cut: "concat (cut_batches w p b xs) = p @ xs"
proof (induction xs arbitrary: p b)
  case (Cons x xs)
  have push: "concat (cut_batches w q c (x # xs)) = q @ x # xs" if "\<not> (q \<noteq> [] \<and> c + w x > 512000)" for q c
    unfolding cut_push [of q c w x xs, OF that] using Cons by simp
  then show ?case by (cases "p \<noteq> [] \<and> b + w x > 512000") (simp_all add: cut_overflow)
qed simp

lemma cut_nonempty: "[] \<notin> set (cut_batches w p b xs)"
proof (induction xs arbitrary: p b)
  case (Cons x xs)
  have push: "[] \<notin> set (cut_batches w q c (x # xs))" if "\<not> (q \<noteq> [] \<and> c + w x > 512000)" for q c
    unfolding cut_push [of q c w x xs, OF that] using Cons by simp
  then show ?case by (cases "p \<noteq> [] \<and> b + w x > 512000") (auto simp: cut_overflow)
qed simp

text \<open>A batch has at most eight items, and at most 512000 bytes unless it is a single item.\<close>

definition batch_sized :: "('a \<Rightarrow> nat) \<Rightarrow> 'a list \<Rightarrow> bool" where
  "batch_sized w es \<longleftrightarrow> length es \<le> 8 \<and> (length es \<le> 1 \<or> sum_list (map w es) \<le> 512000)"

lemma cut_sized: "batch_sized w p \<Longrightarrow> length p < 8 \<Longrightarrow> b = sum_list (map w p) \<Longrightarrow> es \<in> set (cut_batches w p b xs) \<Longrightarrow> batch_sized w es"
proof (induction xs arbitrary: p b)
  case (Cons x xs)
  have push: "batch_sized w es" if "\<not> (q \<noteq> [] \<and> c + w x > 512000)" "batch_sized w q" "length q < 8" "c = sum_list (map w q)" "es \<in> set (cut_batches w q c (x # xs))" for q c
  proof -
    have sized: "batch_sized w (q @ [x])" using that by (auto simp: batch_sized_def)
    moreover have "batch_sized w []" by (simp add: batch_sized_def)
    ultimately show ?thesis using that(3-5) Cons.IH [of "[]" 0] Cons.IH [of "q @ [x]" "c + w x"] unfolding cut_push [of q c w x xs, OF that(1)] by (auto split: if_splits)
  qed
  show ?case
  proof (cases "p \<noteq> [] \<and> b + w x > 512000")
    case True
    then have "es = p \<or> es \<in> set (cut_batches w [] 0 (x # xs))" using Cons.prems by (simp add: cut_overflow)
    then show ?thesis using push [of "[]" 0] Cons.prems by (auto simp: batch_sized_def)
  qed (use push Cons.prems in blast)
qed (auto split: if_splits)

subsection \<open>Order\<close>

definition collation :: "('a \<Rightarrow> 'a \<Rightarrow> int) \<Rightarrow> bool" where
  "collation compare \<longleftrightarrow> (\<forall>a b. compare a b < 0 \<longleftrightarrow> compare b a > 0) \<and>
     (\<forall>a b c. compare a b \<le> 0 \<longrightarrow> compare b c \<le> 0 \<longrightarrow> compare a c \<le> 0)"

lemma collation_total: "collation compare \<Longrightarrow> \<not> compare a b \<le> 0 \<Longrightarrow> compare b a \<le> 0"
  by (auto simp: collation_def not_le dest: less_imp_le)

lemma collation_trans: "collation compare \<Longrightarrow> compare a b \<le> 0 \<Longrightarrow> compare b c \<le> 0 \<Longrightarrow> compare a c \<le> 0"
  by (simp add: collation_def)

lemma collation_refl: "collation compare \<Longrightarrow> compare a a \<le> 0"
  using collation_total [of compare a a] by auto

definition ordered :: "('a \<Rightarrow> 'a \<Rightarrow> int) \<Rightarrow> 'a list \<Rightarrow> bool" where
  "ordered compare xs \<longleftrightarrow> sorted_wrt (\<lambda>a b. compare a b \<le> 0) xs"

lemma insert_by_set: "set (insert_by compare x ys) = insert x (set ys)"
  by (induction ys) auto

lemma insert_by_ordered: "collation compare \<Longrightarrow> ordered compare ys \<Longrightarrow> ordered compare (insert_by compare x ys)"
proof (induction ys)
  case (Cons y ys)
  then show ?case
    by (auto simp: ordered_def insert_by_set intro: collation_trans [of compare x y] collation_total)
qed (simp add: ordered_def)

lemma sort_by_ordered: "collation compare \<Longrightarrow> ordered compare (sort_by compare xs)"
  by (induction xs) (simp_all add: sort_by_def insert_by_ordered, simp add: ordered_def)

lemma sort_by_mset: "mset (sort_by compare xs) = mset xs"
proof -
  have "mset (insert_by compare x ys) = add_mset x (mset ys)" for x ys by (induction ys) auto
  then show ?thesis by (induction xs) (simp_all add: sort_by_def)
qed

subsection \<open>Merging\<close>

lemma select_head_Nil [simp]: "select_head compare [] = None"
  by (simp add: select_head_def)

lemma select_head_snoc: "select_head compare (hs @ [x]) = (case x of
     None \<Rightarrow> select_head compare hs
   | Some h \<Rightarrow> (case select_head compare hs of
       None \<Rightarrow> Some (length hs, h)
     | Some (i, g) \<Rightarrow> if compare h g < 0 then Some (length hs, h) else select_head compare hs))"
  by (auto simp: select_head_def enumerate_append_eq split: option.splits)

lemma select_head_None: "select_head compare hs = None \<longleftrightarrow> (\<forall>h\<in>set hs. h = None)"
  by (induction hs rule: rev_induct) (auto simp: select_head_snoc split: option.splits)

lemma select_head_nth: "select_head compare hs = Some (i, h) \<Longrightarrow> i < length hs \<and> hs ! i = Some h"
  by (induction hs arbitrary: i h rule: rev_induct) (auto simp: select_head_snoc nth_append split: option.splits if_splits)

lemma select_head_least:
  "collation compare \<Longrightarrow> select_head compare hs = Some (i, h) \<Longrightarrow> Some g \<in> set hs \<Longrightarrow> compare h g \<le> 0"
proof (induction hs arbitrary: i h rule: rev_induct)
  case (snoc x hs)
  show ?case
  proof (cases x)
    case None
    then show ?thesis using snoc by (auto simp: select_head_snoc)
  next
    case (Some f)
    show ?thesis
    proof (cases "select_head compare hs")
      case None
      then have "\<forall>h\<in>set hs. h = None" by (simp add: select_head_None)
      then show ?thesis using snoc.prems Some None collation_refl by (auto simp: select_head_snoc)
    next
      case (Some ik)
      obtain j k where k: "select_head compare hs = Some (j, k)" using Some by fastforce
      have old: "compare k g \<le> 0" if "Some g \<in> set hs" using snoc.IH [OF snoc.prems(1) k that] .
      show ?thesis
      proof (cases "compare f k < 0")
        case True
        then have "h = f" using snoc.prems \<open>x = Some f\<close> k by (simp add: select_head_snoc)
        then show ?thesis using snoc.prems \<open>x = Some f\<close> True old collation_trans [of compare f k g] collation_refl by auto
      next
        case False
        then have "h = k" using snoc.prems \<open>x = Some f\<close> k by (simp add: select_head_snoc)
        moreover have "compare k f \<le> 0" using False snoc.prems(1) by (force simp: collation_def not_less)
        ultimately show ?thesis using snoc.prems \<open>x = Some f\<close> old by auto
      qed
    qed
  qed
qed simp

lemma select_head_map:
  assumes "\<And>x y. compare (f x) (f y) = compare' x y"
  shows "select_head compare (map (map_option f) hs) = map_option (apsnd f) (select_head compare' hs)"
  by (induction hs rule: rev_induct) (auto simp: select_head_snoc assms split: option.splits)

fun head_of :: "'a list \<Rightarrow> 'a option" where
  "head_of [] = None"
| "head_of (x # xs) = Some x"

lemma head_of_Some: "head_of xs = Some h \<longleftrightarrow> xs = h # tl xs"
  by (cases xs) auto

lemma sum_length_tl:
  "i < length ls \<Longrightarrow> ls ! i = h # xs \<Longrightarrow> sum_list (map length ls) = Suc (sum_list (map length (ls[i := xs])))"
  by (induction ls arbitrary: i) (auto split: nat.splits)

function merge_lists :: "('a \<Rightarrow> 'a \<Rightarrow> int) \<Rightarrow> 'a list list \<Rightarrow> 'a list" where
  "merge_lists compare ls = (case select_head compare (map head_of ls) of
     None \<Rightarrow> []
   | Some (i, h) \<Rightarrow> h # merge_lists compare (ls[i := tl (ls ! i)]))"
  by pat_completeness auto
termination
proof (relation "measure (\<lambda>(compare, ls). sum_list (map length ls))", simp, goal_cases)
  case (1 compare ls ih i h)
  then have "i < length ls \<and> head_of (ls ! i) = Some h" using select_head_nth [of compare "map head_of ls" i h] by auto
  then show ?case using sum_length_tl [of i ls h "tl (ls ! i)"] by (simp add: head_of_Some)
qed

declare merge_lists.simps [simp del]

lemma mset_concat_tl:
  "i < length ls \<Longrightarrow> ls ! i = h # xs \<Longrightarrow> mset (concat ls) = add_mset h (mset (concat (ls[i := xs])))"
  by (induction ls arbitrary: i) (auto split: nat.splits)

lemma merge_lists_mset: "mset (merge_lists compare ls) = mset (concat ls)"
proof (induction compare ls rule: merge_lists.induct)
  case (1 compare ls)
  show ?case
  proof (cases "select_head compare (map head_of ls)")
    case None
    then have "\<forall>xs\<in>set ls. xs = []" by (auto simp: select_head_None) (metis head_of.elims option.distinct(1))
    then have "concat ls = []" by simp
    then show ?thesis using None by (subst merge_lists.simps) simp
  next
    case (Some ih)
    obtain i h where ih: "ih = (i, h)" by fastforce
    have "i < length ls" "head_of (ls ! i) = Some h" using select_head_nth [of compare "map head_of ls" i h] Some ih by auto
    moreover from this have "ls ! i = h # tl (ls ! i)" by (simp add: head_of_Some)
    ultimately show ?thesis using 1 [OF Some ih [symmetric]] Some ih mset_concat_tl [of i ls h "tl (ls ! i)"]
      by (subst merge_lists.simps) simp
  qed
qed

lemma merge_lists_ordered: "collation compare \<Longrightarrow> \<forall>xs\<in>set ls. ordered compare xs \<Longrightarrow> ordered compare (merge_lists compare ls)"
proof (induction compare ls rule: merge_lists.induct)
  case (1 compare ls)
  show ?case
  proof (cases "select_head compare (map head_of ls)")
    case None
    then show ?thesis by (subst merge_lists.simps) (simp add: ordered_def)
  next
    case (Some ih)
    obtain i h where ih: "ih = (i, h)" by fastforce
    have i: "i < length ls" "head_of (ls ! i) = Some h" using select_head_nth [of compare "map head_of ls" i h] Some ih by auto
    have "ordered compare (ls ! i)" using 1 i by simp
    then have "ordered compare (tl (ls ! i))" by (cases "ls ! i") (simp_all add: ordered_def)
    then have "\<forall>xs\<in>set (ls[i := tl (ls ! i)]). ordered compare xs" using 1(3) set_update_subset_insert by fastforce
    then have rest: "ordered compare (merge_lists compare (ls[i := tl (ls ! i)]))" using 1(1) [OF Some ih [symmetric] 1(2)] by blast
    have "compare h x \<le> 0" if "x \<in> set xs" "xs \<in> set ls" for x xs
    proof -
      obtain g ys where g: "xs = g # ys" using \<open>x \<in> set xs\<close> by (cases xs) auto
      have "Some g \<in> set (map head_of ls)" using \<open>xs \<in> set ls\<close> g by force
      then have "compare h g \<le> 0" using select_head_least [OF 1(2)] Some ih by blast
      moreover have "compare g x \<le> 0" using 1(3) that g collation_refl [OF 1(2)] by (auto simp: ordered_def)
      ultimately show ?thesis using collation_trans [OF 1(2)] by blast
    qed
    then have "\<forall>x\<in>set (concat ls). compare h x \<le> 0" by auto
    moreover have "set (merge_lists compare (ls[i := tl (ls ! i)])) \<subseteq> set (concat ls)"
    proof -
      have "set (merge_lists compare (ls[i := tl (ls ! i)])) = set (concat (ls[i := tl (ls ! i)]))"
        using merge_lists_mset [of compare "ls[i := tl (ls ! i)]"] mset_eq_setD by blast
      moreover have "mset (concat ls) = add_mset h (mset (concat (ls[i := tl (ls ! i)])))"
        using mset_concat_tl [of i ls h "tl (ls ! i)"] i by (simp add: head_of_Some)
      ultimately show ?thesis by (metis insert_subset set_mset_add_mset_insert set_mset_mset subset_refl)
    qed
    ultimately have "\<forall>x\<in>set (merge_lists compare (ls[i := tl (ls ! i)])). compare h x \<le> 0" by blast
    then show ?thesis using Some ih rest by (subst merge_lists.simps) (simp add: ordered_def)
  qed
qed

subsection \<open>The runs of a pass and the batches of a run\<close>

definition next_runs :: "('a \<Rightarrow> 'a \<Rightarrow> int) \<Rightarrow> 'a list list \<Rightarrow> 'a list list" where
  "next_runs compare ls = map (\<lambda>r. merge_lists compare (take 4 (drop (4 * r) ls))) [0..<(length ls + 3) div 4]"

fun pass_runs :: "('a \<Rightarrow> 'a \<Rightarrow> int) \<Rightarrow> ('a \<Rightarrow> nat) \<Rightarrow> 'a list \<Rightarrow> nat \<Rightarrow> 'a list list" where
  "pass_runs compare w xs 0 = (if xs = [] then [[]] else map (sort_by compare) (cut_batches w [] 0 xs))"
| "pass_runs compare w xs (Suc p) = next_runs compare (pass_runs compare w xs p)"

definition run_batches :: "('a \<Rightarrow> 'a \<Rightarrow> int) \<Rightarrow> ('a \<Rightarrow> nat) \<Rightarrow> 'a list \<Rightarrow> nat \<Rightarrow> nat \<Rightarrow> 'a list list" where
  "run_batches compare w xs p r = (let run = pass_runs compare w xs p ! r
     in (if p = 0 then if run = [] then [] else [run] else cut_batches w [] 0 run) @ [[]])"

lemma groups_concat: "concat (map (\<lambda>r. take 4 (drop (4 * r) ls)) [0..<(length ls + 3) div 4]) = ls"
proof (induction "length ls" arbitrary: ls rule: less_induct)
  case less
  show ?case
  proof (cases "ls = []")
    case False
    then obtain k where k: "(length ls + 3) div 4 = Suc k" by (cases "(length ls + 3) div 4") (auto simp: div_eq_0_iff)
    have "(length (drop 4 ls) + 3) div 4 = k" using k by auto
    then have "concat (map (\<lambda>r. take 4 (drop (4 * r) (drop 4 ls))) [0..<k]) = drop 4 ls"
      using less [of "drop 4 ls"] False by (cases ls) auto
    moreover have "map (\<lambda>r. take 4 (drop (4 * r) ls)) [0..<Suc k] = take 4 ls # map (\<lambda>r. take 4 (drop (4 * r) (drop 4 ls))) [0..<k]"
      by (simp add: map_upt_Suc add.commute del: upt_Suc)
    ultimately show ?thesis unfolding k by simp
  qed simp
qed

lemma next_runs_mset: "mset (concat (next_runs compare ls)) = mset (concat ls)"
proof -
  have "mset (concat (map (\<lambda>r. merge_lists compare (g r)) rs)) = mset (concat (concat (map g rs)))" for g and rs :: "nat list"
    by (induction rs) (simp_all add: merge_lists_mset)
  then show ?thesis unfolding next_runs_def by (simp only: groups_concat)
qed

lemma pass_runs_mset: "mset (concat (pass_runs compare w xs p)) = mset xs"
proof (induction p)
  case 0
  have "mset (concat (map (sort_by compare) bs)) = mset (concat bs)" for bs by (induction bs) (simp_all add: sort_by_mset)
  then show ?case by (simp add: concat_cut)
qed (simp add: next_runs_mset)

lemma pass_runs_ordered: "collation compare \<Longrightarrow> run \<in> set (pass_runs compare w xs p) \<Longrightarrow> ordered compare run"
proof (induction p arbitrary: run)
  case 0
  then show ?case by (auto simp: sort_by_ordered ordered_def [of compare "[]"] split: if_splits)
next
  case (Suc p)
  then obtain r where "run = merge_lists compare (take 4 (drop (4 * r) (pass_runs compare w xs p)))" by (auto simp: next_runs_def)
  then show ?case using Suc by (auto intro!: merge_lists_ordered dest: in_set_takeD in_set_dropD)
qed

lemma length_next_runs: "length (next_runs compare ls) = (length ls + 3) div 4"
  by (simp add: next_runs_def)

lemma next_runs_nth: "4 * r < length ls \<Longrightarrow> next_runs compare ls ! r = merge_lists compare (take 4 (drop (4 * r) ls))"
proof -
  assume "4 * r < length ls"
  then have "r < (length ls + 3) div 4" by linarith
  then show ?thesis by (simp add: next_runs_def)
qed

lemma pass_runs_pos: "0 < length (pass_runs compare w xs p)"
proof (induction p)
  case 0
  show ?case using concat_cut [of w "[]" 0 xs] by (cases "cut_batches w [] 0 xs") auto
qed (simp add: length_next_runs div_greater_zero_iff Suc_le_eq)

lemma run_sub: "r < length (pass_runs compare w xs p) \<Longrightarrow> mset (pass_runs compare w xs p ! r) \<subseteq># mset xs"
proof -
  assume "r < length (pass_runs compare w xs p)"
  then have "mset (pass_runs compare w xs p ! r) \<subseteq># mset (concat (pass_runs compare w xs p))"
    by (metis append_take_drop_id concat.simps(2) concat_append id_take_nth_drop mset_append mset_subset_eq_add_left mset_subset_eq_add_right subset_mset.order_trans)
  then show ?thesis by (simp only: pass_runs_mset)
qed

lemma concat_run_batches: "concat (run_batches compare w xs p r) = pass_runs compare w xs p ! r"
  by (simp add: run_batches_def Let_def concat_cut)

lemma run_batches_shape: "\<exists>bs. run_batches compare w xs p r = bs @ [[]] \<and> [] \<notin> set bs"
  by (auto simp: run_batches_def Let_def cut_nonempty)

lemma batch_sized_mset: "mset es = mset fs \<Longrightarrow> batch_sized w es \<longleftrightarrow> batch_sized w fs"
proof -
  assume m: "mset es = mset fs"
  then have "length es = length fs" "sum_list (map w es) = sum_list (map w fs)"
    by (rule mset_eq_length) (metis m mset_map sum_mset_sum_list)
  then show ?thesis by (simp add: batch_sized_def)
qed

lemma run_batches_sized:
  assumes "r < length (pass_runs compare w xs p)" "es \<in> set (run_batches compare w xs p r)"
  shows "batch_sized w es" "set es \<subseteq> set xs"
proof -
  have cut: "batch_sized w fs" if "fs \<in> set (cut_batches w [] 0 ys)" for fs ys
    using cut_sized [of w "[]" 0 fs ys] that by (simp add: batch_sized_def)
  show "batch_sized w es"
  proof (cases p)
    case 0
    have "batch_sized w (sort_by compare (cut_batches w [] 0 xs ! r))" if "r < length (cut_batches w [] 0 xs)"
      unfolding batch_sized_mset [OF sort_by_mset] using cut [OF nth_mem [OF that]] .
    then show ?thesis using assms 0
      by (auto simp: run_batches_def Let_def batch_sized_def [of w "[]"] split: if_splits)
  qed (use assms cut in \<open>auto simp: run_batches_def Let_def batch_sized_def [of w "[]"]\<close>)
  have "set es \<subseteq> set (concat (run_batches compare w xs p r))" using assms(2) by auto
  also have "\<dots> \<subseteq> set xs" unfolding concat_run_batches using set_mset_mono [OF run_sub [OF assms(1)]] by simp
  finally show "set es \<subseteq> set xs" .
qed

end
