(* ===== verification/Sorted_Size.thy ===== *)
theory Sorted_Size
  imports Sorted_Spec
begin

text \<open>How long the canonical text of a cursor can be: far below the limit of a checkpoint.\<close>

definition json_within :: "(js_string \<Rightarrow> js_string) \<Rightarrow> nat \<Rightarrow> js_value \<Rightarrow> bool" where
  "json_within nfc n v \<longleftrightarrow> (\<forall>path. \<exists>t. canonicalJsonAt nfc path v = Inr t \<and> length t \<le> n)"

lemma json_within_mono: "json_within nfc m v \<Longrightarrow> m \<le> n \<Longrightarrow> json_within nfc n v"
  unfolding json_within_def by (meson order_trans)

lemma length_escape: "length (escape_units s) \<le> 6 * length s"
proof -
  have "length (escape_unit c) \<le> 6" for c by (simp add: escape_unit_def length_hex4)
  then have e: "length (escape_unit c) \<le> 6" for c .
  show ?thesis
  proof (induction s rule: escape_units.induct)
    case (2 c)
    then show ?case using e [of c] by simp
  next
    case (3 c d cs)
    then show ?case using e [of c] by (cases "is_high c \<and> is_low d") auto
  qed simp
qed

lemma length_quote: "length (quote s) \<le> 6 * length s + 2"
  using length_escape [of s] by (simp add: quote_def)

lemma length_decimal: "n < 10 ^ k \<Longrightarrow> 0 < k \<Longrightarrow> length (decimal n) \<le> k"
proof (induction n arbitrary: k rule: decimal.induct)
  case (1 n)
  show ?case
  proof (cases "n < 10")
    case False
    obtain j where j: "k = Suc j" using 1(3) by (cases k) auto
    moreover have "0 < j" using False 1(2) j by (cases j) simp_all
    ultimately have j: "k = Suc j" "0 < j" by simp_all
    then have "n div 10 < 10 ^ j" using 1(2) by (simp add: less_mult_imp_div_less mult.commute)
    then show ?thesis using 1(1) [OF False] j False by (subst decimal.simps) simp
  qed (use 1 in \<open>subst decimal.simps, simp\<close>)
qed

lemma json_within_int: "n < 10 ^ 19 \<Longrightarrow> json_within nfc 19 (VInt (int n))"
  using length_decimal [of n 19] by (simp add: json_within_def int_text_def ascii_def)

lemma json_within_text: "nfc s = s \<Longrightarrow> length s \<le> n \<Longrightarrow> json_within nfc (6 * n + 2) (VText s)"
  using length_quote [of s] by (simp add: json_within_def)

lemma collect_within:
  "\<forall>r\<in>set rs. \<exists>t. r = Inr t \<and> length t \<le> n \<Longrightarrow> \<exists>ts. collect rs = Inr ts \<and> length ts = length rs \<and> (\<forall>t\<in>set ts. length t \<le> n)"
proof (induction rs)
  case (Cons r rs)
  then obtain t ts where "r = Inr t" "length t \<le> n" "collect rs = Inr ts" "length ts = length rs" "\<forall>t\<in>set ts. length t \<le> n" by auto
  then show ?case by simp
qed simp

lemma length_join: "\<forall>t\<in>set ts. length t \<le> n \<Longrightarrow> length (join_with c ts) \<le> length ts * (n + 1)"
  by (induction c ts rule: join_with.induct) auto

lemma joined_within:
  assumes "\<forall>r\<in>set rs. \<exists>t. r = Inr t \<and> length t \<le> n"
  shows "\<exists>t. rbind (collect rs) (\<lambda>texts. Inr (a # join_with 44 texts @ [b])) = Inr t \<and> length t \<le> length rs * (n + 1) + 2"
proof -
  obtain ts where "collect rs = Inr ts" "length ts = length rs" "\<forall>t\<in>set ts. length t \<le> n" using collect_within [OF assms] by blast
  then show ?thesis using length_join [of ts n 44] by simp
qed

lemma json_within_array:
  assumes "\<forall>x\<in>set xs. json_within nfc n x"
  shows "json_within nfc (length xs * (n + 1) + 2) (VArray xs)"
  unfolding json_within_def canonicalJsonAt.simps
proof
  fix path
  let ?rs = "map (\<lambda>(i, x). canonicalJsonAt nfc (path @ [Index i]) x) (enumerate 0 xs)"
  have "\<exists>t. r = Inr t \<and> length t \<le> n" if r: "r \<in> set ?rs" for r
  proof -
    obtain i x where "(i, x) \<in> set (enumerate 0 xs)" "r = canonicalJsonAt nfc (path @ [Index i]) x" using r by auto
    moreover from this have "x \<in> set xs" by (auto simp: in_set_enumerate_eq)
    ultimately show ?thesis using assms by (auto simp: json_within_def)
  qed
  then show "\<exists>t. rbind (collect ?rs) (\<lambda>texts. Inr (91 # join_with 44 texts @ [93])) = Inr t \<and> length t \<le> length xs * (n + 1) + 2"
    using joined_within [of ?rs n 91 93] by simp
qed

lemma json_within_object:
  assumes "\<forall>(k, x)\<in>set ps. json_within nfc n x \<and> nfc k = k \<and> length k \<le> m"
  shows "json_within nfc (length ps * (n + 6 * m + 4) + 2) (VObject ps)"
  unfolding json_within_def canonicalJsonAt.simps
proof
  fix path
  let ?cs = "map (\<lambda>(key, x). (key, canonicalJsonAt nfc (path @ [Key key]) x)) ps"
  let ?rs = "map (\<lambda>(key, r). rbind r (\<lambda>t. Inr (quote (nfc key) @ 58 # t))) (sort_by (\<lambda>f g. compareUtf8 nfc (fst f) (fst g)) ?cs)"
  have same: "mset (sort_by (\<lambda>f g. compareUtf8 nfc (fst f) (fst g)) ?cs) = mset ?cs" by (rule sort_by_mset)
  have "\<exists>t. r = Inr t \<and> length t \<le> n + 6 * m + 3" if r: "r \<in> set ?rs" for r
  proof -
    obtain k x where kx: "(k, x) \<in> set ps" "r = rbind (canonicalJsonAt nfc (path @ [Key k]) x) (\<lambda>t. Inr (quote (nfc k) @ 58 # t))"
      using r mset_eq_setD [OF same] by auto
    then obtain t where "canonicalJsonAt nfc (path @ [Key k]) x = Inr t" "length t \<le> n" "nfc k = k" "length k \<le> m"
      using assms unfolding json_within_def by blast
    then show ?thesis using kx(2) length_quote [of k] by simp
  qed
  moreover have "length ?rs = length ps" using mset_eq_length [OF same] by simp
  ultimately show "\<exists>t. rbind (collect ?rs) (\<lambda>texts. Inr (123 # join_with 44 texts @ [125])) = Inr t \<and> length t \<le> length ps * (n + 6 * m + 4) + 2"
    using joined_within [of ?rs "n + 6 * m + 3" 123 125] by (simp add: algebra_simps)
qed

definition cursor_small :: "Cursor \<Rightarrow> bool" where
  "cursor_small c \<longleftrightarrow> cu_source c < 10 ^ 19 \<and> cu_after c < 10 ^ 19 \<and> cu_count c < 10 ^ 19 \<and> cu_pass c < 10 ^ 19 \<and>
     cu_first c < 10 ^ 19 \<and> cu_output c < 10 ^ 19 \<and> length (cu_positions c) \<le> 4 \<and>
     (\<forall>p\<in>set (cu_positions c). ps_batch p < 10 ^ 19 \<and> ps_offset p < 10 ^ 19)"

lemma cursor_fits:
  assumes "cursor_small c" "\<And>s. plain_ascii s \<Longrightarrow> nfc s = s"
  shows "\<exists>t. record_json nfc (cursor_value c) = Inr t \<and> byte_length t \<le> 65536"
proof -
  have plain: "nfc (ascii s) = ascii s" if "list_all (\<lambda>c. of_char c < (128 :: nat)) s" for s
    using that assms(2) by (auto simp: plain_ascii_def ascii_def list_all_iff unat_char)
  have len: "length (ascii s) = length s" for s by (simp add: ascii_def)
  have "json_within nfc 162 (position_value p)" if "p \<in> set (cu_positions c)" for p
    unfolding position_value_def
    by (rule json_within_mono [OF json_within_object [where n = 19 and m = 9]])
      (use that assms(1) in \<open>auto simp: cursor_small_def plain len intro!: json_within_int\<close>)
  then have "json_within nfc (length (map position_value (cu_positions c)) * (162 + 1) + 2) (VArray (map position_value (cu_positions c)))"
    by (intro json_within_array) auto
  then have positions: "json_within nfc 700 (VArray (map position_value (cu_positions c)))"
    by (rule json_within_mono) (use assms(1) in \<open>auto simp: cursor_small_def\<close>)
  have number: "json_within nfc 700 (VInt (int n))" if "n < 10 ^ 19" for n
    using json_within_int [OF that] by (rule json_within_mono) simp
  have stage: "json_within nfc 700 (VText (ascii (stage_text g)))" for g
    by (rule json_within_mono [OF json_within_text [where n = 8]]) (cases g; simp add: stage_text_def plain; simp add: ascii_def)+
  have "json_within nfc (8 * (700 + 6 * 13 + 4) + 2) (cursor_value c)"
    unfolding cursor_value_def
    by (rule json_within_mono [OF json_within_object [where n = 700 and m = 13]])
      (use assms(1) positions in \<open>auto simp: cursor_small_def plain number stage len\<close>)
  then obtain t where "canonicalJsonAt nfc [] (cursor_value c) = Inr t" "length t \<le> 8 * (700 + 6 * 13 + 4) + 2"
    unfolding json_within_def by blast
  then show ?thesis using byte_length_bounds [of t] by (simp add: record_json_def canonicalJson_def)
qed

end
