(* ===== verification/Sorted_Proofs.thy ===== *)
theory Sorted_Proofs
  imports Sorted_Spec Sorted_Size
begin

text \<open>
  The external sort under interruption: every store an invocation leaves behind, however it ends, holds
  only batches of the specification, and the cursor that was saved last says how to go on.
\<close>

subsection \<open>What is assumed\<close>

type_synonym element = "js_string \<times> RecordEnvelope"

definition record_element :: "sort_context \<Rightarrow> js_value \<Rightarrow> element" where
  "record_element ctx v = ((case canonicalJson (sc_nfc ctx) v of Inr k \<Rightarrow> k | Inl _ \<Rightarrow> []),
     \<lparr>re_value = showing (sc_nfc ctx) {} v, re_parts = map (\<lambda>(p, t). part_of p t) (long_texts (sc_nfc ctx) v)\<rparr>)"

definition weight :: "element \<Rightarrow> nat" where
  "weight e = byte_length (fst e)"

definition by_key :: "sort_context \<Rightarrow> element \<Rightarrow> element \<Rightarrow> int" where
  "by_key ctx a b = sc_compare ctx (fst a) (fst b)"

definition entry_elements :: "sort_context \<Rightarrow> (nat \<times> js_value) list \<Rightarrow> element list" where
  "entry_elements ctx entries = map (\<lambda>e. record_element ctx (snd e)) entries"

definition elements :: "sort_context \<Rightarrow> element list" where
  "elements ctx = entry_elements ctx (sc_source ctx 0)"

definition batch_text :: "sort_context \<Rightarrow> element list \<Rightarrow> serial_error + js_string" where
  "batch_text ctx es = canonicalJson (sc_nfc ctx) (VArray (map (\<lambda>e. envelope_value (snd e)) es))"

text \<open>Of the platform: Unicode normalisation, the size of a quoted text in SQLite, the collation.\<close>

definition platform_laws :: "sort_context \<Rightarrow> bool" where
  "platform_laws ctx \<longleftrightarrow> (\<forall>s. sc_nfc ctx (sc_nfc ctx s) = sc_nfc ctx s) \<and> (\<forall>s. s \<noteq> [] \<longrightarrow> sc_nfc ctx s \<noteq> []) \<and>
     (\<forall>s. plain_ascii s \<longrightarrow> sc_nfc ctx s = s) \<and> (\<forall>s. sc_quoted ctx s \<le> 6 * length s + 2) \<and> collation (sc_compare ctx)"

text \<open>Of the source: positive ascending ordinals, and the same entries after an ordinal at any time.\<close>

definition source_laws :: "sort_context \<Rightarrow> bool" where
  "source_laws ctx \<longleftrightarrow> (\<forall>after. sc_source ctx after = filter (\<lambda>e. after < fst e) (sc_source ctx 0)) \<and>
     sorted_wrt (<) (map fst (sc_source ctx 0)) \<and> sc_version ctx < 10 ^ 18 \<and> length (sc_source ctx 0) < 10 ^ 18 \<and>
     (\<forall>e\<in>set (sc_source ctx 0). fst e < 10 ^ 18 \<and> proper (snd e))"

text \<open>Of the records: within the capacities the code enforces, and no two of their long texts with one digest.\<close>

definition records_fit :: "js_string set \<Rightarrow> sort_context \<Rightarrow> bool" where
  "records_fit texts ctx \<longleftrightarrow> inj_on sha256Text texts \<and>
     (\<forall>e\<in>set (sc_source ctx 0). snd ` set (long_texts (sc_nfc ctx) (snd e)) \<subseteq> texts \<and>
        (\<exists>k. canonicalJson (sc_nfc ctx) (snd e) = Inr k \<and> byte_length k \<le> 2097152)) \<and>
     (\<forall>es. set es \<subseteq> set (elements ctx) \<and> batch_sized weight es \<longrightarrow> (\<exists>t. batch_text ctx es = Inr t \<and> byte_length t \<le> 524288))"

definition sortable :: "js_string set \<Rightarrow> sort_context \<Rightarrow> bool" where
  "sortable texts ctx \<longleftrightarrow> platform_laws ctx \<and> source_laws ctx \<and> records_fit texts ctx"

subsection \<open>The batches of the specification\<close>

definition runs_of :: "sort_context \<Rightarrow> nat \<Rightarrow> element list list" where
  "runs_of ctx p = pass_runs (by_key ctx) weight (elements ctx) p"

definition batches_of :: "sort_context \<Rightarrow> nat \<Rightarrow> nat \<Rightarrow> element list list" where
  "batches_of ctx p r = run_batches (by_key ctx) weight (elements ctx) p r"

fun place_batch :: "sort_context \<Rightarrow> nat \<times> nat \<times> nat \<Rightarrow> element list option" where
  "place_batch ctx (p, r, b) =
     (if r < length (runs_of ctx p) \<and> b < length (batches_of ctx p r) then Some (batches_of ctx p r ! b) else None)"

definition row_of :: "sort_context \<Rightarrow> element list \<Rightarrow> sort_row" where
  "row_of ctx es = (let t = (case batch_text ctx es of Inr t \<Rightarrow> t | Inl _ \<Rightarrow> [])
     in \<lparr>sr_records = map snd es, sr_content = t, sr_sha = sha256Text t\<rparr>)"

definition readable :: "sort_context \<Rightarrow> sort_store \<Rightarrow> element \<Rightarrow> bool" where
  "readable ctx store e \<longleftrightarrow> (\<exists>v\<in>snd ` set (sc_source ctx 0). e = record_element ctx v \<and>
     (\<forall>pt\<in>set (long_texts (sc_nfc ctx) v). covers (so_texts store) (snd pt)))"

definition rows_ok :: "sort_context \<Rightarrow> sort_store \<Rightarrow> bool" where
  "rows_ok ctx store \<longleftrightarrow> (\<forall>place row. map_of (so_batches store) place = Some row \<longrightarrow>
     (\<exists>es. place_batch ctx place = Some es \<and> row = row_of ctx es \<and> (\<forall>e\<in>set es. readable ctx store e)))"

definition present :: "sort_store \<Rightarrow> nat \<times> nat \<times> nat \<Rightarrow> bool" where
  "present store place \<longleftrightarrow> map_of (so_batches store) place \<noteq> None"

definition run_written :: "sort_context \<Rightarrow> sort_store \<Rightarrow> nat \<Rightarrow> nat \<Rightarrow> bool" where
  "run_written ctx store p r \<longleftrightarrow> (\<forall>b < length (batches_of ctx p r). present store (p, r, b))"

definition store_grows :: "sort_store \<Rightarrow> sort_store \<Rightarrow> bool" where
  "store_grows s s' \<longleftrightarrow> so_texts s \<subseteq>\<^sub>m so_texts s' \<and> (\<forall>place. present s place \<longrightarrow> present s' place)"

lemma store_grows_refl [simp]: "store_grows s s"
  by (simp add: store_grows_def)

lemma store_grows_trans [trans]: "store_grows s t \<Longrightarrow> store_grows t u \<Longrightarrow> store_grows s u"
  by (auto simp: store_grows_def intro: map_le_trans)

lemma covers_mono: "covers t x \<Longrightarrow> t \<subseteq>\<^sub>m t' \<Longrightarrow> covers t' x"
  by (auto simp: covers_def map_le_def dom_def)

lemma readable_mono: "readable ctx s e \<Longrightarrow> store_grows s s' \<Longrightarrow> readable ctx s' e"
  unfolding readable_def store_grows_def by (blast intro: covers_mono)

lemma run_written_mono: "run_written ctx s p r \<Longrightarrow> store_grows s s' \<Longrightarrow> run_written ctx s' p r"
  by (simp add: run_written_def store_grows_def)

text \<open>What a position in a run still has to give.\<close>

definition position_at :: "element list list \<Rightarrow> Position \<Rightarrow> element list \<Rightarrow> bool" where
  "position_at bs position xs \<longleftrightarrow> ps_batch position < length bs \<and> ps_offset position \<le> length (bs ! ps_batch position) \<and>
     xs = drop (ps_offset position) (bs ! ps_batch position) @ concat (drop (ps_batch position + 1) bs)"

definition position_ready :: "element list list \<Rightarrow> Position \<Rightarrow> element list \<Rightarrow> bool" where
  "position_ready bs position xs \<longleftrightarrow> position_at bs position xs \<and> (xs \<noteq> [] \<longrightarrow> ps_offset position < length (bs ! ps_batch position))"

definition item_element :: "Item \<Rightarrow> element" where
  "item_element item = (it_key item, it_envelope item)"

lemma row_of_fit:
  assumes "sortable texts ctx" "place_batch ctx place = Some es"
  shows "\<exists>t. batch_text ctx es = Inr t \<and> row_of ctx es = \<lparr>sr_records = map snd es, sr_content = t, sr_sha = sha256Text t\<rparr> \<and> byte_length t \<le> 524288"
proof -
  obtain p r b where place: "place = (p, r, b)" by (cases place)
  have "r < length (runs_of ctx p)" "es \<in> set (batches_of ctx p r)" using assms(2) by (auto simp: place split: if_splits)
  then have "batch_sized weight es" "set es \<subseteq> set (elements ctx)"
    using run_batches_sized [of r "by_key ctx" weight "elements ctx" p es] by (auto simp: runs_of_def batches_of_def)
  then obtain t where "batch_text ctx es = Inr t" "byte_length t \<le> 524288" using assms(1) by (auto simp: sortable_def records_fit_def)
  then show ?thesis by (simp add: row_of_def)
qed

lemma restore_element:
  assumes "sortable texts ctx" "readable ctx store e"
  shows "\<exists>v\<in>snd ` set (sc_source ctx 0). e = record_element ctx v \<and>
    restorePartitionedRecord (sc_quoted ctx) (so_texts store) (snd e) = Inr (normalized_texts (sc_nfc ctx) v) \<and>
    record_json (sc_nfc ctx) (normalized_texts (sc_nfc ctx) v) = Inr (fst e) \<and> sortableSize (fst e) = Inr (weight e)"
proof -
  obtain v where v: "v \<in> snd ` set (sc_source ctx 0)" "e = record_element ctx v" "\<forall>pt\<in>set (long_texts (sc_nfc ctx) v). covers (so_texts store) (snd pt)"
    using assms(2) by (auto simp: readable_def)
  obtain entry where "entry \<in> set (sc_source ctx 0)" "v = snd entry" using v(1) by blast
  then obtain k where k: "canonicalJson (sc_nfc ctx) v = Inr k" "byte_length k \<le> 2097152" "proper v"
    using assms(1) unfolding sortable_def records_fit_def source_laws_def by blast
  have laws: "\<And>s. sc_nfc ctx (sc_nfc ctx s) = sc_nfc ctx s" "\<And>s. s \<noteq> [] \<Longrightarrow> sc_nfc ctx s \<noteq> []" "\<And>s. sc_quoted ctx s \<le> 6 * length s + 2"
    using assms(1) unfolding sortable_def platform_laws_def by blast+
  have "restorePartitionedRecord (sc_quoted ctx) (so_texts store) (snd e) = Inr (normalized_texts (sc_nfc ctx) v)"
    unfolding v(2) record_element_def snd_conv using laws(2,3) k(3) v(3) by (intro restore_envelope)
  moreover have "record_json (sc_nfc ctx) (normalized_texts (sc_nfc ctx) v) = Inr (fst e)"
    using k(1) canonical_normalized [OF laws(1), of "[]" v] by (simp add: record_json_def canonicalJson_def v(2) record_element_def)
  moreover have "sortableSize (fst e) = Inr (weight e)" using k(1,2) by (simp add: v(2) record_element_def sortableSize_def weight_def Let_def)
  ultimately show ?thesis using v by blast
qed

lemma readHead_at:
  assumes "sortable texts ctx" "rows_ok ctx store" "run_written ctx store p r" "position_at (batches_of ctx p r) position xs"
  shows "\<exists>h position'. readHead ctx store p r position = Inr (h, position') \<and> position_ready (batches_of ctx p r) position' xs \<and>
    map_option item_element h = head_of xs \<and>
    (\<forall>item. h = Some item \<longrightarrow> (\<exists>v\<in>snd ` set (sc_source ctx 0). item_element item = record_element ctx v \<and> it_value item = normalized_texts (sc_nfc ctx) v) \<and>
       readable ctx store (item_element item))"
  using assms(4)
proof (induction "length (batches_of ctx p r) - ps_batch position" arbitrary: position rule: less_induct)
  case less
  let ?bs = "batches_of ctx p r" and ?b = "ps_batch position" and ?o = "ps_offset position"
  obtain full where shape: "?bs = full @ [[]]" "[] \<notin> set full" using run_batches_shape by (metis batches_of_def)
  have b: "?b < length ?bs" "?o \<le> length (?bs ! ?b)" "xs = drop ?o (?bs ! ?b) @ concat (drop (?b + 1) ?bs)"
    using less.prems by (auto simp: position_at_def)
  obtain row where row: "map_of (so_batches store) (p, r, ?b) = Some row" using assms(3) b(1) by (auto simp: run_written_def present_def)
  then obtain es where es: "place_batch ctx (p, r, ?b) = Some es" "row = row_of ctx es" "\<forall>e\<in>set es. readable ctx store e"
    using assms(2) unfolding rows_ok_def by blast
  have here: "es = ?bs ! ?b" using es(1) by (simp split: if_splits)
  obtain t where t: "row = \<lparr>sr_records = map snd es, sr_content = t, sr_sha = sha256Text t\<rparr>" "byte_length t \<le> 524288"
    using row_of_fit [OF assms(1) es(1)] es(2) by auto
  have last: "?b = length full \<longleftrightarrow> es = []" using b(1) shape here by (auto simp: nth_append dest: nth_mem split: if_splits)
  show ?case
  proof (cases "es = []")
    case True
    then have "xs = []" using b last shape here by simp
    then show ?thesis using True row t less.prems by (subst readHead.simps) (simp add: position_ready_def)
  next
    case False
    show ?thesis
    proof (cases "?o \<ge> length es")
      case True
      let ?next = "\<lparr>ps_batch = ?b + 1, ps_offset = 0\<rparr>"
      have in': "?b + 1 < length ?bs" using False last b(1) shape by auto
      then have "xs = concat (drop (?b + 1) ?bs)" using b True here by simp
      then have "position_at ?bs ?next xs" using in' by (simp add: position_at_def Cons_nth_drop_Suc [symmetric])
      then show ?thesis using less.hyps [of ?next] in' row t True False by (subst readHead.simps) simp
    next
      case inside: False
      let ?e = "es ! ?o"
      have e: "?e \<in> set es" "head_of xs = Some ?e" using inside b(3) here by (auto simp: Cons_nth_drop_Suc [symmetric])
      then obtain v where v: "v \<in> snd ` set (sc_source ctx 0)" "?e = record_element ctx v"
          "restorePartitionedRecord (sc_quoted ctx) (so_texts store) (snd ?e) = Inr (normalized_texts (sc_nfc ctx) v)"
          "record_json (sc_nfc ctx) (normalized_texts (sc_nfc ctx) v) = Inr (fst ?e)" "sortableSize (fst ?e) = Inr (weight ?e)"
        using restore_element [OF assms(1)] es(3) by blast
      let ?item = "\<lparr>it_key = fst ?e, it_envelope = snd ?e, it_value = normalized_texts (sc_nfc ctx) v\<rparr>"
      have "readHead ctx store p r position = Inr (Some ?item, position)"
        using row t False inside v by (subst readHead.simps) (simp add: Let_def)
      moreover have "item_element ?item = ?e" by (simp add: item_element_def)
      moreover have "position_ready ?bs position xs" using less.prems inside here by (simp add: position_ready_def)
      ultimately show ?thesis using e es(3) v(1,2) by (intro exI [of _ "Some ?item"] exI [of _ position]) auto
    qed
  qed
qed

subsection \<open>Cursors\<close>

definition source_batches :: "sort_context \<Rightarrow> element list list" where
  "source_batches ctx = cut_batches weight [] 0 (elements ctx)"

definition group_runs :: "sort_context \<Rightarrow> Cursor \<Rightarrow> element list list" where
  "group_runs ctx c = take 4 (drop (cu_first c) (runs_of ctx (cu_pass c)))"

definition group_output :: "sort_context \<Rightarrow> Cursor \<Rightarrow> element list list" where
  "group_output ctx c = cut_batches weight [] 0 (merge_lists (by_key ctx) (group_runs ctx c))"

definition positions_at :: "sort_context \<Rightarrow> Cursor \<Rightarrow> element list list \<Rightarrow> bool" where
  "positions_at ctx c ls \<longleftrightarrow> length (cu_positions c) = length ls \<and>
     (\<forall>j < length ls. position_at (batches_of ctx (cu_pass c) (cu_first c + j)) (cu_positions c ! j) (ls ! j))"

definition runs_cursor :: "sort_context \<Rightarrow> sort_store \<Rightarrow> Cursor \<Rightarrow> bool" where
  "runs_cursor ctx store c \<longleftrightarrow> cu_stage c = Stage_runs \<and> cu_pass c = 0 \<and> cu_first c = 0 \<and> cu_output c = 0 \<and> cu_positions c = [] \<and>
     cu_count c \<le> length (source_batches ctx) \<and> (\<forall>r < cu_count c. run_written ctx store 0 r)"

definition passes_cursor :: "sort_context \<Rightarrow> sort_store \<Rightarrow> Cursor \<Rightarrow> bool" where
  "passes_cursor ctx store c \<longleftrightarrow> cu_stage c = Stage_merge \<and> cu_count c = length (runs_of ctx (cu_pass c)) \<and> 1 < cu_count c \<and> 4 dvd cu_first c \<and>
     cu_first c \<le> cu_count c + 3 \<and> (\<forall>r < cu_count c. run_written ctx store (cu_pass c) r) \<and>
     (\<forall>r < cu_first c div 4. run_written ctx store (cu_pass c + 1) r)"

definition group_cursor :: "sort_context \<Rightarrow> sort_store \<Rightarrow> Cursor \<Rightarrow> bool" where
  "group_cursor ctx store c \<longleftrightarrow> passes_cursor ctx store c \<and> cu_first c < cu_count c \<and> cu_output c \<le> length (group_output ctx c) \<and>
     (\<forall>b < cu_output c. present store (cu_pass c + 1, cu_first c div 4, b))"

definition cursor_ok :: "sort_context \<Rightarrow> sort_store \<Rightarrow> Cursor \<Rightarrow> bool" where
  "cursor_ok ctx store c \<longleftrightarrow> cu_source c = sc_version ctx \<and> cu_after c < 10 ^ 18 \<and>
     cu_pass c + length (runs_of ctx (cu_pass c)) \<le> length (elements ctx) + 1 \<and>
     (case cu_stage c of
        Stage_runs \<Rightarrow> runs_cursor ctx store c \<and>
          cut_batches weight [] 0 (entry_elements ctx (sc_source ctx (cu_after c))) = drop (cu_count c) (source_batches ctx)
      | Stage_merge \<Rightarrow> passes_cursor ctx store c \<and>
          (if cu_first c < cu_count c
           then group_cursor ctx store c \<and> (cu_positions c = [] \<and> cu_output c = 0 \<or>
             (\<exists>ls. length ls = length (group_runs ctx c) \<and> positions_at ctx c ls \<and>
                cut_batches weight [] 0 (merge_lists (by_key ctx) ls) = drop (cu_output c) (group_output ctx c)))
           else cu_positions c = [] \<and> cu_output c = 0)
      | Stage_complete \<Rightarrow> length (runs_of ctx (cu_pass c)) = 1 \<and> cu_count c = 1 \<and> cu_first c = 0 \<and> cu_output c = 0 \<and> cu_positions c = [] \<and>
          run_written ctx store (cu_pass c) 0)"

lemma runs_cursor_mono: "runs_cursor ctx s c \<Longrightarrow> store_grows s s' \<Longrightarrow> runs_cursor ctx s' c"
  by (auto simp: runs_cursor_def intro: run_written_mono)

lemma passes_cursor_mono: "passes_cursor ctx s c \<Longrightarrow> store_grows s s' \<Longrightarrow> passes_cursor ctx s' c"
  by (auto simp: passes_cursor_def intro: run_written_mono)

lemma group_cursor_mono: "group_cursor ctx s c \<Longrightarrow> store_grows s s' \<Longrightarrow> group_cursor ctx s' c"
  by (auto simp: group_cursor_def store_grows_def intro: passes_cursor_mono)

lemma cursor_ok_mono: "cursor_ok ctx s c \<Longrightarrow> store_grows s s' \<Longrightarrow> cursor_ok ctx s' c"
  by (auto simp: cursor_ok_def intro: runs_cursor_mono passes_cursor_mono group_cursor_mono run_written_mono split: sort_stage.splits if_splits)

lemma length_batches_le: "[] \<notin> set bs \<Longrightarrow> length bs \<le> length (concat bs)"
proof (induction bs)
  case (Cons a bs)
  then show ?case by (cases a) auto
qed simp

lemma length_cut: "length (cut_batches w [] 0 xs) \<le> length xs"
  using length_batches_le [OF cut_nonempty [of w "[]" 0 xs]] by (simp add: concat_cut)

lemma length_runs:
  "length (runs_of ctx 0) \<le> length (elements ctx) + 1" "length (runs_of ctx (Suc p)) = (length (runs_of ctx p) + 3) div 4"
  using length_cut [of weight "elements ctx"] by (auto simp: runs_of_def length_next_runs)

lemma run_length: "r < length (runs_of ctx p) \<Longrightarrow> length (runs_of ctx p ! r) \<le> length (elements ctx)"
  using run_sub [of r "by_key ctx" weight "elements ctx" p] size_mset_mono by (fastforce simp: runs_of_def)

lemma batches_length:
  assumes "r < length (runs_of ctx p)"
  shows "length (batches_of ctx p r) \<le> length (elements ctx) + 1"
    "b < length (batches_of ctx p r) \<Longrightarrow> length (batches_of ctx p r ! b) \<le> length (elements ctx)"
proof -
  obtain bs where bs: "batches_of ctx p r = bs @ [[]]" "[] \<notin> set bs" using run_batches_shape by (metis batches_of_def)
  have c: "concat (batches_of ctx p r) = runs_of ctx p ! r" by (simp add: batches_of_def runs_of_def concat_run_batches)
  then show "length (batches_of ctx p r) \<le> length (elements ctx) + 1"
    using length_batches_le [OF bs(2)] run_length [OF assms] bs(1) by auto
  assume "b < length (batches_of ctx p r)"
  then have "length (batches_of ctx p r ! b) \<le> length (concat (batches_of ctx p r))"
    using elem_le_sum_list [of b "map length (batches_of ctx p r)"] by (simp add: length_concat)
  then show "length (batches_of ctx p r ! b) \<le> length (elements ctx)" using c run_length [OF assms] by simp
qed

lemma group_runs_nth: "j < length (group_runs ctx c) \<Longrightarrow> group_runs ctx c ! j = runs_of ctx (cu_pass c) ! (cu_first c + j) \<and> cu_first c + j < length (runs_of ctx (cu_pass c))"
  by (auto simp: group_runs_def)

lemma group_batches:
  assumes "4 dvd cu_first c" "cu_first c < length (runs_of ctx (cu_pass c))"
  shows "batches_of ctx (cu_pass c + 1) (cu_first c div 4) = group_output ctx c @ [[]]" "cu_first c div 4 < length (runs_of ctx (cu_pass c + 1))"
proof -
  obtain r where r: "cu_first c = 4 * r" using assms(1) by (auto simp: dvd_def)
  have "runs_of ctx (Suc (cu_pass c)) ! r = merge_lists (by_key ctx) (group_runs ctx c)"
    using assms(2) r by (simp add: runs_of_def group_runs_def next_runs_nth)
  then show "batches_of ctx (cu_pass c + 1) (cu_first c div 4) = group_output ctx c @ [[]]"
    unfolding batches_of_def run_batches_def Let_def group_output_def by (simp add: r runs_of_def [symmetric] del: pass_runs.simps)
  show "cu_first c div 4 < length (runs_of ctx (cu_pass c + 1))" using assms(2) r length_runs(2) [of ctx "cu_pass c"] by simp
qed

lemma group_output_length: 
  assumes "4 dvd cu_first c" "cu_first c < length (runs_of ctx (cu_pass c))"
  shows "length (group_output ctx c) \<le> length (elements ctx)"
  using batches_length(1) [OF group_batches(2) [OF assms]] group_batches(1) [OF assms] by simp

lemma cursor_ok_small:
  assumes "sortable texts ctx" "cursor_ok ctx store c"
  shows "cursor_small c"
proof -
  have n: "length (elements ctx) < 10 ^ 18" "sc_version ctx < 10 ^ 18"
    using assms(1) unfolding sortable_def source_laws_def elements_def entry_elements_def length_map by blast+
  have runs: "length (source_batches ctx) \<le> length (elements ctx)" by (simp add: source_batches_def length_cut)
  show ?thesis
  proof (cases "cu_stage c")
    case Stage_merge
    then have p: "passes_cursor ctx store c" using assms(2) by (simp add: cursor_ok_def)
    then have count: "cu_count c = length (runs_of ctx (cu_pass c))" "cu_first c \<le> cu_count c + 3" by (auto simp: passes_cursor_def)
    have out: "cu_output c \<le> length (elements ctx)"
    proof (cases "cu_first c < cu_count c")
      case True
      then have "cu_output c \<le> length (group_output ctx c)" "4 dvd cu_first c" using assms(2) Stage_merge p by (auto simp: cursor_ok_def group_cursor_def passes_cursor_def)
      then show ?thesis using group_output_length [of c ctx] True count(1) by simp
    qed (use assms(2) Stage_merge in \<open>simp add: cursor_ok_def\<close>)
    have "length (cu_positions c) \<le> 4 \<and> (\<forall>q\<in>set (cu_positions c). ps_batch q \<le> length (elements ctx) + 1 \<and> ps_offset q \<le> length (elements ctx))"
    proof (cases "cu_positions c = []")
      case False
      then obtain ls where ls: "length ls = length (group_runs ctx c)" "positions_at ctx c ls"
        using assms(2) Stage_merge by (auto simp: cursor_ok_def split: if_splits)
      have "ps_batch q \<le> length (elements ctx) + 1 \<and> ps_offset q \<le> length (elements ctx)" if q: "q \<in> set (cu_positions c)" for q
      proof -
        obtain j where j: "j < length ls" "q = cu_positions c ! j" using q ls(2) by (auto simp: in_set_conv_nth positions_at_def)
        then have "cu_first c + j < length (runs_of ctx (cu_pass c))" using group_runs_nth [of j ctx c] ls(1) by simp
        then show ?thesis using ls(2) j batches_length [of "cu_first c + j" ctx "cu_pass c"] by (fastforce simp: positions_at_def position_at_def)
      qed
      moreover have "length ls \<le> 4" using ls(1) by (simp add: group_runs_def)
      ultimately show ?thesis using ls(2) by (auto simp: positions_at_def)
    qed simp
    then show ?thesis using n count out assms(2) by (fastforce simp: cursor_small_def cursor_ok_def)
  qed (use n runs assms(2) in \<open>auto simp: cursor_small_def cursor_ok_def runs_cursor_def\<close>)
qed

subsection \<open>Outcomes\<close>

definition store_ok :: "js_string set \<Rightarrow> sort_context \<Rightarrow> sort_store \<Rightarrow> bool" where
  "store_ok texts ctx store \<longleftrightarrow> table_within texts (so_texts store) \<and> rows_ok ctx store \<and>
     (\<forall>(n, row)\<in>set (so_checkpoints store). cr_sha row = sha256Text (cr_content row) \<and> cursor_ok ctx store (cr_cursor row))"

definition live :: "js_string set \<Rightarrow> sort_context \<Rightarrow> bool \<Rightarrow> sorting \<Rightarrow> bool" where
  "live texts ctx lim st \<longleftrightarrow> store_ok texts ctx (sg_store st) \<and> (\<forall>n\<in>fst ` set (so_checkpoints (sg_store st)). n < sg_ordinal st) \<and>
     (sg_left st \<noteq> None \<longrightarrow> lim)"

text \<open>An invocation stops only because it was cut off or because it was to yield, and leaves a good store.\<close>

definition fulfils :: "js_string set \<Rightarrow> sort_context \<Rightarrow> bool \<Rightarrow> 'a sort_outcome \<Rightarrow> ('a \<Rightarrow> bool) \<Rightarrow> bool" where
  "fulfils texts ctx lim r Q \<longleftrightarrow> (case r of
     Inl (stop, store) \<Rightarrow> store_ok texts ctx store \<and> (stop = Interrupted \<and> lim \<or> (\<exists>n. stop = Continuation n) \<and> sc_yield ctx)
   | Inr x \<Rightarrow> Q x)"

lemma fulfils_Inr [simp]: "fulfils texts ctx lim (Inr x) Q \<longleftrightarrow> Q x"
  by (simp add: fulfils_def)

lemma fulfils_bind:
  "fulfils texts ctx lim r Q \<Longrightarrow> (\<And>x. Q x \<Longrightarrow> fulfils texts ctx lim (f x) R) \<Longrightarrow> fulfils texts ctx lim (rbind r f) R"
  by (cases r) (auto simp: fulfils_def)

lemma fulfils_mono: "fulfils texts ctx lim r Q \<Longrightarrow> (\<And>x. Q x \<Longrightarrow> R x) \<Longrightarrow> fulfils texts ctx lim r R"
  by (cases r) (auto simp: fulfils_def)

definition onward :: "sorting \<Rightarrow> sorting \<Rightarrow> bool" where
  "onward st st' \<longleftrightarrow> store_grows (sg_store st) (sg_store st') \<and> sg_cursor st' = sg_cursor st \<and> sg_pending st' = sg_pending st \<and> sg_bytes st' = sg_bytes st"

lemma live_update [simp]: "live texts ctx lim (st\<lparr>sg_cursor := c\<rparr>) = live texts ctx lim st"
  "live texts ctx lim (st\<lparr>sg_pending := p\<rparr>) = live texts ctx lim st" "live texts ctx lim (st\<lparr>sg_bytes := b\<rparr>) = live texts ctx lim st"
  by (simp_all add: live_def)

lemma rows_readable_mono:
  "rows_ok ctx s \<Longrightarrow> store_grows s s' \<Longrightarrow> so_batches s' = so_batches s \<Longrightarrow> rows_ok ctx s'"
  unfolding rows_ok_def by (metis (no_types, lifting) readable_mono)

lemma checkpoints_mono:
  "\<forall>(n, row)\<in>set cs. P row \<and> cursor_ok ctx s (cr_cursor row) \<Longrightarrow> store_grows s s' \<Longrightarrow> \<forall>(n, row)\<in>set cs. P row \<and> cursor_ok ctx s' (cr_cursor row)"
  by (auto intro: cursor_ok_mono)

lemma storage_fulfils:
  assumes "live texts ctx lim st" "operation (sg_store st) = Inr (x, s')" "store_ok texts ctx s'" "store_grows (sg_store st) s'"
    "so_checkpoints s' = so_checkpoints (sg_store st)"
  shows "fulfils texts ctx lim (storage operation st) (\<lambda>(y, st'). y = x \<and> live texts ctx lim st' \<and> onward st st' \<and> sg_store st' = s')"
  using assms by (auto simp: storage_def or_fail_def fulfils_def live_def onward_def)

lemma write_ok:
  assumes "sortable texts ctx" "store_ok texts ctx store" "place_batch ctx place = Some es" "map it_envelope items = map snd es"
    "\<forall>e\<in>set es. readable ctx store e"
  shows "\<exists>s'. writeBatch (sc_nfc ctx) place items store = Inr ((), s') \<and> store_ok texts ctx s' \<and> store_grows store s' \<and> present s' place \<and>
    so_checkpoints s' = so_checkpoints store"
proof -
  obtain t where t: "batch_text ctx es = Inr t" "row_of ctx es = \<lparr>sr_records = map snd es, sr_content = t, sr_sha = sha256Text t\<rparr>" "byte_length t \<le> 524288"
    using row_of_fit [OF assms(1,3)] by blast
  have "map (\<lambda>item. envelope_value (it_envelope item)) items = map envelope_value (map it_envelope items)" by simp
  also have "\<dots> = map (\<lambda>e. envelope_value (snd e)) es" unfolding assms(4) by simp
  finally have json: "record_json (sc_nfc ctx) (VArray (map (\<lambda>item. envelope_value (it_envelope item)) items)) = Inr t"
    using t(1) by (simp add: record_json_def batch_text_def)
  let ?s' = "retainSortBatch place (row_of ctx es) store"
  have grow: "store_grows store ?s'" by (auto simp: retainSortBatch_def store_grows_def present_def)
  have there: "map_of (so_batches ?s') place = Some (row_of ctx es)"
  proof (cases "map_of (so_batches store) place")
    case (Some row)
    then obtain es' where "place_batch ctx place = Some es'" "row = row_of ctx es'" using assms(2) unfolding store_ok_def rows_ok_def by blast
    then show ?thesis using Some assms(3) by (simp add: retainSortBatch_def)
  qed (simp add: retainSortBatch_def map_add_def)
  have "rows_ok ctx ?s'"
  proof (cases "map_of (so_batches store) place")
    case None
    have "\<exists>fs. place_batch ctx q = Some fs \<and> row = row_of ctx fs \<and> (\<forall>e\<in>set fs. readable ctx ?s' e)" if q: "map_of (so_batches ?s') q = Some row" for q row
    proof (cases "q = place")
      case True
      then show ?thesis using q there assms(3,5) readable_mono [OF _ grow] by auto
    next
      case False
      then have "map_of (so_batches store) q = Some row" using q None by (auto simp: retainSortBatch_def map_add_def split: option.splits)
      then obtain fs where "place_batch ctx q = Some fs" "row = row_of ctx fs" "\<forall>e\<in>set fs. readable ctx store e"
        using assms(2) unfolding store_ok_def rows_ok_def by blast
      then show ?thesis using readable_mono [OF _ grow] by blast
    qed
    then show ?thesis unfolding rows_ok_def by blast
  next
    case (Some row)
    then show ?thesis using assms(2) by (simp add: retainSortBatch_def store_ok_def)
  qed
  moreover have "so_checkpoints ?s' = so_checkpoints store" "so_texts ?s' = so_texts store" by (simp_all add: retainSortBatch_def)
  ultimately have ok: "store_ok texts ctx ?s'"
    using assms(2) checkpoints_mono [OF _ grow, of "so_checkpoints store" "\<lambda>row. cr_sha row = sha256Text (cr_content row)"] unfolding store_ok_def by simp
  have "writeBatch (sc_nfc ctx) place items store = Inr ((), ?s')"
    using json t(3) there by (simp add: writeBatch_def Let_def t(2) assms(4))
  then show ?thesis using ok grow there \<open>so_checkpoints ?s' = so_checkpoints store\<close> by (auto simp: present_def)
qed

lemma write_fulfils:
  assumes "sortable texts ctx" "live texts ctx lim st" "place_batch ctx place = Some es" "map it_envelope items = map snd es"
    "\<forall>e\<in>set es. readable ctx (sg_store st) e"
  shows "fulfils texts ctx lim (storage (writeBatch (sc_nfc ctx) place items) st)
    (\<lambda>(y, st'). live texts ctx lim st' \<and> onward st st' \<and> present (sg_store st') place)"
proof -
  have "store_ok texts ctx (sg_store st)" using assms(2) by (simp add: live_def)
  then obtain s' where w: "writeBatch (sc_nfc ctx) place items (sg_store st) = Inr ((), s')" "store_ok texts ctx s'" "store_grows (sg_store st) s'"
    "so_checkpoints s' = so_checkpoints (sg_store st)" "present s' place" using write_ok [OF assms(1) _ assms(3-5)] by blast
  show ?thesis using w(5) by (intro fulfils_mono [OF storage_fulfils [where operation = "writeBatch (sc_nfc ctx) place items", OF assms(2) w(1-4)]]) auto
qed

lemma save_fulfils:
  assumes "sortable texts ctx" "live texts ctx lim st" "cursor_ok ctx (sg_store st) (sg_cursor st)"
  shows "fulfils texts ctx lim (save ctx st) (\<lambda>st'. live texts ctx lim st' \<and> onward st st')"
proof -
  have "\<And>s. plain_ascii s \<Longrightarrow> sc_nfc ctx s = s" using assms(1) unfolding sortable_def platform_laws_def by blast
  then obtain t where t: "record_json (sc_nfc ctx) (cursor_value (sg_cursor st)) = Inr t" "byte_length t \<le> 65536"
    using cursor_fits [OF cursor_ok_small [OF assms(1,3)]] by blast
  let ?row = "\<lparr>cr_cursor = sg_cursor st, cr_content = t, cr_sha = sha256Text t\<rparr>"
  let ?s' = "(sg_store st)\<lparr>so_checkpoints := so_checkpoints (sg_store st) @ [(sg_ordinal st, ?row)]\<rparr>"
  have "sg_ordinal st \<notin> fst ` set (so_checkpoints (sg_store st))" using assms(2) by (force simp: live_def)
  then have absent: "map_of (so_checkpoints (sg_store st)) (sg_ordinal st) = None" by (simp add: map_of_eq_None_iff)
  then have op: "retainReconciliationCheckpoint (sc_nfc ctx) (sg_ordinal st) (sg_cursor st) (sg_store st) = Inr ((), ?s')"
    using t by (simp add: retainReconciliationCheckpoint_def retainCheckpointRow_def Let_def map_add_def absent)
  have grow: "store_grows (sg_store st) ?s'" "store_grows ?s' (sg_store st)" by (auto simp: store_grows_def present_def)
  have "store_ok texts ctx ?s'"
    using assms(2,3) rows_readable_mono [OF _ grow(1)] cursor_ok_mono [OF _ grow(1)] unfolding live_def store_ok_def by auto
  then show ?thesis using assms(2) op grow(1)
    by (auto simp: save_def storage_def or_fail_def fulfils_def live_def onward_def)
qed

subsection \<open>Sorted runs\<close>

definition pending_is :: "sort_context \<Rightarrow> sorting \<Rightarrow> element list \<Rightarrow> bool" where
  "pending_is ctx st es \<longleftrightarrow> map item_element (sg_pending st) = es \<and> sg_bytes st = sum_list (map weight es) \<and>
     (\<forall>e\<in>set es. readable ctx (sg_store st) e)"

definition at_source :: "js_string set \<Rightarrow> sort_context \<Rightarrow> bool \<Rightarrow> (nat \<times> js_value) list \<Rightarrow> sorting \<Rightarrow> element list \<Rightarrow> bool" where
  "at_source texts ctx lim rest st es \<longleftrightarrow> live texts ctx lim st \<and> pending_is ctx st es \<and> cu_source (sg_cursor st) = sc_version ctx \<and>
     cu_after (sg_cursor st) < 10 ^ 18 \<and> runs_cursor ctx (sg_store st) (sg_cursor st) \<and> sc_source ctx (cu_after (sg_cursor st)) = rest"

definition running :: "js_string set \<Rightarrow> sort_context \<Rightarrow> bool \<Rightarrow> (nat \<times> js_value) list \<Rightarrow> sorting \<Rightarrow> element list \<Rightarrow> bool" where
  "running texts ctx lim rest st es \<longleftrightarrow> at_source texts ctx lim rest st es \<and>
     cut_batches weight es (sg_bytes st) (entry_elements ctx rest) = drop (cu_count (sg_cursor st)) (source_batches ctx)"

lemma pending_onward: "pending_is ctx st es \<Longrightarrow> onward st st' \<Longrightarrow> pending_is ctx st' es"
  by (auto simp: pending_is_def onward_def intro: readable_mono)

lemma drop_eq_Cons: "drop n xs = y # ys \<Longrightarrow> n < length xs \<and> xs ! n = y \<and> drop (Suc n) xs = ys"
  by (metis Cons_nth_drop_Suc drop_eq_Nil list.distinct(1) list.inject not_le)

lemma run_zero:
  assumes "r < length (source_batches ctx)"
  shows "r < length (runs_of ctx 0)" "batches_of ctx 0 r = [sort_by (by_key ctx) (source_batches ctx ! r), []]"
proof -
  have ne: "elements ctx \<noteq> []" using assms by (auto simp: source_batches_def)
  then have runs: "runs_of ctx 0 = map (sort_by (by_key ctx)) (source_batches ctx)" by (simp add: runs_of_def source_batches_def)
  then show "r < length (runs_of ctx 0)" using assms by simp
  have "source_batches ctx ! r \<noteq> []" using cut_nonempty nth_mem [OF assms] unfolding source_batches_def by metis
  then have "sort_by (by_key ctx) (source_batches ctx ! r) \<noteq> []" using sort_by_mset [of "by_key ctx" "source_batches ctx ! r"] by (metis mset.simps(1) mset_zero_iff)
  then show "batches_of ctx 0 r = [sort_by (by_key ctx) (source_batches ctx ! r), []]"
    using runs assms by (simp add: batches_of_def run_batches_def runs_of_def del: pass_runs.simps)
qed

lemma runs_cursor_ok:
  assumes "at_source texts ctx lim rest st []" "cut_batches weight [] 0 (entry_elements ctx rest) = drop (cu_count (sg_cursor st)) (source_batches ctx)"
  shows "cursor_ok ctx (sg_store st) (sg_cursor st)"
  using assms length_runs(1) [of ctx] by (auto simp: cursor_ok_def at_source_def runs_cursor_def)

lemma flush_run_fulfils:
  assumes "sortable texts ctx" "at_source texts ctx lim rest st es" "drop (cu_count (sg_cursor st)) (source_batches ctx) = es # cut_batches weight [] 0 (entry_elements ctx rest)"
  shows "fulfils texts ctx lim (flush_run ctx st) (\<lambda>st'. running texts ctx lim rest st' [])"
proof -
  let ?c = "sg_cursor st" and ?n = "cu_count (sg_cursor st)"
  let ?items = "sort_by (\<lambda>a b. sc_compare ctx (it_key a) (it_key b)) (sg_pending st)" and ?sorted = "sort_by (by_key ctx) es"
  have n: "?n < length (source_batches ctx)" "source_batches ctx ! ?n = es" "drop (Suc ?n) (source_batches ctx) = cut_batches weight [] 0 (entry_elements ctx rest)"
    using drop_eq_Cons [OF assms(3)] by auto
  have place: "place_batch ctx (0, ?n, 0) = Some ?sorted" "place_batch ctx (0, ?n, 1) = Some []" using run_zero [OF n(1)] n(2) by simp_all
  have live: "live texts ctx lim st" and pend: "pending_is ctx st es" using assms(2) by (auto simp: at_source_def)
  have "map item_element ?items = ?sorted"
    using pend sort_by_map [where f = item_element and compare = "by_key ctx" and compare' = "\<lambda>a b. sc_compare ctx (it_key a) (it_key b)" and xs = "sg_pending st"]
    by (simp add: by_key_def item_element_def pending_is_def)
  then have "map snd (map item_element ?items) = map snd ?sorted" by (rule arg_cong)
  then have env: "map it_envelope ?items = map snd ?sorted" by (simp add: item_element_def comp_def)
  have ready: "\<forall>e\<in>set ?sorted. readable ctx (sg_store st) e" using pend mset_eq_setD [OF sort_by_mset [of "by_key ctx" es]] by (simp add: pending_is_def)
  show ?thesis unfolding flush_run_def Let_def
  proof (rule fulfils_bind [OF write_fulfils [OF assms(1) live place(1) env ready]], clarify)
    fix st1 assume st1: "live texts ctx lim st1" "onward st st1" "present (sg_store st1) (0, ?n, 0)"
    show "fulfils texts ctx lim (rbind (storage (writeBatch (sc_nfc ctx) (0, ?n, 1) []) st1)
        (\<lambda>(_, st2). save ctx (st2\<lparr>sg_cursor := ?c\<lparr>cu_count := ?n + 1\<rparr>, sg_pending := [], sg_bytes := 0\<rparr>))) (\<lambda>st'. running texts ctx lim rest st' [])"
    proof (rule fulfils_bind [OF write_fulfils [OF assms(1) st1(1) place(2)]], simp, simp, clarify)
      fix st2 assume st2: "live texts ctx lim st2" "onward st1 st2" "present (sg_store st2) (0, ?n, 1)"
      let ?st = "st2\<lparr>sg_cursor := ?c\<lparr>cu_count := ?n + 1\<rparr>, sg_pending := [], sg_bytes := 0\<rparr>"
      have grow: "store_grows (sg_store st) (sg_store st2)" "store_grows (sg_store st1) (sg_store st2)" using st1(2) st2(2) by (auto simp: onward_def intro: store_grows_trans)
      have "run_written ctx (sg_store st2) 0 ?n"
        using st1(3) st2(3) grow(2) run_zero(2) [OF n(1)] by (auto simp: run_written_def less_Suc_eq store_grows_def)
      then have "runs_cursor ctx (sg_store st2) (?c\<lparr>cu_count := ?n + 1\<rparr>)"
        using assms(2) n(1) run_written_mono [OF _ grow(1)] by (auto simp: at_source_def runs_cursor_def less_Suc_eq)
      then have at: "at_source texts ctx lim rest ?st []" using assms(2) st2(1) by (auto simp: at_source_def pending_is_def)
      then have "cursor_ok ctx (sg_store ?st) (sg_cursor ?st)" using n(3) by (intro runs_cursor_ok) simp_all
      then have "fulfils texts ctx lim (save ctx ?st) (\<lambda>st'. live texts ctx lim st' \<and> onward ?st st')"
        using at by (intro save_fulfils [OF assms(1)]) (simp_all add: at_source_def)
      then show "fulfils texts ctx lim (save ctx ?st) (\<lambda>st'. running texts ctx lim rest st' [])"
        by (rule fulfils_mono) (use at n(3) in \<open>auto simp: running_def at_source_def onward_def pending_is_def intro: runs_cursor_mono\<close>)
    qed
  qed
qed

lemma texts_store_ok:
  assumes "store_ok texts ctx store" "so_texts store \<subseteq>\<^sub>m table" "table_within texts table"
  shows "store_ok texts ctx (store\<lparr>so_texts := table\<rparr>)" "store_grows store (store\<lparr>so_texts := table\<rparr>)"
proof -
  show grow: "store_grows store (store\<lparr>so_texts := table\<rparr>)" using assms(2) by (simp add: store_grows_def present_def)
  show "store_ok texts ctx (store\<lparr>so_texts := table\<rparr>)"
    using assms(1,3) rows_readable_mono [OF _ grow] cursor_ok_mono [OF _ grow] unfolding store_ok_def by auto
qed

lemma retain_fulfils:
  assumes "sortable texts ctx" "live texts ctx lim st" "(ordinal, v) \<in> set (sc_source ctx 0)"
  shows "fulfils texts ctx lim (storage (retain_record ctx v) st)
    (\<lambda>(envelope, st'). envelope = snd (record_element ctx v) \<and> live texts ctx lim st' \<and> onward st st' \<and> readable ctx (sg_store st') (record_element ctx v))"
proof -
  let ?texts = "so_texts (sg_store st)" and ?longs = "snd ` set (long_texts (sc_nfc ctx) v)"
  have ok: "store_ok texts ctx (sg_store st)" using assms(2) by (simp add: live_def)
  have fit: "records_fit texts ctx" using assms(1) by (simp add: sortable_def)
  have "inj_on sha256Text texts" using fit unfolding records_fit_def by blast
  moreover have "?longs \<subseteq> texts" using fit assms(3) unfolding records_fit_def by (metis snd_conv)
  ultimately obtain table where r: "retainPartitionedRecord (sc_nfc ctx) v ?texts = Inr (snd (record_element ctx v), table)"
      "table_within texts table" "?texts \<subseteq>\<^sub>m table" "\<forall>(sha, i, c)\<in>chunks_of ?longs. table (sha, i) = Some c"
    using retain_ok [of texts ?texts "sc_nfc ctx" v] ok by (auto simp: store_ok_def record_element_def)
  let ?s' = "(sg_store st)\<lparr>so_texts := table\<rparr>"
  have "covers table (snd pt)" if "pt \<in> set (long_texts (sc_nfc ctx) v)" for pt
    using r(4) that by (fastforce simp: covers_def chunks_of_def)
  then have ready: "readable ctx ?s' (record_element ctx v)" unfolding readable_def using assms(3) by (intro bexI [of _ v]) force+
  have "retain_record ctx v (sg_store st) = Inr (snd (record_element ctx v), ?s')" using r(1) by (simp add: retain_record_def)
  then have base: "fulfils texts ctx lim (storage (retain_record ctx v) st)
      (\<lambda>(y, st'). y = snd (record_element ctx v) \<and> live texts ctx lim st' \<and> onward st st' \<and> sg_store st' = ?s')"
    using texts_store_ok [OF ok r(3,2)] by (intro storage_fulfils [OF assms(2)]) simp_all
  show ?thesis by (rule fulfils_mono [OF base]) (use ready in auto)
qed

lemma next_source:
  assumes "source_laws ctx" "sc_source ctx after = e # rest"
  shows "e \<in> set (sc_source ctx 0)" "sc_source ctx (fst e) = rest"
proof -
  have src: "\<And>a. sc_source ctx a = filter (\<lambda>x. a < fst x) (sc_source ctx 0)" "sorted_wrt (<) (map fst (sc_source ctx 0))"
    using assms(1) unfolding source_laws_def by blast+
  then have cut: "filter (\<lambda>x. after < fst x) (sc_source ctx 0) = e # rest" using assms(2) by metis
  then show "e \<in> set (sc_source ctx 0)" by (metis filter_is_subset list.set_intros(1) subsetD)
  have "sorted_wrt (\<lambda>x y. fst x < fst y) (filter (\<lambda>x. after < fst x) (sc_source ctx 0))" using src(2) by (simp add: sorted_wrt_map sorted_wrt_filter)
  then have later: "\<forall>x\<in>set rest. fst e < fst x" unfolding cut by simp
  have "after < fst e" using cut by (metis (no_types, lifting) filter_eq_ConsD)
  then have "filter (\<lambda>x. fst e < fst x) (sc_source ctx 0) = filter (\<lambda>x. fst e < fst x) (filter (\<lambda>x. after < fst x) (sc_source ctx 0))"
    by (auto simp: filter_filter intro!: filter_cong)
  also have "\<dots> = rest" unfolding cut using later by simp
  finally show "sc_source ctx (fst e) = rest" using src(1) by metis
qed

lemma entry_facts:
  assumes "sortable texts ctx" "(ordinal, v) \<in> set (sc_source ctx 0)"
  shows "record_json (sc_nfc ctx) v = Inr (fst (record_element ctx v))" "sortableSize (fst (record_element ctx v)) = Inr (weight (record_element ctx v))"
    "ordinal < 10 ^ 18"
proof -
  obtain k where "canonicalJson (sc_nfc ctx) v = Inr k" "byte_length k \<le> 2097152" using assms unfolding sortable_def records_fit_def by (metis snd_conv)
  then show "record_json (sc_nfc ctx) v = Inr (fst (record_element ctx v))" "sortableSize (fst (record_element ctx v)) = Inr (weight (record_element ctx v))"
    by (simp_all add: record_json_def record_element_def sortableSize_def weight_def Let_def)
  show "ordinal < 10 ^ 18" using assms unfolding sortable_def source_laws_def by (metis fst_conv)
qed

lemma push_entry_fulfils:
  assumes "sortable texts ctx" "running texts ctx lim ((ordinal, v) # rest) st es" "\<not> overflows (weight (record_element ctx v)) st"
  shows "fulfils texts ctx lim (rbind (storage (retain_record ctx v) st) (\<lambda>(envelope, st2).
     let st3 = push_item \<lparr>it_key = fst (record_element ctx v), it_envelope = envelope, it_value = v\<rparr> (weight (record_element ctx v)) st2;
         st4 = st3\<lparr>sg_cursor := (sg_cursor st3)\<lparr>cu_after := ordinal\<rparr>\<rparr>
     in if batch_full st4 then flush_run ctx st4 else Inr st4)) (\<lambda>st'. \<exists>es'. running texts ctx lim rest st' es')"
proof -
  let ?e = "record_element ctx v"
  have at: "at_source texts ctx lim ((ordinal, v) # rest) st es" and laws: "source_laws ctx" using assms(1,2) by (auto simp: running_def sortable_def)
  have src: "sc_source ctx (cu_after (sg_cursor st)) = (ordinal, v) # rest" and live: "live texts ctx lim st" using at by (auto simp: at_source_def)
  have entry: "(ordinal, v) \<in> set (sc_source ctx 0)" "sc_source ctx ordinal = rest" using next_source [OF laws src] by auto
  show ?thesis
  proof (rule fulfils_bind [OF retain_fulfils [OF assms(1) live entry(1)]], clarify)
    fix st2 assume st2: "live texts ctx lim st2" "onward st st2" "readable ctx (sg_store st2) ?e"
    let ?st3 = "push_item \<lparr>it_key = fst ?e, it_envelope = snd ?e, it_value = v\<rparr> (weight ?e) st2"
    let ?st4 = "?st3\<lparr>sg_cursor := (sg_cursor ?st3)\<lparr>cu_after := ordinal\<rparr>\<rparr>"
    have pend: "pending_is ctx st es" "pending_is ctx st2 es" using at pending_onward [OF _ st2(2)] by (auto simp: at_source_def)
    have bytes: "sg_bytes st2 = sg_bytes st" "sg_cursor st2 = sg_cursor st" using st2(2) by (auto simp: onward_def)
    have at4: "at_source texts ctx lim rest ?st4 (es @ [?e])"
      using at st2 pend(2) entry(2) entry_facts(3) [OF assms(1) entry(1)] runs_cursor_mono [of ctx "sg_store st" "sg_cursor st" "sg_store st2"]
      by (auto simp: at_source_def push_item_def pending_is_def item_element_def onward_def live_def runs_cursor_def)
    have len: "length (sg_pending st2) = length es" "sg_pending st = [] \<longleftrightarrow> es = []"
      using pend(1) st2(2) by (auto simp: pending_is_def onward_def)
    have eq: "drop (cu_count (sg_cursor ?st4)) (source_batches ctx) =
        (if length (es @ [?e]) = 8 \<or> sg_bytes st + weight ?e \<ge> 512000 then (es @ [?e]) # cut_batches weight [] 0 (entry_elements ctx rest)
         else cut_batches weight (es @ [?e]) (sg_bytes st + weight ?e) (entry_elements ctx rest))"
      using assms(2,3) len(2) cut_push [of es "sg_bytes st" weight ?e "entry_elements ctx rest"]
      by (simp add: running_def entry_elements_def overflows_def push_item_def bytes)
    show "fulfils texts ctx lim (let st3 = ?st3; st4 = st3\<lparr>sg_cursor := (sg_cursor st3)\<lparr>cu_after := ordinal\<rparr>\<rparr>
        in if batch_full st4 then flush_run ctx st4 else Inr st4) (\<lambda>st'. \<exists>es'. running texts ctx lim rest st' es')"
    proof (cases "batch_full ?st4")
      case True
      then have "drop (cu_count (sg_cursor ?st4)) (source_batches ctx) = (es @ [?e]) # cut_batches weight [] 0 (entry_elements ctx rest)"
        using eq len by (auto simp: batch_full_def push_item_def bytes)
      from flush_run_fulfils [OF assms(1) at4 this] have "fulfils texts ctx lim (flush_run ctx ?st4) (\<lambda>st'. \<exists>es'. running texts ctx lim rest st' es')"
        by (rule fulfils_mono) blast
      then show ?thesis using True by (simp add: Let_def)
    next
      case False
      then have "running texts ctx lim rest ?st4 (es @ [?e])" using at4 eq len by (auto simp: running_def batch_full_def push_item_def bytes)
      then show ?thesis using False by (auto simp: Let_def)
    qed
  qed
qed

lemma take_entry_fulfils:
  assumes "sortable texts ctx" "running texts ctx lim (entry # rest) st es"
  shows "fulfils texts ctx lim (take_entry ctx entry st) (\<lambda>st'. \<exists>es'. running texts ctx lim rest st' es')"
proof -
  obtain ordinal v where entry: "entry = (ordinal, v)" by (cases entry)
  let ?e = "record_element ctx v"
  have at: "at_source texts ctx lim ((ordinal, v) # rest) st es" and laws: "source_laws ctx" using assms by (auto simp: running_def sortable_def entry)
  then have "(ordinal, v) \<in> set (sc_source ctx 0)" unfolding at_source_def using next_source(1) [OF laws] by blast
  note facts = entry_facts [OF assms(1) this]
  have first: "fulfils texts ctx lim (if overflows (weight ?e) st then flush_run ctx st else Inr st)
      (\<lambda>st1. \<exists>es1. running texts ctx lim ((ordinal, v) # rest) st1 es1 \<and> \<not> overflows (weight ?e) st1)"
  proof (cases "overflows (weight ?e) st")
    case True
    then have "es \<noteq> []" "sg_bytes st + weight ?e > 512000" using at by (auto simp: overflows_def at_source_def pending_is_def)
    then have "drop (cu_count (sg_cursor st)) (source_batches ctx) = es # cut_batches weight [] 0 (entry_elements ctx ((ordinal, v) # rest))"
      using assms(2) cut_overflow [of es "sg_bytes st" weight ?e "entry_elements ctx rest"] by (simp add: running_def entry entry_elements_def)
    then have flush: "fulfils texts ctx lim (flush_run ctx st) (\<lambda>st1. running texts ctx lim ((ordinal, v) # rest) st1 [])" by (rule flush_run_fulfils [OF assms(1) at])
    have none: "\<not> overflows (weight ?e) st1" if "running texts ctx lim ((ordinal, v) # rest) st1 []" for st1
      using that by (simp add: overflows_def running_def at_source_def pending_is_def)
    have "fulfils texts ctx lim (flush_run ctx st) (\<lambda>st1. \<exists>es1. running texts ctx lim ((ordinal, v) # rest) st1 es1 \<and> \<not> overflows (weight ?e) st1)"
      by (rule fulfils_mono [OF flush]) (use none in blast)
    then show ?thesis using True by simp
  qed (use assms(2) in \<open>auto simp: entry\<close>)
  have "fulfils texts ctx lim (rbind (if overflows (weight ?e) st then flush_run ctx st else Inr st) (\<lambda>st1.
     rbind (storage (retain_record ctx v) st1) (\<lambda>(envelope, st2).
     let st3 = push_item \<lparr>it_key = fst ?e, it_envelope = envelope, it_value = v\<rparr> (weight ?e) st2;
         st4 = st3\<lparr>sg_cursor := (sg_cursor st3)\<lparr>cu_after := ordinal\<rparr>\<rparr>
     in if batch_full st4 then flush_run ctx st4 else Inr st4))) (\<lambda>st'. \<exists>es'. running texts ctx lim rest st' es')"
    by (rule fulfils_bind [OF first]) (elim exE conjE, rule push_entry_fulfils [OF assms(1)])
  then show ?thesis using facts by (simp add: take_entry_def entry or_fail_def)
qed

lemma take_entries_fulfil:
  "sortable texts ctx \<Longrightarrow> running texts ctx lim entries st es \<Longrightarrow>
     fulfils texts ctx lim (rfold (take_entry ctx) entries st) (\<lambda>st'. \<exists>es'. running texts ctx lim [] st' es')"
proof (induction entries arbitrary: st es)
  case (Cons entry entries)
  show ?case unfolding rfold.simps
    by (rule fulfils_bind [OF take_entry_fulfils [OF Cons.prems]]) (use Cons.IH [OF Cons.prems(1)] in blast)
qed auto

definition sort_settled :: "js_string set \<Rightarrow> sort_context \<Rightarrow> bool \<Rightarrow> sorting \<Rightarrow> bool" where
  "sort_settled texts ctx lim st \<longleftrightarrow> live texts ctx lim st \<and> cursor_ok ctx (sg_store st) (sg_cursor st)"

lemma sort_settled_save:
  assumes "sortable texts ctx" "sort_settled texts ctx lim st"
  shows "fulfils texts ctx lim (save ctx st) (\<lambda>st'. sort_settled texts ctx lim st' \<and> sg_cursor st' = sg_cursor st)"
  by (rule fulfils_mono [OF save_fulfils [OF assms(1)]]) (use assms(2) in \<open>auto simp: sort_settled_def onward_def intro: cursor_ok_mono\<close>)

lemma end_of_runs:
  assumes "running texts ctx lim [] st []"
  shows "cu_count (sg_cursor st) = length (source_batches ctx)"
proof -
  have "drop (cu_count (sg_cursor st)) (source_batches ctx) = []" using assms by (simp add: running_def entry_elements_def)
  moreover have "cu_count (sg_cursor st) \<le> length (source_batches ctx)" using assms by (simp add: running_def at_source_def runs_cursor_def)
  ultimately show ?thesis by simp
qed

lemma runs_done:
  assumes "sortable texts ctx" "running texts ctx lim [] st []"
  shows "fulfils texts ctx lim (if cu_count (sg_cursor st) = 0 then rbind (storage (writeBatch (sc_nfc ctx) (0, 0, 0) []) st)
      (\<lambda>(_, st'). Inr (st'\<lparr>sg_cursor := (sg_cursor st')\<lparr>cu_count := 1\<rparr>\<rparr>)) else Inr st)
    (\<lambda>st3. live texts ctx lim st3 \<and> cursor_ok ctx (sg_store st3) ((sg_cursor st3)\<lparr>cu_stage := (if cu_count (sg_cursor st3) = 1 then Stage_complete else Stage_merge)\<rparr>))"
    (is "fulfils texts ctx lim _ ?done")
proof -
  let ?n = "cu_count (sg_cursor st)"
  have at: "at_source texts ctx lim [] st []" and n: "?n = length (source_batches ctx)" using assms(2) end_of_runs [OF assms(2)] by (simp_all add: running_def)
  then have live: "live texts ctx lim st" and cur: "runs_cursor ctx (sg_store st) (sg_cursor st)" "cu_source (sg_cursor st) = sc_version ctx" "cu_after (sg_cursor st) < 10 ^ 18"
    by (auto simp: at_source_def)
  have empty: "source_batches ctx = [] \<longleftrightarrow> elements ctx = []" using concat_cut [of weight "[]" 0 "elements ctx"] by (auto simp: source_batches_def)
  have runs: "runs_of ctx 0 = (if elements ctx = [] then [[]] else map (sort_by (by_key ctx)) (source_batches ctx))"
    by (simp add: runs_of_def source_batches_def)
  show ?thesis
  proof (cases "?n = 0")
    case True
    then have none: "elements ctx = []" using n empty by simp
    then have batches: "batches_of ctx 0 0 = [[]]" by (simp add: batches_of_def run_batches_def)
    then have place: "place_batch ctx (0, 0, 0) = Some []" using runs none by simp
    have "fulfils texts ctx lim (rbind (storage (writeBatch (sc_nfc ctx) (0, 0, 0) []) st)
        (\<lambda>(_, st'). Inr (st'\<lparr>sg_cursor := (sg_cursor st')\<lparr>cu_count := 1\<rparr>\<rparr>))) ?done"
    proof (rule fulfils_bind [OF write_fulfils [OF assms(1) live place]], simp, simp, clarify)
      fix st' assume st': "live texts ctx lim st'" "onward st st'" "present (sg_store st') (0, 0, 0)"
      then show "fulfils texts ctx lim (Inr (st'\<lparr>sg_cursor := (sg_cursor st')\<lparr>cu_count := 1\<rparr>\<rparr>)) ?done"
        using cur runs none batches by (simp add: cursor_ok_def onward_def runs_cursor_def run_written_def)
    qed
    then show ?thesis using True by simp
  next
    case False
    then have "elements ctx \<noteq> []" using n empty by auto
    then have "length (runs_of ctx 0) = ?n" using runs n by simp
    then have "?done st" using False live cur length_runs(1) [of ctx]
      by (auto simp: cursor_ok_def runs_cursor_def passes_cursor_def group_cursor_def)
    then show ?thesis using False by simp
  qed
qed

lemma finish_runs_fulfil:
  assumes "sortable texts ctx" "running texts ctx lim [] st []"
  shows "fulfils texts ctx lim (rbind (if cu_count (sg_cursor st) = 0
            then rbind (storage (writeBatch (sc_nfc ctx) (0, 0, 0) []) st)
                   (\<lambda>(_, st'). Inr (st'\<lparr>sg_cursor := (sg_cursor st')\<lparr>cu_count := 1\<rparr>\<rparr>))
            else Inr st) (\<lambda>st3.
     save ctx (st3\<lparr>sg_cursor := (sg_cursor st3)\<lparr>cu_stage := (if cu_count (sg_cursor st3) = 1 then Stage_complete else Stage_merge)\<rparr>\<rparr>)))
    (\<lambda>st'. sort_settled texts ctx lim st' \<and> cu_stage (sg_cursor st') \<noteq> Stage_runs)"
proof -
  let ?done = "\<lambda>st3. live texts ctx lim st3 \<and> cursor_ok ctx (sg_store st3) ((sg_cursor st3)\<lparr>cu_stage := (if cu_count (sg_cursor st3) = 1 then Stage_complete else Stage_merge)\<rparr>)"
  from runs_done [OF assms] show ?thesis
  proof (rule fulfils_bind)
    fix st3 assume "?done st3"
    then have "sort_settled texts ctx lim (st3\<lparr>sg_cursor := (sg_cursor st3)\<lparr>cu_stage := (if cu_count (sg_cursor st3) = 1 then Stage_complete else Stage_merge)\<rparr>\<rparr>)"
      by (simp add: sort_settled_def)
    from sort_settled_save [OF assms(1) this] show "fulfils texts ctx lim (save ctx (st3\<lparr>sg_cursor := (sg_cursor st3)\<lparr>cu_stage :=
        (if cu_count (sg_cursor st3) = 1 then Stage_complete else Stage_merge)\<rparr>\<rparr>)) (\<lambda>st'. sort_settled texts ctx lim st' \<and> cu_stage (sg_cursor st') \<noteq> Stage_runs)"
      by (rule fulfils_mono) auto
  qed
qed

lemma runs_stage_fulfils:
  assumes "sortable texts ctx" "sort_settled texts ctx lim st" "cu_stage (sg_cursor st) = Stage_runs"
  shows "fulfils texts ctx lim (runs_stage ctx st) (\<lambda>st'. sort_settled texts ctx lim st' \<and> cu_stage (sg_cursor st') \<noteq> Stage_runs)"
proof -
  have "running texts ctx lim (sc_source ctx (cu_after (sg_cursor st))) (st\<lparr>sg_pending := [], sg_bytes := 0\<rparr>) []"
    using assms(2,3) by (simp add: sort_settled_def running_def at_source_def cursor_ok_def pending_is_def)
  from take_entries_fulfil [OF assms(1) this] show ?thesis unfolding runs_stage_def
  proof (rule fulfils_bind, elim exE)
    fix st1 es assume st1: "running texts ctx lim [] st1 es"
    have "fulfils texts ctx lim (if sg_pending st1 \<noteq> [] then flush_run ctx st1 else Inr st1) (\<lambda>st2. running texts ctx lim [] st2 [])"
    proof (cases "es = []")
      case True
      then show ?thesis using st1 by (auto simp: running_def at_source_def pending_is_def)
    next
      case False
      then have "drop (cu_count (sg_cursor st1)) (source_batches ctx) = es # cut_batches weight [] 0 (entry_elements ctx [])"
        using st1 by (simp add: running_def entry_elements_def)
      moreover have "at_source texts ctx lim [] st1 es" "sg_pending st1 \<noteq> []" using st1 False by (auto simp: running_def at_source_def pending_is_def)
      ultimately show ?thesis using flush_run_fulfils [OF assms(1)] by simp
    qed
    then show "fulfils texts ctx lim (rbind (if sg_pending st1 \<noteq> [] then flush_run ctx st1 else Inr st1) (\<lambda>st2.
        rbind (if cu_count (sg_cursor st2) = 0 then rbind (storage (writeBatch (sc_nfc ctx) (0, 0, 0) []) st2)
                 (\<lambda>(_, st'). Inr (st'\<lparr>sg_cursor := (sg_cursor st')\<lparr>cu_count := 1\<rparr>\<rparr>)) else Inr st2) (\<lambda>st3.
        save ctx (st3\<lparr>sg_cursor := (sg_cursor st3)\<lparr>cu_stage := (if cu_count (sg_cursor st3) = 1 then Stage_complete else Stage_merge)\<rparr>\<rparr>))))
        (\<lambda>st'. sort_settled texts ctx lim st' \<and> cu_stage (sg_cursor st') \<noteq> Stage_runs)"
      by (rule fulfils_bind) (rule finish_runs_fulfil [OF assms(1)])
  qed
qed

subsection \<open>Merges\<close>

definition at_group :: "js_string set \<Rightarrow> sort_context \<Rightarrow> bool \<Rightarrow> element list list \<Rightarrow> sorting \<Rightarrow> element list \<Rightarrow> bool" where
  "at_group texts ctx lim ls st es \<longleftrightarrow> live texts ctx lim st \<and> pending_is ctx st es \<and> cu_source (sg_cursor st) = sc_version ctx \<and>
     cu_after (sg_cursor st) < 10 ^ 18 \<and> cu_pass (sg_cursor st) + length (runs_of ctx (cu_pass (sg_cursor st))) \<le> length (elements ctx) + 1 \<and>
     group_cursor ctx (sg_store st) (sg_cursor st) \<and> length ls = length (group_runs ctx (sg_cursor st)) \<and> positions_at ctx (sg_cursor st) ls"

definition merging :: "js_string set \<Rightarrow> sort_context \<Rightarrow> bool \<Rightarrow> element list list \<Rightarrow> sorting \<Rightarrow> element list \<Rightarrow> bool" where
  "merging texts ctx lim ls st es \<longleftrightarrow> at_group texts ctx lim ls st es \<and>
     cut_batches weight es (sg_bytes st) (merge_lists (by_key ctx) ls) = drop (cu_output (sg_cursor st)) (group_output ctx (sg_cursor st))"

definition heads_ready :: "sort_context \<Rightarrow> element list list \<Rightarrow> Item option list \<Rightarrow> sorting \<Rightarrow> bool" where
  "heads_ready ctx ls heads st \<longleftrightarrow> map (map_option item_element) heads = map head_of ls \<and>
     (\<forall>item. Some item \<in> set heads \<longrightarrow> readable ctx (sg_store st) (item_element item)) \<and>
     (\<forall>j < length ls. position_ready (batches_of ctx (cu_pass (sg_cursor st)) (cu_first (sg_cursor st) + j)) (cu_positions (sg_cursor st) ! j) (ls ! j))"

definition same_group :: "sorting \<Rightarrow> sorting \<Rightarrow> bool" where
  "same_group st st' \<longleftrightarrow> cu_pass (sg_cursor st') = cu_pass (sg_cursor st) \<and> cu_first (sg_cursor st') = cu_first (sg_cursor st) \<and>
     cu_count (sg_cursor st') = cu_count (sg_cursor st) \<and> cu_positions (sg_cursor st') = cu_positions (sg_cursor st) \<and>
     store_grows (sg_store st) (sg_store st')"

lemma heads_same: "heads_ready ctx ls heads st \<Longrightarrow> same_group st st' \<Longrightarrow> heads_ready ctx ls heads st'"
  by (auto simp: heads_ready_def same_group_def intro: readable_mono)

lemma group_simps [simp]:
  "group_runs ctx (c\<lparr>cu_output := n\<rparr>) = group_runs ctx c" "group_runs ctx (c\<lparr>cu_positions := ps\<rparr>) = group_runs ctx c"
  "group_output ctx (c\<lparr>cu_output := n\<rparr>) = group_output ctx c" "group_output ctx (c\<lparr>cu_positions := ps\<rparr>) = group_output ctx c"
  "positions_at ctx (c\<lparr>cu_output := n\<rparr>) ls = positions_at ctx c ls"
  "passes_cursor ctx s (c\<lparr>cu_output := n\<rparr>) = passes_cursor ctx s c" "passes_cursor ctx s (c\<lparr>cu_positions := ps\<rparr>) = passes_cursor ctx s c"
  "group_cursor ctx s (c\<lparr>cu_positions := ps\<rparr>) = group_cursor ctx s c"
  by (simp_all add: group_runs_def group_output_def positions_at_def passes_cursor_def group_cursor_def)

lemma flush_merge_fulfils:
  assumes "sortable texts ctx" "at_group texts ctx lim ls st es"
    "drop (cu_output (sg_cursor st)) (group_output ctx (sg_cursor st)) = es # cut_batches weight [] 0 (merge_lists (by_key ctx) ls)"
  shows "fulfils texts ctx lim (flush_merge ctx st) (\<lambda>st'. merging texts ctx lim ls st' [] \<and> same_group st st')"
proof -
  let ?c = "sg_cursor st" and ?n = "cu_output (sg_cursor st)"
  have n: "?n < length (group_output ctx ?c)" "group_output ctx ?c ! ?n = es" "drop (Suc ?n) (group_output ctx ?c) = cut_batches weight [] 0 (merge_lists (by_key ctx) ls)"
    using drop_eq_Cons [OF assms(3)] by auto
  have live: "live texts ctx lim st" and pend: "pending_is ctx st es" and group: "group_cursor ctx (sg_store st) ?c" using assms(2) by (auto simp: at_group_def)
  have "4 dvd cu_first ?c" "cu_first ?c < length (runs_of ctx (cu_pass ?c))" using group by (auto simp: group_cursor_def passes_cursor_def)
  then have place: "place_batch ctx (cu_pass ?c + 1, cu_first ?c div 4, ?n) = Some es"
    using group_batches n(1,2) by (simp add: nth_append)
  have env: "map it_envelope (sg_pending st) = map snd es" and ready: "\<forall>e\<in>set es. readable ctx (sg_store st) e"
    using pend by (auto simp: pending_is_def item_element_def)
  show ?thesis unfolding flush_merge_def Let_def
  proof (rule fulfils_bind [OF write_fulfils [OF assms(1) live place env ready]], clarify)
    fix st1 assume st1: "live texts ctx lim st1" "onward st st1" "present (sg_store st1) (cu_pass ?c + 1, cu_first ?c div 4, ?n)"
    let ?st = "st1\<lparr>sg_cursor := ?c\<lparr>cu_output := ?n + 1\<rparr>, sg_pending := [], sg_bytes := 0\<rparr>"
    have grow: "store_grows (sg_store st) (sg_store st1)" using st1(2) by (simp add: onward_def)
    have "group_cursor ctx (sg_store st1) (?c\<lparr>cu_output := ?n + 1\<rparr>)"
      using group_cursor_mono [OF group grow] st1(3) n(1) by (auto simp: group_cursor_def less_Suc_eq)
    then have at: "at_group texts ctx lim ls ?st []" using assms(2) st1(1) by (simp add: at_group_def pending_is_def)
    then have "cursor_ok ctx (sg_store ?st) (sg_cursor ?st)"
      using n(3) by (auto simp: at_group_def cursor_ok_def group_cursor_def passes_cursor_def intro!: exI [of _ ls])
    then have "fulfils texts ctx lim (save ctx ?st) (\<lambda>st'. live texts ctx lim st' \<and> onward ?st st')"
      using at by (intro save_fulfils [OF assms(1)]) (simp_all add: at_group_def)
    then show "fulfils texts ctx lim (save ctx ?st) (\<lambda>st'. merging texts ctx lim ls st' [] \<and> same_group st st')"
      by (rule fulfils_mono) (use at n(3) grow in \<open>auto simp: merging_def at_group_def onward_def pending_is_def same_group_def intro: group_cursor_mono store_grows_trans\<close>)
  qed
qed

end
