(* ===== verification/Sorted_Merge.thy ===== *)
theory Sorted_Merge
  imports Sorted_Proofs
begin

text \<open>
  The merge stage and whole invocations of the external sort, and the property that makes it correct:
  whatever interruptions came before, an invocation left to run ends with the records in order.
\<close>

subsection \<open>One record of a merge\<close>

lemma merge_select:
  assumes "heads_ready ctx ls heads st" "select_head (\<lambda>a b. sc_compare ctx (it_key a) (it_key b)) heads = Some (i, item)"
  shows "i < length ls" "ls ! i = item_element item # tl (ls ! i)" "Some item \<in> set heads" "length heads = length ls"
    "merge_lists (by_key ctx) ls = item_element item # merge_lists (by_key ctx) (ls[i := tl (ls ! i)])"
proof -
  have heads: "map (map_option item_element) heads = map head_of ls" using assms(1) by (simp add: heads_ready_def)
  then show len: "length heads = length ls" by (metis length_map)
  have nth: "i < length heads" "heads ! i = Some item" using select_head_nth [OF assms(2)] by auto
  then show "Some item \<in> set heads" by (metis nth_mem)
  show i: "i < length ls" using nth(1) len by simp
  have sel: "select_head (by_key ctx) (map head_of ls) = Some (i, item_element item)"
    using assms(2) select_head_map [where f = item_element and compare = "by_key ctx" and compare' = "\<lambda>a b. sc_compare ctx (it_key a) (it_key b)" and hs = heads]
    by (simp add: heads by_key_def item_element_def)
  then show "merge_lists (by_key ctx) ls = item_element item # merge_lists (by_key ctx) (ls[i := tl (ls ! i)])"
    by (subst merge_lists.simps) simp
  have "head_of (ls ! i) = Some (item_element item)" using select_head_nth [OF sel] i by simp
  then show "ls ! i = item_element item # tl (ls ! i)" by (simp add: head_of_Some)
qed

lemma merge_none:
  assumes "heads_ready ctx ls heads st" "select_head (\<lambda>a b. sc_compare ctx (it_key a) (it_key b)) heads = None"
  shows "merge_lists (by_key ctx) ls = []"
proof -
  have "map (map_option item_element) heads = map head_of ls" using assms(1) by (simp add: heads_ready_def)
  then have "select_head (by_key ctx) (map head_of ls) = None"
    using assms(2) select_head_map [where f = item_element and compare = "by_key ctx" and compare' = "\<lambda>a b. sc_compare ctx (it_key a) (it_key b)" and hs = heads]
    by (simp add: by_key_def item_element_def)
  then show ?thesis by (subst merge_lists.simps) simp
qed

lemma position_start: "position_at (batches_of ctx p r) \<lparr>ps_batch = 0, ps_offset = 0\<rparr> (runs_of ctx p ! r)"
proof -
  have "concat (batches_of ctx p r) = runs_of ctx p ! r" by (simp add: batches_of_def runs_of_def concat_run_batches)
  moreover have "batches_of ctx p r \<noteq> []" using run_batches_shape by (metis batches_of_def snoc_eq_iff_butlast)
  ultimately show ?thesis by (cases "batches_of ctx p r") (auto simp: position_at_def)
qed

lemma position_advance:
  assumes "position_ready bs position (x # xs)"
  shows "position_at bs (position\<lparr>ps_offset := ps_offset position + 1\<rparr>) xs"
proof -
  have inside: "ps_offset position < length (bs ! ps_batch position)" and at: "position_at bs position (x # xs)"
    using assms by (auto simp: position_ready_def)
  then show ?thesis by (auto simp: position_at_def Cons_nth_drop_Suc [symmetric])
qed

lemma group_run_written:
  assumes "at_group texts ctx lim ls st es" "j < length ls"
  shows "run_written ctx (sg_store st) (cu_pass (sg_cursor st)) (cu_first (sg_cursor st) + j)" "rows_ok ctx (sg_store st)"
  using assms group_runs_nth [of j ctx "sg_cursor st"]
  by (auto simp: at_group_def group_cursor_def passes_cursor_def live_def store_ok_def)

text \<open>Pushing the selected head and reading the one behind it.\<close>

lemma advance_head:
  assumes "sortable texts ctx" "merging texts ctx lim ls st es" "heads_ready ctx ls heads st"
    "select_head (\<lambda>a b. sc_compare ctx (it_key a) (it_key b)) heads = Some (i, item)"
  shows "\<exists>head' position'. readHead ctx (sg_store st) (cu_pass (sg_cursor st)) (cu_first (sg_cursor st) + i)
      ((cu_positions (sg_cursor st) ! i)\<lparr>ps_offset := ps_offset (cu_positions (sg_cursor st) ! i) + 1\<rparr>) = Inr (head', position') \<and>
    (let st3 = (push_item item (weight (item_element item)) st)\<lparr>sg_cursor := (sg_cursor st)\<lparr>cu_positions := (cu_positions (sg_cursor st))[i := position']\<rparr>\<rparr>
     in at_group texts ctx lim (ls[i := tl (ls ! i)]) st3 (es @ [item_element item]) \<and> heads_ready ctx (ls[i := tl (ls ! i)]) (heads[i := head']) st3)"
proof -
  note sel = merge_select [OF assms(3,4)]
  let ?c = "sg_cursor st" and ?ls = "ls[i := tl (ls ! i)]"
  have at: "at_group texts ctx lim ls st es" using assms(2) by (simp add: merging_def)
  have "position_ready (batches_of ctx (cu_pass ?c) (cu_first ?c + i)) (cu_positions ?c ! i) (item_element item # tl (ls ! i))"
    using assms(3) sel(1,2) unfolding heads_ready_def by metis
  from readHead_at [OF assms(1) group_run_written(2,1) [OF at sel(1)] position_advance [OF this]]
  obtain head' position' where r: "readHead ctx (sg_store st) (cu_pass ?c) (cu_first ?c + i) ((cu_positions ?c ! i)\<lparr>ps_offset := ps_offset (cu_positions ?c ! i) + 1\<rparr>) = Inr (head', position')"
    "position_ready (batches_of ctx (cu_pass ?c) (cu_first ?c + i)) position' (tl (ls ! i))" "map_option item_element head' = head_of (tl (ls ! i))"
    "\<forall>it. head' = Some it \<longrightarrow> readable ctx (sg_store st) (item_element it)" by blast
  have len: "length (cu_positions ?c) = length ls" using at by (simp add: at_group_def positions_at_def)
  let ?st3 = "(push_item item (weight (item_element item)) st)\<lparr>sg_cursor := ?c\<lparr>cu_positions := (cu_positions ?c)[i := position']\<rparr>\<rparr>"
  have ready: "position_ready (batches_of ctx (cu_pass ?c) (cu_first ?c + j)) ((cu_positions ?c)[i := position'] ! j) (?ls ! j)" if "j < length ls" for j
    using assms(3) r(2) sel(1) len that by (cases "j = i") (auto simp: heads_ready_def)
  have "readable ctx (sg_store st) (item_element item)" using assms(3) sel(3) by (auto simp: heads_ready_def)
  then have "at_group texts ctx lim ?ls ?st3 (es @ [item_element item])"
    using at ready len by (auto simp: at_group_def push_item_def pending_is_def positions_at_def position_ready_def live_def)
  moreover have "map (map_option item_element) (heads[i := head']) = map head_of ?ls"
    using assms(3) r(3) by (simp add: heads_ready_def map_update)
  then have "heads_ready ctx ?ls (heads[i := head']) ?st3"
    using assms(3) r(4) ready set_update_subset_insert [of heads i head'] by (auto simp: heads_ready_def push_item_def)
  ultimately show ?thesis using r(1) by (auto simp: Let_def)
qed

definition of_group :: "sorting \<Rightarrow> sorting \<Rightarrow> bool" where
  "of_group st st' \<longleftrightarrow> cu_pass (sg_cursor st') = cu_pass (sg_cursor st) \<and> cu_first (sg_cursor st') = cu_first (sg_cursor st) \<and>
     cu_count (sg_cursor st') = cu_count (sg_cursor st)"

lemma of_group_trans: "of_group st st1 \<Longrightarrow> of_group st1 st2 \<Longrightarrow> of_group st st2"
  by (simp add: of_group_def)

lemma same_of_group: "same_group st st' \<Longrightarrow> of_group st st'"
  by (simp add: same_group_def of_group_def)

lemma merge_overflow_fulfils:
  assumes "sortable texts ctx" "merging texts ctx lim ls st es" "merge_lists (by_key ctx) ls = e # rest"
  shows "fulfils texts ctx lim (if overflows (weight e) st then flush_merge ctx st else Inr st)
    (\<lambda>st1. (\<exists>es1. merging texts ctx lim ls st1 es1) \<and> \<not> overflows (weight e) st1 \<and> same_group st st1)"
proof (cases "overflows (weight e) st")
  case True
  have at: "at_group texts ctx lim ls st es" using assms(2) by (simp add: merging_def)
  then have "es \<noteq> []" "sg_bytes st + weight e > 512000" using True by (auto simp: overflows_def at_group_def pending_is_def)
  then have "drop (cu_output (sg_cursor st)) (group_output ctx (sg_cursor st)) = es # cut_batches weight [] 0 (merge_lists (by_key ctx) ls)"
    using assms(2) cut_overflow [of es "sg_bytes st" weight e] assms(3) by (simp add: merging_def)
  note flush = flush_merge_fulfils [OF assms(1) at this]
  have none: "\<not> overflows (weight e) st1" if "merging texts ctx lim ls st1 []" for st1
    using that by (simp add: overflows_def merging_def at_group_def pending_is_def)
  have "fulfils texts ctx lim (flush_merge ctx st) (\<lambda>st1. (\<exists>es1. merging texts ctx lim ls st1 es1) \<and> \<not> overflows (weight e) st1 \<and> same_group st st1)"
    by (rule fulfils_mono [OF flush]) (use none in blast)
  then show ?thesis using True by simp
qed (use assms(2) in \<open>auto simp: same_group_def\<close>)

lemma merge_full_fulfils:
  assumes "sortable texts ctx" "at_group texts ctx lim ls st es" "heads_ready ctx ls heads st"
    "drop (cu_output (sg_cursor st)) (group_output ctx (sg_cursor st)) =
       (if batch_full st then es # cut_batches weight [] 0 (merge_lists (by_key ctx) ls) else cut_batches weight es (sg_bytes st) (merge_lists (by_key ctx) ls))"
  shows "fulfils texts ctx lim (if batch_full st then flush_merge ctx st else Inr st)
    (\<lambda>st'. (\<exists>es'. merging texts ctx lim ls st' es') \<and> heads_ready ctx ls heads st' \<and> of_group st st')"
proof (cases "batch_full st")
  case True
  then have "fulfils texts ctx lim (flush_merge ctx st) (\<lambda>st'. merging texts ctx lim ls st' [] \<and> same_group st st')"
    using assms by (intro flush_merge_fulfils) simp_all
  then have "fulfils texts ctx lim (flush_merge ctx st) (\<lambda>st'. (\<exists>es'. merging texts ctx lim ls st' es') \<and> heads_ready ctx ls heads st' \<and> of_group st st')"
    by (rule fulfils_mono) (use heads_same [OF assms(3)] same_of_group in blast)
  then show ?thesis using True by simp
qed (use assms in \<open>auto simp: merging_def of_group_def\<close>)

lemma merge_push_fulfils:
  assumes "sortable texts ctx" "merging texts ctx lim ls st es" "heads_ready ctx ls heads st" "\<not> overflows (weight (item_element item)) st"
    "select_head (\<lambda>a b. sc_compare ctx (it_key a) (it_key b)) heads = Some (i, item)"
  shows "fulfils texts ctx lim (let st2 = push_item item (weight (item_element item)) st; c = sg_cursor st2; position = cu_positions c ! i
     in rbind (or_fail st2 (readHead ctx (sg_store st2) (cu_pass c) (cu_first c + i) (position\<lparr>ps_offset := ps_offset position + 1\<rparr>)))
          (\<lambda>(head', position').
        let st3 = st2\<lparr>sg_cursor := c\<lparr>cu_positions := (cu_positions c)[i := position']\<rparr>\<rparr>
        in rbind (if batch_full st3 then flush_merge ctx st3 else Inr st3) (\<lambda>st4. Inr (heads[i := head'], st4))))
    (\<lambda>(heads', st'). (\<exists>es'. merging texts ctx lim (ls[i := tl (ls ! i)]) st' es') \<and> heads_ready ctx (ls[i := tl (ls ! i)]) heads' st' \<and> of_group st st')"
    (is "fulfils texts ctx lim ?r ?Q")
proof -
  let ?e = "item_element item" and ?ls = "ls[i := tl (ls ! i)]" and ?c = "sg_cursor st"
  note next_lists = merge_select(5) [OF assms(3,5)]
  from advance_head [OF assms(1-3,5)] obtain head' position' where
    r: "readHead ctx (sg_store st) (cu_pass ?c) (cu_first ?c + i) ((cu_positions ?c ! i)\<lparr>ps_offset := ps_offset (cu_positions ?c ! i) + 1\<rparr>) = Inr (head', position')"
    and now: "let st3 = (push_item item (weight ?e) st)\<lparr>sg_cursor := ?c\<lparr>cu_positions := (cu_positions ?c)[i := position']\<rparr>\<rparr>
      in at_group texts ctx lim ?ls st3 (es @ [?e]) \<and> heads_ready ctx ?ls (heads[i := head']) st3" by blast
  define st3 where "st3 = (push_item item (weight ?e) st)\<lparr>sg_cursor := ?c\<lparr>cu_positions := (cu_positions ?c)[i := position']\<rparr>\<rparr>"
  have at3: "at_group texts ctx lim ?ls st3 (es @ [?e])" and heads3: "heads_ready ctx ?ls (heads[i := head']) st3"
    using now by (simp_all add: st3_def Let_def)
  have pend: "pending_is ctx st es" using assms(2) by (simp add: merging_def at_group_def)
  then have len: "length (sg_pending st) = length es" "sg_pending st = [] \<longleftrightarrow> es = []" by (auto simp: pending_is_def)
  have "drop (cu_output (sg_cursor st3)) (group_output ctx (sg_cursor st3)) =
      (if batch_full st3 then (es @ [?e]) # cut_batches weight [] 0 (merge_lists (by_key ctx) ?ls)
       else cut_batches weight (es @ [?e]) (sg_bytes st3) (merge_lists (by_key ctx) ?ls))"
    using assms(2,4) len next_lists cut_push [of es "sg_bytes st" weight ?e "merge_lists (by_key ctx) ?ls"]
    by (simp add: merging_def overflows_def st3_def push_item_def batch_full_def)
  note full = merge_full_fulfils [OF assms(1) at3 heads3 this]
  have "of_group st st'" if "of_group st3 st'" for st' using that by (simp add: of_group_def st3_def push_item_def)
  then have "fulfils texts ctx lim (rbind (if batch_full st3 then flush_merge ctx st3 else Inr st3) (\<lambda>st4. Inr (heads[i := head'], st4))) ?Q"
    by (intro fulfils_bind [OF full]) auto
  moreover have "?r = rbind (if batch_full st3 then flush_merge ctx st3 else Inr st3) (\<lambda>st4. Inr (heads[i := head'], st4))"
    using r by (simp add: Let_def or_fail_def push_item_def st3_def)
  ultimately show ?thesis by (simp only:)
qed

lemma merge_emit_fulfils:
  assumes "sortable texts ctx" "merging texts ctx lim ls st es" "heads_ready ctx ls heads st"
    "select_head (\<lambda>a b. sc_compare ctx (it_key a) (it_key b)) heads = Some (i, item)"
  shows "fulfils texts ctx lim (merge_emit ctx i item heads st) (\<lambda>(heads', st').
    (\<exists>es'. merging texts ctx lim (ls[i := tl (ls ! i)]) st' es') \<and> heads_ready ctx (ls[i := tl (ls ! i)]) heads' st' \<and> of_group st st')"
    (is "fulfils texts ctx lim _ ?Q")
proof -
  note sel = merge_select [OF assms(3,4)]
  have "readable ctx (sg_store st) (item_element item)" using assms(3) sel(3) by (auto simp: heads_ready_def)
  then have weigh: "or_fail st (sortableSize (it_key item)) = Inr (weight (item_element item))"
    using restore_element [OF assms(1)] by (fastforce simp: item_element_def or_fail_def)
  show ?thesis unfolding merge_emit_def weigh rbind.simps
  proof (rule fulfils_bind [OF merge_overflow_fulfils [OF assms(1,2) sel(5)]], elim conjE exE, goal_cases)
    case (1 st1 es1)
    have of: "of_group st st'" if "of_group st1 st'" for st' using of_group_trans [OF same_of_group [OF 1(2)] that] .
    show ?case
      by (rule fulfils_mono [OF merge_push_fulfils [OF assms(1) 1(3) heads_same [OF assms(3) 1(2)] 1(1) assms(4)]]) (use of in auto)
  qed
qed

lemma merge_loop_returns:
  assumes "sortable texts ctx" "merging texts ctx lim ls st es" "heads_ready ctx ls heads st"
  shows "\<exists>r. merge_loop ctx heads st = Some r \<and> fulfils texts ctx lim r (\<lambda>st'. \<exists>ls' es'. merging texts ctx lim ls' st' es' \<and> merge_lists (by_key ctx) ls' = [] \<and> of_group st st')"
  using assms(2,3)
proof (induction "sum_list (map length ls)" arbitrary: ls st es heads rule: less_induct)
  case less
  show ?case
  proof (cases "select_head (\<lambda>a b. sc_compare ctx (it_key a) (it_key b)) heads")
    case None
    then have "merge_loop ctx heads st = Some (Inr st)" by (subst merge_loop.simps) simp
    then show ?thesis using less.prems merge_none [OF less.prems(2) None] by (auto simp: of_group_def)
  next
    case (Some ih)
    obtain i item where sel: "select_head (\<lambda>a b. sc_compare ctx (it_key a) (it_key b)) heads = Some (i, item)" using Some by fastforce
    let ?ls = "ls[i := tl (ls ! i)]"
    note emit = merge_emit_fulfils [OF assms(1) less.prems sel]
    have small: "sum_list (map length ?ls) < sum_list (map length ls)"
      using sum_length_tl [of i ls "item_element item" "tl (ls ! i)"] merge_select(1,2) [OF less.prems(2) sel] by simp
    show ?thesis
    proof (cases "merge_emit ctx i item heads st")
      case (Inl stop)
      then have "merge_loop ctx heads st = Some (Inl stop)" using sel by (subst merge_loop.simps) simp
      then show ?thesis using emit Inl by (auto simp: fulfils_def split: prod.splits)
    next
      case (Inr hs)
      obtain heads' st1 where hs: "hs = (heads', st1)" by fastforce
      then obtain es1 where n: "merging texts ctx lim ?ls st1 es1" "heads_ready ctx ?ls heads' st1" "of_group st st1" using emit Inr by auto
      obtain r where r: "merge_loop ctx heads' st1 = Some r" "fulfils texts ctx lim r (\<lambda>st'. \<exists>ls' es'. merging texts ctx lim ls' st' es' \<and> merge_lists (by_key ctx) ls' = [] \<and> of_group st1 st')"
        using less.hyps [OF small n(1,2)] by blast
      have "merge_loop ctx heads st = Some r" using sel Inr hs r(1) by (subst merge_loop.simps) simp
      moreover have "fulfils texts ctx lim r (\<lambda>st'. \<exists>ls' es'. merging texts ctx lim ls' st' es' \<and> merge_lists (by_key ctx) ls' = [] \<and> of_group st st')"
        by (rule fulfils_mono [OF r(2)]) (use of_group_trans [OF n(3)] in blast)
      ultimately show ?thesis by blast
    qed
  qed
qed

subsection \<open>One group of runs\<close>

lemma read_heads_at:
  assumes "sortable texts ctx" "rows_ok ctx store" "length ps = length ls"
    "\<forall>j < length ls. run_written ctx store p (r + j) \<and> position_at (batches_of ctx p (r + j)) (ps ! j) (ls ! j)"
  shows "\<exists>hs. read_heads ctx store p r ps = Inr hs \<and> length hs = length ls \<and> map (\<lambda>h. map_option item_element (fst h)) hs = map head_of ls \<and>
    (\<forall>item. Some item \<in> fst ` set hs \<longrightarrow> readable ctx store (item_element item)) \<and>
    (\<forall>j < length ls. position_ready (batches_of ctx p (r + j)) (snd (hs ! j)) (ls ! j))"
  using assms(3,4)
proof (induction ps arbitrary: r ls)
  case (Cons q ps)
  then obtain xs ls' where ls: "ls = xs # ls'" by (cases ls) auto
  have "run_written ctx store p r" "position_at (batches_of ctx p r) q xs" using Cons.prems(2) ls by force+
  then obtain h q' where h: "readHead ctx store p r q = Inr (h, q')" "position_ready (batches_of ctx p r) q' xs" "map_option item_element h = head_of xs"
      "\<forall>item. h = Some item \<longrightarrow> readable ctx store (item_element item)"
    using readHead_at [OF assms(1,2)] by blast
  have "\<forall>j < length ls'. run_written ctx store p (r + 1 + j) \<and> position_at (batches_of ctx p (r + 1 + j)) (ps ! j) (ls' ! j)"
    using Cons.prems(2) ls by fastforce
  then obtain hs where hs: "read_heads ctx store p (r + 1) ps = Inr hs" "length hs = length ls'" "map (\<lambda>h. map_option item_element (fst h)) hs = map head_of ls'"
      "\<forall>item. Some item \<in> fst ` set hs \<longrightarrow> readable ctx store (item_element item)"
      "\<forall>j < length ls'. position_ready (batches_of ctx p (r + 1 + j)) (snd (hs ! j)) (ls' ! j)"
    using Cons.IH [of ls' "r + 1"] Cons.prems(1) ls by auto
  have "position_ready (batches_of ctx p (r + j)) (snd (((h, q') # hs) ! j)) (ls ! j)" if "j < length ls" for j
    using that hs(5) h(2) ls by (cases j) auto
  then show ?case using h hs ls by (intro exI [of _ "(h, q') # hs"]) auto
qed simp

lemma group_positions:
  assumes "cursor_ok ctx store c" "cu_stage c = Stage_merge" "cu_first c < cu_count c"
  shows "\<exists>ls. length ls = length (group_runs ctx c) \<and>
    positions_at ctx (c\<lparr>cu_positions := (if cu_positions c = [] then replicate (min 4 (cu_count c - cu_first c)) \<lparr>ps_batch = 0, ps_offset = 0\<rparr> else cu_positions c)\<rparr>) ls \<and>
    cut_batches weight [] 0 (merge_lists (by_key ctx) ls) = drop (cu_output c) (group_output ctx c)"
proof (cases "cu_positions c = []")
  case True
  have group: "group_cursor ctx store c" using assms by (simp add: cursor_ok_def)
  then have runs: "length (group_runs ctx c) = min 4 (cu_count c - cu_first c)" by (simp add: group_runs_def group_cursor_def passes_cursor_def min.commute)
  have "\<not> (\<exists>ls. length ls = length (group_runs ctx c) \<and> positions_at ctx c ls)" using True runs assms(3) by (auto simp: positions_at_def)
  then have none: "cu_output c = 0" using assms True by (auto simp: cursor_ok_def)
  have "position_at (batches_of ctx (cu_pass c) (cu_first c + j)) \<lparr>ps_batch = 0, ps_offset = 0\<rparr> (group_runs ctx c ! j)" if "j < length (group_runs ctx c)" for j
    using position_start [of ctx "cu_pass c" "cu_first c + j"] group_runs_nth [OF that] by simp
  then have "positions_at ctx (c\<lparr>cu_positions := replicate (min 4 (cu_count c - cu_first c)) \<lparr>ps_batch = 0, ps_offset = 0\<rparr>\<rparr>) (group_runs ctx c)"
    using runs by (simp add: positions_at_def)
  then show ?thesis using True none by (intro exI [of _ "group_runs ctx c"]) (simp add: group_output_def)
next
  case False
  then show ?thesis using assms by (auto simp: cursor_ok_def positions_at_def)
qed

lemma begin_group_fulfils:
  assumes "sortable texts ctx" "sort_settled texts ctx lim st" "cu_stage (sg_cursor st) = Stage_merge" "cu_first (sg_cursor st) < cu_count (sg_cursor st)"
  shows "\<exists>heads st1 ls. begin_group ctx st = Inr (heads, st1) \<and> merging texts ctx lim ls st1 [] \<and> heads_ready ctx ls heads st1 \<and> of_group st st1"
proof -
  let ?c = "sg_cursor st"
  have ok: "cursor_ok ctx (sg_store st) ?c" and live: "live texts ctx lim st" using assms(2) by (auto simp: sort_settled_def)
  then have group: "group_cursor ctx (sg_store st) ?c" using assms(3,4) by (simp add: cursor_ok_def)
  let ?ps = "if cu_positions ?c = [] then replicate (min 4 (cu_count ?c - cu_first ?c)) \<lparr>ps_batch = 0, ps_offset = 0\<rparr> else cu_positions ?c"
  obtain ls where ls: "length ls = length (group_runs ctx ?c)" "positions_at ctx (?c\<lparr>cu_positions := ?ps\<rparr>) ls"
    "cut_batches weight [] 0 (merge_lists (by_key ctx) ls) = drop (cu_output ?c) (group_output ctx ?c)"
    using group_positions [OF ok assms(3,4)] by blast
  have "rows_ok ctx (sg_store st)" using live by (simp add: live_def store_ok_def)
  moreover have "\<forall>j < length ls. run_written ctx (sg_store st) (cu_pass ?c) (cu_first ?c + j)"
    using group group_runs_nth [of _ ctx ?c] ls(1) by (auto simp: group_cursor_def passes_cursor_def)
  ultimately obtain hs where hs: "read_heads ctx (sg_store st) (cu_pass ?c) (cu_first ?c) ?ps = Inr hs" "length hs = length ls"
      "map (\<lambda>h. map_option item_element (fst h)) hs = map head_of ls" "\<forall>item. Some item \<in> fst ` set hs \<longrightarrow> readable ctx (sg_store st) (item_element item)"
      "\<forall>j < length ls. position_ready (batches_of ctx (cu_pass ?c) (cu_first ?c + j)) (snd (hs ! j)) (ls ! j)"
    using read_heads_at [OF assms(1), of "sg_store st" ?ps ls "cu_pass ?c" "cu_first ?c"] ls(2) by (auto simp: positions_at_def)
  let ?st1 = "st\<lparr>sg_cursor := ?c\<lparr>cu_positions := map snd hs\<rparr>, sg_pending := [], sg_bytes := 0\<rparr>"
  have "begin_group ctx st = Inr (map fst hs, ?st1)" using hs(1) by (simp add: begin_group_def Let_def or_fail_def)
  moreover have "merging texts ctx lim ls ?st1 []"
    using live group ok ls(1,3) hs(2,5) by (simp add: merging_def at_group_def pending_is_def cursor_ok_def positions_at_def position_ready_def)
  moreover have "heads_ready ctx ls (map fst hs) ?st1" using hs by (simp add: heads_ready_def comp_def)
  ultimately show ?thesis by (auto simp: of_group_def)
qed

lemma end_group_fulfils:
  assumes "sortable texts ctx" "merging texts ctx lim ls st es" "merge_lists (by_key ctx) ls = []"
  shows "fulfils texts ctx lim (end_group ctx st) (\<lambda>st'. sort_settled texts ctx lim st' \<and> cu_stage (sg_cursor st') = Stage_merge \<and>
    cu_count (sg_cursor st') = cu_count (sg_cursor st) \<and> cu_first (sg_cursor st') = cu_first (sg_cursor st) + 4)"
proof -
  have at: "at_group texts ctx lim ls st es" using assms(2) by (simp add: merging_def)
  have flushed: "fulfils texts ctx lim (if sg_pending st \<noteq> [] then flush_merge ctx st else Inr st) (\<lambda>st1. merging texts ctx lim ls st1 [] \<and> of_group st st1)"
  proof (cases "es = []")
    case False
    then have "drop (cu_output (sg_cursor st)) (group_output ctx (sg_cursor st)) = es # cut_batches weight [] 0 (merge_lists (by_key ctx) ls)"
      using assms(2,3) by (simp add: merging_def)
    from flush_merge_fulfils [OF assms(1) at this] have "fulfils texts ctx lim (flush_merge ctx st) (\<lambda>st1. merging texts ctx lim ls st1 [] \<and> of_group st st1)"
      by (rule fulfils_mono) (use same_of_group in blast)
    then show ?thesis using False at by (auto simp: at_group_def pending_is_def)
  qed (use assms(2) in \<open>auto simp: merging_def at_group_def pending_is_def of_group_def\<close>)
  show ?thesis unfolding end_group_def
  proof (rule fulfils_bind [OF flushed], elim conjE, goal_cases)
    case (1 st1)
    let ?c = "sg_cursor st1"
    have at1: "at_group texts ctx lim ls st1 []" using 1(1) by (simp add: merging_def)
    then have live: "live texts ctx lim st1" and group: "group_cursor ctx (sg_store st1) ?c" by (auto simp: at_group_def)
    have n: "cu_output ?c = length (group_output ctx ?c)" using 1(1) assms(3) group by (simp add: merging_def group_cursor_def)
    have first: "4 dvd cu_first ?c" "cu_first ?c < length (runs_of ctx (cu_pass ?c))" using group by (auto simp: group_cursor_def passes_cursor_def)
    have place: "place_batch ctx (cu_pass ?c + 1, cu_first ?c div 4, cu_output ?c) = Some []" using group_batches [OF first] n by simp
    show ?case unfolding Let_def
    proof (rule fulfils_bind [OF write_fulfils [OF assms(1) live place]], simp, simp, clarify)
      fix st2 assume st2: "live texts ctx lim st2" "onward st1 st2" "present (sg_store st2) (cu_pass ?c + 1, cu_first ?c div 4, cu_output ?c)"
      let ?st = "st2\<lparr>sg_cursor := ?c\<lparr>cu_first := cu_first ?c + 4, cu_output := 0, cu_positions := []\<rparr>\<rparr>"
      have group2: "group_cursor ctx (sg_store st2) ?c" using group_cursor_mono [OF group] st2(2) by (simp add: onward_def)
      then have "run_written ctx (sg_store st2) (cu_pass ?c + 1) (cu_first ?c div 4)"
        using st2(3) group_batches(1) [OF first] n by (auto simp: run_written_def group_cursor_def less_Suc_eq)
      then have "passes_cursor ctx (sg_store st2) (sg_cursor ?st)"
        using group2 by (auto simp: group_cursor_def passes_cursor_def less_Suc_eq)
      then have "sort_settled texts ctx lim ?st" using st2(1) at1 by (simp add: sort_settled_def cursor_ok_def at_group_def group_cursor_def passes_cursor_def)
      from sort_settled_save [OF assms(1) this] show "fulfils texts ctx lim (save ctx ?st) (\<lambda>st'. sort_settled texts ctx lim st' \<and> cu_stage (sg_cursor st') = Stage_merge \<and>
          cu_count (sg_cursor st') = cu_count (sg_cursor st) \<and> cu_first (sg_cursor st') = cu_first (sg_cursor st) + 4)"
        by (rule fulfils_mono) (use 1(2) group in \<open>auto simp: of_group_def group_cursor_def passes_cursor_def\<close>)
    qed
  qed
qed

lemma merge_group_returns:
  assumes "sortable texts ctx" "sort_settled texts ctx lim st" "cu_stage (sg_cursor st) = Stage_merge" "cu_first (sg_cursor st) < cu_count (sg_cursor st)"
  shows "\<exists>r. merge_group ctx st = Some r \<and> fulfils texts ctx lim r (\<lambda>st'. sort_settled texts ctx lim st' \<and> cu_stage (sg_cursor st') = Stage_merge \<and>
    cu_count (sg_cursor st') = cu_count (sg_cursor st) \<and> cu_first (sg_cursor st') = cu_first (sg_cursor st) + 4)"
proof -
  obtain heads st1 ls where b: "begin_group ctx st = Inr (heads, st1)" "merging texts ctx lim ls st1 []" "heads_ready ctx ls heads st1" "of_group st st1"
    using begin_group_fulfils [OF assms] by blast
  obtain r where r: "merge_loop ctx heads st1 = Some r"
      "fulfils texts ctx lim r (\<lambda>st'. \<exists>ls' es'. merging texts ctx lim ls' st' es' \<and> merge_lists (by_key ctx) ls' = [] \<and> of_group st1 st')"
    using merge_loop_returns [OF assms(1) b(2,3)] by blast
  have "fulfils texts ctx lim (rbind r (end_group ctx)) (\<lambda>st'. sort_settled texts ctx lim st' \<and> cu_stage (sg_cursor st') = Stage_merge \<and>
    cu_count (sg_cursor st') = cu_count (sg_cursor st) \<and> cu_first (sg_cursor st') = cu_first (sg_cursor st) + 4)"
  proof (rule fulfils_bind [OF r(2)], elim exE conjE, goal_cases)
    case (1 st2 ls' es')
    then show ?case using of_group_trans [OF b(4) 1(3)] by (intro fulfils_mono [OF end_group_fulfils [OF assms(1) 1(1,2)]]) (auto simp: of_group_def)
  qed
  then show ?thesis using b(1) r(1) by (simp add: merge_group_def)
qed

subsection \<open>The passes\<close>

lemma next_pass_fulfils:
  assumes "sortable texts ctx" "sort_settled texts ctx lim st" "cu_stage (sg_cursor st) = Stage_merge" "\<not> cu_first (sg_cursor st) < cu_count (sg_cursor st)"
  shows "fulfils texts ctx lim (next_pass ctx st) (\<lambda>st'. sort_settled texts ctx lim st' \<and> cu_stage (sg_cursor st') \<noteq> Stage_runs \<and>
    cu_count (sg_cursor st') = (cu_count (sg_cursor st) + 3) div 4 \<and> cu_first (sg_cursor st') = 0)"
proof -
  let ?c = "sg_cursor st" and ?n = "(cu_count (sg_cursor st) + 3) div 4"
  let ?c' = "?c\<lparr>cu_count := ?n, cu_pass := cu_pass ?c + 1, cu_first := 0, cu_stage := (if ?n = 1 then Stage_complete else cu_stage ?c)\<rparr>"
  have ok: "cursor_ok ctx (sg_store st) ?c" using assms(2) by (simp add: sort_settled_def)
  then have p: "passes_cursor ctx (sg_store st) ?c" "cu_positions ?c = []" "cu_output ?c = 0" using assms(3,4) by (auto simp: cursor_ok_def)
  have len: "length (runs_of ctx (cu_pass ?c + 1)) = ?n" using length_runs(2) [of ctx "cu_pass ?c"] p(1) by (simp add: passes_cursor_def)
  have "1 < cu_count ?c" using p(1) by (simp add: passes_cursor_def)
  then have pos: "0 < ?n" "?n + 1 \<le> cu_count ?c" by linarith+
  have "?n \<le> cu_first ?c div 4" using p(1) assms(4) by (auto simp: passes_cursor_def dvd_def)
  then have written: "\<forall>r < ?n. run_written ctx (sg_store st) (cu_pass ?c + 1) r" using p(1) by (auto simp: passes_cursor_def)
  have bound: "cu_pass ?c + 1 + ?n \<le> length (elements ctx) + 1" using ok p(1) pos(2) by (simp add: cursor_ok_def passes_cursor_def)
  have "cursor_ok ctx (sg_store st) ?c'"
  proof (cases "?n = 1")
    case True
    then show ?thesis using ok len bound written p by (simp add: cursor_ok_def)
  next
    case False
    then have "1 < ?n" using pos(1) by linarith
    then show ?thesis using False ok len bound written p assms(3) by (simp add: cursor_ok_def passes_cursor_def group_cursor_def)
  qed
  then have "sort_settled texts ctx lim (st\<lparr>sg_cursor := ?c'\<rparr>)" using assms(2) by (simp add: sort_settled_def)
  from sort_settled_save [OF assms(1) this] show ?thesis unfolding next_pass_def Let_def
    by (rule fulfils_mono) (use assms(3) in auto)
qed

lemma merge_step_returns:
  assumes "sortable texts ctx" "sort_settled texts ctx lim st" "cu_stage (sg_cursor st) = Stage_merge"
  shows "\<exists>r. (if cu_first (sg_cursor st) < cu_count (sg_cursor st) then merge_group ctx st else Some (next_pass ctx st)) = Some r \<and>
    fulfils texts ctx lim r (\<lambda>st'. sort_settled texts ctx lim st' \<and> cu_stage (sg_cursor st') \<noteq> Stage_runs \<and>
      11 * cu_count (sg_cursor st') + 4 - cu_first (sg_cursor st') < 11 * cu_count (sg_cursor st) + 4 - cu_first (sg_cursor st))"
    (is "\<exists>r. _ = Some r \<and> fulfils texts ctx lim r ?next")
proof (cases "cu_first (sg_cursor st) < cu_count (sg_cursor st)")
  case True
  obtain r where g: "merge_group ctx st = Some r" "fulfils texts ctx lim r (\<lambda>st'. sort_settled texts ctx lim st' \<and> cu_stage (sg_cursor st') = Stage_merge \<and>
      cu_count (sg_cursor st') = cu_count (sg_cursor st) \<and> cu_first (sg_cursor st') = cu_first (sg_cursor st) + 4)"
    using merge_group_returns [OF assms True] by blast
  have "fulfils texts ctx lim r ?next" by (rule fulfils_mono [OF g(2)]) (use True in auto)
  then show ?thesis using g(1) True by simp
next
  case False
  have "1 < cu_count (sg_cursor st)" "cu_first (sg_cursor st) \<le> cu_count (sg_cursor st) + 3"
    using assms(2,3) by (auto simp: sort_settled_def cursor_ok_def passes_cursor_def)
  then have small: "11 * ((cu_count (sg_cursor st) + 3) div 4) + 4 < 11 * cu_count (sg_cursor st) + 4 - cu_first (sg_cursor st)" by linarith
  have "fulfils texts ctx lim (next_pass ctx st) ?next"
    by (rule fulfils_mono [OF next_pass_fulfils [OF assms False]]) (use small in auto)
  then show ?thesis using False by simp
qed

lemma merge_stage_returns:
  assumes "sortable texts ctx" "sort_settled texts ctx lim st" "cu_stage (sg_cursor st) \<noteq> Stage_runs"
  shows "\<exists>r. merge_stage ctx st = Some r \<and> fulfils texts ctx lim r (\<lambda>st'. sort_settled texts ctx lim st' \<and> cu_stage (sg_cursor st') = Stage_complete)"
  using assms(2,3)
proof (induction "11 * cu_count (sg_cursor st) + 4 - cu_first (sg_cursor st)" arbitrary: st rule: less_induct)
  case less
  let ?c = "sg_cursor st"
  let ?Q = "\<lambda>st'. sort_settled texts ctx lim st' \<and> cu_stage (sg_cursor st') = Stage_complete"
  have ok: "cursor_ok ctx (sg_store st) ?c" using less.prems(1) by (simp add: sort_settled_def)
  show ?case
  proof (cases "cu_stage ?c")
    case Stage_runs
    then show ?thesis using less.prems(2) by simp
  next
    case Stage_complete
    then have "merge_stage ctx st = Some (Inr st)" using ok by (subst merge_stage.simps) (simp add: cursor_ok_def)
    then show ?thesis using Stage_complete less.prems(1) by simp
  next
    case Stage_merge
    then have many: "\<not> cu_count ?c \<le> 1" using ok by (auto simp: cursor_ok_def passes_cursor_def)
    let ?next = "\<lambda>st'. sort_settled texts ctx lim st' \<and> cu_stage (sg_cursor st') \<noteq> Stage_runs \<and>
      11 * cu_count (sg_cursor st') + 4 - cu_first (sg_cursor st') < 11 * cu_count ?c + 4 - cu_first ?c"
    obtain r where r: "(if cu_first ?c < cu_count ?c then merge_group ctx st else Some (next_pass ctx st)) = Some r" "fulfils texts ctx lim r ?next"
      using merge_step_returns [OF assms(1) less.prems(1) Stage_merge] by blast
    show ?thesis
    proof (cases r)
      case (Inl stop)
      then have "merge_stage ctx st = Some (Inl stop)" using many r(1) by (subst merge_stage.simps) simp
      then show ?thesis using r(2) Inl by (auto simp: fulfils_def split: prod.splits)
    next
      case (Inr st')
      then have n: "?next st'" using r(2) by simp
      obtain r' where r': "merge_stage ctx st' = Some r'" "fulfils texts ctx lim r' ?Q" using less.hyps [of st'] n by blast
      have "merge_stage ctx st = merge_stage ctx st'" using many r(1) Inr by (subst merge_stage.simps) simp
      then show ?thesis using r' by simp
    qed
  qed
qed

subsection \<open>Whole invocations\<close>

lemma initial_cursor_ok: "sortable texts ctx \<Longrightarrow> cursor_ok ctx store (initial_cursor (sc_version ctx))"
  using length_runs(1) [of ctx] by (simp add: cursor_ok_def initial_cursor_def runs_cursor_def elements_def source_batches_def)

lemma resume_ok:
  assumes "sortable texts ctx" "store_ok texts ctx store"
  shows "\<exists>st. resume ctx left store = Inr st \<and> sort_settled texts ctx (left \<noteq> None) st \<and> sg_store st = store"
proof (cases "so_checkpoints store = []")
  case True
  then have "reconciliationCheckpoint store = Inr None" by (simp add: reconciliationCheckpoint_def latestReconciliationCheckpoint_def)
  then show ?thesis using assms True initial_cursor_ok [OF assms(1)]
    by (simp add: resume_def sort_settled_def live_def initial_cursor_def)
next
  case False
  let ?n = "Max (fst ` set (so_checkpoints store))"
  have "?n \<in> fst ` set (so_checkpoints store)" using False by (intro Max_in) auto
  then obtain row where row: "map_of (so_checkpoints store) ?n = Some row" by (metis map_of_eq_None_iff not_Some_eq)
  then have good: "cr_sha row = sha256Text (cr_content row)" "cursor_ok ctx store (cr_cursor row)"
    using assms(2) map_of_SomeD [OF row] by (auto simp: store_ok_def)
  have "reconciliationCheckpoint store = Inr (Some (?n, cr_cursor row))"
    using False row good(1) by (simp add: reconciliationCheckpoint_def latestReconciliationCheckpoint_def Let_def)
  moreover have "cu_source (cr_cursor row) = sc_version ctx" using good(2) by (simp add: cursor_ok_def)
  moreover have "\<forall>n\<in>fst ` set (so_checkpoints store). n < ?n + 1" by (auto simp: less_Suc_eq_le)
  ultimately show ?thesis using assms(2) good(2) by (simp add: resume_def sort_settled_def live_def)
qed

definition sorted_store :: "js_string set \<Rightarrow> sort_context \<Rightarrow> nat \<Rightarrow> sort_store \<Rightarrow> bool" where
  "sorted_store texts ctx pass store \<longleftrightarrow> store_ok texts ctx store \<and> length (runs_of ctx pass) = 1 \<and> run_written ctx store pass 0"

lemma prepareRuns_returns:
  assumes "sortable texts ctx" "store_ok texts ctx store"
  shows "\<exists>r. prepareRuns ctx left store = Some r \<and> fulfils texts ctx (left \<noteq> None) r (\<lambda>(pass, store'). sorted_store texts ctx pass store')"
proof -
  let ?lim = "left \<noteq> None" and ?Q = "\<lambda>(pass, store'). sorted_store texts ctx pass store'"
  obtain st where st: "resume ctx left store = Inr st" "sort_settled texts ctx ?lim st" using resume_ok [OF assms] by blast
  let ?runs = "if cu_stage (sg_cursor st) = Stage_runs then runs_stage ctx st else Inr st"
  have runs: "fulfils texts ctx ?lim ?runs (\<lambda>st'. sort_settled texts ctx ?lim st' \<and> cu_stage (sg_cursor st') \<noteq> Stage_runs)"
    using runs_stage_fulfils [OF assms(1) st(2)] st(2) by simp
  show ?thesis
  proof (cases ?runs)
    case (Inl stop)
    then have "prepareRuns ctx left store = Some (Inl stop)" using st(1) by (simp add: prepareRuns_def)
    then show ?thesis using runs Inl by (auto simp: fulfils_def split: prod.splits)
  next
    case (Inr st1)
    then have s1: "sort_settled texts ctx ?lim st1" "cu_stage (sg_cursor st1) \<noteq> Stage_runs" using runs by auto
    obtain r where r: "(if cu_stage (sg_cursor st1) = Stage_merge then merge_stage ctx st1 else Some (Inr st1)) = Some r"
        "fulfils texts ctx ?lim r (\<lambda>st'. sort_settled texts ctx ?lim st' \<and> cu_stage (sg_cursor st') = Stage_complete)"
    proof (cases "cu_stage (sg_cursor st1)")
      case Stage_merge
      then show ?thesis using that merge_stage_returns [OF assms(1) s1] by auto
    qed (use that s1 in auto)
    have "fulfils texts ctx ?lim (rbind r (\<lambda>st'. Inr (cu_pass (sg_cursor st'), sg_store st'))) ?Q"
      by (rule fulfils_bind [OF r(2)]) (auto simp: sorted_store_def sort_settled_def live_def cursor_ok_def)
    moreover have "prepareRuns ctx left store = Some (rbind r (\<lambda>st'. Inr (cu_pass (sg_cursor st'), sg_store st')))"
      using st(1) Inr r(1) by (simp add: prepareRuns_def)
    ultimately show ?thesis by blast
  qed
qed

subsection \<open>Reading the sorted records\<close>

lemma record_restored:
  assumes "sortable texts ctx" "readable ctx store (record_element ctx v)" "v \<in> snd ` set (sc_source ctx 0)"
  shows "restorePartitionedRecord (sc_quoted ctx) (so_texts store) (snd (record_element ctx v)) = Inr (normalized_texts (sc_nfc ctx) v)"
proof -
  obtain u where u: "u \<in> snd ` set (sc_source ctx 0)" "record_element ctx v = record_element ctx u"
      "\<forall>pt\<in>set (long_texts (sc_nfc ctx) u). covers (so_texts store) (snd pt)"
    using assms(2) by (auto simp: readable_def)
  have fit: "snd ` set (long_texts (sc_nfc ctx) w) \<subseteq> texts" if "w \<in> snd ` set (sc_source ctx 0)" for w
    using assms(1) that unfolding sortable_def records_fit_def by blast
  have "map (\<lambda>(p, t). part_of p t) (long_texts (sc_nfc ctx) v) = map (\<lambda>(p, t). part_of p t) (long_texts (sc_nfc ctx) u)"
    using u(2) by (simp add: record_element_def)
  then have "map tp_sha (map (\<lambda>(p, t). part_of p t) (long_texts (sc_nfc ctx) v)) = map tp_sha (map (\<lambda>(p, t). part_of p t) (long_texts (sc_nfc ctx) u))"
    by (rule arg_cong)
  then have "map sha256Text (map snd (long_texts (sc_nfc ctx) v)) = map sha256Text (map snd (long_texts (sc_nfc ctx) u))"
    by (simp add: part_of_def case_prod_unfold comp_def)
  moreover have "inj_on sha256Text texts" using assms(1) unfolding sortable_def records_fit_def by blast
  then have "inj_on sha256Text (set (map snd (long_texts (sc_nfc ctx) v)) \<union> set (map snd (long_texts (sc_nfc ctx) u)))"
    by (rule inj_on_subset) (use fit [OF assms(3)] fit [OF u(1)] in auto)
  ultimately have "map snd (long_texts (sc_nfc ctx) v) = map snd (long_texts (sc_nfc ctx) u)" using map_inj_on by blast
  then have "snd ` set (long_texts (sc_nfc ctx) v) = snd ` set (long_texts (sc_nfc ctx) u)" by (metis set_map)
  then have "\<forall>pt\<in>set (long_texts (sc_nfc ctx) v). covers (so_texts store) (snd pt)" using u(3) by (metis (no_types, lifting) image_iff)
  moreover have "proper v" using assms(1,3) unfolding sortable_def source_laws_def by blast
  moreover have "\<And>s. s \<noteq> [] \<Longrightarrow> sc_nfc ctx s \<noteq> []" "\<And>s. sc_quoted ctx s \<le> 6 * length s + 2"
    using assms(1) unfolding sortable_def platform_laws_def by blast+
  ultimately show ?thesis unfolding record_element_def snd_conv by (intro restore_envelope)
qed

lemma entries_return:
  assumes "sortable texts ctx" "rows_ok ctx store" "run_written ctx store p 0" "position_at (batches_of ctx p 0) position xs"
  shows "\<exists>out. canonicalEntries ctx store p position = Some (Inr out) \<and> length out = length xs \<and>
    (\<forall>k < length out. canonicalEntries ctx store p (fst (out ! k)) = Some (Inr (drop (Suc k) out))) \<and>
    (\<forall>k < length out. readable ctx store (xs ! k) \<and> restorePartitionedRecord (sc_quoted ctx) (so_texts store) (snd (xs ! k)) = Inr (snd (out ! k)))"
  using assms(4)
proof (induction xs arbitrary: position)
  case Nil
  obtain position' where "readHead ctx store p 0 position = Inr (None, position')"
    using readHead_at [OF assms(1-3) Nil] by fastforce
  then show ?case by (subst canonicalEntries.simps) simp
next
  case (Cons e xs)
  obtain item position' v where h: "readHead ctx store p 0 position = Inr (Some item, position')" "position_ready (batches_of ctx p 0) position' (e # xs)"
      "item_element item = e" "v \<in> snd ` set (sc_source ctx 0)" "item_element item = record_element ctx v" "it_value item = normalized_texts (sc_nfc ctx) v"
      "readable ctx store e"
    using readHead_at [OF assms(1-3) Cons.prems] by fastforce
  let ?next = "position'\<lparr>ps_offset := ps_offset position' + 1\<rparr>"
  obtain out where out: "canonicalEntries ctx store p ?next = Some (Inr out)" "length out = length xs"
      "\<forall>k < length out. canonicalEntries ctx store p (fst (out ! k)) = Some (Inr (drop (Suc k) out))"
      "\<forall>k < length out. readable ctx store (xs ! k) \<and> restorePartitionedRecord (sc_quoted ctx) (so_texts store) (snd (xs ! k)) = Inr (snd (out ! k))"
    using Cons.IH [OF position_advance [OF h(2)]] by blast
  have val: "restorePartitionedRecord (sc_quoted ctx) (so_texts store) (snd e) = Inr (it_value item)"
    using record_restored [OF assms(1) _ h(4)] h(3,5-7) by simp
  have "canonicalEntries ctx store p position = Some (Inr ((?next, it_value item) # out))"
    using h(1) out(1) by (subst canonicalEntries.simps) simp
  moreover have "canonicalEntries ctx store p (fst (((?next, it_value item) # out) ! k)) = Some (Inr (drop (Suc k) ((?next, it_value item) # out)))"
    if "k < Suc (length out)" for k using that out(1,3) by (cases k) auto
  moreover have "readable ctx store ((e # xs) ! k) \<and>
      restorePartitionedRecord (sc_quoted ctx) (so_texts store) (snd ((e # xs) ! k)) = Inr (snd (((?next, it_value item) # out) ! k))"
    if "k < Suc (length out)" for k using that out(4) val h(7) by (cases k) auto
  ultimately show ?case using out(2) by auto
qed

definition in_key_order :: "sort_context \<Rightarrow> js_value list \<Rightarrow> bool" where
  "in_key_order ctx vs \<longleftrightarrow> sorted_wrt (\<lambda>a b. \<exists>j k. canonicalJson (sc_nfc ctx) a = Inr j \<and> canonicalJson (sc_nfc ctx) b = Inr k \<and> sc_compare ctx j k \<le> 0) vs"

lemma entries_in_order:
  assumes "sortable texts ctx" "ordered (by_key ctx) xs" "length out = length xs"
    "\<forall>k < length out. readable ctx store (xs ! k) \<and> restorePartitionedRecord (sc_quoted ctx) (so_texts store) (snd (xs ! k)) = Inr (snd (out ! k))"
  shows "in_key_order ctx (map snd out)"
  unfolding in_key_order_def sorted_wrt_iff_nth_less
proof (intro allI impI)
  fix i j assume ij: "i < j" "j < length (map snd out)"
  have key: "canonicalJson (sc_nfc ctx) (snd (out ! k)) = Inr (fst (xs ! k))" if "k < length out" for k
  proof -
    have "readable ctx store (xs ! k)" "restorePartitionedRecord (sc_quoted ctx) (so_texts store) (snd (xs ! k)) = Inr (snd (out ! k))" using assms(4) that by auto
    then have "record_json (sc_nfc ctx) (snd (out ! k)) = Inr (fst (xs ! k))" using restore_element [OF assms(1)] by fastforce
    then show ?thesis by (cases "canonicalJson (sc_nfc ctx) (snd (out ! k))") (simp_all add: record_json_def)
  qed
  have "sc_compare ctx (fst (xs ! i)) (fst (xs ! j)) \<le> 0"
    using assms(2,3) ij by (simp add: ordered_def sorted_wrt_iff_nth_less by_key_def)
  then show "\<exists>a b. canonicalJson (sc_nfc ctx) (map snd out ! i) = Inr a \<and> canonicalJson (sc_nfc ctx) (map snd out ! j) = Inr b \<and> sc_compare ctx a b \<le> 0"
    using key [of i] key [of j] ij by simp
qed

lemma sorted_store_read:
  assumes "sortable texts ctx" "sorted_store texts ctx p store"
  shows "\<exists>out. canonicalEntries ctx store p \<lparr>ps_batch = 0, ps_offset = 0\<rparr> = Some (Inr out) \<and>
    mset (map snd out) = mset (map (\<lambda>e. normalized_texts (sc_nfc ctx) (snd e)) (sc_source ctx 0)) \<and> in_key_order ctx (map snd out) \<and>
    (\<forall>k < length out. canonicalEntries ctx store p (fst (out ! k)) = Some (Inr (drop (Suc k) out)))"
proof -
  let ?xs = "runs_of ctx p ! 0"
  let ?val = "\<lambda>e. case restorePartitionedRecord (sc_quoted ctx) (so_texts store) (snd e) of Inr v \<Rightarrow> v | Inl _ \<Rightarrow> VNull"
  have one: "length (runs_of ctx p) = 1" "rows_ok ctx store" "run_written ctx store p 0" using assms(2) by (auto simp: sorted_store_def store_ok_def)
  then have runs: "runs_of ctx p = [?xs]" by (cases "runs_of ctx p") auto
  have perm: "mset ?xs = mset (elements ctx)"
    using pass_runs_mset [of "by_key ctx" weight "elements ctx" p] arg_cong [OF runs, of "\<lambda>r. mset (concat r)"] by (simp add: runs_of_def)
  have "collation (sc_compare ctx)" using assms(1) unfolding sortable_def platform_laws_def by blast
  then have "collation (by_key ctx)" unfolding collation_def by_key_def by blast
  then have order: "ordered (by_key ctx) ?xs"
    using pass_runs_ordered [of "by_key ctx" ?xs weight "elements ctx" p] runs by (metis list.set_intros(1) runs_of_def)
  from entries_return [OF assms(1) one(2,3) position_start] obtain out where
    out: "canonicalEntries ctx store p \<lparr>ps_batch = 0, ps_offset = 0\<rparr> = Some (Inr out)" "length out = length ?xs"
      "\<forall>k < length out. canonicalEntries ctx store p (fst (out ! k)) = Some (Inr (drop (Suc k) out))"
      "\<forall>k < length out. readable ctx store (?xs ! k) \<and> restorePartitionedRecord (sc_quoted ctx) (so_texts store) (snd (?xs ! k)) = Inr (snd (out ! k))"
    by blast
  have vals: "map snd out = map ?val ?xs" using out(2,4) by (intro nth_equalityI) auto
  have all: "readable ctx store e" if "e \<in> set (elements ctx)" for e
    using that out(2,4) mset_eq_setD [OF perm] by (metis in_set_conv_nth)
  have "mset (map snd out) = mset (map ?val (elements ctx))" unfolding vals using perm by (metis mset_map)
  also have "map ?val (elements ctx) = map (\<lambda>e. normalized_texts (sc_nfc ctx) (snd e)) (sc_source ctx 0)"
  proof -
    have "?val (record_element ctx (snd e)) = normalized_texts (sc_nfc ctx) (snd e)" if "e \<in> set (sc_source ctx 0)" for e
      using record_restored [OF assms(1) all, of "snd e"] that by (simp add: elements_def entry_elements_def)
    then show ?thesis by (simp add: elements_def entry_elements_def)
  qed
  finally have "mset (map snd out) = mset (map (\<lambda>e. normalized_texts (sc_nfc ctx) (snd e)) (sc_source ctx 0))" .
  moreover have "in_key_order ctx (map snd out)" using entries_in_order [OF assms(1) order out(2,4)] .
  ultimately show ?thesis using out(1,3) by blast
qed

subsection \<open>Any interruptions\<close>

text \<open>Whether an invocation is to yield does not matter to what it may find or leave.\<close>

lemma yield_records [simp]:
  "record_element (ctx\<lparr>sc_yield := y\<rparr>) = record_element ctx" "by_key (ctx\<lparr>sc_yield := y\<rparr>) = by_key ctx" "batch_text (ctx\<lparr>sc_yield := y\<rparr>) = batch_text ctx"
  "platform_laws (ctx\<lparr>sc_yield := y\<rparr>) = platform_laws ctx" "source_laws (ctx\<lparr>sc_yield := y\<rparr>) = source_laws ctx"
  by (simp_all add: fun_eq_iff record_element_def by_key_def batch_text_def platform_laws_def source_laws_def)

lemma yield_elements [simp]:
  "entry_elements (ctx\<lparr>sc_yield := y\<rparr>) = entry_elements ctx" "elements (ctx\<lparr>sc_yield := y\<rparr>) = elements ctx" "row_of (ctx\<lparr>sc_yield := y\<rparr>) = row_of ctx"
  "readable (ctx\<lparr>sc_yield := y\<rparr>) = readable ctx"
  by (simp_all add: fun_eq_iff entry_elements_def elements_def row_of_def readable_def)

lemma yield_runs [simp]:
  "runs_of (ctx\<lparr>sc_yield := y\<rparr>) = runs_of ctx" "batches_of (ctx\<lparr>sc_yield := y\<rparr>) = batches_of ctx"
  "source_batches (ctx\<lparr>sc_yield := y\<rparr>) = source_batches ctx" "records_fit texts (ctx\<lparr>sc_yield := y\<rparr>) = records_fit texts ctx"
  by (simp_all add: fun_eq_iff runs_of_def batches_of_def source_batches_def records_fit_def)

lemma yield_places [simp]:
  "place_batch (ctx\<lparr>sc_yield := y\<rparr>) = place_batch ctx" "run_written (ctx\<lparr>sc_yield := y\<rparr>) = run_written ctx"
  "group_runs (ctx\<lparr>sc_yield := y\<rparr>) = group_runs ctx" "positions_at (ctx\<lparr>sc_yield := y\<rparr>) = positions_at ctx"
  "sortable texts (ctx\<lparr>sc_yield := y\<rparr>) = sortable texts ctx"
  by (simp_all add: fun_eq_iff run_written_def group_runs_def positions_at_def sortable_def)

lemma yield_cursors [simp]:
  "rows_ok (ctx\<lparr>sc_yield := y\<rparr>) = rows_ok ctx" "group_output (ctx\<lparr>sc_yield := y\<rparr>) = group_output ctx"
  "runs_cursor (ctx\<lparr>sc_yield := y\<rparr>) = runs_cursor ctx" "passes_cursor (ctx\<lparr>sc_yield := y\<rparr>) = passes_cursor ctx"
  by (simp_all add: fun_eq_iff rows_ok_def group_output_def runs_cursor_def passes_cursor_def)

lemma yield_store [simp]: "store_ok texts (ctx\<lparr>sc_yield := y\<rparr>) = store_ok texts ctx"
proof -
  have "group_cursor (ctx\<lparr>sc_yield := y\<rparr>) = group_cursor ctx" by (simp add: fun_eq_iff group_cursor_def)
  then have "cursor_ok (ctx\<lparr>sc_yield := y\<rparr>) = cursor_ok ctx" by (simp add: fun_eq_iff cursor_ok_def split: sort_stage.split)
  then show ?thesis by (simp add: fun_eq_iff store_ok_def)
qed

fun left_store :: "(nat \<times> sort_store) sort_outcome \<Rightarrow> sort_store" where
  "left_store (Inl (stop, store)) = store"
| "left_store (Inr (pass, store)) = store"

text \<open>
  The stores any sequence of invocations can leave: each with or without yielding, cut off before any
  write or not at all, and with texts of the same preparation written in between (also by an
  invocation that was cut off in the middle of retaining a record).
\<close>

inductive sort_reach :: "js_string set \<Rightarrow> sort_context \<Rightarrow> sort_store \<Rightarrow> bool" for texts ctx where
  reach_start: "table_within texts table \<Longrightarrow> sort_reach texts ctx \<lparr>so_texts = table, so_batches = [], so_checkpoints = []\<rparr>"
| reach_invoke: "sort_reach texts ctx store \<Longrightarrow> prepareRuns (ctx\<lparr>sc_yield := y\<rparr>) left store = Some r \<Longrightarrow> sort_reach texts ctx (left_store r)"
| reach_texts: "sort_reach texts ctx store \<Longrightarrow> so_texts store \<subseteq>\<^sub>m table \<Longrightarrow> table_within texts table \<Longrightarrow>
    sort_reach texts ctx (store\<lparr>so_texts := table\<rparr>)"

lemma reach_ok:
  assumes "sortable texts ctx" "sort_reach texts ctx store"
  shows "store_ok texts ctx store"
  using assms(2)
proof (induction rule: sort_reach.induct)
  case (reach_start table)
  then show ?case by (simp add: store_ok_def rows_ok_def)
next
  case (reach_invoke store y left r)
  have "sortable texts (ctx\<lparr>sc_yield := y\<rparr>)" "store_ok texts (ctx\<lparr>sc_yield := y\<rparr>) store" using assms(1) reach_invoke.IH by simp_all
  from prepareRuns_returns [OF this, of left] have "fulfils texts (ctx\<lparr>sc_yield := y\<rparr>) (left \<noteq> None) r (\<lambda>(pass, store'). sorted_store texts (ctx\<lparr>sc_yield := y\<rparr>) pass store')"
    using reach_invoke.hyps(2) by simp
  then show ?case by (cases r) (auto simp: fulfils_def sorted_store_def)
next
  case (reach_texts store table)
  then show ?case by (intro texts_store_ok)
qed

lemma invocation_returns:
  assumes "sortable texts ctx" "store_ok texts ctx store"
  shows "\<exists>r. prepareRuns ctx left store = Some r \<and>
    (case r of Inl (Failed e, s) \<Rightarrow> False | Inl (Interrupted, s) \<Rightarrow> left \<noteq> None | Inl (Continuation n, s) \<Rightarrow> sc_yield ctx | Inr _ \<Rightarrow> True)"
proof -
  obtain r where r: "prepareRuns ctx left store = Some r" "fulfils texts ctx (left \<noteq> None) r (\<lambda>(pass, store'). sorted_store texts ctx pass store')"
    using prepareRuns_returns [OF assms] by blast
  show ?thesis
  proof (cases r)
    case (Inl x)
    then obtain stop s where "r = Inl (stop, s)" by (cases x) auto
    then show ?thesis using r by (cases stop) (auto simp: fulfils_def)
  qed (use r in auto)
qed

text \<open>
  C15. The external sort is correct under interruption. Given the documented laws of the platform and of
  the source, and records within the capacities the code enforces, take any store that earlier
  invocations may have left, each cut off before any of its writes or ended at a checkpoint. An
  invocation on it always returns, and it stops only for being cut off or for yielding, never with an
  error: no replay differs, no integrity check fails. If it is neither cut off nor to yield, it ends with
  a final pass that reads as exactly the records of the source, their long texts normalised, in the
  order of their canonical JSON; and reading may be resumed behind any record.
\<close>

theorem external_sort_survives_interruption:
  assumes "sortable texts ctx" "sort_reach texts ctx store"
  shows "(\<forall>y left. \<exists>r. prepareRuns (ctx\<lparr>sc_yield := y\<rparr>) left store = Some r \<and>
      (case r of Inl (Failed e, s) \<Rightarrow> False | Inl (Interrupted, s) \<Rightarrow> left \<noteq> None | Inl (Continuation n, s) \<Rightarrow> y | Inr _ \<Rightarrow> True)) \<and>
    (\<exists>pass store' out. prepareRuns (ctx\<lparr>sc_yield := False\<rparr>) None store = Some (Inr (pass, store')) \<and>
      canonicalEntries (ctx\<lparr>sc_yield := False\<rparr>) store' pass \<lparr>ps_batch = 0, ps_offset = 0\<rparr> = Some (Inr out) \<and>
      mset (map snd out) = mset (map (\<lambda>e. normalized_texts (sc_nfc ctx) (snd e)) (sc_source ctx 0)) \<and> in_key_order ctx (map snd out) \<and>
      (\<forall>k < length out. canonicalEntries (ctx\<lparr>sc_yield := False\<rparr>) store' pass (fst (out ! k)) = Some (Inr (drop (Suc k) out))))"
proof (intro conjI allI)
  have ok: "sortable texts (ctx\<lparr>sc_yield := y\<rparr>)" "store_ok texts (ctx\<lparr>sc_yield := y\<rparr>) store" for y
    using assms(1) reach_ok [OF assms] by simp_all
  fix y left
  have y: "sc_yield (ctx\<lparr>sc_yield := y\<rparr>) = y" by simp
  show "\<exists>r. prepareRuns (ctx\<lparr>sc_yield := y\<rparr>) left store = Some r \<and>
      (case r of Inl (Failed e, s) \<Rightarrow> False | Inl (Interrupted, s) \<Rightarrow> left \<noteq> None | Inl (Continuation n, s) \<Rightarrow> y | Inr _ \<Rightarrow> True)"
    using invocation_returns [OF ok, of y left] unfolding y .
  let ?ctx = "ctx\<lparr>sc_yield := False\<rparr>"
  obtain r where "prepareRuns ?ctx None store = Some r" "fulfils texts ?ctx (None \<noteq> (None :: nat option)) r (\<lambda>(pass, store'). sorted_store texts ?ctx pass store')"
    using prepareRuns_returns [OF ok] by blast
  then obtain pass store' where p: "prepareRuns ?ctx None store = Some (Inr (pass, store'))" "sorted_store texts ?ctx pass store'"
    by (cases r) (auto simp: fulfils_def)
  then show "\<exists>pass store' out. prepareRuns ?ctx None store = Some (Inr (pass, store')) \<and>
      canonicalEntries ?ctx store' pass \<lparr>ps_batch = 0, ps_offset = 0\<rparr> = Some (Inr out) \<and>
      mset (map snd out) = mset (map (\<lambda>e. normalized_texts (sc_nfc ctx) (snd e)) (sc_source ctx 0)) \<and> in_key_order ctx (map snd out) \<and>
      (\<forall>k < length out. canonicalEntries ?ctx store' pass (fst (out ! k)) = Some (Inr (drop (Suc k) out)))"
    using sorted_store_read [OF ok(1) p(2)] by (simp add: in_key_order_def)
qed

subsection \<open>An instance\<close>

lemma compare_collation: "collation (compareUtf8 (\<lambda>s. s))"
proof -
  let ?b = "\<lambda>s. map uint (utf8 s)"
  have sign: "sgn (compareUtf8 (\<lambda>s. s) a b) = bytes_sign (utf8 a) (utf8 b)" for a b using compare_sign [of "\<lambda>s. s"] by simp
  have less: "compareUtf8 (\<lambda>s. s) a b < 0 \<longleftrightarrow> ?b a < ?b b" for a b
    using sign [of a b] by (auto simp: bytes_sign_def sgn_if split: if_splits)
  have greater: "compareUtf8 (\<lambda>s. s) a b > 0 \<longleftrightarrow> ?b b < ?b a" for a b
    using sign [of a b] by (auto simp: bytes_sign_def sgn_if split: if_splits)
  have le: "compareUtf8 (\<lambda>s. s) a b \<le> 0 \<longleftrightarrow> ?b a \<le> ?b b" for a b using greater [of a b] by (metis not_le)
  show ?thesis unfolding collation_def le less greater by (auto intro: order_trans)
qed

definition sample_context :: sort_context where
  "sample_context = \<lparr>sc_nfc = (\<lambda>s. s), sc_quoted = (\<lambda>s. 6 * length s + 2), sc_compare = compareUtf8 (\<lambda>s. s), sc_version = 2,
     sc_source = (\<lambda>after. filter (\<lambda>e. after < fst e) [(1, VInt 5), (2, VInt 3)]), sc_yield = True\<rparr>"

lemma sample_sortable: "sortable {} sample_context"
proof -
  have int: "json_within (\<lambda>s. s) 19 (VInt (int n))" if "n < 10 ^ 19" for n using json_within_int [OF that] .
  have key: "\<exists>k. canonicalJson (\<lambda>s. s) (VInt (int n)) = Inr k \<and> byte_length k \<le> 2097152" if n: "n < 10 ^ 19" for n
  proof -
    obtain t where "canonicalJsonAt (\<lambda>s. s) [] (VInt (int n)) = Inr t" "length t \<le> 19" using int [OF n] unfolding json_within_def by blast
    then show ?thesis using byte_length_bounds [of t] by (simp add: canonicalJson_def)
  qed
  have len: "length (ascii s) = length s" for s by (simp add: ascii_def)
  have envelope: "json_within (\<lambda>s. s) 1000 (envelope_value \<lparr>re_value = VInt (int n), re_parts = []\<rparr>)" if "n < 10 ^ 19" for n
  proof -
    have "json_within (\<lambda>s. s) 194 (VText (ascii ''card-keepr-partitioned-record@1''))"
      by (rule json_within_mono [OF json_within_text [where n = 32]]) (simp_all add: len)
    moreover have "json_within (\<lambda>s. s) 194 (VArray [])" by (rule json_within_mono [OF json_within_array [where n = 0]]) simp_all
    moreover have "json_within (\<lambda>s. s) 194 (VInt (int n))" using int [OF that] by (rule json_within_mono) simp
    ultimately have "json_within (\<lambda>s. s) (3 * (194 + 6 * 10 + 4) + 2) (envelope_value \<lparr>re_value = VInt (int n), re_parts = []\<rparr>)"
      unfolding envelope_value_def by (intro json_within_mono [OF json_within_object [where n = 194 and m = 10]]) (auto simp: len)
    then show ?thesis by (rule json_within_mono) simp
  qed
  let ?ctx = sample_context
  have source: "sc_source ?ctx 0 = [(1, VInt 5), (2, VInt 3)]" by (simp add: sample_context_def)
  have "snd e \<in> {\<lparr>re_value = VInt (int 5), re_parts = []\<rparr>, \<lparr>re_value = VInt (int 3), re_parts = []\<rparr>}" if "e \<in> set (elements ?ctx)" for e
    using that by (auto simp: elements_def entry_elements_def source record_element_def sample_context_def)
  then have small: "json_within (\<lambda>s. s) 1000 (envelope_value (snd e))" if "e \<in> set (elements ?ctx)" for e
    using that envelope [of 5] envelope [of 3] by fastforce
  have "\<exists>t. batch_text ?ctx es = Inr t \<and> byte_length t \<le> 524288" if es: "set es \<subseteq> set (elements ?ctx)" "batch_sized weight es" for es
  proof -
    have "json_within (\<lambda>s. s) (length (map (\<lambda>e. envelope_value (snd e)) es) * (1000 + 1) + 2) (VArray (map (\<lambda>e. envelope_value (snd e)) es))"
      by (rule json_within_array) (use small es(1) in auto)
    then have "json_within (\<lambda>s. s) 8010 (VArray (map (\<lambda>e. envelope_value (snd e)) es))"
      by (rule json_within_mono) (use es(2) in \<open>simp add: batch_sized_def\<close>)
    then obtain t where "canonicalJsonAt (\<lambda>s. s) [] (VArray (map (\<lambda>e. envelope_value (snd e)) es)) = Inr t" "length t \<le> 8010" unfolding json_within_def by blast
    then show ?thesis using byte_length_bounds [of t] by (simp add: batch_text_def canonicalJson_def sample_context_def)
  qed
  then have "records_fit {} ?ctx" unfolding records_fit_def source using key [of 5] key [of 3] by (simp add: sample_context_def)
  moreover have "platform_laws ?ctx" by (simp add: platform_laws_def sample_context_def compare_collation)
  moreover have "source_laws ?ctx" by (simp add: source_laws_def sample_context_def)
  ultimately show ?thesis by (simp add: sortable_def)
qed

theorem external_sort_survives_interruption_witness:
  "\<exists>pass store' out. prepareRuns (sample_context\<lparr>sc_yield := False\<rparr>) None \<lparr>so_texts = Map.empty, so_batches = [], so_checkpoints = []\<rparr> = Some (Inr (pass, store')) \<and>
    canonicalEntries (sample_context\<lparr>sc_yield := False\<rparr>) store' pass \<lparr>ps_batch = 0, ps_offset = 0\<rparr> = Some (Inr out) \<and>
    mset (map snd out) = {#VInt 3, VInt 5#} \<and> in_key_order sample_context (map snd out)"
proof -
  have "sort_reach {} sample_context \<lparr>so_texts = Map.empty, so_batches = [], so_checkpoints = []\<rparr>"
    by (rule reach_start) (simp add: table_within_def)
  from external_sort_survives_interruption [OF sample_sortable this] show ?thesis by (fastforce simp: sample_context_def)
qed

end
