(* ===== verification/Reducer_State.thy ===== *)
theory Reducer_State
  imports Partitioned_Text "HOL-Library.List_Lexorder" "HOL-Library.Char_ord"
begin

text \<open>
  The observation index of the reducers, \<open>src/src/catalogue/reconciliation/reconciliation-reducer-state.ts\<close>
  with \<open>reconciliation-reducer-state-repository.ts\<close>: a map from keys to values kept as immutable rows,
  one for each key an observation writes, so that a replayed observation reads what its predecessors
  left although rows of later observations are there already.

  The rows are those of one preparation. There is one index object for each namespace, and the state holds
  them by namespace; what a constructor gets once and for all is in the context. A row, and the last write
  an index caches, keep beside the canonical text the envelope it was written from; for values in
  canonical form that is what parsing the text gives. Values may hold undefined properties, which
  \<open>JSON.stringify\<close> drops; a number is not NaN and not infinite. Every call of the database may fail:
  \<open>rx_left\<close> counts the calls that still succeed, if any is going to fail. A failing operation leaves the
  store behind and nothing else. Retention of the long texts of one value counts as one call.
\<close>

subsection \<open>Rows and statements\<close>

record reducer_row =
  rr_envelope :: RecordEnvelope
  rr_content :: js_string
  rr_sha :: string
  rr_group :: "string option"

type_synonym place = "string \<times> string \<times> nat"     \<comment> \<open>namespace, digest of the key, ordinal of the observation\<close>

record reducer_store =
  rs_texts :: text_table
  rs_rows :: "(place \<times> reducer_row) list"

datatype reducer_error =
    Reducer_storage         \<comment> \<open>ReconciliationReducerStorageError\<close>
  | Text_storage            \<comment> \<open>ReconciliationTextStorageError\<close>
  | Invalid_position        \<comment> \<open>Invalid reducer continuation position.\<close>
  | State_integrity         \<comment> \<open>Reducer state failed integrity verification.\<close>
  | Replay_effect           \<comment> \<open>Reducer replay changed its immutable observation effect.\<close>
  | Fact_capacity           \<comment> \<open>one reducer fact exceeds 512 KiB\<close>
  | Match_capacity          \<comment> \<open>one identity match has too many candidates\<close>
  | Window_size             \<comment> \<open>Reducer lookup window exceeds 16 keys.\<close>
  | Window_incomplete       \<comment> \<open>Reducer lookup window is incomplete.\<close>
  | Reads_apart             \<comment> \<open>Reducer reads require the same catalogue store.\<close>
  | Writes_apart            \<comment> \<open>Reducer writes require the same catalogue store.\<close>
  | Invalid_seed            \<comment> \<open>Invalid paired reducer seed batch.\<close>
  | Seed_capacity           \<comment> \<open>Paired reducer seed batch exceeds 256 KiB.\<close>
  | Not_json                \<comment> \<open>a SyntaxError or TypeError\<close>
  | Fact_text text_error
  | Fact_json serial_error
  | Unfinished              \<comment> \<open>no error of the code: the bound on an iteration was too small\<close>

definition reducerState :: "reducer_store \<Rightarrow> string \<Rightarrow> string \<Rightarrow> nat \<Rightarrow> reducer_row option" where
  "reducerState store namespace digest before =
     (let ordinals = map (\<lambda>((n, d, o'), r). o') (filter (\<lambda>((n, d, o'), r). n = namespace \<and> d = digest \<and> o' < before) (rs_rows store))
      in if ordinals = [] then None else map_of (rs_rows store) (namespace, digest, Max (set ordinals)))"

text \<open>A row that is there stays; the table has a check that the ordinal is positive.\<close>

definition retainReducerState ::
  "place \<Rightarrow> reducer_row \<Rightarrow> reducer_store \<Rightarrow> reducer_error + (js_string \<times> string) option \<times> reducer_store" where
  "retainReducerState place row store =
     (if snd (snd place) = 0 then Inl Reducer_storage
      else if map_of (rs_rows store) place = None
      then Inr (Some (rr_content row, rr_sha row), store\<lparr>rs_rows := rs_rows store @ [(place, row)]\<rparr>)
      else Inr (None, store))"

definition exactReducerState :: "reducer_store \<Rightarrow> place \<Rightarrow> (js_string \<times> string) option" where
  "exactReducerState store place = map_option (\<lambda>r. (rr_content r, rr_sha r)) (map_of (rs_rows store) place)"

definition matchingReducerState :: "reducer_store \<Rightarrow> place \<Rightarrow> js_string \<Rightarrow> string \<Rightarrow> (js_string \<times> string) option" where
  "matchingReducerState store place content sha =
     (if exactReducerState store place = Some (content, sha) then Some (content, sha) else None)"

text \<open>The rows with an ordinal below a bound that no row of the same key below the bound comes after.\<close>

definition visible_rows :: "reducer_store \<Rightarrow> string \<Rightarrow> nat \<Rightarrow> (string \<times> reducer_row) list" where
  "visible_rows store namespace before = map (\<lambda>((n, d, o'), r). (d, r))
     (filter (\<lambda>((n, d, o'), r). n = namespace \<and> o' < before \<and>
        \<not> list_ex (\<lambda>((n', d', o''), r'). n' = n \<and> d' = d \<and> o'' > o' \<and> o'' < before) (rs_rows store)) (rs_rows store))"

text \<open>
  \<open>sum(\<dots>) OVER (ORDER BY key)\<close> adds up the rows whose key is not greater; a page has at most sixteen rows
  with keys after the cursor, in order, whose sums stay within the limit.
\<close>

definition running_bytes :: "('r \<Rightarrow> 'k::linorder) \<Rightarrow> ('r \<Rightarrow> nat) \<Rightarrow> 'r list \<Rightarrow> 'r \<Rightarrow> nat" where
  "running_bytes key bytes rows r = sum_list (map bytes (filter (\<lambda>r'. key r' \<le> key r) rows))"

definition bounded_page :: "('r \<Rightarrow> 'k::linorder) \<Rightarrow> ('r \<Rightarrow> nat) \<Rightarrow> 'k \<Rightarrow> 'r list \<Rightarrow> 'r list" where
  "bounded_page key bytes after rows =
     (let page = take 16 (sort_key key (filter (\<lambda>r. after < key r) rows))
      in filter (\<lambda>r. running_bytes key bytes page r \<le> 524288) page)"

definition row_bytes :: "reducer_row \<Rightarrow> nat" where
  "row_bytes r = byte_length (rr_content r)"

definition nextReducerGroupState :: "string \<Rightarrow> string \<Rightarrow> nat \<Rightarrow> string \<Rightarrow> reducer_store \<Rightarrow> (string \<times> reducer_row) list" where
  "nextReducerGroupState namespace wanted before after store = bounded_page fst (row_bytes \<circ> snd) after
     (filter (\<lambda>(d, r). rr_group r = Some wanted) (visible_rows store namespace before))"

definition nextLatestReducerState :: "string \<Rightarrow> nat \<Rightarrow> string \<Rightarrow> reducer_store \<Rightarrow> (string \<times> reducer_row) list" where
  "nextLatestReducerState namespace through after store = bounded_page fst (row_bytes \<circ> snd) after
     (visible_rows store namespace (Suc through))"

text \<open>\<open>json_extract(content, '$.value.id')\<close>, of entities whose id is a text; SQLite compares texts by their UTF-8 bytes.\<close>

definition entity_id :: "js_value \<Rightarrow> js_string option" where
  "entity_id v = (case v of
     VObject ps \<Rightarrow> (case map_of ps (ascii ''id'') of Some (VText s) \<Rightarrow> Some s | _ \<Rightarrow> None)
   | _ \<Rightarrow> None)"

definition nextReducerEntityState :: "string \<Rightarrow> nat \<Rightarrow> js_string \<Rightarrow> reducer_store \<Rightarrow> (js_string \<times> reducer_row) list" where
  "nextReducerEntityState namespace ordinal after store = bounded_page (utf8 \<circ> fst) (row_bytes \<circ> snd) (utf8 after)
     (List.map_filter (\<lambda>(d, r). map_option (\<lambda>i. (i, r)) (entity_id (re_value (rr_envelope r)))) (visible_rows store namespace (Suc ordinal)))"

definition first_ordinal :: "reducer_store \<Rightarrow> string \<Rightarrow> string \<Rightarrow> nat" where
  "first_ordinal store namespace digest =
     Min (set (map (\<lambda>((n, d, o'), r). o') (filter (\<lambda>((n, d, o'), r). n = namespace \<and> d = digest) (rs_rows store))))"

definition nextReducerInsertionState :: "string \<Rightarrow> nat \<Rightarrow> nat \<Rightarrow> reducer_store \<Rightarrow> (nat \<times> reducer_row) list" where
  "nextReducerInsertionState namespace through after store = bounded_page fst (row_bytes \<circ> snd) after
     (map (\<lambda>(d, r). (first_ordinal store namespace d, r)) (visible_rows store namespace (Suc through)))"

text \<open>Requests are numbered; a missing row counts no bytes.\<close>

definition reducerStateLookupPage ::
  "string \<Rightarrow> (string \<times> nat) list \<Rightarrow> reducer_store \<Rightarrow> (nat \<times> reducer_row option) list" where
  "reducerStateLookupPage namespace requests store =
     (let rows = map (\<lambda>(i, digest, before). (i, reducerState store namespace digest before)) (enumerate 0 requests)
      in filter (\<lambda>r. running_bytes fst (\<lambda>(i, r). case r of None \<Rightarrow> 0 | Some r \<Rightarrow> row_bytes r) rows r \<le> 131072) rows)"

subsection \<open>Indices\<close>

record reducer_context =
  rc_nfc :: "js_string \<Rightarrow> js_string"
  rc_quoted :: "js_string \<Rightarrow> nat"
  rc_group :: "string \<Rightarrow> (js_value \<Rightarrow> js_string) option"
  rc_database :: "string \<Rightarrow> nat"

record reducer_index =
  ix_ordinal :: nat
  ix_completed :: bool
  ix_written :: "string set"
  ix_last :: "(string \<times> js_string \<times> RecordEnvelope) option"

record reducer_state =
  rx_indices :: "string \<Rightarrow> reducer_index"
  rx_store :: reducer_store
  rx_left :: "nat option"

type_synonym 'a reducer_outcome = "(reducer_error \<times> reducer_store) + 'a \<times> reducer_state"

definition new_index :: reducer_index where
  "new_index = \<lparr>ix_ordinal = 0, ix_completed = False, ix_written = {}, ix_last = None\<rparr>"

definition new_reducers :: "nat option \<Rightarrow> reducer_store \<Rightarrow> reducer_state" where
  "new_reducers left store = \<lparr>rx_indices = (\<lambda>_. new_index), rx_store = store, rx_left = left\<rparr>"

definition with_index :: "string \<Rightarrow> (reducer_index \<Rightarrow> reducer_index) \<Rightarrow> reducer_state \<Rightarrow> reducer_state" where
  "with_index namespace f st = st\<lparr>rx_indices := (rx_indices st)(namespace := f (rx_indices st namespace))\<rparr>"

definition reducer_storage ::
  "(reducer_store \<Rightarrow> reducer_error + 'a \<times> reducer_store) \<Rightarrow> reducer_state \<Rightarrow> 'a reducer_outcome" where
  "reducer_storage operation st =
     (if rx_left st = Some 0 then Inl (Reducer_storage, rx_store st)
      else case operation (rx_store st) of
          Inl e \<Rightarrow> Inl (e, rx_store st)
        | Inr (x, store) \<Rightarrow> Inr (x, st\<lparr>rx_store := store, rx_left := map_option (\<lambda>n. n - 1) (rx_left st)\<rparr>))"

definition reducer_query :: "(reducer_store \<Rightarrow> 'a) \<Rightarrow> reducer_state \<Rightarrow> 'a reducer_outcome" where
  "reducer_query f = reducer_storage (\<lambda>store. Inr (f store, store))"

definition or_stop :: "reducer_state \<Rightarrow> reducer_error + 'a \<Rightarrow> 'a reducer_outcome" where
  "or_stop st r = (case r of Inl e \<Rightarrow> Inl (e, rx_store st) | Inr x \<Rightarrow> Inr (x, st))"

definition resumeAt :: "string \<Rightarrow> int \<Rightarrow> reducer_state \<Rightarrow> unit reducer_outcome" where
  "resumeAt namespace position st =
     (if position < 0 \<or> position > 9007199254740991 then Inl (Invalid_position, rx_store st)
      else Inr ((), with_index namespace
        (\<lambda>ix. \<lparr>ix_ordinal = nat position, ix_completed = True, ix_written = {}, ix_last = None\<rparr>) st))"

definition beginObservation :: "string \<Rightarrow> reducer_state \<Rightarrow> reducer_state" where
  "beginObservation namespace = with_index namespace
     (\<lambda>ix. \<lparr>ix_ordinal = ix_ordinal ix + 1, ix_completed = False, ix_written = {}, ix_last = None\<rparr>)"

subsection \<open>Reading\<close>

definition read_before :: "reducer_index \<Rightarrow> string \<Rightarrow> nat" where
  "read_before ix digest = ix_ordinal ix + (if ix_completed ix \<or> digest \<in> ix_written ix then 1 else 0)"

datatype read_request = Nothing_retained | Cached js_value | Statement string nat

definition readRequest :: "reducer_index \<Rightarrow> js_string \<Rightarrow> read_request" where
  "readRequest ix key =
     (if ix_ordinal ix = 0 then Nothing_retained
      else let digest = sha256Text key
           in case ix_last ix of
                Some (d, content, envelope) \<Rightarrow>
                  if d = digest then Cached (re_value envelope) else Statement digest (read_before ix digest)
              | None \<Rightarrow> Statement digest (read_before ix digest))"

definition verified_row :: "reducer_context \<Rightarrow> reducer_store \<Rightarrow> reducer_row \<Rightarrow> reducer_error + js_value" where
  "verified_row ctx store r =
     (if sha256Text (rr_content r) \<noteq> rr_sha r then Inl State_integrity
      else with_error Fact_text (restorePartitionedRecord (rc_quoted ctx) (rs_texts store) (rr_envelope r)))"

definition restoreRow :: "reducer_context \<Rightarrow> reducer_row option \<Rightarrow> reducer_state \<Rightarrow> js_value option reducer_outcome" where
  "restoreRow ctx row st = (case row of
     None \<Rightarrow> Inr (None, st)
   | Some r \<Rightarrow> rbind (or_stop st (verified_row ctx (rx_store st) r)) (\<lambda>(v, st'). Inr (Some v, st')))"

definition reducer_get :: "reducer_context \<Rightarrow> string \<Rightarrow> js_string \<Rightarrow> reducer_state \<Rightarrow> js_value option reducer_outcome" where
  "reducer_get ctx namespace key st = (case readRequest (rx_indices st namespace) key of
     Nothing_retained \<Rightarrow> Inr (None, st)
   | Cached v \<Rightarrow> Inr (Some v, st)
   | Statement digest before \<Rightarrow>
       rbind (reducer_query (\<lambda>store. reducerState store namespace digest before) st) (\<lambda>(row, st'). restoreRow ctx row st'))"

definition reducer_has :: "reducer_context \<Rightarrow> string \<Rightarrow> js_string \<Rightarrow> reducer_state \<Rightarrow> bool reducer_outcome" where
  "reducer_has ctx namespace key st = rbind (reducer_get ctx namespace key st) (\<lambda>(v, st'). Inr (v \<noteq> None, st'))"

text \<open>One batch with the statements there are; each side restores its own row.\<close>

definition request_row :: "reducer_store \<Rightarrow> string \<Rightarrow> read_request \<Rightarrow> reducer_row option" where
  "request_row store namespace request = (case request of Statement digest before \<Rightarrow> reducerState store namespace digest before | _ \<Rightarrow> None)"

definition request_value :: "reducer_context \<Rightarrow> read_request \<Rightarrow> reducer_row option \<Rightarrow> reducer_state \<Rightarrow> js_value option reducer_outcome" where
  "request_value ctx request row st = (case request of
     Nothing_retained \<Rightarrow> Inr (None, st)
   | Cached v \<Rightarrow> Inr (Some v, st)
   | Statement digest before \<Rightarrow> restoreRow ctx row st)"

definition getAlongside ::
  "reducer_context \<Rightarrow> string \<Rightarrow> js_string \<Rightarrow> string \<Rightarrow> js_string \<Rightarrow> reducer_state \<Rightarrow> (js_value option \<times> js_value option) reducer_outcome" where
  "getAlongside ctx namespace key other other_key st =
     (if rc_database ctx namespace \<noteq> rc_database ctx other then Inl (Reads_apart, rx_store st)
      else let left = readRequest (rx_indices st namespace) key; right = readRequest (rx_indices st other) other_key;
               reads = (\<lambda>store. (request_row store namespace left, request_row store other right));
               batched = (\<lambda>request. case request of Statement digest before \<Rightarrow> True | _ \<Rightarrow> False)
      in rbind (if batched left \<or> batched right then reducer_query reads st else Inr ((None, None), st)) (\<lambda>((row, other_row), st1).
         rbind (request_value ctx left row st1) (\<lambda>(v, st2).
         rbind (request_value ctx right other_row st2) (\<lambda>(w, st3). Inr ((v, w), st3)))))"

fun window_values :: "reducer_context \<Rightarrow> nat \<Rightarrow> js_string list \<Rightarrow> (nat \<times> reducer_row option) list \<Rightarrow> reducer_state \<Rightarrow>
    (js_string \<times> js_value option) list reducer_outcome" where
  "window_values ctx i (key # keys) ((request, row) # rows) st =
     (if request \<noteq> i then Inl (Window_incomplete, rx_store st)
      else rbind (restoreRow ctx row st) (\<lambda>(v, st1).
           rbind (window_values ctx (i + 1) keys rows st1) (\<lambda>(vs, st2). Inr ((key, v) # vs, st2))))"
| "window_values ctx i keys rows st = Inr ([], st)"

definition getMany ::
  "reducer_context \<Rightarrow> string \<Rightarrow> js_string list \<Rightarrow> reducer_state \<Rightarrow> (js_string \<times> js_value option) list option reducer_outcome" where
  "getMany ctx namespace keys st =
     (let unique = rev (remdups (rev keys)); ix = rx_indices st namespace
      in if length unique > 16 then Inl (Window_size, rx_store st)
         else if ix_ordinal ix = 0 \<or> unique = [] then Inr (Some (map (\<lambda>key. (key, None)) unique), st)
         else let requests = map (\<lambda>key. (sha256Text key, read_before ix (sha256Text key))) unique
              in rbind (reducer_query (reducerStateLookupPage namespace requests) st) (\<lambda>(page, st1).
                 if length page \<noteq> length unique then Inr (None, st1)
                 else rbind (window_values ctx 0 unique page st1) (\<lambda>(vs, st2). Inr (Some vs, st2))))"

text \<open>A null entity is a deleted draft; a missing one is undefined, which is not null.\<close>

definition entity_retained :: "js_value \<Rightarrow> bool" where
  "entity_retained v = (case v of VObject ps \<Rightarrow> map_of ps (ascii ''entity'') \<noteq> Some VNull | _ \<Rightarrow> True)"

definition hasEntity :: "string \<Rightarrow> js_string \<Rightarrow> reducer_state \<Rightarrow> bool option reducer_outcome" where
  "hasEntity namespace key st =
     (if ix_ordinal (rx_indices st namespace) = 0 then Inr (None, st)
      else let digest = sha256Text key
           in rbind (reducer_query (\<lambda>store. reducerState store namespace digest (read_before (rx_indices st namespace) digest)) st) (\<lambda>(row, st').
              case row of
                None \<Rightarrow> Inr (None, st')
              | Some r \<Rightarrow>
                  if sha256Text (rr_content r) \<noteq> rr_sha r then Inl (State_integrity, rx_store st')
                  else if re_value (rr_envelope r) = VNull then Inl (Not_json, rx_store st')
                  else Inr (Some (entity_retained (re_value (rr_envelope r))), st')))"

subsection \<open>Writing\<close>

text \<open>\<open>JSON.parse(JSON.stringify(value))\<close>: undefined properties go, undefined items become null.\<close>

function json_clone :: "js_value \<Rightarrow> js_value" where
  "json_clone (VArray xs) = VArray (map (\<lambda>x. if x = VOther then VNull else json_clone x) xs)"
| "json_clone (VObject ps) = VObject (map (\<lambda>(key, x). (key, json_clone x)) (filter (\<lambda>(key, x). x \<noteq> VOther) ps))"
| "json_clone VNull = VNull"
| "json_clone (VBool b) = VBool b"
| "json_clone (VInt n) = VInt n"
| "json_clone VFraction = VFraction"
| "json_clone (VText s) = VText s"
| "json_clone VOther = VOther"
  by pat_completeness auto
termination
proof (relation "measure size", goal_cases)
  case (2 xs x)
  then show ?case by (induction xs) auto
next
  case (3 ps z key x)
  then have "(key, x) \<in> set ps" by auto
  then show ?case by (induction ps) auto
qed simp

record prepared_write =
  pw_namespace :: string
  pw_digest :: string
  pw_ordinal :: nat
  pw_row :: reducer_row

definition pw_place :: "prepared_write \<Rightarrow> place" where
  "pw_place w = (pw_namespace w, pw_digest w, pw_ordinal w)"

definition pw_bytes :: "prepared_write \<Rightarrow> nat" where
  "pw_bytes w = row_bytes (pw_row w)"

text \<open>The database is called for a value only if it has a long text.\<close>

definition retain_texts :: "reducer_context \<Rightarrow> js_value \<Rightarrow> reducer_state \<Rightarrow> RecordEnvelope reducer_outcome" where
  "retain_texts ctx v st = (case retainPartitionedRecord (rc_nfc ctx) v (rs_texts (rx_store st)) of
     Inl e \<Rightarrow> Inl (Fact_text e, rx_store st)
   | Inr (envelope, texts) \<Rightarrow>
       if re_parts envelope = [] then Inr (envelope, st)
       else if rx_left st = Some 0 then Inl (Text_storage, rx_store st)
       else Inr (envelope, st\<lparr>rx_store := (rx_store st)\<lparr>rs_texts := texts\<rparr>, rx_left := map_option (\<lambda>n. n - 1) (rx_left st)\<rparr>))"

definition prepareWrite :: "reducer_context \<Rightarrow> string \<Rightarrow> js_string \<Rightarrow> js_value \<Rightarrow> reducer_state \<Rightarrow> prepared_write reducer_outcome" where
  "prepareWrite ctx namespace key v st =
     (if v = VOther then Inl (Not_json, rx_store st)
      else rbind (retain_texts ctx (json_clone v) st) (\<lambda>(envelope, st1).
           rbind (or_stop st1 (with_error Fact_json (canonicalJson (rc_nfc ctx) (envelope_value envelope)))) (\<lambda>(content, st2).
           if byte_length content > 524288 then Inl (Fact_capacity, rx_store st2)
           else Inr (\<lparr>pw_namespace = namespace, pw_digest = sha256Text key, pw_ordinal = ix_ordinal (rx_indices st namespace),
               pw_row = \<lparr>rr_envelope = envelope, rr_content = content, rr_sha = sha256Text content,
                  rr_group = map_option (\<lambda>group. sha256Text (group v)) (rc_group ctx namespace)\<rparr>\<rparr>, st2))))"

definition note_write :: "prepared_write \<Rightarrow> reducer_index \<Rightarrow> reducer_index" where
  "note_write w ix =
     (if ix_ordinal ix = pw_ordinal w
      then ix\<lparr>ix_written := insert (pw_digest w) (ix_written ix),
        ix_last := if re_parts (rr_envelope (pw_row w)) = [] \<and> pw_bytes w \<le> 32768
          then Some (pw_digest w, rr_content (pw_row w), rr_envelope (pw_row w)) else None\<rparr>
      else ix)"

text \<open>What the statement returned is compared; after a conflict the row that is there is read, unless the caller has read it.\<close>

definition accept_write :: "prepared_write \<Rightarrow> (js_string \<times> string) option \<Rightarrow> bool \<Rightarrow> reducer_state \<Rightarrow> unit reducer_outcome" where
  "accept_write w inserted readConflict st =
     rbind (if inserted = None \<and> readConflict then reducer_query (\<lambda>store. exactReducerState store (pw_place w)) st else Inr (inserted, st))
       (\<lambda>(retained, st1).
        if retained \<noteq> Some (rr_content (pw_row w), rr_sha (pw_row w)) then Inl (Replay_effect, rx_store st1)
        else Inr ((), with_index (pw_namespace w) (note_write w) st1))"

definition reducer_set :: "reducer_context \<Rightarrow> string \<Rightarrow> js_string \<Rightarrow> js_value \<Rightarrow> reducer_state \<Rightarrow> unit reducer_outcome" where
  "reducer_set ctx namespace key v st =
     rbind (prepareWrite ctx namespace key v st) (\<lambda>(w, st1).
     rbind (reducer_storage (retainReducerState (pw_place w) (pw_row w)) st1) (\<lambda>(inserted, st2).
     accept_write w inserted True st2))"

definition seed :: "reducer_context \<Rightarrow> string \<Rightarrow> js_string \<Rightarrow> js_value \<Rightarrow> reducer_state \<Rightarrow> unit reducer_outcome" where
  "seed ctx namespace key v st = reducer_set ctx namespace key v (beginObservation namespace st)"

text \<open>A batch is one transaction; the conflicts are read in a second one.\<close>

fun insert_writes :: "prepared_write list \<Rightarrow> reducer_store \<Rightarrow> reducer_error + (js_string \<times> string) option list \<times> reducer_store" where
  "insert_writes [] store = Inr ([], store)"
| "insert_writes (w # ws) store =
     rbind (retainReducerState (pw_place w) (pw_row w) store) (\<lambda>(r, store1).
     rbind (insert_writes ws store1) (\<lambda>(rs, store2). Inr (r # rs, store2)))"

definition replayed :: "prepared_write list \<Rightarrow> (js_string \<times> string) option list \<Rightarrow> reducer_store \<Rightarrow> (js_string \<times> string) option list" where
  "replayed ws rows store = map2 (\<lambda>w r. case r of
     Some c \<Rightarrow> Some c
   | None \<Rightarrow> matchingReducerState store (pw_place w) (rr_content (pw_row w)) (rr_sha (pw_row w))) ws rows"

fun accept_all :: "(prepared_write \<times> (js_string \<times> string) option) list \<Rightarrow> reducer_state \<Rightarrow> unit reducer_outcome" where
  "accept_all [] st = Inr ((), st)"
| "accept_all ((w, r) # ws) st = rbind (accept_write w r False st) (\<lambda>(_, st1). accept_all ws st1)"

definition commitWrites :: "prepared_write list \<Rightarrow> reducer_state \<Rightarrow> unit reducer_outcome" where
  "commitWrites ws st =
     rbind (reducer_storage (insert_writes ws) st) (\<lambda>(rows, st1).
     rbind (if None \<in> set rows then reducer_query (replayed ws rows) st1 else Inr (rows, st1)) (\<lambda>(retained, st2).
     accept_all (zip ws retained) st2))"

text \<open>The writes of \<open>setAlongside\<close>: this index, the other and, if there is one, the additional index.\<close>

fun prepare_all :: "reducer_context \<Rightarrow> (string \<times> js_string \<times> js_value) list \<Rightarrow> reducer_state \<Rightarrow> prepared_write list reducer_outcome" where
  "prepare_all ctx [] st = Inr ([], st)"
| "prepare_all ctx ((namespace, key, v) # es) st =
     rbind (prepareWrite ctx namespace key v st) (\<lambda>(w, st1).
     rbind (prepare_all ctx es st1) (\<lambda>(ws, st2). Inr (w # ws, st2)))"

definition setAlongside ::
  "reducer_context \<Rightarrow> string \<times> js_string \<times> js_value \<Rightarrow> string \<times> js_string \<times> js_value \<Rightarrow> (string \<times> js_string \<times> js_value) option \<Rightarrow>
   reducer_state \<Rightarrow> unit reducer_outcome" where
  "setAlongside ctx this other additional st =
     (if rc_database ctx (fst this) \<noteq> rc_database ctx (fst other) \<or>
         (case additional of None \<Rightarrow> False | Some a \<Rightarrow> rc_database ctx (fst this) \<noteq> rc_database ctx (fst a))
      then Inl (Writes_apart, rx_store st)
      else rbind (prepare_all ctx (this # other # (case additional of None \<Rightarrow> [] | Some a \<Rightarrow> [a])) st) (\<lambda>(ws, st1). commitWrites ws st1))"

text \<open>Seeds are observations of their own; their rows are written sixteen or 256 KiB at a time.\<close>

definition flush_seeds :: "prepared_write list \<Rightarrow> reducer_state \<Rightarrow> unit reducer_outcome" where
  "flush_seeds ws st = (if ws = [] then Inr ((), st) else commitWrites ws st)"

fun seed_loop :: "reducer_context \<Rightarrow> string \<Rightarrow> (js_string \<times> js_value) list \<Rightarrow> prepared_write list \<Rightarrow> nat \<Rightarrow> reducer_state \<Rightarrow> unit reducer_outcome" where
  "seed_loop ctx namespace [] ws bytes st = flush_seeds ws st"
| "seed_loop ctx namespace ((key, v) # es) ws bytes st =
     rbind (prepareWrite ctx namespace key v (beginObservation namespace st)) (\<lambda>(w, st1).
     if ws \<noteq> [] \<and> (length ws = 16 \<or> bytes + pw_bytes w > 262144)
     then rbind (flush_seeds ws st1) (\<lambda>(_, st2). seed_loop ctx namespace es [w] (pw_bytes w) st2)
     else seed_loop ctx namespace es (ws @ [w]) (bytes + pw_bytes w) st1)"

definition seedMany :: "reducer_context \<Rightarrow> string \<Rightarrow> (js_string \<times> js_value) list \<Rightarrow> reducer_state \<Rightarrow> unit reducer_outcome" where
  "seedMany ctx namespace entries st = seed_loop ctx namespace entries [] 0 st"

fun prepare_seeds :: "reducer_context \<Rightarrow> (string \<times> js_string \<times> js_value) list \<Rightarrow> reducer_state \<Rightarrow> prepared_write list reducer_outcome" where
  "prepare_seeds ctx [] st = Inr ([], st)"
| "prepare_seeds ctx ((namespace, key, v) # es) st =
     rbind (prepareWrite ctx namespace key v (beginObservation namespace st)) (\<lambda>(w, st1).
     rbind (prepare_seeds ctx es st1) (\<lambda>(ws, st2). Inr (w # ws, st2)))"

definition seedManyAlongside ::
  "reducer_context \<Rightarrow> string \<Rightarrow> (js_string \<times> js_value) list \<Rightarrow> string \<Rightarrow> (js_string \<times> js_value) list \<Rightarrow> reducer_state \<Rightarrow> unit reducer_outcome" where
  "seedManyAlongside ctx namespace entries other other_entries st =
     (if rc_database ctx namespace \<noteq> rc_database ctx other \<or> length entries + length other_entries > 16 then Inl (Invalid_seed, rx_store st)
      else rbind (prepare_seeds ctx (map (Pair namespace) entries @ map (Pair other) other_entries) st) (\<lambda>(ws, st1).
        if ws = [] then Inr ((), st1)
        else if sum_list (map pw_bytes ws) > 262144 then Inl (Seed_capacity, rx_store st1)
        else commitWrites ws st1))"

subsection \<open>Iterating\<close>

text \<open>
  An asynchronous generator as its state between two calls of \<open>next\<close>: the consumer may change the index in
  between. All but the insertion order leave the rest of a page unread once the ordinal has changed.
\<close>

datatype ('k, 'r) generator = Fresh 'k | Reading 'k nat "'r list" | Finished

definition fetch_rows ::
  "(nat \<Rightarrow> 'k \<Rightarrow> reducer_store \<Rightarrow> 'r list) \<Rightarrow> ('r \<Rightarrow> 'k) \<Rightarrow> nat \<Rightarrow> 'k \<Rightarrow> reducer_state \<Rightarrow> ('r option \<times> ('k, 'r) generator) reducer_outcome" where
  "fetch_rows statement key ordinal after st = rbind (reducer_query (statement ordinal after) st) (\<lambda>(rows, st').
     case rows of [] \<Rightarrow> Inr ((None, Finished), st') | r # rs \<Rightarrow> Inr ((Some r, Reading (key r) ordinal rs), st'))"

definition next_row ::
  "nat \<Rightarrow> bool \<Rightarrow> (nat \<Rightarrow> 'k \<Rightarrow> reducer_store \<Rightarrow> 'r list) \<Rightarrow> ('r \<Rightarrow> 'k) \<Rightarrow> string \<Rightarrow> ('k, 'r) generator \<Rightarrow> reducer_state \<Rightarrow>
   ('r option \<times> ('k, 'r) generator) reducer_outcome" where
  "next_row least reread statement key namespace gen st = (let ordinal = ix_ordinal (rx_indices st namespace) in case gen of
     Finished \<Rightarrow> Inr ((None, Finished), st)
   | Fresh after \<Rightarrow> if ordinal < least then Inr ((None, Finished), st) else fetch_rows statement key ordinal after st
   | Reading after queried page \<Rightarrow> (if reread \<and> ordinal \<noteq> queried then fetch_rows statement key ordinal after st
       else case page of [] \<Rightarrow> fetch_rows statement key ordinal after st
          | r # rs \<Rightarrow> Inr ((Some r, Reading (key r) queried rs), st)))"

text \<open>The row is verified and its value restored before it is yielded.\<close>

definition yield_entry ::
  "reducer_context \<Rightarrow> ('k \<times> reducer_row) option \<times> ('k, 'k \<times> reducer_row) generator \<Rightarrow> reducer_state \<Rightarrow>
   (('k \<times> js_value \<times> nat) option \<times> ('k, 'k \<times> reducer_row) generator) reducer_outcome" where
  "yield_entry ctx = (\<lambda>(row, gen) st. case row of
     None \<Rightarrow> Inr ((None, gen), st)
   | Some (k, r) \<Rightarrow> rbind (or_stop st (verified_row ctx (rx_store st) r)) (\<lambda>(v, st'). Inr ((Some (k, v, row_bytes r), gen), st')))"

definition groupEntriesBeforeObservation where
  "groupEntriesBeforeObservation ctx namespace wanted gen st =
     rbind (next_row 2 True (nextReducerGroupState namespace (sha256Text wanted)) fst namespace gen st) (\<lambda>(y, st'). yield_entry ctx y st')"

definition latestEntries where
  "latestEntries ctx namespace gen st =
     rbind (next_row 1 True (nextLatestReducerState namespace) fst namespace gen st) (\<lambda>(y, st'). yield_entry ctx y st')"

definition insertionEntries where
  "insertionEntries ctx namespace gen st =
     rbind (next_row 1 False (nextReducerInsertionState namespace) fst namespace gen st) (\<lambda>(y, st'). yield_entry ctx y st')"

definition entityValues where
  "entityValues ctx namespace gen st =
     rbind (next_row 1 True (nextReducerEntityState namespace) fst namespace gen st) (\<lambda>(y, st'). yield_entry ctx y st')"

text \<open>
  \<open>for await\<close> with a body that gathers. It ends after as many calls as there are rows, and one.
\<close>

fun for_await :: "nat \<Rightarrow> ('g \<Rightarrow> reducer_state \<Rightarrow> ('e option \<times> 'g) reducer_outcome) \<Rightarrow> ('e \<Rightarrow> 'acc \<Rightarrow> reducer_error + 'acc) \<Rightarrow>
    'g \<Rightarrow> 'acc \<Rightarrow> reducer_state \<Rightarrow> 'acc reducer_outcome" where
  "for_await 0 next_entry body gen acc st = Inl (Unfinished, rx_store st)"
| "for_await (Suc fuel) next_entry body gen acc st = rbind (next_entry gen st) (\<lambda>((entry, gen'), st').
     case entry of
       None \<Rightarrow> Inr (acc, st')
     | Some e \<Rightarrow> rbind (or_stop st' (body e acc)) (\<lambda>(acc', st''). for_await fuel next_entry body gen' acc' st''))"

definition row_fuel :: "reducer_state \<Rightarrow> nat" where
  "row_fuel st = Suc (length (rs_rows (rx_store st)))"

definition all_latest :: "reducer_context \<Rightarrow> string \<Rightarrow> string \<Rightarrow> reducer_state \<Rightarrow> (string \<times> js_value) list reducer_outcome" where
  "all_latest ctx namespace after st =
     for_await (row_fuel st) (latestEntries ctx namespace) (\<lambda>(k, v, b) acc. Inr (acc @ [(k, v)])) (Fresh after) [] st"

definition all_entities :: "reducer_context \<Rightarrow> string \<Rightarrow> js_string \<Rightarrow> reducer_state \<Rightarrow> js_value list reducer_outcome" where
  "all_entities ctx namespace after st =
     for_await (row_fuel st) (entityValues ctx namespace) (\<lambda>(k, v, b) acc. Inr (acc @ [v])) (Fresh after) [] st"

text \<open>The limits of a match are checked as its candidates arrive.\<close>

definition match_body :: "nat \<Rightarrow> nat \<Rightarrow> string \<times> js_value \<times> nat \<Rightarrow> js_value list \<times> nat \<Rightarrow> reducer_error + js_value list \<times> nat" where
  "match_body records bytes = (\<lambda>(k, v, b) (acc, used).
     if length acc + 1 > records \<or> used + b > bytes then Inl Match_capacity else Inr (acc @ [v], used + b))"

definition matchingBeforeObservation ::
  "reducer_context \<Rightarrow> string \<Rightarrow> js_string \<Rightarrow> nat \<Rightarrow> nat \<Rightarrow> reducer_state \<Rightarrow> js_value list reducer_outcome" where
  "matchingBeforeObservation ctx namespace wanted records bytes st =
     rbind (for_await (row_fuel st) (groupEntriesBeforeObservation ctx namespace wanted) (match_body records bytes) (Fresh []) ([], 0) st)
       (\<lambda>((vs, used), st'). Inr (vs, st'))"

end
