(* ===== verification/Reducer_Spec.thy ===== *)
theory Reducer_Spec
  imports Reducer_State "HOL-Library.AList"
begin

text \<open>
  What a reducer may rely on. A reducer is a program that opens observations, reads, writes and iterates on
  its indices; \<open>run_reducer\<close> executes it on the rows, \<open>spec_run\<close> on plain maps. A view is the map of one
  namespace, with the map its current observation started from and the writes of that observation.
\<close>

subsection \<open>Reducer programs\<close>

type_synonym fact = "string \<times> js_string \<times> js_value"     \<comment> \<open>namespace, key, value\<close>

datatype 'r reducer =
    Return 'r
  | Begin string "'r reducer"
  | Get string js_string "js_value option \<Rightarrow> 'r reducer"
  | Has string js_string "bool \<Rightarrow> 'r reducer"
  | Has_entity string js_string "bool option \<Rightarrow> 'r reducer"
  | Get_along string js_string string js_string "js_value option \<times> js_value option \<Rightarrow> 'r reducer"
  | Get_many string "js_string list" "(js_string \<times> js_value option) list option \<Rightarrow> 'r reducer"
  | Set fact "'r reducer"
  | Set_along fact fact "fact option" "'r reducer"
  | Seed_many string "(js_string \<times> js_value) list" "'r reducer"
  | Seed_along string "(js_string \<times> js_value) list" string "(js_string \<times> js_value) list" "'r reducer"
  | Latest string string "(string \<times> js_value) list \<Rightarrow> 'r reducer"
  | Entities string js_string "js_value list \<Rightarrow> 'r reducer"
  | Matching string js_string nat nat "js_value list \<Rightarrow> 'r reducer"

definition then_run :: "'a reducer_outcome \<Rightarrow> ('a \<Rightarrow> reducer_state \<Rightarrow> 'b reducer_outcome) \<Rightarrow> 'b reducer_outcome" where
  "then_run m f = rbind m (\<lambda>(x, st). f x st)"

primrec run_reducer :: "reducer_context \<Rightarrow> 'r reducer \<Rightarrow> reducer_state \<Rightarrow> 'r reducer_outcome" where
  "run_reducer ctx (Return r) = (\<lambda>st. Inr (r, st))"
| "run_reducer ctx (Begin ns p) = (\<lambda>st. run_reducer ctx p (beginObservation ns st))"
| "run_reducer ctx (Get ns key k) = (\<lambda>st. then_run (reducer_get ctx ns key st) (\<lambda>v. run_reducer ctx (k v)))"
| "run_reducer ctx (Has ns key k) = (\<lambda>st. then_run (reducer_has ctx ns key st) (\<lambda>b. run_reducer ctx (k b)))"
| "run_reducer ctx (Has_entity ns key k) = (\<lambda>st. then_run (hasEntity ns key st) (\<lambda>b. run_reducer ctx (k b)))"
| "run_reducer ctx (Get_along ns key other key' k) = (\<lambda>st. then_run (getAlongside ctx ns key other key' st) (\<lambda>v. run_reducer ctx (k v)))"
| "run_reducer ctx (Get_many ns keys k) = (\<lambda>st. then_run (getMany ctx ns keys st) (\<lambda>vs. run_reducer ctx (k vs)))"
| "run_reducer ctx (Set f p) = (\<lambda>st. then_run (reducer_set ctx (fst f) (fst (snd f)) (snd (snd f)) st) (\<lambda>_. run_reducer ctx p))"
| "run_reducer ctx (Set_along f g h p) = (\<lambda>st. then_run (setAlongside ctx f g h st) (\<lambda>_. run_reducer ctx p))"
| "run_reducer ctx (Seed_many ns es p) = (\<lambda>st. then_run (seedMany ctx ns es st) (\<lambda>_. run_reducer ctx p))"
| "run_reducer ctx (Seed_along ns es other es' p) = (\<lambda>st. then_run (seedManyAlongside ctx ns es other es' st) (\<lambda>_. run_reducer ctx p))"
| "run_reducer ctx (Latest ns after k) = (\<lambda>st. then_run (all_latest ctx ns after st) (\<lambda>xs. run_reducer ctx (k xs)))"
| "run_reducer ctx (Entities ns after k) = (\<lambda>st. then_run (all_entities ctx ns after st) (\<lambda>xs. run_reducer ctx (k xs)))"
| "run_reducer ctx (Matching ns wanted records bytes k) =
     (\<lambda>st. then_run (matchingBeforeObservation ctx ns wanted records bytes st) (\<lambda>xs. run_reducer ctx (k xs)))"

subsection \<open>Views\<close>

record view =
  vw_ordinal :: nat
  vw_map :: "(js_string \<times> js_value) list"
  vw_before :: "(js_string \<times> js_value) list"
  vw_written :: "js_string \<rightharpoonup> js_value"
  vw_closed :: bool        \<comment> \<open>the current observation writes nothing more\<close>

type_synonym views = "string \<Rightarrow> view"

definition no_views :: views where
  "no_views = (\<lambda>_. \<lparr>vw_ordinal = 0, vw_map = [], vw_before = [], vw_written = Map.empty, vw_closed = True\<rparr>)"

definition spec_begin :: "string \<Rightarrow> views \<Rightarrow> views" where
  "spec_begin ns V = V(ns := \<lparr>vw_ordinal = vw_ordinal (V ns) + 1, vw_map = vw_map (V ns), vw_before = vw_map (V ns),
     vw_written = Map.empty, vw_closed = False\<rparr>)"

definition spec_write :: "fact \<Rightarrow> views \<Rightarrow> views" where
  "spec_write = (\<lambda>(ns, key, v) V. V(ns := (V ns)\<lparr>vw_map := AList.update key v (vw_map (V ns)), vw_written := (vw_written (V ns))(key \<mapsto> v)\<rparr>))"

definition spec_seed :: "fact \<Rightarrow> views \<Rightarrow> views" where
  "spec_seed f V = spec_write f (spec_begin (fst f) V)"

definition spec_close :: "string \<Rightarrow> views \<Rightarrow> views" where
  "spec_close ns V = V(ns := (V ns)\<lparr>vw_closed := True\<rparr>)"

text \<open>A value comes back with its long texts in normal form and without its undefined properties.\<close>

definition kept :: "reducer_context \<Rightarrow> js_value \<Rightarrow> js_value" where
  "kept ctx v = normalized_texts (rc_nfc ctx) (json_clone v)"

definition spec_get :: "reducer_context \<Rightarrow> views \<Rightarrow> string \<Rightarrow> js_string \<Rightarrow> js_value option" where
  "spec_get ctx V ns key = map_option (kept ctx) (map_of (vw_map (V ns)) key)"

text \<open>The row a fact is retained as, if it is one that can be retained.\<close>

definition envelope_of :: "reducer_context \<Rightarrow> js_value \<Rightarrow> RecordEnvelope" where
  "envelope_of ctx v = \<lparr>re_value = showing (rc_nfc ctx) {} (json_clone v),
     re_parts = map (\<lambda>(p, t). part_of p t) (long_texts (rc_nfc ctx) (json_clone v))\<rparr>"

definition fact_row :: "reducer_context \<Rightarrow> string \<Rightarrow> js_value \<Rightarrow> reducer_row option" where
  "fact_row ctx ns v = (case canonicalJson (rc_nfc ctx) (envelope_value (envelope_of ctx v)) of
     Inl e \<Rightarrow> None
   | Inr content \<Rightarrow>
       if v = VOther \<or> \<not> proper (json_clone v) \<or> byte_length content > 524288 then None
       else Some \<lparr>rr_envelope = envelope_of ctx v, rr_content = content, rr_sha = sha256Text content,
         rr_group = map_option (\<lambda>group. sha256Text (group v)) (rc_group ctx ns)\<rparr>)"

definition fact_bytes :: "reducer_context \<Rightarrow> string \<Rightarrow> js_value \<Rightarrow> nat" where
  "fact_bytes ctx ns v = (case fact_row ctx ns v of None \<Rightarrow> 0 | Some r \<Rightarrow> row_bytes r)"

definition first_keys :: "'a list \<Rightarrow> 'a list" where
  "first_keys keys = rev (remdups (rev keys))"

definition spec_many :: "reducer_context \<Rightarrow> views \<Rightarrow> string \<Rightarrow> js_string list \<Rightarrow> (js_string \<times> js_value option) list option" where
  "spec_many ctx V ns keys =
     (if sum_list (map (\<lambda>key. case map_of (vw_map (V ns)) key of None \<Rightarrow> 0 | Some v \<Rightarrow> fact_bytes ctx ns v) (first_keys keys)) \<le> 131072
      then Some (map (\<lambda>key. (key, spec_get ctx V ns key)) (first_keys keys)) else None)"

definition spec_has_entity :: "reducer_context \<Rightarrow> views \<Rightarrow> string \<Rightarrow> js_string \<Rightarrow> bool option" where
  "spec_has_entity ctx V ns key = map_option (\<lambda>v. entity_retained (re_value (envelope_of ctx v))) (map_of (vw_map (V ns)) key)"

text \<open>Listings go by the digests of the keys.\<close>

definition by_digest :: "(js_string \<times> js_value) list \<Rightarrow> (js_string \<times> js_value) list" where
  "by_digest m = sort_key (\<lambda>(key, v). sha256Text key) m"

definition spec_latest :: "reducer_context \<Rightarrow> views \<Rightarrow> string \<Rightarrow> string \<Rightarrow> (string \<times> js_value) list" where
  "spec_latest ctx V ns after = map (\<lambda>(key, v). (sha256Text key, kept ctx v)) (by_digest (filter (\<lambda>(key, v). after < sha256Text key) (vw_map (V ns))))"

text \<open>Entities go by their ids, as far as they have one.\<close>

definition entities :: "reducer_context \<Rightarrow> (js_string \<times> js_value) list \<Rightarrow> (js_string \<times> js_value) list" where
  "entities ctx m = List.map_filter (\<lambda>(key, v). map_option (\<lambda>i. (i, v)) (entity_id (re_value (envelope_of ctx v)))) m"

definition spec_entities :: "reducer_context \<Rightarrow> views \<Rightarrow> string \<Rightarrow> js_string \<Rightarrow> js_value list" where
  "spec_entities ctx V ns after = map (kept ctx \<circ> snd) (sort_key (utf8 \<circ> fst) (filter (\<lambda>(i, v). utf8 after < utf8 i) (entities ctx (vw_map (V ns)))))"

definition in_group :: "reducer_context \<Rightarrow> string \<Rightarrow> js_string \<Rightarrow> js_value \<Rightarrow> bool" where
  "in_group ctx ns wanted v \<longleftrightarrow> (case rc_group ctx ns of None \<Rightarrow> False | Some grouping \<Rightarrow> sha256Text (grouping v) = sha256Text wanted)"

definition spec_matches :: "reducer_context \<Rightarrow> views \<Rightarrow> string \<Rightarrow> js_string \<Rightarrow> (js_string \<times> js_value) list" where
  "spec_matches ctx V ns wanted = by_digest (filter (\<lambda>(key, v). in_group ctx ns wanted v) (vw_before (V ns)))"

definition along :: "fact \<Rightarrow> fact \<Rightarrow> fact option \<Rightarrow> fact list" where
  "along f g h = f # g # (case h of None \<Rightarrow> [] | Some a \<Rightarrow> [a])"

definition seed_facts :: "string \<Rightarrow> (js_string \<times> js_value) list \<Rightarrow> string \<Rightarrow> (js_string \<times> js_value) list \<Rightarrow> fact list" where
  "seed_facts ns es other es' = map (Pair ns) es @ map (Pair other) es'"

primrec spec_run :: "reducer_context \<Rightarrow> 'r reducer \<Rightarrow> views \<Rightarrow> 'r \<times> views" where
  "spec_run ctx (Return r) = (\<lambda>V. (r, V))"
| "spec_run ctx (Begin ns p) = (\<lambda>V. spec_run ctx p (spec_begin ns V))"
| "spec_run ctx (Get ns key k) = (\<lambda>V. spec_run ctx (k (spec_get ctx V ns key)) V)"
| "spec_run ctx (Has ns key k) = (\<lambda>V. spec_run ctx (k (spec_get ctx V ns key \<noteq> None)) V)"
| "spec_run ctx (Has_entity ns key k) = (\<lambda>V. spec_run ctx (k (spec_has_entity ctx V ns key)) V)"
| "spec_run ctx (Get_along ns key other key' k) = (\<lambda>V. spec_run ctx (k (spec_get ctx V ns key, spec_get ctx V other key')) V)"
| "spec_run ctx (Get_many ns keys k) = (\<lambda>V. spec_run ctx (k (spec_many ctx V ns keys)) V)"
| "spec_run ctx (Set f p) = (\<lambda>V. spec_run ctx p (spec_write f V))"
| "spec_run ctx (Set_along f g h p) = (\<lambda>V. spec_run ctx p (fold spec_write (along f g h) V))"
| "spec_run ctx (Seed_many ns es p) = (\<lambda>V. spec_run ctx p (fold spec_seed (map (Pair ns) es) V))"
| "spec_run ctx (Seed_along ns es other es' p) = (\<lambda>V. spec_run ctx p (fold spec_seed (seed_facts ns es other es') V))"
| "spec_run ctx (Latest ns after k) = (\<lambda>V. spec_run ctx (k (spec_latest ctx V ns after)) (spec_close ns V))"
| "spec_run ctx (Entities ns after k) = (\<lambda>V. spec_run ctx (k (spec_entities ctx V ns after)) (spec_close ns V))"
| "spec_run ctx (Matching ns wanted records bytes k) = (\<lambda>V. spec_run ctx (k (map (kept ctx \<circ> snd) (spec_matches ctx V ns wanted))) V)"

subsection \<open>Effects\<close>

text \<open>What a program writes, with the ordinals of the observations that write it.\<close>

type_synonym effect = "string \<times> js_string \<times> nat \<times> js_value"

fun effect_of :: "views \<Rightarrow> fact \<Rightarrow> effect" where
  "effect_of V (ns, key, v) = (ns, key, vw_ordinal (V ns), v)"

fun seed_effects :: "fact list \<Rightarrow> views \<Rightarrow> effect set" where
  "seed_effects [] V = {}"
| "seed_effects (f # fs) V = insert (effect_of (spec_begin (fst f) V) f) (seed_effects fs (spec_seed f V))"

primrec effects :: "reducer_context \<Rightarrow> 'r reducer \<Rightarrow> views \<Rightarrow> effect set" where
  "effects ctx (Return r) = (\<lambda>V. {})"
| "effects ctx (Begin ns p) = (\<lambda>V. effects ctx p (spec_begin ns V))"
| "effects ctx (Get ns key k) = (\<lambda>V. effects ctx (k (spec_get ctx V ns key)) V)"
| "effects ctx (Has ns key k) = (\<lambda>V. effects ctx (k (spec_get ctx V ns key \<noteq> None)) V)"
| "effects ctx (Has_entity ns key k) = (\<lambda>V. effects ctx (k (spec_has_entity ctx V ns key)) V)"
| "effects ctx (Get_along ns key other key' k) = (\<lambda>V. effects ctx (k (spec_get ctx V ns key, spec_get ctx V other key')) V)"
| "effects ctx (Get_many ns keys k) = (\<lambda>V. effects ctx (k (spec_many ctx V ns keys)) V)"
| "effects ctx (Set f p) = (\<lambda>V. insert (effect_of V f) (effects ctx p (spec_write f V)))"
| "effects ctx (Set_along f g h p) = (\<lambda>V. effect_of V ` set (along f g h) \<union> effects ctx p (fold spec_write (along f g h) V))"
| "effects ctx (Seed_many ns es p) = (\<lambda>V. seed_effects (map (Pair ns) es) V \<union> effects ctx p (fold spec_seed (map (Pair ns) es) V))"
| "effects ctx (Seed_along ns es other es' p) =
     (\<lambda>V. seed_effects (seed_facts ns es other es') V \<union> effects ctx p (fold spec_seed (seed_facts ns es other es') V))"
| "effects ctx (Latest ns after k) = (\<lambda>V. effects ctx (k (spec_latest ctx V ns after)) (spec_close ns V))"
| "effects ctx (Entities ns after k) = (\<lambda>V. effects ctx (k (spec_entities ctx V ns after)) (spec_close ns V))"
| "effects ctx (Matching ns wanted records bytes k) = (\<lambda>V. effects ctx (k (map (kept ctx \<circ> snd) (spec_matches ctx V ns wanted))) V)"

subsection \<open>Permitted programs\<close>

text \<open>
  The rules a reducer keeps: it uses the namespaces and keys of its scope, writes only inside an open
  observation and nothing different under one key in it, stays within the capacities, pairs indices of
  one store, and lists entries or entities only when its observation is done writing, entities only if
  their ids differ.
\<close>

record scope =
  sp_names :: "string set"
  sp_keys :: "js_string set"
  sp_texts :: "js_string set"

definition fact_ok :: "reducer_context \<Rightarrow> scope \<Rightarrow> fact \<Rightarrow> bool" where
  "fact_ok ctx sc = (\<lambda>(ns, key, v). ns \<in> sp_names sc \<and> key \<in> sp_keys sc \<and>
     snd ` set (long_texts (rc_nfc ctx) (json_clone v)) \<subseteq> sp_texts sc \<and> fact_row ctx ns v \<noteq> None)"

definition write_permitted :: "reducer_context \<Rightarrow> scope \<Rightarrow> fact \<Rightarrow> views \<Rightarrow> bool" where
  "write_permitted ctx sc f V \<longleftrightarrow> fact_ok ctx sc f \<and> (case f of (ns, key, v) \<Rightarrow> vw_ordinal (V ns) > 0 \<and> \<not> vw_closed (V ns) \<and>
     (case vw_written (V ns) key of None \<Rightarrow> True | Some w \<Rightarrow> w = v))"

fun writes_permitted :: "reducer_context \<Rightarrow> scope \<Rightarrow> fact list \<Rightarrow> views \<Rightarrow> bool" where
  "writes_permitted ctx sc [] V \<longleftrightarrow> True"
| "writes_permitted ctx sc (f # fs) V \<longleftrightarrow> write_permitted ctx sc f V \<and> writes_permitted ctx sc fs (spec_write f V)"

primrec permitted :: "reducer_context \<Rightarrow> scope \<Rightarrow> 'r reducer \<Rightarrow> views \<Rightarrow> bool" where
  "permitted ctx sc (Return r) = (\<lambda>V. True)"
| "permitted ctx sc (Begin ns p) = (\<lambda>V. ns \<in> sp_names sc \<and> permitted ctx sc p (spec_begin ns V))"
| "permitted ctx sc (Get ns key k) = (\<lambda>V. ns \<in> sp_names sc \<and> key \<in> sp_keys sc \<and> permitted ctx sc (k (spec_get ctx V ns key)) V)"
| "permitted ctx sc (Has ns key k) = (\<lambda>V. ns \<in> sp_names sc \<and> key \<in> sp_keys sc \<and> permitted ctx sc (k (spec_get ctx V ns key \<noteq> None)) V)"
| "permitted ctx sc (Has_entity ns key k) = (\<lambda>V. ns \<in> sp_names sc \<and> key \<in> sp_keys sc \<and>
     (\<forall>v. map_of (vw_map (V ns)) key = Some v \<longrightarrow> re_value (envelope_of ctx v) \<noteq> VNull) \<and>
     permitted ctx sc (k (spec_has_entity ctx V ns key)) V)"
| "permitted ctx sc (Get_along ns key other key' k) = (\<lambda>V. ns \<in> sp_names sc \<and> other \<in> sp_names sc \<and> key \<in> sp_keys sc \<and> key' \<in> sp_keys sc \<and>
     rc_database ctx ns = rc_database ctx other \<and> permitted ctx sc (k (spec_get ctx V ns key, spec_get ctx V other key')) V)"
| "permitted ctx sc (Get_many ns keys k) = (\<lambda>V. ns \<in> sp_names sc \<and> set keys \<subseteq> sp_keys sc \<and> card (set keys) \<le> 16 \<and>
     permitted ctx sc (k (spec_many ctx V ns keys)) V)"
| "permitted ctx sc (Set f p) = (\<lambda>V. write_permitted ctx sc f V \<and> permitted ctx sc p (spec_write f V))"
| "permitted ctx sc (Set_along f g h p) = (\<lambda>V. (\<forall>a\<in>set (along f g h). rc_database ctx (fst a) = rc_database ctx (fst f)) \<and>
     writes_permitted ctx sc (along f g h) V \<and> permitted ctx sc p (fold spec_write (along f g h) V))"
| "permitted ctx sc (Seed_many ns es p) = (\<lambda>V. list_all (fact_ok ctx sc) (map (Pair ns) es) \<and>
     permitted ctx sc p (fold spec_seed (map (Pair ns) es) V))"
| "permitted ctx sc (Seed_along ns es other es' p) = (\<lambda>V. rc_database ctx ns = rc_database ctx other \<and> length es + length es' \<le> 16 \<and>
     list_all (fact_ok ctx sc) (seed_facts ns es other es') \<and> (\<Sum>(n, key, v) \<leftarrow> seed_facts ns es other es'. fact_bytes ctx n v) \<le> 262144 \<and>
     permitted ctx sc p (fold spec_seed (seed_facts ns es other es') V))"
| "permitted ctx sc (Latest ns after k) = (\<lambda>V. ns \<in> sp_names sc \<and> permitted ctx sc (k (spec_latest ctx V ns after)) (spec_close ns V))"
| "permitted ctx sc (Entities ns after k) = (\<lambda>V. ns \<in> sp_names sc \<and> distinct (map (utf8 \<circ> fst) (entities ctx (vw_map (V ns)))) \<and>
     permitted ctx sc (k (spec_entities ctx V ns after)) (spec_close ns V))"
| "permitted ctx sc (Matching ns wanted records bytes k) = (\<lambda>V. ns \<in> sp_names sc \<and>
     (let ms = spec_matches ctx V ns wanted in length ms \<le> records \<and> (\<Sum>(key, v) \<leftarrow> ms. fact_bytes ctx ns v) \<le> bytes) \<and>
     permitted ctx sc (k (map (kept ctx \<circ> snd) (spec_matches ctx V ns wanted))) V)"

subsection \<open>Histories and views\<close>

text \<open>A view is what the effects so far add up to.\<close>

definition is_latest :: "effect set \<Rightarrow> string \<Rightarrow> js_string \<Rightarrow> nat \<Rightarrow> js_value \<Rightarrow> bool" where
  "is_latest P ns key b v \<longleftrightarrow> (\<exists>n<b. (ns, key, n, v) \<in> P \<and> (\<forall>m w. (ns, key, m, w) \<in> P \<and> m < b \<longrightarrow> m \<le> n))"

definition one_effect :: "effect set \<Rightarrow> bool" where
  "one_effect P \<longleftrightarrow> (\<forall>ns key n v w. (ns, key, n, v) \<in> P \<and> (ns, key, n, w) \<in> P \<longrightarrow> v = w)"

definition amounts_to :: "effect set \<Rightarrow> string \<Rightarrow> view \<Rightarrow> bool" where
  "amounts_to P ns w \<longleftrightarrow>
     distinct (map fst (vw_map w)) \<and> distinct (map fst (vw_before w)) \<and>
     (\<forall>key v. map_of (vw_map w) key = Some v \<longleftrightarrow> is_latest P ns key (Suc (vw_ordinal w)) v) \<and>
     (\<forall>key v. map_of (vw_before w) key = Some v \<longleftrightarrow> is_latest P ns key (vw_ordinal w) v) \<and>
     (\<forall>key v. vw_written w key = Some v \<longleftrightarrow> (ns, key, vw_ordinal w, v) \<in> P) \<and>
     (\<forall>key n v. (ns, key, n, v) \<in> P \<longrightarrow> 0 < n \<and> n \<le> vw_ordinal w)"

definition history :: "effect set \<Rightarrow> views \<Rightarrow> bool" where
  "history P V \<longleftrightarrow> one_effect P \<and> (\<forall>ns. amounts_to P ns (V ns))"

text \<open>All effects that are not in the past lie ahead.\<close>

definition to_come :: "views \<Rightarrow> effect \<Rightarrow> bool" where
  "to_come V = (\<lambda>(ns, key, n, v). vw_ordinal (V ns) < n \<or> vw_ordinal (V ns) = n \<and> \<not> vw_closed (V ns))"

definition ahead :: "effect set \<Rightarrow> views \<Rightarrow> bool" where
  "ahead F V \<longleftrightarrow> (\<forall>e\<in>F. to_come V e)"

lemma history_empty: "history {} no_views"
  by (simp add: history_def one_effect_def amounts_to_def no_views_def is_latest_def)

lemma is_latest_Suc_absent: "(\<And>v. (ns, key, b, v) \<notin> P) \<Longrightarrow> is_latest P ns key (Suc b) v = is_latest P ns key b v"
  unfolding is_latest_def by (metis less_Suc_eq)

lemma history_begin:
  assumes "history P V"
  shows "history P (spec_begin ns V)"
proof -
  have "amounts_to P ns (spec_begin ns V ns)"
  proof -
    have a: "amounts_to P ns (V ns)" using assms by (simp add: history_def)
    then have "(ns, key, Suc (vw_ordinal (V ns)), v) \<notin> P" for key v by (fastforce simp: amounts_to_def)
    then have "is_latest P ns key (Suc (Suc (vw_ordinal (V ns)))) v = is_latest P ns key (Suc (vw_ordinal (V ns))) v" for key v
      by (intro is_latest_Suc_absent)
    then show ?thesis using a \<open>\<And>v key. (ns, key, Suc (vw_ordinal (V ns)), v) \<notin> P\<close> by (fastforce simp: amounts_to_def spec_begin_def)
  qed
  then show ?thesis using assms by (auto simp: history_def spec_begin_def)
qed

lemma amounts_to_closed [simp]: "amounts_to P ns (w\<lparr>vw_closed := c\<rparr>) = amounts_to P ns w"
  by (simp add: amounts_to_def)

lemma history_close: "history P V \<Longrightarrow> history P (spec_close ns V)"
  by (simp add: history_def spec_close_def)

lemma written_iff: "history P V \<Longrightarrow> vw_written (V ns) key = Some v \<longleftrightarrow> (ns, key, vw_ordinal (V ns), v) \<in> P"
  unfolding history_def amounts_to_def by blast

lemma past_bound: "history P V \<Longrightarrow> (ns, key, n, v) \<in> P \<Longrightarrow> 0 < n \<and> n \<le> vw_ordinal (V ns)"
  unfolding history_def amounts_to_def by blast

lemma is_latest_insert_now:
  assumes "one_effect P" "(\<And>w. (ns, key, b, w) \<in> P \<Longrightarrow> w = v)"
  shows "is_latest (insert (ns, key, b, v) P) ns key (Suc b) u \<longleftrightarrow> u = v"
  using assms(2) by (auto simp: is_latest_def less_Suc_eq_le intro: le_antisym)

lemma is_latest_insert_other:
  "(ns', key') \<noteq> (ns, key) \<or> b' \<le> b \<Longrightarrow> is_latest (insert (ns, key, b, v) P) ns' key' b' u \<longleftrightarrow> is_latest P ns' key' b' u"
  unfolding is_latest_def by (auto dest: leD)

lemma history_write:
  assumes "history P V" "0 < vw_ordinal (V ns)" "vw_written (V ns) key = None \<or> vw_written (V ns) key = Some v"
  shows "history (insert (effect_of V (ns, key, v)) P) (spec_write (ns, key, v) V)"
proof -
  let ?b = "vw_ordinal (V ns)" and ?P = "insert (ns, key, vw_ordinal (V ns), v) P"
  have a: "amounts_to P n (V n)" "one_effect P" for n using assms(1) by (auto simp: history_def)
  have same: "w = v" if "(ns, key, ?b, w) \<in> P" for w using that assms(3) written_iff [OF assms(1), of ns key w] by auto
  have one: "one_effect ?P" using a(2) same unfolding one_effect_def by blast
  have here: "amounts_to ?P ns (spec_write (ns, key, v) V ns)"
  proof -
    have "map_of (AList.update key v (vw_map (V ns))) k = Some u \<longleftrightarrow> is_latest ?P ns k (Suc ?b) u" for k u
    proof (cases "k = key")
      case True
      then show ?thesis using is_latest_insert_now [OF a(2) same] by (auto simp: update_conv)
    next
      case False
      then show ?thesis using a(1) [of ns] by (simp add: update_conv is_latest_insert_other amounts_to_def)
    qed
    moreover have "map_of (vw_before (V ns)) k = Some u \<longleftrightarrow> is_latest ?P ns k ?b u" for k u
      using a(1) [of ns] by (simp add: is_latest_insert_other amounts_to_def)
    moreover have "((vw_written (V ns))(key \<mapsto> v)) k = Some u \<longleftrightarrow> (ns, k, ?b, u) \<in> ?P" for k u
      using a(1) [of ns] same by (auto simp: amounts_to_def)
    ultimately show ?thesis using a(1) [of ns] assms(2) by (auto simp: amounts_to_def spec_write_def distinct_update)
  qed
  have "amounts_to ?P n (spec_write (ns, key, v) V n)" if "n \<noteq> ns" for n
    using a(1) [of n] that by (auto simp: amounts_to_def spec_write_def is_latest_insert_other)
  then have "amounts_to ?P n (spec_write (ns, key, v) V n)" for n using here by (cases "n = ns") auto
  then show ?thesis using one by (simp add: history_def)
qed

lemma spec_write_keeps [simp]:
  "vw_ordinal (spec_write f V ns) = vw_ordinal (V ns)" "vw_closed (spec_write f V ns) = vw_closed (V ns)" "vw_before (spec_write f V ns) = vw_before (V ns)"
  by (cases f; simp add: spec_write_def)+

lemma effect_of_spec_write [simp]: "effect_of (spec_write f V) = effect_of V"
  by (rule ext) (auto split: prod.split elim: effect_of.elims)

lemma history_writes:
  "history P V \<Longrightarrow> writes_permitted ctx sc fs V \<Longrightarrow> history (P \<union> effect_of V ` set fs) (fold spec_write fs V)"
proof (induction fs arbitrary: P V)
  case (Cons f fs)
  obtain ns key v where f: "f = (ns, key, v)" by (cases f)
  have "history (insert (effect_of V f) P) (spec_write f V)"
    unfolding f by (rule history_write) (use Cons.prems in \<open>auto simp: f write_permitted_def split: option.splits\<close>)
  then have "history (insert (effect_of V f) P \<union> effect_of V ` set fs) (fold spec_write fs (spec_write f V))"
    using Cons by (metis effect_of_spec_write writes_permitted.simps(2))
  then show ?case by simp
qed simp

lemma history_seed: "history P V \<Longrightarrow> history (insert (effect_of (spec_begin (fst f) V) f) P) (spec_seed f V)"
proof (cases f)
  case (fields ns key v)
  assume "history P V"
  then show ?thesis unfolding fields spec_seed_def fst_conv
    by (intro history_write history_begin) (simp_all add: spec_begin_def)
qed

lemma history_seeds: "history P V \<Longrightarrow> history (P \<union> seed_effects fs V) (fold spec_seed fs V)"
proof (induction fs arbitrary: P V)
  case (Cons f fs)
  then show ?case using Cons.IH [OF history_seed] by simp
qed simp

subsection \<open>What lies ahead\<close>

lemma seeds_later: "vw_ordinal (V ns) \<le> vw_ordinal (fold spec_seed fs V ns)"
proof (induction fs arbitrary: V)
  case (Cons f fs)
  have "vw_ordinal (V ns) \<le> vw_ordinal (spec_seed f V ns)" by (simp add: spec_seed_def spec_begin_def)
  then show ?case using Cons [of "spec_seed f V"] by simp
qed simp

lemma fold_write_keeps [simp]:
  "vw_ordinal (fold spec_write fs V ns) = vw_ordinal (V ns)" "vw_closed (fold spec_write fs V ns) = vw_closed (V ns)"
  by (induction fs arbitrary: V) simp_all

lemma spec_run_later: "vw_ordinal (V ns) \<le> vw_ordinal (snd (spec_run ctx p V) ns)"
proof (induction p arbitrary: V)
  case (Begin n p)
  have "vw_ordinal (V ns) \<le> vw_ordinal (spec_begin n V ns)" by (simp add: spec_begin_def)
  then show ?case using Begin [of "spec_begin n V"] by simp
next
  case (Latest n after k)
  have "vw_ordinal (V ns) = vw_ordinal (spec_close n V ns)" by (simp add: spec_close_def)
  then show ?case using Latest [OF rangeI] by simp
next
  case (Entities n after k)
  have "vw_ordinal (V ns) = vw_ordinal (spec_close n V ns)" by (simp add: spec_close_def)
  then show ?case using Entities [OF rangeI] by simp
next
  case (Set f p)
  show ?case using Set [of "spec_write f V"] by simp
next
  case (Set_along f g h p)
  show ?case using Set_along [of "fold spec_write (along f g h) V"] by simp
next
  case (Seed_many n es p)
  show ?case using Seed_many [of "fold spec_seed (map (Pair n) es) V"] seeds_later [of V ns "map (Pair n) es"] by simp
next
  case (Seed_along n es m es' p)
  show ?case using Seed_along [of "fold spec_seed (seed_facts n es m es') V"] seeds_later [of V ns "seed_facts n es m es'"] by simp
qed simp_all

lemma ahead_union: "ahead (F \<union> G) V \<longleftrightarrow> ahead F V \<and> ahead G V"
  by (auto simp: ahead_def)

lemma ahead_later:
  assumes "ahead F W" "\<And>ns. vw_ordinal (V ns) < vw_ordinal (W ns) \<or> vw_ordinal (V ns) = vw_ordinal (W ns) \<and> (vw_closed (V ns) \<longrightarrow> vw_closed (W ns))"
  shows "ahead F V"
  unfolding ahead_def
proof
  fix e assume "e \<in> F"
  then have "to_come W e" using assms(1) by (simp add: ahead_def)
  then show "to_come V e" using assms(2) [of "fst e"] by (cases e) (auto simp: to_come_def)
qed

lemma seeds_ahead: "ahead (seed_effects fs V) V \<and> (ahead F (fold spec_seed fs V) \<longrightarrow> ahead F V)"
proof (induction fs arbitrary: V)
  case (Cons f fs)
  have first: "to_come V (effect_of (spec_begin (fst f) V) f)" by (cases f) (simp add: to_come_def spec_begin_def)
  have step: "ahead G V" if "ahead G (spec_seed f V)" for G
    using that
  proof (rule ahead_later)
    fix ns
    show "vw_ordinal (V ns) < vw_ordinal (spec_seed f V ns) \<or> vw_ordinal (V ns) = vw_ordinal (spec_seed f V ns) \<and> (vw_closed (V ns) \<longrightarrow> vw_closed (spec_seed f V ns))"
      by (simp add: spec_seed_def spec_begin_def)
  qed
  have "ahead (seed_effects fs (spec_seed f V)) V" using Cons [of "spec_seed f V"] by (blast intro: step)
  then have "ahead (seed_effects (f # fs) V) V" using first by (simp add: ahead_def)
  moreover have "ahead F (fold spec_seed (f # fs) V) \<longrightarrow> ahead F V" using Cons [of "spec_seed f V"] step [of F] by simp
  ultimately show ?case ..
qed (simp add: ahead_def)

lemma writes_ahead: "writes_permitted ctx sc fs V \<Longrightarrow> ahead (effect_of V ` set fs) V"
proof (induction fs arbitrary: V)
  case (Cons f fs)
  obtain ns key v where f: "f = (ns, key, v)" by (cases f)
  have "ahead {effect_of V f} V" using Cons.prems by (simp add: f ahead_def to_come_def write_permitted_def)
  moreover have "ahead (effect_of V ` set fs) V"
    using Cons.IH [of "spec_write f V"] Cons.prems by (simp add: ahead_def to_come_def)
  ultimately show ?case by (simp add: ahead_def)
qed (simp add: ahead_def)

lemma effects_ahead: "permitted ctx sc p V \<Longrightarrow> ahead (effects ctx p V) V"
proof (induction p arbitrary: V)
  case (Begin n p)
  then have "ahead (effects ctx p (spec_begin n V)) (spec_begin n V)" by simp
  then show ?case unfolding effects.simps by (rule ahead_later) (simp add: spec_begin_def)
next
  case (Latest n after k)
  then have "ahead (effects ctx (k (spec_latest ctx V n after)) (spec_close n V)) (spec_close n V)" by simp
  then show ?case unfolding effects.simps by (rule ahead_later) (simp add: spec_close_def)
next
  case (Entities n after k)
  then have "ahead (effects ctx (k (spec_entities ctx V n after)) (spec_close n V)) (spec_close n V)" by simp
  then show ?case unfolding effects.simps by (rule ahead_later) (simp add: spec_close_def)
next
  case (Set f p)
  then have "ahead (effects ctx p (spec_write f V)) (spec_write f V)" by simp
  moreover have "ahead (effect_of V ` set [f]) V" by (rule writes_ahead) (use Set.prems in auto)
  ultimately show ?case by (simp add: ahead_def to_come_def)
next
  case (Set_along f g h p)
  then have "ahead (effects ctx p (fold spec_write (along f g h) V)) (fold spec_write (along f g h) V)" by simp
  then have "ahead (effects ctx p (fold spec_write (along f g h) V)) V" by (simp add: ahead_def to_come_def)
  moreover have "ahead (effect_of V ` set (along f g h)) V" by (rule writes_ahead) (use Set_along.prems in auto)
  ultimately show ?case by (simp add: ahead_union)
next
  case (Seed_many n es p)
  then have "ahead (effects ctx p (fold spec_seed (map (Pair n) es) V)) (fold spec_seed (map (Pair n) es) V)" by simp
  then show ?case using seeds_ahead by (simp add: ahead_union)
next
  case (Seed_along n es m es' p)
  then have "ahead (effects ctx p (fold spec_seed (seed_facts n es m es') V)) (fold spec_seed (seed_facts n es m es') V)" by simp
  then show ?case using seeds_ahead by (simp add: ahead_union)
qed (auto simp: ahead_def)

lemma history_run: "history P V \<Longrightarrow> permitted ctx sc p V \<Longrightarrow> history (P \<union> effects ctx p V) (snd (spec_run ctx p V))"
proof (induction p arbitrary: P V)
  case (Begin n p)
  then show ?case using history_begin by simp
next
  case (Latest n after k)
  then show ?case using history_close [of P V n] by simp
next
  case (Entities n after k)
  then show ?case using history_close [of P V n] by simp
next
  case (Set f p)
  have "history (P \<union> effect_of V ` set [f]) (fold spec_write [f] V)" by (rule history_writes) (use Set.prems in auto)
  then show ?case using Set.IH [of _ "spec_write f V"] Set.prems(2) by fastforce
next
  case (Set_along f g h p)
  have "history (P \<union> effect_of V ` set (along f g h)) (fold spec_write (along f g h) V)" by (rule history_writes) (use Set_along.prems in auto)
  then show ?case using Set_along.IH Set_along.prems(2) by (simp add: Un_assoc [symmetric])
next
  case (Seed_many n es p)
  then show ?case using history_seeds by (simp add: Un_assoc [symmetric])
next
  case (Seed_along n es m es' p)
  then show ?case using history_seeds by (simp add: Un_assoc [symmetric])
qed simp_all

end
