(* ===== verification/Reducer_Rows.thy ===== *)
theory Reducer_Rows
  imports Reducer_Spec
begin

text \<open>
  The rows of the reducers against the effects they stand for: what a store may hold, what reading a key or
  a page of it gives, and that preparing and committing writes only ever adds rows of known effects.
  An operation is \<open>safe\<close> if it fails only when the database does, and leaves a store of known effects
  that has lost nothing.
\<close>

subsection \<open>Stores\<close>

definition covered :: "reducer_context \<Rightarrow> reducer_store \<Rightarrow> js_value \<Rightarrow> bool" where
  "covered ctx store v \<longleftrightarrow> (\<forall>pt\<in>set (long_texts (rc_nfc ctx) (json_clone v)). covers (rs_texts store) (snd pt))"

definition row_known :: "reducer_context \<Rightarrow> effect set \<Rightarrow> reducer_store \<Rightarrow> place \<times> reducer_row \<Rightarrow> bool" where
  "row_known ctx E store = (\<lambda>((ns, d, n), r). \<exists>key v. (ns, key, n, v) \<in> E \<and> d = sha256Text key \<and> fact_row ctx ns v = Some r \<and> covered ctx store v)"

definition stored :: "reducer_context \<Rightarrow> scope \<Rightarrow> effect set \<Rightarrow> reducer_store \<Rightarrow> bool" where
  "stored ctx sc E store \<longleftrightarrow> distinct (map fst (rs_rows store)) \<and> list_all (row_known ctx E store) (rs_rows store) \<and>
     table_within (sp_texts sc) (rs_texts store)"

definition effects_present :: "reducer_context \<Rightarrow> effect set \<Rightarrow> reducer_store \<Rightarrow> bool" where
  "effects_present ctx P store \<longleftrightarrow> (\<forall>(ns, key, n, v)\<in>P. \<exists>r. fact_row ctx ns v = Some r \<and> ((ns, sha256Text key, n), r) \<in> set (rs_rows store))"

definition rows_grow :: "reducer_store \<Rightarrow> reducer_store \<Rightarrow> bool" where
  "rows_grow store store' \<longleftrightarrow> set (rs_rows store) \<subseteq> set (rs_rows store') \<and> rs_texts store \<subseteq>\<^sub>m rs_texts store'"

text \<open>What is asked of the effects of a run, of \<open>normalize\<close> and of \<open>json_quote\<close>.\<close>

definition sound_text :: "reducer_context \<Rightarrow> bool" where
  "sound_text ctx \<longleftrightarrow> (\<forall>s. s \<noteq> [] \<longrightarrow> rc_nfc ctx s \<noteq> []) \<and> (\<forall>s. rc_quoted ctx s \<le> 6 * length s + 2)"

definition no_collision :: "scope \<Rightarrow> bool" where
  "no_collision sc \<longleftrightarrow> inj_on sha256Text (sp_keys sc) \<and> inj_on sha256Text (sp_texts sc)"

definition effect_ok :: "reducer_context \<Rightarrow> scope \<Rightarrow> effect \<Rightarrow> bool" where
  "effect_ok ctx sc = (\<lambda>(ns, key, n, v). 0 < n \<and> fact_ok ctx sc (ns, key, v))"

definition world :: "reducer_context \<Rightarrow> scope \<Rightarrow> effect set \<Rightarrow> bool" where
  "world ctx sc E \<longleftrightarrow> sound_text ctx \<and> no_collision sc \<and> one_effect E \<and> (\<forall>e\<in>E. effect_ok ctx sc e)"

lemma grows_refl [simp]: "rows_grow store store"
  by (simp add: rows_grow_def)

lemma grows_trans: "rows_grow a b \<Longrightarrow> rows_grow b c \<Longrightarrow> rows_grow a c"
  by (auto simp: rows_grow_def intro: map_le_trans)

lemma covered_grows: "rows_grow store store' \<Longrightarrow> covered ctx store v \<Longrightarrow> covered ctx store' v"
  unfolding rows_grow_def covered_def covers_def map_le_def by (metis domI)

lemma present_grows: "rows_grow store store' \<Longrightarrow> effects_present ctx P store \<Longrightarrow> effects_present ctx P store'"
  unfolding rows_grow_def effects_present_def by fastforce

lemma present_Un: "effects_present ctx (P \<union> Q) store \<longleftrightarrow> effects_present ctx P store \<and> effects_present ctx Q store"
  by (simp only: effects_present_def ball_Un)

lemma row_known_grows: "rows_grow store store' \<Longrightarrow> row_known ctx E store x \<Longrightarrow> row_known ctx E store' x"
  by (cases x) (auto simp: row_known_def dest: covered_grows)

lemma stored_empty: "stored ctx sc E \<lparr>rs_texts = Map.empty, rs_rows = []\<rparr>"
  by (simp add: stored_def table_within_def)

lemma fact_row_shape:
  assumes "fact_row ctx ns v = Some r"
  shows "rr_envelope r = envelope_of ctx v" "rr_sha r = sha256Text (rr_content r)" "row_bytes r \<le> 524288" "proper (json_clone v)" "v \<noteq> VOther"
    "canonicalJson (rc_nfc ctx) (envelope_value (envelope_of ctx v)) = Inr (rr_content r)"
    "rr_group r = map_option (\<lambda>group. sha256Text (group v)) (rc_group ctx ns)"
  using assms by (auto simp: fact_row_def row_bytes_def split: sum.splits if_splits)

lemma verified_fact:
  assumes "sound_text ctx" "fact_row ctx ns v = Some r" "covered ctx store v"
  shows "verified_row ctx store r = Inr (kept ctx v)"
proof -
  have "restorePartitionedRecord (rc_quoted ctx) (rs_texts store) (envelope_of ctx v) = Inr (normalized_texts (rc_nfc ctx) (json_clone v))"
    unfolding envelope_of_def by (rule restore_envelope) (use assms fact_row_shape [OF assms(2)] in \<open>auto simp: sound_text_def covered_def\<close>)
  then show ?thesis using fact_row_shape [OF assms(2)] by (simp add: verified_row_def kept_def)
qed

lemma plain_fact:
  assumes "re_parts (envelope_of ctx v) = []"
  shows "re_value (envelope_of ctx v) = kept ctx v"
  using assms showing_all(1) [of "rc_nfc ctx" "json_clone v" "{}"] by (simp add: envelope_of_def kept_def)

subsection \<open>Reading a key\<close>

definition known_below :: "effect set \<Rightarrow> effect set \<Rightarrow> string \<Rightarrow> js_string \<Rightarrow> nat \<Rightarrow> bool" where
  "known_below E P ns key b \<longleftrightarrow> (\<forall>n v. (ns, key, n, v) \<in> E \<and> n < b \<longrightarrow> (ns, key, n, v) \<in> P)"

lemma stored_row:
  assumes "world ctx sc E" "stored ctx sc E store" "((ns, sha256Text key, n), r) \<in> set (rs_rows store)" "key \<in> sp_keys sc"
  shows "\<exists>v. (ns, key, n, v) \<in> E \<and> fact_row ctx ns v = Some r \<and> covered ctx store v"
proof -
  have "row_known ctx E store ((ns, sha256Text key, n), r)" using assms(2,3) by (auto simp: stored_def list_all_iff)
  then obtain k v where k: "(ns, k, n, v) \<in> E" "sha256Text key = sha256Text k" "fact_row ctx ns v = Some r" "covered ctx store v"
    by (auto simp: row_known_def)
  then have "k \<in> sp_keys sc" "inj_on sha256Text (sp_keys sc)" using assms(1) by (auto simp: world_def effect_ok_def fact_ok_def no_collision_def)
  then have "k = key" using k(2) assms(4) by (auto dest: inj_onD)
  then show ?thesis using k by blast
qed

lemma reducerState_latest:
  assumes "world ctx sc E" "stored ctx sc E store" "effects_present ctx P store" "P \<subseteq> E" "known_below E P ns key b" "key \<in> sp_keys sc"
  shows reducerState_Some: "is_latest P ns key b v \<Longrightarrow> \<exists>r. reducerState store ns (sha256Text key) b = Some r \<and> fact_row ctx ns v = Some r \<and> covered ctx store v"
    and reducerState_None: "(\<And>v. \<not> is_latest P ns key b v) \<Longrightarrow> reducerState store ns (sha256Text key) b = None"
proof -
  let ?rows = "filter (\<lambda>((n', d, o'), r). n' = ns \<and> d = sha256Text key \<and> o' < b) (rs_rows store)"
  let ?os = "(\<lambda>((n, d, o'), r). o') ` set ?rows"
  have inside: "\<exists>v. (ns, key, n, v) \<in> P \<and> n < b" if "n \<in> ?os" for n
    using that stored_row [OF assms(1,2) _ assms(6)] assms(5) by (force simp: known_below_def)
  have outside: "n \<in> ?os" if "(ns, key, n, v) \<in> P" "n < b" for n v using that assms(3) by (fastforce simp: effects_present_def image_iff)
  have eq: "reducerState store ns (sha256Text key) b = (if ?os = {} then None else map_of (rs_rows store) (ns, sha256Text key, Max ?os))"
    unfolding reducerState_def Let_def by (simp only: set_map list.map_disc_iff image_is_empty set_empty)
  show "\<exists>r. reducerState store ns (sha256Text key) b = Some r \<and> fact_row ctx ns v = Some r \<and> covered ctx store v" if l: "is_latest P ns key b v"
  proof -
    obtain n where n: "n < b" "(ns, key, n, v) \<in> P" "\<And>m w. (ns, key, m, w) \<in> P \<Longrightarrow> m < b \<Longrightarrow> m \<le> n" using l by (auto simp: is_latest_def)
    have "Max ?os = n" by (rule Max_eqI) (use n outside inside in \<open>blast+\<close>)
    moreover obtain r where r: "((ns, sha256Text key, n), r) \<in> set (rs_rows store)" "fact_row ctx ns v = Some r"
      using n(2) assms(3) by (auto simp: effects_present_def)
    moreover have "map_of (rs_rows store) (ns, sha256Text key, n) = Some r" using r(1) assms(2) by (auto simp: stored_def)
    ultimately have "reducerState store ns (sha256Text key) b = Some r" using eq outside [OF n(2,1)] by auto
    moreover obtain w where w: "(ns, key, n, w) \<in> E" "covered ctx store w" using stored_row [OF assms(1,2) r(1) assms(6)] by blast
    then have "w = v" using n(2) assms(1,4) unfolding world_def one_effect_def by blast
    ultimately show ?thesis using r w by blast
  qed
  show "reducerState store ns (sha256Text key) b = None" if none: "\<And>v. \<not> is_latest P ns key b v"
  proof -
    have False if "?os \<noteq> {}"
    proof -
      have "Max ?os \<in> ?os" using that by (intro Max_in) auto
      then obtain v where v: "(ns, key, Max ?os, v) \<in> P" "Max ?os < b" using inside by blast
      have "m \<le> Max ?os" if "(ns, key, m, w) \<in> P" "m < b" for m w using outside [OF that] by simp
      then have "is_latest P ns key b v" using v unfolding is_latest_def by blast
      then show False using none by blast
    qed
    then show ?thesis using eq by auto
  qed
qed

subsection \<open>Pages\<close>

text \<open>The rows below a bound, in the order of their digests, are those of the map at that bound.\<close>

definition fact_entry :: "reducer_context \<Rightarrow> string \<Rightarrow> js_string \<times> js_value \<Rightarrow> string \<times> reducer_row" where
  "fact_entry ctx ns = (\<lambda>(key, v). (sha256Text key, the (fact_row ctx ns v)))"

lemma visible_iff:
  "(d, r) \<in> set (visible_rows store ns b) \<longleftrightarrow>
    (\<exists>n<b. ((ns, d, n), r) \<in> set (rs_rows store) \<and> (\<forall>m r'. ((ns, d, m), r') \<in> set (rs_rows store) \<and> m < b \<longrightarrow> m \<le> n))"
  unfolding visible_rows_def by (force simp: list_ex_iff image_iff)

lemma distinct_visible:
  assumes "distinct (map fst (rs_rows store))"
  shows "distinct (map fst (visible_rows store ns b))"
proof -
  let ?Q = "\<lambda>((n, d, o'), r). n = ns \<and> o' < b \<and> \<not> list_ex (\<lambda>((n', d', o''), r'). n' = n \<and> d' = d \<and> o'' > o' \<and> o'' < b) (rs_rows store)"
  let ?rows = "filter ?Q (rs_rows store)"
  have "inj_on (\<lambda>p. fst (snd (fst p))) (set ?rows)"
  proof (rule inj_onI)
    fix x y assume xy: "x \<in> set ?rows" "y \<in> set ?rows" "fst (snd (fst x)) = fst (snd (fst y))"
    obtain n d m r n' d' m' r' where eq: "x = ((n, d, m), r)" "y = ((n', d', m'), r')" by (metis surj_pair)
    have "\<not> m < m'" "\<not> m' < m" using xy unfolding eq by (auto simp: list_ex_iff)
    then have "fst x = fst y" using xy unfolding eq by auto
    then show "x = y" using xy(1,2) assms by (auto simp: eq_key_imp_eq_value prod_eq_iff)
  qed
  moreover have "distinct ?rows" using assms by (simp add: distinct_map)
  moreover have "map fst (visible_rows store ns b) = map (\<lambda>p. fst (snd (fst p))) ?rows"
    unfolding visible_rows_def map_map by (rule map_cong) auto
  ultimately show ?thesis by (simp only: distinct_map)
qed

lemma visible_map:
  assumes "world ctx sc E" "stored ctx sc E store" "effects_present ctx P store" "P \<subseteq> E" "\<And>key. known_below E P ns key b"
    "distinct (map fst m)" "\<And>key v. map_of m key = Some v \<longleftrightarrow> is_latest P ns key b v"
  shows "mset (visible_rows store ns b) = mset (map (fact_entry ctx ns) m)" "inj_on sha256Text (fst ` set m)"
proof -
  have m: "(key, v) \<in> set m \<longleftrightarrow> is_latest P ns key b v" for key v using assms(6,7) by (metis map_of_eq_Some_iff)
  have keys: "fst ` set m \<subseteq> sp_keys sc"
  proof
    fix key assume "key \<in> fst ` set m"
    then obtain n v where "(ns, key, n, v) \<in> E" using m assms(4) by (force simp: is_latest_def)
    then show "key \<in> sp_keys sc" using assms(1) by (auto simp: world_def effect_ok_def fact_ok_def)
  qed
  then show inj: "inj_on sha256Text (fst ` set m)" using assms(1) by (auto simp: world_def no_collision_def intro: inj_on_subset)
  have row: "\<exists>key v. (ns, key, n, v) \<in> P \<and> d = sha256Text key \<and> fact_row ctx ns v = Some r"
    if "((ns, d, n), r) \<in> set (rs_rows store)" "n < b" for d n r
  proof -
    have "row_known ctx E store ((ns, d, n), r)" using assms(2) that(1) by (auto simp: stored_def list_all_iff)
    then show ?thesis using that(2) assms(5) by (force simp: row_known_def known_below_def)
  qed
  have there: "\<exists>r. fact_row ctx ns v = Some r \<and> ((ns, sha256Text key, n), r) \<in> set (rs_rows store)" if "(ns, key, n, v) \<in> P" for key n v
    using that assms(3) by (auto simp: effects_present_def)
  have keyP: "key \<in> sp_keys sc" if "(ns, key, n, v) \<in> P" for key n v using that assms(1,4) by (fastforce simp: world_def effect_ok_def fact_ok_def)
  have same: "key = key'" if "sha256Text key = sha256Text key'" "(ns, key, n, v) \<in> P" "(ns, key', n', v') \<in> P" for key key' n n' v v'
    using that(1) keyP [OF that(2)] keyP [OF that(3)] assms(1) by (auto simp: world_def no_collision_def dest: inj_onD)
  have "(d, r) \<in> set (visible_rows store ns b) \<longleftrightarrow> (d, r) \<in> fact_entry ctx ns ` set m" for d r
  proof
    assume "(d, r) \<in> set (visible_rows store ns b)"
    then obtain n where n: "n < b" "((ns, d, n), r) \<in> set (rs_rows store)" "\<And>k r'. ((ns, d, k), r') \<in> set (rs_rows store) \<Longrightarrow> k < b \<Longrightarrow> k \<le> n"
      unfolding visible_iff by blast
    obtain key v where kv: "(ns, key, n, v) \<in> P" "d = sha256Text key" "fact_row ctx ns v = Some r" using row [OF n(2,1)] by blast
    have "k \<le> n" if "(ns, key, k, w) \<in> P" "k < b" for k w using there [OF that(1)] n(3) that(2) kv(2) by blast
    then have "(key, v) \<in> set m" unfolding m is_latest_def using n(1) kv(1) by blast
    then show "(d, r) \<in> fact_entry ctx ns ` set m" using kv by (force simp: fact_entry_def)
  next
    assume "(d, r) \<in> fact_entry ctx ns ` set m"
    then obtain key v where kv: "is_latest P ns key b v" "d = sha256Text key" "r = the (fact_row ctx ns v)" by (auto simp: fact_entry_def m)
    then obtain n where n: "n < b" "(ns, key, n, v) \<in> P" "\<And>k w. (ns, key, k, w) \<in> P \<Longrightarrow> k < b \<Longrightarrow> k \<le> n" by (auto simp: is_latest_def)
    have "((ns, d, n), r) \<in> set (rs_rows store)" using there [OF n(2)] kv by auto
    moreover have "k \<le> n" if "((ns, d, k), r') \<in> set (rs_rows store)" "k < b" for k r'
      using row [OF that] same [OF _ n(2)] n(3) that(2) kv(2) by metis
    ultimately show "(d, r) \<in> set (visible_rows store ns b)" unfolding visible_iff using n(1) by blast
  qed
  then have "set (visible_rows store ns b) = set (map (fact_entry ctx ns) m)" by auto
  moreover have "distinct (map (fact_entry ctx ns) m)"
  proof -
    have "distinct (map (sha256Text \<circ> fst) m)" using inj assms(6) by (simp add: distinct_map comp_inj_on_iff [symmetric])
    moreover have "map (sha256Text \<circ> fst) m = map fst (map (fact_entry ctx ns) m)" by (simp add: fact_entry_def case_prod_unfold)
    ultimately have "distinct (map fst (map (fact_entry ctx ns) m))" by simp
    then show ?thesis by (simp only: distinct_map)
  qed
  moreover have "distinct (visible_rows store ns b)" using distinct_visible assms(2) by (auto simp: stored_def distinct_map)
  ultimately show "mset (visible_rows store ns b) = mset (map (fact_entry ctx ns) m)" by (simp only: set_eq_iff_mset_eq_distinct)
qed

lemma map_sort_key: "map g (sort_key (f \<circ> g) xs) = sort_key f (map g xs)"
proof -
  have "map g (insort_key (f \<circ> g) x xs) = insort_key f (g x) (map g xs)" for x xs by (induction xs) auto
  then show ?thesis by (induction xs) auto
qed

lemma visible_sorted:
  assumes "mset rows = mset (map (fact_entry ctx ns) m)" "inj_on sha256Text (fst ` set m)" "\<And>x. x \<in> set m \<Longrightarrow> Q (fact_entry ctx ns x) = Q' x" "distinct (map fst m)"
  shows "sort_key fst (filter Q rows) = map (fact_entry ctx ns) (by_digest (filter Q' m))" "distinct (map fst (filter Q rows))"
proof -
  have eq: "mset (filter Q rows) = mset (map (fact_entry ctx ns) (filter Q' m))"
  proof -
    have "filter_mset (\<lambda>x. Q (fact_entry ctx ns x)) (mset m) = filter_mset Q' (mset m)" by (rule filter_mset_cong) (use assms(3) in auto)
    then show ?thesis using assms(1) by (simp add: mset_filter filter_mset_image_mset)
  qed
  have dist: "distinct (map fst (map (fact_entry ctx ns) (filter Q' m)))"
  proof -
    have "distinct (map (sha256Text \<circ> fst) (filter Q' m))" using assms(2,4) by (auto simp: distinct_map inj_on_def)
    then show ?thesis by (simp add: fact_entry_def case_prod_unfold comp_def)
  qed
  then show "distinct (map fst (filter Q rows))" using eq by (metis mset_eq_imp_distinct_iff mset_map)
  have "inj_on fst (set (filter Q rows))" using \<open>distinct (map fst (filter Q rows))\<close> by (simp add: distinct_map)
  then have "sort_key fst (filter Q rows) = sort_key fst (map (fact_entry ctx ns) (filter Q' m))" by (intro sort_key_inj_key_eq) (use eq in simp_all)
  also have "\<dots> = map (fact_entry ctx ns) (sort_key (fst \<circ> fact_entry ctx ns) (filter Q' m))" by (rule map_sort_key [symmetric])
  also have "fst \<circ> fact_entry ctx ns = (\<lambda>(key, v). sha256Text key)" by (auto simp: fact_entry_def)
  finally show "sort_key fst (filter Q rows) = map (fact_entry ctx ns) (by_digest (filter Q' m))" by (simp add: by_digest_def)
qed

lemma filter_down_closed:
  assumes "sorted_wrt (\<lambda>x y. Q y \<longrightarrow> Q x) xs"
  shows "filter Q xs = takeWhile Q xs"
  using assms by (induction xs) (auto simp: filter_empty_conv)

lemma running_mono:
  fixes key :: "'r \<Rightarrow> 'k::linorder"
  assumes "key r \<le> key r'"
  shows "running_bytes key bytes rows r \<le> running_bytes key bytes rows r'"
  unfolding running_bytes_def using assms by (induction rows) (auto intro: le_SucI trans_le_add2)

lemma bounded_page_prefix:
  fixes key :: "'r \<Rightarrow> 'k::linorder"
  defines "rows_after \<equiv> \<lambda>after rows. sort_key key (filter (\<lambda>r. after < key r) rows)"
  assumes "distinct (map key rows)" "\<And>r. r \<in> set rows \<Longrightarrow> bytes r \<le> 524288"
  shows "\<exists>k. bounded_page key bytes after rows = take k (rows_after after rows) \<and> (rows_after after rows \<noteq> [] \<longrightarrow> 0 < k)"
proof -
  let ?L = "rows_after after rows" and ?Q = "\<lambda>r. running_bytes key bytes (take 16 (rows_after after rows)) r \<le> 524288"
  have "sorted (map key (take 16 ?L))" by (simp add: rows_after_def sorted_wrt_take take_map [symmetric])
  then have "sorted_wrt (\<lambda>x y. ?Q y \<longrightarrow> ?Q x) (take 16 ?L)"
    unfolding sorted_wrt_map
  proof (rule sorted_wrt_mono_rel [rotated])
    fix x y assume "key x \<le> key y"
    then show "?Q y \<longrightarrow> ?Q x" using running_mono [of key x y bytes "take 16 ?L"] by linarith
  qed
  then have page: "bounded_page key bytes after rows = takeWhile ?Q (take 16 ?L)"
    by (drule_tac filter_down_closed) (simp only: bounded_page_def Let_def rows_after_def)
  then obtain k where k: "bounded_page key bytes after rows = take k (take 16 ?L)" by (metis takeWhile_eq_take)
  have "bounded_page key bytes after rows \<noteq> []" if ne: "?L \<noteq> []"
  proof -
    obtain r rs where L: "?L = r # rs" using ne by (cases ?L) auto
    have "distinct (map key (filter (\<lambda>r. after < key r) rows))" using assms(2) by (simp add: distinct_map inj_on_def)
    then have "distinct (map key ?L)" by (metis rows_after_def mset_eq_imp_distinct_iff mset_map mset_sort)
    moreover have "sorted (map key ?L)" by (simp add: rows_after_def)
    ultimately have less: "key r < key r'" if "r' \<in> set rs" for r' using that unfolding L by (force simp: less_le)
    have "filter (\<lambda>r'. key r' \<le> key r) (take 15 rs) = []" using less in_set_takeD by (fastforce simp: filter_empty_conv)
    then have "running_bytes key bytes (take 16 ?L) r = bytes r" by (simp add: L running_bytes_def)
    moreover have "r \<in> set rows" using L by (metis (no_types) filter_is_subset list.set_intros(1) rows_after_def set_sort subsetD)
    ultimately show ?thesis using page assms(3) [of r] by (simp add: L)
  qed
  then show ?thesis using k by (cases "?L = []") (auto intro!: exI [of _ "min k 16"] simp: take_take min.commute)
qed

end
