(* ===== verification/Reducer_Steps.thy ===== *)
theory Reducer_Steps
  imports Reducer_Rows
begin

text \<open>
  The operations of an index one by one: each is safe, gives what its specification gives, and leaves the
  indices and the rows as the specification's view and the effects so far demand.
\<close>

subsection \<open>Safe operations\<close>

definition safe ::
  "reducer_context \<Rightarrow> scope \<Rightarrow> effect set \<Rightarrow> reducer_state \<Rightarrow> 'a reducer_outcome \<Rightarrow> ('a \<Rightarrow> reducer_state \<Rightarrow> bool) \<Rightarrow> bool" where
  "safe ctx sc E st outcome Q \<longleftrightarrow> (case outcome of
     Inl (e, store) \<Rightarrow> rx_left st \<noteq> None \<and> (e = Reducer_storage \<or> e = Text_storage) \<and> stored ctx sc E store \<and> rows_grow (rx_store st) store
   | Inr (x, st') \<Rightarrow> stored ctx sc E (rx_store st') \<and> rows_grow (rx_store st) (rx_store st') \<and> (rx_left st = None \<longrightarrow> rx_left st' = None) \<and> Q x st')"

definition same :: "reducer_state \<Rightarrow> reducer_state \<Rightarrow> bool" where
  "same st st' \<longleftrightarrow> rx_indices st' = rx_indices st \<and> rx_store st' = rx_store st"

lemma same_refl [simp]: "same st st"
  by (simp add: same_def)

lemma same_trans: "same a b \<Longrightarrow> same b c \<Longrightarrow> same a c"
  by (simp add: same_def)

lemma safe_bind:
  assumes "safe ctx sc E st m Q"
    "\<And>x st'. Q x st' \<Longrightarrow> stored ctx sc E (rx_store st') \<Longrightarrow> rows_grow (rx_store st) (rx_store st') \<Longrightarrow> safe ctx sc E st' (f x st') R"
  shows "safe ctx sc E st (rbind m (\<lambda>(x, st'). f x st')) R"
proof (cases m)
  case (Inl e)
  then show ?thesis using assms(1) by (auto simp: safe_def)
next
  case (Inr p)
  obtain x st' where p: "p = (x, st')" by fastforce
  have m: "Q x st'" "stored ctx sc E (rx_store st')" "rows_grow (rx_store st) (rx_store st')" "rx_left st = None \<longrightarrow> rx_left st' = None"
    using assms(1) by (auto simp: safe_def Inr p)
  then have "safe ctx sc E st' (f x st') R" using assms(2) by blast
  then show ?thesis using m by (auto simp: Inr p safe_def split: sum.splits intro: grows_trans)
qed

lemma safe_return: "stored ctx sc E (rx_store st) \<Longrightarrow> Q x st \<Longrightarrow> safe ctx sc E st (Inr (x, st)) Q"
  by (simp add: safe_def)

lemma safe_mono:
  "safe ctx sc E st m Q \<Longrightarrow> (\<And>x st'. Q x st' \<Longrightarrow> stored ctx sc E (rx_store st') \<Longrightarrow> rows_grow (rx_store st) (rx_store st') \<Longrightarrow> R x st') \<Longrightarrow> safe ctx sc E st m R"
  by (auto simp: safe_def split: sum.splits)

lemma safe_indices [simp]: "safe ctx sc E (st\<lparr>rx_indices := I\<rparr>) m Q = safe ctx sc E st m Q"
  by (cases m) (simp_all add: safe_def case_prod_unfold)

lemma safe_or_stop: "stored ctx sc E (rx_store st) \<Longrightarrow> r = Inr x \<Longrightarrow> Q x st \<Longrightarrow> safe ctx sc E st (or_stop st r) Q"
  by (simp add: safe_def or_stop_def)

lemma safe_storage:
  assumes "stored ctx sc E (rx_store st)" "operation (rx_store st) = Inr (x, store)" "stored ctx sc E store" "rows_grow (rx_store st) store"
    "\<And>left. Q x (st\<lparr>rx_store := store, rx_left := left\<rparr>)"
  shows "safe ctx sc E st (reducer_storage operation st) Q"
  using assms by (simp add: safe_def reducer_storage_def)

lemma safe_query:
  assumes "stored ctx sc E (rx_store st)" "\<And>st'. same st st' \<Longrightarrow> Q (f (rx_store st)) st'"
  shows "safe ctx sc E st (reducer_query f st) Q"
  using assms(1) by (auto simp: safe_def reducer_query_def reducer_storage_def same_def intro!: assms(2))

subsection \<open>Iteration\<close>

definition rows_after :: "('k \<Rightarrow> 'o::linorder) \<Rightarrow> ('k \<times> 'r) list \<Rightarrow> 'k \<Rightarrow> ('k \<times> 'r) list" where
  "rows_after h rows after = sort_key (h \<circ> fst) (filter (\<lambda>r. h after < (h \<circ> fst) r) rows)"

lemma remaining_tail:
  assumes "distinct (map (h \<circ> fst) rows)" "rows_after h rows after = r # rs"
  shows "rows_after h rows (fst r) = rs"
proof -
  let ?S = "sort_key (h \<circ> fst) rows"
  have eq: "rows_after h rows k = filter (\<lambda>r. h k < (h \<circ> fst) r) ?S" for k by (simp add: rows_after_def filter_sort)
  have "sorted (map (h \<circ> fst) ?S)" by simp
  moreover have "distinct (map (h \<circ> fst) ?S)" using assms(1) by (metis mset_eq_imp_distinct_iff mset_map mset_sort)
  ultimately have "sorted_wrt (<) (map (h \<circ> fst) ?S)" by (simp add: strict_sorted_iff)
  then have "sorted_wrt (\<lambda>x y. h (fst x) < h (fst y)) (rows_after h rows after)"
    unfolding eq by (intro sorted_wrt_filter) (simp add: sorted_wrt_map)
  then have less: "h (fst r) < h (fst x)" if "x \<in> set rs" for x using that by (simp add: assms(2))
  have "r \<in> set (rows_after h rows after)" by (simp add: assms(2))
  then have "h after < h (fst r)" unfolding eq by simp
  then have "rows_after h rows (fst r) = filter (\<lambda>x. h (fst r) < (h \<circ> fst) x) (rows_after h rows after)"
    unfolding eq filter_filter by (intro filter_cong) (auto intro: less_trans)
  also have "\<dots> = rs" using less by (simp add: assms(2))
  finally show ?thesis .
qed

definition reading :: "('k \<Rightarrow> 'o::linorder) \<Rightarrow> ('k \<times> 'r) list \<Rightarrow> nat \<Rightarrow> 'k \<Rightarrow> ('k, 'k \<times> 'r) generator \<Rightarrow> bool" where
  "reading h rows ordinal after gen \<longleftrightarrow> gen = Fresh after \<or> (\<exists>k. gen = Reading after ordinal (take k (rows_after h rows after)))"

definition row_yielded where
  "row_yielded h rows ordinal after y \<longleftrightarrow> (case rows_after h rows after of [] \<Rightarrow> fst y = None
     | r # rs \<Rightarrow> fst y = Some r \<and> reading h rows ordinal (fst r) (snd y))"

lemma next_row_safe:
  fixes h :: "'k \<Rightarrow> 'o::linorder"
  assumes "stored ctx sc E (rx_store st)" "\<And>a. statement (ix_ordinal (rx_indices st ns)) a (rx_store st) = bounded_page (h \<circ> fst) bytes (h a) rows"
    "distinct (map (h \<circ> fst) rows)" "\<And>r. r \<in> set rows \<Longrightarrow> bytes r \<le> 524288" "least \<le> ix_ordinal (rx_indices st ns)"
    "reading h rows (ix_ordinal (rx_indices st ns)) after gen"
  shows "safe ctx sc E st (next_row least reread statement fst ns gen st)
    (\<lambda>y st'. same st st' \<and> row_yielded h rows (ix_ordinal (rx_indices st ns)) after y)"
proof -
  let ?o = "ix_ordinal (rx_indices st ns)" and ?Q = "\<lambda>y st'. same st st' \<and> row_yielded h rows (ix_ordinal (rx_indices st ns)) after y"
  have tail: "reading h rows ?o (fst r) (Reading (fst r) ?o (take k rs))" if "rows_after h rows after = r # rs" for r rs k
    using remaining_tail [OF assms(3) that] by (auto simp: reading_def)
  have fetch: "safe ctx sc E st (fetch_rows statement fst ?o after st) ?Q"
    unfolding fetch_rows_def
  proof (rule safe_bind [where Q = "\<lambda>page st'. same st st' \<and> page = bounded_page (h \<circ> fst) bytes (h after) rows"], rule safe_query [OF assms(1)])
    fix page st' assume p: "same st st' \<and> page = bounded_page (h \<circ> fst) bytes (h after) rows" "stored ctx sc E (rx_store st')"
    obtain k where k: "page = take k (rows_after h rows after)" "rows_after h rows after \<noteq> [] \<longrightarrow> 0 < k"
      using bounded_page_prefix [where key = "h \<circ> fst" and bytes = bytes and after = "h after", OF assms(3)] assms(4) p(1) unfolding rows_after_def by auto
    show "safe ctx sc E st' (case page of [] \<Rightarrow> Inr ((None, Finished), st') | r # rs \<Rightarrow> Inr ((Some r, Reading (fst r) ?o rs), st')) ?Q"
    proof (cases "rows_after h rows after")
      case Nil
      then show ?thesis using p k by (auto intro!: safe_return simp: row_yielded_def)
    next
      case (Cons r rs)
      then obtain j where j: "page = r # take j rs" using k by (cases k) auto
      then show ?thesis using p tail [OF Cons] by (auto intro!: safe_return simp: row_yielded_def Cons)
    qed
  qed (simp add: assms(2))
  consider "gen = Fresh after" | k where "gen = Reading after ?o (take k (rows_after h rows after))" using assms(6) by (auto simp: reading_def)
  then show ?thesis
  proof cases
    case 1
    then show ?thesis using fetch assms(5) by (simp add: next_row_def Let_def)
  next
    case (2 k)
    show ?thesis
    proof (cases "take k (rows_after h rows after)")
      case Nil
      then show ?thesis using fetch by (auto simp: 2 next_row_def Let_def)
    next
      case (Cons r rs)
      then obtain rs' j where rs': "rows_after h rows after = r # rs'" "rs = take j rs'" by (cases k; cases "rows_after h rows after") auto
      then show ?thesis using assms(1) tail [OF rs'(1), of j] Cons by (auto intro!: safe_return simp: 2 next_row_def Let_def row_yielded_def)
    qed
  qed
qed

lemma for_await_safe:
  fixes h :: "'k \<Rightarrow> 'o::linorder"
  assumes "stored ctx sc E (rx_store st)" "\<And>a. statement (ix_ordinal (rx_indices st ns)) a (rx_store st) = bounded_page (h \<circ> fst) bytes (h a) rows"
    "distinct (map (h \<circ> fst) rows)" "\<And>r. r \<in> set rows \<Longrightarrow> bytes r \<le> 524288" "least \<le> ix_ordinal (rx_indices st ns)"
    "reading h rows (ix_ordinal (rx_indices st ns)) after gen"
    "\<And>k r. (k, r) \<in> set rows \<Longrightarrow> verified_row ctx (rx_store st) r = Inr (val r)"
    "rfold (\<lambda>(k, r). body (k, val r, row_bytes r)) (rows_after h rows after) acc = Inr acc'" "length (rows_after h rows after) < fuel"
  shows "safe ctx sc E st (for_await fuel (\<lambda>gen st. rbind (next_row least reread statement fst ns gen st) (\<lambda>(y, st'). yield_entry ctx y st')) body gen acc st)
    (\<lambda>x st'. same st st' \<and> x = acc')"
  using assms
proof (induction fuel arbitrary: st after gen acc)
  case (Suc fuel)
  let ?o = "ix_ordinal (rx_indices st ns)"
  let ?next = "\<lambda>gen st. rbind (next_row least reread statement fst ns gen st) (\<lambda>(y, st'). yield_entry ctx y st')"
  let ?Y = "\<lambda>y st'. same st st' \<and> (case rows_after h rows after of [] \<Rightarrow> fst y = None
     | (k, r) # rs \<Rightarrow> fst y = Some (k, val r, row_bytes r) \<and> reading h rows ?o k (snd y))"
  have row: "safe ctx sc E st (next_row least reread statement fst ns gen st) (\<lambda>y st'. same st st' \<and> row_yielded h rows ?o after y)"
    by (rule next_row_safe [where bytes = bytes]) (fact Suc.prems)+
  have next': "safe ctx sc E st (?next gen st) ?Y"
  proof (rule safe_bind [OF row], goal_cases)
    case (1 y st')
    obtain row gen' where y: "y = (row, gen')" by fastforce
    show ?case
    proof (cases "rows_after h rows after")
      case Nil
      then show ?thesis using 1 by (auto intro!: safe_return simp: y yield_entry_def row_yielded_def)
    next
      case (Cons kr rs)
      obtain k r where kr: "kr = (k, r)" by fastforce
      have "set (rows_after h rows after) \<subseteq> set rows" by (auto simp: rows_after_def)
      then have "verified_row ctx (rx_store st') r = Inr (val r)" using Suc.prems(7) [of k r] 1(1) Cons by (auto simp: same_def kr)
      moreover have "row = Some (k, r)" "reading h rows ?o k gen'" using 1(1) by (auto simp: y row_yielded_def Cons kr)
      ultimately show ?thesis using 1 by (simp add: y yield_entry_def Cons kr or_stop_def safe_return)
    qed
  qed
  show ?case unfolding for_await.simps
  proof (rule safe_bind [OF next'], goal_cases)
    case (1 y st')
    obtain entry gen' where y: "y = (entry, gen')" by fastforce
    show ?case
    proof (cases "rows_after h rows after")
      case Nil
      then show ?thesis using 1 Suc.prems(8) by (auto intro!: safe_return simp: y)
    next
      case (Cons kr rs)
      obtain k r where kr: "kr = (k, r)" by fastforce
      obtain acc1 where acc1: "body (k, val r, row_bytes r) acc = Inr acc1"
        "rfold (\<lambda>(k, r). body (k, val r, row_bytes r)) rs acc1 = Inr acc'"
        using Suc.prems(8) by (auto simp: Cons kr rbind_eq_Inr)
      have rs: "rows_after h rows k = rs" using remaining_tail [OF Suc.prems(3) Cons] by (simp add: kr)
      have st': "same st st'" "entry = Some (k, val r, row_bytes r)" "reading h rows ?o k gen'" using 1(1) by (auto simp: y Cons kr)
      have "safe ctx sc E st' (for_await fuel ?next body gen' acc1 st') (\<lambda>x st''. same st' st'' \<and> x = acc')"
        by (rule Suc.IH [of _ k]) (use Suc.prems 1 st' acc1 rs in \<open>auto simp: same_def Cons\<close>)
      then show ?thesis using st' acc1(1) by (auto simp: y or_stop_def elim: safe_mono intro: same_trans)
    qed
  qed
qed simp

subsection \<open>Indices and views\<close>

definition last_known :: "reducer_context \<Rightarrow> view \<Rightarrow> string \<times> js_string \<times> RecordEnvelope \<Rightarrow> bool" where
  "last_known ctx w = (\<lambda>(d, content, envelope). \<exists>key v. vw_written w key = Some v \<and> d = sha256Text key \<and> envelope = envelope_of ctx v \<and> re_parts envelope = [])"

definition index_at :: "reducer_context \<Rightarrow> view \<Rightarrow> reducer_index \<Rightarrow> bool" where
  "index_at ctx w ix \<longleftrightarrow> ix_ordinal ix = vw_ordinal w \<and>
     (if ix_completed ix then vw_closed w \<and> ix_written ix = {} else ix_written ix = sha256Text ` dom (vw_written w)) \<and>
     (case ix_last ix of None \<Rightarrow> True | Some l \<Rightarrow> last_known ctx w l)"

definition indexed :: "reducer_context \<Rightarrow> scope \<Rightarrow> views \<Rightarrow> (string \<Rightarrow> reducer_index) \<Rightarrow> bool" where
  "indexed ctx sc V indices \<longleftrightarrow> (\<forall>ns\<in>sp_names sc. index_at ctx (V ns) (indices ns))"

definition sim :: "reducer_context \<Rightarrow> scope \<Rightarrow> effect set \<Rightarrow> effect set \<Rightarrow> views \<Rightarrow> reducer_state \<Rightarrow> bool" where
  "sim ctx sc E P V st \<longleftrightarrow> world ctx sc E \<and> history P V \<and> P \<subseteq> E \<and> stored ctx sc E (rx_store st) \<and> effects_present ctx P (rx_store st) \<and>
     indexed ctx sc V (rx_indices st)"

lemma sim_same: "sim ctx sc E P V st \<Longrightarrow> same st st' \<Longrightarrow> sim ctx sc E P V st'"
  by (simp add: sim_def same_def)

lemma simD:
  assumes "sim ctx sc E P V st"
  shows "world ctx sc E" "history P V" "P \<subseteq> E" "stored ctx sc E (rx_store st)" "effects_present ctx P (rx_store st)"
    "ns \<in> sp_names sc \<Longrightarrow> index_at ctx (V ns) (rx_indices st ns)"
  using assms by (auto simp: sim_def indexed_def)

lemma key_known: "world ctx sc E \<Longrightarrow> P \<subseteq> E \<Longrightarrow> (ns, key, n, v) \<in> P \<Longrightarrow> key \<in> sp_keys sc \<and> fact_row ctx ns v \<noteq> None \<and> 0 < n"
proof -
  assume "world ctx sc E" "P \<subseteq> E" "(ns, key, n, v) \<in> P"
  then have "effect_ok ctx sc (ns, key, n, v)" unfolding world_def by blast
  then show ?thesis by (simp add: effect_ok_def fact_ok_def)
qed

lemma same_key: "world ctx sc E \<Longrightarrow> sha256Text key = sha256Text key' \<Longrightarrow> key \<in> sp_keys sc \<Longrightarrow> key' \<in> sp_keys sc \<Longrightarrow> key = key'"
  by (auto simp: world_def no_collision_def dest: inj_onD)

lemma map_latest: "history P V \<Longrightarrow> map_of (vw_map (V ns)) key = Some v \<longleftrightarrow> is_latest P ns key (Suc (vw_ordinal (V ns))) v"
  unfolding history_def amounts_to_def by blast

lemma before_latest: "history P V \<Longrightarrow> map_of (vw_before (V ns)) key = Some v \<longleftrightarrow> is_latest P ns key (vw_ordinal (V ns)) v"
  unfolding history_def amounts_to_def by blast

lemma past_or_ahead: "ahead (E - P) V \<Longrightarrow> (ns, key, n, v) \<in> E \<Longrightarrow> (ns, key, n, v) \<in> P \<or> vw_ordinal (V ns) < n \<or> vw_ordinal (V ns) = n \<and> \<not> vw_closed (V ns)"
  by (fastforce simp: ahead_def to_come_def)

text \<open>The bound of a read separates the past from rows that a replay has yet to write.\<close>

lemma read_before_view:
  assumes "sim ctx sc E P V st" "ahead (E - P) V" "ns \<in> sp_names sc" "key \<in> sp_keys sc"
  shows "known_below E P ns key (read_before (rx_indices st ns) (sha256Text key))"
    "is_latest P ns key (read_before (rx_indices st ns) (sha256Text key)) v \<longleftrightarrow> map_of (vw_map (V ns)) key = Some v"
proof -
  let ?ix = "rx_indices st ns" and ?w = "V ns"
  note sim = simD [OF assms(1)]
  have ix: "index_at ctx ?w ?ix" using sim(6) assms(3) by blast
  have ord: "ix_ordinal ?ix = vw_ordinal ?w" using ix by (simp add: index_at_def)
  consider "ix_completed ?ix" | "\<not> ix_completed ?ix" "sha256Text key \<in> ix_written ?ix" | "\<not> ix_completed ?ix" "sha256Text key \<notin> ix_written ?ix" by blast
  then have "known_below E P ns key (read_before ?ix (sha256Text key)) \<and>
      (\<forall>v. is_latest P ns key (read_before ?ix (sha256Text key)) v \<longleftrightarrow> map_of (vw_map ?w) key = Some v)"
  proof cases
    case 1
    then have "read_before ?ix (sha256Text key) = Suc (vw_ordinal ?w)" "vw_closed ?w" using ix by (auto simp: read_before_def index_at_def)
    then show ?thesis using past_or_ahead [OF assms(2)] map_latest [OF sim(2)] by (fastforce simp: known_below_def)
  next
    case 2
    then have b: "read_before ?ix (sha256Text key) = Suc (vw_ordinal ?w)" using ord by (simp add: read_before_def)
    obtain key' w where w: "vw_written ?w key' = Some w" "sha256Text key = sha256Text key'" using 2 ix by (auto simp: index_at_def)
    then have "(ns, key', vw_ordinal ?w, w) \<in> P" using written_iff [OF sim(2)] by blast
    moreover from this have "key' = key" using same_key [OF sim(1) w(2) assms(4)] key_known [OF sim(1,3)] by blast
    ultimately have now: "(ns, key, vw_ordinal ?w, w) \<in> P" by simp
    have "(ns, key, n, v) \<in> P" if "(ns, key, n, v) \<in> E" "n < Suc (vw_ordinal ?w)" for n v
    proof (rule ccontr)
      assume "(ns, key, n, v) \<notin> P"
      then have "n = vw_ordinal ?w" using past_or_ahead [OF assms(2) that(1)] that(2) by auto
      then have "v = w" using now that(1) sim(1,3) unfolding world_def one_effect_def by blast
      then show False using now \<open>n = vw_ordinal ?w\<close> \<open>(ns, key, n, v) \<notin> P\<close> by simp
    qed
    then show ?thesis using map_latest [OF sim(2)] by (auto simp: b known_below_def)
  next
    case 3
    then have b: "read_before ?ix (sha256Text key) = vw_ordinal ?w" using ord by (simp add: read_before_def)
    have "vw_written ?w key = None" using 3 ix by (auto simp: index_at_def dom_def image_iff)
    then have "(ns, key, vw_ordinal ?w, v) \<notin> P" for v using written_iff [OF sim(2), of ns key v] by simp
    then have "is_latest P ns key (vw_ordinal ?w) v \<longleftrightarrow> map_of (vw_map ?w) key = Some v" for v
      using map_latest [OF sim(2)] is_latest_Suc_absent [of ns key "vw_ordinal ?w" P] by simp
    moreover have "known_below E P ns key (vw_ordinal ?w)" using past_or_ahead [OF assms(2)] by (fastforce simp: known_below_def)
    ultimately show ?thesis by (simp add: b)
  qed
  then show "known_below E P ns key (read_before ?ix (sha256Text key))"
    "is_latest P ns key (read_before ?ix (sha256Text key)) v \<longleftrightarrow> map_of (vw_map ?w) key = Some v" by blast+
qed

lemma row_read:
  assumes "sim ctx sc E P V st" "ahead (E - P) V" "ns \<in> sp_names sc" "key \<in> sp_keys sc"
  shows "reducerState (rx_store st) ns (sha256Text key) (read_before (rx_indices st ns) (sha256Text key)) =
    Option.bind (map_of (vw_map (V ns)) key) (fact_row ctx ns)"
    "map_of (vw_map (V ns)) key = Some v \<Longrightarrow> fact_row ctx ns v \<noteq> None \<and> covered ctx (rx_store st) v"
proof -
  note sim = simD [OF assms(1)] and view = read_before_view [OF assms]
  note rs = reducerState_latest [OF sim(1,4,5,3) view(1) assms(4)]
  show "reducerState (rx_store st) ns (sha256Text key) (read_before (rx_indices st ns) (sha256Text key)) = Option.bind (map_of (vw_map (V ns)) key) (fact_row ctx ns)"
  proof (cases "map_of (vw_map (V ns)) key")
    case None
    then show ?thesis using rs(2) view(2) by simp
  next
    case (Some v)
    then show ?thesis using rs(1) [of v] view(2) by auto
  qed
  show "map_of (vw_map (V ns)) key = Some v \<Longrightarrow> fact_row ctx ns v \<noteq> None \<and> covered ctx (rx_store st) v" using rs(1) [of v] view(2) by auto
qed

lemma restore_read:
  assumes "sim ctx sc E P V st" "ahead (E - P) V" "ns \<in> sp_names sc" "key \<in> sp_keys sc" "same st st'"
  shows "restoreRow ctx (reducerState (rx_store st) ns (sha256Text key) (read_before (rx_indices st ns) (sha256Text key))) st' = Inr (spec_get ctx V ns key, st')"
proof (cases "map_of (vw_map (V ns)) key")
  case None
  then show ?thesis using row_read [OF assms(1-4)] by (simp add: restoreRow_def spec_get_def)
next
  case (Some v)
  then obtain r where r: "fact_row ctx ns v = Some r" "covered ctx (rx_store st) v" using row_read(2) [OF assms(1-4)] by blast
  have "verified_row ctx (rx_store st') r = Inr (kept ctx v)"
    using verified_fact [OF _ r] simD(1) [OF assms(1)] assms(5) by (simp add: world_def same_def)
  then show ?thesis using row_read(1) [OF assms(1-4)] Some r by (simp add: restoreRow_def spec_get_def or_stop_def)
qed

lemma no_entries: "history P V \<Longrightarrow> vw_ordinal (V ns) = 0 \<Longrightarrow> vw_map (V ns) = []"
proof -
  assume h: "history P V" "vw_ordinal (V ns) = 0"
  then have "map_of (vw_map (V ns)) key \<noteq> Some v" for key v using map_latest [OF h(1), of ns key v] past_bound [OF h(1)] by (fastforce simp: is_latest_def)
  then have "map_of (vw_map (V ns)) = Map.empty" by (intro ext) (meson not_Some_eq)
  then show ?thesis by (simp add: map_of_eq_empty_iff)
qed

text \<open>A read is answered from memory, or by the row below its bound.\<close>

lemma request_spec:
  assumes "sim ctx sc E P V st" "ahead (E - P) V" "ns \<in> sp_names sc" "key \<in> sp_keys sc"
  shows "case readRequest (rx_indices st ns) key of
     Nothing_retained \<Rightarrow> spec_get ctx V ns key = None
   | Cached v \<Rightarrow> spec_get ctx V ns key = Some v
   | Statement d b \<Rightarrow> d = sha256Text key \<and> b = read_before (rx_indices st ns) (sha256Text key)"
proof (cases "ix_ordinal (rx_indices st ns) = 0")
  case True
  then have "vw_ordinal (V ns) = 0" using simD(6) [OF assms(1,3)] by (simp add: index_at_def)
  then show ?thesis using True no_entries simD(2) [OF assms(1)] by (simp add: readRequest_def spec_get_def)
next
  case False
  show ?thesis
  proof (cases "ix_last (rx_indices st ns)")
    case (Some l)
    obtain d c envelope where l: "l = (d, c, envelope)" by (cases l)
    obtain key' v where k: "vw_written (V ns) key' = Some v" "d = sha256Text key'" "envelope = envelope_of ctx v" "re_parts envelope = []"
      using simD(6) [OF assms(1,3)] by (auto simp: index_at_def Some l last_known_def)
    have P: "(ns, key', vw_ordinal (V ns), v) \<in> P" using k(1) written_iff [OF simD(2) [OF assms(1)]] by blast
    have "spec_get ctx V ns key = Some (re_value envelope)" if "d = sha256Text key"
    proof -
      have "key' = key" using same_key simD(1,3) [OF assms(1)] key_known P that k(2) assms(4) by metis
      then have "is_latest P ns key (Suc (vw_ordinal (V ns))) v" using P unfolding is_latest_def by (metis less_Suc_eq_le lessI)
      then have "map_of (vw_map (V ns)) key = Some v" using map_latest [OF simD(2) [OF assms(1)]] by blast
      then show ?thesis using k plain_fact by (simp add: spec_get_def)
    qed
    then show ?thesis using False by (simp add: readRequest_def Let_def Some l)
  qed (use False in \<open>simp add: readRequest_def Let_def\<close>)
qed

lemma get_safe:
  assumes "sim ctx sc E P V st" "ahead (E - P) V" "ns \<in> sp_names sc" "key \<in> sp_keys sc"
  shows "safe ctx sc E st (reducer_get ctx ns key st) (\<lambda>x st'. x = spec_get ctx V ns key \<and> same st st')"
proof (cases "readRequest (rx_indices st ns) key")
  case (Statement d b)
  have "safe ctx sc E st (rbind (reducer_query (\<lambda>store. reducerState store ns d b) st) (\<lambda>(row, st'). restoreRow ctx row st'))
      (\<lambda>x st'. x = spec_get ctx V ns key \<and> same st st')"
  proof (rule safe_bind [where Q = "\<lambda>row st'. row = reducerState (rx_store st) ns d b \<and> same st st'"], rule safe_query)
    fix row st' assume "row = reducerState (rx_store st) ns d b \<and> same st st'" "stored ctx sc E (rx_store st')"
    then show "safe ctx sc E st' (restoreRow ctx row st') (\<lambda>x st'. x = spec_get ctx V ns key \<and> same st st')"
      using restore_read [OF assms] request_spec [OF assms] Statement by (simp add: safe_return)
  qed (use simD(4) [OF assms(1)] in auto)
  then show ?thesis by (simp add: reducer_get_def Statement)
qed (use request_spec [OF assms] simD(4) [OF assms(1)] in \<open>auto simp: reducer_get_def intro!: safe_return\<close>)

subsection \<open>Pending writes\<close>

text \<open>
  Between its preparation and its acceptance a write is pending: its row may be missing, and its index does
  not know of it yet.
\<close>

definition noted :: "prepared_write list \<Rightarrow> (string \<Rightarrow> reducer_index) \<Rightarrow> string \<Rightarrow> reducer_index" where
  "noted ws I = fold (\<lambda>w I. I(pw_namespace w := note_write w (I (pw_namespace w)))) ws I"

definition write_good :: "reducer_context \<Rightarrow> effect set \<Rightarrow> reducer_store \<Rightarrow> prepared_write \<Rightarrow> bool" where
  "write_good ctx E store w \<longleftrightarrow> row_known ctx E store (pw_place w, pw_row w)"

definition due :: "reducer_context \<Rightarrow> effect set \<Rightarrow> prepared_write list \<Rightarrow> reducer_store \<Rightarrow> bool" where
  "due ctx P ws store \<longleftrightarrow> (\<forall>(ns, key, n, v)\<in>P. \<exists>r. fact_row ctx ns v = Some r \<and>
     ((ns, sha256Text key, n), r) \<in> set (rs_rows store) \<union> (\<lambda>w. (pw_place w, pw_row w)) ` set ws)"

definition pend :: "reducer_context \<Rightarrow> scope \<Rightarrow> effect set \<Rightarrow> effect set \<Rightarrow> views \<Rightarrow> prepared_write list \<Rightarrow> reducer_state \<Rightarrow> bool" where
  "pend ctx sc E P V ws st \<longleftrightarrow> world ctx sc E \<and> history P V \<and> P \<subseteq> E \<and> stored ctx sc E (rx_store st) \<and> due ctx P ws (rx_store st) \<and>
     indexed ctx sc V (noted ws (rx_indices st)) \<and>
     (\<forall>w\<in>set ws. write_good ctx E (rx_store st) w \<and> pw_ordinal w \<le> ix_ordinal (rx_indices st (pw_namespace w)))"

lemma pend_Nil: "pend ctx sc E P V [] st \<longleftrightarrow> sim ctx sc E P V st"
  by (simp add: pend_def sim_def due_def effects_present_def noted_def)

lemma ordinal_note [simp]: "ix_ordinal (note_write w ix) = ix_ordinal ix" "ix_completed (note_write w ix) = ix_completed ix"
  by (simp_all add: note_write_def)

lemma noted_simps [simp]:
  "noted [] I = I" "noted (ws @ ws') I = noted ws' (noted ws I)" "noted [w] I = I(pw_namespace w := note_write w (I (pw_namespace w)))"
  by (simp_all add: noted_def)

lemma noted_Cons: "noted (w # ws) I = noted ws (I(pw_namespace w := note_write w (I (pw_namespace w))))"
  by (simp add: noted_def)

lemma ordinal_noted [simp]: "ix_ordinal (noted ws I ns) = ix_ordinal (I ns)"
  by (induction ws arbitrary: I) (simp_all add: noted_Cons)

lemma noted_late:
  assumes "\<And>w. w \<in> set ws \<Longrightarrow> pw_namespace w = ns \<Longrightarrow> pw_ordinal w \<noteq> ix_ordinal ix"
  shows "noted ws (I(ns := ix)) = (noted ws I)(ns := ix)"
  using assms
proof (induction ws arbitrary: I)
  case (Cons w ws)
  show ?case
  proof (cases "pw_namespace w = ns")
    case True
    then have "pw_ordinal w \<noteq> ix_ordinal ix" using Cons.prems by simp
    then have "note_write w ix = ix" by (simp add: note_write_def)
    moreover have "noted ws (I(ns := ix)) = (noted ws (I(ns := x)))(ns := ix)" for x
    proof -
      have "noted ws ((I(ns := x))(ns := ix)) = (noted ws (I(ns := x)))(ns := ix)" by (rule Cons.IH) (use Cons.prems in auto)
      then show ?thesis by (simp only: fun_upd_upd)
    qed
    ultimately show ?thesis unfolding noted_Cons True by simp
  next
    case False
    have "noted ws ((I(pw_namespace w := x))(ns := ix)) = (noted ws (I(pw_namespace w := x)))(ns := ix)" for x
      by (rule Cons.IH) (use Cons.prems in auto)
    then show ?thesis using False unfolding noted_Cons by (simp add: fun_upd_twist [of ns] del: fun_upd_apply) (simp add: False)
  qed
qed simp

definition write_of :: "reducer_context \<Rightarrow> nat \<Rightarrow> fact \<Rightarrow> prepared_write" where
  "write_of ctx n = (\<lambda>(ns, key, v). \<lparr>pw_namespace = ns, pw_digest = sha256Text key, pw_ordinal = n, pw_row = the (fact_row ctx ns v)\<rparr>)"

lemma note_index:
  assumes "index_at ctx (V ns) ix" "fact_row ctx ns v \<noteq> None" "\<not> vw_closed (V ns)"
  shows "index_at ctx (spec_write (ns, key, v) V ns) (note_write (write_of ctx (ix_ordinal ix) (ns, key, v)) ix)"
proof -
  obtain r where r: "fact_row ctx ns v = Some r" using assms(2) by blast
  have "\<not> ix_completed ix" using assms(1,3) by (auto simp: index_at_def)
  then show ?thesis using assms(1) fact_row_shape(1) [OF r]
    by (auto simp: index_at_def note_write_def write_of_def spec_write_def r last_known_def)
qed

lemma retain_texts_safe:
  assumes "world ctx sc E" "stored ctx sc E (rx_store st)" "snd ` set (long_texts (rc_nfc ctx) (json_clone v)) \<subseteq> sp_texts sc"
  shows "safe ctx sc E st (retain_texts ctx (json_clone v) st)
    (\<lambda>envelope st'. envelope = envelope_of ctx v \<and> rx_indices st' = rx_indices st \<and> rs_rows (rx_store st') = rs_rows (rx_store st) \<and> covered ctx (rx_store st') v)"
proof -
  let ?ts = "long_texts (rc_nfc ctx) (json_clone v)"
  have "inj_on sha256Text (sp_texts sc)" "table_within (sp_texts sc) (rs_texts (rx_store st))"
    using assms(1,2) by (auto simp: world_def no_collision_def stored_def)
  from retain_ok [OF this assms(3)] obtain texts where t: "retainPartitionedRecord (rc_nfc ctx) (json_clone v) (rs_texts (rx_store st)) = Inr (envelope_of ctx v, texts)"
    "table_within (sp_texts sc) texts" "rs_texts (rx_store st) \<subseteq>\<^sub>m texts" "\<forall>(sha, i, c)\<in>chunks_of (snd ` set ?ts). texts (sha, i) = Some c"
    unfolding envelope_of_def by blast
  let ?store = "(rx_store st)\<lparr>rs_texts := texts\<rparr>"
  have g: "rows_grow (rx_store st) ?store" using t(3) by (simp add: rows_grow_def)
  have "stored ctx sc E ?store" using assms(2) t(2) row_known_grows [OF g] by (auto simp: stored_def list_all_iff)
  moreover have "covered ctx ?store v" using t(4) by (force simp: covered_def covers_def chunks_of_def)
  moreover have "covered ctx (rx_store st) v" if "re_parts (envelope_of ctx v) = []" using that by (simp add: envelope_of_def covered_def)
  ultimately show ?thesis using g assms(2) by (auto simp: retain_texts_def t(1) safe_def)
qed

lemma prepare_safe:
  assumes "world ctx sc E" "stored ctx sc E (rx_store st)" "fact_ok ctx sc (ns, key, v)"
  shows "safe ctx sc E st (prepareWrite ctx ns key v st)
    (\<lambda>w st'. w = write_of ctx (ix_ordinal (rx_indices st ns)) (ns, key, v) \<and> rx_indices st' = rx_indices st \<and> rs_rows (rx_store st') = rs_rows (rx_store st) \<and>
       covered ctx (rx_store st') v)"
proof -
  obtain r where r: "fact_row ctx ns v = Some r" using assms(3) by (auto simp: fact_ok_def)
  note shape = fact_row_shape [OF r]
  have texts: "snd ` set (long_texts (rc_nfc ctx) (json_clone v)) \<subseteq> sp_texts sc" using assms(3) by (simp add: fact_ok_def)
  have "safe ctx sc E st (rbind (retain_texts ctx (json_clone v) st) (\<lambda>(envelope, st1).
           rbind (or_stop st1 (with_error Fact_json (canonicalJson (rc_nfc ctx) (envelope_value envelope)))) (\<lambda>(content, st2).
           if byte_length content > 524288 then Inl (Fact_capacity, rx_store st2)
           else Inr (\<lparr>pw_namespace = ns, pw_digest = sha256Text key, pw_ordinal = ix_ordinal (rx_indices st ns),
               pw_row = \<lparr>rr_envelope = envelope, rr_content = content, rr_sha = sha256Text content,
                  rr_group = map_option (\<lambda>group. sha256Text (group v)) (rc_group ctx ns)\<rparr>\<rparr>, st2))))
    (\<lambda>w st'. w = write_of ctx (ix_ordinal (rx_indices st ns)) (ns, key, v) \<and> rx_indices st' = rx_indices st \<and> rs_rows (rx_store st') = rs_rows (rx_store st) \<and>
       covered ctx (rx_store st') v)"
  proof (rule safe_bind [OF retain_texts_safe [OF assms(1,2) texts]], goal_cases)
    case (1 envelope st')
    then show ?case using shape by (auto simp: or_stop_def row_bytes_def write_of_def r intro!: safe_return)
  qed
  then show ?thesis using shape(5) by (simp add: prepareWrite_def)
qed

lemma due_insert:
  assumes "due ctx P ws store" "fact_row ctx ns v \<noteq> None" "rs_rows store' = rs_rows store"
  shows "due ctx (insert (ns, key, n, v) P) (ws @ [write_of ctx n (ns, key, v)]) store'"
  using assms by (fastforce simp: due_def write_of_def pw_place_def)

lemma prepare_pend:
  assumes "pend ctx sc E P V ws st" "write_permitted ctx sc f V" "effect_of V f \<in> E"
  shows "safe ctx sc E st (prepareWrite ctx (fst f) (fst (snd f)) (snd (snd f)) st)
    (\<lambda>w st'. pend ctx sc E (insert (effect_of V f) P) (spec_write f V) (ws @ [w]) st' \<and> pw_bytes w = fact_bytes ctx (fst f) (snd (snd f)))"
proof -
  obtain ns key v where f: "f = (ns, key, v)" by (cases f)
  have ok: "fact_ok ctx sc (ns, key, v)" "\<not> vw_closed (V ns)" "0 < vw_ordinal (V ns)" "ns \<in> sp_names sc" "fact_row ctx ns v \<noteq> None"
    "vw_written (V ns) key = None \<or> vw_written (V ns) key = Some v"
    using assms(2) by (auto simp: f write_permitted_def fact_ok_def split: option.splits)
  note p = assms(1) [unfolded pend_def]
  have at: "index_at ctx (V ns) (noted ws (rx_indices st) ns)" using p ok(4) by (simp add: indexed_def)
  then have ord: "ix_ordinal (rx_indices st ns) = vw_ordinal (V ns)" by (simp add: index_at_def)
  let ?w = "write_of ctx (vw_ordinal (V ns)) (ns, key, v)"
  have "index_at ctx (spec_write f V ns) (note_write ?w (noted ws (rx_indices st) ns))"
    using note_index [where V = V, OF at ok(5,2), of key] ord by (simp add: f)
  then have ix: "indexed ctx sc (spec_write f V) (noted (ws @ [?w]) (rx_indices st))"
    using p by (auto simp: indexed_def write_of_def f spec_write_def)
  have hist: "history (insert (effect_of V f) P) (spec_write f V)" unfolding f using p ok by (intro history_write) auto
  show ?thesis unfolding f fst_conv snd_conv
  proof (rule safe_mono [OF prepare_safe [OF _ _ ok(1)]], goal_cases)
    case (3 w st')
    then have w: "w = ?w" "rx_indices st' = rx_indices st" "rs_rows (rx_store st') = rs_rows (rx_store st)" "covered ctx (rx_store st') v"
      by (auto simp: ord)
    have "write_good ctx E (rx_store st') x" if "x \<in> set ws" for x using p that row_known_grows [OF 3(3)] by (auto simp: write_good_def)
    moreover have "write_good ctx E (rx_store st') w" using assms(3) w(4) ok(5) by (auto simp: write_good_def row_known_def w(1) write_of_def pw_place_def f)
    moreover have "due ctx (insert (effect_of V f) P) (ws @ [w]) (rx_store st')" unfolding w(1) f effect_of.simps
      by (rule due_insert [OF _ ok(5) w(3)]) (use p in auto)
    moreover have "pw_bytes w = fact_bytes ctx ns v" using ok(5) by (auto simp: w(1) write_of_def pw_bytes_def fact_bytes_def)
    ultimately show ?case using p 3(2) hist ix assms(3) ord unfolding pend_def by (auto simp: f w(1,2) write_of_def)
  qed (use p in auto)
qed

end
