(* ===== verification/Reducer_Writes.thy ===== *)
theory Reducer_Writes
  imports Reducer_Steps
begin

text \<open>Writes and seeds of the reducers, and the reads of several keys or of a whole index, against the specification.\<close>

subsection \<open>Committing\<close>

lemma retain_row:
  assumes "world ctx sc E" "stored ctx sc E store" "write_good ctx E store w"
  shows "\<exists>r store'. retainReducerState (pw_place w) (pw_row w) store = Inr (r, store') \<and> stored ctx sc E store' \<and> rows_grow store store' \<and>
    (pw_place w, pw_row w) \<in> set (rs_rows store') \<and> (r = None \<or> r = Some (rr_content (pw_row w), rr_sha (pw_row w)))"
proof -
  obtain ns d n where place: "pw_place w = (ns, d, n)" by (metis surj_pair)
  obtain key v where kv: "(ns, key, n, v) \<in> E" "d = sha256Text key" "fact_row ctx ns v = Some (pw_row w)" "covered ctx store v"
    using assms(3) by (auto simp: write_good_def row_known_def place)
  have key: "0 < n" "key \<in> sp_keys sc" using key_known [OF assms(1) subset_refl kv(1)] by auto
  show ?thesis
  proof (cases "map_of (rs_rows store) (pw_place w)")
    case None
    let ?store = "store\<lparr>rs_rows := rs_rows store @ [(pw_place w, pw_row w)]\<rparr>"
    have g: "rows_grow store ?store" by (auto simp: rows_grow_def)
    have "pw_place w \<notin> fst ` set (rs_rows store)" using None by (simp add: map_of_eq_None_iff)
    moreover have "row_known ctx E ?store (pw_place w, pw_row w)" using assms(3) row_known_grows [OF g] by (simp add: write_good_def)
    ultimately have "stored ctx sc E ?store" using assms(2) row_known_grows [OF g] by (auto simp: stored_def list_all_iff)
    then show ?thesis using g None key(1) by (auto simp: retainReducerState_def place)
  next
    case (Some r)
    then have "((ns, sha256Text key, n), r) \<in> set (rs_rows store)" using map_of_SomeD kv(2) place by force
    then obtain v' where v': "(ns, key, n, v') \<in> E" "fact_row ctx ns v' = Some r" using stored_row [OF assms(1,2) _ key(2)] by blast
    then have "v' = v" using kv(1) assms(1) unfolding world_def one_effect_def by blast
    then have "r = pw_row w" using v'(2) kv(3) by simp
    then show ?thesis using Some assms(2) key(1) map_of_SomeD [OF Some] by (auto simp: retainReducerState_def place)
  qed
qed

lemma write_good_grows: "rows_grow store store' \<Longrightarrow> write_good ctx E store w \<Longrightarrow> write_good ctx E store' w"
  by (auto simp: write_good_def dest: row_known_grows)

lemma insert_writes_ok:
  assumes "world ctx sc E" "stored ctx sc E store" "\<forall>w\<in>set ws. write_good ctx E store w"
  shows "\<exists>rows store'. insert_writes ws store = Inr (rows, store') \<and> stored ctx sc E store' \<and> rows_grow store store' \<and>
    (\<forall>w\<in>set ws. (pw_place w, pw_row w) \<in> set (rs_rows store')) \<and>
    list_all2 (\<lambda>w r. r = None \<or> r = Some (rr_content (pw_row w), rr_sha (pw_row w))) ws rows"
  using assms(2,3)
proof (induction ws arbitrary: store)
  case (Cons w ws)
  then obtain r store1 where 1: "retainReducerState (pw_place w) (pw_row w) store = Inr (r, store1)" "stored ctx sc E store1" "rows_grow store store1"
    "(pw_place w, pw_row w) \<in> set (rs_rows store1)" "r = None \<or> r = Some (rr_content (pw_row w), rr_sha (pw_row w))"
    using retain_row [OF assms(1), of store w] by auto
  obtain rows store2 where 2: "insert_writes ws store1 = Inr (rows, store2)" "stored ctx sc E store2" "rows_grow store1 store2"
    "\<forall>w\<in>set ws. (pw_place w, pw_row w) \<in> set (rs_rows store2)"
    "list_all2 (\<lambda>w r. r = None \<or> r = Some (rr_content (pw_row w), rr_sha (pw_row w))) ws rows"
    using Cons.IH [OF 1(2)] Cons.prems(2) write_good_grows [OF 1(3)] by auto
  have "(pw_place w, pw_row w) \<in> set (rs_rows store2)" using 1(4) 2(3) by (auto simp: rows_grow_def)
  then show ?case using 1 2 grows_trans by auto
qed simp

lemma exact_row:
  assumes "stored ctx sc E store" "(pw_place w, pw_row w) \<in> set (rs_rows store)"
  shows "exactReducerState store (pw_place w) = Some (rr_content (pw_row w), rr_sha (pw_row w))"
  using assms by (simp add: exactReducerState_def stored_def)

lemma replayed_ok:
  assumes "stored ctx sc E store" "\<forall>w\<in>set ws. (pw_place w, pw_row w) \<in> set (rs_rows store)"
    "list_all2 (\<lambda>w r. r = None \<or> r = Some (rr_content (pw_row w), rr_sha (pw_row w))) ws rows"
  shows "replayed ws rows store = map (\<lambda>w. Some (rr_content (pw_row w), rr_sha (pw_row w))) ws"
  using assms(3,2) unfolding replayed_def
proof (induction ws rows rule: list_all2_induct)
  case (Cons w ws r rows)
  then have "exactReducerState store (pw_place w) = Some (rr_content (pw_row w), rr_sha (pw_row w))" using exact_row [OF assms(1)] by simp
  then show ?case using Cons by (auto simp: matchingReducerState_def)
qed simp

lemma all_inserted: "list_all2 (\<lambda>w r. r = None \<or> r = Some (c w)) ws rows \<Longrightarrow> None \<notin> set rows \<Longrightarrow> rows = map (\<lambda>w. Some (c w)) ws"
  by (induction ws rows rule: list_all2_induct) auto

lemma accept_all_ok:
  "accept_all (zip ws (map (\<lambda>w. Some (rr_content (pw_row w), rr_sha (pw_row w))) ws)) st = Inr ((), st\<lparr>rx_indices := noted ws (rx_indices st)\<rparr>)"
  by (induction ws arbitrary: st) (simp_all add: accept_write_def with_index_def noted_Cons)

lemma pend_accepted:
  assumes "pend ctx sc E P V (ws @ rest) st" "stored ctx sc E store" "rows_grow (rx_store st) store" "\<forall>w\<in>set ws. (pw_place w, pw_row w) \<in> set (rs_rows store)"
    "rx_indices st' = noted ws (rx_indices st)" "rx_store st' = store"
  shows "pend ctx sc E P V rest st'"
proof -
  have rows: "set (rs_rows (rx_store st)) \<subseteq> set (rs_rows store)" using assms(3) by (simp add: rows_grow_def)
  have "due ctx P rest store"
    unfolding due_def
  proof clarify
    fix ns key n v assume "(ns, key, n, v) \<in> P"
    then obtain r where "fact_row ctx ns v = Some r" "((ns, sha256Text key, n), r) \<in> set (rs_rows (rx_store st)) \<union> (\<lambda>w. (pw_place w, pw_row w)) ` set (ws @ rest)"
      using assms(1) unfolding pend_def due_def by blast
    then show "\<exists>r. fact_row ctx ns v = Some r \<and> ((ns, sha256Text key, n), r) \<in> set (rs_rows store) \<union> (\<lambda>w. (pw_place w, pw_row w)) ` set rest"
      using rows assms(4) by auto
  qed
  then show ?thesis using assms(1,2,5,6) write_good_grows [OF assms(3)] by (auto simp: pend_def)
qed

lemma commit_pend:
  assumes "pend ctx sc E P V (ws @ rest) st"
  shows "safe ctx sc E st (commitWrites ws st) (\<lambda>_ st'. pend ctx sc E P V rest st')"
proof -
  have w: "world ctx sc E" "stored ctx sc E (rx_store st)" "\<forall>w\<in>set ws. write_good ctx E (rx_store st) w" using assms by (auto simp: pend_def)
  obtain rows store where ins: "insert_writes ws (rx_store st) = Inr (rows, store)" "stored ctx sc E store" "rows_grow (rx_store st) store"
    "\<forall>w\<in>set ws. (pw_place w, pw_row w) \<in> set (rs_rows store)"
    "list_all2 (\<lambda>w r. r = None \<or> r = Some (rr_content (pw_row w), rr_sha (pw_row w))) ws rows"
    using insert_writes_ok [OF w] by blast
  let ?full = "map (\<lambda>w. Some (rr_content (pw_row w), rr_sha (pw_row w))) ws"
  have accepted: "safe ctx sc E st2 (accept_all (zip ws ?full) st2) (\<lambda>_ st'. pend ctx sc E P V rest st')"
    if "rx_indices st2 = rx_indices st" "rx_store st2 = store" for st2
    using pend_accepted [OF assms ins(2-4)] ins(2) that unfolding accept_all_ok by (simp add: safe_def)
  show ?thesis unfolding commitWrites_def
  proof (rule safe_bind [where Q = "\<lambda>rs st1. rs = rows \<and> rx_indices st1 = rx_indices st \<and> rx_store st1 = store"], goal_cases)
    case 1
    then show ?case by (intro safe_storage [where store = store]) (use w ins in simp_all)
  next
    case (2 rs st1)
    show ?case
    proof (rule safe_bind [where Q = "\<lambda>rs st2. rs = ?full \<and> rx_indices st2 = rx_indices st \<and> rx_store st2 = store"], goal_cases)
      case 1
      show ?case
      proof (cases "None \<in> set rs")
        case True
        have "safe ctx sc E st1 (reducer_query (replayed ws rs) st1) (\<lambda>rs st2. rs = ?full \<and> rx_indices st2 = rx_indices st \<and> rx_store st2 = store)"
          by (rule safe_query) (use 2 replayed_ok [OF ins(2,4,5)] ins(2) in \<open>auto simp: same_def\<close>)
        then show ?thesis using True by simp
      next
        case False
        then show ?thesis using 2 all_inserted [OF ins(5)] by (auto intro!: safe_return)
      qed
    next
      case (2 rs' st2)
      then show ?case using accepted by simp
    qed
  qed
qed

subsection \<open>Single and paired writes\<close>

lemma set_safe:
  assumes "sim ctx sc E P V st" "write_permitted ctx sc f V" "effect_of V f \<in> E"
  shows "safe ctx sc E st (reducer_set ctx (fst f) (fst (snd f)) (snd (snd f)) st) (\<lambda>_ st'. sim ctx sc E (insert (effect_of V f) P) (spec_write f V) st')"
  unfolding reducer_set_def
proof (rule safe_bind [OF prepare_pend [OF assms(1) [folded pend_Nil] assms(2,3)]], goal_cases)
  case (1 w st1)
  then have p: "pend ctx sc E (insert (effect_of V f) P) (spec_write f V) ([w] @ []) st1" by simp
  then have w: "world ctx sc E" "stored ctx sc E (rx_store st1)" "write_good ctx E (rx_store st1) w" by (auto simp: pend_def)
  obtain r store where ins: "retainReducerState (pw_place w) (pw_row w) (rx_store st1) = Inr (r, store)" "stored ctx sc E store" "rows_grow (rx_store st1) store"
    "(pw_place w, pw_row w) \<in> set (rs_rows store)" "r = None \<or> r = Some (rr_content (pw_row w), rr_sha (pw_row w))"
    using retain_row [OF w] by blast
  show ?case
  proof (rule safe_bind [where Q = "\<lambda>r' st2. r' = r \<and> rx_indices st2 = rx_indices st1 \<and> rx_store st2 = store"], goal_cases)
    case 1
    then show ?case by (intro safe_storage [where store = store]) (use w ins in simp_all)
  next
    case (2 r' st2)
    let ?c = "Some (rr_content (pw_row w), rr_sha (pw_row w))"
    show ?case unfolding accept_write_def
    proof (rule safe_bind [where Q = "\<lambda>c st3. c = ?c \<and> rx_indices st3 = rx_indices st1 \<and> rx_store st3 = store"], goal_cases)
      case 1
      have "safe ctx sc E st2 (reducer_query (\<lambda>store. exactReducerState store (pw_place w)) st2) (\<lambda>c st3. c = ?c \<and> rx_indices st3 = rx_indices st1 \<and> rx_store st3 = store)"
        by (rule safe_query) (use 2 exact_row [OF ins(2,4)] ins(2) in \<open>auto simp: same_def\<close>)
      then show ?case using 2 ins(2,5) by (auto intro!: safe_return)
    next
      case (2 c st3)
      then have "sim ctx sc E (insert (effect_of V f) P) (spec_write f V) (with_index (pw_namespace w) (note_write w) st3)"
        unfolding pend_Nil [symmetric] by (intro pend_accepted [OF p ins(2,3)]) (use ins(4) in \<open>auto simp: with_index_def\<close>)
      then show ?case using 2 ins(2) by (simp add: safe_def with_index_def)
    qed
  qed
qed

lemma prepare_all_pend:
  assumes "pend ctx sc E P V ws st" "writes_permitted ctx sc fs V" "effect_of V ` set fs \<subseteq> E"
  shows "safe ctx sc E st (prepare_all ctx fs st)
    (\<lambda>ws' st'. pend ctx sc E (P \<union> effect_of V ` set fs) (fold spec_write fs V) (ws @ ws') st')"
  using assms
proof (induction fs arbitrary: P V ws st)
  case Nil
  then show ?case by (auto intro!: safe_return simp: pend_def)
next
  case (Cons f fs)
  obtain ns key v where f: "f = (ns, key, v)" by (cases f)
  have "safe ctx sc E st (prepareWrite ctx ns key v st) (\<lambda>w st'. pend ctx sc E (insert (effect_of V f) P) (spec_write f V) (ws @ [w]) st')"
    using safe_mono [OF prepare_pend [of ctx sc E P V ws st f]] Cons.prems by (simp add: f)
  then show ?case unfolding f prepare_all.simps
  proof (rule safe_bind, goal_cases)
    case (1 w st1)
    show ?case
    proof (rule safe_bind, rule Cons.IH [OF 1(1)], goal_cases)
      case (3 ws' st2)
      then show ?case by (auto intro!: safe_return simp: f Un_insert_left)
    qed (use Cons.prems in \<open>auto simp: f\<close>)
  qed
qed

lemma set_along_safe:
  assumes "sim ctx sc E P V st" "\<forall>a\<in>set (along f g h). rc_database ctx (fst a) = rc_database ctx (fst f)" "writes_permitted ctx sc (along f g h) V"
    "effect_of V ` set (along f g h) \<subseteq> E"
  shows "safe ctx sc E st (setAlongside ctx f g h st)
    (\<lambda>_ st'. sim ctx sc E (P \<union> effect_of V ` set (along f g h)) (fold spec_write (along f g h) V) st')"
proof -
  have "safe ctx sc E st (rbind (prepare_all ctx (along f g h) st) (\<lambda>(ws, st1). commitWrites ws st1))
      (\<lambda>_ st'. sim ctx sc E (P \<union> effect_of V ` set (along f g h)) (fold spec_write (along f g h) V) st')"
  proof (rule safe_bind [OF prepare_all_pend [OF assms(1) [folded pend_Nil] assms(3,4)]], goal_cases)
    case (1 ws st1)
    then show ?case using commit_pend [where rest = "[]" and ws = ws] by (simp add: pend_Nil)
  qed
  moreover have "rc_database ctx (fst f) = rc_database ctx (fst g)" "case h of None \<Rightarrow> True | Some a \<Rightarrow> rc_database ctx (fst f) = rc_database ctx (fst a)"
    using assms(2) by (auto simp: along_def split: option.splits)
  ultimately show ?thesis unfolding setAlongside_def along_def by (auto split: option.splits)
qed

subsection \<open>Seeds\<close>

lemma begin_pend:
  assumes "pend ctx sc E P V ws st"
  shows "pend ctx sc E P (spec_begin ns V) ws (beginObservation ns st)"
proof -
  let ?ix = "\<lparr>ix_ordinal = ix_ordinal (rx_indices st ns) + 1, ix_completed = False, ix_written = {}, ix_last = None\<rparr>"
  have "noted ws ((rx_indices st)(ns := ?ix)) = (noted ws (rx_indices st))(ns := ?ix)"
    by (rule noted_late) (use assms in \<open>fastforce simp: pend_def\<close>)
  moreover have "indexed ctx sc (spec_begin ns V) ((noted ws (rx_indices st))(ns := ?ix))"
    unfolding indexed_def
  proof
    fix n assume "n \<in> sp_names sc"
    then have "index_at ctx (V n) (noted ws (rx_indices st) n)" using assms by (simp add: pend_def indexed_def)
    moreover from this have "ix_ordinal (rx_indices st n) = vw_ordinal (V n)" by (simp add: index_at_def)
    ultimately show "index_at ctx (spec_begin ns V n) (((noted ws (rx_indices st))(ns := ?ix)) n)"
      by (cases "n = ns") (simp_all add: spec_begin_def index_at_def)
  qed
  ultimately show ?thesis using assms history_begin by (auto simp: pend_def beginObservation_def with_index_def)
qed

lemma safe_begin [simp]: "safe ctx sc E (beginObservation ns st) m Q = safe ctx sc E st m Q"
  by (simp add: beginObservation_def with_index_def)

lemma prepare_seed:
  assumes "pend ctx sc E P V ws st" "fact_ok ctx sc (ns, key, v)" "effect_of (spec_begin ns V) (ns, key, v) \<in> E"
  shows "safe ctx sc E st (prepareWrite ctx ns key v (beginObservation ns st))
    (\<lambda>w st'. pend ctx sc E (insert (effect_of (spec_begin ns V) (ns, key, v)) P) (spec_seed (ns, key, v) V) (ws @ [w]) st' \<and> pw_bytes w = fact_bytes ctx ns v)"
  using prepare_pend [OF begin_pend [OF assms(1)], of "(ns, key, v)" ns] assms(2,3) by (simp add: spec_seed_def write_permitted_def spec_begin_def)

lemma flush_pend: "pend ctx sc E P V (ws @ rest) st \<Longrightarrow> safe ctx sc E st (flush_seeds ws st) (\<lambda>_ st'. pend ctx sc E P V rest st')"
  using commit_pend [of ctx sc E P V ws rest st] by (cases "ws = []") (auto simp: flush_seeds_def pend_def intro!: safe_return)

lemma seed_loop_safe:
  assumes "pend ctx sc E P V ws st" "list_all (fact_ok ctx sc) (map (Pair ns) es)" "seed_effects (map (Pair ns) es) V \<subseteq> E"
  shows "safe ctx sc E st (seed_loop ctx ns es ws bytes st)
    (\<lambda>_ st'. sim ctx sc E (P \<union> seed_effects (map (Pair ns) es) V) (fold spec_seed (map (Pair ns) es) V) st')"
  using assms
proof (induction es arbitrary: P V ws bytes st)
  case Nil
  then show ?case using flush_pend [where rest = "[]" and ws = ws and P = P and V = V] by (simp add: pend_Nil)
next
  case (Cons e es)
  obtain key v where e: "e = (key, v)" by fastforce
  let ?P = "insert (effect_of (spec_begin ns V) (ns, key, v)) P" and ?V = "spec_seed (ns, key, v) V"
  let ?Q = "\<lambda>_ st'. sim ctx sc E (P \<union> seed_effects (map (Pair ns) (e # es)) V) (fold spec_seed (map (Pair ns) (e # es)) V) st'"
  have rest: "safe ctx sc E st' (seed_loop ctx ns es ws' bytes' st') ?Q" if "pend ctx sc E ?P ?V ws' st'" for ws' bytes' st'
    using Cons.IH [OF that] Cons.prems(2,3) by (simp add: e Un_insert_left)
  have prep: "safe ctx sc E st (prepareWrite ctx ns key v (beginObservation ns st)) (\<lambda>w st'. pend ctx sc E ?P ?V (ws @ [w]) st')"
    using Cons.prems by (intro safe_mono [OF prepare_seed [OF Cons.prems(1)]]) (auto simp: e)
  show ?case unfolding e seed_loop.simps
  proof (rule safe_bind [OF prep], goal_cases)
    case (1 w st1)
    have "safe ctx sc E st1 (rbind (flush_seeds ws st1) (\<lambda>(_, st2). seed_loop ctx ns es [w] (pw_bytes w) st2)) ?Q"
      by (rule safe_bind [OF flush_pend [OF 1(1)]]) (rule rest)
    then show ?case using rest [OF 1(1)] by (simp add: e)
  qed
qed

lemma prepare_seeds_pend:
  assumes "pend ctx sc E P V ws st" "list_all (fact_ok ctx sc) fs" "seed_effects fs V \<subseteq> E"
  shows "safe ctx sc E st (prepare_seeds ctx fs st)
    (\<lambda>ws' st'. pend ctx sc E (P \<union> seed_effects fs V) (fold spec_seed fs V) (ws @ ws') st' \<and>
       sum_list (map pw_bytes ws') = (\<Sum>(n, key, v) \<leftarrow> fs. fact_bytes ctx n v) \<and> length ws' = length fs)"
  using assms
proof (induction fs arbitrary: P V ws st)
  case Nil
  then show ?case by (auto intro!: safe_return simp: pend_def)
next
  case (Cons f fs)
  obtain ns key v where f: "f = (ns, key, v)" by (cases f)
  have prep: "safe ctx sc E st (prepareWrite ctx ns key v (beginObservation ns st))
    (\<lambda>w st'. pend ctx sc E (insert (effect_of (spec_begin ns V) (ns, key, v)) P) (spec_seed (ns, key, v) V) (ws @ [w]) st' \<and> pw_bytes w = fact_bytes ctx ns v)"
    using Cons.prems by (intro prepare_seed) (auto simp: f)
  show ?case unfolding f prepare_seeds.simps
  proof (rule safe_bind [OF prep], goal_cases)
    case (1 w st1)
    show ?case
    proof (rule safe_bind, rule Cons.IH [OF conjunct1 [OF 1(1)]], goal_cases)
      case (3 ws' st2)
      then show ?case using 1 by (auto intro!: safe_return simp: Un_insert_left)
    qed (use Cons.prems in \<open>auto simp: f\<close>)
  qed
qed

lemma seed_along_safe:
  assumes "sim ctx sc E P V st" "rc_database ctx ns = rc_database ctx other" "length es + length es' \<le> 16"
    "list_all (fact_ok ctx sc) (seed_facts ns es other es')" "(\<Sum>(n, key, v) \<leftarrow> seed_facts ns es other es'. fact_bytes ctx n v) \<le> 262144"
    "seed_effects (seed_facts ns es other es') V \<subseteq> E"
  shows "safe ctx sc E st (seedManyAlongside ctx ns es other es' st)
    (\<lambda>_ st'. sim ctx sc E (P \<union> seed_effects (seed_facts ns es other es') V) (fold spec_seed (seed_facts ns es other es') V) st')"
proof -
  let ?Q = "\<lambda>_ st'. sim ctx sc E (P \<union> seed_effects (seed_facts ns es other es') V) (fold spec_seed (seed_facts ns es other es') V) st'"
  have "safe ctx sc E st (rbind (prepare_seeds ctx (seed_facts ns es other es') st) (\<lambda>(ws, st1).
        if ws = [] then Inr ((), st1)
        else if sum_list (map pw_bytes ws) > 262144 then Inl (Seed_capacity, rx_store st1)
        else commitWrites ws st1)) ?Q"
  proof (rule safe_bind [OF prepare_seeds_pend [OF assms(1) [folded pend_Nil] assms(4,6)]], goal_cases)
    case (1 ws st1)
    then have p: "pend ctx sc E (P \<union> seed_effects (seed_facts ns es other es') V) (fold spec_seed (seed_facts ns es other es') V) (ws @ []) st1"
      "\<not> sum_list (map pw_bytes ws) > 262144" using assms(5) by auto
    then show ?case using commit_pend [OF p(1)] 1(2) by (cases "ws = []") (auto intro!: safe_return simp: pend_Nil)
  qed
  then show ?thesis using assms(2,3) by (simp add: seedManyAlongside_def seed_facts_def)
qed

end
