(* ===== verification/Reducer_Reads.thy ===== *)
theory Reducer_Reads
  imports Reducer_Writes
begin

text \<open>Reads of several keys, and iterations over an index, against the specification.\<close>

subsection \<open>Several keys\<close>

lemma request_value_ok:
  assumes "sim ctx sc E P V st" "ahead (E - P) V" "ns \<in> sp_names sc" "key \<in> sp_keys sc" "same st st'"
    "\<And>d b. readRequest (rx_indices st ns) key = Statement d b \<Longrightarrow> row = reducerState (rx_store st) ns d b"
  shows "request_value ctx (readRequest (rx_indices st ns) key) row st' = Inr (spec_get ctx V ns key, st')"
  using request_spec [OF assms(1-4)] restore_read [OF assms(1-5)] assms(6)
  by (cases "readRequest (rx_indices st ns) key") (simp_all add: request_value_def)

lemma get_along_safe:
  assumes "sim ctx sc E P V st" "ahead (E - P) V" "ns \<in> sp_names sc" "key \<in> sp_keys sc" "other \<in> sp_names sc" "key' \<in> sp_keys sc"
    "rc_database ctx ns = rc_database ctx other"
  shows "safe ctx sc E st (getAlongside ctx ns key other key' st)
    (\<lambda>x st'. x = (spec_get ctx V ns key, spec_get ctx V other key') \<and> same st st')"
proof -
  let ?left = "readRequest (rx_indices st ns) key" and ?right = "readRequest (rx_indices st other) key'"
  let ?batched = "\<lambda>request. case request of Statement digest before \<Rightarrow> True | _ \<Rightarrow> False"
  let ?reads = "\<lambda>store. (request_row store ns ?left, request_row store other ?right)"
  let ?rows = "\<lambda>p st'. same st st' \<and> (?batched ?left \<longrightarrow> fst p = request_row (rx_store st) ns ?left) \<and> (?batched ?right \<longrightarrow> snd p = request_row (rx_store st) other ?right)"
  have "safe ctx sc E st (if ?batched ?left \<or> ?batched ?right then reducer_query ?reads st else Inr ((None, None), st)) ?rows"
  proof (cases "?batched ?left \<or> ?batched ?right")
    case True
    have "safe ctx sc E st (reducer_query ?reads st) ?rows" by (rule safe_query) (use simD(4) [OF assms(1)] in simp_all)
    then show ?thesis using True by simp
  next
    case False
    then show ?thesis using simD(4) [OF assms(1)] by (auto intro!: safe_return)
  qed
  then have "safe ctx sc E st (rbind (if ?batched ?left \<or> ?batched ?right then reducer_query ?reads st else Inr ((None, None), st)) (\<lambda>((row, other_row), st1).
         rbind (request_value ctx ?left row st1) (\<lambda>(v, st2).
         rbind (request_value ctx ?right other_row st2) (\<lambda>(w, st3). Inr ((v, w), st3)))))
      (\<lambda>x st'. x = (spec_get ctx V ns key, spec_get ctx V other key') \<and> same st st')"
  proof (rule safe_bind, goal_cases)
    case (1 p st1)
    obtain row other_row where p: "p = (row, other_row)" by fastforce
    have "request_value ctx ?left row st1 = Inr (spec_get ctx V ns key, st1)" "request_value ctx ?right other_row st1 = Inr (spec_get ctx V other key', st1)"
      using 1(1) by (intro request_value_ok [OF assms(1,2)] assms; auto simp: p request_row_def)+
    then show ?case using 1 by (auto simp: p intro!: safe_return)
  qed
  then show ?thesis using assms(7) by (simp add: getAlongside_def Let_def)
qed

lemma running_last:
  assumes "sorted (map key (rows @ [r]))"
  shows "running_bytes key bytes (rows @ [r]) r = sum_list (map bytes (rows @ [r]))"
proof -
  have "filter (\<lambda>r'. key r' \<le> key r) (rows @ [r]) = rows @ [r]" using assms by (auto simp: sorted_append filter_id_conv)
  then show ?thesis by (simp only: running_bytes_def)
qed

lemma running_le: "running_bytes key bytes rows r \<le> sum_list (map bytes rows)"
  unfolding running_bytes_def by (induction rows) auto

text \<open>The window is complete exactly if all its rows together fit.\<close>

lemma window_page:
  fixes store :: reducer_store and ns :: string and requests :: "(string \<times> nat) list"
  assumes "requests \<noteq> []"
  defines "rows \<equiv> map (\<lambda>(i, digest, before). (i, reducerState store ns digest before)) (enumerate 0 requests)"
    and "bytes \<equiv> \<lambda>(i :: nat, r). case r of None \<Rightarrow> 0 | Some r \<Rightarrow> row_bytes r"
  shows "sum_list (map bytes rows) \<le> 131072 \<Longrightarrow> reducerStateLookupPage ns requests store = rows"
    and "\<not> sum_list (map bytes rows) \<le> 131072 \<Longrightarrow> length (reducerStateLookupPage ns requests store) \<noteq> length requests"
proof -
  have page: "reducerStateLookupPage ns requests store = filter (\<lambda>r. running_bytes fst bytes rows r \<le> 131072) rows"
    unfolding reducerStateLookupPage_def Let_def rows_def bytes_def by (rule refl)
  show "reducerStateLookupPage ns requests store = rows" if "sum_list (map bytes rows) \<le> 131072"
  proof -
    have "running_bytes fst bytes rows r \<le> 131072" for r using running_le [of fst bytes rows r] that by linarith
    then show ?thesis unfolding page by simp
  qed
  have len: "length rows = length requests" by (simp add: rows_def)
  have sorted: "sorted (map fst rows)"
  proof -
    have "map fst rows = [0..<length requests]" unfolding rows_def map_map by (simp add: comp_def case_prod_unfold enumerate_eq_zip)
    then show ?thesis by simp
  qed
  show "length (reducerStateLookupPage ns requests store) \<noteq> length requests" if "\<not> sum_list (map bytes rows) \<le> 131072"
  proof -
    have ne: "rows \<noteq> []" using assms(1) len by auto
    have "running_bytes fst bytes rows (last rows) = sum_list (map bytes rows)"
      using running_last [where rows = "butlast rows" and r = "last rows" and key = fst] sorted ne by simp
    then have "\<not> running_bytes fst bytes rows (last rows) \<le> 131072" using that by simp
    then have "length (filter (\<lambda>r. running_bytes fst bytes rows r \<le> 131072) rows) < length rows" using ne by (intro length_filter_less) auto
    then show ?thesis unfolding page len [symmetric] by simp
  qed
qed

lemma window_values_ok:
  assumes "\<And>key. key \<in> set keys \<Longrightarrow> restoreRow ctx (row key) st = Inr (value key, st)"
  shows "window_values ctx i keys (map (\<lambda>(i, key). (i, row key)) (enumerate i keys)) st = Inr (map (\<lambda>key. (key, value key)) keys, st)"
  using assms by (induction keys arbitrary: i) auto

lemma get_many_safe:
  assumes "sim ctx sc E P V st" "ahead (E - P) V" "ns \<in> sp_names sc" "set keys \<subseteq> sp_keys sc" "card (set keys) \<le> 16"
  shows "safe ctx sc E st (getMany ctx ns keys st) (\<lambda>x st'. x = spec_many ctx V ns keys \<and> same st st')"
proof -
  let ?keys = "first_keys keys" and ?ix = "rx_indices st ns"
  have keys: "set ?keys = set keys" "length ?keys \<le> 16" using assms(5) by (simp_all add: first_keys_def length_remdups_card_conv)
  let ?requests = "map (\<lambda>key. (sha256Text key, read_before ?ix (sha256Text key))) ?keys"
  let ?row = "\<lambda>key. reducerState (rx_store st) ns (sha256Text key) (read_before ?ix (sha256Text key))"
  let ?rows = "map (\<lambda>(i, key). (i, ?row key)) (enumerate 0 ?keys)"
  let ?bytes = "\<lambda>(i :: nat, r). case r of None \<Rightarrow> 0 | Some r \<Rightarrow> row_bytes r"
  let ?fits = "sum_list (map (\<lambda>key. case map_of (vw_map (V ns)) key of None \<Rightarrow> 0 | Some v \<Rightarrow> fact_bytes ctx ns v) ?keys) \<le> 131072"
  have rows: "map (\<lambda>(i, digest, before). (i, reducerState (rx_store st) ns digest before)) (enumerate 0 ?requests) = ?rows"
    by (simp add: enumerate_map comp_def case_prod_unfold)
  have "map ?bytes ?rows = map (\<lambda>key. case ?row key of None \<Rightarrow> 0 | Some r \<Rightarrow> row_bytes r) ?keys"
    by (rule nth_equalityI) (simp_all add: case_prod_unfold nth_enumerate_eq)
  also have "\<dots> = map (\<lambda>key. case map_of (vw_map (V ns)) key of None \<Rightarrow> 0 | Some v \<Rightarrow> fact_bytes ctx ns v) ?keys"
  proof (rule map_cong [OF refl])
    fix key assume "key \<in> set ?keys"
    then have "key \<in> sp_keys sc" using keys(1) assms(4) by auto
    then show "(case ?row key of None \<Rightarrow> 0 | Some r \<Rightarrow> row_bytes r) = (case map_of (vw_map (V ns)) key of None \<Rightarrow> 0 | Some v \<Rightarrow> fact_bytes ctx ns v)"
      using row_read(1) [OF assms(1-3)] by (auto simp: fact_bytes_def split: option.splits)
  qed
  finally have bytes: "map ?bytes ?rows = map (\<lambda>key. case map_of (vw_map (V ns)) key of None \<Rightarrow> 0 | Some v \<Rightarrow> fact_bytes ctx ns v) ?keys" .
  show ?thesis
  proof (cases "ix_ordinal ?ix = 0 \<or> ?keys = []")
    case True
    have "spec_many ctx V ns keys = Some (map (\<lambda>key. (key, None)) ?keys)"
    proof (cases "?keys = []")
      case False
      then have "vw_map (V ns) = []" using True no_entries simD(2,6) [OF assms(1)] assms(3) by (auto simp: index_at_def)
      then show ?thesis by (simp add: spec_many_def spec_get_def)
    qed (simp add: spec_many_def)
    then show ?thesis using True keys(2) simD(4) [OF assms(1)] by (auto simp: getMany_def Let_def first_keys_def [symmetric] intro!: safe_return)
  next
    case False
    then have ne: "?requests \<noteq> []" by simp
    note page = window_page [OF ne, of "rx_store st" ns, unfolded rows bytes]
    have "safe ctx sc E st (rbind (reducer_query (reducerStateLookupPage ns ?requests) st) (\<lambda>(page, st1).
             if length page \<noteq> length ?keys then Inr (None, st1)
             else rbind (window_values ctx 0 ?keys page st1) (\<lambda>(vs, st2). Inr (Some vs, st2))))
        (\<lambda>x st'. x = spec_many ctx V ns keys \<and> same st st')"
    proof (rule safe_bind [where Q = "\<lambda>page st1. page = reducerStateLookupPage ns ?requests (rx_store st) \<and> same st st1"], goal_cases)
      case 1
      show ?case by (rule safe_query) (use simD(4) [OF assms(1)] in simp_all)
    next
      case (2 found st1)
      show ?case
      proof (cases ?fits)
        case True
        have "restoreRow ctx (?row key) st1 = Inr (spec_get ctx V ns key, st1)" if "key \<in> set ?keys" for key
          using that keys(1) assms(4) 2(1) by (intro restore_read [OF assms(1-3)]) auto
        then have "window_values ctx 0 ?keys ?rows st1 = Inr (map (\<lambda>key. (key, spec_get ctx V ns key)) ?keys, st1)" by (rule window_values_ok)
        then show ?thesis using 2 page(1) [OF True] True by (auto simp: spec_many_def intro!: safe_return)
      next
        case False
        then show ?thesis using 2 page(2) [OF False] by (auto simp: spec_many_def intro!: safe_return)
      qed
    qed
    then show ?thesis using False keys(2) by (simp add: getMany_def Let_def first_keys_def [symmetric])
  qed
qed

lemma has_safe:
  assumes "sim ctx sc E P V st" "ahead (E - P) V" "ns \<in> sp_names sc" "key \<in> sp_keys sc"
  shows "safe ctx sc E st (reducer_has ctx ns key st) (\<lambda>x st'. x = (spec_get ctx V ns key \<noteq> None) \<and> same st st')"
  unfolding reducer_has_def by (rule safe_bind [OF get_safe [OF assms]]) (auto intro!: safe_return)

lemma has_entity_safe:
  assumes "sim ctx sc E P V st" "ahead (E - P) V" "ns \<in> sp_names sc" "key \<in> sp_keys sc"
    "\<And>v. map_of (vw_map (V ns)) key = Some v \<Longrightarrow> re_value (envelope_of ctx v) \<noteq> VNull"
  shows "safe ctx sc E st (hasEntity ns key st) (\<lambda>x st'. x = spec_has_entity ctx V ns key \<and> same st st')"
proof (cases "ix_ordinal (rx_indices st ns) = 0")
  case True
  then have "vw_map (V ns) = []" using no_entries simD(2,6) [OF assms(1)] assms(3) by (auto simp: index_at_def)
  then show ?thesis using True simD(4) [OF assms(1)] by (auto simp: hasEntity_def spec_has_entity_def intro!: safe_return)
next
  case False
  let ?row = "reducerState (rx_store st) ns (sha256Text key) (read_before (rx_indices st ns) (sha256Text key))"
  have row: "?row = Option.bind (map_of (vw_map (V ns)) key) (fact_row ctx ns)" by (rule row_read(1) [OF assms(1-4)])
  show ?thesis unfolding hasEntity_def Let_def using False
  proof (simp, intro safe_bind [where Q = "\<lambda>r st'. r = ?row \<and> same st st'"] safe_query, goal_cases)
    case (3 r st')
    show ?case
    proof (cases "map_of (vw_map (V ns)) key")
      case None
      then show ?thesis using 3 row by (auto simp: spec_has_entity_def intro!: safe_return)
    next
      case (Some v)
      then obtain x where x: "fact_row ctx ns v = Some x" using row_read(2) [OF assms(1-4)] by blast
      then show ?thesis using 3 row Some assms(5) [OF Some] fact_row_shape(1,2) [OF x] by (auto simp: spec_has_entity_def intro!: safe_return)
    qed
  qed (use simD(4) [OF assms(1)] in simp_all)
qed

subsection \<open>Listings\<close>

lemma length_std_blocks: "length H = 8 \<Longrightarrow> length (std_blocks H m) = 8"
  by (induction H m rule: std_blocks.induct) (subst std_blocks.simps, simp add: std_block_def split: prod.splits)

lemma sha256Text_ne: "sha256Text s \<noteq> []"
proof -
  have "length (std_blocks initialState m) = 8" for m by (rule length_std_blocks) (simp add: initialState_def)
  then have "std_blocks initialState m \<noteq> []" for m by (metis length_0_conv zero_neq_numeral)
  then show ?thesis by (auto simp: sha256Text_def sha256_standard_def hex_word_def neq_Nil_conv)
qed

lemma rfold_gather: "(\<And>x acc. x \<in> set xs \<Longrightarrow> f x acc = Inr (acc @ [g x])) \<Longrightarrow> rfold f xs acc = Inr (acc @ map g xs)"
  by (induction xs arbitrary: acc) auto

lemma listed_rows:
  assumes "sim ctx sc E P V st" "\<And>key. known_below E P ns key b" "distinct (map fst m)" "\<And>key v. map_of m key = Some v \<longleftrightarrow> is_latest P ns key b v"
  shows "\<And>Q Q'. (\<And>x. x \<in> set m \<Longrightarrow> Q (fact_entry ctx ns x) = Q' x) \<Longrightarrow>
      sort_key fst (filter Q (visible_rows (rx_store st) ns b)) = map (fact_entry ctx ns) (by_digest (filter Q' m))"
    and "distinct (map fst (visible_rows (rx_store st) ns b))"
    and "(key, v) \<in> set m \<Longrightarrow> fact_row ctx ns v \<noteq> None \<and> verified_row ctx (rx_store st) (the (fact_row ctx ns v)) = Inr (kept ctx v)"
    and "\<And>x. x \<in> set (visible_rows (rx_store st) ns b) \<Longrightarrow> x \<in> fact_entry ctx ns ` set m"
    and "length (visible_rows (rx_store st) ns b) \<le> length (rs_rows (rx_store st))"
proof -
  note sim = simD [OF assms(1)] and vis = visible_map [OF simD(1,4,5,3) [OF assms(1)] assms(2-4)]
  show "sort_key fst (filter Q (visible_rows (rx_store st) ns b)) = map (fact_entry ctx ns) (by_digest (filter Q' m))" if "\<And>x. x \<in> set m \<Longrightarrow> Q (fact_entry ctx ns x) = Q' x" for Q Q'
    by (rule visible_sorted(1) [where Q = Q and Q' = Q', OF vis _ assms(3)]) (rule that)
  show "distinct (map fst (visible_rows (rx_store st) ns b))" using distinct_visible sim(4) by (simp add: stored_def)
  show "\<And>x. x \<in> set (visible_rows (rx_store st) ns b) \<Longrightarrow> x \<in> fact_entry ctx ns ` set m" using vis(1) by (metis list.set_map mset_eq_setD)
  show "length (visible_rows (rx_store st) ns b) \<le> length (rs_rows (rx_store st))" by (simp add: visible_rows_def)
  show "fact_row ctx ns v \<noteq> None \<and> verified_row ctx (rx_store st) (the (fact_row ctx ns v)) = Inr (kept ctx v)" if "(key, v) \<in> set m"
  proof -
    have l: "is_latest P ns key b v" using that assms(3,4) by simp
    then obtain n where "(ns, key, n, v) \<in> P" by (auto simp: is_latest_def)
    then have "key \<in> sp_keys sc" using key_known [OF sim(1,3)] by blast
    then obtain r where r: "fact_row ctx ns v = Some r" "covered ctx (rx_store st) v"
      using reducerState_latest(1) [OF sim(1,4,5,3) assms(2) _ l] by blast
    then show ?thesis using verified_fact [OF _ r] sim(1) by (simp add: world_def)
  qed
qed

lemma row_bytes_bound: "fact_row ctx ns v \<noteq> None \<Longrightarrow> row_bytes (the (fact_row ctx ns v)) \<le> 524288"
  using fact_row_shape(3) by force

lemma latest_safe:
  assumes "sim ctx sc E P V st" "ahead (E - P) (spec_close ns V)" "ns \<in> sp_names sc"
  shows "safe ctx sc E st (all_latest ctx ns after st) (\<lambda>x st'. x = spec_latest ctx V ns after \<and> same st st')"
proof -
  let ?o = "ix_ordinal (rx_indices st ns)" and ?m = "vw_map (V ns)"
  have ord: "?o = vw_ordinal (V ns)" using simD(6) [OF assms(1,3)] by (simp add: index_at_def)
  have next_eq: "latestEntries ctx ns = (\<lambda>gen st. rbind (next_row 1 True (nextLatestReducerState ns) fst ns gen st) (\<lambda>(y, st'). yield_entry ctx y st'))"
    by (intro ext) (simp add: latestEntries_def)
  show ?thesis
  proof (cases "?o = 0")
    case True
    then have "spec_latest ctx V ns after = []" using no_entries [OF simD(2) [OF assms(1)], of ns] ord by (simp add: spec_latest_def by_digest_def)
    then show ?thesis using True simD(4) [OF assms(1)]
      by (auto simp: all_latest_def row_fuel_def next_eq next_row_def yield_entry_def intro!: safe_return)
  next
    case False
    have below: "known_below E P ns key (Suc ?o)" for key
      using past_or_ahead [OF assms(2)] by (fastforce simp: known_below_def ord spec_close_def)
    have dm: "distinct (map fst ?m)" using simD(2) [OF assms(1)] by (auto simp: history_def amounts_to_def)
    have lm: "map_of ?m key = Some v \<longleftrightarrow> is_latest P ns key (Suc ?o) v" for key v using map_latest [OF simD(2) [OF assms(1)]] by (simp add: ord)
    let ?rows = "visible_rows (rx_store st) ns (Suc ?o)" and ?val = "\<lambda>r. projr (verified_row ctx (rx_store st) r)"
    note rows = listed_rows [OF assms(1) below dm lm]
    have rem: "rows_after id ?rows after = map (fact_entry ctx ns) (by_digest (filter (\<lambda>(key, v). after < sha256Text key) ?m))"
      unfolding rows_after_def id_comp id_apply by (rule rows(1)) (auto simp: fact_entry_def)
    have fact: "r = the (fact_row ctx ns v) \<Longrightarrow> (key, v) \<in> set ?m \<Longrightarrow> verified_row ctx (rx_store st) r = Inr (kept ctx v) \<and> row_bytes r \<le> 524288" for key v r
      using rows(3) row_bytes_bound by blast
    have gather: "map (\<lambda>(k, r). (k, ?val r)) (rows_after id ?rows after) = spec_latest ctx V ns after"
      unfolding rem spec_latest_def map_map by (rule map_cong) (use rows(3) in \<open>fastforce simp: fact_entry_def by_digest_def\<close>)+
    have "safe ctx sc E st (for_await (row_fuel st) (latestEntries ctx ns) (\<lambda>(k, v, b) acc. Inr (acc @ [(k, v)])) (Fresh after) [] st)
        (\<lambda>x st'. same st st' \<and> x = spec_latest ctx V ns after)"
      unfolding next_eq
    proof (rule for_await_safe [where h = id and rows = ?rows and bytes = "row_bytes \<circ> snd" and val = ?val and after = after], goal_cases)
      case 1
      show ?case using simD(4) [OF assms(1)] .
    next
      case (2 a)
      show ?case by (simp add: nextLatestReducerState_def)
    next
      case 3
      then show ?case using rows(2) by simp
    next
      case (4 r)
      then show ?case using rows(4) fact by (fastforce simp: fact_entry_def)
    next
      case 5
      then show ?case using False by simp
    next
      case 6
      then show ?case by (simp add: reading_def)
    next
      case (7 k r)
      then show ?case using rows(4) fact by (fastforce simp: fact_entry_def)
    next
      case 8
      have "rfold (\<lambda>(k, r). (\<lambda>(k, v, b) acc. Inr (acc @ [(k, v)])) (k, ?val r, row_bytes r)) (rows_after id ?rows after) [] =
          Inr ([] @ map (\<lambda>(k, r). (k, ?val r)) (rows_after id ?rows after))"
        by (rule rfold_gather) auto
      then show ?case using gather by (simp only: append_Nil)
    next
      case 9
      have "length (rows_after id ?rows after) \<le> length ?rows" by (simp add: rows_after_def)
      then show ?case using rows(5) by (simp add: row_fuel_def)
    qed
    then show ?thesis unfolding all_latest_def by (rule safe_mono) auto
  qed
qed

text \<open>The rows with an id, by id.\<close>

definition entity_rows :: "(string \<times> reducer_row) list \<Rightarrow> (js_string \<times> reducer_row) list" where
  "entity_rows rows = List.map_filter (\<lambda>(d, r). map_option (\<lambda>i. (i, r)) (entity_id (re_value (rr_envelope r)))) rows"

lemma mset_map_filter: "mset xs = mset ys \<Longrightarrow> mset (List.map_filter f xs) = mset (List.map_filter f ys)"
  by (simp add: map_filter_def mset_filter)

lemma entity_rows_map:
  assumes "mset rows = mset (map (fact_entry ctx ns) m)" "\<And>key v. (key, v) \<in> set m \<Longrightarrow> fact_row ctx ns v \<noteq> None"
  shows "mset (entity_rows rows) = mset (map (\<lambda>(i, v). (i, the (fact_row ctx ns v))) (entities ctx m))"
proof -
  have rows: "mset (entity_rows rows) = mset (entity_rows (map (fact_entry ctx ns) m))" unfolding entity_rows_def by (rule mset_map_filter [OF assms(1)])
  have "entity_rows (map (fact_entry ctx ns) m) = map (\<lambda>(i, v). (i, the (fact_row ctx ns v))) (entities ctx m)"
    using assms(2)
  proof (induction m)
    case (Cons x m)
    obtain key v where x: "x = (key, v)" by fastforce
    obtain r where "fact_row ctx ns v = Some r" using Cons.prems [of key v] by (auto simp: x)
    then show ?case using Cons fact_row_shape(1) [of ctx ns v r]
      by (cases "entity_id (re_value (envelope_of ctx v))") (auto simp: x entity_rows_def entities_def fact_entry_def map_filter_simps)
  qed (simp add: entity_rows_def entities_def map_filter_simps)
  then show ?thesis unfolding rows by (rule arg_cong)
qed

lemma entities_safe:
  assumes "sim ctx sc E P V st" "ahead (E - P) (spec_close ns V)" "ns \<in> sp_names sc" "distinct (map (utf8 \<circ> fst) (entities ctx (vw_map (V ns))))"
  shows "safe ctx sc E st (all_entities ctx ns after st) (\<lambda>x st'. x = spec_entities ctx V ns after \<and> same st st')"
proof -
  let ?o = "ix_ordinal (rx_indices st ns)" and ?m = "vw_map (V ns)"
  have ord: "?o = vw_ordinal (V ns)" using simD(6) [OF assms(1,3)] by (simp add: index_at_def)
  have next_eq: "entityValues ctx ns = (\<lambda>gen st. rbind (next_row 1 True (nextReducerEntityState ns) fst ns gen st) (\<lambda>(y, st'). yield_entry ctx y st'))"
    by (intro ext) (simp add: entityValues_def)
  show ?thesis
  proof (cases "?o = 0")
    case True
    then have "spec_entities ctx V ns after = []" using no_entries [OF simD(2) [OF assms(1)], of ns] ord
      by (simp add: spec_entities_def entities_def map_filter_simps)
    then show ?thesis using True simD(4) [OF assms(1)]
      by (auto simp: all_entities_def row_fuel_def next_eq next_row_def yield_entry_def intro!: safe_return)
  next
    case False
    have below: "known_below E P ns key (Suc ?o)" for key
      using past_or_ahead [OF assms(2)] by (fastforce simp: known_below_def ord spec_close_def)
    have dm: "distinct (map fst ?m)" using simD(2) [OF assms(1)] by (auto simp: history_def amounts_to_def)
    have lm: "map_of ?m key = Some v \<longleftrightarrow> is_latest P ns key (Suc ?o) v" for key v using map_latest [OF simD(2) [OF assms(1)]] by (simp add: ord)
    let ?visible = "visible_rows (rx_store st) ns (Suc ?o)" and ?val = "\<lambda>r. projr (verified_row ctx (rx_store st) r)"
    let ?g = "\<lambda>(i :: js_string, v). (i, the (fact_row ctx ns v))" and ?rows = "entity_rows (visible_rows (rx_store st) ns (Suc ?o))"
    note rows = listed_rows [OF assms(1) below dm lm]
    have "mset ?visible = mset (map (fact_entry ctx ns) ?m)" by (rule visible_map [OF simD(1,4,5,3) [OF assms(1)] below dm lm])
    then have ms: "mset ?rows = mset (map ?g (entities ctx ?m))" using rows(3) by (intro entity_rows_map) blast+
    have sub: "v \<in> snd ` set ?m" if "(i, v) \<in> set (entities ctx ?m)" for i v using that by (force simp: entities_def map_filter_def)
    have fact: "verified_row ctx (rx_store st) r = Inr (kept ctx v) \<and> row_bytes r \<le> 524288"
      if "r = the (fact_row ctx ns v)" "(i, v) \<in> set (entities ctx ?m)" for i v r
      using sub [OF that(2)] rows(3) row_bytes_bound that(1) by fastforce
    have known: "verified_row ctx (rx_store st) r = Inr (?val r) \<and> row_bytes r \<le> 524288" if "(i, r) \<in> set ?rows" for i r
    proof -
      have "(i, r) \<in> set (map ?g (entities ctx ?m))" using that ms by (metis mset_eq_setD)
      then show ?thesis using fact by auto
    qed
    have dist: "distinct (map (utf8 \<circ> fst) ?rows)"
    proof -
      have "map (utf8 \<circ> fst) (map ?g (entities ctx ?m)) = map (utf8 \<circ> fst) (entities ctx ?m)" by (simp add: comp_def case_prod_unfold)
      then have "distinct (map (utf8 \<circ> fst) (map ?g (entities ctx ?m)))" using assms(4) by (simp only:)
      moreover have "mset (map (utf8 \<circ> fst) ?rows) = mset (map (utf8 \<circ> fst) (map ?g (entities ctx ?m)))" unfolding mset_map [of "utf8 \<circ> fst"] ms by (rule refl)
      ultimately show ?thesis using mset_eq_imp_distinct_iff by blast
    qed
    have rem: "rows_after utf8 ?rows after = map ?g (sort_key (utf8 \<circ> fst) (filter (\<lambda>(i, v). utf8 after < utf8 i) (entities ctx ?m)))"
    proof -
      have eq: "mset (filter (\<lambda>r. utf8 after < (utf8 \<circ> fst) r) ?rows) = mset (map ?g (filter (\<lambda>(i, v). utf8 after < utf8 i) (entities ctx ?m)))"
        using ms by (simp add: mset_filter filter_mset_image_mset case_prod_unfold)
      have "rows_after utf8 ?rows after = sort_key (utf8 \<circ> fst) (map ?g (filter (\<lambda>(i, v). utf8 after < utf8 i) (entities ctx ?m)))"
        unfolding rows_after_def by (intro sort_key_inj_key_eq) (use eq dist in \<open>auto simp: distinct_map inj_on_def\<close>)
      also have "\<dots> = map ?g (sort_key ((utf8 \<circ> fst) \<circ> ?g) (filter (\<lambda>(i, v). utf8 after < utf8 i) (entities ctx ?m)))" by (rule map_sort_key [symmetric])
      also have "(utf8 \<circ> fst) \<circ> ?g = utf8 \<circ> fst" by auto
      finally show ?thesis .
    qed
    have gather: "map (\<lambda>(k, r). ?val r) (rows_after utf8 ?rows after) = spec_entities ctx V ns after"
      unfolding rem spec_entities_def map_map by (rule map_cong) (use fact in \<open>fastforce\<close>)+
    have "safe ctx sc E st (for_await (row_fuel st) (entityValues ctx ns) (\<lambda>(k, v, b) acc. Inr (acc @ [v])) (Fresh after) [] st)
        (\<lambda>x st'. same st st' \<and> x = spec_entities ctx V ns after)"
      unfolding next_eq
    proof (rule for_await_safe [where h = utf8 and rows = ?rows and bytes = "row_bytes \<circ> snd" and val = ?val and after = after], goal_cases)
      case 1
      show ?case using simD(4) [OF assms(1)] .
    next
      case (2 a)
      show ?case by (simp add: nextReducerEntityState_def entity_rows_def)
    next
      case 3
      then show ?case by (rule dist)
    next
      case (4 r)
      then show ?case using known [of "fst r" "snd r"] by simp
    next
      case 5
      then show ?case using False by simp
    next
      case 6
      then show ?case by (simp add: reading_def)
    next
      case (7 k r)
      then show ?case using known by blast
    next
      case 8
      have "rfold (\<lambda>(k, r). (\<lambda>(k, v, b) acc. Inr (acc @ [v])) (k, ?val r, row_bytes r)) (rows_after utf8 ?rows after) [] =
          Inr ([] @ map (\<lambda>(k, r). ?val r) (rows_after utf8 ?rows after))"
        by (rule rfold_gather) auto
      then show ?case using gather by (simp only: append_Nil)
    next
      case 9
      have "length (rows_after utf8 ?rows after) \<le> length ?rows" by (simp add: rows_after_def)
      also have "\<dots> \<le> length ?visible" by (simp add: entity_rows_def map_filter_def)
      finally show ?case using rows(5) by (simp add: row_fuel_def)
    qed
    then show ?thesis unfolding all_entities_def by (rule safe_mono) auto
  qed
qed

lemma rfold_match:
  "length acc + length xs \<le> records \<Longrightarrow> used + (\<Sum>(k, r) \<leftarrow> xs. row_bytes r) \<le> bytes \<Longrightarrow>
    rfold (\<lambda>(k, r). match_body records bytes (k, val r, row_bytes r)) xs (acc, used) = Inr (acc @ map (\<lambda>(k, r). val r) xs, used + (\<Sum>(k, r) \<leftarrow> xs. row_bytes r))"
  by (induction xs arbitrary: acc used) (auto simp: match_body_def add.assoc)

lemma matching_safe:
  assumes "sim ctx sc E P V st" "ahead (E - P) V" "ns \<in> sp_names sc" "length (spec_matches ctx V ns wanted) \<le> records"
    "(\<Sum>(key, v) \<leftarrow> spec_matches ctx V ns wanted. fact_bytes ctx ns v) \<le> bytes"
  shows "safe ctx sc E st (matchingBeforeObservation ctx ns wanted records bytes st)
    (\<lambda>x st'. x = map (kept ctx \<circ> snd) (spec_matches ctx V ns wanted) \<and> same st st')"
proof -
  let ?o = "ix_ordinal (rx_indices st ns)" and ?m = "vw_before (V ns)"
  have ord: "?o = vw_ordinal (V ns)" using simD(6) [OF assms(1,3)] by (simp add: index_at_def)
  have below: "known_below E P ns key ?o" for key using past_or_ahead [OF assms(2)] by (fastforce simp: known_below_def ord)
  have dm: "distinct (map fst ?m)" using simD(2) [OF assms(1)] by (auto simp: history_def amounts_to_def)
  have lm: "map_of ?m key = Some v \<longleftrightarrow> is_latest P ns key ?o v" for key v using before_latest [OF simD(2) [OF assms(1)]] by (simp add: ord)
  have next_eq: "groupEntriesBeforeObservation ctx ns wanted =
      (\<lambda>gen st. rbind (next_row 2 True (nextReducerGroupState ns (sha256Text wanted)) fst ns gen st) (\<lambda>(y, st'). yield_entry ctx y st'))"
    by (intro ext) (simp add: groupEntriesBeforeObservation_def)
  let ?loop = "for_await (row_fuel st) (groupEntriesBeforeObservation ctx ns wanted) (match_body records bytes) (Fresh []) ([], 0) st"
  have "safe ctx sc E st ?loop (\<lambda>x st'. same st st' \<and> fst x = map (kept ctx \<circ> snd) (spec_matches ctx V ns wanted))"
  proof (cases "?o < 2")
    case True
    have "map_of ?m key \<noteq> Some v" for key v using lm [of key v] past_bound [OF simD(2) [OF assms(1)]] True by (fastforce simp: is_latest_def)
    then have "map_of ?m = Map.empty" by (intro ext) (meson not_Some_eq)
    then have "spec_matches ctx V ns wanted = []" by (simp add: map_of_eq_empty_iff spec_matches_def by_digest_def)
    then show ?thesis using True simD(4) [OF assms(1)]
      by (auto simp: row_fuel_def next_eq next_row_def yield_entry_def intro!: safe_return)
  next
    case False
    let ?visible = "visible_rows (rx_store st) ns ?o" and ?val = "\<lambda>r. projr (verified_row ctx (rx_store st) r)"
    let ?grp = "\<lambda>(d :: string, r). rr_group r = Some (sha256Text wanted)"
    note rows = listed_rows [OF assms(1) below dm lm]
    have fact: "verified_row ctx (rx_store st) r = Inr (kept ctx v) \<and> row_bytes r \<le> 524288 \<and> row_bytes r = fact_bytes ctx ns v"
      if "r = the (fact_row ctx ns v)" "(key, v) \<in> set ?m" for key v r
      using rows(3) [OF that(2)] row_bytes_bound that(1) by (auto simp: fact_bytes_def)
    have rem: "rows_after id (filter ?grp ?visible) [] = map (fact_entry ctx ns) (spec_matches ctx V ns wanted)"
    proof -
      have "rows_after id (filter ?grp ?visible) [] = sort_key fst (filter (\<lambda>x. ?grp x \<and> [] < fst x) ?visible)"
        by (simp add: rows_after_def conj_commute)
      also have "\<dots> = map (fact_entry ctx ns) (by_digest (filter (\<lambda>(key, v). in_group ctx ns wanted v) ?m))"
      proof (rule rows(1), clarify)
        fix key v assume "(key, v) \<in> set ?m"
        then obtain r where "fact_row ctx ns v = Some r" using rows(3) by blast
        moreover have "[] < sha256Text key" using sha256Text_ne [of key] by (cases "sha256Text key") auto
        ultimately show "(?grp (fact_entry ctx ns (key, v)) \<and> [] < fst (fact_entry ctx ns (key, v))) = in_group ctx ns wanted v"
          using fact_row_shape(7) by (auto simp: fact_entry_def in_group_def split: option.splits)
      qed
      finally show ?thesis by (simp add: spec_matches_def)
    qed
    have sub: "set (spec_matches ctx V ns wanted) \<subseteq> set ?m" by (auto simp: spec_matches_def by_digest_def)
    have vals: "map (\<lambda>(k, r). ?val r) (rows_after id (filter ?grp ?visible) []) = map (kept ctx \<circ> snd) (spec_matches ctx V ns wanted)"
      unfolding rem map_map by (rule map_cong) (use fact sub in \<open>fastforce simp: fact_entry_def\<close>)+
    have "map (\<lambda>(k, r). row_bytes r) (rows_after id (filter ?grp ?visible) []) = map (\<lambda>(key, v). fact_bytes ctx ns v) (spec_matches ctx V ns wanted)"
      unfolding rem map_map by (rule map_cong) (use fact sub in \<open>fastforce simp: fact_entry_def\<close>)+
    then have "(\<Sum>(k, r) \<leftarrow> rows_after id (filter ?grp ?visible) []. row_bytes r) \<le> bytes" using assms(5) by simp
    then have fold: "rfold (\<lambda>(k, r). match_body records bytes (k, ?val r, row_bytes r)) (rows_after id (filter ?grp ?visible) []) ([], 0) =
        Inr (map (kept ctx \<circ> snd) (spec_matches ctx V ns wanted), (\<Sum>(k, r) \<leftarrow> rows_after id (filter ?grp ?visible) []. row_bytes r))"
      using assms(4) rfold_match [where acc = "[]" and used = 0 and xs = "rows_after id (filter ?grp ?visible) []" and val = ?val] vals by (simp add: rem)
    have "safe ctx sc E st ?loop (\<lambda>x st'. same st st' \<and> x =
        (map (kept ctx \<circ> snd) (spec_matches ctx V ns wanted), (\<Sum>(k, r) \<leftarrow> rows_after id (filter ?grp ?visible) []. row_bytes r)))"
      unfolding next_eq
    proof (rule for_await_safe [where h = id and rows = "filter ?grp ?visible" and bytes = "row_bytes \<circ> snd" and val = ?val and after = "[]"], goal_cases)
      case 1
      show ?case using simD(4) [OF assms(1)] .
    next
      case (2 a)
      show ?case by (simp add: nextReducerGroupState_def)
    next
      case 3
      then show ?case using rows(2) by (simp add: distinct_map inj_on_def)
    next
      case (4 r)
      then show ?case using rows(4) fact by (fastforce simp: fact_entry_def)
    next
      case 5
      then show ?case using False by simp
    next
      case 6
      then show ?case by (simp add: reading_def)
    next
      case (7 k r)
      then show ?case using rows(4) fact by (fastforce simp: fact_entry_def)
    next
      case 8
      then show ?case by (rule fold)
    next
      case 9
      have "length (rows_after id (filter ?grp ?visible) []) \<le> length ?visible" unfolding rows_after_def length_sort by (meson length_filter_le le_trans)
      then show ?case using rows(5) by (simp add: row_fuel_def)
    qed
    then show ?thesis by (rule safe_mono) auto
  qed
  then show ?thesis unfolding matchingBeforeObservation_def
  proof (rule safe_bind, goal_cases)
    case (1 x st')
    then show ?case by (cases x) (auto intro!: safe_return)
  qed
qed

end
