(* ===== verification/Reducer_Replay.thy ===== *)
theory Reducer_Replay
  imports Reducer_Reads
begin

text \<open>
  Reducers that are interrupted and resumed. A stage of the reconciliation is a reducer program with a
  checkpoint before it, which records the reducer's own state and the positions of its indices; an attempt
  at a stage reopens the indices at those positions on whatever rows earlier attempts left. Whatever
  happened before, a stage computes what it computes on plain maps.
\<close>

subsection \<open>One program\<close>

definition later :: "effect set \<Rightarrow> views \<Rightarrow> bool" where
  "later L V \<longleftrightarrow> (\<forall>(ns, key, n, v)\<in>L. vw_ordinal (V ns) < n)"

lemma later_ahead:
  assumes "later L W" "\<And>ns. vw_ordinal (V ns) \<le> vw_ordinal (W ns)"
  shows "ahead L V"
  unfolding ahead_def
proof
  fix e assume "e \<in> L"
  then show "to_come V e" using assms(1) assms(2) [of "fst e"] by (cases e) (fastforce simp: later_def to_come_def)
qed

lemma rest_ahead:
  assumes "permitted ctx sc p V" "E \<subseteq> P \<union> effects ctx p V \<union> L" "later L (snd (spec_run ctx p V))"
  shows "ahead (E - P) V"
  using effects_ahead [OF assms(1)] later_ahead [OF assms(3) spec_run_later] assms(2) by (auto simp: ahead_def)

lemma sim_begin: "sim ctx sc E P V st \<Longrightarrow> sim ctx sc E P (spec_begin ns V) (beginObservation ns st)"
  using begin_pend [where ws = "[]"] by (simp add: pend_Nil)

lemma last_known_closed [simp]: "last_known ctx (w\<lparr>vw_closed := c\<rparr>) = last_known ctx w"
  by (intro ext) (simp add: last_known_def)

lemma index_at_closed: "index_at ctx w ix \<Longrightarrow> index_at ctx (w\<lparr>vw_closed := True\<rparr>) ix"
  by (auto simp: index_at_def split: if_splits option.splits)

lemma sim_close: "sim ctx sc E P V st \<Longrightarrow> sim ctx sc E P (spec_close ns V) st"
  by (auto simp: sim_def indexed_def history_close) (auto simp: spec_close_def intro: index_at_closed)

lemma safe_then:
  assumes "safe ctx sc E st m Q" "\<And>x st'. Q x st' \<Longrightarrow> safe ctx sc E st' (f x st') R"
  shows "safe ctx sc E st (then_run m f) R"
  unfolding then_run_def by (rule safe_bind [OF assms(1)]) (rule assms(2))

lemma safe_then_read:
  assumes "sim ctx sc E P V st" "safe ctx sc E st m (\<lambda>x st'. x = y \<and> same st st')" "\<And>st'. sim ctx sc E P V st' \<Longrightarrow> safe ctx sc E st' (f y st') R"
  shows "safe ctx sc E st (then_run m f) R"
  by (rule safe_then [OF assms(2)]) (use assms(1,3) sim_same in blast)

lemma run_safe:
  assumes "sim ctx sc E P V st" "permitted ctx sc p V" "effects ctx p V \<subseteq> E" "E \<subseteq> P \<union> effects ctx p V \<union> L" "later L (snd (spec_run ctx p V))"
  shows "safe ctx sc E st (run_reducer ctx p st)
    (\<lambda>x st'. x = fst (spec_run ctx p V) \<and> sim ctx sc E (P \<union> effects ctx p V) (snd (spec_run ctx p V)) st')"
  using assms
proof (induction p arbitrary: P V st)
  case (Return r)
  then show ?case using simD(4) by (auto intro!: safe_return)
next
  case (Begin ns p)
  then show ?case using Begin.IH [OF sim_begin] by simp
next
  case (Get ns key k)
  note a = rest_ahead [OF Get.prems(2,4,5)]
  show ?case unfolding run_reducer.simps
    by (rule safe_then_read [OF Get.prems(1) get_safe [OF Get.prems(1) a]]) (use Get.prems Get.IH [OF rangeI] in simp_all)
next
  case (Has ns key k)
  note a = rest_ahead [OF Has.prems(2,4,5)]
  show ?case unfolding run_reducer.simps
    by (rule safe_then_read [OF Has.prems(1) has_safe [OF Has.prems(1) a]]) (use Has.prems Has.IH [OF rangeI] in simp_all)
next
  case (Has_entity ns key k)
  note a = rest_ahead [OF Has_entity.prems(2,4,5)]
  show ?case unfolding run_reducer.simps
    by (rule safe_then_read [OF Has_entity.prems(1) has_entity_safe [OF Has_entity.prems(1) a]]) (use Has_entity.prems Has_entity.IH [OF rangeI] in simp_all)
next
  case (Get_along ns key other key' k)
  note a = rest_ahead [OF Get_along.prems(2,4,5)]
  show ?case unfolding run_reducer.simps
    by (rule safe_then_read [OF Get_along.prems(1) get_along_safe [OF Get_along.prems(1) a]]) (use Get_along.prems Get_along.IH [OF rangeI] in simp_all)
next
  case (Get_many ns keys k)
  note a = rest_ahead [OF Get_many.prems(2,4,5)]
  show ?case unfolding run_reducer.simps
    by (rule safe_then_read [OF Get_many.prems(1) get_many_safe [OF Get_many.prems(1) a]]) (use Get_many.prems Get_many.IH [OF rangeI] in simp_all)
next
  case (Matching ns wanted records bytes k)
  note a = rest_ahead [OF Matching.prems(2,4,5)]
  show ?case unfolding run_reducer.simps
    by (rule safe_then_read [OF Matching.prems(1) matching_safe [OF Matching.prems(1) a]]) (use Matching.prems Matching.IH [OF rangeI] in \<open>simp_all add: Let_def\<close>)
next
  case (Latest ns after k)
  have a: "ahead (E - P) (spec_close ns V)" by (rule rest_ahead [where p = "k (spec_latest ctx V ns after)"]) (use Latest.prems in auto)
  show ?case unfolding run_reducer.simps
    by (rule safe_then_read [OF Latest.prems(1) latest_safe [OF Latest.prems(1) a]]) (use Latest.prems Latest.IH [OF rangeI] sim_close in simp_all)
next
  case (Entities ns after k)
  have a: "ahead (E - P) (spec_close ns V)" by (rule rest_ahead [where p = "k (spec_entities ctx V ns after)"]) (use Entities.prems in auto)
  show ?case unfolding run_reducer.simps
    by (rule safe_then_read [OF Entities.prems(1) entities_safe [OF Entities.prems(1) a]]) (use Entities.prems Entities.IH [OF rangeI] sim_close in simp_all)
next
  case (Set f p)
  have step: "safe ctx sc E st' (run_reducer ctx p st') (\<lambda>x st'. x = fst (spec_run ctx (Set f p) V) \<and> sim ctx sc E (P \<union> effects ctx (Set f p) V) (snd (spec_run ctx (Set f p) V)) st')"
    if "sim ctx sc E (insert (effect_of V f) P) (spec_write f V) st'" for st'
    using Set.IH [OF that] Set.prems by simp
  show ?case unfolding run_reducer.simps
    by (rule safe_then, rule set_safe [OF Set.prems(1)]) (use Set.prems step in auto)
next
  case (Set_along f g h p)
  show ?case unfolding run_reducer.simps
    by (rule safe_then, rule set_along_safe) (use Set_along.prems Set_along.IH in \<open>auto simp: Un_assoc [symmetric]\<close>)
next
  case (Seed_many ns es p)
  show ?case unfolding run_reducer.simps seedMany_def
    by (rule safe_then, rule seed_loop_safe [where P = P and V = V]) (use Seed_many.prems Seed_many.IH in \<open>auto simp: pend_Nil Un_assoc [symmetric]\<close>)
next
  case (Seed_along ns es other es' p)
  show ?case unfolding run_reducer.simps
    by (rule safe_then, rule seed_along_safe) (use Seed_along.prems Seed_along.IH in \<open>auto simp: Un_assoc [symmetric]\<close>)
qed

subsection \<open>Stages\<close>

text \<open>
  What a stage starts from: new index objects, each reopened at its position. The result has the state of
  the reducer and, with \<open>position\<close>, the positions for the next checkpoint.
\<close>

fun resume_all :: "string list \<Rightarrow> (string \<Rightarrow> nat) \<Rightarrow> reducer_state \<Rightarrow> unit reducer_outcome" where
  "resume_all [] positions st = Inr ((), st)"
| "resume_all (ns # names) positions st = rbind (resumeAt ns (int (positions ns)) st) (\<lambda>(_, st'). resume_all names positions st')"

definition position :: "string \<Rightarrow> reducer_state \<Rightarrow> nat" where
  "position ns st = ix_ordinal (rx_indices st ns)"

type_synonym 's checkpoint = "'s \<times> (string \<Rightarrow> nat)"

definition run_stage ::
  "reducer_context \<Rightarrow> string list \<Rightarrow> ('s \<Rightarrow> 's reducer) \<Rightarrow> 's checkpoint \<Rightarrow> nat option \<Rightarrow> reducer_store \<Rightarrow> 's reducer_outcome" where
  "run_stage ctx names stage cp left store =
     then_run (resume_all names (snd cp) (new_reducers left store)) (\<lambda>_. run_reducer ctx (stage (fst cp)))"

definition empty_store :: reducer_store where
  "empty_store = \<lparr>rs_texts = Map.empty, rs_rows = []\<rparr>"

text \<open>
  The checkpoints and stores that attempts at the stages of a reconciliation can leave: an attempt that
  fails leaves its rows and the checkpoint it started from, one that succeeds the next checkpoint.
\<close>

inductive attempted ::
  "reducer_context \<Rightarrow> string list \<Rightarrow> ('s \<Rightarrow> 's reducer) list \<Rightarrow> 's \<Rightarrow> nat \<Rightarrow> 's checkpoint \<Rightarrow> reducer_store \<Rightarrow> bool"
  for ctx names stages s0 where
  start: "attempted ctx names stages s0 0 (s0, \<lambda>_. 0) empty_store"
| failed: "attempted ctx names stages s0 n cp store \<Longrightarrow> n < length stages \<Longrightarrow>
    run_stage ctx names (stages ! n) cp left store = Inl (e, store') \<Longrightarrow> attempted ctx names stages s0 n cp store'"
| completed: "attempted ctx names stages s0 n cp store \<Longrightarrow> n < length stages \<Longrightarrow>
    run_stage ctx names (stages ! n) cp left store = Inr (s', st') \<Longrightarrow>
    attempted ctx names stages s0 (Suc n) (s', \<lambda>ns. position ns st') (rx_store st')"

text \<open>The stages on plain maps; nothing of an observation is open when a stage begins.\<close>

definition settled_views :: "views \<Rightarrow> views" where
  "settled_views V = (\<lambda>ns. (V ns)\<lparr>vw_closed := True\<rparr>)"

fun spec_stages :: "reducer_context \<Rightarrow> ('s \<Rightarrow> 's reducer) list \<Rightarrow> 's \<times> views \<Rightarrow> 's \<times> views" where
  "spec_stages ctx [] sV = sV"
| "spec_stages ctx (q # qs) sV = spec_stages ctx qs (spec_run ctx (q (fst sV)) (settled_views (snd sV)))"

fun stage_effects :: "reducer_context \<Rightarrow> ('s \<Rightarrow> 's reducer) list \<Rightarrow> 's \<times> views \<Rightarrow> effect set" where
  "stage_effects ctx [] sV = {}"
| "stage_effects ctx (q # qs) sV = effects ctx (q (fst sV)) (settled_views (snd sV)) \<union>
     stage_effects ctx qs (spec_run ctx (q (fst sV)) (settled_views (snd sV)))"

fun permitted_stages :: "reducer_context \<Rightarrow> scope \<Rightarrow> ('s \<Rightarrow> 's reducer) list \<Rightarrow> 's \<times> views \<Rightarrow> bool" where
  "permitted_stages ctx sc [] sV \<longleftrightarrow> True"
| "permitted_stages ctx sc (q # qs) sV \<longleftrightarrow> (\<forall>ns\<in>sp_names sc. vw_ordinal (snd sV ns) \<le> 9007199254740991) \<and>
     permitted ctx sc (q (fst sV)) (settled_views (snd sV)) \<and>
     permitted_stages ctx sc qs (spec_run ctx (q (fst sV)) (settled_views (snd sV)))"

lemma spec_stages_append: "spec_stages ctx (ps @ qs) sV = spec_stages ctx qs (spec_stages ctx ps sV)"
  by (induction ps arbitrary: sV) auto

lemma stage_effects_append: "stage_effects ctx (ps @ qs) sV = stage_effects ctx ps sV \<union> stage_effects ctx qs (spec_stages ctx ps sV)"
  by (induction ps arbitrary: sV) auto

lemma admissible_stages_append:
  "permitted_stages ctx sc (ps @ qs) sV \<longleftrightarrow> permitted_stages ctx sc ps sV \<and> permitted_stages ctx sc qs (spec_stages ctx ps sV)"
  by (induction ps arbitrary: sV) auto

lemma history_settled: "history P V \<Longrightarrow> history P (settled_views V)"
  by (simp add: history_def settled_views_def)

lemma settled_simps [simp]: "vw_ordinal (settled_views V ns) = vw_ordinal (V ns)" "vw_closed (settled_views V ns)"
  by (simp_all add: settled_views_def)

lemma history_stages: "history P (snd sV) \<Longrightarrow> permitted_stages ctx sc qs sV \<Longrightarrow> history (P \<union> stage_effects ctx qs sV) (snd (spec_stages ctx qs sV))"
proof (induction qs arbitrary: P sV)
  case (Cons q qs)
  let ?V = "settled_views (snd sV)"
  have "history (P \<union> effects ctx (q (fst sV)) ?V) (snd (spec_run ctx (q (fst sV)) ?V))"
    by (rule history_run [OF history_settled]) (use Cons.prems in auto)
  from Cons.IH [OF this] show ?case using Cons.prems by (simp add: Un_assoc)
qed simp

lemma stages_later: "permitted_stages ctx sc qs sV \<Longrightarrow> later (stage_effects ctx qs sV) (snd sV)"
proof (induction qs arbitrary: sV)
  case (Cons q qs)
  let ?V = "settled_views (snd sV)" and ?next = "spec_run ctx (q (fst sV)) (settled_views (snd sV))"
  have "ahead (effects ctx (q (fst sV)) ?V) ?V" using Cons.prems by (intro effects_ahead) auto
  then have "later (effects ctx (q (fst sV)) ?V) (snd sV)" by (fastforce simp: ahead_def to_come_def later_def)
  moreover have "later (stage_effects ctx qs ?next) (snd ?next)" using Cons by simp
  then have "later (stage_effects ctx qs ?next) (snd sV)"
    unfolding later_def
  proof clarify
    fix ns key n v assume "(ns, key, n, v) \<in> stage_effects ctx qs ?next"
    then have "vw_ordinal (snd ?next ns) < n" using \<open>later (stage_effects ctx qs ?next) (snd ?next)\<close> by (auto simp: later_def)
    then show "vw_ordinal (snd sV ns) < n" using spec_run_later [of ?V ns ctx "q (fst sV)"] by simp
  qed
  ultimately show ?case by (auto simp: later_def)
qed (simp add: later_def)

lemma seed_effects_ok: "list_all (fact_ok ctx sc) fs \<Longrightarrow> (ns, key, n, v) \<in> seed_effects fs V \<Longrightarrow> fact_ok ctx sc (ns, key, v)"
  by (induction fs arbitrary: V) (auto simp: list_all_iff)

lemma writes_fact_ok: "writes_permitted ctx sc fs V \<Longrightarrow> f \<in> set fs \<Longrightarrow> fact_ok ctx sc f"
  by (induction fs arbitrary: V) (auto simp: write_permitted_def)

lemma effects_fact_ok: "permitted ctx sc p V \<Longrightarrow> (ns, key, n, v) \<in> effects ctx p V \<Longrightarrow> fact_ok ctx sc (ns, key, v)"
proof (induction p arbitrary: V)
  case (Set f p)
  then show ?case by (cases f) (auto simp: write_permitted_def)
next
  case (Set_along f g h p)
  then show ?case using writes_fact_ok [of ctx sc "along f g h" V] by auto
next
  case (Seed_many n' es p)
  then show ?case using seed_effects_ok [of ctx sc "map (Pair n') es"] by auto
next
  case (Seed_along n' es m es' p)
  then show ?case using seed_effects_ok [of ctx sc "seed_facts n' es m es'"] by auto
qed auto

lemma stage_effects_ok: "permitted_stages ctx sc qs sV \<Longrightarrow> (ns, key, n, v) \<in> stage_effects ctx qs sV \<Longrightarrow> fact_ok ctx sc (ns, key, v)"
proof (induction qs arbitrary: sV)
  case (Cons q qs)
  then show ?case using effects_fact_ok [of ctx sc "q (fst sV)"] by (metis Un_iff permitted_stages.simps(2) stage_effects.simps(2))
qed simp

lemma stages_world:
  assumes "sound_text ctx" "no_collision sc" "permitted_stages ctx sc qs (s0, no_views)"
  shows "world ctx sc (stage_effects ctx qs (s0, no_views))"
proof -
  let ?E = "stage_effects ctx qs (s0, no_views)"
  have h: "history ?E (snd (spec_stages ctx qs (s0, no_views)))" using history_stages [of "{}" "(s0, no_views)"] history_empty assms(3) by auto
  have "effect_ok ctx sc e" if "e \<in> ?E" for e
    using that stage_effects_ok [OF assms(3)] past_bound [OF h] by (cases e) (auto simp: effect_ok_def)
  then show ?thesis using h assms(1,2) by (auto simp: world_def history_def)
qed

lemma resume_all_ok:
  assumes "\<forall>ns\<in>set names. positions ns \<le> 9007199254740991"
  shows "resume_all names positions st = Inr ((), st\<lparr>rx_indices := \<lambda>ns. if ns \<in> set names
    then \<lparr>ix_ordinal = positions ns, ix_completed = True, ix_written = {}, ix_last = None\<rparr> else rx_indices st ns\<rparr>)"
  using assms
proof (induction names arbitrary: st)
  case (Cons ns names)
  then show ?case by (auto simp: resumeAt_def with_index_def intro!: arg_cong [where f = "\<lambda>I. st\<lparr>rx_indices := I\<rparr>"])
qed simp

subsection \<open>Refinement of the maps\<close>

definition resumable_at where
  "resumable_at ctx sc stages s0 n cp store \<longleftrightarrow> n \<le> length stages \<and> (let sV = spec_stages ctx (take n stages) (s0, no_views) in
     fst cp = fst sV \<and> (\<forall>ns\<in>sp_names sc. snd cp ns = vw_ordinal (snd sV ns)) \<and>
     stored ctx sc (stage_effects ctx stages (s0, no_views)) store \<and> effects_present ctx (stage_effects ctx (take n stages) (s0, no_views)) store)"

lemma stage_safe:
  assumes "sound_text ctx" "no_collision sc" "permitted_stages ctx sc stages (s0, no_views)" "sp_names sc = set names"
    "resumable_at ctx sc stages s0 n cp store" "n < length stages"
  defines "E \<equiv> stage_effects ctx stages (s0, no_views)" and "next_stage \<equiv> spec_stages ctx (take (Suc n) stages) (s0, no_views)"
  shows "safe ctx sc E (new_reducers left store) (run_stage ctx names (stages ! n) cp left store)
    (\<lambda>s' st'. s' = fst next_stage \<and> sim ctx sc E (stage_effects ctx (take (Suc n) stages) (s0, no_views)) (snd next_stage) st')"
proof -
  let ?sV = "spec_stages ctx (take n stages) (s0, no_views)" and ?P = "stage_effects ctx (take n stages) (s0, no_views)"
  let ?V = "settled_views (snd ?sV)" and ?p = "(stages ! n) (fst ?sV)"
  let ?L = "stage_effects ctx (drop (Suc n) stages) next_stage"
  have split: "stages = take n stages @ stages ! n # drop (Suc n) stages" "take (Suc n) stages = take n stages @ [stages ! n]"
    using assms(6) by (simp_all add: id_take_nth_drop take_Suc_conv_app_nth)
  have adm: "permitted_stages ctx sc (take n stages) (s0, no_views)" "permitted_stages ctx sc (stages ! n # drop (Suc n) stages) ?sV"
    using assms(3) split(1) by (metis admissible_stages_append)+
  have next_eq: "next_stage = spec_run ctx ?p ?V" unfolding next_stage_def split(2) by (simp add: spec_stages_append)
  have P': "stage_effects ctx (take (Suc n) stages) (s0, no_views) = ?P \<union> effects ctx ?p ?V" unfolding split(2) by (simp add: stage_effects_append)
  have E: "E = ?P \<union> effects ctx ?p ?V \<union> ?L"
    unfolding E_def by (subst split(1)) (simp add: stage_effects_append next_eq Un_assoc)
  have cp: "fst cp = fst ?sV" "\<forall>ns\<in>sp_names sc. snd cp ns = vw_ordinal (snd ?sV ns)" "stored ctx sc E store" "effects_present ctx ?P store"
    using assms(5) by (auto simp: resumable_at_def Let_def E_def)
  have hist: "history ?P ?V" using history_stages [of "{}" "(s0, no_views)"] history_empty adm(1) by (auto intro: history_settled)
  let ?st = "(new_reducers left store)\<lparr>rx_indices := \<lambda>ns. if ns \<in> set names
    then \<lparr>ix_ordinal = snd cp ns, ix_completed = True, ix_written = {}, ix_last = None\<rparr> else new_index\<rparr>"
  have resumed: "resume_all names (snd cp) (new_reducers left store) = Inr ((), ?st)"
    using cp(2) adm(2) assms(4) by (subst resume_all_ok) (auto simp: new_reducers_def)
  have "world ctx sc E" unfolding E_def by (rule stages_world [OF assms(1-3)])
  moreover have "indexed ctx sc ?V (rx_indices ?st)" using cp(2) assms(4) by (auto simp: indexed_def index_at_def)
  ultimately have sim: "sim ctx sc E ?P ?V ?st" using hist cp(3,4) E by (auto simp: sim_def new_reducers_def)
  have "safe ctx sc E ?st (run_reducer ctx ?p ?st) (\<lambda>x st'. x = fst (spec_run ctx ?p ?V) \<and> sim ctx sc E (?P \<union> effects ctx ?p ?V) (snd (spec_run ctx ?p ?V)) st')"
    by (rule run_safe [OF sim, where L = ?L]) (use adm(2) E stages_later [where sV = next_stage] in \<open>auto simp: next_eq\<close>)
  then show ?thesis unfolding run_stage_def then_run_def resumed P' next_eq cp(1) by simp
qed

lemma attempts_resumable:
  assumes "sound_text ctx" "no_collision sc" "permitted_stages ctx sc stages (s0, no_views)" "sp_names sc = set names"
    "attempted ctx names stages s0 n cp store"
  shows "resumable_at ctx sc stages s0 n cp store"
  using assms(5)
proof induction
  case start
  then show ?case using stored_empty by (simp add: resumable_at_def no_views_def empty_store_def effects_present_def)
next
  case (failed n cp store left e store')
  have "safe ctx sc (stage_effects ctx stages (s0, no_views)) (new_reducers left store) (Inl (e, store') :: 'a reducer_outcome) (\<lambda>_ _. True)"
    using stage_safe [OF assms(1-4) failed.IH failed.hyps(2), of left] unfolding failed.hyps(3) by (rule safe_mono) simp
  then show ?case using failed.IH present_grows by (auto simp: safe_def resumable_at_def Let_def new_reducers_def)
next
  case (completed n cp store left s' st')
  let ?E = "stage_effects ctx stages (s0, no_views)" and ?next = "spec_stages ctx (take (Suc n) stages) (s0, no_views)"
  have "s' = fst ?next" "sim ctx sc ?E (stage_effects ctx (take (Suc n) stages) (s0, no_views)) (snd ?next) st'"
    using stage_safe [OF assms(1-4) completed.IH completed.hyps(2), of left] unfolding completed.hyps(3) by (auto simp: safe_def)
  then show ?case using completed.hyps(2) by (auto simp: resumable_at_def Let_def position_def index_at_def dest: simD)
qed

text \<open>
  C2. Reducers refine their maps under any interruption. After any attempts at the stages of a reconciliation, each of
  which may have been cut off at any call of the database, the checkpoint is that of the stages run on
  plain maps. The next attempt, on whatever rows are there, fails only if the database does, never
  because a replay differs from a row or a row does not verify; and if it completes, every read, lookup
  window, match and listing has given what the maps give, so that the state it returns is that of the
  maps, with rows of later observations invisible to it.
\<close>

theorem reducer_replay_refines_maps:
  assumes "sound_text ctx" "no_collision sc" "permitted_stages ctx sc stages (s0, no_views)" "sp_names sc = set names"
    "attempted ctx names stages s0 n cp store"
  shows "fst cp = fst (spec_stages ctx (take n stages) (s0, no_views)) \<and>
    (\<forall>ns\<in>set names. snd cp ns = vw_ordinal (snd (spec_stages ctx (take n stages) (s0, no_views)) ns)) \<and>
    (n < length stages \<longrightarrow> (case run_stage ctx names (stages ! n) cp left store of
       Inl (e, store') \<Rightarrow> left \<noteq> None \<and> (e = Reducer_storage \<or> e = Text_storage)
     | Inr (s', st') \<Rightarrow> s' = fst (spec_stages ctx (take (Suc n) stages) (s0, no_views))))"
proof -
  note r = attempts_resumable [OF assms]
  have "case run_stage ctx names (stages ! n) cp left store of
       Inl (e, store') \<Rightarrow> left \<noteq> None \<and> (e = Reducer_storage \<or> e = Text_storage)
     | Inr (s', st') \<Rightarrow> s' = fst (spec_stages ctx (take (Suc n) stages) (s0, no_views))" if "n < length stages"
    using stage_safe [OF assms(1-4) r that, of left] by (auto simp: safe_def new_reducers_def split: sum.splits)
  then show ?thesis using r assms(4) by (auto simp: resumable_at_def Let_def)
qed

subsection \<open>A concrete reconciliation\<close>

text \<open>A card is observed, then looked up after a restart.\<close>

definition example_context :: reducer_context where
  "example_context = \<lparr>rc_nfc = \<lambda>s. s, rc_quoted = \<lambda>s. 6 * length s + 2, rc_group = \<lambda>_. None, rc_database = \<lambda>_. 0\<rparr>"

definition example_stages :: "(js_value option \<Rightarrow> js_value option reducer) list" where
  "example_stages =
     [\<lambda>s. Begin ''cards'' (Set (''cards'', [97], VInt 1) (Return s)),
      \<lambda>s. Begin ''cards'' (Get ''cards'' [97] Return)]"

lemma example_admissible:
  "permitted_stages example_context \<lparr>sp_names = {''cards''}, sp_keys = {[97]}, sp_texts = {}\<rparr> example_stages (None, no_views)"
proof -
  have "fact_row example_context ''cards'' (VInt 1) \<noteq> None"
    by (simp add: fact_row_def example_context_def envelope_of_def envelope_value_def canonicalJson_def sort_by_def compareUtf8_def plain_ascii_def
        enumerate_eq_zip quote_def escape_unit_def int_text_def ascii_def decimal.simps digit_char_def is_high_def is_low_def byte_length_def utf8_def utf8_point_def)
  then show ?thesis by (simp add: example_stages_def example_context_def write_permitted_def fact_ok_def no_views_def settled_views_def spec_begin_def)
qed

theorem reducer_replay_refines_maps_witness:
  "\<exists>cp store st'. attempted example_context [''cards''] example_stages None 1 cp store \<and>
     run_stage example_context [''cards''] (example_stages ! 1) cp None store = Inr (Some (VInt 1), st')"
proof -
  let ?sc = "\<lparr>sp_names = {''cards''}, sp_keys = {[97]}, sp_texts = {}\<rparr> :: scope"
  have hyps: "sound_text example_context" "no_collision ?sc" "sp_names ?sc = set [''cards'']"
    by (simp_all add: sound_text_def example_context_def no_collision_def)
  have len: "length example_stages = 2" by (simp add: example_stages_def)
  note refines = reducer_replay_refines_maps [OF hyps(1,2) example_admissible hyps(3), where left = None]
  have first: "attempted example_context [''cards''] example_stages None 0 (None, \<lambda>_. 0) empty_store" by (rule attempted.start)
  obtain s1 st1 where run1: "run_stage example_context [''cards''] (example_stages ! 0) (None, \<lambda>_. 0) None empty_store = Inr (s1, st1)"
    using refines [OF first] len by (auto split: sum.splits)
  have second: "attempted example_context [''cards''] example_stages None (Suc 0) (s1, \<lambda>ns. position ns st1) (rx_store st1)"
    by (rule attempted.completed [OF first _ run1]) (simp add: len)
  have "fst (spec_stages example_context (take (Suc (Suc 0)) example_stages) (None, no_views)) = Some (VInt 1)"
    by (simp add: example_stages_def no_views_def settled_views_def spec_begin_def spec_write_def spec_get_def kept_def)
  then obtain st2 where "run_stage example_context [''cards''] (example_stages ! 1) (s1, \<lambda>ns. position ns st1) None (rx_store st1) = Inr (Some (VInt 1), st2)"
    using refines [OF second] len by (auto split: sum.splits)
  then show ?thesis using second by auto
qed

end
