(* ===== verification/Canonical_Work.thy ===== *)
theory Canonical_Work
  imports Sorted_Size
begin

text \<open>
  Canonical JSON in pieces, \<open>canonicalValueChunks\<close> of
  \<open>src/src/catalogue/reconciliation/reconciliation-preparation.ts\<close>, and the traversal that can be
  suspended between pieces, \<open>consumeCanonicalWork\<close> of \<open>reconciliation-canonical-digest.ts\<close>.

  A document is a value in which collections may be record sources: a source gives, for the key of one of
  its records, the records behind it, and from the beginning for the empty key. A generator that may throw
  between two yields is the list of what it yields, with the error at its end.
\<close>

subsection \<open>Canonical parts of a value\<close>

datatype work_error =
    Part_json serial_error
  | Part_capacity           \<comment> \<open>one JSON value exceeds 512 KiB\<close>
  | Source_not_resumable    \<comment> \<open>Canonical hashing requires a resumable record source.\<close>
  | Must_advance            \<comment> \<open>Canonical record cursor must advance.\<close>

definition utf8Length :: "js_string \<Rightarrow> nat" where
  "utf8Length s = (if plain_ascii s then length s else byte_length s)"

fun separated :: "'a list list \<Rightarrow> 'a \<Rightarrow> 'a list" where
  "separated [] c = []"
| "separated [xs] c = xs"
| "separated (xs # ys # xss) c = xs @ c # separated (ys # xss) c"

definition text_parts :: "(js_string \<Rightarrow> js_string) \<Rightarrow> js_string \<Rightarrow> (serial_error + js_string) list" where
  "text_parts nfc s = [Inr [34]] @ map (\<lambda>piece. Inr (escape_units piece)) (text_slices (nfc s)) @ [Inr [34]]"

function value_parts :: "(js_string \<Rightarrow> js_string) \<Rightarrow> js_value \<Rightarrow> (serial_error + js_string) list" where
  "value_parts nfc (VText s) = text_parts nfc s"
| "value_parts nfc (VArray xs) = [Inr [91]] @ separated (map (value_parts nfc) xs) (Inr [44]) @ [Inr [93]]"
| "value_parts nfc (VObject ps) = [Inr [123]] @
     separated (map (\<lambda>(key, parts). text_parts nfc key @ [Inr [58]] @ parts)
       (sort_by (\<lambda>f g. compareUtf8 nfc (fst f) (fst g)) (map (\<lambda>(key, x). (key, value_parts nfc x)) ps))) (Inr [44]) @ [Inr [125]]"
| "value_parts nfc VNull = [canonicalJson nfc VNull]"
| "value_parts nfc (VBool b) = [canonicalJson nfc (VBool b)]"
| "value_parts nfc (VInt n) = [canonicalJson nfc (VInt n)]"
| "value_parts nfc VFraction = [canonicalJson nfc VFraction]"
| "value_parts nfc VOther = [canonicalJson nfc VOther]"
  by pat_completeness auto
termination
proof (relation "measure (\<lambda>(nfc, v). size v)", goal_cases)
  case (2 nfc xs x)
  then show ?case by (induction xs) auto
next
  case (3 nfc ps z key x)
  then have "(key, x) \<in> set ps" by simp
  then show ?case by (induction ps) auto
qed simp

fun gather_parts :: "(serial_error + js_string) list \<Rightarrow> js_string \<Rightarrow> nat \<Rightarrow> (work_error + js_string) list" where
  "gather_parts [] chunk bytes = (if chunk = [] then [] else [Inr chunk])"
| "gather_parts (Inl e # parts) chunk bytes = [Inl (Part_json e)]"
| "gather_parts (Inr part # parts) chunk bytes = (let len = utf8Length part
     in if len > 524288 then [Inl Part_capacity]
        else if bytes + len > 524288 then Inr chunk # gather_parts parts part len
        else gather_parts parts (chunk @ part) (bytes + len))"

definition canonicalValueChunks :: "(js_string \<Rightarrow> js_string) \<Rightarrow> js_value \<Rightarrow> (work_error + js_string) list" where
  "canonicalValueChunks nfc v = gather_parts (value_parts nfc v) [] 0"

subsection \<open>Parts of a document\<close>

type_synonym record_source = "js_string \<Rightarrow> (js_string \<times> js_value) list"

datatype doc =
    Leaf js_value
  | Members "(js_string \<times> doc) list"
  | Collection record_source
  | Unresumable             \<comment> \<open>an asynchronous iterable without \<open>canonicalEntries\<close>\<close>

datatype part = Literal js_string | Source record_source

definition member_parts :: "(js_string \<Rightarrow> js_string) \<Rightarrow> (js_string \<times> (work_error + part list)) list \<Rightarrow> work_error + part list" where
  "member_parts nfc ms =
     rbind (collect (map (\<lambda>(i, key, r). rbind r (\<lambda>ps. Inr (Literal ((if i = 0 then [] else [44]) @ quote (nfc key) @ [58]) # ps)))
         (enumerate 0 (sort_by (\<lambda>f g. compareUtf8 nfc (fst f) (fst g)) ms))))
       (\<lambda>pss. Inr ([Literal [123]] @ concat pss @ [Literal [125]]))"

function leaf_parts :: "(js_string \<Rightarrow> js_string) \<Rightarrow> js_value \<Rightarrow> work_error + part list" where
  "leaf_parts nfc v = (case v of
     VObject ps \<Rightarrow> member_parts nfc (map (\<lambda>(key, x). (key, leaf_parts nfc x)) ps)
   | _ \<Rightarrow> rbind (collect (canonicalValueChunks nfc v)) (\<lambda>texts. Inr (map Literal texts)))"
  by pat_completeness auto
termination
proof (relation "measure (\<lambda>(nfc, v). size v)", goal_cases)
  case (2 nfc v ps z key x)
  then have "(key, x) \<in> set ps" by simp
  then have "size x < size (VObject ps)" by (induction ps) auto
  then show ?case using 2 by simp
qed simp

declare leaf_parts.simps [simp del]

fun canonicalParts :: "(js_string \<Rightarrow> js_string) \<Rightarrow> doc \<Rightarrow> work_error + part list" where
  "canonicalParts nfc (Leaf v) = leaf_parts nfc v"
| "canonicalParts nfc (Members ms) = member_parts nfc (map (\<lambda>(key, d). (key, canonicalParts nfc d)) ms)"
| "canonicalParts nfc (Collection source) = Inr [Literal [91], Source source]"
| "canonicalParts nfc Unresumable = Inl Source_not_resumable"

subsection \<open>The traversal\<close>

record work_cursor =
  wc_part :: nat
  wc_after :: js_string
  wc_chunk :: nat

text \<open>What the traversal is given: a consumer of texts and a checkpoint, both of which may stop it.\<close>

record ('c, 'x) consumer =
  cn_consume :: "js_string \<Rightarrow> 'c \<Rightarrow> 'x + 'c"
  cn_checkpoint :: "work_cursor \<Rightarrow> 'c \<Rightarrow> 'x + 'c"
  cn_fail :: "work_error \<Rightarrow> 'c \<Rightarrow> 'x"

record 'c work =
  wk_cursor :: work_cursor
  wk_records :: nat
  wk_bytes :: nat
  wk_consumer :: 'c

definition append_text :: "('c, 'x) consumer \<Rightarrow> js_string \<Rightarrow> 'c work \<Rightarrow> 'x + 'c work" where
  "append_text cn t w = rbind (cn_consume cn t (wk_consumer w)) (\<lambda>c. Inr (w\<lparr>wk_consumer := c, wk_bytes := wk_bytes w + byte_length t\<rparr>))"

definition save_work :: "('c, 'x) consumer \<Rightarrow> 'c work \<Rightarrow> 'x + 'c work" where
  "save_work cn w = rbind (cn_checkpoint cn (wk_cursor w) (wk_consumer w)) (\<lambda>c. Inr (w\<lparr>wk_consumer := c, wk_records := 0, wk_bytes := 0\<rparr>))"

definition save_if :: "('c, 'x) consumer \<Rightarrow> bool \<Rightarrow> 'c work \<Rightarrow> 'x + 'c work" where
  "save_if cn b w = (if b then save_work cn w else Inr w)"

definition at_cursor :: "nat \<Rightarrow> js_string \<Rightarrow> nat \<Rightarrow> 'c work \<Rightarrow> 'c work" where
  "at_cursor part after chunk w = w\<lparr>wk_cursor := \<lparr>wc_part = part, wc_after = after, wc_chunk = chunk\<rparr>\<rparr>"

definition count_record :: "'c work \<Rightarrow> 'c work" where
  "count_record w = w\<lparr>wk_records := wk_records w + 1\<rparr>"

text \<open>The chunks of one record; those before the cursor were consumed before a suspension.\<close>

definition take_chunk :: "('c, 'x) consumer \<Rightarrow> js_string \<Rightarrow> nat \<Rightarrow> 'c work \<Rightarrow> 'x + 'c work" where
  "take_chunk cn t i w = rbind (append_text cn t w) (\<lambda>w1.
     let w2 = at_cursor (wc_part (wk_cursor w1)) (wc_after (wk_cursor w1)) (i + 1) w1
     in save_if cn (wk_bytes w2 \<ge> 524288) w2)"

fun each_chunk :: "('c, 'x) consumer \<Rightarrow> (work_error + js_string) list \<Rightarrow> nat \<Rightarrow> 'c work \<Rightarrow> 'x + 'c work" where
  "each_chunk cn [] i w = Inr w"
| "each_chunk cn (Inl e # ts) i w = Inl (cn_fail cn e (wk_consumer w))"
| "each_chunk cn (Inr t # ts) i w =
     (if i < wc_chunk (wk_cursor w) then each_chunk cn ts (i + 1) w
      else rbind (take_chunk cn t i w) (each_chunk cn ts (i + 1)))"

definition comma :: "('c, 'x) consumer \<Rightarrow> 'c work \<Rightarrow> 'x + 'c work" where
  "comma cn w = (if wc_chunk (wk_cursor w) = 0 \<and> wc_after (wk_cursor w) \<noteq> [] then append_text cn [44] w else Inr w)"

definition end_record :: "('c, 'x) consumer \<Rightarrow> js_string \<Rightarrow> 'c work \<Rightarrow> 'x + 'c work" where
  "end_record cn key w = (let w1 = count_record (at_cursor (wc_part (wk_cursor w)) key 0 w) in save_if cn (wk_records w1 = 128) w1)"

fun each_entry :: "('c, 'x) consumer \<Rightarrow> (js_string \<Rightarrow> js_string) \<Rightarrow> (js_string \<times> js_value) list \<Rightarrow> 'c work \<Rightarrow> 'x + 'c work" where
  "each_entry cn nfc [] w = Inr w"
| "each_entry cn nfc ((key, v) # es) w =
     (if key = [] \<or> key = wc_after (wk_cursor w) then Inl (cn_fail cn Must_advance (wk_consumer w))
      else rbind (comma cn w) (\<lambda>w1. rbind (each_chunk cn (canonicalValueChunks nfc v) 0 w1) (\<lambda>w2.
           rbind (end_record cn key w2) (each_entry cn nfc es))))"

definition finish_part :: "('c, 'x) consumer \<Rightarrow> js_string \<Rightarrow> js_string \<Rightarrow> nat \<Rightarrow> 'c work \<Rightarrow> 'x + 'c work" where
  "finish_part cn t after chunk w = rbind (append_text cn t w) (\<lambda>w1.
     let w2 = count_record (at_cursor (wc_part (wk_cursor w1) + 1) after chunk w1)
     in save_if cn (wk_records w2 = 128 \<or> wk_bytes w2 \<ge> 524288) w2)"

definition one_part :: "('c, 'x) consumer \<Rightarrow> (js_string \<Rightarrow> js_string) \<Rightarrow> part \<Rightarrow> 'c work \<Rightarrow> 'x + 'c work" where
  "one_part cn nfc part w = (case part of
     Literal t \<Rightarrow> finish_part cn t (wc_after (wk_cursor w)) (wc_chunk (wk_cursor w)) w
   | Source source \<Rightarrow> rbind (each_entry cn nfc (source (wc_after (wk_cursor w))) w) (finish_part cn [93] [] 0))"

fun each_part :: "('c, 'x) consumer \<Rightarrow> (js_string \<Rightarrow> js_string) \<Rightarrow> part list \<Rightarrow> 'c work \<Rightarrow> 'x + 'c work" where
  "each_part cn nfc [] w = Inr w"
| "each_part cn nfc (p # ps) w = rbind (one_part cn nfc p w) (each_part cn nfc ps)"

text \<open>The caller's cursor is an object that the traversal moves, hence also a result.\<close>

definition consumeCanonicalWork :: "('c, 'x) consumer \<Rightarrow> (js_string \<Rightarrow> js_string) \<Rightarrow> doc \<Rightarrow> work_cursor \<Rightarrow> 'c \<Rightarrow> 'x + work_cursor \<times> 'c" where
  "consumeCanonicalWork cn nfc d cursor c = (case canonicalParts nfc d of
     Inl e \<Rightarrow> Inl (cn_fail cn e c)
   | Inr parts \<Rightarrow> rbind (each_part cn nfc (drop (wc_part cursor) parts) \<lparr>wk_cursor = cursor, wk_records = 0, wk_bytes = 0, wk_consumer = c\<rparr>)
       (\<lambda>w. Inr (wk_cursor w, wk_consumer w)))"

end
