(* ===== verification/Canonical_Text.thy ===== *)
theory Canonical_Text
  imports Canonical_Work
begin

text \<open>
  The pieces of \<open>Canonical_Work\<close> put together: the parts of a value, the chunks they are gathered into and
  the parts of a document all spell its canonical JSON, and no piece ends inside a character.
\<close>

subsection \<open>Pieces\<close>

definition whole :: "js_string \<Rightarrow> bool" where
  "whole s \<longleftrightarrow> s = [] \<or> \<not> is_high (last s)"

definition spells :: "('e + js_string) list \<Rightarrow> js_string \<Rightarrow> bool" where
  "spells ps t \<longleftrightarrow> (\<exists>ss. ps = map Inr ss \<and> concat ss = t \<and> (\<forall>s\<in>set ss. s \<noteq> [] \<and> whole s \<and> byte_length s \<le> 524288))"

lemma spells_append: "spells ps t \<Longrightarrow> spells qs u \<Longrightarrow> spells (ps @ qs) (t @ u)"
proof -
  assume "spells ps t" "spells qs u"
  then obtain ss rs where "ps = map Inr ss" "concat ss = t" "qs = map Inr rs" "concat rs = u"
    "\<forall>s\<in>set ss. s \<noteq> [] \<and> whole s \<and> byte_length s \<le> 524288" "\<forall>s\<in>set rs. s \<noteq> [] \<and> whole s \<and> byte_length s \<le> 524288"
    unfolding spells_def by blast
  then show ?thesis unfolding spells_def by (intro exI [of _ "ss @ rs"]) auto
qed

lemma byte_length_append: "whole s \<Longrightarrow> byte_length (s @ t) = byte_length s + byte_length t"
  using utf8_append [of s t] by (auto simp: whole_def byte_length_def)

lemma utf8_whole: "whole s \<Longrightarrow> utf8 (s @ t) = utf8 s @ utf8 t"
  by (rule utf8_append) (auto simp: whole_def)

lemma whole_append: "whole s \<Longrightarrow> whole t \<Longrightarrow> whole (s @ t)"
  by (cases "t = []") (auto simp: whole_def)

lemma utf8Length_bytes [simp]: "utf8Length s = byte_length s"
  using utf8_ascii [of s] by (simp add: utf8Length_def byte_length_def)

lemma spells_one: "s \<noteq> [] \<Longrightarrow> whole s \<Longrightarrow> byte_length s \<le> 524288 \<Longrightarrow> spells [Inr s] s"
  unfolding spells_def by (intro exI [of _ "[s]"]) simp

lemma spells_unit: "\<not> is_high c \<Longrightarrow> spells [Inr [c]] [c]"
  using byte_length_bounds [of "[c]"] by (intro spells_one) (auto simp: whole_def)

lemma hex_digit_ascii: "n < 16 \<Longrightarrow> unat (of_nat (of_char (hex_digit n)) :: u16) < 128"
proof -
  assume "n < 16"
  then have "hex_digit n \<in> set ''0123456789abcdef''" unfolding hex_digit_def by (intro nth_mem) simp
  then show ?thesis by auto
qed

lemma hex4_ascii: "plain_ascii (hex4 c)"
proof -
  have "unat (of_nat (of_char (hex_digit (unat (drop_bit (4 * k) c AND 15)))) :: u16) < 128" for k
    by (rule hex_digit_ascii) (use nibble [of k c] in simp)
  then show ?thesis unfolding plain_ascii_def hex4_def list_all_iff set_map by (simp del: list.set)
qed

lemma ascii_not_high: "unat c < 128 \<Longrightarrow> \<not> is_high (c :: u16)"
  by (auto simp: is_high_def word_le_nat_alt)

lemma escape_unit_whole: "whole (escape_unit c)" "escape_unit c \<noteq> []" "byte_length (escape_unit c) \<le> 6"
proof -
  have "last (hex4 c) \<in> set (hex4 c)" using length_hex4 [of c] by (intro last_in_set) auto
  then have "\<not> is_high (last (hex4 c))" using hex4_ascii ascii_not_high by (auto simp: plain_ascii_def list_all_iff)
  moreover have "hex4 c \<noteq> []" using length_hex4 [of c] by auto
  ultimately show "whole (escape_unit c)" by (auto simp: whole_def escape_unit_def is_high_def)
  show "escape_unit c \<noteq> []" by (simp add: escape_unit_def)
  have "plain_ascii ([92, 117] @ hex4 c)" using hex4_ascii by (simp add: plain_ascii_def)
  then have "byte_length ([92, 117] @ hex4 c) = 6" using utf8_ascii length_hex4 [of c] by (simp add: byte_length_def)
  then show "byte_length (escape_unit c) \<le> 6"
    using byte_length_bounds [of "escape_unit c"] by (auto simp: escape_unit_def split: if_splits)
qed

lemma escape_whole: "whole (escape_units s)"
proof (induction s rule: escape_units.induct)
  case (2 c)
  then show ?case by (simp add: escape_unit_whole)
next
  case (3 c d cs)
  then show ?case
  proof (cases "is_high c \<and> is_low d")
    case True
    then show ?thesis using 3(1) by (cases "escape_units cs = []") (auto simp: whole_def is_high_def is_low_def)
  next
    case False
    then show ?thesis using 3(2) [OF False] whole_append [OF escape_unit_whole(1)] by auto
  qed
qed (simp add: whole_def)

lemma escape_ne: "s \<noteq> [] \<Longrightarrow> escape_units s \<noteq> []"
  by (induction s rule: escape_units.induct) (auto simp: escape_unit_whole)

lemma slice_ne: "piece \<in> set (text_slices s) \<Longrightarrow> piece \<noteq> []"
proof (induction s rule: text_slices.induct)
  case (1 s)
  then show ?case using slice_end_pos [of s] by (subst (asm) (2) text_slices.simps) (auto split: if_splits)
qed

lemma escape_bytes: "byte_length (escape_units s) \<le> 6 * length s"
proof (induction s rule: escape_units.induct)
  case (2 c)
  then show ?case using escape_unit_whole(3) [of c] by simp
next
  case (3 c d cs)
  show ?case
  proof (cases "is_high c \<and> is_low d")
    case True
    have "whole [c, d]" using True by (auto simp: whole_def is_high_def is_low_def)
    then have "byte_length (c # d # escape_units cs) \<le> 6 + byte_length (escape_units cs)"
      using byte_length_append [of "[c, d]" "escape_units cs"] byte_length_bounds [of "[c, d]"] by simp
    then show ?thesis using 3(1) [OF True] True by simp
  next
    case False
    then show ?thesis using 3(2) [OF False] byte_length_append [OF escape_unit_whole(1), of c "escape_units (d # cs)"] escape_unit_whole(3) [of c] by auto
  qed
qed (simp add: byte_length_def utf8_def)

lemma escape_append:
  assumes "s = [] \<or> t = [] \<or> \<not> is_high (last s) \<or> \<not> is_low (hd t)"
  shows "escape_units (s @ t) = escape_units s @ escape_units t"
  using assms
proof (induction s rule: escape_units.induct)
  case (2 c)
  then show ?case by (cases t) auto
next
  case (3 c d cs)
  then show ?case by (cases "is_high c \<and> is_low d"; cases "cs = []") (auto simp: is_high_def is_low_def)
qed simp

lemma slice_ends: "slice_end s < length s \<Longrightarrow> \<not> is_high (last (take (slice_end s) s)) \<or> \<not> is_low (hd (drop (slice_end s) s))"
proof -
  assume e: "slice_end s < length s"
  let ?last = "min textUnits (length s)"
  show ?thesis
  proof (cases "?last < length s \<and> is_high (s ! (?last - 1))")
    case True
    then have "slice_end s = ?last - 1" by (simp add: slice_end_def Let_def)
    then have "is_high (hd (drop (slice_end s) s))" using True e by (simp add: hd_drop_conv_nth)
    then show ?thesis by (auto simp: is_high_def is_low_def)
  next
    case False
    then have "slice_end s = ?last" by (auto simp: slice_end_def Let_def)
    moreover have "s \<noteq> []" using e by auto
    ultimately have "last (take (slice_end s) s) = s ! (?last - 1)" using e by (subst last_conv_nth) (auto simp: textUnits_def)
    then show ?thesis using False e \<open>slice_end s = ?last\<close> by simp
  qed
qed

lemma escape_slices: "concat (map escape_units (text_slices s)) = escape_units s"
proof (induction s rule: text_slices.induct)
  case (1 s)
  show ?case
  proof (cases "s = []")
    case False
    have "escape_units (take (slice_end s) s @ drop (slice_end s) s) = escape_units (take (slice_end s) s) @ escape_units (drop (slice_end s) s)"
      by (rule escape_append) (use slice_ends [of s] in force)
    then show ?thesis using 1 False by (subst text_slices.simps) simp
  qed simp
qed

lemma text_parts_spell: "spells (text_parts nfc s) (quote (nfc s))"
proof -
  let ?ss = "map escape_units (text_slices (nfc s))"
  have "byte_length x \<le> 524288" if "x \<in> set ?ss" for x
  proof -
    have "\<exists>piece. piece \<in> set (text_slices (nfc s)) \<and> x = escape_units piece" using that by auto
    then obtain piece where "piece \<in> set (text_slices (nfc s))" "x = escape_units piece" by blast
    then show ?thesis using length_slice [of piece "nfc s"] escape_bytes [of piece] by (simp add: textUnits_def)
  qed
  then have "spells (map Inr ?ss) (escape_units (nfc s))"
    unfolding spells_def by (intro exI [of _ ?ss]) (auto simp: escape_slices escape_whole escape_ne slice_ne)
  then have "spells ([Inr [34]] @ map Inr ?ss @ [Inr [34]]) ([34] @ escape_units (nfc s) @ [34])"
    by (intro spells_append spells_unit) (simp_all add: is_high_def)
  then show ?thesis by (simp add: text_parts_def quote_def comp_def)
qed

subsection \<open>Values\<close>

text \<open>Integers that JavaScript prints without an exponent.\<close>

fun double_ints :: "js_value \<Rightarrow> bool" where
  "double_ints (VInt n) \<longleftrightarrow> \<bar>n\<bar> < 10 ^ 21"
| "double_ints (VArray xs) \<longleftrightarrow> list_all double_ints xs"
| "double_ints (VObject ps) \<longleftrightarrow> list_all (\<lambda>(key, x). double_ints x) ps"
| "double_ints v \<longleftrightarrow> True"

lemma ascii_whole: "plain_ascii s \<Longrightarrow> whole s \<and> byte_length s = length s"
proof -
  assume a: "plain_ascii s"
  then have "\<not> is_high (last s)" if "s \<noteq> []" using that last_in_set [OF that] ascii_not_high by (auto simp: plain_ascii_def list_all_iff)
  then show ?thesis using a utf8_ascii by (auto simp: whole_def byte_length_def)
qed

lemma decimal_ascii: "plain_ascii (ascii (decimal n))"
proof (induction n rule: decimal.induct)
  case (1 n)
  have digit: "unat (of_nat (of_char (digit_char d)) :: u16) < 128" if "d < 10" for d
  proof -
    have "unat (of_nat (48 + d) :: u16) = 48 + d" using that by (simp add: unat_of_nat del: of_nat_add)
    then show ?thesis unfolding of_char_digit [OF that] using that by linarith
  qed
  show ?case
  proof (cases "n < 10")
    case True
    then show ?thesis using digit by (subst decimal.simps) (simp add: plain_ascii_def ascii_def)
  next
    case False
    then show ?thesis using 1 digit [of "n mod 10"] by (subst decimal.simps) (simp add: plain_ascii_def ascii_def)
  qed
qed

lemma int_text_spell:
  assumes "\<bar>n\<bar> < 10 ^ 21"
  shows "spells [Inr (int_text n)] (int_text n)"
proof -
  have "length (decimal (nat \<bar>n\<bar>)) \<le> 21" by (rule length_decimal) (use assms in \<open>simp_all add: nat_less_iff\<close>)
  moreover have "plain_ascii (int_text n)" using decimal_ascii by (auto simp: int_text_def plain_ascii_def ascii_def)
  moreover have "int_text n \<noteq> []" using decimal_digits by (auto simp: int_text_def ascii_def)
  ultimately show ?thesis using ascii_whole [of "int_text n"] by (intro spells_one) (auto simp: int_text_def ascii_def)
qed

lemma spells_separated:
  "list_all2 spells pss ts \<Longrightarrow> spells (separated pss (Inr [44])) (join_with 44 ts)"
proof (induction pss "Inr [44] :: 'a + js_string" arbitrary: ts rule: separated.induct)
  case 1
  then show ?case by (simp add: spells_def)
next
  case (2 xs)
  then show ?case by (auto simp: list_all2_Cons1)
next
  case (3 xs ys xss)
  then obtain t u us where ts: "ts = t # u # us" "spells xs t" "list_all2 spells (ys # xss) (u # us)" by (auto simp: list_all2_Cons1)
  have "spells (xs @ [Inr [44]] @ separated (ys # xss) (Inr [44])) (t @ [44] @ join_with 44 (u # us))"
    using 3(1) [OF ts(3)] ts(2) by (intro spells_append spells_unit) (auto simp: is_high_def)
  then show ?case by (simp add: ts(1))
qed

lemma collect_list: "collect rs = Inr ts \<longleftrightarrow> rs = map Inr ts"
proof (induction rs arbitrary: ts)
  case (Cons r rs)
  then show ?case by (cases r; cases ts) (auto simp: rbind_eq_Inr)
qed auto

lemma set_sort_by: "set (sort_by compare xs) = set xs"
proof -
  have "set (insert_by compare x ys) = insert x (set ys)" for x ys by (induction ys) auto
  then show ?thesis by (induction xs) (simp_all add: sort_by_def)
qed

lemma sorted_members:
  "sort_by (\<lambda>f g. compareUtf8 nfc (fst f) (fst g)) (map (\<lambda>(key, x). (key, h key x)) ps) =
   map (\<lambda>(key, x). (key, h key x)) (sort_by (\<lambda>f g. compareUtf8 nfc (fst f) (fst g)) ps)"
  by (rule sort_by_map [symmetric]) (simp add: case_prod_unfold)

lemma value_parts_spell:
  "double_ints v \<Longrightarrow> canonicalJsonAt nfc path v = Inr t \<Longrightarrow> spells (value_parts nfc v) t"
proof (induction nfc v arbitrary: path t rule: value_parts.induct)
  case (1 nfc s)
  then show ?case using text_parts_spell [of nfc s] by auto
next
  case (2 nfc xs)
  obtain ts where ts: "map (\<lambda>(i, x). canonicalJsonAt nfc (path @ [Index i]) x) (enumerate 0 xs) = map Inr ts" "t = [91] @ join_with 44 ts @ [93]"
    using 2(3) by (auto simp: rbind_eq_Inr collect_list)
  have len: "length ts = length xs" using arg_cong [OF ts(1), of length] by simp
  have "spells (value_parts nfc (xs ! i)) (ts ! i)" if "i < length xs" for i
  proof (rule 2(1))
    show "xs ! i \<in> set xs" using that by simp
    show "double_ints (xs ! i)" using 2(2) that by (auto simp: list_all_length)
    show "canonicalJsonAt nfc (path @ [Index i]) (xs ! i) = Inr (ts ! i)"
      using arg_cong [OF ts(1), of "\<lambda>l. l ! i"] that len by (simp add: nth_enumerate_eq)
  qed
  then have "list_all2 spells (map (value_parts nfc) xs) ts" by (auto simp: list_all2_conv_all_nth len)
  then show ?case unfolding ts(2) value_parts.simps
    by (intro spells_append spells_unit spells_separated) (simp_all add: is_high_def)
next
  case (3 nfc ps)
  let ?qs = "sort_by (\<lambda>f g. compareUtf8 nfc (fst f) (fst g)) ps"
  obtain ts where ts: "map (\<lambda>(key, x). rbind (canonicalJsonAt nfc (path @ [Key key]) x) (\<lambda>t. Inr (quote (nfc key) @ 58 # t))) ?qs = map Inr ts"
    "t = [123] @ join_with 44 ts @ [125]"
    using 3(3) unfolding canonicalJsonAt.simps sorted_members by (auto simp: rbind_eq_Inr collect_list comp_def case_prod_unfold)
  have len: "length ts = length ?qs" using arg_cong [OF ts(1), of length] by simp
  have "spells (text_parts nfc (fst (?qs ! i)) @ [Inr [58]] @ value_parts nfc (snd (?qs ! i))) (ts ! i)" if i: "i < length ?qs" for i
  proof -
    obtain key x where kx: "?qs ! i = (key, x)" by fastforce
    then have mem: "(key, x) \<in> set ps" using i set_sort_by nth_mem by metis
    obtain u where u: "canonicalJsonAt nfc (path @ [Key key]) x = Inr u" "ts ! i = quote (nfc key) @ [58] @ u"
      using arg_cong [OF ts(1), of "\<lambda>l. l ! i"] i len by (auto simp: kx rbind_eq_Inr)
    have "spells (value_parts nfc x) u" by (rule 3(1) [OF mem refl _ u(1)]) (use 3(2) mem in \<open>auto simp: list_all_iff\<close>)
    then show ?thesis unfolding kx fst_conv snd_conv u(2) by (intro spells_append text_parts_spell spells_unit) (simp_all add: is_high_def)
  qed
  then have "list_all2 spells (map (\<lambda>(key, x). text_parts nfc key @ [Inr [58]] @ value_parts nfc x) ?qs) ts"
    by (auto simp: list_all2_conv_all_nth len case_prod_unfold)
  moreover have "map (\<lambda>(key, parts). text_parts nfc key @ [Inr [58]] @ parts)
       (sort_by (\<lambda>f g. compareUtf8 nfc (fst f) (fst g)) (map (\<lambda>(key, x). (key, value_parts nfc x)) ps)) =
      map (\<lambda>(key, x). text_parts nfc key @ [Inr [58]] @ value_parts nfc x) ?qs"
    unfolding sorted_members by (simp add: comp_def case_prod_unfold)
  ultimately show ?case unfolding ts(2) value_parts.simps
    by (intro spells_append spells_unit spells_separated) (simp_all add: is_high_def)
next
  case (4 nfc)
  then show ?case by (auto intro!: spells_one simp: canonicalJson_def whole_def ascii_def is_high_def byte_length_def utf8_def utf8_point_def is_low_def)
next
  case (5 nfc b)
  then show ?case by (cases b) (auto intro!: spells_one simp: canonicalJson_def whole_def ascii_def is_high_def byte_length_def utf8_def utf8_point_def is_low_def)
next
  case (6 nfc n)
  then show ?case by (auto simp: canonicalJson_def int_text_spell)
qed auto

text \<open>Gathering keeps the text, and its chunks stay within their limit.\<close>

lemma gather_spells:
  assumes "spells ps t" "whole chunk" "bytes = byte_length chunk" "bytes \<le> 524288"
  shows "spells (gather_parts ps chunk bytes) (chunk @ t)"
proof -
  obtain ss where "ps = map Inr ss" "concat ss = t" "\<forall>s\<in>set ss. s \<noteq> [] \<and> whole s \<and> byte_length s \<le> 524288" using assms(1) by (auto simp: spells_def)
  then show ?thesis using assms(2-4)
  proof (induction ss arbitrary: ps t chunk bytes)
    case Nil
    then show ?case by (cases "chunk = []") (auto simp: spells_def intro!: exI [of _ "[chunk]"])
  next
    case (Cons s ss)
    let ?rest = "concat ss"
    show ?case
    proof (cases "bytes + byte_length s > 524288")
      case True
      have "spells (gather_parts (map Inr ss) s (byte_length s)) (s @ ?rest)" using Cons by auto
      moreover have "chunk \<noteq> []" using True Cons.prems by (auto simp: byte_length_def utf8_def)
      ultimately have "spells ([Inr chunk] @ gather_parts (map Inr ss) s (byte_length s)) (chunk @ s @ ?rest)"
        using Cons.prems by (intro spells_append spells_one) auto
      then show ?thesis using Cons.prems True by (auto simp: Let_def)
    next
      case False
      have "spells (gather_parts (map Inr ss) (chunk @ s) (bytes + byte_length s)) ((chunk @ s) @ ?rest)"
        using Cons.prems False by (intro Cons.IH) (auto simp: whole_append byte_length_append)
      then show ?thesis using Cons.prems False by (auto simp: Let_def)
    qed
  qed
qed

lemma value_chunks_spell:
  assumes "double_ints v" "canonicalJsonAt nfc path v = Inr t"
  shows "spells (canonicalValueChunks nfc v) t"
  using gather_spells [OF value_parts_spell [OF assms], of "[]" 0]
  by (simp add: canonicalValueChunks_def whole_def byte_length_def utf8_def)

definition pieces :: "(js_string \<Rightarrow> js_string) \<Rightarrow> js_value \<Rightarrow> js_string list" where
  "pieces nfc v = (case collect (canonicalValueChunks nfc v) of Inl e \<Rightarrow> [] | Inr ts \<Rightarrow> ts)"

definition piece_ok :: "js_string \<Rightarrow> bool" where
  "piece_ok s \<longleftrightarrow> s \<noteq> [] \<and> whole s \<and> byte_length s \<le> 524288"

definition value_ok :: "(js_string \<Rightarrow> js_string) \<Rightarrow> js_value \<Rightarrow> bool" where
  "value_ok nfc v \<longleftrightarrow> double_ints v \<and> (\<exists>path t. canonicalJsonAt nfc path v = Inr t)"

lemma pieces_spell:
  assumes "double_ints v" "canonicalJsonAt nfc path v = Inr t"
  shows "canonicalValueChunks nfc v = map Inr (pieces nfc v)" "concat (pieces nfc v) = t" "list_all piece_ok (pieces nfc v)"
proof -
  obtain ss where ss: "canonicalValueChunks nfc v = map Inr ss" "concat ss = t" "\<forall>s\<in>set ss. piece_ok s"
    using value_chunks_spell [OF assms] unfolding spells_def piece_ok_def by blast
  then have "collect (canonicalValueChunks nfc v) = Inr ss" by (simp add: collect_list)
  then have "pieces nfc v = ss" by (simp add: pieces_def)
  then show "canonicalValueChunks nfc v = map Inr (pieces nfc v)" "concat (pieces nfc v) = t" "list_all piece_ok (pieces nfc v)"
    using ss by (simp_all add: list_all_iff)
qed

lemma pieces_ok:
  assumes "value_ok nfc v"
  shows "canonicalValueChunks nfc v = map Inr (pieces nfc v)" "list_all piece_ok (pieces nfc v)"
  using assms pieces_spell unfolding value_ok_def by blast+

subsection \<open>Documents\<close>

fun doc_value :: "doc \<Rightarrow> js_value" where
  "doc_value (Leaf v) = v"
| "doc_value (Members ms) = VObject (map (\<lambda>(key, d). (key, doc_value d)) ms)"
| "doc_value (Collection source) = VArray (map snd (source []))"
| "doc_value Unresumable = VOther"

text \<open>
  What the traversal relies on. A source asked for the records behind a key gives those after it, in the
  same order; keys are normalised texts of a moderate length. The name of a property and the colon after
  it fit into one piece.
\<close>

definition resumable_source :: "(js_string \<Rightarrow> js_string) \<Rightarrow> record_source \<Rightarrow> bool" where
  "resumable_source nfc source \<longleftrightarrow> (\<forall>xs key v ys. source [] = xs @ (key, v) # ys \<longrightarrow> source key = ys) \<and>
     list_all (\<lambda>(key, v). key \<noteq> [] \<and> nfc key = key \<and> length key \<le> 500) (source [])"

definition name_fits :: "(js_string \<Rightarrow> js_string) \<Rightarrow> js_string \<Rightarrow> bool" where
  "name_fits nfc key \<longleftrightarrow> byte_length (quote (nfc key)) \<le> 524286"

fun names_fit :: "(js_string \<Rightarrow> js_string) \<Rightarrow> js_value \<Rightarrow> bool" where
  "names_fit nfc (VObject ps) \<longleftrightarrow> list_all (\<lambda>(key, x). name_fits nfc key \<and> names_fit nfc x) ps"
| "names_fit nfc v \<longleftrightarrow> True"

fun doc_ok :: "(js_string \<Rightarrow> js_string) \<Rightarrow> doc \<Rightarrow> bool" where
  "doc_ok nfc (Leaf v) \<longleftrightarrow> double_ints v \<and> names_fit nfc v"
| "doc_ok nfc (Members ms) \<longleftrightarrow> list_all (\<lambda>(key, d). name_fits nfc key \<and> doc_ok nfc d) ms"
| "doc_ok nfc (Collection source) \<longleftrightarrow> resumable_source nfc source \<and> list_all (\<lambda>(key, v). double_ints v) (source [])"
| "doc_ok nfc Unresumable \<longleftrightarrow> False"

fun part_text :: "(js_string \<Rightarrow> js_string) \<Rightarrow> part \<Rightarrow> js_string" where
  "part_text nfc (Literal s) = s"
| "part_text nfc (Source source) = join_with 44 (map (\<lambda>(key, v). concat (pieces nfc v)) (source [])) @ [93]"

fun part_ok :: "(js_string \<Rightarrow> js_string) \<Rightarrow> part \<Rightarrow> bool" where
  "part_ok nfc (Literal s) \<longleftrightarrow> piece_ok s"
| "part_ok nfc (Source source) \<longleftrightarrow> resumable_source nfc source \<and> list_all (\<lambda>(key, v). value_ok nfc v) (source [])"

definition parts_spell :: "(js_string \<Rightarrow> js_string) \<Rightarrow> part list \<Rightarrow> js_string \<Rightarrow> bool" where
  "parts_spell nfc ps t \<longleftrightarrow> concat (map (part_text nfc) ps) = t \<and> list_all (part_ok nfc) ps"

lemma parts_spell_append: "parts_spell nfc ps t \<Longrightarrow> parts_spell nfc qs u \<Longrightarrow> parts_spell nfc (ps @ qs) (t @ u)"
  by (auto simp: parts_spell_def)

lemma parts_spell_unit: "\<not> is_high c \<Longrightarrow> parts_spell nfc [Literal [c]] [c]"
  using byte_length_bounds [of "[c]"] by (simp add: parts_spell_def piece_ok_def whole_def)

lemma quote_whole: "whole (quote s)"
  by (simp add: whole_def quote_def is_high_def)

lemma name_part_ok:
  assumes "name_fits nfc key"
  shows "piece_ok ((if b then [] else [44]) @ quote (nfc key) @ [58])"
proof -
  have one: "byte_length [44] = 1" "byte_length [58] = 1" by (simp_all add: byte_length_def utf8_ascii plain_ascii_def)
  have "whole [44]" by (simp add: whole_def is_high_def)
  then have "byte_length ([44] @ quote (nfc key) @ [58]) = 1 + (byte_length (quote (nfc key)) + 1)" "byte_length (quote (nfc key) @ [58]) = byte_length (quote (nfc key)) + 1"
    by (simp_all only: byte_length_append quote_whole one)
  then have "byte_length ([44] @ quote (nfc key) @ [58]) \<le> 524288" "byte_length (quote (nfc key) @ [58]) \<le> 524288"
    using assms by (simp_all add: name_fits_def)
  moreover have "whole ((if b then [] else [44]) @ quote (nfc key) @ [58])" by (simp add: whole_def is_high_def)
  ultimately show ?thesis by (auto simp: piece_ok_def)
qed

lemma members_text:
  assumes "\<forall>(key, x)\<in>set qs. name_fits nfc key \<and> (\<exists>ps. f x = Inr ps \<and> parts_spell nfc ps (g (key, x)))"
  shows "\<exists>pss. collect (map (\<lambda>(i, key, r). rbind r (\<lambda>ps. Inr (Literal ((if i = 0 then [] else [44]) @ quote (nfc key) @ [58]) # ps)))
        (enumerate n (map (\<lambda>(key, x). (key, f x)) qs))) = Inr pss \<and>
      parts_spell nfc (concat pss) ((if n = 0 \<or> qs = [] then [] else [44]) @ join_with 44 (map (\<lambda>(key, x). quote (nfc key) @ 58 # g (key, x)) qs))"
  using assms
proof (induction qs arbitrary: n)
  case Nil
  then show ?case by (simp add: parts_spell_def)
next
  case (Cons q qs)
  obtain key x where q: "q = (key, x)" by fastforce
  obtain ps where ps: "f x = Inr ps" "parts_spell nfc ps (g (key, x))" "name_fits nfc key" using Cons.prems q by auto
  obtain pss where pss: "collect (map (\<lambda>(i, key, r). rbind r (\<lambda>ps. Inr (Literal ((if i = 0 then [] else [44]) @ quote (nfc key) @ [58]) # ps)))
        (enumerate (Suc n) (map (\<lambda>(key, x). (key, f x)) qs))) = Inr pss"
      "parts_spell nfc (concat pss) ((if qs = [] then [] else [44]) @ join_with 44 (map (\<lambda>(key, x). quote (nfc key) @ 58 # g (key, x)) qs))"
    using Cons.IH [of "Suc n"] Cons.prems by auto
  have "parts_spell nfc [Literal ((if n = 0 then [] else [44]) @ quote (nfc key) @ [58])] ((if n = 0 then [] else [44]) @ quote (nfc key) @ [58])"
    using name_part_ok [OF ps(3), of "n = 0"] by (simp add: parts_spell_def)
  from parts_spell_append [OF parts_spell_append [OF this ps(2)] pss(2)]
  have "parts_spell nfc (Literal ((if n = 0 then [] else [44]) @ quote (nfc key) @ [58]) # ps @ concat pss)
      ((if n = 0 then [] else [44]) @ join_with 44 (map (\<lambda>(key, x). quote (nfc key) @ 58 # g (key, x)) (q # qs)))"
    by (cases qs) (simp_all add: q)
  then show ?case using pss(1) ps(1) by (simp add: q)
qed

lemma member_parts_spell:
  assumes "\<forall>(key, x)\<in>set ms. name_fits nfc key \<and> (\<exists>ps. f x = Inr ps \<and> parts_spell nfc ps (g (key, x)))"
  shows "\<exists>ps. member_parts nfc (map (\<lambda>(key, x). (key, f x)) ms) = Inr ps \<and>
    parts_spell nfc ps ([123] @ join_with 44 (map (\<lambda>(key, x). quote (nfc key) @ 58 # g (key, x)) (sort_by (\<lambda>f g. compareUtf8 nfc (fst f) (fst g)) ms)) @ [125])"
proof -
  let ?qs = "sort_by (\<lambda>f g. compareUtf8 nfc (fst f) (fst g)) ms"
  obtain pss where pss: "collect (map (\<lambda>(i, key, r). rbind r (\<lambda>ps. Inr (Literal ((if i = 0 then [] else [44]) @ quote (nfc key) @ [58]) # ps)))
        (enumerate 0 (map (\<lambda>(key, x). (key, f x)) ?qs))) = Inr pss"
      "parts_spell nfc (concat pss) (join_with 44 (map (\<lambda>(key, x). quote (nfc key) @ 58 # g (key, x)) ?qs))"
    using members_text [of ?qs nfc f g 0] assms by (auto simp: set_sort_by)
  have "parts_spell nfc ([Literal [123]] @ concat pss @ [Literal [125]]) ([123] @ join_with 44 (map (\<lambda>(key, x). quote (nfc key) @ 58 # g (key, x)) ?qs) @ [125])"
    by (intro parts_spell_append parts_spell_unit pss(2)) (simp_all add: is_high_def)
  then show ?thesis using pss(1) unfolding member_parts_def sorted_members by simp
qed

text \<open>The text of an object in terms of the texts of its members.\<close>

lemma object_text:
  assumes "canonicalJsonAt nfc path (VObject ps) = Inr t"
  shows "\<exists>g. (\<forall>(key, x)\<in>set ps. canonicalJsonAt nfc (path @ [Key key]) x = Inr (g (key, x))) \<and>
    t = [123] @ join_with 44 (map (\<lambda>(key, x). quote (nfc key) @ 58 # g (key, x)) (sort_by (\<lambda>f g. compareUtf8 nfc (fst f) (fst g)) ps)) @ [125]"
proof -
  let ?qs = "sort_by (\<lambda>f g. compareUtf8 nfc (fst f) (fst g)) ps"
  let ?g = "\<lambda>(key, x). projr (canonicalJsonAt nfc (path @ [Key key]) x)"
  obtain ts where ts: "map (\<lambda>(key, x). rbind (canonicalJsonAt nfc (path @ [Key key]) x) (\<lambda>t. Inr (quote (nfc key) @ 58 # t))) ?qs = map Inr ts"
    "t = [123] @ join_with 44 ts @ [125]"
    using assms unfolding canonicalJsonAt.simps sorted_members by (auto simp: rbind_eq_Inr collect_list comp_def case_prod_unfold)
  have g: "canonicalJsonAt nfc (path @ [Key key]) x = Inr (?g (key, x))" if "(key, x) \<in> set ps" for key x
  proof -
    have "(key, x) \<in> set ?qs" using that by (simp add: set_sort_by)
    then have "rbind (canonicalJsonAt nfc (path @ [Key key]) x) (\<lambda>t. Inr (quote (nfc key) @ 58 # t)) \<in> set (map Inr ts)"
      unfolding ts(1) [symmetric] by (force intro: image_eqI [where x = "(key, x)"])
    then obtain u where "rbind (canonicalJsonAt nfc (path @ [Key key]) x) (\<lambda>t. Inr (quote (nfc key) @ 58 # t)) = Inr u" by auto
    then show ?thesis by (auto simp: rbind_eq_Inr)
  qed
  have "map (Inr :: js_string \<Rightarrow> serial_error + js_string) ts = map (Inr \<circ> (\<lambda>(key, x). quote (nfc key) @ 58 # ?g (key, x))) ?qs"
    unfolding ts(1) [symmetric]
  proof (rule map_cong [OF refl])
    fix q assume "q \<in> set ?qs"
    moreover obtain key x where q: "q = (key, x)" by fastforce
    ultimately have "canonicalJsonAt nfc (path @ [Key key]) x = Inr (?g (key, x))" using g by (simp add: set_sort_by)
    then obtain u where "canonicalJsonAt nfc (path @ [Key key]) x = Inr u" by blast
    then show "(case q of (key, x) \<Rightarrow> rbind (canonicalJsonAt nfc (path @ [Key key]) x) (\<lambda>t. Inr (quote (nfc key) @ 58 # t))) =
        (Inr \<circ> (\<lambda>(key, x). quote (nfc key) @ 58 # ?g (key, x))) q" by (simp add: q)
  qed
  then have "map (Inr :: js_string \<Rightarrow> serial_error + js_string) ts = map Inr (map (\<lambda>(key, x). quote (nfc key) @ 58 # ?g (key, x)) ?qs)" by simp
  then have "ts = map (\<lambda>(key, x). quote (nfc key) @ 58 # ?g (key, x)) ?qs" by (simp only: inj_map_eq_map [OF inj_Inr])
  then show ?thesis using g ts(2) by (intro exI [of _ ?g]) auto
qed

lemma leaf_parts_spell:
  "double_ints v \<Longrightarrow> names_fit nfc v \<Longrightarrow> canonicalJsonAt nfc path v = Inr t \<Longrightarrow> \<exists>ps. leaf_parts nfc v = Inr ps \<and> parts_spell nfc ps t"
proof (induction nfc v arbitrary: path t rule: leaf_parts.induct)
  case (1 nfc v)
  show ?case
  proof (cases "\<exists>ps. v = VObject ps")
    case True
    then obtain ps where v: "v = VObject ps" by blast
    obtain g where g: "\<forall>(key, x)\<in>set ps. canonicalJsonAt nfc (path @ [Key key]) x = Inr (g (key, x))"
      "t = [123] @ join_with 44 (map (\<lambda>(key, x). quote (nfc key) @ 58 # g (key, x)) (sort_by (\<lambda>f g. compareUtf8 nfc (fst f) (fst g)) ps)) @ [125]"
      using object_text [of nfc path ps t] 1(4) v by blast
    have "\<exists>qs. leaf_parts nfc x = Inr qs \<and> parts_spell nfc qs (g (key, x))" if "(key, x) \<in> set ps" for key x
      by (rule 1(1) [OF v that refl]) (use 1(2, 3) g(1) that v in \<open>auto simp: list_all_iff\<close>)
    then have "\<forall>(key, x)\<in>set ps. name_fits nfc key \<and> (\<exists>qs. leaf_parts nfc x = Inr qs \<and> parts_spell nfc qs (g (key, x)))"
      using 1(3) v by (auto simp: list_all_iff)
    from member_parts_spell [OF this] show ?thesis by (subst leaf_parts.simps) (simp add: v g(2))
  next
    case False
    have "leaf_parts nfc v = Inr (map Literal (pieces nfc v))"
    proof -
      have "collect (canonicalValueChunks nfc v) = Inr (pieces nfc v)" using pieces_spell(1) [OF 1(2, 4)] by (simp add: collect_list)
      then show ?thesis using False by (subst leaf_parts.simps) (cases v; simp)
    qed
    moreover have "parts_spell nfc (map Literal (pieces nfc v)) t"
      using pieces_spell(2, 3) [OF 1(2, 4)] by (simp add: parts_spell_def comp_def list_all_iff)
    ultimately show ?thesis by blast
  qed
qed

lemma array_text:
  assumes "canonicalJsonAt nfc path (VArray xs) = Inr t" "list_all double_ints xs"
  shows "t = [91] @ join_with 44 (map (\<lambda>v. concat (pieces nfc v)) xs) @ [93]" "list_all (value_ok nfc) xs"
proof -
  obtain ts where ts: "map (\<lambda>(i, x). canonicalJsonAt nfc (path @ [Index i]) x) (enumerate 0 xs) = map Inr ts" "t = [91] @ join_with 44 ts @ [93]"
    using assms(1) by (auto simp: rbind_eq_Inr collect_list)
  have len: "length ts = length xs" using arg_cong [OF ts(1), of length] by simp
  have at: "canonicalJsonAt nfc (path @ [Index i]) (xs ! i) = Inr (ts ! i)" if "i < length xs" for i
    using arg_cong [OF ts(1), of "\<lambda>l. l ! i"] that len by (simp add: nth_enumerate_eq)
  have "ts ! i = concat (pieces nfc (xs ! i))" if "i < length xs" for i
    using pieces_spell(2) [OF _ at [OF that]] assms(2) that by (simp add: list_all_length)
  then have "ts = map (\<lambda>v. concat (pieces nfc v)) xs" by (intro nth_equalityI) (simp_all add: len)
  then show "t = [91] @ join_with 44 (map (\<lambda>v. concat (pieces nfc v)) xs) @ [93]" using ts(2) by simp
  show "list_all (value_ok nfc) xs" using at assms(2) unfolding list_all_length value_ok_def by blast
qed

lemma canonicalParts_spell:
  "doc_ok nfc d \<Longrightarrow> canonicalJsonAt nfc path (doc_value d) = Inr t \<Longrightarrow> \<exists>ps. canonicalParts nfc d = Inr ps \<and> parts_spell nfc ps t"
proof (induction nfc d arbitrary: path t rule: canonicalParts.induct)
  case (1 nfc v)
  then show ?case using leaf_parts_spell by simp
next
  case (2 nfc ms)
  obtain g where g: "\<forall>(key, x)\<in>set (map (\<lambda>(key, d). (key, doc_value d)) ms). canonicalJsonAt nfc (path @ [Key key]) x = Inr (g (key, x))"
    "t = [123] @ join_with 44 (map (\<lambda>(key, x). quote (nfc key) @ 58 # g (key, x))
        (sort_by (\<lambda>f g. compareUtf8 nfc (fst f) (fst g)) (map (\<lambda>(key, d). (key, doc_value d)) ms))) @ [125]"
    using object_text [of nfc path "map (\<lambda>(key, d). (key, doc_value d)) ms" t] 2(3) by (auto simp del: canonicalJsonAt.simps)
  have "\<exists>qs. canonicalParts nfc d = Inr qs \<and> parts_spell nfc qs (g (key, doc_value d))" if "(key, d) \<in> set ms" for key d
    by (rule 2(1) [OF that refl]) (use 2(2) g(1) that in \<open>auto simp: list_all_iff\<close>)
  then have "\<forall>(key, d)\<in>set ms. name_fits nfc key \<and> (\<exists>qs. canonicalParts nfc d = Inr qs \<and> parts_spell nfc qs ((\<lambda>(key, d). g (key, doc_value d)) (key, d)))"
    using 2(2) by (auto simp: list_all_iff)
  from member_parts_spell [OF this] show ?case unfolding g(2) sorted_members by (simp add: comp_def case_prod_unfold)
next
  case (3 nfc source)
  have "list_all double_ints (map snd (source []))" using 3(1) by (auto simp: list_all_iff)
  from array_text [OF 3(2) [unfolded doc_value.simps] this] 3(1)
  have "parts_spell nfc ([Literal [91]] @ [Source source]) t"
    by (auto simp: parts_spell_def list_all_iff comp_def case_prod_unfold piece_ok_def whole_def is_high_def byte_length_def utf8_ascii plain_ascii_def)
  then show ?case by simp
qed simp

end
