(* ===== verification/Canonical_Steps.thy ===== *)
theory Canonical_Steps
  imports Canonical_Text
begin

text \<open>
  The loops of \<open>consumeCanonicalWork\<close> as steps that depend on the cursor alone: a step consumes a few texts,
  moves the cursor and may save. Since a step ends where it saves, going on from a saved cursor is going on
  with the same steps.
\<close>

subsection \<open>Steps\<close>

datatype action = Finished | Take "js_string list" work_cursor nat "nat \<Rightarrow> nat \<Rightarrow> bool"

definition both_limits :: "nat \<Rightarrow> nat \<Rightarrow> bool" where
  "both_limits records bytes \<longleftrightarrow> records = 128 \<or> bytes \<ge> 524288"

definition record_limit :: "nat \<Rightarrow> nat \<Rightarrow> bool" where
  "record_limit records bytes \<longleftrightarrow> records = 128"

definition byte_limit :: "nat \<Rightarrow> nat \<Rightarrow> bool" where
  "byte_limit records bytes \<longleftrightarrow> bytes \<ge> 524288"

abbreviation at :: "nat \<Rightarrow> js_string \<Rightarrow> nat \<Rightarrow> work_cursor" where
  "at part after chunk \<equiv> \<lparr>wc_part = part, wc_after = after, wc_chunk = chunk\<rparr>"

definition source_action :: "(js_string \<Rightarrow> js_string) \<Rightarrow> record_source \<Rightarrow> work_cursor \<Rightarrow> action" where
  "source_action nfc source cur = (case source (wc_after cur) of
     [] \<Rightarrow> Take [[93]] (at (wc_part cur + 1) [] 0) 1 both_limits
   | (key, v) # es \<Rightarrow>
       if wc_chunk cur < length (pieces nfc v)
       then Take ((if wc_chunk cur = 0 \<and> wc_after cur \<noteq> [] then [[44]] else []) @ [pieces nfc v ! wc_chunk cur])
              (at (wc_part cur) (wc_after cur) (wc_chunk cur + 1)) 0 byte_limit
       else Take [] (at (wc_part cur) key 0) 1 record_limit)"

definition action_at :: "(js_string \<Rightarrow> js_string) \<Rightarrow> part list \<Rightarrow> work_cursor \<Rightarrow> action" where
  "action_at nfc parts cur =
     (if wc_part cur < length parts
      then (case parts ! wc_part cur of
              Literal t \<Rightarrow> Take [t] (at (wc_part cur + 1) (wc_after cur) (wc_chunk cur)) 1 both_limits
            | Source source \<Rightarrow> source_action nfc source cur)
      else Finished)"

definition settle :: "('c, 'x) consumer \<Rightarrow> work_cursor \<Rightarrow> nat \<Rightarrow> (nat \<Rightarrow> nat \<Rightarrow> bool) \<Rightarrow> 'c work \<Rightarrow> 'x + 'c work" where
  "settle cn cur n due w =
     (let w2 = w\<lparr>wk_cursor := cur, wk_records := wk_records w + n\<rparr> in save_if cn (due (wk_records w2) (wk_bytes w2)) w2)"

definition perform :: "('c, 'x) consumer \<Rightarrow> js_string list \<Rightarrow> work_cursor \<Rightarrow> nat \<Rightarrow> (nat \<Rightarrow> nat \<Rightarrow> bool) \<Rightarrow> 'c work \<Rightarrow> 'x + 'c work" where
  "perform cn ts cur n due w = rbind (rfold (append_text cn) ts w) (settle cn cur n due)"

inductive runs :: "('c, 'x) consumer \<Rightarrow> (js_string \<Rightarrow> js_string) \<Rightarrow> part list \<Rightarrow> 'c work \<Rightarrow> 'x + 'c work \<Rightarrow> bool"
  for cn nfc parts where
  runs_finished: "action_at nfc parts (wk_cursor w) = Finished \<Longrightarrow> runs cn nfc parts w (Inr w)"
| runs_stopped: "action_at nfc parts (wk_cursor w) = Take ts cur n due \<Longrightarrow> perform cn ts cur n due w = Inl x \<Longrightarrow> runs cn nfc parts w (Inl x)"
| runs_on: "action_at nfc parts (wk_cursor w) = Take ts cur n due \<Longrightarrow> perform cn ts cur n due w = Inr w' \<Longrightarrow> runs cn nfc parts w' r \<Longrightarrow> runs cn nfc parts w r"

lemma append_cursor: "append_text cn t w = Inr w' \<Longrightarrow> wk_cursor w' = wk_cursor w"
  by (auto simp: append_text_def rbind_eq_Inr)

lemma settle_cursor: "settle cn cur n due w = Inr w' \<Longrightarrow> wk_cursor w' = cur"
  by (auto simp: settle_def save_if_def save_work_def Let_def rbind_eq_Inr split: if_splits)

lemma perform_cursor: "perform cn ts cur n due w = Inr w' \<Longrightarrow> wk_cursor w' = cur"
  by (auto simp: perform_def rbind_eq_Inr settle_cursor)

lemma runs_perform:
  assumes "action_at nfc parts (wk_cursor w) = Take ts cur n due" "\<And>w'. perform cn ts cur n due w = Inr w' \<Longrightarrow> wk_cursor w' = cur \<Longrightarrow> runs cn nfc parts w' (K w')"
  shows "runs cn nfc parts w (rbind (perform cn ts cur n due w) K)"
proof (cases "perform cn ts cur n due w")
  case (Inl x)
  then show ?thesis using runs_stopped [OF assms(1) Inl] by simp
next
  case (Inr w')
  then show ?thesis using runs_on [OF assms(1) Inr assms(2) [OF Inr perform_cursor [OF Inr]]] by simp
qed

subsection \<open>The loops are runs of steps\<close>

lemma perform_chunk:
  assumes "wk_cursor w = at part after i"
  shows "take_chunk cn t i w = perform cn [t] (at part after (i + 1)) 0 byte_limit w"
proof (cases "append_text cn t w")
  case (Inr w1)
  then have "wk_cursor w1 = at part after i" using append_cursor assms by metis
  then show ?thesis using Inr by (simp add: take_chunk_def perform_def settle_def at_cursor_def byte_limit_def Let_def)
qed (simp add: take_chunk_def perform_def)

lemma perform_end:
  "wk_cursor w = at part after i \<Longrightarrow> end_record cn key w = perform cn [] (at part key 0) 1 record_limit w"
  by (simp add: end_record_def perform_def settle_def at_cursor_def count_record_def record_limit_def Let_def)

lemma perform_finish:
  assumes "wc_part (wk_cursor w) = part"
  shows "finish_part cn t after i w = perform cn [t] (at (part + 1) after i) 1 both_limits w"
proof (cases "append_text cn t w")
  case (Inr w1)
  then have "wc_part (wk_cursor w1) = part" using append_cursor assms by metis
  then show ?thesis using Inr by (simp add: finish_part_def perform_def settle_def at_cursor_def count_record_def both_limits_def Let_def)
qed (simp add: finish_part_def perform_def)

lemma each_chunk_skip:
  "j \<le> wc_chunk (wk_cursor w) \<Longrightarrow>
    each_chunk cn (map Inr ts) j w = each_chunk cn (map Inr (drop (wc_chunk (wk_cursor w) - j) ts)) (wc_chunk (wk_cursor w)) w"
proof (induction ts arbitrary: j)
  case (Cons t ts)
  then show ?case by (cases "j < wc_chunk (wk_cursor w)") (auto simp: Suc_diff_Suc drop_Cons')
qed simp

lemma chunks_run:
  assumes "part < length parts" "parts ! part = Source source" "source after = (key, v) # es"
    "\<And>w' i. wk_cursor w' = at part after i \<Longrightarrow> length (pieces nfc v) \<le> i \<Longrightarrow> runs cn nfc parts w' (K w')"
    "wk_cursor w = at part after i" "0 < i \<or> after = []"
  shows "runs cn nfc parts w (rbind (each_chunk cn (map Inr (drop i (pieces nfc v))) i w) K)"
  using assms(5, 6)
proof (induction "length (pieces nfc v) - i" arbitrary: i w)
  case 0
  then show ?case using assms(4) by simp
next
  case (Suc m)
  let ?t = "pieces nfc v ! i"
  have i: "i < length (pieces nfc v)" using Suc(2) by simp
  have "drop i (pieces nfc v) = ?t # drop (Suc i) (pieces nfc v)" using i by (rule Cons_nth_drop_Suc [symmetric])
  then have eq: "rbind (each_chunk cn (map Inr (drop i (pieces nfc v))) i w) K =
      rbind (perform cn [?t] (at part after (i + 1)) 0 byte_limit w) (\<lambda>w1. rbind (each_chunk cn (map Inr (drop (i + 1) (pieces nfc v))) (i + 1) w1) K)"
    using Suc(3) perform_chunk [OF Suc(3), of cn ?t] by (simp add: rbind_assoc)
  have "action_at nfc parts (wk_cursor w) = Take [?t] (at part after (i + 1)) 0 byte_limit"
    using assms(1-3) Suc(3, 4) i by (auto simp: action_at_def source_action_def)
  then show ?case unfolding eq by (rule runs_perform) (rule Suc(1), use Suc(2) in auto)
qed

lemma pieces_ne: "value_ok nfc v \<Longrightarrow> pieces nfc v \<noteq> []"
proof
  assume v: "value_ok nfc v" and none: "pieces nfc v = []"
  then obtain path t where t: "canonicalJsonAt nfc path v = Inr t" "double_ints v" by (auto simp: value_ok_def)
  then have "t = []" using pieces_spell(2) none by fastforce
  then show False using t(1) decimal_digits by (cases v) (auto simp: rbind_eq_Inr quote_def int_text_def ascii_def split: if_splits)
qed

text \<open>One record, with the comma before it.\<close>

lemma entry_run:
  assumes "part < length parts" "parts ! part = Source source" "source after = (key, v) # es" "value_ok nfc v"
    "\<And>w'. wk_cursor w' = at part key 0 \<Longrightarrow> runs cn nfc parts w' (K w')" "wk_cursor w = at part after i"
  shows "runs cn nfc parts w (rbind (comma cn w) (\<lambda>w1. rbind (each_chunk cn (canonicalValueChunks nfc v) 0 w1) (\<lambda>w2. rbind (end_record cn key w2) K)))"
proof -
  let ?K = "\<lambda>w2. rbind (end_record cn key w2) K"
  have ends: "runs cn nfc parts w' (?K w')" if "wk_cursor w' = at part after j" "length (pieces nfc v) \<le> j" for w' j
  proof -
    have "action_at nfc parts (wk_cursor w') = Take [] (at part key 0) 1 record_limit"
      using assms(1-3) that by (simp add: action_at_def source_action_def)
    then show ?thesis unfolding perform_end [OF that(1)] by (rule runs_perform) (rule assms(5))
  qed
  have skip: "each_chunk cn (canonicalValueChunks nfc v) 0 w1 = each_chunk cn (map Inr (drop j (pieces nfc v))) j w1" if "wk_cursor w1 = at part after j" for w1 j
    unfolding pieces_ok(1) [OF assms(4)] using each_chunk_skip [of 0 w1 cn "pieces nfc v"] that by simp
  show ?thesis
  proof (cases "0 < i \<or> after = []")
    case True
    then have "comma cn w = Inr w" using assms(6) by (auto simp: comma_def)
    then show ?thesis using chunks_run [OF assms(1-3) ends assms(6) True] skip [OF assms(6)] by simp
  next
    case False
    then obtain t ts where ts: "pieces nfc v = t # ts" using pieces_ne [OF assms(4)] by (cases "pieces nfc v") auto
    have eq: "rbind (comma cn w) (\<lambda>w1. rbind (each_chunk cn (canonicalValueChunks nfc v) 0 w1) ?K) =
        rbind (perform cn [[44], t] (at part after 1) 0 byte_limit w) (\<lambda>w1. rbind (each_chunk cn (map Inr (drop 1 (pieces nfc v))) 1 w1) ?K)"
    proof (cases "append_text cn [44] w")
      case (Inr w1)
      then have w1: "wk_cursor w1 = at part after 0" using append_cursor [OF Inr] assms(6) False by simp
      have "comma cn w = Inr w1" using Inr False assms(6) by (simp add: comma_def)
      moreover have "each_chunk cn (canonicalValueChunks nfc v) 0 w1 = rbind (take_chunk cn t 0 w1) (each_chunk cn (map Inr (drop 1 (pieces nfc v))) 1)"
        unfolding skip [OF w1] using w1 by (simp add: ts)
      moreover have "perform cn [[44], t] (at part after 1) 0 byte_limit w = take_chunk cn t 0 w1"
        unfolding perform_chunk [OF w1] using Inr by (simp add: perform_def)
      ultimately show ?thesis by (simp add: rbind_assoc)
    next
      case (Inl x)
      then show ?thesis using False assms(6) by (simp add: comma_def perform_def)
    qed
    have "action_at nfc parts (wk_cursor w) = Take [[44], t] (at part after 1) 0 byte_limit"
      using assms(1-3, 6) False ts by (auto simp: action_at_def source_action_def)
    then show ?thesis unfolding eq by (rule runs_perform) (rule chunks_run [OF assms(1-3) ends], simp_all)
  qed
qed

subsection \<open>Sources\<close>

definition after_ok :: "record_source \<Rightarrow> js_string \<Rightarrow> bool" where
  "after_ok source after \<longleftrightarrow> after = [] \<or> after \<in> fst ` set (source [])"

lemma source_next:
  assumes "resumable_source nfc source" "after_ok source after" "source after = (key, v) # es"
  shows "source key = es" "key \<noteq> []" "key \<noteq> after" "after_ok source key" "(key, v) \<in> set (source [])"
proof -
  obtain xs where xs: "source [] = xs @ (key, v) # es"
  proof (cases "after = []")
    case True
    then show ?thesis using that [of "[]"] assms(3) by simp
  next
    case False
    then obtain u where "(after, u) \<in> set (source [])" using assms(2) by (auto simp: after_ok_def)
    then obtain xs ys where "source [] = xs @ (after, u) # ys" by (auto dest: split_list)
    then show ?thesis using that [of "xs @ [(after, u)]"] assms(1, 3) by (auto simp: resumable_source_def)
  qed
  then show "source key = es" "key \<noteq> []" "after_ok source key" "(key, v) \<in> set (source [])"
    using assms(1) by (auto simp: resumable_source_def after_ok_def)
  then show "key \<noteq> after" using assms(3) by auto
qed

lemma source_rest: "resumable_source nfc source \<Longrightarrow> after_ok source after \<Longrightarrow> set (source after) \<subseteq> set (source [])"
proof (induction "source after" arbitrary: after)
  case (Cons e es)
  obtain key v where e: "e = (key, v)" by fastforce
  note next' = source_next [OF Cons(3, 4) Cons(2) [symmetric, unfolded e]]
  show ?case using Cons(1) [OF next'(1) [symmetric] Cons(3) next'(4)] next'(1, 5) Cons(2) e by (metis insert_subset list.simps(15))
qed simp

lemma entries_run:
  assumes "part < length parts" "parts ! part = Source source" "resumable_source nfc source" "list_all (\<lambda>(key, v). value_ok nfc v) (source [])"
    "\<And>w' after' i. wk_cursor w' = at part after' i \<Longrightarrow> source after' = [] \<Longrightarrow> runs cn nfc parts w' (K w')"
    "wk_cursor w = at part after i" "after_ok source after" "source after = es"
  shows "runs cn nfc parts w (rbind (each_entry cn nfc es w) K)"
  using assms(6-8)
proof (induction es arbitrary: w after i)
  case Nil
  then show ?case using assms(5) by simp
next
  case (Cons e es)
  obtain key v where e: "e = (key, v)" by fastforce
  note next' = source_next [OF assms(3) Cons(3) Cons(4) [unfolded e]]
  have ok: "value_ok nfc v" using next'(5) assms(4) by (auto simp: list_all_iff)
  have "runs cn nfc parts w (rbind (comma cn w) (\<lambda>w1. rbind (each_chunk cn (canonicalValueChunks nfc v) 0 w1) (\<lambda>w2.
      rbind (end_record cn key w2) (\<lambda>w3. rbind (each_entry cn nfc es w3) K))))"
    by (rule entry_run [OF assms(1, 2) Cons(4) [unfolded e] ok _ Cons(2)]) (rule Cons(1) [OF _ next'(4, 1)])
  then show ?case using next'(2, 3) Cons(2) by (simp add: e rbind_assoc)
qed

subsection \<open>The whole traversal\<close>

definition cursor_valid :: "part list \<Rightarrow> work_cursor \<Rightarrow> bool" where
  "cursor_valid parts cur \<longleftrightarrow> wc_part cur \<le> length parts \<and> (wc_part cur = length parts \<longrightarrow> wc_after cur = [] \<and> wc_chunk cur = 0) \<and>
     (wc_part cur < length parts \<longrightarrow> (case parts ! wc_part cur of
        Literal t \<Rightarrow> wc_after cur = [] \<and> wc_chunk cur = 0
      | Source source \<Rightarrow> after_ok source (wc_after cur)))"

lemma cursor_valid_start: "part \<le> length parts \<Longrightarrow> cursor_valid parts (at part [] 0)"
  by (auto simp: cursor_valid_def after_ok_def split: part.splits)

lemma action_cursor_valid:
  assumes "cursor_valid parts cur" "list_all (part_ok nfc) parts" "action_at nfc parts cur = Take ts cur' n due"
  shows "cursor_valid parts cur'"
proof (cases "parts ! wc_part cur")
  case (Literal t)
  then show ?thesis using assms by (auto simp: action_at_def cursor_valid_def after_ok_def split: if_splits part.splits)
next
  case (Source source)
  have p: "wc_part cur < length parts" using assms(3) by (auto simp: action_at_def split: if_splits)
  then have "part_ok nfc (parts ! wc_part cur)" using assms(2) by (auto simp: list_all_length)
  then have ok: "resumable_source nfc source" "after_ok source (wc_after cur)" using assms(1) p Source by (auto simp: cursor_valid_def)
  show ?thesis
  proof (cases "source (wc_after cur)")
    case Nil
    then show ?thesis using assms(3) p Source cursor_valid_start [of "wc_part cur + 1" parts] by (auto simp: action_at_def source_action_def)
  next
    case (Cons e es)
    then obtain key v where e: "source (wc_after cur) = (key, v) # es" by (cases e) auto
    then show ?thesis using assms(3) p Source ok source_next(4) [OF ok e]
      by (auto simp: action_at_def source_action_def cursor_valid_def split: if_splits)
  qed
qed

lemma parts_run:
  assumes "list_all (part_ok nfc) parts" "cursor_valid parts (wk_cursor w)"
  shows "runs cn nfc parts w (each_part cn nfc (drop (wc_part (wk_cursor w)) parts) w)"
  using assms(2)
proof (induction "length parts - wc_part (wk_cursor w)" arbitrary: w)
  case 0
  then show ?case by (simp add: runs_finished action_at_def)
next
  case (Suc m)
  obtain part after i where cur: "wk_cursor w = at part after i" by (cases "wk_cursor w") auto
  have p: "part < length parts" using Suc(2) cur by simp
  then have ok: "part_ok nfc (parts ! part)" using assms(1) by (simp add: list_all_length)
  let ?K = "each_part cn nfc (drop (part + 1) parts)"
  have next_part: "runs cn nfc parts w' (?K w')" if "wk_cursor w' = at (part + 1) [] 0" for w'
    using Suc(1) [of w'] Suc(2) cur p that cursor_valid_start [of "part + 1" parts] by simp
  have eq: "each_part cn nfc (drop (wc_part (wk_cursor w)) parts) w = rbind (one_part cn nfc (parts ! part) w) ?K"
    using p cur by (simp add: Cons_nth_drop_Suc [symmetric])
  show ?case
  proof (cases "parts ! part")
    case (Literal t)
    then have c: "wk_cursor w = at part [] 0" using Suc(3) cur p by (simp add: cursor_valid_def)
    have "one_part cn nfc (parts ! part) w = perform cn [t] (at (part + 1) [] 0) 1 both_limits w"
      using Literal c perform_finish [of w part cn t "[]" 0] by (simp add: one_part_def)
    moreover have "action_at nfc parts (wk_cursor w) = Take [t] (at (part + 1) [] 0) 1 both_limits" using Literal c p by (simp add: action_at_def)
    ultimately show ?thesis unfolding eq using next_part by (auto intro: runs_perform)
  next
    case (Source source)
    have fin: "runs cn nfc parts w' (rbind (finish_part cn [93] [] 0 w') ?K)" if "wk_cursor w' = at part after' j" "source after' = []" for w' after' j
    proof -
      have "action_at nfc parts (wk_cursor w') = Take [[93]] (at (part + 1) [] 0) 1 both_limits"
        using that Source p by (simp add: action_at_def source_action_def)
      then show ?thesis using next_part perform_finish [of w' part cn "[93]" "[]" 0] that(1) by (auto intro: runs_perform)
    qed
    have "runs cn nfc parts w (rbind (each_entry cn nfc (source after) w) (\<lambda>w'. rbind (finish_part cn [93] [] 0 w') ?K))"
      by (rule entries_run [OF p Source _ _ fin cur _ refl]) (use ok Source Suc(3) cur p in \<open>auto simp: cursor_valid_def\<close>)
    then show ?thesis unfolding eq using Source cur by (simp add: one_part_def rbind_assoc)
  qed
qed

end
