(* ===== verification/Canonical_Digest.thy ===== *)
theory Canonical_Digest
  imports Canonical_Work
begin

text \<open>
  The checkpointed digest of a document, \<open>prepareCanonicalDigest\<close> of
  \<open>src/src/catalogue/reconciliation/reconciliation-canonical-digest.ts\<close>, with the retained bytes of
  \<open>reconciliation-canonical-bytes.ts\<close> and the checkpoints of \<open>reconciliation-checkpoint.ts\<close>.

  The rows are those of one preparation, the checkpoints those of one phase. A checkpoint row keeps beside
  its text the cursor that parsing the text gives: canonical JSON normalises the key in it. An error leaves
  the rows that were written before it. Every call of the database may fail: \<open>ds_left\<close> counts the calls that
  still succeed, if one is going to fail. A row that is there stays, so an insertion that finds one changes
  nothing, and it and the reading of the row count as one call; a source whose reading fails leaves the rows
  as the failure of the next call does. The read window of checkpoints is left out.
\<close>

subsection \<open>Rows\<close>

record digest_cursor =
  dc_work :: work_cursor
  dc_sha :: sha256_checkpoint
  dc_digest :: "string option"
  dc_payload :: "nat option"

record digest_row =
  dr_cursor :: digest_cursor
  dr_content :: js_string
  dr_sha :: string

record digest_store =
  di_bytes :: "(nat \<times> js_string \<times> string) list"
  di_checkpoints :: "(nat \<times> digest_row) list"

datatype digest_error =
    Document_storage        \<comment> \<open>ReconciliationDocumentStorageError\<close>
  | Continuation nat        \<comment> \<open>ReconciliationContinuation\<close>
  | Bytes_capacity          \<comment> \<open>canonical bytes exceed one chunk\<close>
  | Bytes_replay            \<comment> \<open>Canonical byte replay changed immutable content.\<close>
  | Bytes_integrity         \<comment> \<open>Retained canonical bytes failed integrity verification.\<close>
  | Cursor_capacity         \<comment> \<open>one continuation checkpoint exceeds 64 KiB\<close>
  | Cursor_replay           \<comment> \<open>Reconciliation checkpoint replay changed immutable content.\<close>
  | Cursor_integrity        \<comment> \<open>Reconciliation checkpoint failed integrity verification.\<close>
  | Digest_sha sha_error
  | Digest_json serial_error
  | Digest_work work_error

datatype digest_name = Catalogue | Candidate

record digest_context =
  dx_nfc :: "js_string \<Rightarrow> js_string"
  dx_name :: digest_name
  dx_yield :: bool
  dx_retain :: bool

record digest_state =
  ds_store :: digest_store
  ds_left :: "nat option"
  ds_hash :: sha256
  ds_payload :: "nat option"
  ds_pending :: js_string
  ds_bytes :: nat
  ds_ordinal :: nat

type_synonym 'a digest_result = "digest_error \<times> digest_store + 'a"

definition raise_digest :: "digest_error \<Rightarrow> digest_state \<Rightarrow> 'a digest_result" where
  "raise_digest e ds = Inl (e, ds_store ds)"

definition database :: "(digest_store \<Rightarrow> digest_error + digest_store) \<Rightarrow> digest_state \<Rightarrow> digest_state digest_result" where
  "database call ds =
     (if ds_left ds = Some 0 then raise_digest Document_storage ds
      else case call (ds_store ds) of
        Inl e \<Rightarrow> raise_digest e ds
      | Inr store \<Rightarrow> Inr (ds\<lparr>ds_store := store, ds_left := map_option (\<lambda>n. n - 1) (ds_left ds)\<rparr>))"

subsection \<open>Retained bytes\<close>

definition insert_row :: "nat \<Rightarrow> 'r \<Rightarrow> (nat \<times> 'r) list \<Rightarrow> (nat \<times> 'r) list" where
  "insert_row ordinal row rows = (if map_of rows ordinal = None then rows @ [(ordinal, row)] else rows)"

definition retain_bytes_row :: "nat \<Rightarrow> js_string \<Rightarrow> digest_store \<Rightarrow> digest_error + digest_store" where
  "retain_bytes_row ordinal content store =
     (let store' = store\<lparr>di_bytes := insert_row ordinal (content, sha256Text content) (di_bytes store)\<rparr>
      in if map_of (di_bytes store') ordinal = Some (content, sha256Text content) then Inr store' else Inl Bytes_replay)"

definition retainCanonicalBytes :: "nat \<Rightarrow> js_string \<Rightarrow> digest_state \<Rightarrow> digest_state digest_result" where
  "retainCanonicalBytes ordinal content ds =
     (if byte_length content > 524288 then raise_digest Bytes_capacity ds else database (retain_bytes_row ordinal content) ds)"

definition readCanonicalBytes :: "digest_store \<Rightarrow> nat \<Rightarrow> digest_error + js_string" where
  "readCanonicalBytes store ordinal = (case map_of (di_bytes store) ordinal of
     None \<Rightarrow> Inl Bytes_integrity
   | Some (content, sha) \<Rightarrow> if sha256Text content \<noteq> sha then Inl Bytes_integrity else Inr content)"

subsection \<open>Checkpoints\<close>

definition sha_value :: "sha256_checkpoint \<Rightarrow> js_value" where
  "sha_value sha = VObject [(ascii ''words'', VArray (map VInt (cp_words sha))), (ascii ''pending'', VArray (map VInt (cp_pending sha))),
     (ascii ''bytes'', VText (ascii (cp_bytes sha)))]"

definition digest_value :: "digest_cursor \<Rightarrow> js_value" where
  "digest_value c = VObject
     ([(ascii ''part'', VInt (int (wc_part (dc_work c)))), (ascii ''after'', VText (wc_after (dc_work c))),
       (ascii ''chunk'', VInt (int (wc_chunk (dc_work c)))), (ascii ''sha'', sha_value (dc_sha c))] @
      (case dc_payload c of None \<Rightarrow> [] | Some n \<Rightarrow> [(ascii ''payloadChunks'', VInt (int n))]) @
      (case dc_digest c of None \<Rightarrow> [] | Some digest \<Rightarrow> [(ascii ''digest'', VText (ascii digest))]))"

definition parsed_cursor :: "(js_string \<Rightarrow> js_string) \<Rightarrow> digest_cursor \<Rightarrow> digest_cursor" where
  "parsed_cursor nfc c = c\<lparr>dc_work := (dc_work c)\<lparr>wc_after := nfc (wc_after (dc_work c))\<rparr>\<rparr>"

definition latest_row :: "(nat \<times> 'r) list \<Rightarrow> (nat \<times> 'r) option" where
  "latest_row rows = (if rows = [] then None
     else let ordinal = Max (fst ` set rows) in map_option (Pair ordinal) (map_of rows ordinal))"

definition digestCheckpoint :: "digest_store \<Rightarrow> digest_error + (nat \<times> digest_cursor) option" where
  "digestCheckpoint store = (case latest_row (di_checkpoints store) of
     None \<Rightarrow> Inr None
   | Some (ordinal, row) \<Rightarrow>
       if sha256Text (dr_content row) \<noteq> dr_sha row then Inl Cursor_integrity else Inr (Some (ordinal, dr_cursor row)))"

definition retain_cursor_row :: "nat \<Rightarrow> digest_row \<Rightarrow> digest_store \<Rightarrow> digest_error + digest_store" where
  "retain_cursor_row ordinal row store =
     (let store' = store\<lparr>di_checkpoints := insert_row ordinal row (di_checkpoints store)\<rparr>
      in case map_of (di_checkpoints store') ordinal of
           None \<Rightarrow> Inl Cursor_replay
         | Some present \<Rightarrow>
             if dr_content present \<noteq> dr_content row \<or> dr_sha present \<noteq> dr_sha row then Inl Cursor_replay else Inr store')"

definition retainDigestCheckpoint :: "(js_string \<Rightarrow> js_string) \<Rightarrow> digest_cursor \<Rightarrow> digest_state \<Rightarrow> digest_state digest_result" where
  "retainDigestCheckpoint nfc c ds = (case canonicalJson nfc (digest_value c) of
     Inl e \<Rightarrow> raise_digest (Digest_json e) ds
   | Inr content \<Rightarrow>
       if byte_length content > 65536 then raise_digest Cursor_capacity ds
       else database (retain_cursor_row (ds_ordinal ds) \<lparr>dr_cursor = parsed_cursor nfc c, dr_content = content, dr_sha = sha256Text content\<rparr>) ds)"

subsection \<open>The digest\<close>

definition flushPayload :: "digest_state \<Rightarrow> digest_state digest_result" where
  "flushPayload ds = (case ds_payload ds of
     None \<Rightarrow> Inr ds
   | Some n \<Rightarrow>
       if ds_pending ds = [] then Inr ds
       else rbind (retainCanonicalBytes n (ds_pending ds) ds) (\<lambda>ds1. Inr (ds1\<lparr>ds_payload := Some (n + 1), ds_pending := [], ds_bytes := 0\<rparr>)))"

definition consume_text :: "js_string \<Rightarrow> digest_state \<Rightarrow> digest_state digest_result" where
  "consume_text t ds = (case update_sha256 (ds_hash ds) (utf8 t) of
     Inl e \<Rightarrow> raise_digest (Digest_sha e) ds
   | Inr hash \<Rightarrow>
       let ds1 = ds\<lparr>ds_hash := hash\<rparr>
       in if ds_payload ds1 = None then Inr ds1
          else rbind (if ds_bytes ds1 + length (utf8 t) > 524288 then flushPayload ds1 else Inr ds1) (\<lambda>ds2.
               Inr (ds2\<lparr>ds_pending := ds_pending ds2 @ t, ds_bytes := ds_bytes ds2 + length (utf8 t)\<rparr>)))"

definition yield_checkpoint :: "digest_context \<Rightarrow> digest_state \<Rightarrow> digest_state digest_result" where
  "yield_checkpoint ctx ds = (if dx_yield ctx then raise_digest (Continuation (ds_ordinal ds)) ds else Inr ds)"

definition save_digest :: "digest_context \<Rightarrow> work_cursor \<Rightarrow> digest_state \<Rightarrow> digest_state digest_result" where
  "save_digest ctx cursor ds =
     rbind (flushPayload ds) (\<lambda>ds1. case checkpoint_sha256 (ds_hash ds1) of
       Inl e \<Rightarrow> raise_digest (Digest_sha e) ds1
     | Inr sha \<Rightarrow>
         rbind (retainDigestCheckpoint (dx_nfc ctx) \<lparr>dc_work = cursor, dc_sha = sha, dc_digest = None, dc_payload = ds_payload ds1\<rparr> ds1) (\<lambda>ds2.
         rbind (yield_checkpoint ctx ds2) (\<lambda>ds3. Inr (ds3\<lparr>ds_ordinal := ds_ordinal ds3 + 1\<rparr>))))"

definition digest_consumer :: "digest_context \<Rightarrow> (digest_state, digest_error \<times> digest_store) consumer" where
  "digest_consumer ctx = \<lparr>cn_consume = consume_text, cn_checkpoint = save_digest ctx, cn_fail = (\<lambda>e ds. (Digest_work e, ds_store ds))\<rparr>"

definition initial_digest_cursor :: "digest_context \<Rightarrow> sha_error + digest_cursor" where
  "initial_digest_cursor ctx = rbind (checkpoint_sha256 new_sha256) (\<lambda>sha.
     Inr \<lparr>dc_work = \<lparr>wc_part = 0, wc_after = [], wc_chunk = 0\<rparr>, dc_sha = sha, dc_digest = None,
          dc_payload = (if dx_retain ctx \<and> dx_name ctx = Candidate then Some 0 else None)\<rparr>)"

definition complete_digest :: "digest_context \<Rightarrow> work_cursor \<Rightarrow> digest_state \<Rightarrow> (string \<times> digest_store) digest_result" where
  "complete_digest ctx cursor ds = (case checkpoint_sha256 (ds_hash ds) of
     Inl e \<Rightarrow> raise_digest (Digest_sha e) ds
   | Inr sha \<Rightarrow>
       let digest = fst (digestHex (ds_hash ds))
       in rbind (flushPayload ds) (\<lambda>ds1.
          rbind (retainDigestCheckpoint (dx_nfc ctx) \<lparr>dc_work = cursor, dc_sha = sha, dc_digest = Some digest, dc_payload = ds_payload ds1\<rparr> ds1) (\<lambda>ds2.
          rbind (yield_checkpoint ctx ds2) (\<lambda>ds3. Inr (digest, ds_store ds3)))))"

definition resume_digest :: "digest_context \<Rightarrow> doc \<Rightarrow> digest_cursor \<Rightarrow> nat \<Rightarrow> nat option \<Rightarrow> digest_store \<Rightarrow> (string \<times> digest_store) digest_result" where
  "resume_digest ctx d c ordinal left store = (case resume_sha256 (dc_sha c) of
     Inl e \<Rightarrow> Inl (Digest_sha e, store)
   | Inr hash \<Rightarrow>
       rbind (consumeCanonicalWork (digest_consumer ctx) (dx_nfc ctx) d (dc_work c)
           \<lparr>ds_store = store, ds_left = left, ds_hash = hash, ds_payload = dc_payload c, ds_pending = [], ds_bytes = 0, ds_ordinal = ordinal\<rparr>)
         (\<lambda>(cursor, ds). complete_digest ctx cursor ds))"

definition prepareCanonicalDigest :: "digest_context \<Rightarrow> doc \<Rightarrow> nat option \<Rightarrow> digest_store \<Rightarrow> (string \<times> digest_store) digest_result" where
  "prepareCanonicalDigest ctx d left store =
     (if left = Some 0 then Inl (Document_storage, store)
      else let left' = map_option (\<lambda>n. n - 1) left in
      case digestCheckpoint store of
        Inl e \<Rightarrow> Inl (e, store)
      | Inr None \<Rightarrow> (case initial_digest_cursor ctx of
            Inl e \<Rightarrow> Inl (Digest_sha e, store)
          | Inr c \<Rightarrow> resume_digest ctx d c 0 left' store)
      | Inr (Some (ordinal, c)) \<Rightarrow> (case dc_digest c of
            None \<Rightarrow> resume_digest ctx d c (ordinal + 1) left' store
          | Some digest \<Rightarrow>
              if digest = [] then resume_digest ctx d c (ordinal + 1) left' store
              else Inr (digest, store)))"

end
