(* ===== verification/Canonical_Ideal.thy ===== *)
theory Canonical_Ideal
  imports Canonical_Steps Canonical_Digest "HOL-Library.Sublist"
begin

text \<open>
  The digest without a database: a consumer that never stops and remembers all it consumed, the rows it
  would retain and the checkpoints it would save. Its run over a document visits the states any invocation
  can be in.
\<close>

subsection \<open>The ideal consumer\<close>

record ideal =
  il_text :: js_string
  il_pending :: js_string
  il_bytes :: nat
  il_rows :: "js_string list"
  il_saves :: "(work_cursor \<times> js_string \<times> nat) list"

definition iflush :: "ideal \<Rightarrow> ideal" where
  "iflush i = (if il_pending i = [] then i else i\<lparr>il_rows := il_rows i @ [il_pending i], il_pending := [], il_bytes := 0\<rparr>)"

definition iconsume :: "bool \<Rightarrow> js_string \<Rightarrow> ideal \<Rightarrow> ideal" where
  "iconsume retain t i =
     (let i1 = i\<lparr>il_text := il_text i @ t\<rparr>
      in if \<not> retain then i1
         else let i2 = (if il_bytes i1 + byte_length t > 524288 then iflush i1 else i1)
              in i2\<lparr>il_pending := il_pending i2 @ t, il_bytes := il_bytes i2 + byte_length t\<rparr>)"

definition isave :: "work_cursor \<Rightarrow> ideal \<Rightarrow> ideal" where
  "isave cur i = (let i1 = iflush i in i1\<lparr>il_saves := il_saves i1 @ [(cur, il_text i1, length (il_rows i1))]\<rparr>)"

definition ideal_consumer :: "bool \<Rightarrow> (ideal, unit) consumer" where
  "ideal_consumer retain = \<lparr>cn_consume = (\<lambda>t i. Inr (iconsume retain t i)), cn_checkpoint = (\<lambda>cur i. Inr (isave cur i)), cn_fail = (\<lambda>e i. ())\<rparr>"

abbreviation itext :: "ideal work \<Rightarrow> js_string" where
  "itext w \<equiv> il_text (wk_consumer w)"

abbreviation irows :: "ideal work \<Rightarrow> js_string list" where
  "irows w \<equiv> il_rows (wk_consumer w)"

abbreviation isaves :: "ideal work \<Rightarrow> (work_cursor \<times> js_string \<times> nat) list" where
  "isaves w \<equiv> il_saves (wk_consumer w)"

lemma iflush_fields [simp]: "il_text (iflush i) = il_text i" "il_saves (iflush i) = il_saves i" "il_pending (iflush i) = []"
  by (simp_all add: iflush_def)

lemma iconsume_fields [simp]: "il_text (iconsume retain t i) = il_text i @ t" "il_saves (iconsume retain t i) = il_saves i"
  by (simp_all add: iconsume_def Let_def)

lemma isave_fields [simp]: "il_text (isave cur i) = il_text i" "il_rows (isave cur i) = il_rows (iflush i)"
  "il_saves (isave cur i) = il_saves i @ [(cur, il_text i, length (il_rows (iflush i)))]" "il_pending (isave cur i) = []" "il_bytes (isave cur i) = il_bytes (iflush i)"
  by (simp_all add: isave_def Let_def)

lemma ideal_consumer_fields [simp]:
  "cn_consume (ideal_consumer retain) t i = Inr (iconsume retain t i)" "cn_checkpoint (ideal_consumer retain) cur i = Inr (isave cur i)"
  by (simp_all add: ideal_consumer_def)

lemma iflush_rows: "prefix (il_rows i) (il_rows (iflush i))"
  by (simp add: iflush_def)

lemma iconsume_rows: "prefix (il_rows i) (il_rows (iconsume retain t i))"
  by (simp add: iconsume_def iflush_def Let_def)

definition iappend :: "bool \<Rightarrow> js_string \<Rightarrow> ideal work \<Rightarrow> ideal work" where
  "iappend retain t w = w\<lparr>wk_consumer := iconsume retain t (wk_consumer w), wk_bytes := wk_bytes w + byte_length t\<rparr>"

lemma append_ideal [simp]: "append_text (ideal_consumer retain) t w = Inr (iappend retain t w)"
  by (simp add: append_text_def iappend_def)

lemma iappend_fields [simp]: "wk_cursor (iappend retain t w) = wk_cursor w" "itext (iappend retain t w) = itext w @ t"
  by (simp_all add: iappend_def)

lemma save_if_ideal: "\<exists>w'. save_if (ideal_consumer retain) b w = Inr w' \<and> wk_cursor w' = wk_cursor w \<and> itext w' = itext w"
  by (simp add: save_if_def save_work_def)

subsection \<open>What it has consumed in the end\<close>

lemma take_chunk_ideal:
  assumes "wk_cursor w = at part after i"
  shows "\<exists>w'. take_chunk (ideal_consumer retain) t i w = Inr w' \<and> wk_cursor w' = at part after (i + 1) \<and> itext w' = itext w @ t"
proof -
  have "take_chunk (ideal_consumer retain) t i w =
      save_if (ideal_consumer retain) (wk_bytes (iappend retain t w) \<ge> 524288) (at_cursor part after (i + 1) (iappend retain t w))"
    using assms by (simp add: take_chunk_def at_cursor_def Let_def)
  then show ?thesis using save_if_ideal [of retain _ "at_cursor part after (i + 1) (iappend retain t w)"] by (simp add: at_cursor_def)
qed

lemma each_chunk_ideal:
  "wk_cursor w = at part after i \<Longrightarrow>
    \<exists>w'. each_chunk (ideal_consumer retain) (map Inr ts) i w = Inr w' \<and> wc_part (wk_cursor w') = part \<and> itext w' = itext w @ concat ts"
proof (induction ts arbitrary: i w)
  case (Cons t ts)
  obtain w1 where w1: "take_chunk (ideal_consumer retain) t i w = Inr w1" "wk_cursor w1 = at part after (i + 1)" "itext w1 = itext w @ t"
    using take_chunk_ideal [OF Cons(2)] by blast
  then show ?case using Cons(1) [OF w1(2)] Cons(2) by auto
qed simp

lemma end_record_ideal:
  "wc_part (wk_cursor w) = part \<Longrightarrow> \<exists>w'. end_record (ideal_consumer retain) key w = Inr w' \<and> wk_cursor w' = at part key 0 \<and> itext w' = itext w"
  using save_if_ideal [of retain _ "count_record (at_cursor part key 0 w)"] by (simp add: end_record_def Let_def at_cursor_def count_record_def)

lemma each_entry_ideal:
  assumes "resumable_source nfc source" "list_all (\<lambda>(key, v). value_ok nfc v) (source [])"
    "wk_cursor w = at part after 0" "after_ok source after" "source after = es"
  shows "\<exists>w'. each_entry (ideal_consumer retain) nfc es w = Inr w' \<and> wc_part (wk_cursor w') = part \<and>
    itext w' = itext w @ (if after = [] \<or> es = [] then [] else [44]) @ join_with 44 (map (\<lambda>(key, v). concat (pieces nfc v)) es)"
  using assms(3-5)
proof (induction es arbitrary: w after)
  case (Cons e es)
  obtain key v where e: "e = (key, v)" by fastforce
  note next' = source_next [OF assms(1) Cons(3) Cons(4) [unfolded e]]
  have ok: "value_ok nfc v" using next'(5) assms(2) by (auto simp: list_all_iff)
  obtain w1 where w1: "comma (ideal_consumer retain) w = Inr w1" "wk_cursor w1 = at part after 0" "itext w1 = itext w @ (if after = [] then [] else [44])"
    using Cons(2) by (cases "after = []") (simp_all add: comma_def)
  obtain w2 where w2: "each_chunk (ideal_consumer retain) (canonicalValueChunks nfc v) 0 w1 = Inr w2" "wc_part (wk_cursor w2) = part"
      "itext w2 = itext w1 @ concat (pieces nfc v)"
    using each_chunk_ideal [OF w1(2)] pieces_ok(1) [OF ok] by metis
  obtain w3 where w3: "end_record (ideal_consumer retain) key w2 = Inr w3" "wk_cursor w3 = at part key 0" "itext w3 = itext w2"
    using end_record_ideal [OF w2(2)] by blast
  obtain w4 where w4: "each_entry (ideal_consumer retain) nfc es w3 = Inr w4" "wc_part (wk_cursor w4) = part"
      "itext w4 = itext w3 @ (if es = [] then [] else [44]) @ join_with 44 (map (\<lambda>(key, v). concat (pieces nfc v)) es)"
    using Cons(1) [OF w3(2) next'(4, 1)] next'(2) by auto
  have "each_entry (ideal_consumer retain) nfc (e # es) w = Inr w4" using e next'(2, 3) Cons(2) w1(1) w2(1) w3(1) w4(1) by simp
  moreover have "itext w4 = itext w @ (if after = [] then [] else [44]) @ join_with 44 (map (\<lambda>(key, v). concat (pieces nfc v)) (e # es))"
    using w1(3) w2(3) w3(3) w4(3) e by (cases es) simp_all
  ultimately show ?case using w4(2) by simp
qed simp

lemma finish_part_ideal:
  "wc_part (wk_cursor w) = part \<Longrightarrow> \<exists>w'. finish_part (ideal_consumer retain) t after i w = Inr w' \<and> wk_cursor w' = at (part + 1) after i \<and> itext w' = itext w @ t"
  using save_if_ideal [of retain _ "count_record (at_cursor (part + 1) after i (iappend retain t w))"]
  by (simp add: finish_part_def Let_def at_cursor_def count_record_def)

lemma each_part_ideal:
  "list_all (part_ok nfc) ps \<Longrightarrow> wc_after (wk_cursor w) = [] \<Longrightarrow> wc_chunk (wk_cursor w) = 0 \<Longrightarrow>
    \<exists>w'. each_part (ideal_consumer retain) nfc ps w = Inr w' \<and> itext w' = itext w @ concat (map (part_text nfc) ps)"
proof (induction ps arbitrary: w)
  case (Cons p ps)
  obtain part where cur: "wk_cursor w = at part [] 0" using Cons(3, 4) by (cases "wk_cursor w") auto
  obtain w1 where w1: "one_part (ideal_consumer retain) nfc p w = Inr w1" "wk_cursor w1 = at (part + 1) [] 0" "itext w1 = itext w @ part_text nfc p"
  proof (cases p)
    case (Literal t)
    then show ?thesis using that finish_part_ideal [of w part retain t "[]" 0] cur by (auto simp: one_part_def)
  next
    case (Source source)
    have "after_ok source []" by (simp add: after_ok_def)
    moreover have "resumable_source nfc source" "list_all (\<lambda>(key, v). value_ok nfc v) (source [])" using Cons(2) Source by simp_all
    ultimately obtain w2 where w2: "each_entry (ideal_consumer retain) nfc (source []) w = Inr w2" "wc_part (wk_cursor w2) = part"
        "itext w2 = itext w @ join_with 44 (map (\<lambda>(key, v). concat (pieces nfc v)) (source []))"
      using each_entry_ideal [OF _ _ cur _ refl, of nfc source retain] by auto
    then show ?thesis using that finish_part_ideal [OF w2(2), of retain "[93]" "[]" 0] cur Source by (auto simp: one_part_def)
  qed
  then show ?case using Cons(1) [of w1] Cons(2) by auto
qed simp

subsection \<open>The run\<close>

definition istep :: "bool \<Rightarrow> (js_string \<Rightarrow> js_string) \<Rightarrow> part list \<Rightarrow> ideal work \<Rightarrow> ideal work \<Rightarrow> bool" where
  "istep retain nfc parts w w' \<longleftrightarrow>
     (\<exists>ts cur n due. action_at nfc parts (wk_cursor w) = Take ts cur n due \<and> perform (ideal_consumer retain) ts cur n due w = Inr w')"

lemma runs_path:
  "runs (ideal_consumer retain) nfc parts w r \<Longrightarrow> r = Inr w' \<Longrightarrow> (istep retain nfc parts)\<^sup>*\<^sup>* w w' \<and> action_at nfc parts (wk_cursor w') = Finished"
proof (induction rule: runs.induct)
  case (runs_on w ts cur n due w1 r)
  then have "istep retain nfc parts w w1" by (auto simp: istep_def)
  then show ?case using runs_on by (auto intro: converse_rtranclp_into_rtranclp)
qed simp_all

definition start :: "ideal work" where
  "start = \<lparr>wk_cursor = at 0 [] 0, wk_records = 0, wk_bytes = 0,
     wk_consumer = \<lparr>il_text = [], il_pending = [], il_bytes = 0, il_rows = [], il_saves = []\<rparr>\<rparr>"

lemma ideal_run:
  assumes "parts_spell nfc parts t"
  shows "\<exists>wf. (istep retain nfc parts)\<^sup>*\<^sup>* start wf \<and> action_at nfc parts (wk_cursor wf) = Finished \<and> itext wf = t"
proof -
  have ok: "list_all (part_ok nfc) parts" and t: "concat (map (part_text nfc) parts) = t" using assms by (simp_all add: parts_spell_def)
  obtain wf where wf: "each_part (ideal_consumer retain) nfc parts start = Inr wf" "itext wf = t"
    using each_part_ideal [OF ok, of start retain] t by (auto simp: start_def)
  have "runs (ideal_consumer retain) nfc parts start (each_part (ideal_consumer retain) nfc parts start)"
    using parts_run [OF ok, of start "ideal_consumer retain"] cursor_valid_start [of 0 parts] by (simp add: start_def)
  then show ?thesis using runs_path wf by metis
qed

subsection \<open>Invariants of the run\<close>

definition ibounds :: "bool \<Rightarrow> ideal \<Rightarrow> bool" where
  "ibounds retain i \<longleftrightarrow> whole (il_text i) \<and> whole (il_pending i) \<and> il_bytes i = byte_length (il_pending i) \<and> il_bytes i \<le> 524288 \<and>
     [] \<notin> set (il_rows i) \<and> concat (il_rows i) @ il_pending i = (if retain then il_text i else [])"

definition winv :: "bool \<Rightarrow> part list \<Rightarrow> ideal work \<Rightarrow> bool" where
  "winv retain parts w \<longleftrightarrow> cursor_valid parts (wk_cursor w) \<and> wc_part (wk_cursor w) + wc_chunk (wk_cursor w) \<le> length (itext w) \<and> ibounds retain (wk_consumer w)"

definition fresh :: "ideal work \<Rightarrow> bool" where
  "fresh w \<longleftrightarrow> wk_records w = 0 \<and> wk_bytes w = 0 \<and> il_pending (wk_consumer w) = [] \<and> il_bytes (wk_consumer w) = 0 \<and>
     (w = start \<or> isaves w \<noteq> [] \<and> last (isaves w) = (wk_cursor w, itext w, length (irows w)))"

lemma byte_length_Nil [simp]: "byte_length [] = 0"
  by (simp add: byte_length_def utf8_def)

lemma whole_Nil [simp]: "whole []"
  by (simp add: whole_def)

lemma ibounds_flush: "ibounds retain i \<Longrightarrow> ibounds retain (iflush i) \<and> il_bytes (iflush i) = 0"
  by (auto simp: ibounds_def iflush_def)

lemma ibounds_consume:
  assumes "piece_ok t" "ibounds retain i"
  shows "ibounds retain (iconsume retain t i)"
proof (cases retain)
  case True
  let ?i = "i\<lparr>il_text := il_text i @ t\<rparr>"
  let ?j = "if il_bytes i + byte_length t > 524288 then iflush ?i else ?i"
  have j: "whole (il_pending ?j)" "il_bytes ?j = byte_length (il_pending ?j)" "il_bytes ?j + byte_length t \<le> 524288" "[] \<notin> set (il_rows ?j)"
    "concat (il_rows ?j) @ il_pending ?j = il_text i"
    using assms True by (auto simp: ibounds_def iflush_def piece_ok_def)
  have "iconsume retain t i = ?j\<lparr>il_pending := il_pending ?j @ t, il_bytes := il_bytes ?j + byte_length t\<rparr>"
    using True by (simp add: iconsume_def Let_def)
  then show ?thesis using j assms True
    by (auto simp: ibounds_def piece_ok_def byte_length_append whole_append)
next
  case False
  then show ?thesis using assms by (auto simp: ibounds_def iconsume_def piece_ok_def whole_append)
qed

lemma ibounds_save: "ibounds retain i \<Longrightarrow> ibounds retain (isave cur i) \<and> il_bytes (isave cur i) = 0"
  using ibounds_flush [of retain i] by (simp add: ibounds_def)

lemma appends_ideal: "rfold (append_text (ideal_consumer retain)) ts w = Inr (fold (iappend retain) ts w)"
  by (induction ts arbitrary: w) simp_all

lemma iappends_facts:
  "list_all piece_ok ts \<Longrightarrow> ibounds retain (wk_consumer w) \<Longrightarrow>
    ibounds retain (wk_consumer (fold (iappend retain) ts w)) \<and> itext (fold (iappend retain) ts w) = itext w @ concat ts \<and>
    isaves (fold (iappend retain) ts w) = isaves w \<and> prefix (irows w) (irows (fold (iappend retain) ts w)) \<and>
    wk_records (fold (iappend retain) ts w) = wk_records w"
proof (induction ts arbitrary: w)
  case (Cons t ts)
  have "ibounds retain (wk_consumer (iappend retain t w))" "isaves (iappend retain t w) = isaves w" "wk_records (iappend retain t w) = wk_records w"
    "prefix (irows w) (irows (iappend retain t w))"
    using Cons.prems ibounds_consume iconsume_rows by (simp_all add: iappend_def)
  then show ?case using Cons.IH [of "iappend retain t w"] Cons.prems(1) by (auto intro: prefix_order.trans)
qed simp

lemma action_texts:
  assumes "list_all (part_ok nfc) parts" "cursor_valid parts cur" "action_at nfc parts cur = Take ts cur' n due"
  shows "list_all piece_ok ts" "wc_part cur' + wc_chunk cur' \<le> wc_part cur + wc_chunk cur + length (concat ts)"
proof -
  have p: "wc_part cur < length parts" using assms(3) by (auto simp: action_at_def split: if_splits)
  then have ok: "part_ok nfc (parts ! wc_part cur)" using assms(1) by (auto simp: list_all_length)
  have unit: "piece_ok [44]" "piece_ok [93]" by (simp_all add: piece_ok_def whole_def is_high_def byte_length_def utf8_ascii plain_ascii_def)
  have "list_all piece_ok ts \<and> wc_part cur' + wc_chunk cur' \<le> wc_part cur + wc_chunk cur + length (concat ts)"
  proof (cases "parts ! wc_part cur")
    case (Literal t)
    then show ?thesis using assms(3) ok p by (auto simp: action_at_def piece_ok_def Suc_le_eq)
  next
    case (Source source)
    have s: "resumable_source nfc source" "after_ok source (wc_after cur)" using assms(2) ok p Source by (auto simp: cursor_valid_def)
    show ?thesis
    proof (cases "source (wc_after cur)")
      case Nil
      then show ?thesis using assms(3) p Source unit by (auto simp: action_at_def source_action_def)
    next
      case (Cons e es)
      then obtain key v where e: "source (wc_after cur) = (key, v) # es" by (cases e) auto
      have "value_ok nfc v" using ok Source source_next(5) [OF s e] by (auto simp: list_all_iff)
      then have "list_all piece_ok (pieces nfc v)" by (rule pieces_ok)
      then have "piece_ok (pieces nfc v ! wc_chunk cur)" if "wc_chunk cur < length (pieces nfc v)" using that by (simp add: list_all_length)
      then show ?thesis using assms(3) p Source e unit
        by (auto simp: action_at_def source_action_def piece_ok_def Suc_le_eq split: if_splits)
    qed
  qed
  then show "list_all piece_ok ts" "wc_part cur' + wc_chunk cur' \<le> wc_part cur + wc_chunk cur + length (concat ts)" by simp_all
qed

lemma istep_facts:
  assumes "list_all (part_ok nfc) parts" "winv retain parts w" "istep retain nfc parts w w'"
  shows "winv retain parts w'" "prefix (irows w) (irows w')" "prefix (itext w) (itext w')" "isaves w' = isaves w \<or> fresh w'"
    "prefix (isaves w) (isaves w')"
proof -
  obtain ts cur n due where a: "action_at nfc parts (wk_cursor w) = Take ts cur n due" "perform (ideal_consumer retain) ts cur n due w = Inr w'"
    using assms(3) by (auto simp: istep_def)
  have inv: "cursor_valid parts (wk_cursor w)" "ibounds retain (wk_consumer w)" using assms(2) by (simp_all add: winv_def)
  note texts = action_texts [OF assms(1) inv(1) a(1)]
  note facts = iappends_facts [OF texts(1) inv(2)]
  let ?w = "(fold (iappend retain) ts w)\<lparr>wk_cursor := cur, wk_records := wk_records w + n\<rparr>"
  have w': "w' = (if due (wk_records ?w) (wk_bytes ?w) then ?w\<lparr>wk_consumer := isave cur (wk_consumer ?w), wk_records := 0, wk_bytes := 0\<rparr> else ?w)"
    using a(2) facts by (auto simp: perform_def appends_ideal settle_def save_if_def save_work_def Let_def)
  have len: "wc_part cur + wc_chunk cur \<le> length (itext w @ concat ts)" using texts(2) assms(2) by (simp add: winv_def)
  show "winv retain parts w'" unfolding w' winv_def
    using facts len action_cursor_valid [OF inv(1) assms(1) a(1)] ibounds_save [of retain _ cur] by auto
  show "prefix (irows w) (irows w')" unfolding w' using facts iflush_rows by (auto intro: prefix_order.trans)
  show "prefix (itext w) (itext w')" unfolding w' using facts by auto
  show "isaves w' = isaves w \<or> fresh w'" unfolding w' using facts ibounds_save [of retain _ cur] by (auto simp: fresh_def)
  show "prefix (isaves w) (isaves w')" unfolding w' using facts by auto
qed

lemma winv_start: "winv retain parts start"
  using cursor_valid_start [of 0 parts] by (simp add: winv_def start_def ibounds_def)

lemma fresh_start: "fresh start"
  by (simp add: fresh_def start_def)

lemma path_facts:
  assumes "list_all (part_ok nfc) parts" "(istep retain nfc parts)\<^sup>*\<^sup>* w w'" "winv retain parts w"
  shows "winv retain parts w' \<and> prefix (irows w) (irows w') \<and> prefix (itext w) (itext w') \<and> prefix (isaves w) (isaves w')"
  using assms(2)
proof (induction rule: rtranclp_induct)
  case (step y z)
  then show ?case using istep_facts [OF assms(1) _ step(2)] by (meson prefix_order.trans)
qed (use assms(3) in simp)

text \<open>Behind every state there is the one an invocation would begin with.\<close>

lemma last_fresh:
  assumes "list_all (part_ok nfc) parts" "(istep retain nfc parts)\<^sup>*\<^sup>* start w"
  shows "\<exists>f. fresh f \<and> (istep retain nfc parts)\<^sup>*\<^sup>* start f \<and> (istep retain nfc parts)\<^sup>*\<^sup>* f w \<and> isaves f = isaves w \<and> prefix (irows f) (irows w)"
  using assms(2)
proof (induction rule: rtranclp_induct)
  case base
  then show ?case using fresh_start by (intro exI [of _ start]) simp
next
  case (step y z)
  obtain f where f: "fresh f" "(istep retain nfc parts)\<^sup>*\<^sup>* start f" "(istep retain nfc parts)\<^sup>*\<^sup>* f y" "isaves f = isaves y" "prefix (irows f) (irows y)"
    using step(3) by blast
  have y: "winv retain parts y" using path_facts [OF assms(1) step(1) winv_start] by simp
  note z = istep_facts [OF assms(1) y step(2)]
  show ?case
  proof (cases "fresh z")
    case True
    then show ?thesis using step(1, 2) by (intro exI [of _ z]) auto
  next
    case False
    have "(istep retain nfc parts)\<^sup>*\<^sup>* f z" using f(3) step(2) by auto
    moreover have "prefix (irows f) (irows z)" using f(5) z(2) by (rule prefix_order.trans)
    ultimately show ?thesis using f z(4) False by (intro exI [of _ f]) auto
  qed
qed

end
