(* ===== verification/Canonical_Size.thy ===== *)
theory Canonical_Size
  imports Canonical_Ideal
begin

text \<open>The stream behind a cursor, and that the text of a cursor fits into a checkpoint.\<close>

subsection \<open>The stream\<close>

definition holds_text :: "sha256 \<Rightarrow> js_string \<Rightarrow> bool" where
  "holds_text h u \<longleftrightarrow> sha_inv h \<and> sha_view h = sha_view (sha_feed new_sha256 (utf8 u))"

definition sha_at :: "js_string \<Rightarrow> sha256_checkpoint" where
  "sha_at u = projr (checkpoint_sha256 (sha_feed new_sha256 (utf8 u)))"

lemma holds_new: "holds_text new_sha256 []"
  using sha.feed_nil [OF sha_inv_new] by (simp add: holds_text_def utf8_def)

lemma holds_update:
  assumes "holds_text h u" "whole u"
  shows "\<exists>h'. update_sha256 h (utf8 t) = Inr h' \<and> holds_text h' (u @ t)"
proof -
  have h: "sha_inv h" "sha_view h = sha_view (sha_feed new_sha256 (utf8 u))" using assms(1) by (simp_all add: holds_text_def)
  have "sha_view (sha_feed h (utf8 t)) = sha_view (sha_feed (sha_feed new_sha256 (utf8 u)) (utf8 t))"
    by (rule sha.feed_cong [OF h(1) sha_inv_feed [OF sha_inv_new] h(2)])
  also have "\<dots> = sha_view (sha_feed new_sha256 (utf8 (u @ t)))"
    unfolding utf8_whole [OF assms(2)] by (rule sha.feed_append [OF sha_inv_new])
  finally show ?thesis using h(1) sha_inv_feed update_sha256_feed by (auto simp: holds_text_def sha_inv_def)
qed

lemma checkpoint_of_view:
  "sha_inv s \<Longrightarrow> checkpoint_sha256 s = Inr \<lparr>cp_words = map uint (fst (sha_view s)), cp_pending = map uint (fst (snd (sha_view s))),
     cp_bytes = decimal (fst (snd (snd (sha_view s))))\<rparr>"
  by (simp add: checkpoint_sha256_def sha_inv_def sha_view_def pending_def)

lemma sha_inv_text: "sha_inv (sha_feed new_sha256 (utf8 u))"
  by (rule sha_inv_feed) simp

lemma holds_checkpoint: "holds_text h u \<Longrightarrow> checkpoint_sha256 h = Inr (sha_at u)"
  using sha_inv_text [of u] by (simp add: holds_text_def sha_at_def checkpoint_of_view)

lemma holds_resume: "\<exists>h. resume_sha256 (sha_at u) = Inr h \<and> holds_text h u"
  using checkpoint_resume [OF sha_inv_text [of u]] by (auto simp: holds_text_def sha_at_def)

lemma holds_digest: "holds_text h u \<Longrightarrow> fst (digestHex h) = sha256Text u"
  by (simp add: holds_text_def sha256Text_def digest_of_view)

lemma sha_at_bounds:
  shows "length (cp_words (sha_at u)) = 8" "\<forall>w\<in>set (cp_words (sha_at u)). 0 \<le> w \<and> w < 10 ^ 10"
    "length (cp_pending (sha_at u)) < 64" "\<forall>b\<in>set (cp_pending (sha_at u)). 0 \<le> b \<and> b < 10 ^ 3" "cp_bytes (sha_at u) = decimal (byte_length u)"
proof -
  let ?s = "sha_feed new_sha256 (utf8 u)"
  have inv: "length (state ?s) = 8" "length (pending ?s) < 64" using sha_inv_text [of u] by (simp_all add: sha_inv_def pending_def)
  have at: "sha_at u = \<lparr>cp_words = map uint (state ?s), cp_pending = map uint (pending ?s), cp_bytes = decimal (byte_count ?s)\<rparr>"
    using checkpoint_of_view [OF sha_inv_text [of u]] by (simp add: sha_at_def sha_view_def)
  show "length (cp_words (sha_at u)) = 8" "length (cp_pending (sha_at u)) < 64" using inv at by simp_all
  have "uint w < 2 ^ 32" for w :: u32 by (rule order_less_le_trans [OF uint_lt2p]) simp
  then have w: "uint w < 10 ^ 10" for w :: u32 by (rule order_less_trans) simp
  have "uint b < 2 ^ 8" for b :: u8 by (rule order_less_le_trans [OF uint_lt2p]) simp
  then have b: "uint b < 10 ^ 3" for b :: u8 by (rule order_less_trans) simp
  show "\<forall>w\<in>set (cp_words (sha_at u)). 0 \<le> w \<and> w < 10 ^ 10" "\<forall>b\<in>set (cp_pending (sha_at u)). 0 \<le> b \<and> b < 10 ^ 3"
    using w b unfolding at by auto
  show "cp_bytes (sha_at u) = decimal (byte_length u)"
    using sha_feed_absorb(2) [OF sha_inv_new, of "utf8 u"] unfolding at by (simp add: byte_length_def new_sha256_def)
qed

subsection \<open>The text of a cursor\<close>

definition keeps_ascii :: "(js_string \<Rightarrow> js_string) \<Rightarrow> bool" where
  "keeps_ascii nfc \<longleftrightarrow> (\<forall>s. plain_ascii s \<longrightarrow> nfc s = s)"

lemma json_within_number: "0 \<le> n \<Longrightarrow> n < 10 ^ k \<Longrightarrow> 0 < k \<Longrightarrow> json_within nfc k (VInt n)"
  using length_decimal [of "nat n" k] by (simp add: json_within_def int_text_def ascii_def nat_less_iff)

lemma ascii_plain: "list_all (\<lambda>c. of_char c < (128 :: nat)) s \<Longrightarrow> plain_ascii (ascii s)"
  by (auto simp: plain_ascii_def ascii_def list_all_iff unat_char)

lemma length_ascii: "length (ascii s) = length s"
  by (simp add: ascii_def)

lemma json_within_ascii: "keeps_ascii nfc \<Longrightarrow> plain_ascii (ascii s) \<Longrightarrow> length s \<le> n \<Longrightarrow> json_within nfc (6 * n + 2) (VText (ascii s))"
  by (rule json_within_text) (auto simp: keeps_ascii_def length_ascii)

lemma digest_text: "length (sha256Text t) = 64" "plain_ascii (ascii (sha256Text t))"
proof -
  let ?bs = "std_blocks initialState (utf8 t @ std_padding (length (utf8 t)))"
  have "length (fst (absorb initialState (utf8 t @ std_padding (length (utf8 t))))) = 8" by (rule length_absorb_state) simp
  then have len: "length ?bs = 8" by (simp add: absorb_blocks_std)
  have "length (concat (map hex_word ws)) = 8 * length ws" for ws by (induction ws) (simp_all add: hex_word_def)
  then show "length (sha256Text t) = 64" by (simp add: sha256Text_def sha256_standard_def len)
  have "unat (of_nat (of_char (hex_digit (unat (drop_bit (4 * k) w AND 15)))) :: u16) < 128" for k and w :: u32
  proof (rule hex_digit_ascii)
    have "drop_bit (4 * k) w AND 15 \<le> 15" by (rule word_and_le1)
    then show "unat (drop_bit (4 * k) w AND 15) < 16" by (simp add: word_le_nat_alt)
  qed
  then have "plain_ascii (ascii (hex_word w))" for w
    unfolding plain_ascii_def ascii_def hex_word_def list_all_iff set_map by (simp del: list.set)
  then have "plain_ascii (ascii (concat (map hex_word ws)))" for ws by (induction ws) (simp_all add: plain_ascii_def ascii_def)
  then show "plain_ascii (ascii (sha256Text t))" by (simp add: sha256Text_def sha256_standard_def)
qed

lemma sha_within:
  assumes "keeps_ascii nfc" "byte_length u < 10 ^ 19"
  shows "json_within nfc 902 (sha_value (sha_at u))"
proof -
  note sb = sha_at_bounds [of u]
  have plain: "nfc (ascii s) = ascii s" if "list_all (\<lambda>c. of_char c < (128 :: nat)) s" for s
    using ascii_plain [OF that] assms(1) by (simp add: keeps_ascii_def)
  have "json_within nfc (length (map VInt (cp_words (sha_at u))) * (10 + 1) + 2) (VArray (map VInt (cp_words (sha_at u))))"
    using sb(2) by (intro json_within_array) (auto intro!: json_within_number)
  then have words: "json_within nfc 254 (VArray (map VInt (cp_words (sha_at u))))" by (rule json_within_mono) (simp add: sb(1))
  have "json_within nfc (length (map VInt (cp_pending (sha_at u))) * (3 + 1) + 2) (VArray (map VInt (cp_pending (sha_at u))))"
    using sb(4) by (intro json_within_array) (auto intro!: json_within_number)
  then have rest: "json_within nfc 254 (VArray (map VInt (cp_pending (sha_at u))))" by (rule json_within_mono) (use sb(3) in simp)
  have "json_within nfc (6 * 19 + 2) (VText (ascii (cp_bytes (sha_at u))))"
    unfolding sb(5) by (rule json_within_ascii [OF assms(1) decimal_ascii]) (rule length_decimal [OF assms(2)], simp)
  then have "json_within nfc 254 (VText (ascii (cp_bytes (sha_at u))))" by (rule json_within_mono) simp
  then have "json_within nfc (3 * (254 + 6 * 7 + 4) + 2) (sha_value (sha_at u))" unfolding sha_value_def
    by (intro json_within_mono [OF json_within_object [where n = 254 and m = 7]]) (use words rest in \<open>auto simp: plain length_ascii\<close>)
  then show ?thesis by simp
qed

text \<open>Cursors of a text that is not absurdly long.\<close>

definition cursor_fits_in :: "(js_string \<Rightarrow> js_string) \<Rightarrow> work_cursor \<Rightarrow> js_string \<Rightarrow> nat \<Rightarrow> bool" where
  "cursor_fits_in nfc cur u n \<longleftrightarrow> wc_part cur + wc_chunk cur < 10 ^ 19 \<and> nfc (wc_after cur) = wc_after cur \<and> length (wc_after cur) \<le> 500 \<and>
     byte_length u < 10 ^ 19 \<and> n < 10 ^ 19"

lemma digest_cursor_fits:
  assumes "keeps_ascii nfc" "cursor_fits_in nfc cur u n" "dg = None \<or> dg = Some (sha256Text t)" "p = None \<or> p = Some n"
  shows "\<exists>content. canonicalJson nfc (digest_value \<lparr>dc_work = cur, dc_sha = sha_at u, dc_digest = dg, dc_payload = p\<rparr>) = Inr content \<and> byte_length content \<le> 65536"
    (is "\<exists>content. canonicalJson nfc ?v = Inr content \<and> _")
proof -
  have plain: "nfc (ascii s) = ascii s" if "list_all (\<lambda>c. of_char c < (128 :: nat)) s" for s
    using ascii_plain [OF that] assms(1) by (simp add: keeps_ascii_def)
  have number: "json_within nfc 3002 (VInt (int k))" if "k < 10 ^ 19" for k
    by (rule json_within_mono [OF json_within_int [OF that]]) simp
  have after: "json_within nfc 3002 (VText (wc_after cur))"
    by (rule json_within_mono [OF json_within_text [of nfc "wc_after cur" 500]]) (use assms(2) in \<open>simp_all add: cursor_fits_in_def\<close>)
  have sha: "json_within nfc 3002 (sha_value (sha_at u))"
    by (rule json_within_mono [OF sha_within [OF assms(1)]]) (use assms(2) in \<open>simp_all add: cursor_fits_in_def\<close>)
  have dig: "json_within nfc 3002 (VText (ascii (sha256Text t)))"
    by (rule json_within_mono [OF json_within_ascii [OF assms(1) digest_text(2), of t 64]]) (simp_all add: digest_text(1))
  have "json_within nfc (6 * (3002 + 6 * 13 + 4) + 2) ?v" unfolding digest_value_def
    by (rule json_within_mono [OF json_within_object [where n = 3002 and m = 13]])
      (use assms(2-4) after sha dig in \<open>auto simp: cursor_fits_in_def plain length_ascii number\<close>)
  then obtain content where "canonicalJsonAt nfc [] ?v = Inr content" "length content \<le> 6 * (3002 + 6 * 13 + 4) + 2"
    unfolding json_within_def by blast
  then show ?thesis using byte_length_bounds [of content] by (simp add: canonicalJson_def)
qed

end
