(* ===== verification/Canonical_Sim.thy ===== *)
theory Canonical_Sim
  imports Canonical_Size
begin

text \<open>
  An invocation of \<open>prepareCanonicalDigest\<close> goes along with the ideal run: the rows it finds are a
  beginning of the rows \<open>limit\<close> of that run, and its checkpoints are those of the state it is in.
\<close>

subsection \<open>Rows\<close>

definition pays :: "digest_context \<Rightarrow> bool" where
  "pays ctx \<longleftrightarrow> dx_retain ctx \<and> dx_name ctx = Candidate"

definition payload_of :: "digest_context \<Rightarrow> nat \<Rightarrow> nat option" where
  "payload_of ctx n = (if pays ctx then Some n else None)"

definition bytes_row :: "js_string \<Rightarrow> js_string \<times> string" where
  "bytes_row s = (s, sha256Text s)"

definition cursor_row :: "(js_string \<Rightarrow> js_string) \<Rightarrow> digest_cursor \<Rightarrow> digest_row" where
  "cursor_row nfc c = (let content = projr (canonicalJson nfc (digest_value c))
     in \<lparr>dr_cursor = parsed_cursor nfc c, dr_content = content, dr_sha = sha256Text content\<rparr>)"

definition saved_cursor :: "digest_context \<Rightarrow> work_cursor \<times> js_string \<times> nat \<Rightarrow> digest_cursor" where
  "saved_cursor ctx s = (case s of (cur, u, n) \<Rightarrow> \<lparr>dc_work = cur, dc_sha = sha_at u, dc_digest = None, dc_payload = payload_of ctx n\<rparr>)"

abbreviation numbered :: "'r list \<Rightarrow> (nat \<times> 'r) list" where
  "numbered rows \<equiv> enumerate 0 rows"

definition rows_between :: "js_string list \<Rightarrow> (nat \<times> js_string \<times> string) list \<Rightarrow> js_string list \<Rightarrow> bool" where
  "rows_between few table many \<longleftrightarrow> map_of (numbered (map bytes_row few)) \<subseteq>\<^sub>m map_of table \<and> map_of table \<subseteq>\<^sub>m map_of (numbered (map bytes_row many))"

definition rows_ok :: "digest_context \<Rightarrow> js_string list \<Rightarrow> ideal \<Rightarrow> digest_store \<Rightarrow> bool" where
  "rows_ok ctx limit i store \<longleftrightarrow> di_checkpoints store = numbered (map (cursor_row (dx_nfc ctx) \<circ> saved_cursor ctx) (il_saves i)) \<and>
     rows_between (il_rows i) (di_bytes store) limit"

lemma map_of_numbered: "map_of (numbered xs) k = (if k < length xs then Some (xs ! k) else None)"
proof -
  have "map_of (enumerate n xs) k = (if n \<le> k \<and> k < n + length xs then Some (xs ! (k - n)) else None)" for n
    by (induction xs arbitrary: n) (auto simp: nth_Cons')
  then show ?thesis by simp
qed

lemma numbered_prefix: "prefix few many \<Longrightarrow> map_of (numbered (map bytes_row few)) \<subseteq>\<^sub>m map_of (numbered (map bytes_row many))"
  by (auto simp: map_le_def map_of_numbered prefix_def nth_append split: if_splits)

lemma rows_between_fewer: "rows_between few table many \<Longrightarrow> prefix fewer few \<Longrightarrow> rows_between fewer table many"
  using numbered_prefix map_le_trans unfolding rows_between_def by blast

lemma rows_ok_earlier: "rows_ok ctx limit i store \<Longrightarrow> il_saves f = il_saves i \<Longrightarrow> prefix (il_rows f) (il_rows i) \<Longrightarrow> rows_ok ctx limit f store"
  by (auto simp: rows_ok_def rows_between_fewer)

lemma insert_between:
  assumes "rows_between few table many" "prefix (few @ [s]) many"
  shows "rows_between (few @ [s]) (insert_row (length few) (bytes_row s) table) many"
    "map_of (insert_row (length few) (bytes_row s) table) (length few) = Some (bytes_row s)"
proof -
  let ?n = "length few" and ?t = "insert_row (length few) (bytes_row s) table"
  have at: "map_of (numbered (map bytes_row many)) ?n = Some (bytes_row s)"
    using assms(2) by (auto simp: map_of_numbered prefix_def nth_append)
  have t: "map_of ?t = (map_of table)(?n \<mapsto> bytes_row s)"
  proof (cases "map_of table ?n")
    case None
    then show ?thesis by (auto simp: insert_row_def map_add_def fun_eq_iff split: option.splits)
  next
    case (Some r)
    then have "map_of (numbered (map bytes_row many)) ?n = Some r" using assms(1) unfolding rows_between_def map_le_def by (metis domI)
    then show ?thesis using Some at by (auto simp: insert_row_def)
  qed
  then show "map_of ?t ?n = Some (bytes_row s)" by simp
  have "map_of (numbered (map bytes_row (few @ [s]))) \<subseteq>\<^sub>m map_of ?t"
    unfolding map_le_def
  proof
    fix k assume "k \<in> dom (map_of (numbered (map bytes_row (few @ [s]))))"
    then have k: "k \<le> length few" by (auto simp: map_of_numbered split: if_splits)
    show "map_of (numbered (map bytes_row (few @ [s]))) k = map_of ?t k"
    proof (cases "k = length few")
      case False
      then have "map_of (numbered (map bytes_row few)) k = Some (bytes_row (few ! k))" using k by (simp add: map_of_numbered)
      moreover from this have "map_of table k = Some (bytes_row (few ! k))" using assms(1) unfolding rows_between_def map_le_def by (metis domI)
      ultimately show ?thesis using False k by (simp add: t map_of_numbered nth_append)
    qed (simp add: t map_of_numbered nth_append)
  qed
  moreover have "map_of ?t \<subseteq>\<^sub>m map_of (numbered (map bytes_row many))"
    using assms(1) at unfolding t rows_between_def by (auto simp: map_le_def)
  ultimately show "rows_between (few @ [s]) ?t many" by (simp add: rows_between_def)
qed

subsection \<open>The consumer\<close>

definition csim :: "digest_context \<Rightarrow> js_string list \<Rightarrow> bool \<Rightarrow> ideal \<Rightarrow> digest_state \<Rightarrow> bool" where
  "csim ctx limit safe i ds \<longleftrightarrow> holds_text (ds_hash ds) (il_text i) \<and> ds_payload ds = payload_of ctx (length (il_rows i)) \<and>
     ds_pending ds = il_pending i \<and> ds_bytes ds = il_bytes i \<and> ds_ordinal ds = length (il_saves i) \<and> (ds_left ds = None \<longleftrightarrow> safe) \<and>
     rows_ok ctx limit i (ds_store ds)"

definition stops :: "digest_context \<Rightarrow> js_string list \<Rightarrow> bool \<Rightarrow> ideal \<Rightarrow> digest_error \<times> digest_store \<Rightarrow> bool" where
  "stops ctx limit safe i r \<longleftrightarrow> fst r = Document_storage \<and> \<not> safe \<and> rows_ok ctx limit i (snd r)"

lemma flush_sim:
  assumes "csim ctx limit safe i ds" "ibounds (pays ctx) i" "prefix (il_rows (iflush i)) limit"
  shows "case flushPayload ds of Inr ds' \<Rightarrow> csim ctx limit safe (iflush i) ds' | Inl r \<Rightarrow> stops ctx limit safe i r"
proof (cases "pays ctx \<and> il_pending i \<noteq> []")
  case True
  let ?s = "il_pending i" and ?n = "length (il_rows i)"
  have sim: "ds_payload ds = Some ?n" "ds_pending ds = ?s" "rows_ok ctx limit i (ds_store ds)" "ds_left ds = None \<longleftrightarrow> safe"
    using assms(1) True by (auto simp: csim_def payload_of_def)
  have small: "byte_length ?s \<le> 524288" using assms(2) by (auto simp: ibounds_def)
  let ?store = "(ds_store ds)\<lparr>di_bytes := insert_row ?n (bytes_row ?s) (di_bytes (ds_store ds))\<rparr>"
  have flush: "iflush i = i\<lparr>il_rows := il_rows i @ [?s], il_pending := [], il_bytes := 0\<rparr>" using True by (simp add: iflush_def)
  then have rows: "prefix (il_rows i @ [?s]) limit" using assms(3) by simp
  have between: "rows_between (il_rows i) (di_bytes (ds_store ds)) limit" using sim(3) by (simp add: rows_ok_def)
  note ins = insert_between [OF between rows]
  have stored: "rows_ok ctx limit (iflush i) ?store" using ins(1) sim(3) by (simp add: rows_ok_def flush)
  have call: "retain_bytes_row ?n ?s (ds_store ds) = Inr ?store" using ins(2) by (simp add: retain_bytes_row_def bytes_row_def Let_def)
  show ?thesis
  proof (cases "ds_left ds = Some 0")
    case True
    then have "flushPayload ds = Inl (Document_storage, ds_store ds)"
      using sim(1, 2) \<open>pays ctx \<and> ?s \<noteq> []\<close> small by (simp add: flushPayload_def retainCanonicalBytes_def database_def raise_digest_def)
    then show ?thesis using sim(3, 4) True by (auto simp: stops_def)
  next
    case False
    then have "flushPayload ds = Inr (ds\<lparr>ds_store := ?store, ds_left := map_option (\<lambda>n. n - 1) (ds_left ds), ds_payload := Some (?n + 1), ds_pending := [], ds_bytes := 0\<rparr>)"
      using sim(1, 2) \<open>pays ctx \<and> ?s \<noteq> []\<close> small call by (simp add: flushPayload_def retainCanonicalBytes_def database_def)
    then show ?thesis using assms(1) stored True by (auto simp: csim_def flush payload_of_def)
  qed
next
  case False
  then have "iflush i = i" using assms(2) by (auto simp: ibounds_def iflush_def split: if_splits)
  moreover have "flushPayload ds = Inr ds" using False assms(1) by (auto simp: csim_def flushPayload_def payload_of_def)
  ultimately show ?thesis using assms(1) by simp
qed

lemma consume_sim:
  assumes "csim ctx limit safe i ds" "piece_ok t" "ibounds (pays ctx) i" "prefix (il_rows (iconsume (pays ctx) t i)) limit"
  shows "case consume_text t ds of Inr ds' \<Rightarrow> csim ctx limit safe (iconsume (pays ctx) t i) ds' | Inl r \<Rightarrow> stops ctx limit safe i r"
proof -
  have sim: "holds_text (ds_hash ds) (il_text i)" "ds_bytes ds = il_bytes i" "ds_payload ds = payload_of ctx (length (il_rows i))"
    using assms(1) by (simp_all add: csim_def)
  have "whole (il_text i)" using assms(3) by (simp add: ibounds_def)
  then obtain h where h: "update_sha256 (ds_hash ds) (utf8 t) = Inr h" "holds_text h (il_text i @ t)" using holds_update [OF sim(1)] by blast
  let ?ds = "ds\<lparr>ds_hash := h\<rparr>" and ?i = "i\<lparr>il_text := il_text i @ t\<rparr>"
  have same: "csim ctx limit safe ?i ?ds" using assms(1) h(2) by (simp add: csim_def rows_ok_def)
  show ?thesis
  proof (cases "pays ctx")
    case False
    then show ?thesis using h(1) sim(3) same by (simp add: consume_text_def payload_of_def iconsume_def)
  next
    case True
    let ?over = "il_bytes i + byte_length t > 524288"
    let ?j = "if ?over then iflush ?i else ?i"
    let ?m = "if ?over then flushPayload ?ds else Inr ?ds"
    have j: "iconsume (pays ctx) t i = ?j\<lparr>il_pending := il_pending ?j @ t, il_bytes := il_bytes ?j + byte_length t\<rparr>"
      using True by (simp add: iconsume_def Let_def)
    have m: "consume_text t ds = rbind ?m (\<lambda>ds2. Inr (ds2\<lparr>ds_pending := ds_pending ds2 @ t, ds_bytes := ds_bytes ds2 + byte_length t\<rparr>))"
      using h(1) sim(2, 3) True by (simp add: consume_text_def payload_of_def byte_length_def)
    have rows: "il_rows (iflush ?i) = il_rows (iflush i)" "iflush ?i = (iflush i)\<lparr>il_text := il_text i @ t\<rparr>" by (simp_all add: iflush_def)
    have "case ?m of Inr ds' \<Rightarrow> csim ctx limit safe ?j ds' | Inl r \<Rightarrow> stops ctx limit safe i r"
    proof (cases ?over)
      case over: True
      have pre: "prefix (il_rows (iflush i)) limit" using assms(4) over unfolding j by (simp add: rows(1))
      have old: "csim ctx limit safe i ds" by (rule assms(1))
      have "flushPayload ?ds = (case flushPayload ds of Inl r \<Rightarrow> Inl r | Inr ds' \<Rightarrow> Inr (ds'\<lparr>ds_hash := h\<rparr>))"
        by (auto simp: flushPayload_def retainCanonicalBytes_def database_def raise_digest_def split: option.splits sum.splits)
      then show ?thesis using flush_sim [OF old assms(3) pre] over h(2) rows(2)
        by (auto simp: csim_def rows_ok_def split: sum.splits)
    qed (use same in simp)
    then show ?thesis unfolding m j by (cases ?m) (auto simp: csim_def rows_ok_def)
  qed
qed

lemma retain_cursor_sim:
  assumes "canonicalJson nfc (digest_value c) = Inr content" "byte_length content \<le> 65536"
    "di_checkpoints (ds_store ds) = numbered rows" "ds_ordinal ds = length rows"
  shows "case retainDigestCheckpoint nfc c ds of
      Inr ds' \<Rightarrow> ds' = ds\<lparr>ds_store := (ds_store ds)\<lparr>di_checkpoints := numbered (rows @ [cursor_row nfc c])\<rparr>, ds_left := map_option (\<lambda>n. n - 1) (ds_left ds)\<rparr>
    | Inl r \<Rightarrow> r = (Document_storage, ds_store ds) \<and> ds_left ds \<noteq> None"
proof -
  have row: "\<lparr>dr_cursor = parsed_cursor nfc c, dr_content = content, dr_sha = sha256Text content\<rparr> = cursor_row nfc c"
    using assms(1) by (simp add: cursor_row_def)
  have ins: "insert_row (length rows) (cursor_row nfc c) (numbered rows) = numbered (rows @ [cursor_row nfc c])"
    by (simp add: insert_row_def map_of_numbered enumerate_append_eq)
  have "retain_cursor_row (ds_ordinal ds) (cursor_row nfc c) (ds_store ds) =
      Inr ((ds_store ds)\<lparr>di_checkpoints := numbered (rows @ [cursor_row nfc c])\<rparr>)"
    using assms(3, 4) ins by (simp add: retain_cursor_row_def map_of_numbered Let_def)
  then show ?thesis using assms(1, 2) by (simp add: retainDigestCheckpoint_def row database_def raise_digest_def)
qed

lemma save_sim:
  assumes "keeps_ascii (dx_nfc ctx)" "csim ctx limit safe i ds" "ibounds (pays ctx) i" "prefix (il_rows (iflush i)) limit"
    "cursor_fits_in (dx_nfc ctx) cur (il_text i) (length (il_rows (iflush i)))"
  shows "case save_digest ctx cur ds of
      Inr ds' \<Rightarrow> csim ctx limit safe (isave cur i) ds'
    | Inl r \<Rightarrow> stops ctx limit safe i r \<or> fst r = Continuation (length (il_saves i)) \<and> dx_yield ctx \<and> rows_ok ctx limit (isave cur i) (snd r)"
proof (cases "flushPayload ds")
  case (Inl r)
  then show ?thesis using flush_sim [OF assms(2-4)] by (simp add: save_digest_def)
next
  case (Inr ds1)
  let ?i = "iflush i"
  have sim: "csim ctx limit safe ?i ds1" using flush_sim [OF assms(2-4)] Inr by simp
  then have f: "checkpoint_sha256 (ds_hash ds1) = Inr (sha_at (il_text i))" "ds_payload ds1 = payload_of ctx (length (il_rows ?i))"
    "ds_ordinal ds1 = length (il_saves i)" "ds_left ds1 = None \<longleftrightarrow> safe"
    "di_checkpoints (ds_store ds1) = numbered (map (cursor_row (dx_nfc ctx) \<circ> saved_cursor ctx) (il_saves i))"
    by (auto simp: csim_def rows_ok_def holds_checkpoint)
  let ?c = "saved_cursor ctx (cur, il_text i, length (il_rows ?i))"
  have c: "?c = \<lparr>dc_work = cur, dc_sha = sha_at (il_text i), dc_digest = None, dc_payload = ds_payload ds1\<rparr>" by (simp add: saved_cursor_def f(2))
  obtain content where content: "canonicalJson (dx_nfc ctx) (digest_value ?c) = Inr content" "byte_length content \<le> 65536"
  proof -
    have "ds_payload ds1 = None \<or> ds_payload ds1 = Some (length (il_rows ?i))" by (simp add: f(2) payload_of_def)
    then show ?thesis using that digest_cursor_fits [OF assms(1, 5), of None _ "ds_payload ds1"] unfolding c by blast
  qed
  note kept = retain_cursor_sim [OF content f(5), simplified, OF f(3)]
  have m: "save_digest ctx cur ds = rbind (retainDigestCheckpoint (dx_nfc ctx) ?c ds1) (\<lambda>ds2. rbind (yield_checkpoint ctx ds2) (\<lambda>ds3. Inr (ds3\<lparr>ds_ordinal := ds_ordinal ds3 + 1\<rparr>)))"
    using Inr f(1) by (simp add: save_digest_def c)
  show ?thesis
  proof (cases "retainDigestCheckpoint (dx_nfc ctx) ?c ds1")
    case (Inl r)
    then have "r = (Document_storage, ds_store ds1)" "\<not> safe" using kept f(4) by auto
    moreover have "rows_ok ctx limit i (ds_store ds1)" using sim iflush_rows [of i] by (auto simp: csim_def intro: rows_ok_earlier)
    ultimately show ?thesis unfolding m using Inl by (simp add: stops_def)
  next
    case (Inr ds2)
    then have ds2: "ds2 = ds1\<lparr>ds_store := (ds_store ds1)\<lparr>di_checkpoints := numbered (map (cursor_row (dx_nfc ctx) \<circ> saved_cursor ctx) (il_saves i) @ [cursor_row (dx_nfc ctx) ?c])\<rparr>,
        ds_left := map_option (\<lambda>n. n - 1) (ds_left ds1)\<rparr>" using kept by simp
    have stored: "rows_ok ctx limit (isave cur i) (ds_store ds2)" using sim unfolding ds2 by (simp add: csim_def rows_ok_def)
    show ?thesis
    proof (cases "dx_yield ctx")
      case True
      then show ?thesis unfolding m using Inr stored f(3) ds2 by (simp add: yield_checkpoint_def raise_digest_def)
    next
      case False
      then show ?thesis unfolding m using Inr stored sim ds2
        by (auto simp: yield_checkpoint_def csim_def)
    qed
  qed
qed

end
