(* ===== verification/Canonical_Replay.thy ===== *)
theory Canonical_Replay
  imports Canonical_Sim
begin

text \<open>
  The digest under interruption. Whatever invocations went before, each cut off by a failure of the
  database or ended by its continuation, an invocation goes on where the checkpoints say and its digest is
  that of the whole canonical text.
\<close>

subsection \<open>Steps\<close>

definition wsim :: "digest_context \<Rightarrow> js_string list \<Rightarrow> bool \<Rightarrow> ideal work \<Rightarrow> digest_state work \<Rightarrow> bool" where
  "wsim ctx limit safe w v \<longleftrightarrow> wk_cursor v = wk_cursor w \<and> wk_records v = wk_records w \<and> wk_bytes v = wk_bytes w \<and>
     csim ctx limit safe (wk_consumer w) (wk_consumer v)"

lemma append_sim:
  assumes "wsim ctx limit safe w v" "piece_ok t" "ibounds (pays ctx) (wk_consumer w)" "prefix (irows (iappend (pays ctx) t w)) limit"
  shows "case append_text (digest_consumer ctx) t v of Inr v' \<Rightarrow> wsim ctx limit safe (iappend (pays ctx) t w) v' | Inl r \<Rightarrow> stops ctx limit safe (wk_consumer w) r"
proof -
  have "csim ctx limit safe (wk_consumer w) (wk_consumer v)" using assms(1) by (simp add: wsim_def)
  from consume_sim [OF this assms(2, 3)] assms(1, 4) show ?thesis
    by (cases "consume_text t (wk_consumer v)") (auto simp: append_text_def digest_consumer_def wsim_def iappend_def)
qed

lemma appends_sim:
  "wsim ctx limit safe w v \<Longrightarrow> list_all piece_ok ts \<Longrightarrow> ibounds (pays ctx) (wk_consumer w) \<Longrightarrow> prefix (irows (fold (iappend (pays ctx)) ts w)) limit \<Longrightarrow>
    case rfold (append_text (digest_consumer ctx)) ts v of Inr v' \<Rightarrow> wsim ctx limit safe (fold (iappend (pays ctx)) ts w) v' | Inl r \<Rightarrow> stops ctx limit safe (wk_consumer w) r"
proof (induction ts arbitrary: w v)
  case (Cons t ts)
  let ?w = "iappend (pays ctx) t w"
  have b: "ibounds (pays ctx) (wk_consumer ?w)" using Cons.prems ibounds_consume by (simp add: iappend_def)
  have grow: "prefix (irows ?w) (irows (fold (iappend (pays ctx)) ts ?w))" using iappends_facts [of ts "pays ctx" ?w] b Cons.prems(2) by simp
  then have limit: "prefix (irows ?w) limit" using Cons.prems(4) by (auto intro: prefix_order.trans)
  note one = append_sim [OF Cons.prems(1) _ Cons.prems(3) limit]
  show ?case
  proof (cases "append_text (digest_consumer ctx) t v")
    case (Inl r)
    then show ?thesis using one Cons.prems(2) by simp
  next
    case (Inr v1)
    then have "wsim ctx limit safe ?w v1" using one Cons.prems(2) by simp
    note rest = Cons.IH [OF this _ b]
    have "stops ctx limit safe (wk_consumer w) r" if "stops ctx limit safe (wk_consumer ?w) r" for r
      using that rows_ok_earlier [of ctx limit "wk_consumer ?w" _ "wk_consumer w"] iconsume_rows by (auto simp: stops_def iappend_def)
    then show ?thesis using Inr rest Cons.prems(2, 4) by (auto split: sum.splits)
  qed
qed simp

text \<open>What a stop leaves behind: the rows of a state that an invocation can begin with.\<close>

definition begins :: "digest_context \<Rightarrow> part list \<Rightarrow> ideal work \<Rightarrow> js_string list \<Rightarrow> digest_store \<Rightarrow> bool" where
  "begins ctx parts wz limit store \<longleftrightarrow> (\<exists>f. fresh f \<and> (istep (pays ctx) (dx_nfc ctx) parts)\<^sup>*\<^sup>* start f \<and>
     (istep (pays ctx) (dx_nfc ctx) parts)\<^sup>*\<^sup>* f wz \<and> rows_ok ctx limit (wk_consumer f) store)"

definition halts :: "digest_context \<Rightarrow> bool \<Rightarrow> digest_error \<Rightarrow> bool" where
  "halts ctx safe e \<longleftrightarrow> e = Document_storage \<and> \<not> safe \<or> (\<exists>n. e = Continuation n) \<and> dx_yield ctx"

text \<open>The parts of a document, the end of its run, and the rows it retains.\<close>

definition run_to :: "digest_context \<Rightarrow> part list \<Rightarrow> js_string \<Rightarrow> ideal work \<Rightarrow> js_string list \<Rightarrow> bool" where
  "run_to ctx parts t wz limit \<longleftrightarrow> keeps_ascii (dx_nfc ctx) \<and> list_all (part_ok (dx_nfc ctx)) parts \<and> byte_length t < 10 ^ 19 \<and>
     (istep (pays ctx) (dx_nfc ctx) parts)\<^sup>*\<^sup>* start wz \<and> action_at (dx_nfc ctx) parts (wk_cursor wz) = Finished \<and> itext wz = t \<and>
     limit = il_rows (iflush (wk_consumer wz))"

lemma cursor_after_ok:
  assumes "cursor_valid parts cur" "list_all (part_ok nfc) parts" "keeps_ascii nfc"
  shows "nfc (wc_after cur) = wc_after cur \<and> length (wc_after cur) \<le> 500"
proof -
  have e: "nfc [] = []" using assms(3) by (simp add: keeps_ascii_def plain_ascii_def)
  show ?thesis
  proof (cases "wc_after cur = []")
    case False
    then have p: "wc_part cur < length parts" using assms(1) by (auto simp: cursor_valid_def)
    then obtain source where s: "parts ! wc_part cur = Source source" using False assms(1) by (cases "parts ! wc_part cur") (auto simp: cursor_valid_def)
    have "part_ok nfc (parts ! wc_part cur)" using assms(2) p by (simp add: list_all_length)
    then have keys: "list_all (\<lambda>(key, v). key \<noteq> [] \<and> nfc key = key \<and> length key \<le> 500) (source [])" unfolding s part_ok.simps resumable_source_def by blast
    have "after_ok source (wc_after cur)" using assms(1) p s by (simp add: cursor_valid_def)
    then obtain v where "(wc_after cur, v) \<in> set (source [])" using False by (auto simp: after_ok_def)
    then show ?thesis using keys by (auto simp: list_all_iff)
  qed (simp add: e)
qed

lemma length_rows: "ibounds retain i \<Longrightarrow> length (il_rows i) \<le> length (il_text i)"
proof -
  assume b: "ibounds retain i"
  have "length (il_rows i) \<le> length (concat (il_rows i))" by (rule length_concat_ge) (use b in \<open>auto simp: ibounds_def\<close>)
  also have "\<dots> \<le> length (concat (il_rows i) @ il_pending i)" by simp
  also have "concat (il_rows i) @ il_pending i = (if retain then il_text i else [])" using b by (simp add: ibounds_def)
  also have "length (if retain then il_text i else []) \<le> length (il_text i)" by simp
  finally show ?thesis .
qed

lemma state_fits:
  assumes "run_to ctx parts t wz limit" "(istep (pays ctx) (dx_nfc ctx) parts)\<^sup>*\<^sup>* w wz" "winv (pays ctx) parts w"
  shows "cursor_fits_in (dx_nfc ctx) (wk_cursor w) (itext w) (length (irows w))" "prefix (irows w) limit"
proof -
  have ok: "list_all (part_ok (dx_nfc ctx)) parts" "keeps_ascii (dx_nfc ctx)" "itext wz = t" "byte_length t < 10 ^ 19" "limit = il_rows (iflush (wk_consumer wz))"
    using assms(1) by (simp_all add: run_to_def)
  note p = path_facts [OF ok(1) assms(2, 3)]
  then show "prefix (irows w) limit" using iflush_rows [of "wk_consumer wz"] ok(5) by (auto intro: prefix_order.trans)
  obtain rest where "t = itext w @ rest" using p ok(3) by (auto simp: prefix_def)
  then have "byte_length (itext w) \<le> byte_length t" using byte_length_prefix [of "length (itext w)" "length t" t] by simp
  then have small: "byte_length (itext w) < 10 ^ 19" "length (itext w) < 10 ^ 19" using ok(4) byte_length_ge [of "itext w"] by simp_all
  have "wc_part (wk_cursor w) + wc_chunk (wk_cursor w) < 10 ^ 19" "length (irows w) < 10 ^ 19"
    using small(2) assms(3) length_rows [of "pays ctx" "wk_consumer w"] by (simp_all add: winv_def)
  then show "cursor_fits_in (dx_nfc ctx) (wk_cursor w) (itext w) (length (irows w))"
    using small cursor_after_ok [OF _ ok(1, 2)] assms(3) by (simp add: cursor_fits_in_def winv_def)
qed

lemma step_sim:
  assumes "run_to ctx parts t wz limit" "winv (pays ctx) parts w" "wsim ctx limit safe w v" "istep (pays ctx) (dx_nfc ctx) parts w w'"
    "(istep (pays ctx) (dx_nfc ctx) parts)\<^sup>*\<^sup>* w' wz" "action_at (dx_nfc ctx) parts (wk_cursor w) = Take ts cur n due"
  shows "case perform (digest_consumer ctx) ts cur n due v of
      Inr v' \<Rightarrow> wsim ctx limit safe w' v'
    | Inl r \<Rightarrow> stops ctx limit safe (wk_consumer w) r \<or> (\<exists>n. fst r = Continuation n) \<and> dx_yield ctx \<and> isaves w' \<noteq> isaves w \<and> rows_ok ctx limit (wk_consumer w') (snd r)"
proof -
  have ok: "list_all (part_ok (dx_nfc ctx)) parts" "keeps_ascii (dx_nfc ctx)" using assms(1) by (simp_all add: run_to_def)
  have inv: "cursor_valid parts (wk_cursor w)" "ibounds (pays ctx) (wk_consumer w)" using assms(2) by (simp_all add: winv_def)
  note texts = action_texts [OF ok(1) inv(1) assms(6)]
  let ?a = "fold (iappend (pays ctx)) ts w"
  let ?b = "?a\<lparr>wk_cursor := cur, wk_records := wk_records ?a + n\<rparr>"
  let ?due = "due (wk_records ?b) (wk_bytes ?b)"
  note facts = iappends_facts [OF texts(1) inv(2)]
  have w': "w' = (if ?due then ?b\<lparr>wk_consumer := isave cur (wk_consumer ?a), wk_records := 0, wk_bytes := 0\<rparr> else ?b)"
    using assms(4, 6) by (auto simp: istep_def perform_def appends_ideal settle_def save_if_def save_work_def Let_def)
  have inv': "winv (pays ctx) parts w'" using istep_facts [OF ok(1) assms(2, 4)] by simp
  note fits = state_fits [OF assms(1, 5) inv']
  have rows: "prefix (irows ?a) limit" using fits(2) iflush_rows [of "wk_consumer ?a"] by (auto simp: w' split: if_splits intro: prefix_order.trans)
  note many = appends_sim [OF assms(3) texts(1) inv(2) rows]
  have back': "stops ctx limit safe (wk_consumer w) r" if "stops ctx limit safe (wk_consumer ?a) r" for r
    using that rows_ok_earlier [of ctx limit "wk_consumer ?a" _ "wk_consumer w"] facts by (auto simp: stops_def)
  show ?thesis
  proof (cases "rfold (append_text (digest_consumer ctx)) ts v")
    case (Inl r)
    then show ?thesis using many by (simp add: perform_def)
  next
    case (Inr v1)
    then have v1: "wsim ctx limit safe ?a v1" using many by simp
    show ?thesis
    proof (cases ?due)
      case False
      then have "\<not> due (wk_records v1 + n) (wk_bytes v1)" using v1 by (simp add: wsim_def)
      then show ?thesis using Inr v1 w' False by (simp add: perform_def settle_def save_if_def Let_def wsim_def)
    next
      case True
      have due: "due (wk_records v1 + n) (wk_bytes v1)" using v1 True by (simp add: wsim_def)
      have "csim ctx limit safe (wk_consumer ?a) (wk_consumer v1)" using v1 by (simp add: wsim_def)
      moreover have "ibounds (pays ctx) (wk_consumer ?a)" using facts by simp
      moreover have "prefix (il_rows (iflush (wk_consumer ?a))) limit" "cursor_fits_in (dx_nfc ctx) cur (il_text (wk_consumer ?a)) (length (il_rows (iflush (wk_consumer ?a))))"
        using fits True by (simp_all add: w')
      ultimately have saved: "case save_digest ctx cur (wk_consumer v1) of
          Inr ds' \<Rightarrow> csim ctx limit safe (isave cur (wk_consumer ?a)) ds'
        | Inl r \<Rightarrow> stops ctx limit safe (wk_consumer ?a) r \<or> fst r = Continuation (length (il_saves (wk_consumer ?a))) \<and> dx_yield ctx \<and> rows_ok ctx limit (isave cur (wk_consumer ?a)) (snd r)"
        by (rule save_sim [OF ok(2)])
      have "isaves w' \<noteq> isaves w" using True facts by (simp add: w')
      then show ?thesis using saved Inr due v1 True back' w'
        by (cases "save_digest ctx cur (wk_consumer v1)") (auto simp: perform_def settle_def save_if_def save_work_def digest_consumer_def Let_def wsim_def)
    qed
  qed
qed

lemma next_step:
  assumes "run_to ctx parts t wz limit" "(istep (pays ctx) (dx_nfc ctx) parts)\<^sup>*\<^sup>* w wz" "action_at (dx_nfc ctx) parts (wk_cursor w) = Take ts cur n due"
  shows "\<exists>w'. istep (pays ctx) (dx_nfc ctx) parts w w' \<and> (istep (pays ctx) (dx_nfc ctx) parts)\<^sup>*\<^sup>* w' wz"
proof -
  have "w \<noteq> wz" using assms(1, 3) by (auto simp: run_to_def)
  then show ?thesis using assms(2) by (auto elim: converse_rtranclpE)
qed

lemma stop_begins:
  assumes "run_to ctx parts t wz limit" "(istep (pays ctx) (dx_nfc ctx) parts)\<^sup>*\<^sup>* start w" "(istep (pays ctx) (dx_nfc ctx) parts)\<^sup>*\<^sup>* w wz"
    "rows_ok ctx limit (wk_consumer w) store"
  shows "begins ctx parts wz limit store"
proof -
  have "list_all (part_ok (dx_nfc ctx)) parts" using assms(1) by (simp add: run_to_def)
  from last_fresh [OF this assms(2)] obtain f where f: "fresh f" "(istep (pays ctx) (dx_nfc ctx) parts)\<^sup>*\<^sup>* start f"
      "(istep (pays ctx) (dx_nfc ctx) parts)\<^sup>*\<^sup>* f w" "isaves f = isaves w" "prefix (irows f) (irows w)" by blast
  have "(istep (pays ctx) (dx_nfc ctx) parts)\<^sup>*\<^sup>* f wz" using f(3) assms(3) by (rule rtranclp_trans)
  then show ?thesis unfolding begins_def using f rows_ok_earlier [OF assms(4) f(4, 5)] by blast
qed

lemma run_sim:
  assumes "run_to ctx parts t wz limit"
  shows "runs (digest_consumer ctx) (dx_nfc ctx) parts v r \<Longrightarrow> wsim ctx limit safe w v \<Longrightarrow> (istep (pays ctx) (dx_nfc ctx) parts)\<^sup>*\<^sup>* start w \<Longrightarrow>
    (istep (pays ctx) (dx_nfc ctx) parts)\<^sup>*\<^sup>* w wz \<Longrightarrow>
    case r of Inr v' \<Rightarrow> wsim ctx limit safe wz v' | Inl (e, store) \<Rightarrow> halts ctx safe e \<and> begins ctx parts wz limit store \<and>
      (e = Document_storage \<or> length (isaves w) < length (di_checkpoints store))"
proof (induction arbitrary: w rule: runs.induct)
  case (runs_finished v)
  then have "\<not> istep (pays ctx) (dx_nfc ctx) parts w w'" for w' by (auto simp: istep_def wsim_def)
  then have "w = wz" using runs_finished(4) by (metis converse_rtranclpE)
  then show ?case using runs_finished(2) by simp
next
  case (runs_stopped v ts cur n due x)
  have act: "action_at (dx_nfc ctx) parts (wk_cursor w) = Take ts cur n due" using runs_stopped(1, 3) by (simp add: wsim_def)
  obtain w' where w': "istep (pays ctx) (dx_nfc ctx) parts w w'" "(istep (pays ctx) (dx_nfc ctx) parts)\<^sup>*\<^sup>* w' wz"
    using next_step [OF assms runs_stopped(5) act] by blast
  have start': "(istep (pays ctx) (dx_nfc ctx) parts)\<^sup>*\<^sup>* start w'" using runs_stopped(4) w'(1) by simp
  have inv: "winv (pays ctx) parts w" using path_facts [OF _ runs_stopped(4) winv_start] assms by (simp add: run_to_def)
  have more: "prefix (isaves w) (isaves w')" using istep_facts(5) [OF _ inv w'(1)] assms by (simp add: run_to_def)
  obtain e store where x: "x = (e, store)" by fastforce
  from step_sim [OF assms inv runs_stopped(3) w' act] runs_stopped(2)
  have ways: "halts ctx safe e \<and> (e = Document_storage \<and> rows_ok ctx limit (wk_consumer w) store \<or> isaves w' \<noteq> isaves w \<and> rows_ok ctx limit (wk_consumer w') store)"
    by (auto simp: stops_def halts_def x)
  moreover from this have "begins ctx parts wz limit store"
    using stop_begins [OF assms runs_stopped(4, 5)] stop_begins [OF assms start' w'(2)] by blast
  moreover have "length (isaves w) < length (di_checkpoints store)" if "isaves w' \<noteq> isaves w" "rows_ok ctx limit (wk_consumer w') store"
    using that more by (auto simp: rows_ok_def prefix_def)
  ultimately show ?case by (auto simp: x)
next
  case (runs_on v ts cur n due v' r)
  have act: "action_at (dx_nfc ctx) parts (wk_cursor w) = Take ts cur n due" using runs_on(1, 5) by (simp add: wsim_def)
  obtain w' where w': "istep (pays ctx) (dx_nfc ctx) parts w w'" "(istep (pays ctx) (dx_nfc ctx) parts)\<^sup>*\<^sup>* w' wz"
    using next_step [OF assms runs_on(7) act] by blast
  have inv: "winv (pays ctx) parts w" using path_facts [OF _ runs_on(6) winv_start] assms by (simp add: run_to_def)
  from step_sim [OF assms inv runs_on(5) w' act] runs_on(2) have "wsim ctx limit safe w' v'" by simp
  moreover have "(istep (pays ctx) (dx_nfc ctx) parts)\<^sup>*\<^sup>* start w'" using runs_on(6) w'(1) by simp
  ultimately have "case r of Inr v' \<Rightarrow> wsim ctx limit safe wz v' | Inl (e, store) \<Rightarrow> halts ctx safe e \<and> begins ctx parts wz limit store \<and>
      (e = Document_storage \<or> length (isaves w') < length (di_checkpoints store))" using runs_on(4) w'(2) by blast
  moreover have "length (isaves w) \<le> length (isaves w')" by (rule prefix_length_le) (use istep_facts(5) [OF _ inv w'(1)] assms in \<open>simp add: run_to_def\<close>)
  ultimately show ?case by (auto split: sum.splits)
qed

subsection \<open>The end\<close>

definition digest_done :: "digest_context \<Rightarrow> js_string \<Rightarrow> js_string list \<Rightarrow> digest_store \<Rightarrow> bool" where
  "digest_done ctx t limit store \<longleftrightarrow> (\<exists>n c. digestCheckpoint store = Inr (Some (n, c)) \<and> dc_digest c = Some (sha256Text t) \<and>
     dc_payload c = payload_of ctx (length limit)) \<and> rows_between limit (di_bytes store) limit"

lemma latest_numbered: "latest_row (numbered (rows @ [r])) = Some (length rows, r)"
proof -
  have "fst ` set (numbered (rows @ [r])) = set [0..<length (rows @ [r])]" unfolding set_map [symmetric] map_fst_enumerate by simp
  then have "fst ` set (numbered (rows @ [r])) = {0..<length rows + 1}" by (simp only: set_upt length_append) simp
  moreover have "Max {0..<length rows + 1} = length rows" by (rule Max_eqI) auto
  ultimately have m: "Max (fst ` set (numbered (rows @ [r]))) = length rows" by simp
  have "numbered (rows @ [r]) \<noteq> []" by (simp add: enumerate_append_eq)
  then show ?thesis unfolding latest_row_def Let_def m by (simp only: if_False map_of_numbered) simp
qed

lemma checkpoint_numbered:
  "di_checkpoints store = numbered (rows @ [cursor_row nfc c]) \<Longrightarrow> digestCheckpoint store = Inr (Some (length rows, parsed_cursor nfc c))"
  by (simp add: digestCheckpoint_def latest_numbered cursor_row_def Let_def)

lemma complete_sim:
  assumes "run_to ctx parts t wz limit" "wsim ctx limit safe wz v"
  shows "case complete_digest ctx (wk_cursor v) (wk_consumer v) of
      Inr (digest, store) \<Rightarrow> digest = sha256Text t \<and> digest_done ctx t limit store
    | Inl (e, store) \<Rightarrow> halts ctx safe e \<and> (begins ctx parts wz limit store \<and> e = Document_storage \<or> digest_done ctx t limit store)"
proof -
  let ?ds = "wk_consumer v" and ?i = "wk_consumer wz" and ?nfc = "dx_nfc ctx"
  have run: "keeps_ascii ?nfc" "list_all (part_ok ?nfc) parts" "(istep (pays ctx) ?nfc parts)\<^sup>*\<^sup>* start wz" "itext wz = t" "limit = il_rows (iflush ?i)"
    using assms(1) by (simp_all add: run_to_def)
  have cs: "csim ctx limit safe ?i ?ds" "wk_cursor v = wk_cursor wz" using assms(2) by (simp_all add: wsim_def)
  have inv: "winv (pays ctx) parts wz" using path_facts [OF run(2, 3) winv_start] by simp
  then have b: "ibounds (pays ctx) ?i" by (simp add: winv_def)
  have h: "checkpoint_sha256 (ds_hash ?ds) = Inr (sha_at t)" "fst (digestHex (ds_hash ?ds)) = sha256Text t"
    using cs(1) run(4) holds_checkpoint holds_digest by (auto simp: csim_def)
  have stop: "begins ctx parts wz limit store" if "rows_ok ctx limit ?i store" for store
    by (rule stop_begins [OF assms(1) run(3) rtranclp.rtrancl_refl that])
  have "prefix (il_rows (iflush ?i)) limit" using run(5) by simp
  note flushed = flush_sim [OF cs(1) b this]
  show ?thesis
  proof (cases "flushPayload ?ds")
    case (Inl r)
    then show ?thesis using flushed h stop by (cases r) (auto simp: complete_digest_def stops_def halts_def)
  next
    case (Inr ds1)
    then have c1: "csim ctx limit safe (iflush ?i) ds1" using flushed by simp
    let ?c = "\<lparr>dc_work = wk_cursor v, dc_sha = sha_at t, dc_digest = Some (sha256Text t), dc_payload = ds_payload ds1\<rparr>"
    have f: "ds_payload ds1 = payload_of ctx (length limit)" "ds_ordinal ds1 = length (isaves wz)" "ds_left ds1 = None \<longleftrightarrow> safe"
      "di_checkpoints (ds_store ds1) = numbered (map (cursor_row ?nfc \<circ> saved_cursor ctx) (isaves wz))" "rows_between limit (di_bytes (ds_store ds1)) limit"
      using c1 run(5) by (auto simp: csim_def rows_ok_def)
    have fits: "cursor_fits_in ?nfc (wk_cursor v) t (length limit)"
    proof -
      have "cursor_fits_in ?nfc (wk_cursor wz) t (length (irows wz))"
        using state_fits(1) [OF assms(1) rtranclp.rtrancl_refl inv] run(4) by simp
      moreover have "length limit \<le> length t" using length_rows [of "pays ctx" "iflush ?i"] ibounds_flush [OF b] run(4, 5) by simp
      then have "length limit < 10 ^ 19" using byte_length_ge [of t] assms(1) by (simp add: run_to_def)
      ultimately show ?thesis using cs(2) by (simp add: cursor_fits_in_def)
    qed
    have "ds_payload ds1 = None \<or> ds_payload ds1 = Some (length limit)" by (simp add: f(1) payload_of_def)
    then obtain content where content: "canonicalJson ?nfc (digest_value ?c) = Inr content" "byte_length content \<le> 65536"
      using digest_cursor_fits [OF run(1) fits, of "Some (sha256Text t)" t "ds_payload ds1"] by blast
    note kept = retain_cursor_sim [OF content f(4), simplified, OF f(2)]
    have m: "complete_digest ctx (wk_cursor v) ?ds = rbind (retainDigestCheckpoint ?nfc ?c ds1) (\<lambda>ds2. rbind (yield_checkpoint ctx ds2) (\<lambda>ds3. Inr (sha256Text t, ds_store ds3)))"
      using Inr h by (simp add: complete_digest_def Let_def)
    show ?thesis
    proof (cases "retainDigestCheckpoint ?nfc ?c ds1")
      case (Inl r)
      moreover have "rows_ok ctx limit ?i (ds_store ds1)" using c1 iflush_rows [of ?i] by (auto simp: csim_def intro: rows_ok_earlier)
      ultimately show ?thesis unfolding m using kept f(3) stop by (auto simp: halts_def)
    next
      case (Inr ds2)
      then have ds2: "ds_store ds2 = (ds_store ds1)\<lparr>di_checkpoints := numbered (map (cursor_row ?nfc \<circ> saved_cursor ctx) (isaves wz) @ [cursor_row ?nfc ?c])\<rparr>"
        using kept by simp
      then have "di_checkpoints (ds_store ds2) = numbered (map (cursor_row ?nfc \<circ> saved_cursor ctx) (isaves wz) @ [cursor_row ?nfc ?c])" by simp
      from checkpoint_numbered [OF this] have "digest_done ctx t limit (ds_store ds2)"
        using f(1, 5) ds2 by (auto simp: digest_done_def parsed_cursor_def)
      then show ?thesis unfolding m using Inr by (auto simp: yield_checkpoint_def raise_digest_def halts_def)
    qed
  qed
qed

subsection \<open>Invocations\<close>

lemma isaves_start: "isaves start = []"
  by (simp add: start_def)

definition outcome_ok :: "digest_context \<Rightarrow> part list \<Rightarrow> js_string \<Rightarrow> ideal work \<Rightarrow> js_string list \<Rightarrow> bool \<Rightarrow> nat \<Rightarrow> (string \<times> digest_store) digest_result \<Rightarrow> bool" where
  "outcome_ok ctx parts t wz limit safe n r \<longleftrightarrow> (case r of
     Inr (digest, store) \<Rightarrow> digest = sha256Text t \<and> digest_done ctx t limit store
   | Inl (e, store) \<Rightarrow> halts ctx safe e \<and> (begins ctx parts wz limit store \<and> (e = Document_storage \<or> n < length (di_checkpoints store)) \<or> digest_done ctx t limit store))"

lemma resume_sim:
  assumes "run_to ctx parts t wz limit" "canonicalParts (dx_nfc ctx) d = Inr parts" "fresh f" "(istep (pays ctx) (dx_nfc ctx) parts)\<^sup>*\<^sup>* start f"
    "(istep (pays ctx) (dx_nfc ctx) parts)\<^sup>*\<^sup>* f wz" "rows_ok ctx limit (wk_consumer f) store"
    "dc_work c = wk_cursor f" "dc_sha c = sha_at (itext f)" "dc_payload c = payload_of ctx (length (irows f))"
  shows "outcome_ok ctx parts t wz limit (left = None) (length (isaves f)) (resume_digest ctx d c (length (isaves f)) left store)"
proof -
  let ?nfc = "dx_nfc ctx" and ?cn = "digest_consumer ctx"
  have ok: "list_all (part_ok ?nfc) parts" using assms(1) by (simp add: run_to_def)
  have inv: "winv (pays ctx) parts f" using path_facts [OF ok assms(4) winv_start] by simp
  obtain h where h: "resume_sha256 (dc_sha c) = Inr h" "holds_text h (itext f)" using holds_resume [of "itext f"] assms(8) by auto
  let ?ds = "\<lparr>ds_store = store, ds_left = left, ds_hash = h, ds_payload = dc_payload c, ds_pending = [], ds_bytes = 0, ds_ordinal = length (isaves f)\<rparr>"
  let ?v = "\<lparr>wk_cursor = dc_work c, wk_records = 0, wk_bytes = 0, wk_consumer = ?ds\<rparr>"
  let ?r = "each_part ?cn ?nfc (drop (wc_part (wk_cursor ?v)) parts) ?v"
  have "wsim ctx limit (left = None) f ?v" using assms(3, 6, 7, 9) h(2) by (simp add: wsim_def csim_def fresh_def)
  moreover have "runs ?cn ?nfc parts ?v ?r" by (rule parts_run [OF ok]) (use inv assms(7) in \<open>simp add: winv_def\<close>)
  ultimately have run: "case ?r of Inr v' \<Rightarrow> wsim ctx limit (left = None) wz v' | Inl (e, store) \<Rightarrow> halts ctx (left = None) e \<and> begins ctx parts wz limit store \<and>
      (e = Document_storage \<or> length (isaves f) < length (di_checkpoints store))"
    using run_sim [OF assms(1) _ _ assms(4, 5)] by blast
  have "resume_digest ctx d c (length (isaves f)) left store = rbind ?r (\<lambda>v. complete_digest ctx (wk_cursor v) (wk_consumer v))"
    using h(1) assms(2) by (simp add: resume_digest_def consumeCanonicalWork_def rbind_assoc)
  then have eq: "resume_digest ctx d c (length (isaves f)) left store = rbind ?r (\<lambda>v. complete_digest ctx (wk_cursor v) (wk_consumer v))" .
  show ?thesis
  proof (cases ?r)
    case (Inl x)
    then show ?thesis unfolding eq using run by (cases x) (simp add: outcome_ok_def)
  next
    case (Inr v)
    then have "wsim ctx limit (left = None) wz v" using run by simp
    from complete_sim [OF assms(1) this] show ?thesis unfolding eq Inr rbind.simps
      by (cases "complete_digest ctx (wk_cursor v) (wk_consumer v)") (auto simp: outcome_ok_def)
  qed
qed

text \<open>Both kinds of rows an invocation can find.\<close>

lemma begin_sim:
  assumes "run_to ctx parts t wz limit" "canonicalParts (dx_nfc ctx) d = Inr parts" "begins ctx parts wz limit store"
  shows "outcome_ok ctx parts t wz limit (left = None) (length (di_checkpoints store)) (prepareCanonicalDigest ctx d left store)"
proof (cases "left = Some 0")
  case True
  then show ?thesis using assms(3) by (simp add: prepareCanonicalDigest_def outcome_ok_def halts_def)
next
  case False
  let ?left = "map_option (\<lambda>n. n - 1) left"
  have left: "?left = None \<longleftrightarrow> left = None" by simp
  obtain f where f: "fresh f" "(istep (pays ctx) (dx_nfc ctx) parts)\<^sup>*\<^sup>* start f" "(istep (pays ctx) (dx_nfc ctx) parts)\<^sup>*\<^sup>* f wz"
    "rows_ok ctx limit (wk_consumer f) store" using assms(3) unfolding begins_def by blast
  have rows: "di_checkpoints store = numbered (map (cursor_row (dx_nfc ctx) \<circ> saved_cursor ctx) (isaves f))" using f(4) by (simp add: rows_ok_def)
  then have len: "length (di_checkpoints store) = length (isaves f)" by simp
  note resumed = resume_sim [OF assms(1, 2) f]
  show ?thesis
  proof (cases "isaves f = []")
    case True
    then have s: "f = start" "digestCheckpoint store = Inr None" using f(1) rows by (auto simp: fresh_def digestCheckpoint_def latest_row_def)
    let ?c = "\<lparr>dc_work = at 0 [] 0, dc_sha = sha_at [], dc_digest = None, dc_payload = payload_of ctx 0\<rparr>"
    have c: "initial_digest_cursor ctx = Inr ?c"
      using holds_checkpoint [OF holds_new] by (simp add: initial_digest_cursor_def payload_of_def pays_def)
    have "outcome_ok ctx parts t wz limit (?left = None) (length (isaves f)) (resume_digest ctx d ?c (length (isaves f)) ?left store)"
      by (rule resumed) (simp_all add: s(1) start_def)
    then show ?thesis unfolding len left using False s c True by (simp add: prepareCanonicalDigest_def Let_def)
  next
    case saved: False
    then obtain rest where rest: "isaves f = rest @ [(wk_cursor f, itext f, length (irows f))]"
      using f(1) by (metis append_butlast_last_id fresh_def isaves_start)
    let ?c = "saved_cursor ctx (wk_cursor f, itext f, length (irows f))"
    have "winv (pays ctx) parts f" using path_facts [OF _ f(2) winv_start] assms(1) by (simp add: run_to_def)
    then have "dx_nfc ctx (wc_after (wk_cursor f)) = wc_after (wk_cursor f)"
      using cursor_after_ok [of parts "wk_cursor f" "dx_nfc ctx"] assms(1) by (simp add: winv_def run_to_def)
    then have parsed: "parsed_cursor (dx_nfc ctx) ?c = ?c" by (simp add: parsed_cursor_def saved_cursor_def)
    have "di_checkpoints store = numbered (map (cursor_row (dx_nfc ctx) \<circ> saved_cursor ctx) rest @ [cursor_row (dx_nfc ctx) ?c])"
      using rows rest by simp
    from checkpoint_numbered [OF this] have at_end: "digestCheckpoint store = Inr (Some (length rest, ?c))" using parsed by simp
    have "outcome_ok ctx parts t wz limit (?left = None) (length (isaves f)) (resume_digest ctx d ?c (length (isaves f)) ?left store)"
      by (rule resumed) (simp_all add: saved_cursor_def)
    then show ?thesis unfolding len left using False at_end rest by (simp add: prepareCanonicalDigest_def saved_cursor_def Let_def)
  qed
qed

lemma digest_done_sim:
  assumes "digest_done ctx t limit store"
  shows "prepareCanonicalDigest ctx d left store = (if left = Some 0 then Inl (Document_storage, store) else Inr (sha256Text t, store))"
proof -
  have "sha256Text t \<noteq> []" using digest_text(1) [of t] by auto
  then show ?thesis using assms by (auto simp: digest_done_def prepareCanonicalDigest_def Let_def)
qed

lemma begins_saves:
  assumes "run_to ctx parts t wz limit" "begins ctx parts wz limit store"
  shows "length (di_checkpoints store) \<le> length (isaves wz)"
proof -
  have ok: "list_all (part_ok (dx_nfc ctx)) parts" using assms(1) by (simp add: run_to_def)
  obtain f where f: "(istep (pays ctx) (dx_nfc ctx) parts)\<^sup>*\<^sup>* start f" "(istep (pays ctx) (dx_nfc ctx) parts)\<^sup>*\<^sup>* f wz" "rows_ok ctx limit (wk_consumer f) store"
    using assms(2) unfolding begins_def by blast
  have "winv (pays ctx) parts f" using path_facts [OF ok f(1) winv_start] by simp
  then have "prefix (isaves f) (isaves wz)" using path_facts [OF ok f(2)] by simp
  then show ?thesis using f(3) prefix_length_le by (auto simp: rows_ok_def)
qed

text \<open>Invocations may differ in whether they end at a checkpoint.\<close>

lemma yield_same [simp]: "pays (ctx\<lparr>dx_yield := y\<rparr>) = pays ctx" "payload_of (ctx\<lparr>dx_yield := y\<rparr>) = payload_of ctx"
  "saved_cursor (ctx\<lparr>dx_yield := y\<rparr>) = saved_cursor ctx" "rows_ok (ctx\<lparr>dx_yield := y\<rparr>) = rows_ok ctx"
  "begins (ctx\<lparr>dx_yield := y\<rparr>) = begins ctx" "digest_done (ctx\<lparr>dx_yield := y\<rparr>) = digest_done ctx" "run_to (ctx\<lparr>dx_yield := y\<rparr>) = run_to ctx"
proof -
  show p: "pays (ctx\<lparr>dx_yield := y\<rparr>) = pays ctx" by (simp add: pays_def)
  then show q: "payload_of (ctx\<lparr>dx_yield := y\<rparr>) = payload_of ctx" by (simp add: payload_of_def fun_eq_iff)
  then show r: "saved_cursor (ctx\<lparr>dx_yield := y\<rparr>) = saved_cursor ctx" by (simp add: saved_cursor_def fun_eq_iff)
  show t: "rows_ok (ctx\<lparr>dx_yield := y\<rparr>) = rows_ok ctx" by (rule ext)+ (simp add: rows_ok_def r)
  show "begins (ctx\<lparr>dx_yield := y\<rparr>) = begins ctx" by (simp add: begins_def fun_eq_iff p t)
  show "digest_done (ctx\<lparr>dx_yield := y\<rparr>) = digest_done ctx" by (simp add: digest_done_def fun_eq_iff q)
  show "run_to (ctx\<lparr>dx_yield := y\<rparr>) = run_to ctx" by (simp add: run_to_def fun_eq_iff p)
qed

text \<open>The rows that any invocations, one after another, can leave.\<close>

definition rows_left :: "(string \<times> digest_store) digest_result \<Rightarrow> digest_store" where
  "rows_left r = (case r of Inl (e, store) \<Rightarrow> store | Inr (digest, store) \<Rightarrow> store)"

inductive digest_rows :: "digest_context \<Rightarrow> doc \<Rightarrow> digest_store \<Rightarrow> bool" for ctx d where
  rows_none: "digest_rows ctx d \<lparr>di_bytes = [], di_checkpoints = []\<rparr>"
| rows_attempt: "digest_rows ctx d store \<Longrightarrow> digest_rows ctx d (rows_left (prepareCanonicalDigest (ctx\<lparr>dx_yield := yields\<rparr>) d left store))"

definition canonical_document :: "digest_context \<Rightarrow> doc \<Rightarrow> js_string \<Rightarrow> bool" where
  "canonical_document ctx d t \<longleftrightarrow> keeps_ascii (dx_nfc ctx) \<and> doc_ok (dx_nfc ctx) d \<and> canonicalJson (dx_nfc ctx) (doc_value d) = Inr t \<and> byte_length t < 10 ^ 19"

lemma run_exists:
  assumes "canonical_document ctx d t"
  shows "\<exists>parts wz limit. canonicalParts (dx_nfc ctx) d = Inr parts \<and> run_to ctx parts t wz limit \<and> (pays ctx \<longrightarrow> concat limit = t)"
proof -
  let ?nfc = "dx_nfc ctx"
  have doc: "keeps_ascii ?nfc" "doc_ok ?nfc d" "canonicalJsonAt ?nfc [] (doc_value d) = Inr t" "byte_length t < 10 ^ 19"
    using assms by (simp_all add: canonical_document_def canonicalJson_def)
  obtain parts where parts: "canonicalParts ?nfc d = Inr parts" "parts_spell ?nfc parts t" using canonicalParts_spell [OF doc(2, 3)] by blast
  obtain wz where wz: "(istep (pays ctx) ?nfc parts)\<^sup>*\<^sup>* start wz" "action_at ?nfc parts (wk_cursor wz) = Finished" "itext wz = t"
    using ideal_run [OF parts(2)] by blast
  have ok: "list_all (part_ok ?nfc) parts" using parts(2) by (simp add: parts_spell_def)
  have "ibounds (pays ctx) (wk_consumer wz)" using path_facts [OF ok wz(1) winv_start] by (simp add: winv_def)
  then have "concat (il_rows (iflush (wk_consumer wz))) = t" if "pays ctx" using ibounds_flush [of "pays ctx" "wk_consumer wz"] that wz(3) by (simp add: ibounds_def)
  then show ?thesis using parts(1) doc ok wz by (auto simp: run_to_def)
qed

lemma rows_invariant:
  assumes "run_to ctx parts t wz limit" "canonicalParts (dx_nfc ctx) d = Inr parts"
  shows "digest_rows ctx d store \<Longrightarrow> begins ctx parts wz limit store \<or> digest_done ctx t limit store"
proof (induction rule: digest_rows.induct)
  case rows_none
  have "rows_ok ctx limit (wk_consumer start) \<lparr>di_bytes = [], di_checkpoints = []\<rparr>" by (simp add: rows_ok_def start_def rows_between_def)
  then show ?case using stop_begins [OF assms(1), of start] assms(1) by (simp add: run_to_def)
next
  case (rows_attempt store yields left)
  show ?case
  proof (cases "digest_done ctx t limit store")
    case True
    then show ?thesis using digest_done_sim [of "ctx\<lparr>dx_yield := yields\<rparr>" t limit store d left] by (simp add: rows_left_def)
  next
    case False
    then have "begins ctx parts wz limit store" using rows_attempt by simp
    then have "outcome_ok (ctx\<lparr>dx_yield := yields\<rparr>) parts t wz limit (left = None) (length (di_checkpoints store)) (prepareCanonicalDigest (ctx\<lparr>dx_yield := yields\<rparr>) d left store)"
      by (intro begin_sim) (simp_all add: assms)
    then show ?thesis by (auto simp: outcome_ok_def rows_left_def split: sum.splits prod.splits)
  qed
qed

text \<open>The retained bytes of a completed digest.\<close>

definition retained_text :: "digest_store \<Rightarrow> nat \<Rightarrow> digest_error + js_string" where
  "retained_text store n = rbind (collect (map (readCanonicalBytes store) [0..<n])) (\<lambda>texts. Inr (concat texts))"

lemma rows_text: "rows_between limit (di_bytes store) limit \<Longrightarrow> retained_text store (length limit) = Inr (concat limit)"
proof -
  assume b: "rows_between limit (di_bytes store) limit"
  have "readCanonicalBytes store k = Inr (limit ! k)" if "k < length limit" for k
  proof -
    have "map_of (numbered (map bytes_row limit)) k = Some (bytes_row (limit ! k))" using that by (simp add: map_of_numbered)
    then have "map_of (di_bytes store) k = Some (bytes_row (limit ! k))" using b unfolding rows_between_def map_le_def by (metis domI)
    then show ?thesis by (simp add: readCanonicalBytes_def bytes_row_def)
  qed
  then have "map (readCanonicalBytes store) [0..<length limit] = map Inr limit" by (intro nth_equalityI) simp_all
  then have "collect (map (readCanonicalBytes store) [0..<length limit]) = Inr limit" by (simp add: collect_list)
  then show ?thesis by (simp add: retained_text_def)
qed

text \<open>
  C3. Take a document whose record sources go on behind any key they gave, and any number of earlier
  invocations, each cut off at any call of the database or ended at a checkpoint. An invocation then either
  stops because a call of the database failed or because it has saved a checkpoint and was asked to yield;
  or it returns the SHA-256 digest of the canonical JSON of the whole document. The checkpoint it leaves
  then holds the number of retained chunks of bytes, if they are to be retained, and those chunks, read
  back, spell exactly that JSON. No replay, integrity or capacity error can occur.
\<close>

theorem canonical_digest_resumes:
  assumes "canonical_document ctx d t" "digest_rows ctx d store"
  shows "case prepareCanonicalDigest ctx d left store of
      Inr (digest, store') \<Rightarrow> digest = sha256Text t \<and>
        (\<exists>n c. digestCheckpoint store' = Inr (Some (n, c)) \<and> dc_digest c = Some digest \<and>
          (case dc_payload c of None \<Rightarrow> \<not> pays ctx | Some k \<Rightarrow> pays ctx \<and> retained_text store' k = Inr t))
    | Inl (e, store') \<Rightarrow> e = Document_storage \<and> left \<noteq> None \<or> (\<exists>n. e = Continuation n) \<and> dx_yield ctx"
proof -
  obtain parts wz limit where run: "canonicalParts (dx_nfc ctx) d = Inr parts" "run_to ctx parts t wz limit" "pays ctx \<longrightarrow> concat limit = t"
    using run_exists [OF assms(1)] by blast
  have spelt: "\<exists>n c. digestCheckpoint store' = Inr (Some (n, c)) \<and> dc_digest c = Some (sha256Text t) \<and>
      (case dc_payload c of None \<Rightarrow> \<not> pays ctx | Some k \<Rightarrow> pays ctx \<and> retained_text store' k = Inr t)" if "digest_done ctx t limit store'" for store'
    using that rows_text [of limit store'] run(3) by (auto simp: digest_done_def payload_of_def)
  show ?thesis
  proof (cases "digest_done ctx t limit store")
    case True
    then show ?thesis using digest_done_sim [OF True, of d left] spelt by simp
  next
    case False
    then have "begins ctx parts wz limit store" using rows_invariant [OF run(2, 1) assms(2)] by simp
    from begin_sim [OF run(2, 1) this, of left] show ?thesis
      using spelt by (auto simp: outcome_ok_def halts_def split: sum.splits prod.splits)
  qed
qed

text \<open>A document with two records behind a source.\<close>

definition two_records :: record_source where
  "two_records after =
     (if after = [] then [([97], VText [97]), ([98], VInt 2)] else if after = [97] then [([98], VInt 2)] else [])"

definition small_document :: doc where
  "small_document = Members [(ascii ''records'', Collection two_records), (ascii ''contract'', Leaf (VBool True))]"

definition small_context :: digest_context where
  "small_context = \<lparr>dx_nfc = (\<lambda>s. s), dx_name = Candidate, dx_yield = False, dx_retain = True\<rparr>"

definition small_text :: js_string where
  "small_text = ascii ''{\"contract\":true,\"records\":[\"a\",2]}''"

lemma two_records_resumable: "resumable_source (\<lambda>s. s) two_records"
proof -
  have "two_records key = ys" if "two_records [] = xs @ (key, v) # ys" for xs key v ys
    using that by (cases xs; cases "tl xs") (auto simp: two_records_def)
  then show ?thesis unfolding resumable_source_def by (auto simp: two_records_def)
qed

lemma small_document_text: "canonicalJson (\<lambda>s. s) (doc_value small_document) = Inr small_text"
  by (simp add: small_text_def canonicalJson_def small_document_def two_records_def sort_by_def compareUtf8_def plain_ascii_def ascii_def quote_def escape_unit_def
      is_high_def is_low_def int_text_def decimal.simps digit_char_def enumerate_eq_zip)

lemma small_document_canonical: "canonical_document small_context small_document small_text"
proof -
  have "byte_length (quote s) \<le> 524286" if "length s \<le> 8" for s
    using byte_length_bounds [of "quote s"] length_quote [of s] that by simp
  then have "byte_length (quote (ascii ''records'')) \<le> 524286" "byte_length (quote (ascii ''contract'')) \<le> 524286" by (simp_all add: ascii_def)
  then have "doc_ok (\<lambda>s. s) small_document" using two_records_resumable by (simp add: small_document_def name_fits_def) (simp add: two_records_def)
  moreover have "byte_length small_text < 10 ^ 19"
    by (rule order_le_less_trans [OF byte_length_bounds]) (simp add: small_text_def ascii_def)
  ultimately show ?thesis using small_document_text by (simp add: canonical_document_def small_context_def keeps_ascii_def)
qed

theorem canonical_digest_resumes_witness:
  "\<exists>store. digest_rows small_context small_document store \<and> store = rows_left (prepareCanonicalDigest small_context small_document (Some 2) \<lparr>di_bytes = [], di_checkpoints = []\<rparr>) \<and>
    (case prepareCanonicalDigest small_context small_document None store of
      Inr (digest, store') \<Rightarrow> digest = sha256Text small_text \<and>
        (\<exists>n c. digestCheckpoint store' = Inr (Some (n, c)) \<and> dc_digest c = Some digest \<and>
          (case dc_payload c of None \<Rightarrow> False | Some k \<Rightarrow> retained_text store' k = Inr small_text))
    | Inl r \<Rightarrow> False)"
proof -
  let ?store = "rows_left (prepareCanonicalDigest small_context small_document (Some 2) \<lparr>di_bytes = [], di_checkpoints = []\<rparr>)"
  have same: "small_context\<lparr>dx_yield := False\<rparr> = small_context" by (simp add: small_context_def)
  have "digest_rows small_context small_document ?store"
    using rows_attempt [OF rows_none, of small_context small_document False "Some 2"] unfolding same .
  moreover have "\<not> dx_yield small_context" "pays small_context" by (simp_all add: small_context_def pays_def)
  ultimately show ?thesis using canonical_digest_resumes [OF small_document_canonical, of ?store None]
    by (intro exI [of _ ?store]) (auto split: sum.splits option.splits)
qed

text \<open>Invocations without failures, as long as they end with a continuation.\<close>

fun digest_attempts :: "digest_context \<Rightarrow> doc \<Rightarrow> nat \<Rightarrow> digest_store \<Rightarrow> string option" where
  "digest_attempts ctx d 0 store = None"
| "digest_attempts ctx d (Suc n) store = (case prepareCanonicalDigest ctx d None store of
     Inr (digest, store') \<Rightarrow> Some digest
   | Inl (e, store') \<Rightarrow> (case e of Continuation ordinal \<Rightarrow> digest_attempts ctx d n store' | _ \<Rightarrow> None))"

lemma attempts_finish:
  assumes "run_to ctx parts t wz limit" "canonicalParts (dx_nfc ctx) d = Inr parts"
  shows "begins ctx parts wz limit store \<or> digest_done ctx t limit store \<Longrightarrow> \<exists>n. digest_attempts ctx d n store = Some (sha256Text t)"
proof (induction "length (isaves wz) - length (di_checkpoints store)" arbitrary: store rule: less_induct)
  case less
  have one: "digest_attempts ctx d 1 s = Some (sha256Text t)" if "digest_done ctx t limit s" for s
    using digest_done_sim [OF that, of d None] by simp
  show ?case
  proof (cases "digest_done ctx t limit store")
    case False
    then have b: "begins ctx parts wz limit store" using less(2) by simp
    note out = begin_sim [OF assms b, of None]
    show ?thesis
    proof (cases "prepareCanonicalDigest ctx d None store")
      case (Inr r)
      then show ?thesis using out by (intro exI [of _ 1]) (auto simp: outcome_ok_def)
    next
      case (Inl r)
      obtain e store' where r: "r = (e, store')" by fastforce
      obtain ordinal where e: "e = Continuation ordinal" using out Inl r by (auto simp: outcome_ok_def halts_def)
      have later: "begins ctx parts wz limit store' \<and> length (di_checkpoints store) < length (di_checkpoints store') \<or> digest_done ctx t limit store'"
        using out Inl r e by (auto simp: outcome_ok_def)
      have "\<exists>n. digest_attempts ctx d n store' = Some (sha256Text t)"
      proof (cases "digest_done ctx t limit store'")
        case False
        then have "begins ctx parts wz limit store'" "length (di_checkpoints store) < length (di_checkpoints store')" using later by simp_all
        moreover have "length (di_checkpoints store') \<le> length (isaves wz)" using begins_saves [OF assms(1)] calculation(1) by blast
        ultimately show ?thesis by (intro less(1)) auto
      qed (use one in blast)
      then obtain n where "digest_attempts ctx d n store' = Some (sha256Text t)" by blast
      then show ?thesis using Inl r e by (intro exI [of _ "Suc n"]) simp
    qed
  qed (use one in blast)
qed

text \<open>
  C14. The digest is reached: from the rows that any earlier invocations left, finitely many invocations
  without failures return it, also when each of them ends at its first checkpoint.
\<close>

theorem canonical_digest_finishes:
  assumes "canonical_document ctx d t" "digest_rows ctx d store"
  shows "\<exists>n. digest_attempts ctx d n store = Some (sha256Text t)"
proof -
  obtain parts wz limit where "canonicalParts (dx_nfc ctx) d = Inr parts" "run_to ctx parts t wz limit" using run_exists [OF assms(1)] by blast
  then show ?thesis using attempts_finish rows_invariant [OF _ _ assms(2)] by blast
qed

theorem canonical_digest_finishes_witness:
  "\<exists>n. digest_attempts (small_context\<lparr>dx_yield := True\<rparr>) small_document n \<lparr>di_bytes = [], di_checkpoints = []\<rparr> =
    Some (sha256Text small_text)"
proof -
  have "canonical_document (small_context\<lparr>dx_yield := True\<rparr>) small_document small_text"
    using small_document_canonical by (simp add: canonical_document_def)
  from canonical_digest_finishes [OF this rows_none] show ?thesis .
qed

end
