(* ===== verification/Spec2Isabelle.thy ===== *)
theory Spec2Isabelle
  imports Streaming_Sha256 Jsonl_Blocks Gunzip_Proofs Acquisition_Ledger Host_Pacing Sorted_Merge Reducer_Replay Canonical_Replay
begin

text \<open>
  \<^bold>\<open>Card Keepr: a verification of its ingestion core.\<close>

  Card Keepr is a catalogue of trading cards. An ingestion worker collects publisher pages and feeds
  as source evidence, reconciles them into a candidate catalogue, and publishes the candidate after
  an owner approved it; an API worker serves what was published. All state is in one SQLite database
  (D1) and an object store (R2). The work is done by short Workflow steps that may be interrupted and
  repeated at any point, so correctness rests on a few mechanisms that every step uses: atomic
  statement batches with guards, an event history from which the state of a run can be recomputed, a
  ledger that bounds what a collection may fetch, and decoders, digests and sorts that can be suspended
  in the middle and resumed by another process. These mechanisms are what is modelled here.

  \<^bold>\<open>Reading the model.\<close> A TypeScript function is a function of the same name; a class is a record of its
  private fields with one function per method; a thrown error is the left side of a sum; a SQL
  statement is a function on the tables and on SQLite's \<open>changes()\<close> register that may abort. Words have
  their width (\<open>u8\<close>, \<open>u32\<close>); JavaScript numbers that count are \<open>nat\<close> or \<open>int\<close>, with the safe-integer checks
  of the source written out. Whatever comes from outside (the clock, random identities, date parsing,
  the Workflow control plane, the object store, source adapters) is an argument. A handler that awaits
  takes as arguments what happens to the tables meanwhile (\<open>others\<close>, \<open>view\<close>, or the state \<open>seen\<close> before and the
  state \<open>db\<close> at commit).

  \<^bold>\<open>Theories and the code they model\<close> (paths under \<open>src/src/catalogue\<close>).

  \<^item> \<open>Prelude\<close>: errors as values, byte buffers, and three interfaces as locales: \<open>incremental\<close> (a stream fed
    piecewise), \<open>resumable\<close> (save, reload, continue) and \<open>guarded_system\<close> (interleaved transactions).
  \<^item> \<open>Json\<close>, \<open>Js_Text\<close>: values of \<open>JSON.parse\<close>; strings as UTF-16 code units, their UTF-8 form, and
    \<open>byteChunks\<close> of \<open>shared/reconciliation-payload.ts\<close>. Cutting a payload terminates, loses nothing, stays
    within 512 KiB per chunk and never splits a character.
  \<^item> \<open>Streaming_Sha256\<close>: \<open>shared/streaming-sha256.ts\<close>. The class computes FIPS 180-4 SHA-256 for every chunking
    and across checkpoints. Tables and rounds are the source's; the standard is defined separately.
  \<^item> \<open>Gunzip\<close>, \<open>Gunzip_Proofs\<close>: \<open>shared/resumable-gunzip.ts\<close>, the whole decoder with its bit buffer, Huffman
    tables, history window and checkpoint. End of file is reported only for verified content, \<open>next\<close>
    always returns, and a checkpoint taken anywhere is accepted. The loops of the source are
    \<open>partial_function (option)\<close>; that they return is proved, so no fuel is involved.
  \<^item> \<open>Jsonl_Blocks\<close>: \<open>shared/resumable-jsonl-blocks.ts\<close> and the generators of \<open>shared/gzip-jsonl.ts\<close>. The block
    assembler preserves the stream, agrees with the generator on blocks and on errors, makes progress,
    and its cursor round-trips.
  \<^item> \<open>Run_State\<close>, \<open>Run_Events\<close>: \<open>shared/ingestion-run-state.ts\<close> and \<open>shared/ingestion-run-events.ts\<close>. The state
    machine of a run, the validation of events and the fold of a history, page by page.
  \<^item> \<open>Atomic_Batch\<close>: \<open>shared/catalogue-store-repository.ts\<close>. Grouped statements, their expansion, the budget of 900
    statements and the transaction.
  \<^item> \<open>Run_Store\<close>, \<open>Run_Mutations\<close>: the tables of a run and every statement that moves a run to another state
    (\<open>shared/ingestion-run-event-repository.ts\<close>, \<open>ingestion-guards-repository.ts\<close>,
    \<open>ingestion-reservation-repository.ts\<close>, \<open>ingestion/run-lifecycle-repository.ts\<close>, the publication repositories,
    \<open>reconciliation/reconciliation-state-repository.ts\<close>).
  \<^item> \<open>Run_Refinement\<close>, \<open>Run_Commands\<close>: the invariant that the row of a run is the fold of its history. The
    locale \<open>run_update\<close> states what an UPDATE must do to keep it and is interpreted once per mutation;
    \<open>Run_Commands\<close> composes mutations into arbitrary transactions and proves refinement, finality of
    terminal states, well-formedness of rows and the repair of a damaged row.
  \<^item> \<open>Host_Pacing\<close>: \<open>source-evidence/host-pacing.ts\<close> and \<open>host-pacer.ts\<close>. Adaptive request pacing stays in bounds,
    recovers, and survives restarts.
  \<^item> \<open>Acquisition_Store\<close>, \<open>Acquisition_Legacy\<close>, \<open>Acquisition_Budget\<close>, \<open>Acquisition_Ledger\<close>:
    \<open>source-evidence/acquisition-budget-repository.ts\<close>, \<open>acquisition-legacy.ts\<close>, \<open>acquisition-budget.ts\<close> and
    \<open>source-parse-authority-repository.ts\<close>. The inductive relation \<open>acq_step\<close> has one rule per transaction and
    one for everything other components do; every account is the exact sum of its reservations and
    within its policy in every reachable state, admission and settlement are exact, extensions are
    idempotent, and a collection that may resume can dispatch.
  \<^item> \<open>Serialization\<close>: \<open>shared/serialization.ts\<close>. Canonical JSON, the text digests are taken from and records are
    sorted by: equal texts exactly for equal normalised content, keys in the order of their UTF-8 bytes.
  \<^item> \<open>Partitioned_Text\<close>: \<open>reconciliation/reconciliation-text.ts\<close> and its repository. Long texts of a record are
    stored apart as chunks; the record is restored from any later table, with the same canonical JSON.
  \<^item> \<open>Sorted_Records\<close>, \<open>Sorted_Spec\<close>, \<open>Sorted_Size\<close>, \<open>Sorted_Proofs\<close>, \<open>Sorted_Merge\<close>:
    \<open>reconciliation/reconciliation-sorted-records.ts\<close> with its repository, and the checkpoints of
    \<open>reconciliation-checkpoint.ts\<close>. \<open>Sorted_Records\<close> is the external merge sort as written, with a count of the
    writes an invocation gets to make; \<open>Sorted_Spec\<close> says what the runs and batches are on lists;
    \<open>Sorted_Size\<close> bounds the text of a cursor; the other two prove that every store interruptions can leave
    (\<open>sort_reach\<close>) is completed to the sorted records, without a failed replay or integrity check.

  \<^item> \<open>Reducer_State\<close>, \<open>Reducer_Spec\<close>, \<open>Reducer_Rows\<close>, \<open>Reducer_Steps\<close>, \<open>Reducer_Writes\<close>, \<open>Reducer_Reads\<close>, \<open>Reducer_Replay\<close>:
    \<open>reconciliation/reconciliation-reducer-state.ts\<close> and its repository, the index in which the reducers of
    reconciliation keep what they have learnt. \<open>Reducer_State\<close> is the class and its statements, with a count of
    the database calls that still succeed; \<open>Reducer_Spec\<close> has reducer programs, their meaning on plain maps
    and the rules they keep; the next four show each operation to agree with the maps on every store that
    holds effects of the run; \<open>Reducer_Replay\<close> closes this under interruption and resumption.

  \<^item> \<open>Canonical_Work\<close>, \<open>Canonical_Text\<close>, \<open>Canonical_Steps\<close>, \<open>Canonical_Digest\<close>, \<open>Canonical_Ideal\<close>,
    \<open>Canonical_Size\<close>, \<open>Canonical_Sim\<close>, \<open>Canonical_Replay\<close>: \<open>reconciliation/reconciliation-canonical-digest.ts\<close>,
    \<open>reconciliation-canonical-bytes.ts\<close> and \<open>canonicalValueChunks\<close> of \<open>reconciliation-preparation.ts\<close>. \<open>Canonical_Work\<close>
    has the pieces of canonical JSON and the traversal, for any consumer of its texts; \<open>Canonical_Text\<close> shows that
    the pieces spell canonical JSON, fit their limit and never end inside a character; \<open>Canonical_Steps\<close>
    turns the loops into steps that depend on the cursor alone. \<open>Canonical_Digest\<close> is the digest with its rows and
    checkpoints; the rest shows that every invocation follows the one run that is never interrupted
    (\<open>Canonical_Ideal\<close>), so that its digest is that of the whole text and is reached.

  \<^bold>\<open>How the parts interact.\<close> A collection (\<open>Acquisition_Budget\<close>) reserves a dispatch under the authority of
  a collecting run (\<open>Run_Store\<close>, whose integrity check it repeats), waits for its host (\<open>Host_Pacing\<close>), and
  retains the body with its digest (\<open>Streaming_Sha256\<close>). Archives are decoded and cut into blocks of
  records by \<open>Gunzip\<close> and \<open>Jsonl_Blocks\<close>. When the budget is exhausted the run is paused by the mutation of
  \<open>Run_Mutations\<close> inside the batch of \<open>Atomic_Batch\<close>. Payloads of run events are cut by \<open>Js_Text\<close>.
  Reconciliation sorts its records by \<open>Serialization\<close> with \<open>Sorted_Records\<close>, whose batches hold the envelopes of
  \<open>Partitioned_Text\<close>; that sort keys survive the partition is what connects the two proofs.
  The reducers' rows (\<open>Reducer_State\<close>) hold the same envelopes under digests of \<open>Serialization\<close>; their replay
  theorem rests on the round trip of \<open>Partitioned_Text\<close>. The candidate document is digested by
  \<open>Canonical_Digest\<close>, with the stream of \<open>Streaming_Sha256\<close> suspended in every checkpoint.

  \<^bold>\<open>Bounds.\<close> Numeric limits (512 KiB chunks, 900 statements, 128 rows per legacy
  page, 64 KiB output chunks, the record and block limits) are the source's. SQLite's 64-bit integers
  are unbounded in the ledger; the invariant keeps them below the safe-integer limits of its policies.
  The external sort assumes ordinals and counts below \<open>10 ^ 18\<close>, beyond any safe integer, so that a cursor
  fits its checkpoint; the digest assumes canonical texts below \<open>10 ^ 19\<close> bytes and record keys of at most
  500 units for the same reason. Its repeated invocations (\<open>digest_attempts\<close>) have fuel, and some amount is
  shown to be enough. The merge loops of the sort are \<open>partial_function (option)\<close> and proved to return. Iterations over a
  reducer index have fuel for as many rows as the table has and one call more; that this is enough is
  part of their lemmas.

  \<^bold>\<open>Not modelled.\<close> Source adapters and HTML parsing (third-party parsers, per-publisher tables); capture
  and parse orchestration, exports, backup and recovery (I/O against platform services); the
  reconciliation of cards, printings, products and identities and the curated revisions (domain rules, run
  as reducers over the index modelled here); reads,
  HTTP contracts, the workers' entry points, the CLI, scripts. Of the schema,
  constraints and triggers that only abort a transaction are left out unless a theorem depends on them.
\<close>

end
